(* ===== verification/Nix_Prelude.thy ===== *)
theory Nix_Prelude
  imports Main "HOL-Library.Word" "HOL-Library.Monad_Syntax"
begin

text \<open>
  What the component theories share: the machine types of the amd64 compiler the kernel is
  built with, the reading of C memory as lists of bytes, and the fact collections the
  component proofs extend.

  A C function that may run into undefined behaviour (a read or a write outside an object,
  a failed assertion, a panic) returns an option here, and \<^term>\<open>None\<close> stands for exactly
  that: the function does not return normally. A C error return (0, -1, nil) is an ordinary
  value. So a theorem that says a call is \<^term>\<open>Some\<close> of something is also a statement of
  memory safety.
\<close>

unbundle bit_operations_syntax

type_synonym u8 = "8 word"
type_synonym u16 = "16 word"
type_synonym u32 = "32 word"
type_synonym u64 = "64 word"

text \<open>The bytes of a piece of memory, lowest address first.\<close>

type_synonym bytes = "u8 list"

named_theorems wire_simps \<open>encoders: lengths, and what the decoder reads back\<close>
named_theorems block_simps \<open>what the block operations do to the data of a block\<close>

subsection \<open>Reading memory\<close>

text \<open>\<open>memmove\<close> of \<open>n\<close> bytes out of an object with the given bytes.\<close>

definition mem_read :: "nat \<Rightarrow> bytes \<Rightarrow> bytes option" where
  "mem_read n d = (if n \<le> length d then Some (take n d) else None)"

lemma mem_read_Some [simp]: "n \<le> length d \<Longrightarrow> mem_read n d = Some (take n d)"
  by (simp add: mem_read_def)

lemma mem_read_eq_Some: "mem_read n d = Some x \<longleftrightarrow> n \<le> length d \<and> x = take n d"
  by (auto simp: mem_read_def)

subsection \<open>C strings\<close>

text \<open>
  A \<open>char*\<close>: \<open>None\<close> is nil, \<open>Some bs\<close> points at the bytes \<open>bs\<close> followed by a NUL. What
  \<open>strlen\<close> and \<open>memmove\<close> see of it ends at the first NUL.
\<close>

type_synonym cstr = "bytes option"

definition cstr_bytes :: "cstr \<Rightarrow> bytes" where
  "cstr_bytes s = (case s of None \<Rightarrow> [] | Some bs \<Rightarrow> takeWhile (\<lambda>b. b \<noteq> 0) bs)"

definition strlen :: "cstr \<Rightarrow> nat" where
  "strlen s = length (cstr_bytes s)"

lemma cstr_bytes_None [simp]: "cstr_bytes None = []"
  by (simp add: cstr_bytes_def)

lemma cstr_bytes_idem [simp]: "cstr_bytes (Some (cstr_bytes s)) = cstr_bytes s"
  by (cases s) (simp_all add: cstr_bytes_def takeWhile_idem)

lemma cstr_bytes_no_nul: "0 \<notin> set (cstr_bytes s)"
  by (cases s) (auto simp: cstr_bytes_def dest: set_takeWhileD)

subsection \<open>Lists and words\<close>

lemma length_concat_const:
  "(\<And>x. x \<in> set xs \<Longrightarrow> length (f x) = k) \<Longrightarrow> length (concat (map f xs)) = k * length xs"
  by (induction xs) auto

lemma unat_u8_bound: "unat (w :: u8) < 256"
proof -
  have "unat w < 2 ^ LENGTH(8)" by (rule unsigned_less)
  then show ?thesis by simp
qed

lemma unat_u16_bound: "unat (w :: u16) < 65536"
proof -
  have "unat w < 2 ^ LENGTH(16)" by (rule unsigned_less)
  then show ?thesis by simp
qed

lemma unat_u32_bound: "unat (w :: u32) < 4294967296"
proof -
  have "unat w < 2 ^ LENGTH(32)" by (rule unsigned_less)
  then show ?thesis by simp
qed

lemma unat_of_nat_u16 [simp]: "n < 65536 \<Longrightarrow> unat (of_nat n :: u16) = n"
  by (simp add: unat_of_nat take_bit_nat_eq_self)

lemma unat_of_nat_u32 [simp]: "n < 4294967296 \<Longrightarrow> unat (of_nat n :: u32) = n"
  by (simp add: unat_of_nat take_bit_nat_eq_self)

lemma unat_ucast_u16_u32 [simp]: "unat (ucast (w :: u16) :: u32) = unat w"
  using unat_u16_bound [of w] by (simp add: unsigned_ucast_eq take_bit_nat_eq_self)

lemma ucast_u32_u16_of_nat [simp]: "(ucast (of_nat n :: u32) :: u16) = of_nat n"
  by (rule bit_word_eqI) (simp add: bit_simps)

lemma of_nat_unat_u16 [simp]: "(of_nat (unat (w :: u16)) :: u32) = ucast w"
  by (simp add: of_nat_unat)

end
