(* ===== verification/Wire.thy ===== *)
theory Wire
  imports Nix_Prelude
begin

text \<open>
  The byte order of the 9P wire: the GBIT and PBIT macros of \<open>sys/include/fcall.h\<close>, the
  string and qid encoders of \<open>libc/9sys/convS2M.c\<close> and their decoders in \<open>convM2S.c\<close>.
  A pointer into the message is the list of bytes from it to the end of the buffer, so a
  decoder returns the bytes it leaves, and reading past the end is \<^term>\<open>None\<close>. The locale
  \<open>wire_codec\<close> is the contract between an encoder and its decoder; its client lemmas carry
  it to arrays of encoded items.
\<close>

subsection \<open>The interface: an encoder and the decoder that undoes it\<close>

locale wire_codec =
  fixes enc :: "'v \<Rightarrow> bytes"
    and dec :: "bytes \<Rightarrow> ('v \<times> bytes) option"
    and ok :: "'v \<Rightarrow> bool"
  assumes dec_enc: "ok v \<Longrightarrow> dec (enc v @ r) = Some (v, r)"
begin

lemma enc_inject: "ok v \<Longrightarrow> ok w \<Longrightarrow> enc v @ r = enc w @ s \<Longrightarrow> v = w \<and> r = s"
  by (metis dec_enc option.inject prod.inject)

lemma enc_list_inject:
  "length vs = length ws \<Longrightarrow> (\<forall>v \<in> set vs. ok v) \<Longrightarrow> (\<forall>w \<in> set ws. ok w) \<Longrightarrow>
   concat (map enc vs) @ r = concat (map enc ws) @ s \<Longrightarrow> vs = ws \<and> r = s"
proof (induction vs ws rule: list_induct2)
  case Nil
  then show ?case by simp
next
  case (Cons v vs w ws)
  then have "enc v @ (concat (map enc vs) @ r) = enc w @ (concat (map enc ws) @ s)"
    by simp
  from enc_inject [OF _ _ this] Cons show ?case by simp
qed

end

locale fixed_codec = wire_codec +
  fixes width :: nat
  assumes enc_length: "length (enc v) = width"
begin

lemma enc_list_length: "length (concat (map enc vs)) = width * length vs"
  by (rule length_concat_const) (rule enc_length)

end

subsection \<open>GBIT and PBIT\<close>

text \<open>\<open>PBITn(p, v)\<close> keeps the low n bits of v, whatever the type of v.\<close>

definition pbit8 :: "'a::len word \<Rightarrow> bytes" where
  "pbit8 v = [ucast v]"

definition pbit16 :: "'a::len word \<Rightarrow> bytes" where
  "pbit16 v = [ucast v, ucast (drop_bit 8 v)]"

definition pbit32 :: "'a::len word \<Rightarrow> bytes" where
  "pbit32 v = [ucast v, ucast (drop_bit 8 v), ucast (drop_bit 16 v), ucast (drop_bit 24 v)]"

definition pbit64 :: "'a::len word \<Rightarrow> bytes" where
  "pbit64 v = [ucast v, ucast (drop_bit 8 v), ucast (drop_bit 16 v), ucast (drop_bit 24 v),
     ucast (drop_bit 32 v), ucast (drop_bit 40 v), ucast (drop_bit 48 v), ucast (drop_bit 56 v)]"

fun gbit8 :: "bytes \<Rightarrow> (u8 \<times> bytes) option" where
  "gbit8 (a # p) = Some (a, p)"
| "gbit8 _ = None"

fun gbit16 :: "bytes \<Rightarrow> (u16 \<times> bytes) option" where
  "gbit16 (a # b # p) = Some (ucast a OR push_bit 8 (ucast b), p)"
| "gbit16 _ = None"

fun gbit32 :: "bytes \<Rightarrow> (u32 \<times> bytes) option" where
  "gbit32 (a # b # c # d # p) =
     Some (ucast a OR push_bit 8 (ucast b) OR push_bit 16 (ucast c) OR push_bit 24 (ucast d), p)"
| "gbit32 _ = None"

fun gbit64 :: "bytes \<Rightarrow> (u64 \<times> bytes) option" where
  "gbit64 (a # b # c # d # e # f # g # h # p) =
     Some (ucast (ucast a OR push_bit 8 (ucast b) OR push_bit 16 (ucast c) OR push_bit 24 (ucast d) :: u32)
       OR push_bit 32 (ucast (ucast e OR push_bit 8 (ucast f) OR push_bit 16 (ucast g)
            OR push_bit 24 (ucast h) :: u32)), p)"
| "gbit64 _ = None"

lemma pbit_lengths [wire_simps]:
  "length (pbit8 v) = 1" "length (pbit16 v) = 2" "length (pbit32 v) = 4" "length (pbit64 v) = 8"
  by (simp_all add: pbit8_def pbit16_def pbit32_def pbit64_def)

lemma byte_join16:
  "(ucast (ucast (v :: 'a::len word) :: u8) OR push_bit 8 (ucast (ucast (drop_bit 8 v) :: u8)) :: u16) =
   ucast v"
proof (rule bit_word_eqI)
  fix n assume "n < LENGTH(16)"
  then show "bit (ucast (ucast v :: u8) OR push_bit 8 (ucast (ucast (drop_bit 8 v) :: u8)) :: u16) n =
      bit (ucast v :: u16) n"
    by (cases "n < 8") (auto simp: bit_simps)
qed

lemma byte_join32:
  "(ucast (ucast (v :: 'a::len word) :: u8) OR push_bit 8 (ucast (ucast (drop_bit 8 v) :: u8))
    OR push_bit 16 (ucast (ucast (drop_bit 16 v) :: u8))
    OR push_bit 24 (ucast (ucast (drop_bit 24 v) :: u8)) :: u32) = ucast v" (is "?j = _")
proof (rule bit_word_eqI)
  fix n assume n: "n < LENGTH(32)"
  consider "n < 8" | "\<not> n < 8" "n < 16" | "\<not> n < 16" "n < 24" | "\<not> n < 24" by blast
  then show "bit ?j n = bit (ucast v :: u32) n"
    by cases (use n in \<open>auto simp: bit_simps\<close>)
qed

lemma word_join64: "ucast (ucast (v :: u64) :: u32) OR push_bit 32 (ucast (ucast (drop_bit 32 v) :: u32)) = v"
proof (rule bit_word_eqI)
  fix n assume "n < LENGTH(64)"
  then show "bit (ucast (ucast v :: u32) OR push_bit 32 (ucast (ucast (drop_bit 32 v) :: u32)) :: u64) n = bit v n"
    by (cases "n < 32") (auto simp: bit_simps)
qed

lemma gbit8_pbit8 [wire_simps]: "gbit8 (pbit8 (v :: u8) @ p) = Some (v, p)"
  by (simp add: pbit8_def)

lemma gbit16_pbit16 [wire_simps]: "gbit16 (pbit16 (v :: 'a::len word) @ p) = Some (ucast v, p)"
  by (simp add: pbit16_def byte_join16)

lemma gbit32_pbit32 [wire_simps]: "gbit32 (pbit32 (v :: u32) @ p) = Some (v, p)"
  by (simp add: pbit32_def byte_join32)

lemma gbit64_pbit64 [wire_simps]: "gbit64 (pbit64 (v :: u64) @ p) = Some (v, p)"
  using byte_join32 [of v] byte_join32 [of "drop_bit 32 v"] word_join64 [of v]
  by (simp add: pbit64_def drop_bit_drop_bit)

text \<open>Under the length the code checks first, no read goes past the end.\<close>

lemma gbit8_bounded: "1 \<le> length p \<Longrightarrow> \<exists>v q. gbit8 p = Some (v, q) \<and> length q = length p - 1"
  by (cases p rule: gbit8.cases) auto

lemma gbit16_bounded: "2 \<le> length p \<Longrightarrow> \<exists>v q. gbit16 p = Some (v, q) \<and> length q = length p - 2"
  by (cases p rule: gbit16.cases) auto

lemma gbit32_bounded: "4 \<le> length p \<Longrightarrow> \<exists>v q. gbit32 p = Some (v, q) \<and> length q = length p - 4"
  by (cases p rule: gbit32.cases) auto

lemma gbit64_bounded: "8 \<le> length p \<Longrightarrow> \<exists>v q. gbit64 p = Some (v, q) \<and> length q = length p - 8"
  by (cases p rule: gbit64.cases) auto

interpretation bit8: fixed_codec "pbit8 :: u8 \<Rightarrow> bytes" gbit8 "\<lambda>_. True" 1
  by unfold_locales (simp_all add: wire_simps)

interpretation bit16: fixed_codec "pbit16 :: u16 \<Rightarrow> bytes" gbit16 "\<lambda>_. True" 2
  by unfold_locales (simp_all add: wire_simps)

interpretation bit32: fixed_codec "pbit32 :: u32 \<Rightarrow> bytes" gbit32 "\<lambda>_. True" 4
  by unfold_locales (simp_all add: wire_simps)

interpretation bit64: fixed_codec "pbit64 :: u64 \<Rightarrow> bytes" gbit64 "\<lambda>_. True" 8
  by unfold_locales (simp_all add: wire_simps)

end
