(* ===== verification/Fcall.thy ===== *)
theory Fcall
  imports Wire
begin

text \<open>
  9P messages: \<open>struct Fcall\<close> of \<open>sys/include/fcall.h\<close>, the encoder \<open>sizeS2M\<close>/\<open>convS2M\<close>
  (\<open>libc/9sys/convS2M.c\<close>) and the decoder \<open>convM2S\<close> (\<open>libc/9sys/convM2S.c\<close>).

  The union in Fcall is a record with one field per member: a message reads and writes the
  members of one arm only, so the overlay is never observed. \<open>f_wname\<close> and \<open>f_wqid\<close> are the
  arrays of MAXWELEM entries. \<open>f_data\<close> and \<open>f_stat\<close> are the bytes that can be read from the
  pointers. A string decoded in place is given by its bytes; that \<open>gstring\<close> moves them one
  byte down over their count, for the NUL, is not visible to the rest of the decoder, which
  never looks back.
\<close>

subsection \<open>Data\<close>

datatype mtype =
    Tversion | Rversion | Tauth | Rauth | Tattach | Rattach | Rerror | Tflush | Rflush
  | Twalk | Rwalk | Topen | Ropen | Tcreate | Rcreate | Tread | Rread | Twrite | Rwrite
  | Tclunk | Rclunk | Tremove | Rremove | Tstat | Rstat | Twstat | Rwstat

fun mtype_num :: "mtype \<Rightarrow> u8" where
  "mtype_num Tversion = 100" | "mtype_num Rversion = 101" | "mtype_num Tauth = 102"
| "mtype_num Rauth = 103" | "mtype_num Tattach = 104" | "mtype_num Rattach = 105"
| "mtype_num Rerror = 107" | "mtype_num Tflush = 108" | "mtype_num Rflush = 109"
| "mtype_num Twalk = 110" | "mtype_num Rwalk = 111" | "mtype_num Topen = 112"
| "mtype_num Ropen = 113" | "mtype_num Tcreate = 114" | "mtype_num Rcreate = 115"
| "mtype_num Tread = 116" | "mtype_num Rread = 117" | "mtype_num Twrite = 118"
| "mtype_num Rwrite = 119" | "mtype_num Tclunk = 120" | "mtype_num Rclunk = 121"
| "mtype_num Tremove = 122" | "mtype_num Rremove = 123" | "mtype_num Tstat = 124"
| "mtype_num Rstat = 125" | "mtype_num Twstat = 126" | "mtype_num Rwstat = 127"

definition all_mtypes :: "mtype list" where
  "all_mtypes = [Tversion, Rversion, Tauth, Rauth, Tattach, Rattach, Rerror, Tflush, Rflush,
     Twalk, Rwalk, Topen, Ropen, Tcreate, Rcreate, Tread, Rread, Twrite, Rwrite,
     Tclunk, Rclunk, Tremove, Rremove, Tstat, Rstat, Twstat, Rwstat]"

text \<open>\<open>switch(f->type)\<close>: \<^term>\<open>None\<close> is its default, which Terror (106) falls into too.\<close>

definition switch_type :: "u8 \<Rightarrow> mtype option" where
  "switch_type n = find (\<lambda>t. mtype_num t = n) all_mtypes"

record qid =
  q_path :: u64
  q_vers :: u32
  q_type :: u8

record fcall =
  f_type :: u8
  f_fid :: u32
  f_tag :: u16
  f_msize :: u32
  f_version :: cstr
  f_oldtag :: u16
  f_ename :: cstr
  f_qid :: qid
  f_iounit :: u32
  f_aqid :: qid
  f_afid :: u32
  f_uname :: cstr
  f_aname :: cstr
  f_perm :: u32
  f_name :: cstr
  f_mode :: u8
  f_newfid :: u32
  f_nwname :: u16
  f_wname :: "cstr list"
  f_nwqid :: u16
  f_wqid :: "qid list"
  f_offset :: u64
  f_count :: u32
  f_data :: bytes
  f_nstat :: u16
  f_stat :: bytes

definition MAXWELEM :: nat where "MAXWELEM = 16"

subsection \<open>Strings and qids on the wire\<close>

definition pstring :: "cstr \<Rightarrow> bytes" where
  "pstring s =
     (case s of None \<Rightarrow> pbit16 (0 :: u32)
      | Some _ \<Rightarrow> (let n = of_nat (strlen s) :: u32 in pbit16 n @ take (unat n) (cstr_bytes s)))"

definition pqid :: "qid \<Rightarrow> bytes" where
  "pqid q = pbit8 (q_type q) @ pbit32 (q_vers q) @ pbit64 (q_path q)"

definition stringsz :: "cstr \<Rightarrow> u32" where
  "stringsz s = (case s of None \<Rightarrow> 2 | Some _ \<Rightarrow> 2 + of_nat (strlen s))"

text \<open>
  \<open>gstring\<close> and \<open>gqid\<close> check the buffer themselves: \<^term>\<open>Some None\<close> is their nil,
  \<^term>\<open>None\<close> would be a read past the end.
\<close>

definition gstring :: "bytes \<Rightarrow> (bytes \<times> bytes) option option" where
  "gstring p =
     (if length p < 2 then Some None
      else do {
        (n, p) \<leftarrow> gbit16 p;
        if length p < unat n then Some None
        else do {
          s \<leftarrow> mem_read (unat n) p;
          Some (Some (s, drop (unat n) p))
        }
      })"

definition gqid :: "bytes \<Rightarrow> (qid \<times> bytes) option option" where
  "gqid p =
     (if length p < 13 then Some None
      else do {
        (t, p) \<leftarrow> gbit8 p;
        (v, p) \<leftarrow> gbit32 p;
        (x, p) \<leftarrow> gbit64 p;
        Some (Some (\<lparr>q_path = x, q_vers = v, q_type = t\<rparr>, p))
      })"

subsection \<open>sizeS2M\<close>

text \<open>
  The size of a message, in C's 32-bit arithmetic. For Twalk the loop reads \<open>wname[i]\<close>
  for all \<open>i < nwname\<close>: past the array that is undefined, \<^term>\<open>None\<close>.
\<close>

definition wnames_size :: "fcall \<Rightarrow> u32 option" where
  "wnames_size f =
     (if unat (f_nwname f) \<le> length (f_wname f)
      then Some (sum_list (map stringsz (take (unat (f_nwname f)) (f_wname f)))) else None)"

definition sizeS2M_T :: "mtype \<Rightarrow> fcall \<Rightarrow> u32 option" where
  "sizeS2M_T t f = (case t of
      Tversion \<Rightarrow> Some (4 + stringsz (f_version f))
    | Tflush \<Rightarrow> Some 2
    | Tauth \<Rightarrow> Some (4 + stringsz (f_uname f) + stringsz (f_aname f))
    | Tattach \<Rightarrow> Some (4 + 4 + stringsz (f_uname f) + stringsz (f_aname f))
    | Twalk \<Rightarrow> map_option (\<lambda>n. 4 + 4 + 2 + n) (wnames_size f)
    | Topen \<Rightarrow> Some (4 + 1)
    | Tcreate \<Rightarrow> Some (4 + stringsz (f_name f) + 4 + 1)
    | Tread \<Rightarrow> Some (4 + 8 + 4)
    | Twrite \<Rightarrow> Some (4 + 8 + 4 + f_count f)
    | Tclunk \<Rightarrow> Some 4
    | Tremove \<Rightarrow> Some 4
    | Tstat \<Rightarrow> Some 4
    | Twstat \<Rightarrow> Some (4 + 2 + ucast (f_nstat f))
    | _ \<Rightarrow> None)"

definition sizeS2M_R :: "mtype \<Rightarrow> fcall \<Rightarrow> u32 option" where
  "sizeS2M_R t f = (case t of
      Rversion \<Rightarrow> Some (4 + stringsz (f_version f))
    | Rerror \<Rightarrow> Some (stringsz (f_ename f))
    | Rflush \<Rightarrow> Some 0
    | Rauth \<Rightarrow> Some 13
    | Rattach \<Rightarrow> Some 13
    | Rwalk \<Rightarrow> Some (2 + ucast (f_nwqid f) * 13)
    | Ropen \<Rightarrow> Some (13 + 4)
    | Rcreate \<Rightarrow> Some (13 + 4)
    | Rread \<Rightarrow> Some (4 + f_count f)
    | Rwrite \<Rightarrow> Some 4
    | Rclunk \<Rightarrow> Some 0
    | Rremove \<Rightarrow> Some 0
    | Rstat \<Rightarrow> Some (2 + ucast (f_nstat f))
    | Rwstat \<Rightarrow> Some 0
    | _ \<Rightarrow> None)"

text \<open>The even message numbers are the requests.\<close>

definition is_T :: "mtype \<Rightarrow> bool" where
  "is_T t = (t \<in> {Tversion, Tflush, Tauth, Tattach, Twalk, Topen, Tcreate, Tread, Twrite,
     Tclunk, Tremove, Tstat, Twstat})"

definition sizeS2M :: "fcall \<Rightarrow> u32 option" where
  "sizeS2M f = (case switch_type (f_type f) of
      None \<Rightarrow> Some 0
    | Some t \<Rightarrow> map_option (\<lambda>n. 4 + 1 + 2 + n) (if is_T t then sizeS2M_T t f else sizeS2M_R t f))"

subsection \<open>convS2M\<close>

text \<open>
  The bytes each message puts after its header, and \<^term>\<open>False\<close> where the code returns 0 in
  the middle (too many names or qids). Reading more data, stat, names or qids than there are
  is \<^term>\<open>None\<close>.
\<close>

definition put_counted :: "bytes \<Rightarrow> nat \<Rightarrow> bytes \<Rightarrow> (bytes \<times> bool) option" where
  "put_counted hdr n d = do { x \<leftarrow> mem_read n d; Some (hdr @ x, True) }"

lemma put_counted_eq:
  "put_counted hdr n d = Some (b, ok) \<longleftrightarrow> n \<le> length d \<and> b = hdr @ take n d \<and> ok"
  by (auto simp: put_counted_def mem_read_def)

definition convS2M_T :: "mtype \<Rightarrow> fcall \<Rightarrow> (bytes \<times> bool) option" where
  "convS2M_T t f = (case t of
      Tversion \<Rightarrow> Some (pbit32 (f_msize f) @ pstring (f_version f), True)
    | Tflush \<Rightarrow> Some (pbit16 (f_oldtag f), True)
    | Tauth \<Rightarrow> Some (pbit32 (f_afid f) @ pstring (f_uname f) @ pstring (f_aname f), True)
    | Tattach \<Rightarrow> Some (pbit32 (f_fid f) @ pbit32 (f_afid f)
                       @ pstring (f_uname f) @ pstring (f_aname f), True)
    | Twalk \<Rightarrow>
        (let hdr = pbit32 (f_fid f) @ pbit32 (f_newfid f) @ pbit16 (f_nwname f)
         in if unat (f_nwname f) > MAXWELEM then Some (hdr, False)
            else if unat (f_nwname f) \<le> length (f_wname f)
            then Some (hdr @ concat (map pstring (take (unat (f_nwname f)) (f_wname f))), True)
            else None)
    | Topen \<Rightarrow> Some (pbit32 (f_fid f) @ pbit8 (f_mode f), True)
    | Tcreate \<Rightarrow> Some (pbit32 (f_fid f) @ pstring (f_name f) @ pbit32 (f_perm f)
                       @ pbit8 (f_mode f), True)
    | Tread \<Rightarrow> Some (pbit32 (f_fid f) @ pbit64 (f_offset f) @ pbit32 (f_count f), True)
    | Twrite \<Rightarrow> put_counted (pbit32 (f_fid f) @ pbit64 (f_offset f) @ pbit32 (f_count f))
                  (unat (f_count f)) (f_data f)
    | Tclunk \<Rightarrow> Some (pbit32 (f_fid f), True)
    | Tremove \<Rightarrow> Some (pbit32 (f_fid f), True)
    | Tstat \<Rightarrow> Some (pbit32 (f_fid f), True)
    | Twstat \<Rightarrow> put_counted (pbit32 (f_fid f) @ pbit16 (f_nstat f)) (unat (f_nstat f)) (f_stat f)
    | _ \<Rightarrow> None)"

definition convS2M_R :: "mtype \<Rightarrow> fcall \<Rightarrow> (bytes \<times> bool) option" where
  "convS2M_R t f = (case t of
      Rversion \<Rightarrow> Some (pbit32 (f_msize f) @ pstring (f_version f), True)
    | Rerror \<Rightarrow> Some (pstring (f_ename f), True)
    | Rflush \<Rightarrow> Some ([], True)
    | Rauth \<Rightarrow> Some (pqid (f_aqid f), True)
    | Rattach \<Rightarrow> Some (pqid (f_qid f), True)
    | Rwalk \<Rightarrow>
        (if unat (f_nwqid f) > MAXWELEM then Some (pbit16 (f_nwqid f), False)
         else if unat (f_nwqid f) \<le> length (f_wqid f)
         then Some (pbit16 (f_nwqid f)
                    @ concat (map pqid (take (unat (f_nwqid f)) (f_wqid f))), True)
         else None)
    | Ropen \<Rightarrow> Some (pqid (f_qid f) @ pbit32 (f_iounit f), True)
    | Rcreate \<Rightarrow> Some (pqid (f_qid f) @ pbit32 (f_iounit f), True)
    | Rread \<Rightarrow> put_counted (pbit32 (f_count f)) (unat (f_count f)) (f_data f)
    | Rwrite \<Rightarrow> Some (pbit32 (f_count f), True)
    | Rclunk \<Rightarrow> Some ([], True)
    | Rremove \<Rightarrow> Some ([], True)
    | Rstat \<Rightarrow> put_counted (pbit16 (f_nstat f)) (unat (f_nstat f)) (f_stat f)
    | Rwstat \<Rightarrow> Some ([], True)
    | _ \<Rightarrow> None)"

text \<open>
  The result is what is returned and the bytes stored at \<open>ap\<close>. Storing more than the \<open>nap\<close>
  bytes there are is \<^term>\<open>None\<close>.
\<close>

definition convS2M :: "fcall \<Rightarrow> u32 \<Rightarrow> (u32 \<times> bytes) option" where
  "convS2M f nap = do {
     size \<leftarrow> sizeS2M f;
     if size = 0 then Some (0, [])
     else if size > nap then Some (0, [])
     else (case switch_type (f_type f) of
         None \<Rightarrow> Some (0, pbit32 size @ pbit8 (f_type f) @ pbit16 (f_tag f))
       | Some t \<Rightarrow> do {
           (body, done) \<leftarrow> (if is_T t then convS2M_T t f else convS2M_R t f);
           let out = pbit32 size @ pbit8 (f_type f) @ pbit16 (f_tag f) @ body;
           if length out > unat nap then None
           else if \<not> done then Some (0, out)
           else if unat size \<noteq> length out then Some (0, out)
           else Some (size, out)
         })
   }"

subsection \<open>convM2S\<close>

text \<open>
  Each message's case of the switch: the structure as filled in so far, and the bytes left;
  \<^term>\<open>None\<close> for the latter is \<open>return 0\<close> or a nil \<open>p\<close>, which returns 0 below.
\<close>

fun get_wnames :: "nat \<Rightarrow> nat \<Rightarrow> bytes \<Rightarrow> fcall \<Rightarrow> (fcall \<times> bytes option) option" where
  "get_wnames i 0 p f = Some (f, Some p)"
| "get_wnames i (Suc k) p f = do {
     r \<leftarrow> gstring p;
     case r of None \<Rightarrow> Some (f, None)
     | Some (s, p) \<Rightarrow>
         if i < length (f_wname f)
         then get_wnames (Suc i) k p (f\<lparr>f_wname := (f_wname f)[i := Some s]\<rparr>) else None
   }"

fun get_wqids :: "nat \<Rightarrow> nat \<Rightarrow> bytes \<Rightarrow> fcall \<Rightarrow> (fcall \<times> bytes option) option" where
  "get_wqids i 0 p f = Some (f, Some p)"
| "get_wqids i (Suc k) p f = do {
     r \<leftarrow> gqid p;
     case r of None \<Rightarrow> Some (f, None)
     | Some (q, p) \<Rightarrow>
         if i < length (f_wqid f)
         then get_wqids (Suc i) k p (f\<lparr>f_wqid := (f_wqid f)[i := q]\<rparr>) else None
   }"

text \<open>\<open>p = gstring(p, ep, &f->x)\<close>, then \<open>if(p == nil) break\<close>.\<close>

definition get_str ::
  "bytes \<Rightarrow> fcall \<Rightarrow> (bytes \<Rightarrow> fcall \<Rightarrow> fcall) \<Rightarrow> (fcall \<Rightarrow> bytes \<Rightarrow> (fcall \<times> bytes option) option) \<Rightarrow>
   (fcall \<times> bytes option) option" where
  "get_str p f upd k = do {
     r \<leftarrow> gstring p;
     case r of None \<Rightarrow> Some (f, None) | Some (s, p) \<Rightarrow> k (upd s f) p
   }"

definition get_qid ::
  "bytes \<Rightarrow> fcall \<Rightarrow> (qid \<Rightarrow> fcall \<Rightarrow> fcall) \<Rightarrow> (fcall \<Rightarrow> bytes \<Rightarrow> (fcall \<times> bytes option) option) \<Rightarrow>
   (fcall \<times> bytes option) option" where
  "get_qid p f upd k = do {
     r \<leftarrow> gqid p;
     case r of None \<Rightarrow> Some (f, None) | Some (q, p) \<Rightarrow> k (upd q f) p
   }"

text \<open>\<open>if(p+n > ep) return 0\<close>.\<close>

definition room ::
  "nat \<Rightarrow> bytes \<Rightarrow> fcall \<Rightarrow> (fcall \<times> bytes option) option \<Rightarrow> (fcall \<times> bytes option) option" where
  "room n p f k = (if length p < n then Some (f, None) else k)"

definition fin :: "fcall \<Rightarrow> bytes \<Rightarrow> (fcall \<times> bytes option) option" where
  "fin f p = Some (f, Some p)"

definition convM2S_T :: "mtype \<Rightarrow> bytes \<Rightarrow> fcall \<Rightarrow> (fcall \<times> bytes option) option" where
  "convM2S_T t p f = (case t of
      Tversion \<Rightarrow> room 4 p f (do {
        (v, p) \<leftarrow> gbit32 p; let f = f\<lparr>f_msize := v\<rparr>;
        get_str p f (\<lambda>s f. f\<lparr>f_version := Some s\<rparr>) fin })
    | Tflush \<Rightarrow> room 2 p f (do {
        (v, p) \<leftarrow> gbit16 p; fin (f\<lparr>f_oldtag := v\<rparr>) p })
    | Tauth \<Rightarrow> room 4 p f (do {
        (v, p) \<leftarrow> gbit32 p; let f = f\<lparr>f_afid := v\<rparr>;
        get_str p f (\<lambda>s f. f\<lparr>f_uname := Some s\<rparr>) (\<lambda>f p.
        get_str p f (\<lambda>s f. f\<lparr>f_aname := Some s\<rparr>) fin) })
    | Tattach \<Rightarrow> room 4 p f (do {
        (v, p) \<leftarrow> gbit32 p; let f = f\<lparr>f_fid := v\<rparr>;
        room 4 p f (do {
          (v, p) \<leftarrow> gbit32 p; let f = f\<lparr>f_afid := v\<rparr>;
          get_str p f (\<lambda>s f. f\<lparr>f_uname := Some s\<rparr>) (\<lambda>f p.
          get_str p f (\<lambda>s f. f\<lparr>f_aname := Some s\<rparr>) fin) }) })
    | Twalk \<Rightarrow> room (4 + 4 + 2) p f (do {
        (v, p) \<leftarrow> gbit32 p; let f = f\<lparr>f_fid := v\<rparr>;
        (v, p) \<leftarrow> gbit32 p; let f = f\<lparr>f_newfid := v\<rparr>;
        (v, p) \<leftarrow> gbit16 p; let f = f\<lparr>f_nwname := v\<rparr>;
        if unat (f_nwname f) > MAXWELEM then Some (f, None)
        else get_wnames 0 (unat (f_nwname f)) p f })
    | Topen \<Rightarrow> room (4 + 1) p f (do {
        (v, p) \<leftarrow> gbit32 p; let f = f\<lparr>f_fid := v\<rparr>;
        (v, p) \<leftarrow> gbit8 p; fin (f\<lparr>f_mode := v\<rparr>) p })
    | Tcreate \<Rightarrow> room 4 p f (do {
        (v, p) \<leftarrow> gbit32 p; let f = f\<lparr>f_fid := v\<rparr>;
        get_str p f (\<lambda>s f. f\<lparr>f_name := Some s\<rparr>) (\<lambda>f p.
        room (4 + 1) p f (do {
          (v, p) \<leftarrow> gbit32 p; let f = f\<lparr>f_perm := v\<rparr>;
          (v, p) \<leftarrow> gbit8 p; fin (f\<lparr>f_mode := v\<rparr>) p })) })
    | Tread \<Rightarrow> room (4 + 8 + 4) p f (do {
        (v, p) \<leftarrow> gbit32 p; let f = f\<lparr>f_fid := v\<rparr>;
        (v, p) \<leftarrow> gbit64 p; let f = f\<lparr>f_offset := v\<rparr>;
        (v, p) \<leftarrow> gbit32 p; fin (f\<lparr>f_count := v\<rparr>) p })
    | Twrite \<Rightarrow> room (4 + 8 + 4) p f (do {
        (v, p) \<leftarrow> gbit32 p; let f = f\<lparr>f_fid := v\<rparr>;
        (v, p) \<leftarrow> gbit64 p; let f = f\<lparr>f_offset := v\<rparr>;
        (v, p) \<leftarrow> gbit32 p; let f = f\<lparr>f_count := v\<rparr>;
        room (unat (f_count f)) p f
          (fin (f\<lparr>f_data := take (unat (f_count f)) p\<rparr>) (drop (unat (f_count f)) p)) })
    | Tclunk \<Rightarrow> room 4 p f (do { (v, p) \<leftarrow> gbit32 p; fin (f\<lparr>f_fid := v\<rparr>) p })
    | Tremove \<Rightarrow> room 4 p f (do { (v, p) \<leftarrow> gbit32 p; fin (f\<lparr>f_fid := v\<rparr>) p })
    | Tstat \<Rightarrow> room 4 p f (do { (v, p) \<leftarrow> gbit32 p; fin (f\<lparr>f_fid := v\<rparr>) p })
    | Twstat \<Rightarrow> room (4 + 2) p f (do {
        (v, p) \<leftarrow> gbit32 p; let f = f\<lparr>f_fid := v\<rparr>;
        (v, p) \<leftarrow> gbit16 p; let f = f\<lparr>f_nstat := v\<rparr>;
        room (unat (f_nstat f)) p f
          (fin (f\<lparr>f_stat := take (unat (f_nstat f)) p\<rparr>) (drop (unat (f_nstat f)) p)) })
    | _ \<Rightarrow> None)"

definition convM2S_R :: "mtype \<Rightarrow> bytes \<Rightarrow> fcall \<Rightarrow> (fcall \<times> bytes option) option" where
  "convM2S_R t p f = (case t of
      Rversion \<Rightarrow> room 4 p f (do {
        (v, p) \<leftarrow> gbit32 p; let f = f\<lparr>f_msize := v\<rparr>;
        get_str p f (\<lambda>s f. f\<lparr>f_version := Some s\<rparr>) fin })
    | Rerror \<Rightarrow> get_str p f (\<lambda>s f. f\<lparr>f_ename := Some s\<rparr>) fin
    | Rflush \<Rightarrow> fin f p
    | Rauth \<Rightarrow> get_qid p f (\<lambda>q f. f\<lparr>f_aqid := q\<rparr>) fin
    | Rattach \<Rightarrow> get_qid p f (\<lambda>q f. f\<lparr>f_qid := q\<rparr>) fin
    | Rwalk \<Rightarrow> room 2 p f (do {
        (v, p) \<leftarrow> gbit16 p; let f = f\<lparr>f_nwqid := v\<rparr>;
        if unat (f_nwqid f) > MAXWELEM then Some (f, None)
        else get_wqids 0 (unat (f_nwqid f)) p f })
    | Ropen \<Rightarrow> get_qid p f (\<lambda>q f. f\<lparr>f_qid := q\<rparr>) (\<lambda>f p.
        room 4 p f (do { (v, p) \<leftarrow> gbit32 p; fin (f\<lparr>f_iounit := v\<rparr>) p }))
    | Rcreate \<Rightarrow> get_qid p f (\<lambda>q f. f\<lparr>f_qid := q\<rparr>) (\<lambda>f p.
        room 4 p f (do { (v, p) \<leftarrow> gbit32 p; fin (f\<lparr>f_iounit := v\<rparr>) p }))
    | Rread \<Rightarrow> room 4 p f (do {
        (v, p) \<leftarrow> gbit32 p; let f = f\<lparr>f_count := v\<rparr>;
        room (unat (f_count f)) p f
          (fin (f\<lparr>f_data := take (unat (f_count f)) p\<rparr>) (drop (unat (f_count f)) p)) })
    | Rwrite \<Rightarrow> room 4 p f (do { (v, p) \<leftarrow> gbit32 p; fin (f\<lparr>f_count := v\<rparr>) p })
    | Rclunk \<Rightarrow> fin f p
    | Rremove \<Rightarrow> fin f p
    | Rstat \<Rightarrow> room 2 p f (do {
        (v, p) \<leftarrow> gbit16 p; let f = f\<lparr>f_nstat := v\<rparr>;
        room (unat (f_nstat f)) p f
          (fin (f\<lparr>f_stat := take (unat (f_nstat f)) p\<rparr>) (drop (unat (f_nstat f)) p)) })
    | Rwstat \<Rightarrow> fin f p
    | _ \<Rightarrow> None)"

text \<open>
  \<open>ap\<close> is the buffer of \<open>nap\<close> bytes. The value returned (0 for a message that is refused)
  and the structure as it is then.
\<close>

definition convM2S :: "bytes \<Rightarrow> fcall \<Rightarrow> (u32 \<times> fcall) option" where
  "convM2S ap f =
     (if length ap < 4 + 1 + 2 then Some (0, f)
      else do {
        (size, p) \<leftarrow> gbit32 ap;
        if size < 4 + 1 + 2 then Some (0, f)
        else do {
          (t, p) \<leftarrow> gbit8 p; let f = f\<lparr>f_type := t\<rparr>;
          (tag, p) \<leftarrow> gbit16 p; let f = f\<lparr>f_tag := tag\<rparr>;
          case switch_type (f_type f) of
            None \<Rightarrow> Some (0, f)
          | Some t \<Rightarrow> do {
              (f, r) \<leftarrow> (if is_T t then convM2S_T t p f else convM2S_R t p f);
              case r of
                None \<Rightarrow> Some (0, f)
              | Some p \<Rightarrow> if unat size = length ap - length p then Some (size, f) else Some (0, f)
            }
        }
      })"

subsection \<open>The encoders against their decoders\<close>

lemma switch_type_Some: "switch_type n = Some t \<Longrightarrow> n = mtype_num t"
  by (auto simp: switch_type_def find_Some_iff)

lemma switch_type_num [simp]: "switch_type (mtype_num t) = Some t"
  by (cases t) (simp_all add: switch_type_def all_mtypes_def)

lemma length_pqid [wire_simps]: "length (pqid q) = 13"
  by (simp add: pqid_def wire_simps)

lemma gqid_pqid [wire_simps]: "gqid (pqid q @ p) = Some (Some (q, p))"
  by (simp add: gqid_def pqid_def wire_simps)

lemma length_pstring: "length (pstring s) = 2 + strlen s mod 4294967296"
proof -
  have "strlen s mod 4294967296 \<le> strlen s" by simp
  then show ?thesis
    by (cases s) (auto simp: pstring_def strlen_def Let_def wire_simps unat_of_nat take_bit_eq_mod
        min_def)
qed

lemma stringsz_pstring: "stringsz s = of_nat (length (pstring s))"
proof -
  have "(of_nat (strlen s mod 4294967296) :: u32) = of_nat (strlen s)"
    by (rule word_unat_eq_iff [THEN iffD2]) (simp add: unat_of_nat take_bit_eq_mod)
  then show ?thesis
    by (cases s) (simp_all add: stringsz_def length_pstring strlen_def)
qed

lemma gstring_pstring [wire_simps]:
  "strlen s < 65536 \<Longrightarrow> gstring (pstring s @ p) = Some (Some (cstr_bytes s, p))"
  by (cases s) (simp_all add: gstring_def pstring_def Let_def wire_simps strlen_def)

interpretation qidc: fixed_codec pqid "\<lambda>p. case gqid p of Some r \<Rightarrow> r | None \<Rightarrow> None" "\<lambda>_. True" 13
  by unfold_locales (simp_all add: wire_simps)

interpretation strc: wire_codec
  "\<lambda>s. pstring (Some s)" "\<lambda>p. case gstring p of Some r \<Rightarrow> r | None \<Rightarrow> None"
  "\<lambda>s. 0 \<notin> set s \<and> length s < 65536"
proof unfold_locales
  fix s r :: bytes assume s: "0 \<notin> set s \<and> length s < 65536"
  then have "cstr_bytes (Some s) = s"
    by (auto simp: cstr_bytes_def takeWhile_eq_all_conv)
  with s show "(case gstring (pstring (Some s) @ r) of Some r \<Rightarrow> r | None \<Rightarrow> None) = Some (s, r)"
    by (simp add: wire_simps strlen_def)
qed

lemma get_str_pstring [wire_simps]:
  "strlen s < 65536 \<Longrightarrow> get_str (pstring s @ p) f upd k = k (upd (cstr_bytes s) f) p"
  by (simp add: get_str_def wire_simps)

lemma get_qid_pqid [wire_simps]: "get_qid (pqid q @ p) f upd k = k (upd q f) p"
  by (simp add: get_qid_def wire_simps)

lemma get_wnames_enc:
  "i + length ss \<le> length (f_wname f) \<Longrightarrow> \<forall>s \<in> set ss. strlen s < 65536 \<Longrightarrow>
   get_wnames i (length ss) (concat (map pstring ss) @ p) f =
     Some (f\<lparr>f_wname := take i (f_wname f) @ map (\<lambda>s. Some (cstr_bytes s)) ss
                        @ drop (i + length ss) (f_wname f)\<rparr>, Some p)"
proof (induction ss arbitrary: i f)
  case Nil
  then show ?case by simp
next
  case (Cons s ss)
  then have "get_wnames i (length (s # ss)) (concat (map pstring (s # ss)) @ p) f =
    get_wnames (Suc i) (length ss) (concat (map pstring ss) @ p)
      (f\<lparr>f_wname := (f_wname f)[i := Some (cstr_bytes s)]\<rparr>)"
    by (simp add: wire_simps)
  with Cons show ?case
    by (simp add: take_Suc_conv_app_nth drop_update_cancel)
qed

lemma get_wqids_enc:
  "i + length qs \<le> length (f_wqid f) \<Longrightarrow>
   get_wqids i (length qs) (concat (map pqid qs) @ p) f =
     Some (f\<lparr>f_wqid := take i (f_wqid f) @ qs @ drop (i + length qs) (f_wqid f)\<rparr>, Some p)"
proof (induction qs arbitrary: i f)
  case Nil
  then show ?case by simp
next
  case (Cons q qs)
  then have "get_wqids i (length (q # qs)) (concat (map pqid (q # qs)) @ p) f =
    get_wqids (Suc i) (length qs) (concat (map pqid qs) @ p) (f\<lparr>f_wqid := (f_wqid f)[i := q]\<rparr>)"
    by (simp add: wire_simps)
  with Cons show ?case
    by (simp add: take_Suc_conv_app_nth drop_update_cancel)
qed

subsection \<open>What a message says, and when it can be encoded\<close>

text \<open>The members a message of type \<open>t\<close> is made of; two structures that agree on them are the
  same message. Strings are compared as C strings.\<close>

definition same_T :: "mtype \<Rightarrow> fcall \<Rightarrow> fcall \<Rightarrow> bool" where
  "same_T t f g = (case t of
      Tversion \<Rightarrow> f_msize f = f_msize g \<and> cstr_bytes (f_version f) = cstr_bytes (f_version g)
    | Tflush \<Rightarrow> f_oldtag f = f_oldtag g
    | Tauth \<Rightarrow> f_afid f = f_afid g \<and> cstr_bytes (f_uname f) = cstr_bytes (f_uname g)
        \<and> cstr_bytes (f_aname f) = cstr_bytes (f_aname g)
    | Tattach \<Rightarrow> f_fid f = f_fid g \<and> f_afid f = f_afid g
        \<and> cstr_bytes (f_uname f) = cstr_bytes (f_uname g)
        \<and> cstr_bytes (f_aname f) = cstr_bytes (f_aname g)
    | Twalk \<Rightarrow> f_fid f = f_fid g \<and> f_newfid f = f_newfid g \<and> f_nwname f = f_nwname g
        \<and> map cstr_bytes (take (unat (f_nwname f)) (f_wname f))
          = map cstr_bytes (take (unat (f_nwname f)) (f_wname g))
    | Topen \<Rightarrow> f_fid f = f_fid g \<and> f_mode f = f_mode g
    | Tcreate \<Rightarrow> f_fid f = f_fid g \<and> cstr_bytes (f_name f) = cstr_bytes (f_name g)
        \<and> f_perm f = f_perm g \<and> f_mode f = f_mode g
    | Tread \<Rightarrow> f_fid f = f_fid g \<and> f_offset f = f_offset g \<and> f_count f = f_count g
    | Twrite \<Rightarrow> f_fid f = f_fid g \<and> f_offset f = f_offset g \<and> f_count f = f_count g
        \<and> take (unat (f_count f)) (f_data f) = f_data g
    | Tclunk \<Rightarrow> f_fid f = f_fid g
    | Tremove \<Rightarrow> f_fid f = f_fid g
    | Tstat \<Rightarrow> f_fid f = f_fid g
    | Twstat \<Rightarrow> f_fid f = f_fid g \<and> f_nstat f = f_nstat g
        \<and> take (unat (f_nstat f)) (f_stat f) = f_stat g
    | _ \<Rightarrow> True)"

definition same_R :: "mtype \<Rightarrow> fcall \<Rightarrow> fcall \<Rightarrow> bool" where
  "same_R t f g = (case t of
      Rversion \<Rightarrow> f_msize f = f_msize g \<and> cstr_bytes (f_version f) = cstr_bytes (f_version g)
    | Rerror \<Rightarrow> cstr_bytes (f_ename f) = cstr_bytes (f_ename g)
    | Rauth \<Rightarrow> f_aqid f = f_aqid g
    | Rattach \<Rightarrow> f_qid f = f_qid g
    | Rwalk \<Rightarrow> f_nwqid f = f_nwqid g
        \<and> take (unat (f_nwqid f)) (f_wqid f) = take (unat (f_nwqid f)) (f_wqid g)
    | Ropen \<Rightarrow> f_qid f = f_qid g \<and> f_iounit f = f_iounit g
    | Rcreate \<Rightarrow> f_qid f = f_qid g \<and> f_iounit f = f_iounit g
    | Rread \<Rightarrow> f_count f = f_count g \<and> take (unat (f_count f)) (f_data f) = f_data g
    | Rwrite \<Rightarrow> f_count f = f_count g
    | Rstat \<Rightarrow> f_nstat f = f_nstat g \<and> take (unat (f_nstat f)) (f_stat f) = f_stat g
    | _ \<Rightarrow> True)"

definition same_message :: "fcall \<Rightarrow> fcall \<Rightarrow> bool" where
  "same_message f g = (f_type f = f_type g \<and> f_tag f = f_tag g \<and>
     (case switch_type (f_type f) of None \<Rightarrow> True
      | Some t \<Rightarrow> if is_T t then same_T t f g else same_R t f g))"

text \<open>The strings a message carries.\<close>

definition msg_strings :: "mtype \<Rightarrow> fcall \<Rightarrow> cstr list" where
  "msg_strings t f = (case t of
      Tversion \<Rightarrow> [f_version f] | Rversion \<Rightarrow> [f_version f] | Rerror \<Rightarrow> [f_ename f]
    | Tauth \<Rightarrow> [f_uname f, f_aname f] | Tattach \<Rightarrow> [f_uname f, f_aname f]
    | Twalk \<Rightarrow> take (unat (f_nwname f)) (f_wname f) | Tcreate \<Rightarrow> [f_name f] | _ \<Rightarrow> [])"

text \<open>The strings fit their 16-bit counts.\<close>

definition strings_fit :: "fcall \<Rightarrow> bool" where
  "strings_fit f = (case switch_type (f_type f) of None \<Rightarrow> True
     | Some t \<Rightarrow> list_all (\<lambda>s. strlen s < 65536) (msg_strings t f))"

text \<open>The arrays have their declared length.\<close>

definition arrays_ok :: "fcall \<Rightarrow> bool" where
  "arrays_ok f = (length (f_wname f) = MAXWELEM \<and> length (f_wqid f) = MAXWELEM)"

lemma same_T_decoded:
  assumes "is_T t" and "convS2M_T t f = Some (body, True)"
    and "list_all (\<lambda>s. strlen s < 65536) (msg_strings t f)" and "arrays_ok g"
  shows "\<exists>g'. convM2S_T t (body @ r) g = Some (g', Some r) \<and> same_T t f g'
     \<and> f_type g' = f_type g \<and> f_tag g' = f_tag g"
proof (cases "t = Twalk")
  case True
  from assms(2) True have n: "unat (f_nwname f) \<le> MAXWELEM" "unat (f_nwname f) \<le> length (f_wname f)"
    and body: "body = pbit32 (f_fid f) @ pbit32 (f_newfid f) @ pbit16 (f_nwname f)
       @ concat (map pstring (take (unat (f_nwname f)) (f_wname f)))"
    by (auto simp: convS2M_T_def Let_def split: if_splits)
  let ?ss = "take (unat (f_nwname f)) (f_wname f)"
  let ?g = "g\<lparr>f_fid := f_fid f, f_newfid := f_newfid f, f_nwname := f_nwname f\<rparr>"
  have "get_wnames 0 (length ?ss) (concat (map pstring ?ss) @ r) ?g =
     Some (?g\<lparr>f_wname := map (\<lambda>s. Some (cstr_bytes s)) ?ss @ drop (length ?ss) (f_wname g)\<rparr>, Some r)"
    using get_wnames_enc [of 0 ?ss ?g r] assms(3,4) n True
    by (simp add: arrays_ok_def msg_strings_def list_all_iff)
  with n True body show ?thesis
    by (simp add: convM2S_T_def room_def wire_simps same_T_def)
next
  case False
  then show ?thesis using assms
    by (cases t) (auto simp: is_T_def convS2M_T_def convM2S_T_def same_T_def room_def fin_def
        put_counted_eq msg_strings_def wire_simps)
qed

lemma same_R_decoded:
  assumes "\<not> is_T t" and "convS2M_R t f = Some (body, True)"
    and "list_all (\<lambda>s. strlen s < 65536) (msg_strings t f)" and "arrays_ok g"
  shows "\<exists>g'. convM2S_R t (body @ r) g = Some (g', Some r) \<and> same_R t f g'
     \<and> f_type g' = f_type g \<and> f_tag g' = f_tag g"
proof (cases "t = Rwalk")
  case True
  from assms(2) True have n: "unat (f_nwqid f) \<le> MAXWELEM" "unat (f_nwqid f) \<le> length (f_wqid f)"
    and body: "body = pbit16 (f_nwqid f) @ concat (map pqid (take (unat (f_nwqid f)) (f_wqid f)))"
    by (auto simp: convS2M_R_def Let_def split: if_splits)
  let ?qs = "take (unat (f_nwqid f)) (f_wqid f)"
  let ?g = "g\<lparr>f_nwqid := f_nwqid f\<rparr>"
  have "get_wqids 0 (length ?qs) (concat (map pqid ?qs) @ r) ?g =
     Some (?g\<lparr>f_wqid := ?qs @ drop (length ?qs) (f_wqid g)\<rparr>, Some r)"
    using get_wqids_enc [of 0 ?qs ?g r] assms(4) n by (simp add: arrays_ok_def)
  with n True body show ?thesis
    by (simp add: convM2S_R_def room_def wire_simps same_R_def)
next
  case False
  then show ?thesis using assms
    by (cases t) (auto simp: is_T_def convS2M_R_def convM2S_R_def same_R_def room_def fin_def
        put_counted_eq msg_strings_def wire_simps)
qed

subsection \<open>Sizes\<close>

lemma length_concat_pstring:
  "(of_nat (length (concat (map pstring ss))) :: u32) = sum_list (map stringsz ss)"
  by (induction ss) (simp_all add: stringsz_pstring)

lemma sizeS2M_T_length:
  "sizeS2M_T t f = Some n \<Longrightarrow> convS2M_T t f = Some (body, True) \<Longrightarrow> n = of_nat (length body)"
  by (cases t) (auto simp: sizeS2M_T_def convS2M_T_def put_counted_eq wire_simps stringsz_pstring
      wnames_size_def length_concat_pstring Let_def split: if_splits)

lemma sizeS2M_R_length:
  "sizeS2M_R t f = Some n \<Longrightarrow> convS2M_R t f = Some (body, True) \<Longrightarrow> n = of_nat (length body)"
  by (cases t) (auto simp: sizeS2M_R_def convS2M_R_def put_counted_eq wire_simps stringsz_pstring
      qidc.enc_list_length Let_def min.absorb1 min.absorb2 split: if_splits)

text \<open>What a call that returns a size did.\<close>

lemma convS2M_success:
  assumes "convS2M f nap = Some (sz, out)" and "sz \<noteq> 0"
  obtains t body where "switch_type (f_type f) = Some t"
    and "(if is_T t then convS2M_T t f else convS2M_R t f) = Some (body, True)"
    and "out = pbit32 sz @ pbit8 (f_type f) @ pbit16 (f_tag f) @ body"
    and "unat sz = length out" and "sizeS2M f = Some sz" and "sz \<le> nap"
proof -
  from assms obtain t body where "switch_type (f_type f) = Some t" "sizeS2M f = Some sz" "sz \<le> nap"
    "(if is_T t then convS2M_T t f else convS2M_R t f) = Some (body, True)"
    "out = pbit32 sz @ pbit8 (f_type f) @ pbit16 (f_tag f) @ body" "unat sz = length out"
    by (auto simp: convS2M_def bind_eq_Some_conv Let_def not_less split: if_splits option.splits)
  then show ?thesis using that by blast
qed

subsection \<open>The decoder never leaves the buffer\<close>

lemma gstring_total: "\<exists>r. gstring p = Some r \<and> (\<forall>s q. r = Some (s, q) \<longrightarrow> length q \<le> length p)"
  using gbit16_bounded [of p] by (auto simp: gstring_def not_less)

lemma gqid_total: "\<exists>r. gqid p = Some r \<and> (\<forall>s q. r = Some (s, q) \<longrightarrow> length q \<le> length p)"
proof (cases "length p < 13")
  case True
  then show ?thesis by (simp add: gqid_def)
next
  case False
  then have "1 \<le> length p" by simp
  then obtain t p1 where t: "gbit8 p = Some (t, p1)" "length p1 = length p - 1"
    using gbit8_bounded by blast
  with False have "4 \<le> length p1" by simp
  then obtain v p2 where v: "gbit32 p1 = Some (v, p2)" "length p2 = length p1 - 4"
    using gbit32_bounded by blast
  with False t have "8 \<le> length p2" by simp
  then obtain x p3 where "gbit64 p2 = Some (x, p3)" "length p3 = length p2 - 8"
    using gbit64_bounded by blast
  with False t v show ?thesis by (simp add: gqid_def)
qed

text \<open>
  A decoding step is good when it does not fault, leaves no more than it was given, and
  keeps the arrays.
\<close>

definition good_step :: "nat \<Rightarrow> (fcall \<times> bytes option) option \<Rightarrow> bool" where
  "good_step n r = (case r of None \<Rightarrow> False
     | Some (f, q) \<Rightarrow> arrays_ok f \<and> (case q of None \<Rightarrow> True | Some q \<Rightarrow> length q \<le> n))"

lemma good_fin [simp]: "good_step n (fin f p) \<longleftrightarrow> arrays_ok f \<and> length p \<le> n"
  by (simp add: good_step_def fin_def)

lemma good_stop [simp]: "good_step n (Some (f, None)) \<longleftrightarrow> arrays_ok f"
  by (simp add: good_step_def)

lemma good_room: "arrays_ok f \<Longrightarrow> (m \<le> length p \<Longrightarrow> good_step n k) \<Longrightarrow> good_step n (room m p f k)"
  by (simp add: room_def)

lemma good_mono: "good_step m r \<Longrightarrow> m \<le> n \<Longrightarrow> good_step n r"
  by (auto simp: good_step_def split: option.splits)

lemma good_gbit8:
  "1 \<le> length p \<Longrightarrow> (\<And>v q. length q = length p - 1 \<Longrightarrow> good_step n (k (v, q))) \<Longrightarrow>
   good_step n (gbit8 p \<bind> k)"
  using gbit8_bounded [of p] by auto

lemma good_gbit16:
  "2 \<le> length p \<Longrightarrow> (\<And>v q. length q = length p - 2 \<Longrightarrow> good_step n (k (v, q))) \<Longrightarrow>
   good_step n (gbit16 p \<bind> k)"
  using gbit16_bounded [of p] by auto

lemma good_gbit32:
  "4 \<le> length p \<Longrightarrow> (\<And>v q. length q = length p - 4 \<Longrightarrow> good_step n (k (v, q))) \<Longrightarrow>
   good_step n (gbit32 p \<bind> k)"
  using gbit32_bounded [of p] by auto

lemma good_gbit64:
  "8 \<le> length p \<Longrightarrow> (\<And>v q. length q = length p - 8 \<Longrightarrow> good_step n (k (v, q))) \<Longrightarrow>
   good_step n (gbit64 p \<bind> k)"
  using gbit64_bounded [of p] by auto

lemma good_get_str:
  "arrays_ok f \<Longrightarrow> (\<And>s q. length q \<le> length p \<Longrightarrow> good_step n (k (upd s f) q)) \<Longrightarrow>
   good_step n (get_str p f upd k)"
  using gstring_total [of p] by (auto simp: get_str_def split: option.splits)

lemma good_get_qid:
  "arrays_ok f \<Longrightarrow> (\<And>s q. length q \<le> length p \<Longrightarrow> good_step n (k (upd s f) q)) \<Longrightarrow>
   good_step n (get_qid p f upd k)"
  using gqid_total [of p] by (auto simp: get_qid_def split: option.splits)

lemma good_get_wnames:
  "arrays_ok f \<Longrightarrow> i + k \<le> MAXWELEM \<Longrightarrow> length p \<le> n \<Longrightarrow> good_step n (get_wnames i k p f)"
proof (induction k arbitrary: i p f)
  case 0
  then show ?case by (simp add: good_step_def)
next
  case (Suc k)
  obtain r where r: "gstring p = Some r" "\<And>s q. r = Some (s, q) \<Longrightarrow> length q \<le> length p"
    using gstring_total by blast
  with Suc show ?case
    by (cases r) (auto simp: arrays_ok_def intro!: Suc.IH dest: r(2) intro: le_trans)
qed

lemma good_get_wqids:
  "arrays_ok f \<Longrightarrow> i + k \<le> MAXWELEM \<Longrightarrow> length p \<le> n \<Longrightarrow> good_step n (get_wqids i k p f)"
proof (induction k arbitrary: i p f)
  case 0
  then show ?case by (simp add: good_step_def)
next
  case (Suc k)
  obtain r where r: "gqid p = Some r" "\<And>s q. r = Some (s, q) \<Longrightarrow> length q \<le> length p"
    using gqid_total by blast
  with Suc show ?case
    by (cases r) (auto simp: arrays_ok_def intro!: Suc.IH dest: r(2) intro: le_trans)
qed

lemmas good_intros =
  good_room good_gbit8 good_gbit16 good_gbit32 good_gbit64 good_get_str good_get_qid
  good_get_wnames good_get_wqids

lemma good_convM2S_T: "is_T t \<Longrightarrow> arrays_ok f \<Longrightarrow> good_step (length p) (convM2S_T t p f)"
  by (cases t) (auto simp: is_T_def convM2S_T_def arrays_ok_def Let_def intro!: good_intros)

lemma good_convM2S_R: "\<not> is_T t \<Longrightarrow> arrays_ok f \<Longrightarrow> good_step (length p) (convM2S_R t p f)"
  by (cases t) (auto simp: is_T_def convM2S_R_def arrays_ok_def Let_def intro!: good_intros)

subsection \<open>Decoding determines the bytes\<close>

lemma byte_split16: "gbit16 p = Some (v, q) \<Longrightarrow> p = pbit16 v @ q"
proof (cases p rule: gbit16.cases)
  case (1 a b r)
  assume "gbit16 p = Some (v, q)"
  with 1 have v: "v = ucast a OR push_bit 8 (ucast b)" "q = r" by simp_all
  have "ucast v = a"
    by (rule bit_word_eqI) (auto simp: v bit_simps)
  moreover have "ucast (drop_bit 8 v) = b"
    by (rule bit_word_eqI) (auto simp: v bit_simps dest: bit_imp_le_length)
  ultimately show ?thesis by (simp add: 1 v(2) pbit16_def)
qed simp_all

lemma byte_split32: "gbit32 p = Some (v, q) \<Longrightarrow> p = pbit32 v @ q"
proof (cases p rule: gbit32.cases)
  case (1 a b c d r)
  assume "gbit32 p = Some (v, q)"
  with 1 have v: "v = ucast a OR push_bit 8 (ucast b) OR push_bit 16 (ucast c) OR push_bit 24 (ucast d)"
    "q = r" by simp_all
  have "ucast v = a"
    by (rule bit_word_eqI) (auto simp: v bit_simps)
  moreover have "ucast (drop_bit 8 v) = b"
    by (rule bit_word_eqI) (auto simp: v bit_simps dest: bit_imp_le_length)
  moreover have "ucast (drop_bit 16 v) = c"
    by (rule bit_word_eqI) (auto simp: v bit_simps dest: bit_imp_le_length)
  moreover have "ucast (drop_bit 24 v) = d"
    by (rule bit_word_eqI) (auto simp: v bit_simps dest: bit_imp_le_length)
  ultimately show ?thesis by (simp add: 1 v(2) pbit32_def)
qed simp_all

lemma byte_split8: "gbit8 p = Some (v, q) \<Longrightarrow> p = pbit8 v @ q"
  by (cases p rule: gbit8.cases) (simp_all add: pbit8_def)

lemma byte_split64: "gbit64 p = Some (v, q) \<Longrightarrow> p = pbit64 v @ q"
proof (cases p rule: gbit64.cases)
  case (1 a b c d e f g h r)
  assume eq: "gbit64 p = Some (v, q)"
  obtain lo hi where lo: "gbit32 (a # b # c # d # e # f # g # h # r) = Some (lo, e # f # g # h # r)"
    and hi: "gbit32 (e # f # g # h # r) = Some (hi, r)" by simp
  with eq 1 have v: "v = ucast lo OR push_bit 32 (ucast hi)" "q = r" by auto
  have lo_v: "ucast v = lo"
    by (rule bit_word_eqI) (auto simp: v bit_simps)
  have hi_v: "ucast (drop_bit 32 v) = hi"
    by (rule bit_word_eqI) (auto simp: v bit_simps dest: bit_imp_le_length)
  have sub: "ucast (drop_bit k (ucast w :: u32)) = (ucast (drop_bit k w) :: u8)" if "k \<le> 24" for k and w :: u64
    by (rule bit_word_eqI) (use that in \<open>auto simp: bit_simps\<close>)
  have "pbit64 v = pbit32 lo @ pbit32 hi"
    using sub [of 0] by (simp add: pbit64_def pbit32_def sub drop_bit_drop_bit flip: lo_v hi_v)
  then show ?thesis
    using byte_split32 [OF lo] byte_split32 [OF hi] by (simp add: 1 v(2))
qed simp_all

definition nul_free :: "cstr \<Rightarrow> bool" where
  "nul_free s = (case s of None \<Rightarrow> True | Some bs \<Rightarrow> 0 \<notin> set bs)"

lemma nul_free_Some [simp]: "nul_free (Some bs) \<longleftrightarrow> 0 \<notin> set bs"
  by (simp add: nul_free_def)

lemma pstring_Some: "0 \<notin> set s \<Longrightarrow> length s < 65536 \<Longrightarrow> pstring (Some s) = pbit16 (of_nat (length s) :: u16) @ s"
proof -
  assume s: "0 \<notin> set s" "length s < 65536"
  then have "cstr_bytes (Some s) = s"
    by (auto simp: cstr_bytes_def takeWhile_eq_all_conv)
  moreover have "pbit16 (of_nat (length s) :: u32) = pbit16 (of_nat (length s) :: u16)"
    unfolding pbit16_def by (auto intro!: bit_word_eqI simp: bit_simps)
  ultimately show ?thesis
    using s by (simp add: pstring_def strlen_def Let_def)
qed

lemma gstring_inv: "gstring p = Some (Some (s, q)) \<Longrightarrow> 0 \<notin> set s \<Longrightarrow> p = pstring (Some s) @ q"
proof -
  assume g: "gstring p = Some (Some (s, q))" and s: "0 \<notin> set s"
  then obtain n p' where n: "gbit16 p = Some (n, p')" and len: "unat n \<le> length p'"
    and sq: "s = take (unat n) p'" "q = drop (unat n) p'"
    by (auto simp: gstring_def bind_eq_Some_conv split: if_splits)
  from len sq have "length s = unat n" by simp
  then have "length s < 65536" "of_nat (length s) = n"
    using unat_u16_bound [of n] by simp_all
  with s byte_split16 [OF n] sq show ?thesis
    by (simp add: pstring_Some)
qed

lemma gqid_inv: "gqid p = Some (Some (x, q)) \<Longrightarrow> p = pqid x @ q"
  by (auto simp: gqid_def pqid_def bind_eq_Some_conv split: if_splits
      dest!: byte_split8 byte_split32 byte_split64)

lemma get_wnames_inv:
  "get_wnames i k p f = Some (g, Some q) \<Longrightarrow> i + k \<le> length (f_wname f) \<Longrightarrow>
   \<exists>ss. length ss = k \<and> g = f\<lparr>f_wname := take i (f_wname f) @ map Some ss @ drop (i + k) (f_wname f)\<rparr>
     \<and> (list_all (\<lambda>s. 0 \<notin> set s) ss \<longrightarrow> p = concat (map (\<lambda>s. pstring (Some s)) ss) @ q)"
proof (induction k arbitrary: i p f)
  case 0
  then show ?case by simp
next
  case (Suc k)
  from Suc.prems obtain s p' where s: "gstring p = Some (Some (s, p'))"
    and rest: "get_wnames (Suc i) k p' (f\<lparr>f_wname := (f_wname f)[i := Some s]\<rparr>) = Some (g, Some q)"
    by (auto simp: bind_eq_Some_conv split: option.splits if_splits)
  from Suc.IH [OF rest] Suc.prems(2) obtain ss where "length ss = k"
    "g = f\<lparr>f_wname := take (Suc i) ((f_wname f)[i := Some s]) @ map Some ss
          @ drop (Suc i + k) ((f_wname f)[i := Some s])\<rparr>"
    "list_all (\<lambda>s. 0 \<notin> set s) ss \<longrightarrow> p' = concat (map (\<lambda>s. pstring (Some s)) ss) @ q" by auto
  with Suc.prems(2) gstring_inv [OF s] show ?case
    by (intro exI [of _ "s # ss"]) (simp add: take_Suc_conv_app_nth)
qed

lemma get_wqids_inv:
  "get_wqids i k p f = Some (g, Some q) \<Longrightarrow> i + k \<le> length (f_wqid f) \<Longrightarrow>
   \<exists>xs. length xs = k \<and> g = f\<lparr>f_wqid := take i (f_wqid f) @ xs @ drop (i + k) (f_wqid f)\<rparr>
     \<and> p = concat (map pqid xs) @ q"
proof (induction k arbitrary: i p f)
  case 0
  then show ?case by simp
next
  case (Suc k)
  from Suc.prems obtain s p' where s: "gqid p = Some (Some (s, p'))"
    and rest: "get_wqids (Suc i) k p' (f\<lparr>f_wqid := (f_wqid f)[i := s]\<rparr>) = Some (g, Some q)"
    by (auto simp: bind_eq_Some_conv split: option.splits if_splits)
  from Suc.IH [OF rest] Suc.prems(2) obtain xs where "length xs = k"
    "g = f\<lparr>f_wqid := take (Suc i) ((f_wqid f)[i := s]) @ xs @ drop (Suc i + k) ((f_wqid f)[i := s])\<rparr>"
    "p' = concat (map pqid xs) @ q" by auto
  with Suc.prems(2) gqid_inv [OF s] show ?case
    by (intro exI [of _ "s # xs"]) (simp add: take_Suc_conv_app_nth)
qed

lemma room_ok: "room n p f k = Some (g, Some q) \<longleftrightarrow> n \<le> length p \<and> k = Some (g, Some q)"
  by (auto simp: room_def)

lemma get_str_ok:
  "get_str p f upd k = Some (g, Some q) \<longleftrightarrow>
   (\<exists>s p'. gstring p = Some (Some (s, p')) \<and> k (upd s f) p' = Some (g, Some q))"
  by (auto simp: get_str_def bind_eq_Some_conv split: option.splits)

lemma get_qid_ok:
  "get_qid p f upd k = Some (g, Some q) \<longleftrightarrow>
   (\<exists>s p'. gqid p = Some (Some (s, p')) \<and> k (upd s f) p' = Some (g, Some q))"
  by (auto simp: get_qid_def bind_eq_Some_conv split: option.splits)

lemma fin_ok: "fin f p = Some (g, Some q) \<longleftrightarrow> f = g \<and> p = q"
  by (auto simp: fin_def)

lemmas decode_ok = room_ok get_str_ok get_qid_ok fin_ok bind_eq_Some_conv
lemmas decode_inv = byte_split8 byte_split16 byte_split32 byte_split64 gqid_inv

lemma reencode_T:
  assumes "is_T t" and "convM2S_T t p f = Some (g, Some q)" and "arrays_ok f"
    and "list_all nul_free (msg_strings t g)"
  shows "\<exists>body. convS2M_T t g = Some (body, True) \<and> p = body @ q"
proof (cases "t = Twalk")
  case True
  with assms(2) obtain fid p1 newfid p2 nw p3 where p:
    "gbit32 p = Some (fid, p1)" "gbit32 p1 = Some (newfid, p2)" "gbit16 p2 = Some (nw, p3)"
    and nw: "unat nw \<le> MAXWELEM"
    and w: "get_wnames 0 (unat nw) p3 (f\<lparr>f_fid := fid, f_newfid := newfid, f_nwname := nw\<rparr>) = Some (g, Some q)"
    by (auto simp: convM2S_T_def decode_ok Let_def split: if_splits)
  from get_wnames_inv [OF w] assms(3) nw obtain ss where ss: "length ss = unat nw"
    "g = f\<lparr>f_fid := fid, f_newfid := newfid, f_nwname := nw, f_wname := map Some ss @ drop (unat nw) (f_wname f)\<rparr>"
    "list_all (\<lambda>s. 0 \<notin> set s) ss \<longrightarrow> p3 = concat (map (\<lambda>s. pstring (Some s)) ss) @ q"
    by (auto simp: arrays_ok_def)
  moreover have "list_all (\<lambda>s. 0 \<notin> set s) ss"
    using assms(4) True ss(1,2) by (auto simp: msg_strings_def list_all_iff)
  ultimately show ?thesis
    using True nw p by (auto simp: convS2M_T_def dest!: decode_inv intro!: arg_cong [where f = concat])
next
  case False
  then show ?thesis using assms
    by (cases t) (auto simp: is_T_def convM2S_T_def convS2M_T_def decode_ok put_counted_eq msg_strings_def
        Let_def dest!: decode_inv gstring_inv)
qed

lemma reencode_R:
  assumes "\<not> is_T t" and "convM2S_R t p f = Some (g, Some q)" and "arrays_ok f"
    and "list_all nul_free (msg_strings t g)"
  shows "\<exists>body. convS2M_R t g = Some (body, True) \<and> p = body @ q"
proof (cases "t = Rwalk")
  case True
  with assms(2) obtain nw p3 where p: "gbit16 p = Some (nw, p3)" and nw: "unat nw \<le> MAXWELEM"
    and w: "get_wqids 0 (unat nw) p3 (f\<lparr>f_nwqid := nw\<rparr>) = Some (g, Some q)"
    by (auto simp: convM2S_R_def decode_ok Let_def split: if_splits)
  from get_wqids_inv [OF w] assms(3) nw obtain xs where "length xs = unat nw"
    "g = f\<lparr>f_nwqid := nw, f_wqid := xs @ drop (unat nw) (f_wqid f)\<rparr>" "p3 = concat (map pqid xs) @ q"
    by (auto simp: arrays_ok_def)
  with True nw p show ?thesis
    by (auto simp: convS2M_R_def dest!: decode_inv)
next
  case False
  then show ?thesis using assms
    by (cases t) (auto simp: is_T_def convM2S_R_def convS2M_R_def decode_ok put_counted_eq msg_strings_def
        Let_def dest!: decode_inv gstring_inv)
qed

subsection \<open>Decoding a whole message\<close>

lemma convM2S_fields:
  assumes "convM2S ap f = Some (n, g)" and "n \<noteq> 0"
  shows "\<exists>t ty tag p q. ap = pbit32 n @ pbit8 ty @ pbit16 tag @ p \<and> switch_type ty = Some t \<and>
    (if is_T t then convM2S_T t p (f\<lparr>f_type := ty, f_tag := tag\<rparr>) else convM2S_R t p (f\<lparr>f_type := ty, f_tag := tag\<rparr>)) = Some (g, Some q) \<and>
    unat n + length q = length ap"
proof -
  from assms have len: "7 \<le> length ap"
    by (auto simp: convM2S_def not_less split: if_splits)
  then obtain sz p0 where p0: "gbit32 ap = Some (sz, p0)" "length p0 = length ap - 4"
    using gbit32_bounded [of ap] by auto
  with len obtain ty p1 where p1: "gbit8 p0 = Some (ty, p1)" "length p1 = length p0 - 1"
    using gbit8_bounded [of p0] by force
  with len p0 obtain tag p2 where p2: "gbit16 p1 = Some (tag, p2)"
    using gbit16_bounded [of p1] by force
  let ?f = "f\<lparr>f_type := ty, f_tag := tag\<rparr>"
  have "\<not> sz < 7"
    using assms len p0 by (auto simp: convM2S_def split: if_splits)
  with assms len p0(1) p1(1) p2 have dec: "(case switch_type ty of None \<Rightarrow> Some (0, ?f)
     | Some t \<Rightarrow> do {
         (f, r) \<leftarrow> (if is_T t then convM2S_T t p2 ?f else convM2S_R t p2 ?f);
         case r of None \<Rightarrow> Some (0, f)
         | Some p \<Rightarrow> if unat sz = length ap - length p then Some (sz, f) else Some (0, f)
       }) = Some (n, g)"
    by (simp add: convM2S_def Let_def)
  from dec \<open>n \<noteq> 0\<close> obtain t where t: "switch_type ty = Some t"
    by (cases "switch_type ty") auto
  from dec \<open>n \<noteq> 0\<close> t obtain q where
    d: "(if is_T t then convM2S_T t p2 ?f else convM2S_R t p2 ?f) = Some (g, Some q)"
    and n: "sz = n" "unat n = length ap - length q"
    unfolding t option.case bind_eq_Some_conv by (auto split: option.split_asm if_split_asm)
  note p = p0(1) [unfolded n(1)] p1(1) p2
  have "0 < unat n" using \<open>n \<noteq> 0\<close> by (simp add: unat_gt_0)
  then have "unat n + length q = length ap" using n(2) by linarith
  moreover have "ap = pbit32 n @ pbit8 ty @ pbit16 tag @ p2" using p by (auto dest!: byte_split8 byte_split16 byte_split32)
  ultimately show ?thesis using t d by blast
qed

lemma convM2S_success:
  assumes "convM2S ap f = Some (n, g)" and "n \<noteq> 0"
  obtains t p q f' where "switch_type (f_type f') = Some t"
    and "ap = pbit32 n @ pbit8 (f_type f') @ pbit16 (f_tag f') @ p"
    and "f_wname f' = f_wname f" and "f_wqid f' = f_wqid f"
    and "(if is_T t then convM2S_T t p f' else convM2S_R t p f') = Some (g, Some q)"
    and "unat n = length ap - length q"
proof -
  from convM2S_fields [OF assms] obtain t ty tag p q where "ap = pbit32 n @ pbit8 ty @ pbit16 tag @ p" "switch_type ty = Some t"
    "(if is_T t then convM2S_T t p (f\<lparr>f_type := ty, f_tag := tag\<rparr>) else convM2S_R t p (f\<lparr>f_type := ty, f_tag := tag\<rparr>)) = Some (g, Some q)"
    "unat n + length q = length ap" by blast
  then show thesis by (intro that [where f' = "f\<lparr>f_type := ty, f_tag := tag\<rparr>" and t = t and p = p and q = q]) simp_all
qed

lemma get_wnames_header:
  "get_wnames i k p f = Some (g, Some q) \<Longrightarrow> i + k \<le> length (f_wname f) \<Longrightarrow>
   f_type g = f_type f \<and> f_tag g = f_tag f"
  by (drule get_wnames_inv) auto

lemma get_wqids_header:
  "get_wqids i k p f = Some (g, Some q) \<Longrightarrow> i + k \<le> length (f_wqid f) \<Longrightarrow>
   f_type g = f_type f \<and> f_tag g = f_tag f"
  by (drule get_wqids_inv) auto

lemma decode_keeps_header:
  "(if is_T t then convM2S_T t p f else convM2S_R t p f) = Some (g, Some q) \<Longrightarrow> arrays_ok f \<Longrightarrow>
   f_type g = f_type f \<and> f_tag g = f_tag f"
  by (cases t) (auto simp: is_T_def convM2S_T_def convM2S_R_def decode_ok Let_def arrays_ok_def
      split: if_splits dest!: get_wnames_header get_wqids_header)

definition encode_ok :: "fcall \<Rightarrow> bool" where
  "encode_ok f = (case switch_type (f_type f) of None \<Rightarrow> False
     | Some t \<Rightarrow> unat (f_nwname f) \<le> MAXWELEM \<and> unat (f_nwqid f) \<le> MAXWELEM
         \<and> (t \<in> {Twrite, Rread} \<longrightarrow> unat (f_count f) \<le> length (f_data f))
         \<and> (t \<in> {Twstat, Rstat} \<longrightarrow> unat (f_nstat f) \<le> length (f_stat f)))"

text \<open>The image of a message on the wire, with no limit on its size.\<close>

definition wire_image :: "fcall \<Rightarrow> bytes option" where
  "wire_image f = do {
     t \<leftarrow> switch_type (f_type f);
     (body, done) \<leftarrow> (if is_T t then convS2M_T t f else convS2M_R t f);
     if done then Some (pbit32 (of_nat (7 + length body) :: u32) @ pbit8 (f_type f) @ pbit16 (f_tag f) @ body)
     else None
   }"

lemma body_exists:
  assumes "arrays_ok f" and "encode_ok f" and "switch_type (f_type f) = Some t"
  shows "\<exists>body. (if is_T t then convS2M_T t f else convS2M_R t f) = Some (body, True)"
  using assms
  by (cases t) (auto simp: is_T_def convS2M_T_def convS2M_R_def encode_ok_def arrays_ok_def
      put_counted_eq Let_def)

lemma sizeS2M_body:
  assumes "switch_type (f_type f) = Some t"
    and "(if is_T t then convS2M_T t f else convS2M_R t f) = Some (body, True)"
  shows "sizeS2M f = Some (of_nat (7 + length body))"
proof -
  have "\<exists>n. (if is_T t then sizeS2M_T t f else sizeS2M_R t f) = Some n"
    using assms(2) by (cases t) (auto simp: is_T_def sizeS2M_T_def sizeS2M_R_def convS2M_T_def
        convS2M_R_def wnames_size_def Let_def split: if_splits)
  then obtain n where "(if is_T t then sizeS2M_T t f else sizeS2M_R t f) = Some n" by blast
  moreover from this assms(2) have "n = of_nat (length body)"
    by (auto split: if_splits intro: sizeS2M_T_length sizeS2M_R_length)
  ultimately show ?thesis
    using assms(1) by (auto simp: sizeS2M_def split: if_splits)
qed

subsection \<open>Example messages\<close>

definition fcall_zero :: fcall where
  "fcall_zero = \<lparr>f_type = 0, f_fid = 0, f_tag = 0, f_msize = 0, f_version = None, f_oldtag = 0,
     f_ename = None, f_qid = \<lparr>q_path = 0, q_vers = 0, q_type = 0\<rparr>, f_iounit = 0,
     f_aqid = \<lparr>q_path = 0, q_vers = 0, q_type = 0\<rparr>, f_afid = 0, f_uname = None, f_aname = None,
     f_perm = 0, f_name = None, f_mode = 0, f_newfid = 0, f_nwname = 0,
     f_wname = replicate MAXWELEM None, f_nwqid = 0,
     f_wqid = replicate MAXWELEM \<lparr>q_path = 0, q_vers = 0, q_type = 0\<rparr>, f_offset = 0, f_count = 0,
     f_data = [], f_nstat = 0, f_stat = []\<rparr>"

text \<open>A walk of two names, and a write of three bytes.\<close>

definition example_walk :: fcall where
  "example_walk = fcall_zero\<lparr>f_type := 110, f_tag := 7, f_fid := 1, f_newfid := 2, f_nwname := 2,
     f_wname := [Some [117, 115, 114], Some [114, 111, 98]] @ replicate 14 None\<rparr>"

definition example_write :: fcall where
  "example_write = fcall_zero\<lparr>f_type := 118, f_tag := 9, f_fid := 3, f_offset := 512, f_count := 3,
     f_data := [1, 2, 3]\<rparr>"

definition example_walk_wire :: bytes where
  "example_walk_wire = [27, 0, 0, 0, 110, 7, 0, 1, 0, 0, 0, 2, 0, 0, 0, 2, 0,
     3, 0, 117, 115, 114, 3, 0, 114, 111, 98]"

lemma arrays_ok_examples: "arrays_ok fcall_zero" "arrays_ok example_walk" "arrays_ok example_write"
  by (simp_all add: arrays_ok_def fcall_zero_def example_walk_def example_write_def MAXWELEM_def)

lemma convS2M_example_walk: "convS2M example_walk 8192 = Some (27, example_walk_wire)"
  by code_simp

subsection \<open>The properties\<close>

text \<open>
  C1. What convS2M writes, convM2S reads back: a message whose strings fit their 16-bit counts
  and which convS2M encodes (it returns a size other than 0) is decoded from the front of any
  buffer that starts with the encoding, with the same size and the same contents, whatever the
  structure held before. The hypothesis on strings is needed: the code truncates the count of a
  longer string, not the string.
\<close>

theorem convM2S_convS2M:
  assumes "convS2M f nap = Some (sz, out)" and "sz \<noteq> 0" and "strings_fit f" and "arrays_ok g"
  shows "\<exists>g'. convM2S (out @ rest) g = Some (sz, g') \<and> same_message f g'"
proof -
  from assms(1,2) obtain t body where t: "switch_type (f_type f) = Some t"
    and body: "(if is_T t then convS2M_T t f else convS2M_R t f) = Some (body, True)"
    and out: "out = pbit32 sz @ pbit8 (f_type f) @ pbit16 (f_tag f) @ body" and sz: "unat sz = length out"
    by (rule convS2M_success)
  let ?g = "g\<lparr>f_type := f_type f, f_tag := f_tag f\<rparr>"
  have "\<exists>g'. (if is_T t then convM2S_T t (body @ rest) ?g else convM2S_R t (body @ rest) ?g)
      = Some (g', Some rest) \<and> (if is_T t then same_T t f g' else same_R t f g')
      \<and> f_type g' = f_type f \<and> f_tag g' = f_tag f"
    using same_T_decoded [of t f body ?g rest] same_R_decoded [of t f body ?g rest] body t assms(3,4)
    by (auto simp: strings_fit_def arrays_ok_def split: if_splits)
  then obtain g' where "(if is_T t then convM2S_T t (body @ rest) ?g else convM2S_R t (body @ rest) ?g)
      = Some (g', Some rest)" "same_message f g'"
    using t by (auto simp: same_message_def)
  moreover have "\<not> sz < 4 + 1 + 2"
    using sz out by (simp add: word_less_nat_alt wire_simps)
  ultimately show ?thesis
    using t sz out by (auto simp: convM2S_def wire_simps)
qed

theorem convM2S_convS2M_witness:
  "\<exists>g'. convM2S (example_walk_wire @ [255]) fcall_zero = Some (27, g') \<and> same_message example_walk g'"
proof (rule convM2S_convS2M [OF convS2M_example_walk])
  show "strings_fit example_walk"
    by (simp add: strings_fit_def example_walk_def fcall_zero_def switch_type_def all_mtypes_def
        msg_strings_def strlen_def cstr_bytes_def)
qed (simp_all add: arrays_ok_examples)

text \<open>
  C2. Decoding is the inverse of encoding on the wire too: whenever convM2S accepts a message
  whose strings hold no NUL byte, encoding the decoded structure gives back the very bytes it
  was decoded from, so a server that forwards a message does not change it. The hypothesis on
  NUL bytes is needed: C strings end at the first one.
\<close>

theorem convS2M_convM2S:
  assumes "convM2S ap f = Some (n, g)" and "n \<noteq> 0" and "arrays_ok f" and "n \<le> nap"
    and "list_all nul_free (msg_strings t g)" and "switch_type (f_type g) = Some t"
  shows "convS2M g nap = Some (n, take (unat n) ap)"
proof -
  from assms(1,2) obtain t' p q f' where t': "switch_type (f_type f') = Some t'"
    and ap: "ap = pbit32 n @ pbit8 (f_type f') @ pbit16 (f_tag f') @ p"
    and f': "f_wname f' = f_wname f" "f_wqid f' = f_wqid f"
    and dec: "(if is_T t' then convM2S_T t' p f' else convM2S_R t' p f') = Some (g, Some q)"
    and n: "unat n = length ap - length q"
    by (rule convM2S_success)
  have tag: "f_type g = f_type f' \<and> f_tag g = f_tag f'"
    using dec assms(3) f' by (auto simp: arrays_ok_def dest!: decode_keeps_header)
  with t' assms(6) have [simp]: "t' = t" by simp
  have "\<exists>body. (if is_T t then convS2M_T t g else convS2M_R t g) = Some (body, True) \<and> p = body @ q"
    using dec assms(3,5) f' reencode_T [of t p f' g q] reencode_R [of t p f' g q]
    by (auto simp: arrays_ok_def split: if_splits)
  then obtain body where body: "(if is_T t then convS2M_T t g else convS2M_R t g) = Some (body, True)"
    and p: "p = body @ q" by blast
  from ap p n have len: "unat n = 7 + length body" by (simp add: wire_simps)
  then have n_eq: "n = of_nat (7 + length body)" by (metis of_nat_unat ucast_id)
  have "sizeS2M g = Some n"
    using sizeS2M_body [OF assms(6) body] n_eq by simp
  moreover have "take (unat n) ap = pbit32 n @ pbit8 (f_type g) @ pbit16 (f_tag g) @ body"
    using ap p len tag by (simp add: wire_simps)
  ultimately show ?thesis
    using assms(2,4,6) body len by (auto simp: convS2M_def wire_simps word_le_nat_alt word_less_nat_alt
        not_less Let_def)
qed

theorem convS2M_convM2S_witness:
  "\<exists>g. convM2S example_walk_wire fcall_zero = Some (27, g) \<and>
     convS2M g 8192 = Some (27, take 27 example_walk_wire)"
proof -
  let ?g = "fcall_zero\<lparr>f_type := 110, f_tag := 7, f_fid := 1, f_newfid := 2, f_nwname := 2,
     f_wname := [Some [117, 115, 114], Some [114, 111, 98]] @ replicate 14 None\<rparr>"
  have g: "convM2S example_walk_wire fcall_zero = Some (27, ?g)" by code_simp
  moreover have "convS2M ?g 8192 = Some (27, take (unat (27 :: u32)) example_walk_wire)"
    by (rule convS2M_convM2S [OF g, where t = Twalk]) (simp_all add: arrays_ok_examples, code_simp+)
  ultimately show ?thesis by auto
qed

lemma convM2S_total:
  assumes "arrays_ok f"
  shows "\<exists>n g. convM2S ap f = Some (n, g) \<and> unat n \<le> length ap \<and> arrays_ok g"
proof (cases "length ap < 7")
  case True
  then show ?thesis using assms by (simp add: convM2S_def)
next
  case False
  then obtain sz p0 where p0: "gbit32 ap = Some (sz, p0)" "length p0 = length ap - 4"
    using gbit32_bounded [of ap] by auto
  with False obtain ty p1 where p1: "gbit8 p0 = Some (ty, p1)" "length p1 = length p0 - 1"
    using gbit8_bounded [of p0] by force
  with False p0 obtain tag p2 where p2: "gbit16 p1 = Some (tag, p2)"
    using gbit16_bounded [of p1] by force
  let ?f = "f\<lparr>f_type := ty, f_tag := tag\<rparr>"
  have "arrays_ok ?f" using assms by (simp add: arrays_ok_def)
  then have good: "good_step (length p2) (if is_T t then convM2S_T t p2 ?f else convM2S_R t p2 ?f)" for t
    by (simp add: good_convM2S_T good_convM2S_R)
  show ?thesis
  proof (cases "switch_type ty")
    case None
    with assms False p0 p1 p2 show ?thesis by (auto simp: convM2S_def arrays_ok_def)
  next
    case (Some t)
    with good [of t] assms False p0 p1 p2 show ?thesis
      by (auto simp: convM2S_def good_step_def arrays_ok_def split: option.splits)
  qed
qed

text \<open>
  C3. The decoder is memory safe on any input and accepts only whole messages: for every buffer, convM2S returns (it never
  reads past the end of the buffer or writes past the name and qid arrays). If the size it returns is not 0, it is the size that stands in the
  first four bytes, at most the size of the buffer, the type is one of 9P, and the fields of that type, decoded from
  the eighth byte on, end at just that size.
\<close>

theorem convM2S_safe:
  assumes "arrays_ok f"
  shows "\<exists>n g. convM2S ap f = Some (n, g) \<and> unat n \<le> length ap \<and> arrays_ok g \<and>
    (n \<noteq> 0 \<longrightarrow> (\<exists>t ty tag p q. ap = pbit32 n @ pbit8 ty @ pbit16 tag @ p \<and> switch_type ty = Some t \<and>
       (if is_T t then convM2S_T t p (f\<lparr>f_type := ty, f_tag := tag\<rparr>) else convM2S_R t p (f\<lparr>f_type := ty, f_tag := tag\<rparr>)) = Some (g, Some q) \<and>
       unat n + length q = length ap))"
proof -
  obtain n g where r: "convM2S ap f = Some (n, g)" "unat n \<le> length ap" "arrays_ok g" using convM2S_total [OF assms] by blast
  have "\<exists>t ty tag p q. ap = pbit32 n @ pbit8 ty @ pbit16 tag @ p \<and> switch_type ty = Some t \<and>
       (if is_T t then convM2S_T t p (f\<lparr>f_type := ty, f_tag := tag\<rparr>) else convM2S_R t p (f\<lparr>f_type := ty, f_tag := tag\<rparr>)) = Some (g, Some q) \<and>
       unat n + length q = length ap" if "n \<noteq> 0"
    using convM2S_fields [OF r(1) that] by (elim exE conjE) (intro exI conjI, assumption+)
  then show ?thesis using r by blast
qed

theorem convM2S_safe_witness:
  "\<exists>g p q. convM2S example_walk_wire fcall_zero = Some (27, g) \<and> arrays_ok g \<and>
     convM2S_T Twalk p (fcall_zero\<lparr>f_type := 110, f_tag := 7\<rparr>) = Some (g, Some q) \<and> 27 + length q = length example_walk_wire"
proof -
  have r: "map_option fst (convM2S example_walk_wire fcall_zero) = Some 27" and y: "switch_type 110 = Some Twalk" "is_T Twalk"
    and h: "take 7 example_walk_wire = pbit32 (27 :: u32) @ pbit8 (110 :: u8) @ pbit16 (7 :: u16)" by code_simp+
  obtain n g where S: "convM2S example_walk_wire fcall_zero = Some (n, g)" "arrays_ok g"
    "n \<noteq> 0 \<longrightarrow> (\<exists>t ty tag p q. example_walk_wire = pbit32 n @ pbit8 ty @ pbit16 tag @ p \<and> switch_type ty = Some t \<and>
       (if is_T t then convM2S_T t p (fcall_zero\<lparr>f_type := ty, f_tag := tag\<rparr>) else convM2S_R t p (fcall_zero\<lparr>f_type := ty, f_tag := tag\<rparr>)) = Some (g, Some q) \<and>
       unat n + length q = length example_walk_wire)"
    using convM2S_safe [OF arrays_ok_examples(1)] by blast
  have n: "n = 27" "n \<noteq> 0" using S(1) r by simp_all
  obtain t ty tag p q where g: "convM2S example_walk_wire fcall_zero = Some (27, g)" "arrays_ok g"
    "example_walk_wire = pbit32 (27 :: u32) @ pbit8 ty @ pbit16 tag @ p" "switch_type ty = Some t"
    "(if is_T t then convM2S_T t p (fcall_zero\<lparr>f_type := ty, f_tag := tag\<rparr>) else convM2S_R t p (fcall_zero\<lparr>f_type := ty, f_tag := tag\<rparr>)) = Some (g, Some q)"
    "unat (27 :: u32) + length q = length example_walk_wire"
    using S(1,2) S(3) [THEN mp, OF n(2)] unfolding n(1) by blast
  have b: "pbit8 ty @ pbit16 tag = pbit8 (110 :: u8) @ pbit16 (7 :: u16)" using h unfolding g(3) by (simp add: wire_simps)
  have "ty = 110" using arg_cong [OF b, of gbit8] by (simp add: wire_simps)
  moreover have "tag = 7" using arg_cong [OF b, of "\<lambda>p. gbit16 (tl p @ [])"] unfolding pbit8_def append.simps list.sel gbit16_pbit16 by simp
  ultimately have "ty = 110" "tag = 7" by simp_all
  then show ?thesis using g y by auto
qed

text \<open>
  The complete behaviour of convS2M on a well-formed message smaller than 4 GB: it writes the
  message's image on the wire and returns its length when the buffer is large enough, and
  writes nothing and returns 0 when it is not. So sizeS2M is exact, and the final check of the
  code (size against what was written) never fails.
\<close>

theorem convS2M_wire_image:
  assumes "encode_ok f" and "arrays_ok f" and "wire_image f = Some w" and "length w < 2 ^ 32"
  shows "convS2M f nap = (if length w \<le> unat nap then Some (of_nat (length w), w) else Some (0, []))"
proof -
  obtain t where t: "switch_type (f_type f) = Some t"
    using assms(1) by (auto simp: encode_ok_def split: option.splits)
  obtain body where body: "(if is_T t then convS2M_T t f else convS2M_R t f) = Some (body, True)"
    using body_exists [OF assms(2,1) t] by blast
  have w: "w = pbit32 (of_nat (7 + length body) :: u32) @ pbit8 (f_type f) @ pbit16 (f_tag f) @ body"
    using assms(3) t body by (auto simp: wire_image_def split: if_splits)
  then have len: "length w = 7 + length body" by (simp add: wire_simps)
  with assms(4) have u: "unat (of_nat (7 + length body) :: u32) = 7 + length body"
    by (simp del: of_nat_add)
  then have "(of_nat (7 + length body) :: u32) \<noteq> 0" by (metis unsigned_0 add_is_0 zero_neq_numeral)
  with sizeS2M_body [OF t body] t body w u show ?thesis
    unfolding len by (auto simp: convS2M_def word_less_nat_alt wire_simps Let_def simp del: of_nat_add)
qed

theorem convS2M_wire_image_witness:
  "convS2M example_write 25 = Some (0, []) \<and>
   convS2M example_write 26 = Some (26, [26, 0, 0, 0, 118, 9, 0, 3, 0, 0, 0, 0, 2, 0, 0, 0, 0, 0, 0,
     3, 0, 0, 0, 1, 2, 3])"
proof -
  let ?w = "[26, 0, 0, 0, 118, 9, 0, 3, 0, 0, 0, 0, 2, 0, 0, 0, 0, 0, 0, 3, 0, 0, 0, 1, 2, 3] :: bytes"
  have ok: "encode_ok example_write" by code_simp
  have w: "wire_image example_write = Some ?w" by code_simp
  have len: "length ?w < 2 ^ 32" by simp
  show ?thesis
    using convS2M_wire_image [OF ok arrays_ok_examples(3) w len, of 25]
      convS2M_wire_image [OF ok arrays_ok_examples(3) w len, of 26] by simp
qed

text \<open>
  C5. What sizeS2M's 32-bit sum lets through: a Twrite whose count is within 22 of 2^32 wraps the
  size to a small number, the test against nap passes, and the copy of count bytes then runs
  past the end of the buffer. The final check (size against the pointer) comes after the damage.
\<close>

theorem convS2M_Twrite_overflow:
  assumes "f_type f = 118" and "unat (f_count f) + 23 > 2 ^ 32" and "unat (f_count f) \<le> length (f_data f)"
    and "23 \<le> nap"
  shows "convS2M f nap = None"
proof -
  have t: "switch_type (f_type f) = Some Twrite"
    using switch_type_num [of Twrite] assms(1) by simp
  let ?n = "unat (f_count f)"
  let ?body = "pbit32 (f_fid f) @ pbit64 (f_offset f) @ pbit32 (f_count f) @ take ?n (f_data f)"
  have body: "(if is_T Twrite then convS2M_T Twrite f else convS2M_R Twrite f) = Some (?body, True)"
    using assms(3) by (simp add: is_T_def convS2M_T_def put_counted_eq)
  have len: "length ?body = 16 + ?n"
    using assms(3) by (simp add: wire_simps)
  have size: "sizeS2M f = Some (of_nat (23 + ?n))"
    using sizeS2M_body [OF t body] unfolding len by (simp del: of_nat_add of_nat_unat)
  have small: "unat (of_nat (23 + ?n) :: u32) = 23 + ?n - 2 ^ 32"
  proof -
    have "(23 + ?n) mod 2 ^ 32 = (23 + ?n - 2 ^ 32) mod 2 ^ 32"
      using assms(2) by (intro le_mod_geq) simp
    also have "\<dots> = 23 + ?n - 2 ^ 32"
      using unat_u32_bound [of "f_count f"] by (intro mod_less) simp
    finally show ?thesis by (simp add: unat_of_nat take_bit_eq_mod del: of_nat_add)
  qed
  moreover have "(of_nat (23 + ?n) :: u32) \<noteq> 0"
    using small assms(2) by (metis unsigned_0 zero_less_diff add.commute less_irrefl)
  moreover have "unat (of_nat (23 + ?n) :: u32) < 23"
    using small unat_u32_bound [of "f_count f"] by simp
  ultimately show ?thesis
    using size t body len assms(2,4) unat_u32_bound [of nap]
    by (auto simp: convS2M_def word_less_nat_alt word_le_nat_alt wire_simps Let_def simp del: of_nat_add)
qed

theorem convS2M_Twrite_overflow_witness:
  "\<exists>d. length d = 4294967295 \<and>
     convS2M (example_write\<lparr>f_count := 4294967295, f_data := d\<rparr>) 8192 = None"
proof -
  obtain d :: bytes where d: "length d = 4294967295"
    using Ex_list_of_length by blast
  have "convS2M (example_write\<lparr>f_count := 4294967295, f_data := d\<rparr>) 8192 = None"
    by (rule convS2M_Twrite_overflow) (simp_all add: d example_write_def)
  with d show ?thesis by blast
qed

text \<open>
  The guard against too many names comes too late: convS2M refuses a Twalk with more than
  MAXWELEM names only after sizeS2M has read that many entries of the name array, so the call
  is a read past the array instead of an error return.
\<close>

theorem convS2M_Twalk_unguarded:
  assumes "f_type f = 110" and "arrays_ok f" and "MAXWELEM < unat (f_nwname f)"
  shows "convS2M f nap = None \<and>
    (\<exists>hdr. convS2M_T Twalk f = Some (hdr, False))"
proof -
  have "switch_type (f_type f) = Some Twalk"
    using switch_type_num [of Twalk] assms(1) by simp
  then show ?thesis
    using assms by (simp add: convS2M_def sizeS2M_def is_T_def sizeS2M_T_def wnames_size_def
        arrays_ok_def convS2M_T_def Let_def)
qed

theorem convS2M_Twalk_unguarded_witness: "convS2M (example_walk\<lparr>f_nwname := 17\<rparr>) 8192 = None"
  using convS2M_Twalk_unguarded [of "example_walk\<lparr>f_nwname := 17\<rparr>" 8192] arrays_ok_examples
  by (simp add: arrays_ok_def example_walk_def MAXWELEM_def)

end
