(* ===== verification/Stat.thy ===== *)
theory Stat
  imports Fcall
begin

text \<open>
  Directory entries: the encoder \<open>sizeD2M\<close>/\<open>convD2M\<close> (\<open>libc/9sys/convD2M.c\<close>), the decoder
  \<open>convM2D\<close> and the validator \<open>statcheck\<close> (\<open>libc/9sys/convM2D.c\<close>), which every stat and wstat
  message goes through. The int sizes are 32-bit words, read as unsigned; strings are shorter
  than 2 GB.
\<close>

subsection \<open>Data\<close>

record dir =
  d_type :: u16
  d_dev :: u32
  d_qid :: qid
  d_mode :: u32
  d_atime :: u32
  d_mtime :: u32
  d_length :: u64
  d_name :: cstr
  d_uid :: cstr
  d_gid :: cstr
  d_muid :: cstr

definition STATFIXLEN :: nat where "STATFIXLEN = 49"

definition dir_strings :: "dir \<Rightarrow> cstr list" where
  "dir_strings d = [d_name d, d_uid d, d_gid d, d_muid d]"

subsection \<open>convD2M\<close>

definition strlen32 :: "cstr \<Rightarrow> u32" where
  "strlen32 s = of_nat (strlen s)"

definition sizeD2M :: "dir \<Rightarrow> u32" where
  "sizeD2M d = of_nat STATFIXLEN + sum_list (map strlen32 (dir_strings d))"

definition dir_fixed :: "dir \<Rightarrow> bytes" where
  "dir_fixed d = pbit16 (d_type d) @ pbit32 (d_dev d) @ pqid (d_qid d) @ pbit32 (d_mode d)
     @ pbit32 (d_atime d) @ pbit32 (d_mtime d) @ pbit64 (d_length d)"

text \<open>
  The loop over the four strings: \<open>p\<close> is what is stored so far, the flag is \<^term>\<open>False\<close> after
  a \<open>return 0\<close>.
\<close>

fun put_strings :: "cstr list \<Rightarrow> nat \<Rightarrow> bytes \<Rightarrow> bytes \<times> bool" where
  "put_strings [] nbuf p = (p, True)"
| "put_strings (s # ss) nbuf p =
     (let ns = strlen32 s in
      if length p + unat ns + 2 > nbuf then (p, False)
      else put_strings ss nbuf (p @ pbit16 ns @ take (unat ns) (cstr_bytes s)))"

text \<open>The value returned and the bytes stored in the buffer.\<close>

definition convD2M :: "dir \<Rightarrow> u32 \<Rightarrow> u32 \<times> bytes" where
  "convD2M d nbuf =
     (if nbuf < 2 then (0, [])
      else let ss = of_nat STATFIXLEN + sum_list (map strlen32 (dir_strings d));
               p = pbit16 (ss - 2) in
        if ss > nbuf then (2, p)
        else let (p, ok) = put_strings (dir_strings d) (unat nbuf) (p @ dir_fixed d) in
          if \<not> ok then (0, p)
          else if unat ss \<noteq> length p then (0, p)
          else (of_nat (length p), p))"

subsection \<open>convM2D and statcheck\<close>

text \<open>The loop over the four strings; \<^term>\<open>Some None\<close> is \<open>return 0\<close>.\<close>

fun get_strings :: "nat \<Rightarrow> bytes \<Rightarrow> (bytes list \<times> bytes) option option" where
  "get_strings 0 p = Some (Some ([], p))"
| "get_strings (Suc k) p =
     (if length p < 2 then Some None
      else do {
        (ns, p) \<leftarrow> gbit16 p;
        if length p < unat ns then Some None
        else do {
          s \<leftarrow> mem_read (unat ns) p;
          r \<leftarrow> get_strings k (drop (unat ns) p);
          Some (case r of None \<Rightarrow> None | Some (sv, p) \<Rightarrow> Some (s # sv, p))
        }
      })"

text \<open>
  \<open>strs\<close> says whether the caller passed memory for the strings; without it they are the empty
  string. \<^term>\<open>None\<close> is a read past the buffer.
\<close>

definition convM2D :: "bytes \<Rightarrow> bool \<Rightarrow> dir \<Rightarrow> (u32 \<times> dir) option" where
  "convM2D buf strs d =
     (if length buf < STATFIXLEN then Some (0, d)
      else do {
        (_, p) \<leftarrow> gbit16 buf;
        (v, p) \<leftarrow> gbit16 p; let d = d\<lparr>d_type := v\<rparr>;
        (v, p) \<leftarrow> gbit32 p; let d = d\<lparr>d_dev := v\<rparr>;
        (t, p) \<leftarrow> gbit8 p;
        (vers, p) \<leftarrow> gbit32 p;
        (path, p) \<leftarrow> gbit64 p; let d = d\<lparr>d_qid := \<lparr>q_path = path, q_vers = vers, q_type = t\<rparr>\<rparr>;
        (v, p) \<leftarrow> gbit32 p; let d = d\<lparr>d_mode := v\<rparr>;
        (v, p) \<leftarrow> gbit32 p; let d = d\<lparr>d_atime := v\<rparr>;
        (v, p) \<leftarrow> gbit32 p; let d = d\<lparr>d_mtime := v\<rparr>;
        (v, p) \<leftarrow> gbit64 p; let d = d\<lparr>d_length := v\<rparr>;
        r \<leftarrow> get_strings 4 p;
        case r of
          None \<Rightarrow> Some (0, d)
        | Some (sv, p) \<Rightarrow>
            let sv = (if strs then sv else replicate 4 []) in
            Some (of_nat (length buf - length p),
              d\<lparr>d_name := Some (sv ! 0), d_uid := Some (sv ! 1), d_gid := Some (sv ! 2),
                d_muid := Some (sv ! 3)\<rparr>)
      })"

text \<open>\<open>buf\<close> as an offset, which may pass \<open>ebuf\<close> after the last string.\<close>

fun statcheck_loop :: "nat \<Rightarrow> nat \<Rightarrow> bytes \<Rightarrow> int option" where
  "statcheck_loop 0 off buf = Some (if off \<noteq> length buf then -1 else 0)"
| "statcheck_loop (Suc k) off buf =
     (if off + 2 > length buf then Some (-1)
      else do {
        (n, _) \<leftarrow> gbit16 (drop off buf);
        statcheck_loop k (off + 2 + unat n) buf
      })"

definition statcheck :: "bytes \<Rightarrow> int option" where
  "statcheck buf =
     (if length buf < STATFIXLEN then Some (-1)
      else do {
        (n, _) \<leftarrow> gbit16 buf;
        if length buf \<noteq> 2 + unat n then Some (-1)
        else statcheck_loop 4 (STATFIXLEN - 4 * 2) buf
      })"

subsection \<open>The string loops\<close>

lemma pstring_strlen32: "pbit16 (strlen32 s) @ take (unat (strlen32 s)) (cstr_bytes s) = pstring s"
  by (cases s) (simp_all add: strlen32_def pstring_def strlen_def Let_def)

lemma put_strings_eq:
  "put_strings ss nbuf p = (p', True) \<Longrightarrow> p' = p @ concat (map pstring ss)"
proof (induction ss arbitrary: p)
  case Nil
  then show ?case by simp
next
  case (Cons s ss)
  then have "put_strings ss nbuf (p @ pstring s) = (p', True)"
    by (auto simp: Let_def pstring_strlen32 split: if_splits)
  from Cons.IH [OF this] show ?case by simp
qed

lemma length_pstring_strlen32: "length (pstring s) = 2 + unat (strlen32 s)"
  by (simp add: length_pstring strlen32_def unat_of_nat take_bit_eq_mod)

lemma put_strings_fit:
  "length p + length (concat (map pstring ss)) \<le> nbuf \<Longrightarrow>
   put_strings ss nbuf p = (p @ concat (map pstring ss), True)"
proof (induction ss arbitrary: p)
  case Nil
  then show ?case by simp
next
  case (Cons s ss)
  then have "length (p @ pstring s) + length (concat (map pstring ss)) \<le> nbuf" by simp
  from Cons.IH [OF this] Cons.prems show ?case
    by (simp add: Let_def length_pstring_strlen32 pstring_strlen32)
qed

lemma gbit16_pstring:
  "strlen s < 65536 \<Longrightarrow> gbit16 (pstring s @ q) = Some (of_nat (strlen s), cstr_bytes s @ q)"
  by (simp add: strlen_def wire_simps strlen32_def flip: pstring_strlen32)

lemma get_strings_enc:
  "\<forall>s \<in> set ss. strlen s < 65536 \<Longrightarrow>
   get_strings (length ss) (concat (map pstring ss) @ p) = Some (Some (map cstr_bytes ss, p))"
proof (induction ss)
  case Nil
  then show ?case by simp
next
  case (Cons s ss)
  then have "strlen s < 65536" by simp
  with Cons show ?case
    by (simp add: length_pstring gbit16_pstring) (simp add: strlen_def)
qed

lemma get_strings_total: "\<exists>r. get_strings k p = Some r \<and>
   (\<forall>sv q. r = Some (sv, q) \<longrightarrow> length sv = k \<and> length q \<le> length p)"
proof (induction k arbitrary: p)
  case 0
  then show ?case by simp
next
  case (Suc k)
  show ?case
  proof (cases "length p < 2")
    case True
    then show ?thesis by simp
  next
    case False
    then obtain n p' where n: "gbit16 p = Some (n, p')" "length p' = length p - 2"
      using gbit16_bounded [of p] by auto
    from Suc.IH [of "drop (unat n) p'"] obtain r where
      "get_strings k (drop (unat n) p') = Some r"
      "\<forall>sv q. r = Some (sv, q) \<longrightarrow> length sv = k \<and> length q \<le> length (drop (unat n) p')" by blast
    with n False show ?thesis by (auto split: option.splits)
  qed
qed

subsection \<open>The whole entry\<close>

lemma length_dir_fixed [wire_simps]: "length (dir_fixed d) = 39"
  by (simp add: dir_fixed_def wire_simps)

definition stat_image :: "dir \<Rightarrow> bytes" where
  "stat_image d = dir_fixed d @ concat (map pstring (dir_strings d))"

lemma sum_strlen32: "sum_list (map strlen32 ss) + of_nat (2 * length ss) = of_nat (length (concat (map pstring ss)))"
proof (induction ss)
  case Nil
  then show ?case by simp
next
  case (Cons s ss)
  then show ?case
    by (simp add: length_pstring_strlen32 algebra_simps)
qed

lemma sizeD2M_image: "sizeD2M d = of_nat (2 + length (stat_image d))"
  using sum_strlen32 [of "dir_strings d"]
  by (simp add: sizeD2M_def STATFIXLEN_def stat_image_def wire_simps dir_strings_def algebra_simps)

lemma convM2D_image:
  assumes "list_all (\<lambda>s. strlen s < 65536) (dir_strings d)"
  shows "convM2D (pbit16 w @ stat_image d @ rest) strs d0 =
    Some (of_nat (2 + length (stat_image d)),
      d\<lparr>d_name := Some (if strs then cstr_bytes (d_name d) else []),
        d_uid := Some (if strs then cstr_bytes (d_uid d) else []),
        d_gid := Some (if strs then cstr_bytes (d_gid d) else []),
        d_muid := Some (if strs then cstr_bytes (d_muid d) else [])\<rparr>)"
proof -
  have g: "get_strings 4 (pstring (d_name d) @ pstring (d_uid d) @ pstring (d_gid d) @ pstring (d_muid d) @ rest) =
      Some (Some ([cstr_bytes (d_name d), cstr_bytes (d_uid d), cstr_bytes (d_gid d), cstr_bytes (d_muid d)], rest))"
  proof -
    have "length (dir_strings d) = 4" by (simp add: dir_strings_def)
    with get_strings_enc [of "dir_strings d" rest] assms show ?thesis
      by (simp only: list_all_iff) (simp add: dir_strings_def)
  qed
  have len: "length (concat (map pstring (dir_strings d))) \<ge> 8"
    by (simp add: dir_strings_def length_pstring)
  from len g show ?thesis
    by (cases d; cases "d_qid d")
      (simp add: convM2D_def stat_image_def dir_fixed_def pqid_def wire_simps STATFIXLEN_def
        dir_strings_def Let_def)
qed

text \<open>What convD2M does on an entry whose size does not wrap.\<close>

lemma convD2M_image:
  assumes "length (stat_image d) + 2 < 2 ^ 32" and "2 \<le> nbuf"
  shows "convD2M d nbuf =
    (if unat nbuf < 2 + length (stat_image d) then (2, pbit16 (of_nat (length (stat_image d)) :: u32))
     else (of_nat (2 + length (stat_image d)),
           pbit16 (of_nat (length (stat_image d)) :: u32) @ stat_image d))"
proof -
  let ?n = "length (stat_image d)"
  have ss: "of_nat STATFIXLEN + sum_list (map strlen32 (dir_strings d)) = (of_nat (2 + ?n) :: u32)"
    using sizeD2M_image [of d] unfolding sizeD2M_def .
  have u: "unat (of_nat (2 + ?n) :: u32) = 2 + ?n"
    by (rule unat_of_nat_u32) (use assms(1) in simp)
  have m: "(of_nat (2 + ?n) :: u32) - 2 = of_nat ?n" by simp
  have fit: "put_strings (dir_strings d) (unat nbuf) (pbit16 (of_nat ?n :: u32) @ dir_fixed d) =
     (pbit16 (of_nat ?n :: u32) @ stat_image d, True)" if "2 + ?n \<le> unat nbuf"
    using put_strings_fit [of "pbit16 (of_nat ?n :: u32) @ dir_fixed d" "dir_strings d" "unat nbuf"] that
    by (simp add: stat_image_def wire_simps)
  show ?thesis
    using assms(2) u fit
    unfolding convD2M_def ss Let_def m
    by (auto simp: word_less_nat_alt word_le_nat_alt wire_simps simp del: of_nat_add)
qed

subsection \<open>statcheck\<close>

lemma statcheck_loop_strings:
  "statcheck_loop k off buf = Some 0 \<Longrightarrow>
   \<exists>sv. get_strings k (drop off buf) = Some (Some (sv, []))"
proof (induction k arbitrary: off)
  case 0
  then show ?case by (simp split: if_splits)
next
  case (Suc k)
  then have "2 \<le> length (drop off buf)" by (simp split: if_splits)
  then obtain n p where n: "gbit16 (drop off buf) = Some (n, p)"
    and len: "length p = length (drop off buf) - 2"
    using gbit16_bounded by blast
  then have "drop 2 (drop off buf) = p"
    by (cases "drop off buf" rule: gbit16.cases) auto
  then have p: "p = drop (off + 2) buf" by (simp add: add.commute)
  from Suc.prems n have loop: "statcheck_loop k (off + 2 + unat n) buf = Some 0"
    by (simp split: if_splits)
  then have le: "off + 2 + unat n \<le> length buf"
    by (cases k) (auto split: if_splits)
  obtain sv where sv: "get_strings k (drop (off + 2 + unat n) buf) = Some (Some (sv, []))"
    using Suc.IH [OF loop] by blast
  have c1: "\<not> length (drop off buf) < 2" and c2: "\<not> length (drop (off + 2) buf) < unat n"
    using le by auto
  have d: "drop (unat n) (drop (off + 2) buf) = drop (off + 2 + unat n) buf"
    by (simp add: add.commute)
  have m: "mem_read (unat n) (drop (off + 2) buf) = Some (take (unat n) (drop (off + 2) buf))"
    using c2 by (simp add: mem_read_def)
  show ?case
    unfolding get_strings.simps n p using c1 c2 sv by (simp add: d m del: drop_drop length_drop add_2_eq_Suc add_2_eq_Suc')
qed

lemma statcheck_loop_enc:
  "list_all (\<lambda>s. strlen s < 65536) ss \<Longrightarrow> drop off buf = concat (map pstring ss) \<Longrightarrow> off \<le> length buf \<Longrightarrow>
   statcheck_loop (length ss) off buf = Some 0"
proof (induction ss arbitrary: off)
  case Nil
  then show ?case by simp
next
  case (Cons s ss)
  then have s: "strlen s < 65536" by simp
  then have "gbit16 (drop off buf) = Some (of_nat (strlen s), cstr_bytes s @ concat (map pstring ss))"
    using Cons.prems(2) by (simp add: gbit16_pstring)
  moreover have lb: "length buf - off = length (pstring s) + length (concat (map pstring ss))"
    using arg_cong [OF Cons.prems(2), of length] by simp
  moreover have "drop (off + 2 + strlen s) buf = concat (map pstring ss)"
  proof -
    have "drop (off + 2 + strlen s) buf = drop (length (pstring s)) (drop off buf)"
      using s by (simp add: length_pstring add.commute add.left_commute)
    then show ?thesis using Cons.prems(2) by simp
  qed
  ultimately show ?case
    using Cons.IH [of "off + 2 + strlen s"] Cons.prems s by (simp add: length_pstring)
qed

lemma pbit16_of_nat: "pbit16 (of_nat n :: u32) = pbit16 (of_nat n :: u16)"
  unfolding pbit16_def by (auto intro!: bit_word_eqI simp: bit_simps)

text \<open>The fixed part of a buffer of at least STATFIXLEN bytes.\<close>

lemma gbit8_cut: "gbit8 p = Some (v, q) \<Longrightarrow> q = drop 1 p"
  by (cases p rule: gbit8.cases) auto

lemma gbit16_cut: "gbit16 p = Some (v, q) \<Longrightarrow> q = drop 2 p"
  by (cases p rule: gbit16.cases) auto

lemma gbit32_cut: "gbit32 p = Some (v, q) \<Longrightarrow> q = drop 4 p"
  by (cases p rule: gbit32.cases) auto

lemma gbit64_cut: "gbit64 p = Some (v, q) \<Longrightarrow> q = drop 8 p"
  by (cases p rule: gbit64.cases) auto

lemma gbit8_drop: "n + 1 \<le> length b \<Longrightarrow> \<exists>v. gbit8 (drop n b) = Some (v, drop (n + 1) b)"
  using gbit8_bounded [of "drop n b"] by (fastforce dest: gbit8_cut simp: add.commute)

lemma gbit16_drop: "n + 2 \<le> length b \<Longrightarrow> \<exists>v. gbit16 (drop n b) = Some (v, drop (n + 2) b)"
  using gbit16_bounded [of "drop n b"] by (fastforce dest: gbit16_cut simp: add.commute)

lemma gbit32_drop: "n + 4 \<le> length b \<Longrightarrow> \<exists>v. gbit32 (drop n b) = Some (v, drop (n + 4) b)"
  using gbit32_bounded [of "drop n b"] by (fastforce dest: gbit32_cut simp: add.commute)

lemma gbit64_drop: "n + 8 \<le> length b \<Longrightarrow> \<exists>v. gbit64 (drop n b) = Some (v, drop (n + 8) b)"
  using gbit64_bounded [of "drop n b"] by (fastforce dest: gbit64_cut simp: add.commute)

lemma fixed_fields:
  assumes "49 \<le> length buf"
  shows "\<exists>w p0 v1 p1 v2 p2 v3 p3 v4 p4 v5 p5 v6 p6 v7 p7 v8 p8 v9.
    gbit16 buf = Some (w, p0) \<and> gbit16 p0 = Some (v1, p1) \<and> gbit32 p1 = Some (v2, p2) \<and>
    gbit8 p2 = Some (v3, p3) \<and> gbit32 p3 = Some (v4, p4) \<and> gbit64 p4 = Some (v5, p5) \<and>
    gbit32 p5 = Some (v6, p6) \<and> gbit32 p6 = Some (v7, p7) \<and> gbit32 p7 = Some (v8, p8) \<and>
    gbit64 p8 = Some (v9, drop 41 buf)"
proof -
  have "\<exists>v. gbit16 buf = Some (v, drop 2 buf)" "\<exists>v. gbit16 (drop 2 buf) = Some (v, drop 4 buf)"
    "\<exists>v. gbit32 (drop 4 buf) = Some (v, drop 8 buf)" "\<exists>v. gbit8 (drop 8 buf) = Some (v, drop 9 buf)"
    "\<exists>v. gbit32 (drop 9 buf) = Some (v, drop 13 buf)" "\<exists>v. gbit64 (drop 13 buf) = Some (v, drop 21 buf)"
    "\<exists>v. gbit32 (drop 21 buf) = Some (v, drop 25 buf)" "\<exists>v. gbit32 (drop 25 buf) = Some (v, drop 29 buf)"
    "\<exists>v. gbit32 (drop 29 buf) = Some (v, drop 33 buf)" "\<exists>v. gbit64 (drop 33 buf) = Some (v, drop 41 buf)"
    using assms gbit16_drop [of 0 buf, unfolded add_0 drop_0] gbit16_drop [of 2 buf] gbit32_drop [of 4 buf]
      gbit8_drop [of 8 buf] gbit32_drop [of 9 buf] gbit64_drop [of 13 buf] gbit32_drop [of 21 buf]
      gbit32_drop [of 25 buf] gbit32_drop [of 29 buf] gbit64_drop [of 33 buf]
    by (auto simp del: add_2_eq_Suc)
  then show ?thesis
    by (elim exE) (intro exI conjI; assumption)
qed

subsection \<open>The properties\<close>

text \<open>The entry as a reader without string memory sees it, and as one with it does.\<close>

definition same_dir :: "bool \<Rightarrow> dir \<Rightarrow> dir \<Rightarrow> bool" where
  "same_dir strs d e = (d_type d = d_type e \<and> d_dev d = d_dev e \<and> d_qid d = d_qid e \<and>
     d_mode d = d_mode e \<and> d_atime d = d_atime e \<and> d_mtime d = d_mtime e \<and> d_length d = d_length e \<and>
     map cstr_bytes (dir_strings e) = (if strs then map cstr_bytes (dir_strings d) else replicate 4 []))"

definition strings_short :: "dir \<Rightarrow> bool" where
  "strings_short d = list_all (\<lambda>s. strlen s < 65536) (dir_strings d)"

lemma stat_image_short: "strings_short d \<Longrightarrow> length (stat_image d) + 2 < 2 ^ 32"
  by (simp add: strings_short_def stat_image_def dir_strings_def wire_simps length_pstring)

definition example_dir :: dir where
  "example_dir = \<lparr>d_type = 77, d_dev = 1, d_qid = \<lparr>q_path = 5, q_vers = 2, q_type = 128\<rparr>,
     d_mode = 2147484141, d_atime = 10, d_mtime = 20, d_length = 0, d_name = Some [117, 115, 114],
     d_uid = Some [114, 111, 98], d_gid = None, d_muid = Some []\<rparr>"

lemma example_dir_short: "strings_short example_dir"
  by (simp add: strings_short_def example_dir_def dir_strings_def strlen_def cstr_bytes_def)

text \<open>
  C7. Round trip of directory entries: an entry whose strings are shorter than 64 KB, encoded
  into a buffer that is large enough, is decoded again from the front of any buffer that starts
  with the encoding, with all its fixed fields and, if the reader gives memory for them, its
  strings; encoder and decoder agree on the length, which is the one sizeD2M announces.
\<close>

theorem convM2D_convD2M:
  assumes "strings_short d" and "sizeD2M d \<le> nbuf"
  shows "\<exists>out d'. convD2M d nbuf = (sizeD2M d, out) \<and> length out = unat (sizeD2M d) \<and>
    convM2D (out @ rest) strs d0 = Some (sizeD2M d, d') \<and> same_dir strs d d'"
proof -
  let ?n = "length (stat_image d)"
  have small: "?n + 2 < 2 ^ 32" by (rule stat_image_short [OF assms(1)])
  have u: "unat (of_nat (2 + ?n) :: u32) = 2 + ?n"
    by (rule unat_of_nat_u32) (use small in simp)
  from assms(2) have le: "2 + ?n \<le> unat nbuf"
    unfolding sizeD2M_image word_le_nat_alt u .
  then have nbuf: "2 \<le> nbuf" by (simp add: word_le_nat_alt)
  have enc: "convD2M d nbuf = (sizeD2M d, pbit16 (of_nat ?n :: u32) @ stat_image d)"
    unfolding convD2M_image [OF small nbuf] sizeD2M_image using le by auto
  have dec: "convM2D ((pbit16 (of_nat ?n :: u32) @ stat_image d) @ rest) strs d0 =
    Some (sizeD2M d,
      d\<lparr>d_name := Some (if strs then cstr_bytes (d_name d) else []),
        d_uid := Some (if strs then cstr_bytes (d_uid d) else []),
        d_gid := Some (if strs then cstr_bytes (d_gid d) else []),
        d_muid := Some (if strs then cstr_bytes (d_muid d) else [])\<rparr>)"
    using convM2D_image [of d "of_nat ?n :: u32" rest strs d0] assms(1)
    unfolding strings_short_def sizeD2M_image by simp
  have len: "length (pbit16 (of_nat ?n :: u32) @ stat_image d) = unat (sizeD2M d)"
    unfolding sizeD2M_image u by (simp add: wire_simps)
  have same: "same_dir strs d (d\<lparr>d_name := Some (if strs then cstr_bytes (d_name d) else []),
        d_uid := Some (if strs then cstr_bytes (d_uid d) else []),
        d_gid := Some (if strs then cstr_bytes (d_gid d) else []),
        d_muid := Some (if strs then cstr_bytes (d_muid d) else [])\<rparr>)"
    by (simp add: same_dir_def dir_strings_def cstr_bytes_def [of "Some []"] numeral_eq_Suc)
  from enc len dec same show ?thesis by blast
qed

theorem convM2D_convD2M_witness:
  "\<exists>out d'. convD2M example_dir 64 = (55, out) \<and> convM2D (out @ [7]) True example_dir = Some (55, d')
     \<and> same_dir True example_dir d'"
proof -
  have s: "sizeD2M example_dir = 55" by code_simp
  then have "sizeD2M example_dir \<le> 64" by simp
  from convM2D_convD2M [OF example_dir_short this, of "[7]" True example_dir] show ?thesis
    unfolding s by blast
qed

text \<open>
  The two calls a caller makes for an entry that did not fit: convD2M returns 2 and stores
  only the 16-bit count, and for an entry of at most 65537 bytes that count plus 2 is exactly
  the buffer size with which the second call succeeds. What it then stores passes statcheck.
\<close>

theorem convD2M_retry:
  assumes "strings_short d" and "length (stat_image d) < 65536" and "2 \<le> nbuf" and "nbuf < sizeD2M d"
  shows "\<exists>cnt out. convD2M d nbuf = (2, pbit16 (cnt :: u16)) \<and> 2 + unat cnt = unat (sizeD2M d) \<and>
    convD2M d (2 + ucast cnt) = (sizeD2M d, out) \<and> statcheck out = Some 0"
proof -
  let ?n = "length (stat_image d)"
  have small: "?n + 2 < 2 ^ 32" by (rule stat_image_short [OF assms(1)])
  have u: "unat (of_nat (2 + ?n) :: u32) = 2 + ?n"
    by (rule unat_of_nat_u32) (use small in simp)
  let ?cnt = "of_nat ?n :: u16"
  have p: "pbit16 (of_nat ?n :: u32) = pbit16 ?cnt"
    by (rule pbit16_of_nat)
  have first: "convD2M d nbuf = (2, pbit16 ?cnt)"
    using assms(4) unfolding convD2M_image [OF small assms(3)] p sizeD2M_image word_less_nat_alt u
    by simp
  have cnt: "unat ?cnt = ?n" using assms(2) by simp
  then have "2 + ucast ?cnt = (of_nat (2 + ?n) :: u32)"
    by (metis of_nat_unat_u16 of_nat_add of_nat_numeral)
  then have size: "2 + ucast ?cnt = sizeD2M d" by (simp only: sizeD2M_image)
  have "2 \<le> sizeD2M d" unfolding sizeD2M_image word_le_nat_alt u by simp
  then have second: "convD2M d (sizeD2M d) = (sizeD2M d, pbit16 ?cnt @ stat_image d)"
    using convD2M_image [OF small, of "sizeD2M d"] unfolding p sizeD2M_image u by simp
  have loop: "statcheck_loop 4 41 (pbit16 ?cnt @ stat_image d) = Some 0"
  proof -
    have "length (dir_strings d) = 4" by (simp add: dir_strings_def)
    moreover have "drop 41 (pbit16 ?cnt @ stat_image d) = concat (map pstring (dir_strings d))"
      and "41 \<le> length (pbit16 ?cnt @ stat_image d)"
      by (simp_all add: wire_simps stat_image_def)
    ultimately show ?thesis
      using statcheck_loop_enc [of "dir_strings d" 41 "pbit16 ?cnt @ stat_image d"] assms(1)
      unfolding strings_short_def by metis
  qed
  have "49 \<le> 2 + ?n"
    by (simp add: stat_image_def wire_simps dir_strings_def length_pstring)
  then have "statcheck (pbit16 ?cnt @ stat_image d) = Some 0"
    using loop cnt by (simp add: statcheck_def STATFIXLEN_def wire_simps)
  moreover have "2 + unat ?cnt = unat (sizeD2M d)" unfolding cnt sizeD2M_image u ..
  ultimately show ?thesis
    using first second size by metis
qed

theorem convD2M_retry_witness:
  "\<exists>out. convD2M example_dir 10 = (2, [53, 0]) \<and> convD2M example_dir 55 = (55, out) \<and> statcheck out = Some 0"
proof -
  have s: "sizeD2M example_dir = 55" and i: "length (stat_image example_dir) = 53" by code_simp+
  have a: "length (stat_image example_dir) < 65536" and b: "(2 :: u32) \<le> 10" and c: "10 < sizeD2M example_dir"
    using s i by simp_all
  from convD2M_retry [OF example_dir_short a b c] obtain cnt :: u16 and out where
    *: "convD2M example_dir 10 = (2, pbit16 cnt)" "2 + unat cnt = unat (sizeD2M example_dir)"
      "convD2M example_dir (2 + ucast cnt) = (sizeD2M example_dir, out)" "statcheck out = Some 0"
    by blast
  then have "cnt = 53" using s by (simp add: word_unat_eq_iff)
  with * s show ?thesis by (simp add: pbit16_def)
qed

text \<open>
  C9. A buffer that statcheck accepts is one complete entry: convM2D reads it, stays inside it
  and consumes all of it, with or without memory for the strings; and statcheck itself never
  reads outside the buffer, whatever is in it.
\<close>

theorem statcheck_accepts:
  "(\<exists>r. statcheck buf = Some r) \<and>
   (statcheck buf = Some 0 \<longrightarrow> (\<exists>d'. convM2D buf strs d = Some (of_nat (length buf), d')))"
proof (rule conjI)
  have loop: "\<exists>r. statcheck_loop k off buf = Some r" for k off
  proof (induction k arbitrary: off)
    case 0
    then show ?case by simp
  next
    case (Suc k)
    then show ?case
      using gbit16_bounded [of "drop off buf"] by fastforce
  qed
  then show "\<exists>r. statcheck buf = Some r"
    using gbit16_bounded [of buf] by (auto simp: statcheck_def STATFIXLEN_def not_less)
  show "statcheck buf = Some 0 \<longrightarrow> (\<exists>d'. convM2D buf strs d = Some (of_nat (length buf), d'))"
  proof
    assume ok: "statcheck buf = Some 0"
    then have len: "49 \<le> length buf" and "statcheck_loop 4 41 buf = Some 0"
      by (auto simp: statcheck_def STATFIXLEN_def bind_eq_Some_conv split: if_splits)
    then obtain sv where sv: "get_strings 4 (drop 41 buf) = Some (Some (sv, []))"
      using statcheck_loop_strings by blast
    from fixed_fields [OF len] sv show "\<exists>d'. convM2D buf strs d = Some (of_nat (length buf), d')"
      using len by (auto simp: convM2D_def STATFIXLEN_def Let_def)
  qed
qed

theorem statcheck_accepts_witness:
  "statcheck (snd (convD2M example_dir 55)) = Some 0 \<and>
   (\<exists>d'. convM2D (snd (convD2M example_dir 55)) False example_dir = Some (55, d'))"
proof -
  have ok: "statcheck (snd (convD2M example_dir 55)) = Some 0"
    and len: "length (snd (convD2M example_dir 55)) = 55" by code_simp+
  from statcheck_accepts [of "snd (convD2M example_dir 55)" False example_dir] ok show ?thesis
    unfolding len by simp
qed

end
