(* ===== verification/Block.thy ===== *)
theory Block
  imports Nix_Prelude "HOL-Library.Signed_Division"
begin

text \<open>
  Blocks, the buffers of the IO queues and of the network stack: allocation and accounting
  (\<open>port/allocb.c\<close>) and the operations on chains of blocks (the first half of
  \<open>port/qio.c\<close>). A block owns the memory from \<open>base\<close> to \<open>lim\<close>; \<open>rp\<close>, \<open>wp\<close> and \<open>lim\<close> are
  offsets from \<open>base\<close>, so \<open>lim\<close> is the length of that memory. A \<open>Block*\<close> with its \<open>next\<close>
  pointers is the list of the blocks it reaches, nil is the empty list. Moving bytes out of or
  into a block outside its memory, following nil, and panic are \<^term>\<open>None\<close>. Operations
  that give blocks back return, last, the list of the blocks they passed to \<open>freeb\<close>.
\<close>

subsection \<open>Data\<close>

record block =
  b_buf :: bytes
  b_rp :: int
  b_wp :: int
  b_free :: bool
  b_flag :: u16
  b_checksum :: u16

type_synonym chain = "block list"

definition BINTR :: u16 where "BINTR = 1"

definition blen :: "block \<Rightarrow> int" where
  "blen b = b_wp b - b_rp b"

definition balloc :: "block \<Rightarrow> int" where
  "balloc b = int (length (b_buf b))"

definition roundup :: "int \<Rightarrow> int \<Rightarrow> int" where
  "roundup x y = ((x + (y - 1)) sdiv y) * y"

text \<open>The part of the block's memory that \<open>memmove\<close> reads or writes.\<close>

definition bget :: "block \<Rightarrow> int \<Rightarrow> int \<Rightarrow> bytes option" where
  "bget b off n =
     (if 0 \<le> off \<and> 0 \<le> n \<and> off + n \<le> balloc b then Some (take (nat n) (drop (nat off) (b_buf b))) else None)"

definition bput :: "block \<Rightarrow> int \<Rightarrow> bytes \<Rightarrow> block option" where
  "bput b off bs =
     (if 0 \<le> off \<and> off + int (length bs) \<le> balloc b
      then Some (b\<lparr>b_buf := take (nat off) (b_buf b) @ bs @ drop (nat off + length bs) (b_buf b)\<rparr>)
      else None)"

text \<open>The recurring pair \<open>memmove(b->wp, p, n); b->wp += n\<close>.\<close>

definition bappend :: "block \<Rightarrow> bytes \<Rightarrow> block option" where
  "bappend b bs = do {
     b \<leftarrow> bput b (b_wp b) bs;
     Some (b\<lparr>b_wp := b_wp b + int (length bs)\<rparr>)
   }"

text \<open>A read of \<open>n\<close> bytes of the caller's memory \<open>p\<close>.\<close>

definition mget :: "int \<Rightarrow> bytes \<Rightarrow> bytes option" where
  "mget n p = (if 0 \<le> n then mem_read (nat n) p else None)"

subsection \<open>allocb.c\<close>

definition BLOCKALIGN :: int where "BLOCKALIGN = 8"

definition Hdrspc :: int where "Hdrspc = 64"

definition sizeof_Block :: int where "sizeof_Block = 64"

text \<open>
  \<open>_allocb\<close>. \<open>malloc\<close> gives zeroed memory on an address that is a multiple of 16, so
  \<open>p + n - sizeof(Block)\<close> is on a BLOCKALIGN boundary and is \<open>lim\<close>. \<open>mem\<close> says whether
  \<open>malloc\<close> finds the memory (it takes the size as unsigned, so a negative one is never
  found); \<^term>\<open>Some None\<close> is nil.
\<close>

definition allocb0 :: "bool \<Rightarrow> int \<Rightarrow> block option option" where
  "allocb0 mem sz =
     (let n = BLOCKALIGN + roundup (sz + Hdrspc) BLOCKALIGN + sizeof_Block in
      if \<not> mem \<or> n < sizeof_Block then Some None
      else
        let lim = n - sizeof_Block;
            rp = lim - roundup sz BLOCKALIGN in
        if rp < 0 \<or> lim - rp < sz then None
        else Some (Some \<lparr>b_buf = replicate (nat lim) 0, b_rp = rp, b_wp = rp, b_free = False,
               b_flag = 0, b_checksum = 0\<rparr>))"

text \<open>\<open>allocb\<close> panics when there is no memory; the model has it.\<close>

definition allocb :: "int \<Rightarrow> block option" where
  "allocb sz = (case allocb0 True sz of Some (Some b) \<Rightarrow> Some b | _ \<Rightarrow> None)"

text \<open>
  The \<open>ialloc\<close> account, with \<open>conf.ialloc\<close> and the static counters of \<open>iallocb\<close>.
\<close>

record ialloc =
  ia_bytes :: int
  ia_conf :: int
  ia_m1 :: nat
  ia_m2 :: nat
  ia_mp :: nat

text \<open>\<open>iallocb\<close>: \<^term>\<open>None\<close> is the \<open>exit(0)\<close> after too many failures.\<close>

definition iallocb :: "ialloc \<Rightarrow> bool \<Rightarrow> int \<Rightarrow> (block option \<times> ialloc) option" where
  "iallocb ia mem sz =
     (if ia_bytes ia > ia_conf ia then
        (if ia_m1 ia mod 10000 = 0 then
           (if ia_mp ia > 1000 then None
            else Some (None, ia\<lparr>ia_m1 := ia_m1 ia + 1, ia_mp := ia_mp ia + 1\<rparr>))
         else Some (None, ia\<lparr>ia_m1 := ia_m1 ia + 1\<rparr>))
      else do {
        r \<leftarrow> allocb0 mem sz;
        case r of
          None \<Rightarrow>
            (if ia_m2 ia mod 10000 = 0 then
               (if ia_mp ia > 1000 then None
                else Some (None, ia\<lparr>ia_m2 := ia_m2 ia + 1, ia_mp := ia_mp ia + 1\<rparr>))
             else Some (None, ia\<lparr>ia_m2 := ia_m2 ia + 1\<rparr>))
        | Some b \<Rightarrow> Some (Some (b\<lparr>b_flag := BINTR\<rparr>), ia\<lparr>ia_bytes := ia_bytes ia + balloc b\<rparr>)
      })"

text \<open>\<open>freeb\<close>: a block with its own free routine is left to that routine.\<close>

definition freeb :: "block \<Rightarrow> ialloc \<Rightarrow> ialloc" where
  "freeb b ia =
     (if b_free b then ia
      else if b_flag b AND BINTR \<noteq> 0 then ia\<lparr>ia_bytes := ia_bytes ia - balloc b\<rparr>
      else ia)"

text \<open>\<open>freeblist\<close> frees from the first to the last block.\<close>

fun freeblist :: "chain \<Rightarrow> ialloc \<Rightarrow> ialloc" where
  "freeblist [] ia = ia"
| "freeblist (b # bs) ia = freeblist bs (freeb b ia)"

text \<open>\<open>checkb\<close> on a block that has not been freed: \<^term>\<open>None\<close> is its panic.\<close>

definition checkb :: "block \<Rightarrow> unit option" where
  "checkb b =
     (if 0 > balloc b then None
      else if b_rp b < 0 then None
      else if b_wp b < 0 then None
      else if b_rp b > balloc b then None
      else if b_wp b > balloc b then None
      else Some ())"

subsection \<open>Chains of blocks: qio.c\<close>

text \<open>\<open>blocklen\<close> and \<open>blockalloclen\<close>.\<close>

fun blocklen :: "chain \<Rightarrow> int" where
  "blocklen [] = 0"
| "blocklen (b # bs) = blen b + blocklen bs"

fun blockalloclen :: "chain \<Rightarrow> int" where
  "blockalloclen [] = 0"
| "blockalloclen (b # bs) = balloc b + blockalloclen bs"

fun padblock :: "chain \<Rightarrow> int \<Rightarrow> (chain \<times> chain) option" where
  "padblock [] sz = None"
| "padblock (b # bs) sz =
     (if sz \<ge> 0 then
        if b_rp b \<ge> sz then Some (b\<lparr>b_rp := b_rp b - sz\<rparr> # bs, [])
        else if bs \<noteq> [] then None
        else do {
          let n = blen b;
          nb \<leftarrow> allocb (sz + n);
          let nb = nb\<lparr>b_rp := b_rp nb + sz\<rparr>;
          let nb = nb\<lparr>b_wp := b_rp nb\<rparr>;
          d \<leftarrow> bget b (b_rp b) n;
          nb \<leftarrow> bappend nb d;
          Some ([nb\<lparr>b_rp := b_rp nb - sz\<rparr>], [b])
        }
      else
        let sz = - sz in
        if bs \<noteq> [] then None
        else if balloc b - b_wp b \<ge> sz then Some ([b], [])
        else do {
          let n = blen b;
          nb \<leftarrow> allocb (sz + n);
          d \<leftarrow> bget b (b_rp b) n;
          nb \<leftarrow> bappend nb d;
          Some ([nb], [b])
        })"

fun concat_loop :: "block \<Rightarrow> chain \<Rightarrow> block option" where
  "concat_loop nb [] = Some nb"
| "concat_loop nb (f # fs) = do {
     d \<leftarrow> bget f (b_rp f) (blen f);
     nb \<leftarrow> bappend nb d;
     concat_loop nb fs
   }"

fun concatblock :: "chain \<Rightarrow> (chain \<times> chain) option" where
  "concatblock [] = None"
| "concatblock (b # bs) =
     (if bs = [] then Some ([b], [])
      else do {
        nb \<leftarrow> allocb (blocklen (b # bs));
        nb \<leftarrow> concat_loop nb (b # bs);
        Some ([nb], b # bs)
      })"

text \<open>The loop of \<open>pullupblock\<close>: \<open>b\<close> is \<open>bp\<close> and the list its \<open>next\<close>.\<close>

fun pullup_loop :: "block \<Rightarrow> int \<Rightarrow> chain \<Rightarrow> (chain \<times> chain) option" where
  "pullup_loop b n [] = Some ([], [b])"
| "pullup_loop b n (nb # bs) =
     (let i = blen nb in
      if i > n then do {
        d \<leftarrow> bget nb (b_rp nb) n;
        b \<leftarrow> bappend b d;
        Some (b # nb\<lparr>b_rp := b_rp nb + n\<rparr> # bs, [])
      } else do {
        let i = (if i < 0 then 0 else i);
        d \<leftarrow> bget nb (b_rp nb) i;
        b \<leftarrow> bappend b d;
        if n - i = 0 then Some (b # bs, [nb])
        else do {
          (r, fr) \<leftarrow> pullup_loop b (n - i) bs;
          Some (r, nb # fr)
        }
      })"

fun pullupblock :: "chain \<Rightarrow> int \<Rightarrow> (chain \<times> chain) option" where
  "pullupblock [] n = None"
| "pullupblock (b # bs) n =
     (if blen b \<ge> n then Some (b # bs, [])
      else if balloc b - b_rp b < n then do {
        nb \<leftarrow> allocb n;
        pullup_loop nb (n - blen nb) (b # bs)
      } else pullup_loop b (n - blen b) bs)"

text \<open>The two loops of \<open>trimblock\<close>.\<close>

fun trim_front :: "chain \<Rightarrow> int \<Rightarrow> (chain \<times> int \<times> chain) option" where
  "trim_front [] offset = None"
| "trim_front (b # bs) offset =
     (if blen b < offset then do {
        (r, off, fr) \<leftarrow> trim_front bs (offset - blen b);
        Some (r, off, b # fr)
      } else Some (b # bs, offset, []))"

fun trim_back :: "chain \<Rightarrow> int \<Rightarrow> (chain \<times> chain) option" where
  "trim_back [] len = None"
| "trim_back (b # bs) len =
     (if blen b < len then do {
        (r, fr) \<leftarrow> trim_back bs (len - blen b);
        Some (b # r, fr)
      } else Some ([b\<lparr>b_wp := b_wp b - (blen b - len)\<rparr>], bs))"

definition trimblock :: "chain \<Rightarrow> int \<Rightarrow> int \<Rightarrow> (chain \<times> chain) option" where
  "trimblock bs offset len =
     (if blocklen bs < offset + len then Some ([], bs)
      else do {
        (bs, offset, fr1) \<leftarrow> trim_front bs offset;
        case bs of
          [] \<Rightarrow> None
        | b # bs \<Rightarrow> do {
            (r, fr2) \<leftarrow> trim_back (b\<lparr>b_rp := b_rp b + offset\<rparr> # bs) len;
            Some (r, fr1 @ fr2)
          }
      })"

fun copy_loop :: "block \<Rightarrow> chain \<Rightarrow> int \<Rightarrow> block option" where
  "copy_loop nb [] count =
     (if count > 0 then bappend nb (replicate (nat count) 0) else Some nb)"
| "copy_loop nb (b # bs) count =
     (if count > 0 then do {
        let l = blen b;
        let l = (if l > count then count else l);
        d \<leftarrow> bget b (b_rp b) l;
        nb \<leftarrow> bappend nb d;
        copy_loop nb bs (count - l)
      } else Some nb)"

text \<open>\<open>copyblock\<close>: a copy of a block from interrupt level is one itself, and may fail.\<close>

fun copyblock :: "ialloc \<Rightarrow> bool \<Rightarrow> chain \<Rightarrow> int \<Rightarrow> (block option \<times> ialloc) option" where
  "copyblock ia mem [] count = None"
| "copyblock ia mem (b # bs) count = do {
     (nb, ia) \<leftarrow> (if b_flag b AND BINTR \<noteq> 0 then iallocb ia mem count
                  else do { nb \<leftarrow> allocb count; Some (Some nb, ia) });
     case nb of
       None \<Rightarrow> Some (None, ia)
     | Some nb \<Rightarrow> do { nb \<leftarrow> copy_loop nb (b # bs) count; Some (Some nb, ia) }
   }"

fun adjustblock :: "ialloc \<Rightarrow> bool \<Rightarrow> chain \<Rightarrow> int \<Rightarrow> (chain \<times> chain \<times> ialloc) option" where
  "adjustblock ia mem [] len = (if len < 0 then Some ([], [], ia) else None)"
| "adjustblock ia mem (b # bs) len =
     (if len < 0 then Some ([], [b], freeb b ia)
      else if b_rp b + len > balloc b then do {
        (nb, ia) \<leftarrow> copyblock ia mem (b # bs) len;
        Some (case nb of None \<Rightarrow> [] | Some nb \<Rightarrow> [nb], b # bs, freeblist (b # bs) ia)
      } else do {
        let n = blen b;
        b \<leftarrow> (if len > n then bput b (b_wp b) (replicate (nat (len - n)) 0) else Some b);
        Some (b\<lparr>b_wp := b_rp b + len\<rparr> # bs, [], ia)
      })"

text \<open>
  \<open>pullblock\<close> returns the bytes thrown away, the chain \<open>*bph\<close> is left at and the blocks freed.
  A block that is not emptied ends the loop: then \<open>count\<close> has reached 0.
\<close>

fun pullblock :: "chain \<Rightarrow> int \<Rightarrow> int \<times> chain \<times> chain" where
  "pullblock [] count = (0, [], [])"
| "pullblock (b # bs) count =
     (if count = 0 then (0, b # bs, [])
      else
        let n = (if count < blen b then count else blen b);
            b' = b\<lparr>b_rp := b_rp b + n\<rparr> in
        if blen b' = 0 then
          let (bytes, r, fr) = pullblock bs (count - n) in (n + bytes, r, b' # fr)
        else (n, b' # bs, []))"

text \<open>\<open>packblock\<close>: a block that uses less than a quarter of its memory is reallocated.\<close>

fun packblock :: "chain \<Rightarrow> (chain \<times> chain) option" where
  "packblock [] = Some ([], [])"
| "packblock (b # bs) = do {
     let n = blen b;
     (r, fr) \<leftarrow> (if n * 4 < balloc b then do {
                    nb \<leftarrow> allocb n;
                    d \<leftarrow> bget b (b_rp b) n;
                    nb \<leftarrow> bappend nb d;
                    Some (nb, [b])
                  } else Some (b, []));
     (rs, frs) \<leftarrow> packblock bs;
     Some (r # rs, fr @ frs)
   }"

text \<open>\<open>bl2mem\<close>: the bytes stored at \<open>p\<close>, the first unconsumed block and those after it.\<close>

fun bl2mem :: "chain \<Rightarrow> int \<Rightarrow> (bytes \<times> chain \<times> chain) option" where
  "bl2mem [] n = Some ([], [], [])"
| "bl2mem (b # bs) n =
     (let i = blen b in
      if i > n then do {
        d \<leftarrow> bget b (b_rp b) n;
        Some (d, b\<lparr>b_rp := b_rp b + n\<rparr> # bs, [])
      } else do {
        d \<leftarrow> bget b (b_rp b) i;
        (ds, r, fr) \<leftarrow> bl2mem bs (n - i);
        Some (d @ ds, r, b\<lparr>b_rp := b_rp b + i\<rparr> # fr)
      })"

definition Maxatomic :: int where "Maxatomic = 64 * 1024"

function mem2bl :: "bytes \<Rightarrow> int \<Rightarrow> chain option" where
  "mem2bl p len = do {
     let n = (if len > Maxatomic then Maxatomic else len);
     b \<leftarrow> allocb n;
     d \<leftarrow> mget n p;
     b \<leftarrow> bappend b d;
     if len - n > 0 then do {
       bs \<leftarrow> mem2bl (drop (nat n) p) (len - n);
       Some (b # bs)
     } else Some [b]
   }"
  by pat_completeness auto
termination
  by (relation "measure (\<lambda>(_, len). nat len)") (auto simp: Maxatomic_def)

declare mem2bl.simps [simp del]

subsection \<open>What a block holds\<close>

definition block_ok :: "block \<Rightarrow> bool" where
  "block_ok b = (0 \<le> b_rp b \<and> b_rp b \<le> b_wp b \<and> b_wp b \<le> balloc b)"

definition bdata :: "block \<Rightarrow> bytes" where
  "bdata b = take (nat (blen b)) (drop (nat (b_rp b)) (b_buf b))"

definition chain_ok :: "chain \<Rightarrow> bool" where
  "chain_ok bs = list_all block_ok bs"

definition chain_data :: "chain \<Rightarrow> bytes" where
  "chain_data bs = concat (map bdata bs)"

lemma chain_simps [block_simps]:
  "chain_ok []" "chain_ok (b # bs) = (block_ok b \<and> chain_ok bs)"
  "chain_ok (xs @ ys) = (chain_ok xs \<and> chain_ok ys)"
  "chain_data [] = []" "chain_data (b # bs) = bdata b @ chain_data bs"
  "chain_data (xs @ ys) = chain_data xs @ chain_data ys"
  by (simp_all add: chain_ok_def chain_data_def)

lemma checkb_block_ok: "block_ok b \<Longrightarrow> checkb b = Some ()"
  by (simp add: block_ok_def checkb_def balloc_def)

lemma length_bdata: "block_ok b \<Longrightarrow> length (bdata b) = nat (blen b)"
  by (auto simp: bdata_def block_ok_def blen_def balloc_def)

lemma blen_bdata: "block_ok b \<Longrightarrow> blen b = int (length (bdata b))"
  by (simp add: length_bdata) (simp add: blen_def block_ok_def)

lemma blen_nonneg: "block_ok b \<Longrightarrow> 0 \<le> blen b"
  by (simp add: blen_def block_ok_def)

lemma blen_le_balloc: "block_ok b \<Longrightarrow> blen b \<le> balloc b"
  by (simp add: blen_def block_ok_def)

lemma blocklen_data: "chain_ok bs \<Longrightarrow> blocklen bs = int (length (chain_data bs))"
  by (induction bs) (simp_all add: block_simps blen_bdata)

lemma blocklen_nonneg: "chain_ok bs \<Longrightarrow> 0 \<le> blocklen bs"
  by (simp add: blocklen_data)

lemma blocklen_append: "blocklen (xs @ ys) = blocklen xs + blocklen ys"
  by (induction xs) simp_all

lemma blockalloclen_append: "blockalloclen (xs @ ys) = blockalloclen xs + blockalloclen ys"
  by (induction xs) simp_all

lemma blockalloclen_nonneg: "0 \<le> blockalloclen bs"
  by (induction bs) (simp_all add: balloc_def)

text \<open>Reading a prefix of the data, and consuming it.\<close>

lemma bget_prefix:
  "block_ok b \<Longrightarrow> 0 \<le> n \<Longrightarrow> n \<le> blen b \<Longrightarrow> bget b (b_rp b) n = Some (take (nat n) (bdata b))"
  by (auto simp: bget_def bdata_def block_ok_def blen_def min_def nat_le_iff)

lemma bget_bdata [block_simps]: "block_ok b \<Longrightarrow> bget b (b_rp b) (blen b) = Some (bdata b)"
  using bget_prefix [of b "blen b"] by (simp add: blen_nonneg blen_bdata)

lemma consume_ok:
  assumes "block_ok b" "0 \<le> n" "n \<le> blen b"
  shows "block_ok (b\<lparr>b_rp := b_rp b + n\<rparr>)" "bdata (b\<lparr>b_rp := b_rp b + n\<rparr>) = drop (nat n) (bdata b)"
    "blen (b\<lparr>b_rp := b_rp b + n\<rparr>) = blen b - n" "balloc (b\<lparr>b_rp := b_rp b + n\<rparr>) = balloc b"
proof -
  show "block_ok (b\<lparr>b_rp := b_rp b + n\<rparr>)"
    using assms by (simp add: block_ok_def blen_def balloc_def)
  have "nat (b_rp b + n) = nat n + nat (b_rp b)" "nat (b_wp b - (b_rp b + n)) = nat (b_wp b - b_rp b) - nat n"
    using assms by (auto simp: block_ok_def blen_def)
  then show "bdata (b\<lparr>b_rp := b_rp b + n\<rparr>) = drop (nat n) (bdata b)"
    by (simp add: bdata_def blen_def drop_take)
qed (simp_all add: blen_def balloc_def)

lemma truncate_ok:
  assumes "block_ok b" "0 \<le> n" "n \<le> blen b"
  shows "block_ok (b\<lparr>b_wp := b_rp b + n\<rparr>)" "bdata (b\<lparr>b_wp := b_rp b + n\<rparr>) = take (nat n) (bdata b)"
    "blen (b\<lparr>b_wp := b_rp b + n\<rparr>) = n" "balloc (b\<lparr>b_wp := b_rp b + n\<rparr>) = balloc b"
proof -
  show "block_ok (b\<lparr>b_wp := b_rp b + n\<rparr>)"
    using assms by (simp add: block_ok_def blen_def balloc_def)
  show "bdata (b\<lparr>b_wp := b_rp b + n\<rparr>) = take (nat n) (bdata b)"
    using assms by (auto simp: bdata_def blen_def min_def nat_le_iff)
qed (simp_all add: blen_def balloc_def)

subsection \<open>The interface of a sink of bytes\<close>

text \<open>
  What the copying loops rely on: bytes that fit are added at the end, and use up room. The
  client lemma is the loop.
\<close>

fun sink_all :: "('s \<Rightarrow> bytes \<Rightarrow> 's option) \<Rightarrow> 's \<Rightarrow> bytes list \<Rightarrow> 's option" where
  "sink_all put s [] = Some s"
| "sink_all put s (d # ds) = do { s \<leftarrow> put s d; sink_all put s ds }"

locale byte_sink =
  fixes put :: "'s \<Rightarrow> bytes \<Rightarrow> 's option"
    and held :: "'s \<Rightarrow> bytes"
    and room :: "'s \<Rightarrow> nat"
    and ok :: "'s \<Rightarrow> bool"
  assumes put_fits: "ok s \<Longrightarrow> length d \<le> room s \<Longrightarrow>
    \<exists>s'. put s d = Some s' \<and> ok s' \<and> held s' = held s @ d \<and> room s' = room s - length d"
begin

lemma sink_all_fits:
  "ok s \<Longrightarrow> length (concat ds) \<le> room s \<Longrightarrow>
   \<exists>s'. sink_all put s ds = Some s' \<and> ok s' \<and> held s' = held s @ concat ds \<and>
     room s' = room s - length (concat ds)"
proof (induction ds arbitrary: s)
  case Nil
  then show ?case by simp
next
  case (Cons d ds)
  then obtain s1 where s1: "put s d = Some s1" "ok s1" "held s1 = held s @ d" "room s1 = room s - length d"
    using put_fits [of s d] by auto
  moreover have "length (concat ds) \<le> room s1" using Cons.prems s1 by simp
  ultimately show ?case using Cons.IH [of s1] by auto
qed

end

definition broom :: "block \<Rightarrow> nat" where
  "broom b = nat (balloc b - b_wp b)"

lemma bappend_fits:
  assumes "block_ok b" "length d \<le> broom b"
  shows "\<exists>b'. bappend b d = Some b' \<and> block_ok b' \<and> bdata b' = bdata b @ d \<and> broom b' = broom b - length d
    \<and> b_rp b' = b_rp b \<and> balloc b' = balloc b \<and> b_flag b' = b_flag b \<and> b_free b' = b_free b"
proof -
  have b: "0 \<le> b_rp b" "b_rp b \<le> b_wp b" "b_wp b + int (length d) \<le> int (length (b_buf b))" "0 \<le> b_wp b"
    using assms by (auto simp: block_ok_def broom_def balloc_def)
  have w: "nat (b_wp b) = nat (b_rp b) + nat (b_wp b - b_rp b)" using b by simp
  have w': "nat (b_wp b + int (length d) - b_rp b) = nat (b_wp b - b_rp b) + length d" using b by simp
  let ?r = "nat (b_rp b)" and ?l = "nat (b_wp b - b_rp b)"
  have fit: "?r + ?l + length d \<le> length (b_buf b)" using b by simp
  have "take (?l + length d) (drop ?r (take (?r + ?l) (b_buf b) @ d @ drop (?r + ?l + length d) (b_buf b)))
      = take ?l (drop ?r (b_buf b)) @ d"
    using fit by (simp add: drop_take)
  then show ?thesis
    using b by (auto simp: bappend_def bput_def balloc_def block_ok_def bdata_def blen_def broom_def w w')
qed

interpretation bsink: byte_sink bappend bdata broom block_ok
proof unfold_locales
  fix b :: block and d :: bytes
  assume "block_ok b" "length d \<le> broom b"
  then show "\<exists>s'. bappend b d = Some s' \<and> block_ok s' \<and> bdata s' = bdata b @ d \<and> broom s' = broom b - length d"
    using bappend_fits by blast
qed

lemma concat_loop_sink: "chain_ok bs \<Longrightarrow> concat_loop nb bs = sink_all bappend nb (map bdata bs)"
  by (induction bs arbitrary: nb) (auto simp: block_simps split: Option.bind_splits)

subsection \<open>Allocation\<close>

lemma roundup_eq: "0 \<le> x \<Longrightarrow> roundup x 8 = (x + 7) div 8 * 8"
  by (simp add: roundup_def signed_divide_int_def sgn_if)

lemma roundup_bounds:
  assumes "0 \<le> x"
  shows "x \<le> roundup x 8 \<and> roundup x 8 < x + 8"
  using div_mult_mod_eq [of "x + 7" 8] pos_mod_bound [of 8 "x + 7"] pos_mod_sign [of 8 "x + 7"]
  unfolding roundup_eq [OF assms] by linarith

lemma roundup_Hdrspc:
  assumes "0 \<le> x"
  shows "roundup (x + 64) 8 = roundup x 8 + 64"
proof -
  have "(x + 64 + 7) div 8 = (x + 7) div 8 + 8"
    using div_mult_self2 [of 8 "x + 7" 8] by (simp add: algebra_simps)
  then show ?thesis using assms by (simp add: roundup_eq)
qed

lemma allocb0_ok:
  assumes "0 \<le> sz"
  shows "\<exists>b. allocb0 True sz = Some (Some b) \<and> block_ok b \<and> bdata b = [] \<and>
    b_rp b = 72 \<and> b_wp b = 72 \<and> balloc b = 72 + roundup sz 8 \<and> b_flag b = 0 \<and> \<not> b_free b"
proof -
  have r1: "sz \<le> roundup sz 8" "0 \<le> roundup sz 8"
    using roundup_bounds [of sz] assms by auto
  note r2 = roundup_Hdrspc [OF assms]
  show ?thesis
    using r1 by (simp add: allocb0_def BLOCKALIGN_def Hdrspc_def sizeof_Block_def Let_def r2
        block_ok_def bdata_def blen_def balloc_def)
qed

lemma allocb_ok:
  assumes "0 \<le> sz"
  obtains b where "allocb sz = Some b" "block_ok b" "bdata b = []" "sz \<le> int (broom b)"
    "b_rp b = 72" "b_wp b = 72" "balloc b = 72 + roundup sz 8" "b_flag b = 0" "\<not> b_free b"
proof -
  from allocb0_ok [OF assms] obtain b where b: "allocb0 True sz = Some (Some b)" "block_ok b" "bdata b = []"
    "b_rp b = 72" "b_wp b = 72" "balloc b = 72 + roundup sz 8" "b_flag b = 0" "\<not> b_free b" by blast
  moreover from b have "sz \<le> int (broom b)"
    using roundup_bounds [of sz] assms by (simp add: broom_def)
  ultimately show thesis using that by (simp add: allocb_def)
qed

lemma iallocb_ok:
  assumes "0 \<le> sz" "iallocb ia mem sz = Some (Some b, ia')"
  shows "block_ok b \<and> bdata b = [] \<and> sz \<le> int (broom b) \<and> b_rp b = 72 \<and> b_wp b = 72 \<and>
    balloc b = 72 + roundup sz 8 \<and> b_flag b = BINTR \<and> \<not> b_free b \<and>
    ia' = ia\<lparr>ia_bytes := ia_bytes ia + balloc b\<rparr>"
proof -
  from assms(2) have mem: "mem"
    by (cases mem) (auto simp: iallocb_def allocb0_def Let_def split: if_splits Option.bind_splits)
  from allocb0_ok [OF assms(1)] obtain c where c: "allocb0 True sz = Some (Some c)" "block_ok c" "bdata c = []"
    "b_rp c = 72" "b_wp c = 72" "balloc c = 72 + roundup sz 8" "b_flag c = 0" "\<not> b_free c" by blast
  from assms(2) mem c(1) have b: "b = c\<lparr>b_flag := BINTR\<rparr>"
    and ia: "ia' = ia\<lparr>ia_bytes := ia_bytes ia + balloc c\<rparr>"
    by (auto simp: iallocb_def split: if_splits)
  show ?thesis
    using c roundup_bounds [OF assms(1)] unfolding b ia
    by (simp add: block_ok_def bdata_def blen_def balloc_def broom_def)
qed

subsection \<open>What the chain operations do\<close>

lemma padblock_front:
  assumes "chain_ok (b # bs)" "0 \<le> sz" "sz \<le> b_rp b \<or> bs = []"
  shows "\<exists>b' fr. padblock (b # bs) sz = Some (b' # bs, fr) \<and> block_ok b' \<and> blen b' = blen b + sz \<and>
    drop (nat sz) (bdata b') = bdata b"
proof (cases "sz \<le> b_rp b")
  case True
  let ?b = "b\<lparr>b_rp := b_rp b - sz\<rparr>"
  have ok: "block_ok ?b" using assms True by (simp add: block_simps block_ok_def balloc_def)
  moreover have "0 \<le> sz" "sz \<le> blen ?b" using assms ok by (auto simp: blen_def block_ok_def block_simps)
  ultimately have "bdata (?b\<lparr>b_rp := b_rp ?b + sz\<rparr>) = drop (nat sz) (bdata ?b)"
    by (rule consume_ok(2))
  then show ?thesis using True assms(2) ok by (simp add: blen_def)
next
  case False
  with assms have bs: "bs = []" and b: "block_ok b" by (auto simp: block_simps)
  have n: "0 \<le> blen b" using b by (rule blen_nonneg)
  then obtain nb where nb: "allocb (sz + blen b) = Some nb" "block_ok nb" "b_rp nb = 72" "b_wp nb = 72"
    "balloc nb = 72 + roundup (sz + blen b) 8"
    using allocb_ok [of "sz + blen b"] assms(2) by auto
  let ?nb = "nb\<lparr>b_rp := 72 + sz, b_wp := 72 + sz\<rparr>"
  have fit: "sz + blen b \<le> roundup (sz + blen b) 8"
    using roundup_bounds [of "sz + blen b"] n assms(2) by simp
  have ok: "block_ok ?nb" and room: "length (bdata b) \<le> broom ?nb"
    using nb(5) fit assms(2) n b by (auto simp: block_ok_def broom_def balloc_def length_bdata)
  have e: "bdata ?nb = []" by (simp add: bdata_def blen_def)
  from bappend_fits [OF ok room] obtain c where c: "bappend ?nb (bdata b) = Some c" "block_ok c"
    "bdata c = bdata b" "b_rp c = 72 + sz" unfolding e by auto
  let ?c = "c\<lparr>b_rp := b_rp c - sz\<rparr>"
  have okc: "block_ok ?c" using c assms(2) by (simp add: block_ok_def balloc_def)
  moreover have "sz \<le> blen ?c" using c by (simp add: blen_def block_ok_def)
  ultimately have "bdata (?c\<lparr>b_rp := b_rp ?c + sz\<rparr>) = drop (nat sz) (bdata ?c)"
    using assms(2) by (intro consume_ok(2))
  moreover have "blen ?c = blen b + sz"
  proof -
    have "blen c = blen b" using c b by (simp add: blen_bdata)
    then show ?thesis by (simp add: blen_def)
  qed
  ultimately show ?thesis
    using False bs assms(2) nb(1,3) b c(1,3) okc by (simp add: block_simps Let_def)
qed

lemma padblock_back:
  assumes "block_ok b" "sz < 0"
  shows "\<exists>b' fr. padblock [b] sz = Some ([b'], fr) \<and> block_ok b' \<and> bdata b' = bdata b \<and> - sz \<le> int (broom b')"
proof (cases "- sz \<le> balloc b - b_wp b")
  case True
  then show ?thesis using assms by (simp add: broom_def Let_def)
next
  case False
  have n: "0 \<le> blen b" using assms(1) by (rule blen_nonneg)
  then obtain nb where nb: "allocb (- sz + blen b) = Some nb" "block_ok nb" "bdata nb = []"
    "- sz + blen b \<le> int (broom nb)"
    using allocb_ok [of "- sz + blen b"] assms(2) by auto
  then have room: "length (bdata b) \<le> broom nb" using n assms by (simp add: length_bdata)
  from bappend_fits [OF nb(2) room] obtain c where "bappend nb (bdata b) = Some c" "block_ok c"
    "bdata c = bdata b" "broom c = broom nb - length (bdata b)" using nb(3) by auto
  then show ?thesis using False assms nb n by (simp add: block_simps Let_def length_bdata)
qed

lemma concatblock_data:
  assumes "chain_ok bs" "bs \<noteq> []"
  shows "\<exists>b fr. concatblock bs = Some ([b], fr) \<and> block_ok b \<and> bdata b = chain_data bs"
proof (cases "tl bs = []")
  case True
  with assms show ?thesis by (cases bs) (auto simp: block_simps)
next
  case False
  obtain nb where nb: "allocb (blocklen bs) = Some nb" "block_ok nb" "bdata nb = []" "blocklen bs \<le> int (broom nb)"
    using allocb_ok [OF blocklen_nonneg [OF assms(1)]] by metis
  have "length (concat (map bdata bs)) \<le> broom nb"
    using nb(4) assms(1) by (simp add: blocklen_data chain_data_def)
  from bsink.sink_all_fits [OF nb(2) this] obtain c where
    "sink_all bappend nb (map bdata bs) = Some c" "block_ok c" "bdata c = chain_data bs"
    unfolding nb(3) chain_data_def by auto
  then have "concat_loop nb bs = Some c" "block_ok c" "bdata c = chain_data bs"
    using assms(1) by (simp_all add: concat_loop_sink)
  with False assms nb(1) show ?thesis
    by (cases bs) (auto simp del: concat_loop.simps blocklen.simps)
qed

lemma pullup_loop_data:
  "block_ok b \<Longrightarrow> chain_ok bs \<Longrightarrow> 0 < n \<Longrightarrow> n \<le> int (broom b) \<Longrightarrow>
   (if n \<le> int (length (chain_data bs))
    then \<exists>b' r fr. pullup_loop b n bs = Some (b' # r, fr) \<and> block_ok b' \<and> chain_ok r \<and>
           bdata b' = bdata b @ take (nat n) (chain_data bs) \<and> chain_data r = drop (nat n) (chain_data bs)
    else \<exists>fr. pullup_loop b n bs = Some ([], fr))"
proof (induction bs arbitrary: b n)
  case Nil
  then show ?case by (simp add: block_simps)
next
  case (Cons c bs)
  then have c: "block_ok c" "chain_ok bs" and i: "blen c = int (length (bdata c))"
    by (auto simp: block_simps blen_bdata)
  show ?case
  proof (cases "n < blen c")
    case True
    have g: "bget c (b_rp c) n = Some (take (nat n) (bdata c))"
      using c True Cons.prems by (intro bget_prefix) auto
    have "length (take (nat n) (bdata c)) \<le> broom b" using Cons.prems by auto
    from bappend_fits [OF Cons.prems(1) this] obtain b' where b': "bappend b (take (nat n) (bdata c)) = Some b'"
      "block_ok b'" "bdata b' = bdata b @ take (nat n) (bdata c)" by blast
    have "block_ok (c\<lparr>b_rp := b_rp c + n\<rparr>)" "bdata (c\<lparr>b_rp := b_rp c + n\<rparr>) = drop (nat n) (bdata c)"
      using c True Cons.prems by (auto intro: consume_ok)
    with g b' True i c Cons.prems show ?thesis by (simp add: block_simps Let_def)
  next
    case False
    have "length (bdata c) \<le> broom b" using Cons.prems False i by linarith
    from bappend_fits [OF Cons.prems(1) this] obtain b' where b': "bappend b (bdata c) = Some b'"
      "block_ok b'" "bdata b' = bdata b @ bdata c" "broom b' = broom b - length (bdata c)" by blast
    have g: "bget c (b_rp c) (blen c) = Some (bdata c)" using c by (simp add: block_simps)
    have nn: "\<not> blen c < 0" using i by simp
    show ?thesis
    proof (cases "n = blen c")
      case True
      then show ?thesis using g b' i c nn by (simp add: block_simps Let_def)
    next
      case ne: False
      have p1: "0 < n - blen c" and p2: "n - blen c \<le> int (broom b')"
        using False ne b' i Cons.prems(4) by auto
      have k: "nat n = length (bdata c) + nat (n - blen c)" using i p1 by linarith
      show ?thesis
        using Cons.IH [OF b'(2) c(2) p1 p2] g b' False ne nn i
        by (auto simp: block_simps Let_def k)
    qed
  qed
qed

lemma pullupblock_data:
  assumes "chain_ok (b # bs)" "0 \<le> n"
  shows "if n \<le> int (length (chain_data (b # bs)))
    then \<exists>b' r fr. pullupblock (b # bs) n = Some (b' # r, fr) \<and> chain_ok (b' # r) \<and> n \<le> blen b' \<and>
      chain_data (b' # r) = chain_data (b # bs)
    else \<exists>fr. pullupblock (b # bs) n = Some ([], fr)"
proof -
  have ok: "block_ok b" "chain_ok bs" and i: "blen b = int (length (bdata b))"
    using assms by (auto simp: block_simps blen_bdata)
  consider "n \<le> blen b" | "blen b < n" "balloc b - b_rp b < n" | "blen b < n" "\<not> balloc b - b_rp b < n" by linarith
  then show ?thesis
  proof cases
    case 1
    then show ?thesis using assms ok i by (simp add: block_simps)
  next
    case 2
    obtain nb where nb: "allocb n = Some nb" "block_ok nb" "bdata nb = []" "n \<le> int (broom nb)"
      using allocb_ok [OF assms(2)] by metis
    then have z: "blen nb = 0" by (simp add: blen_bdata)
    have n: "0 < n" using 2 i by simp
    have e: "pullupblock (b # bs) n = pullup_loop nb n (b # bs)"
      using 2 nb(1) z by (simp del: pullup_loop.simps)
    have fin: "chain_ok (c # r) \<and> n \<le> blen c \<and> chain_data (c # r) = d"
      if "block_ok c" "chain_ok r" "bdata c = take (nat n) d" "chain_data r = drop (nat n) d"
        "n \<le> int (length d)" for c r d
      using that n by (simp add: block_simps blen_bdata)
    show ?thesis
    proof (cases "n \<le> int (length (chain_data (b # bs)))")
      case True
      with pullup_loop_data [OF nb(2) assms(1) n nb(4)] obtain c r fr where
        "pullup_loop nb n (b # bs) = Some (c # r, fr)" "block_ok c" "chain_ok r"
        "bdata c = take (nat n) (chain_data (b # bs))" "chain_data r = drop (nat n) (chain_data (b # bs))"
        unfolding nb(3) by auto
      with fin [OF this(2-5) True] True show ?thesis unfolding e by auto
    next
      case False
      with pullup_loop_data [OF nb(2) assms(1) n nb(4)] show ?thesis unfolding e by (simp only: if_False)
    qed
  next
    case 3
    then have "0 < n - blen b" "n - blen b \<le> int (broom b)"
      using ok(1) by (auto simp: broom_def blen_def block_ok_def)
    from pullup_loop_data [OF ok this] show ?thesis
      using 3 i by (auto simp: block_simps blen_bdata split: if_splits)
  qed
qed

lemma trim_front_data:
  "chain_ok bs \<Longrightarrow> 0 \<le> off \<Longrightarrow> off \<le> blocklen bs \<Longrightarrow> bs \<noteq> [] \<Longrightarrow>
   \<exists>b r off' fr. trim_front bs off = Some (b # r, off', fr) \<and> chain_ok (b # r) \<and> 0 \<le> off' \<and>
     off' \<le> blen b \<and> drop (nat off') (chain_data (b # r)) = drop (nat off) (chain_data bs)"
proof (induction bs arbitrary: off)
  case Nil
  then show ?case by simp
next
  case (Cons b bs)
  then have b: "block_ok b" "chain_ok bs" "blen b = int (length (bdata b))" by (auto simp: block_simps blen_bdata)
  show ?case
  proof (cases "blen b < off")
    case True
    with Cons.prems have "0 \<le> off - blen b" "off - blen b \<le> blocklen bs" "bs \<noteq> []" by auto
    from Cons.IH [OF b(2) this] obtain c r off' fr where c:
      "trim_front bs (off - blen b) = Some (c # r, off', fr)" "chain_ok (c # r)" "0 \<le> off'" "off' \<le> blen c"
      "drop (nat off') (chain_data (c # r)) = drop (nat (off - blen b)) (chain_data bs)" by blast
    have "drop (nat off) (chain_data (b # bs)) = drop (nat (off - blen b)) (chain_data bs)"
      using True b(3) by (simp add: block_simps nat_diff_distrib)
    with True c show ?thesis by simp
  next
    case False
    with Cons.prems show ?thesis by simp
  qed
qed

lemma trim_back_data:
  "chain_ok bs \<Longrightarrow> 0 \<le> len \<Longrightarrow> len \<le> blocklen bs \<Longrightarrow> bs \<noteq> [] \<Longrightarrow>
   \<exists>r fr. trim_back bs len = Some (r, fr) \<and> chain_ok r \<and> chain_data r = take (nat len) (chain_data bs)"
proof (induction bs arbitrary: len)
  case Nil
  then show ?case by simp
next
  case (Cons b bs)
  then have b: "block_ok b" "chain_ok bs" "blen b = int (length (bdata b))" by (auto simp: block_simps blen_bdata)
  show ?case
  proof (cases "blen b < len")
    case True
    with Cons.prems have "0 \<le> len - blen b" "len - blen b \<le> blocklen bs" "bs \<noteq> []" by auto
    from Cons.IH [OF b(2) this] obtain r fr where
      "trim_back bs (len - blen b) = Some (r, fr)" "chain_ok r"
      "chain_data r = take (nat (len - blen b)) (chain_data bs)" by blast
    moreover have "take (nat len) (chain_data (b # bs)) = bdata b @ take (nat (len - blen b)) (chain_data bs)"
      using True b(3) by (simp add: block_simps nat_diff_distrib)
    ultimately show ?thesis using True b by (simp add: block_simps)
  next
    case False
    have e: "b_wp b - (int (length (bdata b)) - len) = b_rp b + len"
      using b(3) by (simp add: blen_def)
    from False Cons.prems b truncate_ok [of b len] show ?thesis
      by (simp add: e block_simps)
  qed
qed

lemma trimblock_data:
  assumes "chain_ok bs" "bs \<noteq> []" "0 \<le> offset" "0 \<le> len"
  shows "if offset + len \<le> int (length (chain_data bs))
    then \<exists>r fr. trimblock bs offset len = Some (r, fr) \<and> chain_ok r \<and>
      chain_data r = take (nat len) (drop (nat offset) (chain_data bs))
    else trimblock bs offset len = Some ([], bs)"
proof (cases "offset + len \<le> blocklen bs")
  case True
  then have "offset \<le> blocklen bs" using assms by simp
  from trim_front_data [OF assms(1,3) this assms(2)] obtain b r off' fr where f:
    "trim_front bs offset = Some (b # r, off', fr)" "chain_ok (b # r)" "0 \<le> off'" "off' \<le> blen b"
    "drop (nat off') (chain_data (b # r)) = drop (nat offset) (chain_data bs)" by blast
  let ?b = "b\<lparr>b_rp := b_rp b + off'\<rparr>"
  have b: "block_ok b" "blen b = int (length (bdata b))" using f(2) by (auto simp: block_simps blen_bdata)
  have ok: "chain_ok (?b # r)" using f consume_ok(1) [OF b(1) f(3,4)] by (simp add: block_simps)
  have d: "chain_data (?b # r) = drop (nat offset) (chain_data bs)"
    using f(5) consume_ok(2) [OF b(1) f(3,4)] f(3,4) b(2) by (simp add: block_simps)
  have "len \<le> blocklen (?b # r)"
    unfolding blocklen_data [OF ok] d using True assms by (simp add: blocklen_data)
  from trim_back_data [OF ok assms(4) this] obtain r' fr' where
    "trim_back (?b # r) len = Some (r', fr')" "chain_ok r'" "chain_data r' = take (nat len) (chain_data (?b # r))"
    by blast
  then show ?thesis
    using True assms(1) f(1) by (simp add: trimblock_def d blocklen_data)
next
  case False
  then show ?thesis using assms(1) by (simp add: trimblock_def blocklen_data)
qed

lemma copy_loop_data:
  "block_ok nb \<Longrightarrow> chain_ok bs \<Longrightarrow> 0 \<le> count \<Longrightarrow> count \<le> int (broom nb) \<Longrightarrow>
   \<exists>nb'. copy_loop nb bs count = Some nb' \<and> block_ok nb' \<and> b_flag nb' = b_flag nb \<and> balloc nb' = balloc nb \<and>
     bdata nb' = bdata nb @ take (nat count) (chain_data bs @ replicate (nat count) 0)"
proof (induction bs arbitrary: nb count)
  case Nil
  then show ?case
    using bappend_fits [of nb "replicate (nat count) 0"] by (auto simp: block_simps nat_le_iff)
next
  case (Cons b bs)
  then have b: "block_ok b" "chain_ok bs" and i: "blen b = int (length (bdata b))"
    by (auto simp: block_simps blen_bdata)
  show ?case
  proof (cases "count = 0")
    case True
    then show ?thesis using Cons.prems by simp
  next
    case False
    define l where "l = (if blen b > count then count else blen b)"
    have l: "0 \<le> l" "l \<le> blen b" "l \<le> count" using Cons.prems i by (auto simp: l_def)
    have g: "bget b (b_rp b) l = Some (take (nat l) (bdata b))" by (rule bget_prefix [OF b(1) l(1,2)])
    have len: "length (take (nat l) (bdata b)) = nat l" using l i by simp
    then have "length (take (nat l) (bdata b)) \<le> broom nb" using l Cons.prems by linarith
    from bappend_fits [OF Cons.prems(1) this] obtain c where c: "bappend nb (take (nat l) (bdata b)) = Some c"
      "block_ok c" "bdata c = bdata nb @ take (nat l) (bdata b)" "broom c = broom nb - nat l"
      "b_flag c = b_flag nb" "balloc c = balloc nb"
      unfolding len by blast
    have "0 \<le> count - l" "count - l \<le> int (broom c)" using l Cons.prems c(4) by auto
    from Cons.IH [OF c(2) b(2) this] obtain d where d: "copy_loop c bs (count - l) = Some d" "block_ok d"
      "b_flag d = b_flag c" "balloc d = balloc c"
      "bdata d = bdata c @ take (nat (count - l)) (chain_data bs @ replicate (nat (count - l)) 0)" by blast
    have "take (nat count) (chain_data (b # bs) @ replicate (nat count) 0) =
      take (nat l) (bdata b) @ take (nat (count - l)) (chain_data bs @ replicate (nat (count - l)) 0)"
    proof (cases "blen b > count")
      case True
      then have "l = count" by (simp add: l_def)
      then show ?thesis using True i by (simp add: block_simps)
    next
      case False
      then have "l = int (length (bdata b))" by (simp add: l_def i)
      then show ?thesis using l i by (simp add: block_simps nat_diff_distrib)
    qed
    with d c g False Cons.prems show ?thesis
      by (simp add: Let_def flip: l_def)
  qed
qed

lemma copyblock_data:
  assumes "chain_ok (b # bs)" "0 \<le> count" "b_flag b AND BINTR = 0"
  shows "\<exists>nb. copyblock ia mem (b # bs) count = Some (Some nb, ia) \<and> block_ok nb \<and>
    bdata nb = take (nat count) (chain_data (b # bs) @ replicate (nat count) 0)"
proof -
  obtain nb where nb: "allocb count = Some nb" "block_ok nb" "bdata nb = []" "count \<le> int (broom nb)"
    using allocb_ok [OF assms(2)] by metis
  from copy_loop_data [OF nb(2) assms(1,2) nb(4)] nb assms(3) show ?thesis
    by (auto simp del: copy_loop.simps)
qed

lemma adjustblock_data:
  assumes "block_ok b" "0 \<le> len" "b_flag b AND BINTR = 0"
  shows "\<exists>nb fr ia'. adjustblock ia mem [b] len = Some ([nb], fr, ia') \<and> block_ok nb \<and>
    bdata nb = take (nat len) (bdata b @ replicate (nat len) 0)"
proof -
  consider "b_rp b + len > balloc b" | "b_rp b + len \<le> balloc b" "len \<le> blen b" | "b_rp b + len \<le> balloc b" "blen b < len"
    by linarith
  then show ?thesis
  proof cases
    case 1
    have "chain_ok [b]" using assms by (simp add: block_simps)
    from copyblock_data [OF this assms(2,3), of ia mem] 1 assms show ?thesis
      by (auto simp: block_simps simp del: copyblock.simps)
  next
    case 2
    with assms truncate_ok [OF assms(1,2), of] show ?thesis by (simp add: blen_bdata)
  next
    case 3
    let ?z = "replicate (nat (len - blen b)) (0 :: u8)"
    have "length ?z \<le> broom b" using 3 assms by (simp add: broom_def blen_def)
    from bappend_fits [OF assms(1) this] obtain c where c: "bput b (b_wp b) ?z = Some c"
      and c': "block_ok (c\<lparr>b_wp := b_wp b + int (length ?z)\<rparr>)"
        "bdata (c\<lparr>b_wp := b_wp b + int (length ?z)\<rparr>) = bdata b @ ?z"
      by (auto simp: bappend_def bput_def split: if_splits)
    have w: "b_wp b + int (length ?z) = b_rp b + len" using 3 by (simp add: blen_def)
    have "b_rp c = b_rp b" using c by (auto simp: bput_def split: if_splits)
    moreover have "bdata b @ ?z = take (nat len) (bdata b @ replicate (nat len) 0)"
      using 3 assms(1) by (simp add: blen_bdata nat_diff_distrib)
    ultimately show ?thesis using 3 assms(2) c c' [unfolded w] by auto
  qed
qed

lemma pullblock_data:
  assumes "chain_ok bs" "0 \<le> count"
  shows "\<exists>r fr. pullblock bs count = (min count (blocklen bs), r, fr) \<and> chain_ok r \<and>
    chain_data r = drop (nat count) (chain_data bs)"
  using assms
proof (induction bs arbitrary: count)
  case Nil
  then show ?case by (simp add: block_simps)
next
  case (Cons b bs)
  then have b: "block_ok b" "chain_ok bs" and i: "blen b = int (length (bdata b))"
    by (auto simp: block_simps blen_bdata)
  consider "count = 0" | "0 < count" "count < blen b" | "0 < count" "blen b \<le> count"
    using Cons.prems by linarith
  then show ?case
  proof cases
    case 1
    then show ?thesis using Cons.prems blocklen_nonneg [OF Cons.prems(1)] by simp
  next
    case 2
    then have e: "blen (b\<lparr>b_rp := b_rp b + count\<rparr>) = blen b - count" by (simp add: blen_def)
    from 2 consume_ok [OF b(1) Cons.prems(2)] b blocklen_nonneg [OF b(2)] show ?thesis
      by (simp add: e block_simps Let_def) (simp add: i)
  next
    case 3
    have e: "blen (b\<lparr>b_rp := b_rp b + blen b\<rparr>) = 0" by (simp add: blen_def)
    have c: "0 \<le> count - blen b" using 3 by simp
    from Cons.IH [OF b(2) c] obtain r fr where r: "pullblock bs (count - blen b) = (min (count - blen b) (blocklen bs), r, fr)"
      "chain_ok r" "chain_data r = drop (nat (count - blen b)) (chain_data bs)" by blast
    have "drop (nat count) (chain_data (b # bs)) = drop (nat (count - blen b)) (chain_data bs)"
      using 3 i by (simp add: block_simps nat_diff_distrib)
    moreover have "blen b + min (count - blen b) (blocklen bs) = min count (blocklen (b # bs))" by simp
    ultimately show ?thesis using 3 r by (auto simp: e Let_def)
  qed
qed

lemma packblock_data:
  "chain_ok bs \<Longrightarrow> \<exists>r fr. packblock bs = Some (r, fr) \<and> chain_ok r \<and> map bdata r = map bdata bs"
proof (induction bs)
  case Nil
  then show ?case by (simp add: block_simps)
next
  case (Cons b bs)
  then have b: "block_ok b" "chain_ok bs" and i: "blen b = int (length (bdata b))"
    by (auto simp: block_simps blen_bdata)
  from Cons.IH [OF b(2)] obtain r fr where r: "packblock bs = Some (r, fr)" "chain_ok r" "map bdata r = map bdata bs"
    by blast
  obtain nb where nb: "allocb (blen b) = Some nb" "block_ok nb" "bdata nb = []" "blen b \<le> int (broom nb)"
    using allocb_ok [OF blen_nonneg [OF b(1)]] by metis
  then have "length (bdata b) \<le> broom nb" using i by simp
  from bappend_fits [OF nb(2) this] nb(1,3) r b show ?case
    by (auto simp: block_simps Let_def)
qed

lemma bl2mem_data:
  "chain_ok bs \<Longrightarrow> 0 \<le> n \<Longrightarrow>
   \<exists>r fr. bl2mem bs n = Some (take (nat n) (chain_data bs), r, fr) \<and> chain_ok r \<and>
     chain_data r = drop (nat n) (chain_data bs) \<and> blockalloclen r \<le> blockalloclen bs"
proof (induction bs arbitrary: n)
  case Nil
  then show ?case by (simp add: block_simps)
next
  case (Cons b bs)
  then have b: "block_ok b" "chain_ok bs" and i: "blen b = int (length (bdata b))"
    by (auto simp: block_simps blen_bdata)
  show ?case
  proof (cases "n < blen b")
    case True
    then show ?thesis
      using Cons.prems(2) b i bget_prefix [of b n] consume_ok [of b n] by (simp add: block_simps)
  next
    case False
    then have "0 \<le> n - blen b" by simp
    from Cons.IH [OF b(2) this] obtain r fr where
      "bl2mem bs (n - blen b) = Some (take (nat (n - blen b)) (chain_data bs), r, fr)" "chain_ok r"
      "chain_data r = drop (nat (n - blen b)) (chain_data bs)" "blockalloclen r \<le> blockalloclen bs" by blast
    moreover have "nat (n - blen b) = nat n - length (bdata b)" "length (bdata b) \<le> nat n"
      using False i by linarith+
    moreover have "0 \<le> balloc b" by (simp add: balloc_def)
    ultimately show ?thesis
      using False b by (auto simp: block_simps Let_def)
  qed
qed

lemma mem2bl_data:
  "0 \<le> len \<Longrightarrow> len = int (length p) \<Longrightarrow>
   \<exists>bs. mem2bl p len = Some bs \<and> chain_ok bs \<and> chain_data bs = p \<and> bs \<noteq> [] \<and> list_all (\<lambda>b. blen b \<le> Maxatomic) bs"
proof (induction p len rule: mem2bl.induct)
  case (1 p len)
  define n where "n = (if len > Maxatomic then Maxatomic else len)"
  have n: "0 \<le> n" "n \<le> len" "n \<le> Maxatomic" using 1(2) by (auto simp: n_def Maxatomic_def)
  obtain nb where nb: "allocb n = Some nb" "block_ok nb" "bdata nb = []" "n \<le> int (broom nb)"
    using allocb_ok [OF n(1)] by metis
  have m: "mget n p = Some (take (nat n) p)" using n 1(3) by (simp add: mget_def)
  have len: "length (take (nat n) p) = nat n" using n 1(3) by simp
  then have "length (take (nat n) p) \<le> broom nb" using nb(4) by simp
  from bappend_fits [OF nb(2) this] nb(3) obtain b where b: "bappend nb (take (nat n) p) = Some b" "block_ok b"
    "bdata b = take (nat n) p" by auto
  then have bl: "blen b = n" using len n by (simp add: blen_bdata)
  show ?case
  proof (cases "len - n > 0")
    case False
    then show ?thesis
      using b bl n m nb 1(3) by (subst mem2bl.simps) (simp add: block_simps flip: n_def)
  next
    case True
    have "len - n = int (length (drop (nat n) p))" using 1(3) n by simp
    moreover have "0 \<le> len - n" using n by simp
    ultimately obtain bs where "mem2bl (drop (nat n) p) (len - n) = Some bs" "chain_ok bs"
      "chain_data bs = drop (nat n) p" "list_all (\<lambda>b. blen b \<le> Maxatomic) bs"
      using 1(1) [OF n_def nb(1) m b(1) True] by blast
    then show ?thesis
      using True b bl n m nb by (subst mem2bl.simps) (simp add: block_simps flip: n_def)
  qed
qed

lemma bl2mem_all: "chain_ok bs \<Longrightarrow> int (length (chain_data bs)) \<le> n \<Longrightarrow> \<exists>fr. bl2mem bs n = Some (chain_data bs, [], fr)"
proof (induction bs arbitrary: n)
  case Nil
  then show ?case by (simp add: block_simps)
next
  case (Cons b bs)
  then have b: "block_ok b" "chain_ok bs" and i: "blen b = int (length (bdata b))"
    by (auto simp: block_simps blen_bdata)
  have "int (length (chain_data bs)) \<le> n - blen b" using Cons.prems(2) i by (simp add: block_simps)
  moreover have "bget b (b_rp b) (int (length (bdata b))) = Some (bdata b)"
    using bget_bdata [OF b(1)] unfolding i .
  ultimately show ?case using Cons.IH [OF b(2), of "n - blen b"] Cons.prems(2) i
    by (auto simp: block_simps Let_def)
qed

subsection \<open>The interrupt allocation account\<close>

text \<open>
  The account and the live blocks as the kernel runs: an allocation that succeeds or is refused,
  a block being filled, consumed, padded in place (its memory, flag and free routine stay), a
  block being freed.
\<close>

definition counted :: "block \<Rightarrow> bool" where
  "counted b = (\<not> b_free b \<and> b_flag b AND BINTR \<noteq> 0)"

definition accounted :: "chain \<Rightarrow> int" where
  "accounted live = blockalloclen (filter counted live)"

inductive ialloc_step :: "ialloc \<times> chain \<Rightarrow> ialloc \<times> chain \<Rightarrow> bool" where
  alloc: "iallocb ia mem sz = Some (Some b, ia') \<Longrightarrow> ialloc_step (ia, live) (ia', b # live)"
| refuse: "iallocb ia mem sz = Some (None, ia') \<Longrightarrow> ialloc_step (ia, live) (ia', live)"
| process_alloc: "allocb sz = Some b \<Longrightarrow> ialloc_step (ia, live) (ia, b # live)"
| work: "balloc b' = balloc b \<Longrightarrow> counted b' = counted b \<Longrightarrow>
    ialloc_step (ia, xs @ b # ys) (ia, xs @ b' # ys)"
| release: "ialloc_step (ia, xs @ b # ys) (freeb b ia, xs @ ys)"

inductive ialloc_reach :: "int \<Rightarrow> ialloc \<times> chain \<Rightarrow> bool" for conf where
  init: "ialloc_reach conf (\<lparr>ia_bytes = 0, ia_conf = conf, ia_m1 = 0, ia_m2 = 0, ia_mp = 0\<rparr>, [])"
| step: "ialloc_reach conf s \<Longrightarrow> ialloc_step s t \<Longrightarrow> ialloc_reach conf t"

lemma allocb0_flag: "allocb0 mem sz = Some (Some b) \<Longrightarrow> b_flag b = 0 \<and> \<not> b_free b"
  by (auto simp: allocb0_def Let_def split: if_splits)

lemma iallocb_cases:
  assumes "iallocb ia mem sz = Some (r, ia')"
  shows "case r of None \<Rightarrow> ia_bytes ia' = ia_bytes ia \<and> ia_conf ia' = ia_conf ia
    | Some b \<Rightarrow> counted b \<and> ia_bytes ia \<le> ia_conf ia \<and> ia_conf ia' = ia_conf ia \<and>
        ia_bytes ia' = ia_bytes ia + balloc b"
  using assms
  by (auto simp: iallocb_def counted_def BINTR_def balloc_def split: if_splits Option.bind_splits option.splits
      dest: allocb0_flag)

lemma accounted_simps:
  "accounted [] = 0" "accounted (b # bs) = (if counted b then balloc b else 0) + accounted bs"
  "accounted (xs @ ys) = accounted xs + accounted ys"
  by (simp_all add: accounted_def blockalloclen_append)

lemma freeb_account: "ia_bytes (freeb b ia) = ia_bytes ia - (if counted b then balloc b else 0) \<and>
    ia_conf (freeb b ia) = ia_conf ia"
  by (simp add: freeb_def counted_def)

lemma ialloc_step_account:
  "ialloc_step s t \<Longrightarrow> ia_bytes (fst s) = accounted (snd s) \<Longrightarrow>
   ia_bytes (fst t) = accounted (snd t) \<and> ia_conf (fst t) = ia_conf (fst s)"
proof (induction rule: ialloc_step.induct)
  case (alloc ia mem sz b ia' live)
  from iallocb_cases [OF alloc(1)] alloc show ?case by (simp add: accounted_simps)
next
  case (refuse ia mem sz ia' live)
  from iallocb_cases [OF refuse(1)] refuse show ?case by simp
next
  case (process_alloc sz b ia live)
  then have "\<not> counted b"
    by (auto simp: allocb_def counted_def split: option.splits dest: allocb0_flag)
  with process_alloc show ?case by (simp add: accounted_simps)
next
  case (work b' b ia xs ys)
  then show ?case by (simp add: accounted_simps)
next
  case (release ia xs b ys)
  then show ?case by (simp add: accounted_simps freeb_account)
qed

lemma ialloc_reach_account:
  "ialloc_reach conf s \<Longrightarrow> ia_bytes (fst s) = accounted (snd s) \<and> ia_conf (fst s) = conf"
  by (induction rule: ialloc_reach.induct) (auto simp: accounted_simps dest: ialloc_step_account)

subsection \<open>The properties\<close>

definition block_of :: "bytes \<Rightarrow> block" where
  "block_of d = \<lparr>b_buf = replicate 72 0 @ d, b_rp = 72, b_wp = 72 + int (length d), b_free = False,
     b_flag = 0, b_checksum = 0\<rparr>"

definition example_chain :: chain where
  "example_chain = [block_of [1, 2, 3], block_of [], block_of [4, 5, 6, 7]]"

lemma block_of_ok: "block_ok (block_of d)" "bdata (block_of d) = d"
  by (simp_all add: block_of_def block_ok_def bdata_def blen_def balloc_def)

lemma example_chain_ok: "chain_ok example_chain" "chain_data example_chain = [1, 2, 3, 4, 5, 6, 7]"
  by (simp_all add: example_chain_def block_simps block_of_ok)

text \<open>
  C10. pullupblock on a chain of sound blocks never moves a byte outside a block. With at least
  \<open>n\<close> bytes in the chain the result is a chain of sound blocks with the same data whose first
  block holds at least \<open>n\<close> of it; with fewer the chain is gone and the result is nil.
\<close>

theorem pullupblock_spec:
  assumes "chain_ok (b # bs)" and "0 \<le> n"
  shows "if n \<le> int (length (chain_data (b # bs)))
    then \<exists>b' r fr. pullupblock (b # bs) n = Some (b' # r, fr) \<and> chain_ok (b' # r) \<and> n \<le> blen b' \<and>
      chain_data (b' # r) = chain_data (b # bs)
    else \<exists>fr. pullupblock (b # bs) n = Some ([], fr)"
  by (rule pullupblock_data [OF assms])

theorem pullupblock_spec_witness:
  "\<exists>b r fr. pullupblock example_chain 5 = Some (b # r, fr) \<and> 5 \<le> blen b \<and>
     chain_data (b # r) = [1, 2, 3, 4, 5, 6, 7]"
proof -
  have e: "example_chain = block_of [1, 2, 3] # [block_of [], block_of [4, 5, 6, 7]]"
    by (simp add: example_chain_def)
  from pullupblock_spec [of "block_of [1, 2, 3]" "[block_of [], block_of [4, 5, 6, 7]]" 5] show ?thesis
    using example_chain_ok unfolding e by auto
qed

text \<open>
  trimblock leaves exactly the \<open>len\<close> bytes at \<open>offset\<close> of the chain's data, in sound
  blocks, or frees the whole chain when it holds fewer than \<open>offset + len\<close>.
\<close>

theorem trimblock_spec:
  assumes "chain_ok bs" and "bs \<noteq> []" and "0 \<le> offset" and "0 \<le> len"
  shows "if offset + len \<le> int (length (chain_data bs))
    then \<exists>r fr. trimblock bs offset len = Some (r, fr) \<and> chain_ok r \<and>
      chain_data r = take (nat len) (drop (nat offset) (chain_data bs))
    else trimblock bs offset len = Some ([], bs)"
  by (rule trimblock_data [OF assms])

theorem trimblock_spec_witness:
  "(\<exists>r fr. trimblock example_chain 2 3 = Some (r, fr) \<and> chain_data r = [3, 4, 5]) \<and>
   trimblock example_chain 6 2 = Some ([], example_chain)"
proof -
  have ne: "example_chain \<noteq> []" by (simp add: example_chain_def)
  show ?thesis
    using trimblock_spec [OF example_chain_ok(1) ne, of 2 3] trimblock_spec [OF example_chain_ok(1) ne, of 6 2]
    by (auto simp: example_chain_ok numeral_eq_Suc)
qed

text \<open>
  padblock gives the caller \<open>size\<close> bytes in front of the data (behind it for a negative
  size) without touching the data: in place when there is room, in a new block otherwise. It
  panics only when it needs a new block and the block is not the last of its chain.
\<close>

theorem padblock_spec:
  assumes "chain_ok (b # bs)" and "bs = [] \<or> (0 \<le> sz \<and> sz \<le> b_rp b)"
  shows "\<exists>b' fr. padblock (b # bs) sz = Some (b' # bs, fr) \<and> block_ok b' \<and>
    (if 0 \<le> sz then blen b' = blen b + sz \<and> drop (nat sz) (bdata b') = bdata b
     else bdata b' = bdata b \<and> - sz \<le> int (broom b'))"
proof (cases "0 \<le> sz")
  case True
  with padblock_front [OF assms(1) True] assms(2) show ?thesis by auto
next
  case False
  with assms have "bs = []" "block_ok b" "sz < 0" by (auto simp: block_simps)
  with padblock_back [of b sz] show ?thesis by auto
qed

theorem padblock_spec_witness:
  "\<exists>b' fr. padblock [block_of [1, 2, 3]] 80 = Some ([b'], fr) \<and> blen b' = 83 \<and> drop 80 (bdata b') = [1, 2, 3]"
proof -
  have ok: "chain_ok [block_of [1, 2, 3]]" by (simp add: block_simps block_of_ok)
  have l: "blen (block_of [1, 2, 3]) = 3" by (simp add: blen_bdata block_of_ok)
  from padblock_spec [OF ok, of 80] show ?thesis by (auto simp: block_of_ok l)
qed

text \<open>
  adjustblock makes the data of a block that was not allocated at interrupt level exactly
  \<open>len\<close> bytes, cut off or extended with zeros, whether or not it still fits the block.
\<close>

theorem adjustblock_spec:
  assumes "block_ok b" and "0 \<le> len" and "b_flag b AND BINTR = 0"
  shows "\<exists>nb fr ia'. adjustblock ia mem [b] len = Some ([nb], fr, ia') \<and> block_ok nb \<and>
    bdata nb = take (nat len) (bdata b @ replicate (nat len) 0)"
  by (rule adjustblock_data [OF assms])

theorem adjustblock_spec_witness:
  "\<forall>ia mem. \<exists>nb fr ia'. adjustblock ia mem [block_of [1, 2, 3]] 5 = Some ([nb], fr, ia') \<and> bdata nb = [1, 2, 3, 0, 0]"
proof (intro allI)
  fix ia mem
  have "b_flag (block_of [1, 2, 3]) AND BINTR = 0" by (simp add: block_of_def)
  from adjustblock_spec [OF block_of_ok(1) _ this, of 5 ia mem]
  show "\<exists>nb fr ia'. adjustblock ia mem [block_of [1, 2, 3]] 5 = Some ([nb], fr, ia') \<and> bdata nb = [1, 2, 3, 0, 0]"
    by (auto simp: block_of_ok numeral_eq_Suc)
qed

text \<open>
  Memory copied into a chain of blocks by mem2bl and out of it by bl2mem is the same
  memory, and a shorter read leaves the rest in the chain: no byte is lost, repeated or moved
  outside a block, whatever the length, and no block is longer than Maxatomic.
\<close>

theorem bl2mem_mem2bl:
  "\<exists>bs. mem2bl p (int (length p)) = Some bs \<and> chain_ok bs \<and> list_all (\<lambda>b. blen b \<le> Maxatomic) bs \<and>
    (\<exists>fr. bl2mem bs (int (length p)) = Some (p, [], fr)) \<and>
    (\<exists>r fr. bl2mem bs (int k) = Some (take k p, r, fr) \<and> chain_data r = drop k p)"
proof -
  from mem2bl_data [of "int (length p)" p] obtain bs where bs: "mem2bl p (int (length p)) = Some bs"
    "chain_ok bs" "chain_data bs = p" "list_all (\<lambda>b. blen b \<le> Maxatomic) bs" by auto
  with bl2mem_all [OF bs(2), of "int (length p)"] bl2mem_data [OF bs(2), of "int k"] show ?thesis
    by auto
qed

text \<open>
  The account of interrupt-level memory is exact: however allocations, refusals, changes to
  blocks and frees interleave, \<open>ialloc.bytes\<close> is the memory of the live blocks that iallocb
  gave out (and never negative); and iallocb refuses as soon as it exceeds the configured limit.
\<close>

theorem ialloc_accounting:
  assumes "ialloc_reach conf (ia, live)"
  shows "ia_bytes ia = accounted live \<and> 0 \<le> ia_bytes ia \<and>
    (ia_bytes ia > conf \<longrightarrow> (\<forall>mem sz b ia'. iallocb ia mem sz \<noteq> Some (Some b, ia')))"
proof -
  from ialloc_reach_account [OF assms] have a: "ia_bytes ia = accounted live" "ia_conf ia = conf" by auto
  then have "0 \<le> ia_bytes ia" by (simp add: accounted_def blockalloclen_nonneg)
  moreover have "ia_bytes ia > conf \<longrightarrow> (\<forall>mem sz b ia'. iallocb ia mem sz \<noteq> Some (Some b, ia'))"
    using a(2) by (auto dest: iallocb_cases)
  ultimately show ?thesis using a by blast
qed

theorem ialloc_accounting_witness:
  "\<exists>ia b. ialloc_reach 50 (ia, [b]) \<and> ia_bytes ia = 80 \<and> (\<forall>mem sz c ia'. iallocb ia mem sz \<noteq> Some (Some c, ia'))"
proof -
  let ?ia = "\<lparr>ia_bytes = 0, ia_conf = 50, ia_m1 = 0, ia_m2 = 0, ia_mp = 0\<rparr>"
  obtain c where c: "allocb0 True 5 = Some (Some c)" "balloc c = 72 + roundup 5 8"
    using allocb0_ok [of 5] by auto
  have e: "balloc c = 80" using c(2) by (simp add: roundup_eq)
  let ?b = "c\<lparr>b_flag := BINTR\<rparr>"
  have "iallocb ?ia True 5 = Some (Some ?b, ?ia\<lparr>ia_bytes := 80\<rparr>)"
    using c(1) e by (simp add: iallocb_def)
  from ialloc_reach.step [OF ialloc_reach.init ialloc_step.alloc [OF this]]
  have r: "ialloc_reach 50 (?ia\<lparr>ia_bytes := 80\<rparr>, [?b])" .
  from r ialloc_accounting [OF r] show ?thesis by (intro exI conjI) auto
qed

end
