(* ===== verification/Qio.thy ===== *)
theory Qio
  imports Block
begin

text \<open>
  The IO queues of \<open>port/qio.c\<close>. The blocks from \<open>bfirst\<close> along \<open>next\<close> are a list, whose last
  element is \<open>blast\<close>. Each definition is what a call does while it holds the queue's lock; a
  call that releases it in between (qread, qwrite) is given what the other processes do to the
  queue meanwhile. Waking a process and calling the kick or bypass routine are events, in the
  order of the calls; going to sleep is an outcome. Blocks passed to \<open>freeb\<close> are returned.
\<close>

subsection \<open>Data\<close>

text \<open>The state bits, by number: \<open>Qstarve = (1<<0)\<close> and so on.\<close>

definition Qstarve :: nat where "Qstarve = 0"
definition Qmsg :: nat where "Qmsg = 1"
definition Qclosed :: nat where "Qclosed = 2"
definition Qflow :: nat where "Qflow = 3"
definition Qcoalesce :: nat where "Qcoalesce = 4"
definition Qkick :: nat where "Qkick = 5"

lemmas flag_defs = Qstarve_def Qmsg_def Qclosed_def Qflow_def Qcoalesce_def Qkick_def

record queue =
  q_blocks :: chain
  q_len :: int
  q_dlen :: int
  q_limit :: int
  q_inilim :: int
  q_state :: u32
  q_noblock :: bool
  q_eof :: int
  q_kick :: bool
  q_bypass :: bool
  q_err :: bytes

definition has :: "queue \<Rightarrow> nat \<Rightarrow> bool" where
  "has q f = bit (q_state q) f"

definition setf :: "nat \<Rightarrow> queue \<Rightarrow> queue" where
  "setf f q = q\<lparr>q_state := set_bit f (q_state q)\<rparr>"

definition clearf :: "nat \<Rightarrow> queue \<Rightarrow> queue" where
  "clearf f q = q\<lparr>q_state := unset_bit f (q_state q)\<rparr>"

datatype event = Kick | Bypass block | Wakeup_rr | Wakeup_wr

datatype 'a outcome = Returns 'a | Errors bytes | Sleeps

text \<open>\<open>Ehungup\<close> of \<open>error.h\<close>.\<close>

definition Ehungup :: bytes where
  "Ehungup = map of_char ''i/o on hungup channel''"

definition ERRMAX :: nat where "ERRMAX = 128"

subsection \<open>Opening, and what the queue says of itself\<close>

definition qopen :: "int \<Rightarrow> u32 \<Rightarrow> bool \<Rightarrow> queue" where
  "qopen limit msg kick = setf Qstarve
     \<lparr>q_blocks = [], q_len = 0, q_dlen = 0, q_limit = limit, q_inilim = limit, q_state = msg,
      q_noblock = False, q_eof = 0, q_kick = kick, q_bypass = False, q_err = []\<rparr>"

definition qbypass :: "queue" where
  "qbypass =
     \<lparr>q_blocks = [], q_len = 0, q_dlen = 0, q_limit = 0, q_inilim = 0, q_state = 0,
      q_noblock = False, q_eof = 0, q_kick = False, q_bypass = True, q_err = []\<rparr>"

definition notempty :: "queue \<Rightarrow> bool" where
  "notempty q = (has q Qclosed \<or> q_blocks q \<noteq> [])"

definition qnotfull :: "queue \<Rightarrow> bool" where
  "qnotfull q = (q_len q < q_limit q \<or> has q Qclosed)"

definition qisclosed :: "queue \<Rightarrow> bool" where
  "qisclosed q = has q Qclosed"

definition qlen :: "queue \<Rightarrow> int" where
  "qlen q = q_dlen q"

definition qwindow :: "queue \<Rightarrow> int" where
  "qwindow q = (let l = q_limit q - q_len q in if l < 0 then 0 else l)"

definition qcanread :: "queue \<Rightarrow> bool" where
  "qcanread q = (q_blocks q \<noteq> [])"

definition qfull :: "queue \<Rightarrow> bool" where
  "qfull q = has q Qflow"

definition qsetlimit :: "queue \<Rightarrow> int \<Rightarrow> queue" where
  "qsetlimit q limit = q\<lparr>q_limit := limit\<rparr>"

definition qnoblock :: "queue \<Rightarrow> bool \<Rightarrow> queue" where
  "qnoblock q onoff = q\<lparr>q_noblock := onoff\<rparr>"

subsection \<open>Moving blocks in and out\<close>

definition qaddlist :: "queue \<Rightarrow> chain \<Rightarrow> queue" where
  "qaddlist q bs = q\<lparr>q_blocks := q_blocks q @ bs, q_len := q_len q + blockalloclen bs,
     q_dlen := q_dlen q + blocklen bs\<rparr>"

definition qremove :: "queue \<Rightarrow> block option \<times> queue" where
  "qremove q = (case q_blocks q of
      [] \<Rightarrow> (None, q)
    | b # bs \<Rightarrow> (Some b, q\<lparr>q_blocks := bs, q_dlen := q_dlen q - blen b, q_len := q_len q - balloc b\<rparr>))"

definition qputback :: "queue \<Rightarrow> block \<Rightarrow> queue" where
  "qputback q b = q\<lparr>q_blocks := b # q_blocks q, q_len := q_len q + balloc b, q_dlen := q_dlen q + blen b\<rparr>"

text \<open>\<open>if writer flow controlled, restart\<close>, as every operation that removes data ends.\<close>

definition restart :: "queue \<Rightarrow> queue \<times> event list" where
  "restart q =
     (if has q Qflow \<and> q_len q < q_limit q sdiv 2 then (clearf Qflow q, [Wakeup_wr]) else (q, []))"

definition qwakeup_iunlock :: "queue \<Rightarrow> queue \<times> event list" where
  "qwakeup_iunlock q =
     (if has q Qflow \<and> q_len q < q_limit q sdiv 2
      then (clearf Qflow q, (if q_kick q then [Kick] else []) @ [Wakeup_wr]) else (q, []))"

text \<open>\<open>if(q->state & Qstarve)\<close>, as every operation that adds data ends.\<close>

definition feed :: "queue \<Rightarrow> queue \<times> event list" where
  "feed q = (if has q Qstarve then (clearf Qstarve q, [Wakeup_rr]) else (q, []))"

definition qget :: "queue \<Rightarrow> block option \<times> queue \<times> event list" where
  "qget q = (case q_blocks q of
      [] \<Rightarrow> (None, setf Qstarve q, [])
    | b # bs \<Rightarrow>
        let q = q\<lparr>q_blocks := bs, q_len := q_len q - balloc b, q_dlen := q_dlen q - blen b\<rparr> in
        (Some b, restart q))"

function qdiscard_loop :: "queue \<Rightarrow> int \<Rightarrow> int \<Rightarrow> int \<times> queue \<times> chain" where
  "qdiscard_loop q len sofar =
     (if sofar < len then
        (case q_blocks q of
          [] \<Rightarrow> (sofar, q, [])
        | b # bs \<Rightarrow>
            let n = blen b in
            if n \<le> len - sofar then
              let (r, q, fr) = qdiscard_loop
                (q\<lparr>q_blocks := bs, q_len := q_len q - balloc b, q_dlen := q_dlen q - blen b\<rparr>) len (sofar + n)
              in (r, q, b # fr)
            else
              let n = len - sofar in
              (sofar + n, q\<lparr>q_blocks := b\<lparr>b_rp := b_rp b + n\<rparr> # bs, q_dlen := q_dlen q - n\<rparr>, []))
      else (sofar, q, []))"
  by pat_completeness auto
termination
  by (relation "measure (\<lambda>(q, _, _). length (q_blocks q))") auto

declare qdiscard_loop.simps [simp del]

definition qdiscard :: "queue \<Rightarrow> int \<Rightarrow> int \<times> queue \<times> event list \<times> chain" where
  "qdiscard q len =
     (let (sofar, q, fr) = qdiscard_loop q len 0; (q, ev) = restart q in (sofar, q, ev, fr))"

text \<open>The loop of qconsume over empty blocks; \<open>tofree\<close> is the list to be freed at the end.\<close>

function qconsume_skip :: "queue \<Rightarrow> chain \<Rightarrow> queue \<times> chain" where
  "qconsume_skip q tofree = (case q_blocks q of
      [] \<Rightarrow> (q, tofree)
    | b # bs \<Rightarrow>
        if blen b > 0 then (q, tofree)
        else qconsume_skip (q\<lparr>q_blocks := bs, q_len := q_len q - balloc b\<rparr>) (b # tofree))"
  by pat_completeness auto
termination
  by (relation "measure (\<lambda>(q, _). length (q_blocks q))") auto

declare qconsume_skip.simps [simp del]

text \<open>The result, the bytes stored, the queue, the events, the blocks freed.\<close>

definition qconsume :: "queue \<Rightarrow> int \<Rightarrow> (int \<times> bytes \<times> queue \<times> event list \<times> chain) option" where
  "qconsume q len =
     (let (q, tofree) = qconsume_skip q [] in
      case q_blocks q of
        [] \<Rightarrow> Some (-1, [], setf Qstarve q, [], [])
      | b # bs \<Rightarrow> do {
          let n = blen b;
          let len = (if n < len then n else len);
          d \<leftarrow> bget b (b_rp b) len;
          let b = b\<lparr>b_rp := b_rp b + len\<rparr>;
          let q = q\<lparr>q_blocks := b # bs, q_dlen := q_dlen q - len\<rparr>;
          let (q, tofree) =
            (if has q Qmsg \<or> len = n
             then (q\<lparr>q_blocks := bs, q_len := q_len q - balloc b, q_dlen := q_dlen q - blen b\<rparr>, b # tofree)
             else (q, tofree));
          let (q, ev) = restart q;
          Some (len, d, q, ev, tofree)
        })"

text \<open>qpass and qpassnolim from \<open>add buffer to queue\<close> on.\<close>

definition qpass_add :: "queue \<Rightarrow> chain \<Rightarrow> int \<times> queue \<times> event list \<times> chain" where
  "qpass_add q bs =
     (let len = blockalloclen bs;
          dlen = blocklen bs;
          q = q\<lparr>q_blocks := q_blocks q @ bs\<rparr>;
          q = q\<lparr>q_len := q_len q + len, q_dlen := q_dlen q + dlen\<rparr>;
          q = (if q_len q \<ge> q_limit q sdiv 2 then setf Qflow q else q);
          (q, ev) = feed q in
      (len, q, ev, []))"

definition qpass :: "queue \<Rightarrow> chain \<Rightarrow> (int \<times> queue \<times> event list \<times> chain) option" where
  "qpass q bs =
     (if q_len q \<ge> q_limit q then Some (-1, q, [], bs)
      else case bs of
        [] \<Rightarrow> None
      | b # _ \<Rightarrow>
          if has q Qclosed then Some (balloc b, q, [], bs) else Some (qpass_add q bs))"

definition qpassnolim :: "queue \<Rightarrow> chain \<Rightarrow> (int \<times> queue \<times> event list \<times> chain) option" where
  "qpassnolim q bs = (case bs of
      [] \<Rightarrow> None
    | b # _ \<Rightarrow> if has q Qclosed then Some (balloc b, q, [], bs) else Some (qpass_add q bs))"

definition qproduce ::
  "ialloc \<Rightarrow> bool \<Rightarrow> queue \<Rightarrow> bytes \<Rightarrow> int \<Rightarrow> (int \<times> queue \<times> event list \<times> ialloc) option" where
  "qproduce ia mem q p len =
     (if q_len q \<ge> q_limit q then Some (-1, setf Qflow q, [], ia)
      else do {
        (b, ia) \<leftarrow> iallocb ia mem len;
        case b of
          None \<Rightarrow> Some (0, q, [], ia)
        | Some b \<Rightarrow> do {
            d \<leftarrow> mget len p;
            b \<leftarrow> bappend b d;
            let q = q\<lparr>q_blocks := q_blocks q @ [b], q_len := q_len q + balloc b, q_dlen := q_dlen q + blen b\<rparr>;
            let (q, ev) = feed q;
            let q = (if q_len q \<ge> q_limit q then setf Qflow q else q);
            Some (len, q, ev, ia)
          }
      })"

definition pullupqueue :: "queue \<Rightarrow> int \<Rightarrow> (queue \<times> chain) option" where
  "pullupqueue q n = (case q_blocks q of
      [] \<Rightarrow> None
    | b # _ \<Rightarrow>
        if blen b \<ge> n then Some (q, [])
        else do {
          (bs, fr) \<leftarrow> pullupblock (q_blocks q) n;
          Some (q\<lparr>q_blocks := bs\<rparr>, fr)
        })"

text \<open>The two loops of \<open>qcopy\<close>: to the block of the offset, and from \<open>p\<close> in the block \<open>b\<close>.\<close>

fun qcopy_seek :: "chain \<Rightarrow> int \<Rightarrow> int \<Rightarrow> (block \<times> int \<times> int \<times> chain) option" where
  "qcopy_seek [] sofar offset = None"
| "qcopy_seek (b # bs) sofar offset =
     (let n = blen b in
      if sofar + n > offset then Some (b, b_rp b + offset - sofar, n - (offset - sofar), bs)
      else qcopy_seek bs (sofar + n) offset)"

fun qcopy_loop :: "block \<Rightarrow> block \<Rightarrow> int \<Rightarrow> int \<Rightarrow> chain \<Rightarrow> int \<Rightarrow> int \<Rightarrow> block option" where
  "qcopy_loop nb b p n bs len sofar =
     (if sofar < len then do {
        let n = (if n > len - sofar then len - sofar else n);
        d \<leftarrow> bget b p n;
        nb \<leftarrow> bappend nb d;
        case bs of
          [] \<Rightarrow> Some nb
        | c # cs \<Rightarrow> qcopy_loop nb c (b_rp c) (blen c) cs len (sofar + n)
      } else Some nb)"

definition qcopy :: "queue \<Rightarrow> int \<Rightarrow> int \<Rightarrow> block option" where
  "qcopy q len offset = do {
     nb \<leftarrow> allocb len;
     case qcopy_seek (q_blocks q) 0 offset of
       None \<Rightarrow> Some nb
     | Some (b, p, n, bs) \<Rightarrow> qcopy_loop nb b p n bs len 0
   }"

subsection \<open>Reading\<close>

text \<open>\<open>qwait\<close>, up to the sleep: \<^term>\<open>None\<close> is asleep on \<open>rr\<close>, to start over when woken.\<close>

definition qwait :: "queue \<Rightarrow> int option \<times> queue" where
  "qwait q =
     (if q_blocks q \<noteq> [] then (Some 1, q)
      else if has q Qclosed then
        let q = q\<lparr>q_eof := q_eof q + 1\<rparr> in
        if q_eof q > 3 then (Some (-1), q)
        else if q_err q \<noteq> [] \<and> q_err q \<noteq> Ehungup then (Some (-1), q)
        else (Some 0, q)
      else (None, setf Qstarve q))"

definition qbread :: "queue \<Rightarrow> int \<Rightarrow> (block option outcome \<times> queue \<times> event list) option" where
  "qbread q len = (case qwait q of
      (None, q) \<Rightarrow> Some (Sleeps, q, [])
    | (Some r, q) \<Rightarrow>
        if r = 0 then Some (Returns None, q, [])
        else if r = -1 then Some (Errors (q_err q), q, [])
        else (case qremove q of
            (None, _) \<Rightarrow> None
          | (Some b, q) \<Rightarrow> do {
              let n = blen b;
              (nb, q) \<leftarrow>
                (if n > len then do {
                   q \<leftarrow> (if \<not> has q Qmsg then do {
                            let n = n - len;
                            c \<leftarrow> allocb n;
                            d \<leftarrow> bget b (b_rp b + len) n;
                            c \<leftarrow> bappend c d;
                            Some (qputback q c)
                          } else Some q);
                   Some (b\<lparr>b_wp := b_rp b + len\<rparr>, q)
                 } else Some (b, q));
              let (q, ev) = qwakeup_iunlock q;
              Some (Returns (Some nb), q, ev)
            }))"

text \<open>The blocks qread takes when it coalesces; \<open>n\<close> counts their bytes.\<close>

function qread_grab :: "queue \<Rightarrow> int \<Rightarrow> int \<Rightarrow> chain \<times> int \<times> queue" where
  "qread_grab q len n = (case q_blocks q of
      [] \<Rightarrow> ([], n, q)
    | b # bs \<Rightarrow>
        let q = snd (qremove q);
            n = n + blen b in
        (case bs of
          [] \<Rightarrow> ([b], n, q)
        | c # _ \<Rightarrow>
            if n + blen c > len then ([b], n, q)
            else let (r, n, q) = qread_grab q len n in (b # r, n, q)))"
  by pat_completeness auto
termination
  by (relation "measure (\<lambda>(q, _, _). length (q_blocks q))") (auto simp: qremove_def)

declare qread_grab.simps [simp del]

text \<open>
  \<open>qread\<close> until it releases the lock to copy: the chain \<open>first\<close> and the count \<open>n\<close>, and the
  empty blocks freed on the way.
\<close>

function qread_take :: "queue \<Rightarrow> int \<Rightarrow> (chain \<times> int) outcome \<times> queue \<times> chain" where
  "qread_take q len = (case qwait q of
      (None, q) \<Rightarrow> (Sleeps, q, [])
    | (Some r, q') \<Rightarrow>
        if r = 0 then (Returns ([], 0), q', [])
        else if r = -1 then (Errors (q_err q'), q', [])
        else if has q' Qcoalesce then
          (case q_blocks q' of
            [] \<Rightarrow> (Returns ([], 0), q', [])
          | b # _ \<Rightarrow>
              if blen b \<le> 0 then
                let (r, q, fr) = qread_take (snd (qremove q')) len in (r, q, b # fr)
              else let (first, n, q) = qread_grab q' len 0 in (Returns (first, n), q, []))
        else
          (case q_blocks q' of
            [] \<Rightarrow> (Returns ([], 0), q', [])
          | b # _ \<Rightarrow> (Returns ([b], blen b), snd (qremove q'), [])))"
  by pat_completeness auto
termination
  by (relation "measure (\<lambda>(q, _). length (q_blocks q))")
    (auto simp: qwait_def qremove_def Let_def split: if_splits)

declare qread_take.simps [simp del]

text \<open>From taking the lock again on: \<open>rest\<close> is what \<open>bl2mem\<close> left over.\<close>

definition qread_end :: "queue \<Rightarrow> chain \<Rightarrow> int \<Rightarrow> int \<times> queue \<times> event list \<times> chain" where
  "qread_end q rest n =
     (let (n, q, fr) = (case rest of
          [] \<Rightarrow> (n, q, [])
        | b # _ \<Rightarrow>
            if has q Qmsg then (n - blen b, q, [b])
            else (n - blen b, qputback q b, []));
          (q, ev) = qwakeup_iunlock q in
      (n, q, ev, fr))"

text \<open>
  \<open>qread\<close>: the value returned, the bytes stored, the queue, the events, the blocks freed.
  \<open>env\<close> is what the others do to the queue while the bytes are copied. The \<^term>\<open>Returns\<close>
  with an empty chain is the return on a closed queue, before the copy.
\<close>

definition qread ::
  "(queue \<Rightarrow> queue) \<Rightarrow> queue \<Rightarrow> int \<Rightarrow> ((int \<times> bytes) outcome \<times> queue \<times> event list \<times> chain) option" where
  "qread env q len = (case qread_take q len of
      (Sleeps, q, fr) \<Rightarrow> Some (Sleeps, q, [], fr)
    | (Errors e, q, fr) \<Rightarrow> Some (Errors e, q, [], fr)
    | (Returns (first, n), q, fr) \<Rightarrow>
        if first = [] then Some (Returns (0, []), q, [], fr)
        else do {
          (d, rest, fr2) \<leftarrow> bl2mem first len;
          let (n, q, ev, fr3) = qread_end (env q) rest n;
          Some (Returns (n, d), q, ev, fr @ fr2 @ fr3)
        })"

subsection \<open>Writing\<close>

text \<open>\<open>qbwrite\<close> until it releases the lock, with the wakeups that follow.\<close>

definition qbwrite_put :: "queue \<Rightarrow> block \<Rightarrow> int outcome \<times> queue \<times> event list \<times> chain" where
  "qbwrite_put q b =
     (let n = blen b in
      if q_bypass q then (Returns n, q, [Bypass b], [])
      else if has q Qclosed then (Errors (q_err q), q, [], [b])
      else if q_len q \<ge> q_limit q \<and> q_noblock q then (Returns n, q, [], [b])
      else
        let q = q\<lparr>q_blocks := q_blocks q @ [b], q_len := q_len q + balloc b, q_dlen := q_dlen q + n\<rparr>;
            (q, wake) = feed q in
        (Returns n, q, (if q_kick q \<and> (wake \<noteq> [] \<or> has q Qkick) then [Kick] else []) @ wake, []))"

text \<open>
  The flow control loop at the end of \<open>qbwrite\<close>, once around: \<^term>\<open>True\<close> if the writer goes
  on, \<^term>\<open>False\<close> if it sleeps on \<open>wr\<close> (until \<open>qnotfull\<close>, and then comes here again). A
  bypassed queue and a refused block return before it.
\<close>

definition qbwrite_wait :: "queue \<Rightarrow> bool \<times> queue" where
  "qbwrite_wait q = (if q_noblock q \<or> qnotfull q then (True, q) else (False, setf Qflow q))"

text \<open>
  \<open>qwrite\<close>: \<open>env\<close> is what happens to the queue between two blocks, the writer's own waiting
  included. The blocks queued before an error stay queued.
\<close>

function qwrite_loop ::
  "(queue \<Rightarrow> queue) \<Rightarrow> queue \<Rightarrow> bytes \<Rightarrow> int \<Rightarrow> int \<Rightarrow> (int outcome \<times> queue \<times> event list \<times> chain) option" where
  "qwrite_loop env q p len sofar = do {
     let n = len - sofar;
     let n = (if n > Maxatomic then Maxatomic else n);
     b \<leftarrow> allocb n;
     d \<leftarrow> mget n (drop (nat sofar) p);
     b \<leftarrow> bappend b d;
     case qbwrite_put q b of
       (Returns _, q, ev, fr) \<Rightarrow>
         let q = env q in
         if sofar + n < len \<and> \<not> has q Qmsg then do {
           (r, q, ev2, fr2) \<leftarrow> qwrite_loop env q p len (sofar + n);
           Some (r, q, ev @ ev2, fr @ fr2)
         } else Some (Returns len, q, ev, fr)
     | (Errors e, q, ev, fr) \<Rightarrow> Some (Errors e, q, ev, fr)
     | (Sleeps, q, ev, fr) \<Rightarrow> Some (Sleeps, q, ev, fr)
   }"
  by pat_completeness auto
termination
  by (relation "measure (\<lambda>(_, _, _, len, sofar). nat (len - sofar))")
    (auto simp: Maxatomic_def split: if_splits)

declare qwrite_loop.simps [simp del]

definition qwrite ::
  "(queue \<Rightarrow> queue) \<Rightarrow> queue \<Rightarrow> bytes \<Rightarrow> int \<Rightarrow> (int outcome \<times> queue \<times> event list \<times> chain) option" where
  "qwrite env q p len = qwrite_loop env q p len 0"

text \<open>
  \<open>qiwrite\<close>, from \<open>sofar\<close> on; \<open>mem\<close> says for each position whether \<open>malloc\<close> finds memory there,
  and \<open>wake\<close> is \<open>dowakeup\<close>, which stays set once it is.
\<close>

function qiwrite_loop ::
  "ialloc \<Rightarrow> (int \<Rightarrow> bool) \<Rightarrow> queue \<Rightarrow> bytes \<Rightarrow> int \<Rightarrow> int \<Rightarrow> bool \<Rightarrow>
   (int \<times> queue \<times> event list \<times> ialloc) option" where
  "qiwrite_loop ia mem q p len sofar wake = do {
     let n = len - sofar;
     let n = (if n > Maxatomic then Maxatomic else n);
     (b, ia) \<leftarrow> iallocb ia (mem sofar) n;
     case b of
       None \<Rightarrow> Some (sofar, q, [], ia)
     | Some b \<Rightarrow> do {
         d \<leftarrow> mget n (drop (nat sofar) p);
         b \<leftarrow> bappend b d;
         if q_dlen q \<ge> 16 * 1024 then Some (sofar, q, [], freeb b ia)
         else do {
           let q = q\<lparr>q_blocks := q_blocks q @ [b], q_len := q_len q + balloc b, q_dlen := q_dlen q + n\<rparr>;
           let wake = (wake \<or> has q Qstarve);
           let q = fst (feed q);
           let ev = (if wake then (if q_kick q then [Kick] else []) @ [Wakeup_rr] else []);
           if sofar + n < len \<and> \<not> has q Qmsg then do {
             (r, q, ev2, ia) \<leftarrow> qiwrite_loop ia mem q p len (sofar + n) wake;
             Some (r, q, ev @ ev2, ia)
           } else Some (sofar + n, q, ev, ia)
         }
       }
   }"
  by pat_completeness auto
termination
  by (relation "measure (\<lambda>(_, _, _, _, len, sofar, _). nat (len - sofar))")
    (auto simp: Maxatomic_def split: if_splits)

declare qiwrite_loop.simps [simp del]

definition qiwrite ::
  "ialloc \<Rightarrow> (int \<Rightarrow> bool) \<Rightarrow> queue \<Rightarrow> bytes \<Rightarrow> int \<Rightarrow> (int \<times> queue \<times> event list \<times> ialloc) option" where
  "qiwrite ia mem q p len = qiwrite_loop ia mem q p len 0 False"

subsection \<open>Closing\<close>

definition qclose :: "queue \<Rightarrow> queue \<times> event list \<times> chain" where
  "qclose q =
     (let bfirst = q_blocks q;
          q = clearf Qstarve (clearf Qflow (setf Qclosed q)) in
      (q\<lparr>q_err := Ehungup, q_blocks := [], q_len := 0, q_dlen := 0, q_noblock := False\<rparr>,
       [Wakeup_rr, Wakeup_wr], bfirst))"

definition qhangup :: "queue \<Rightarrow> cstr \<Rightarrow> queue \<times> event list" where
  "qhangup q msg =
     (let q = setf Qclosed q in
      (q\<lparr>q_err := (if cstr_bytes msg = [] then Ehungup else take (ERRMAX - 1) (cstr_bytes msg))\<rparr>,
       [Wakeup_rr, Wakeup_wr]))"

definition qreopen :: "queue \<Rightarrow> queue" where
  "qreopen q = (setf Qstarve (clearf Qclosed q))\<lparr>q_eof := 0, q_limit := q_inilim q\<rparr>"

definition qflush :: "queue \<Rightarrow> queue \<times> event list \<times> chain" where
  "qflush q = (q\<lparr>q_blocks := [], q_len := 0, q_dlen := 0\<rparr>, [Wakeup_wr], q_blocks q)"

subsection \<open>Flags\<close>

named_theorems queue_simps \<open>state bits and the fields the operations leave alone\<close>

lemma has_setf [queue_simps]: "f < 32 \<Longrightarrow> has (setf f q) g = (g = f \<or> has q g)"
  by (auto simp: has_def setf_def bit_set_bit_iff possible_bit_word)

lemma has_clearf [queue_simps]: "has (clearf f q) g = (g \<noteq> f \<and> has q g)"
  by (auto simp: has_def clearf_def bit_unset_bit_iff)

lemma setf_fields [queue_simps]:
  "q_blocks (setf f q) = q_blocks q" "q_len (setf f q) = q_len q" "q_dlen (setf f q) = q_dlen q"
  "q_limit (setf f q) = q_limit q" "q_noblock (setf f q) = q_noblock q" "q_err (setf f q) = q_err q"
  "q_bypass (setf f q) = q_bypass q" "q_kick (setf f q) = q_kick q" "q_eof (setf f q) = q_eof q"
  by (simp_all add: setf_def)

lemma clearf_fields [queue_simps]:
  "q_blocks (clearf f q) = q_blocks q" "q_len (clearf f q) = q_len q" "q_dlen (clearf f q) = q_dlen q"
  "q_limit (clearf f q) = q_limit q" "q_noblock (clearf f q) = q_noblock q" "q_err (clearf f q) = q_err q"
  "q_bypass (clearf f q) = q_bypass q" "q_kick (clearf f q) = q_kick q" "q_eof (clearf f q) = q_eof q"
  by (simp_all add: clearf_def)

text \<open>A bit of a queue depends on its \<open>state\<close> field only.\<close>

lemma has_update [queue_simps]:
  "has (q\<lparr>q_blocks := bs\<rparr>) f = has q f" "has (q\<lparr>q_len := l\<rparr>) f = has q f" "has (q\<lparr>q_dlen := l\<rparr>) f = has q f"
  "has (q\<lparr>q_eof := l\<rparr>) f = has q f" "has (q\<lparr>q_err := e\<rparr>) f = has q f" "has (q\<lparr>q_noblock := n\<rparr>) f = has q f"
  "has (q\<lparr>q_limit := l\<rparr>) f = has q f"
  by (simp_all add: has_def)

lemma flag_facts [queue_simps]:
  "Qstarve < 32" "Qmsg < 32" "Qclosed < 32" "Qflow < 32" "Qcoalesce < 32" "Qkick < 32"
  "Qstarve \<noteq> Qclosed" "Qclosed \<noteq> Qstarve" "Qstarve \<noteq> Qflow" "Qflow \<noteq> Qstarve" "Qclosed \<noteq> Qflow" "Qflow \<noteq> Qclosed"
  "Qmsg \<noteq> Qstarve" "Qstarve \<noteq> Qmsg" "Qmsg \<noteq> Qflow" "Qflow \<noteq> Qmsg" "Qmsg \<noteq> Qclosed" "Qclosed \<noteq> Qmsg"
  "Qcoalesce \<noteq> Qstarve" "Qstarve \<noteq> Qcoalesce" "Qcoalesce \<noteq> Qflow" "Qcoalesce \<noteq> Qclosed"
  "Qkick \<noteq> Qstarve" "Qkick \<noteq> Qflow" "Qkick \<noteq> Qclosed"
  by (simp_all add: flag_defs)

subsection \<open>The counters and the data\<close>

text \<open>The queue's invariant: sound blocks, and counters that say what they should.\<close>

definition queue_ok :: "queue \<Rightarrow> bool" where
  "queue_ok q = (chain_ok (q_blocks q) \<and> q_len q = blockalloclen (q_blocks q) \<and> q_dlen q = blocklen (q_blocks q))"

definition qdata :: "queue \<Rightarrow> bytes" where
  "qdata q = chain_data (q_blocks q)"

lemma queue_ok_flags [queue_simps]:
  "queue_ok (setf f q) = queue_ok q" "queue_ok (clearf f q) = queue_ok q"
  "qdata (setf f q) = qdata q" "qdata (clearf f q) = qdata q"
  "queue_ok (q\<lparr>q_eof := n\<rparr>) = queue_ok q" "qdata (q\<lparr>q_eof := n\<rparr>) = qdata q"
  "queue_ok (q\<lparr>q_err := e\<rparr>) = queue_ok q" "qdata (q\<lparr>q_err := e\<rparr>) = qdata q"
  "queue_ok (q\<lparr>q_state := s\<rparr>) = queue_ok q" "qdata (q\<lparr>q_state := s\<rparr>) = qdata q"
  by (simp_all add: queue_ok_def qdata_def queue_simps)

lemma restart_ok [queue_simps]:
  "queue_ok (fst (restart q)) = queue_ok q" "qdata (fst (restart q)) = qdata q"
  "q_blocks (fst (restart q)) = q_blocks q" "q_len (fst (restart q)) = q_len q"
  "q_limit (fst (restart q)) = q_limit q"
  "queue_ok (fst (qwakeup_iunlock q)) = queue_ok q" "qdata (fst (qwakeup_iunlock q)) = qdata q"
  "q_blocks (fst (qwakeup_iunlock q)) = q_blocks q" "q_len (fst (qwakeup_iunlock q)) = q_len q"
  "q_limit (fst (qwakeup_iunlock q)) = q_limit q"
  by (simp_all add: restart_def qwakeup_iunlock_def queue_simps)

lemma feed_ok [queue_simps]:
  "queue_ok (fst (feed q)) = queue_ok q" "qdata (fst (feed q)) = qdata q"
  "q_blocks (fst (feed q)) = q_blocks q" "q_len (fst (feed q)) = q_len q" "q_limit (fst (feed q)) = q_limit q"
  by (simp_all add: feed_def queue_simps)

lemma append_ok:
  "queue_ok q \<Longrightarrow> chain_ok bs \<Longrightarrow>
   queue_ok (q\<lparr>q_blocks := q_blocks q @ bs, q_len := q_len q + blockalloclen bs, q_dlen := q_dlen q + blocklen bs\<rparr>)"
  by (simp add: queue_ok_def block_simps blocklen_append blockalloclen_append)

lemma qremove_ok:
  assumes "queue_ok q" "q_blocks q = b # bs"
  shows "qremove q = (Some b, snd (qremove q))" "queue_ok (snd (qremove q))" "q_blocks (snd (qremove q)) = bs"
    "block_ok b" "qdata q = bdata b @ qdata (snd (qremove q))"
  using assms by (simp_all add: qremove_def queue_ok_def qdata_def block_simps)

lemma qputback_ok:
  assumes "queue_ok q" "block_ok b"
  shows "queue_ok (qputback q b)" "qdata (qputback q b) = bdata b @ qdata q"
  using assms by (simp_all add: qputback_def queue_ok_def qdata_def block_simps)

lemma queue_dlen: "queue_ok q \<Longrightarrow> q_dlen q = int (length (qdata q))"
  by (simp add: queue_ok_def qdata_def blocklen_data)

lemma queue_nonneg: "queue_ok q \<Longrightarrow> 0 \<le> q_len q \<and> 0 \<le> q_dlen q"
  by (simp add: queue_ok_def blockalloclen_nonneg blocklen_nonneg)

subsection \<open>Removing data\<close>

lemma qget_ok:
  assumes "queue_ok q" "qget q = (r, q', ev)"
  shows "queue_ok q' \<and> qdata q = (case r of None \<Rightarrow> [] | Some b \<Rightarrow> bdata b) @ qdata q' \<and>
    (case r of None \<Rightarrow> q_blocks q = [] | Some b \<Rightarrow> block_ok b)"
proof (cases "q_blocks q")
  case Nil
  then show ?thesis using assms by (auto simp: qget_def queue_simps qdata_def block_simps)
next
  case (Cons b bs)
  let ?q = "q\<lparr>q_blocks := bs, q_len := q_len q - balloc b, q_dlen := q_dlen q - blen b\<rparr>"
  have "queue_ok ?q" "block_ok b" "qdata q = bdata b @ qdata ?q"
    using assms(1) Cons by (auto simp: queue_ok_def qdata_def block_simps)
  moreover have "q' = fst (restart ?q)" "r = Some b" using assms(2) Cons by (auto simp: qget_def Let_def)
  ultimately show ?thesis by (simp add: queue_simps)
qed

lemma qdiscard_loop_ok:
  "queue_ok q \<Longrightarrow> 0 \<le> sofar \<Longrightarrow> sofar \<le> len \<Longrightarrow>
   \<exists>q' fr. qdiscard_loop q len sofar = (min len (sofar + q_dlen q), q', fr) \<and> queue_ok q' \<and>
     qdata q' = drop (nat (len - sofar)) (qdata q) \<and> q_state q' = q_state q \<and> q_limit q' = q_limit q \<and>
     q_len q' \<le> q_len q"
proof (induction q len sofar rule: qdiscard_loop.induct)
  case (1 q len sofar)
  show ?case
  proof (cases "sofar < len")
    case False
    then show ?thesis using 1(2,4) queue_nonneg [OF 1(2)] by (subst qdiscard_loop.simps) simp
  next
    case lt: True
    show ?thesis
    proof (cases "q_blocks q")
      case Nil
      then show ?thesis using 1(2) lt
        by (subst qdiscard_loop.simps) (simp add: queue_ok_def qdata_def block_simps)
    next
      case (Cons b bs)
      let ?q = "q\<lparr>q_blocks := bs, q_len := q_len q - balloc b, q_dlen := q_dlen q - blen b\<rparr>"
      have ok: "queue_ok ?q" "block_ok b" and d: "qdata q = bdata b @ qdata ?q"
        using 1(2) Cons by (auto simp: queue_ok_def qdata_def block_simps)
      then have i: "blen b = int (length (bdata b))" by (simp add: blen_bdata)
      show ?thesis
      proof (cases "blen b \<le> len - sofar")
        case True
        then have "0 \<le> sofar + blen b" "sofar + blen b \<le> len" using 1(3) i by auto
        with 1(1) [OF lt Cons refl True] ok(1) obtain q' fr where
          "qdiscard_loop ?q len (sofar + blen b) = (min len (sofar + blen b + q_dlen ?q), q', fr)" "queue_ok q'"
          "qdata q' = drop (nat (len - (sofar + blen b))) (qdata ?q)" "q_state q' = q_state q"
          "q_limit q' = q_limit q" "q_len q' \<le> q_len ?q" by auto
        moreover have "drop (nat (len - sofar)) (qdata q) = drop (nat (len - (sofar + blen b))) (qdata ?q)"
        proof -
          have "nat (len - sofar) - length (bdata b) = nat (len - (sofar + blen b))"
            "length (bdata b) \<le> nat (len - sofar)" using True i by linarith+
          then show ?thesis unfolding d by simp
        qed
        moreover have "q_len ?q \<le> q_len q" by (simp add: balloc_def)
        ultimately show ?thesis
          using True lt Cons by (subst qdiscard_loop.simps) (auto simp: Let_def)
      next
        case False
        then have k: "0 \<le> len - sofar" "len - sofar \<le> blen b" using lt by auto
        note c = consume_ok [OF ok(2) k]
        have "q_dlen q \<ge> blen b" using 1(2) Cons blocklen_nonneg [of bs]
          by (simp add: queue_ok_def block_simps)
        then show ?thesis
          using False lt Cons ok c d k i 1(2)
          by (subst qdiscard_loop.simps) (simp add: Let_def queue_ok_def qdata_def block_simps)
      qed
    qed
  qed
qed

lemma qdiscard_data:
  assumes "queue_ok q" "0 \<le> len"
  shows "\<exists>q' ev fr. qdiscard q len = (min len (q_dlen q), q', ev, fr) \<and> queue_ok q' \<and>
    qdata q' = drop (nat len) (qdata q)"
proof -
  from qdiscard_loop_ok [OF assms(1), of 0 len] assms(2) obtain q1 fr where q1:
    "qdiscard_loop q len 0 = (min len (q_dlen q), q1, fr)" "queue_ok q1" "qdata q1 = drop (nat len) (qdata q)" by auto
  obtain q2 ev where r: "restart q1 = (q2, ev)" by fastforce
  have "queue_ok q2" "qdata q2 = qdata q1" using restart_ok(1,2) [of q1] q1(2) by (simp_all add: r)
  then show ?thesis using q1 r by (simp add: qdiscard_def)
qed

lemma qconsume_skip_ok:
  "queue_ok q \<Longrightarrow> \<exists>q' fr. qconsume_skip q tofree = (q', fr) \<and> queue_ok q' \<and> qdata q' = qdata q \<and>
     q_state q' = q_state q \<and> q_limit q' = q_limit q \<and> q_len q' \<le> q_len q \<and>
     (\<forall>b bs. q_blocks q' = b # bs \<longrightarrow> 0 < blen b)"
proof (induction q tofree rule: qconsume_skip.induct)
  case (1 q tofree)
  show ?case
  proof (cases "q_blocks q")
    case Nil
    then show ?thesis using 1(2) by (subst qconsume_skip.simps) simp
  next
    case (Cons b bs)
    show ?thesis
    proof (cases "0 < blen b")
      case True
      then show ?thesis using 1(2) Cons by (subst qconsume_skip.simps) simp
    next
      case False
      let ?q = "q\<lparr>q_blocks := bs, q_len := q_len q - balloc b\<rparr>"
      have b: "block_ok b" using 1(2) Cons by (simp add: queue_ok_def block_simps)
      then have z: "blen b = 0" "bdata b = []" using False blen_bdata [OF b] blen_nonneg [OF b] by auto
      then have "queue_ok ?q" "qdata ?q = qdata q" "q_len ?q \<le> q_len q"
        using 1(2) Cons by (auto simp: queue_ok_def qdata_def block_simps balloc_def)
      with 1(1) [OF Cons False] Cons False show ?thesis
        by (subst qconsume_skip.simps) fastforce
    qed
  qed
qed

text \<open>What qconsume does when there is no data, and when there is.\<close>

lemma qconsume_empty:
  assumes "queue_ok q" "qdata q = []"
  shows "\<exists>q'. qconsume q len = Some (-1, [], q', [], []) \<and> queue_ok q' \<and> q_blocks q' = [] \<and> q_len q' = 0 \<and>
    q_limit q' = q_limit q \<and> q_state q' = set_bit Qstarve (q_state q)"
proof -
  from qconsume_skip_ok [OF assms(1), of "[]"] obtain q' fr where q': "qconsume_skip q [] = (q', fr)"
    "queue_ok q'" "qdata q' = qdata q" "q_limit q' = q_limit q" "q_state q' = q_state q"
    "\<forall>b bs. q_blocks q' = b # bs \<longrightarrow> 0 < blen b" by blast
  have e: "q_blocks q' = []"
  proof (rule ccontr)
    assume "q_blocks q' \<noteq> []"
    then obtain b bs where b: "q_blocks q' = b # bs" by (cases "q_blocks q'") auto
    then have "block_ok b" "0 < blen b" "bdata b = []" using q' assms(2) by (auto simp: queue_ok_def qdata_def block_simps)
    then show False by (simp add: blen_bdata)
  qed
  with q'(2) have "q_len q' = 0" by (simp add: queue_ok_def)
  with q' e show ?thesis by (simp add: qconsume_def queue_simps) (simp add: setf_def)
qed

lemma qconsume_data:
  assumes "queue_ok q" "0 \<le> len" "qdata q \<noteq> []"
  shows "\<exists>m rest q' ev fr. qdata q = m @ rest \<and> m \<noteq> [] \<and>
    qconsume q len = Some (min len (int (length m)), take (nat len) m, q', ev, fr) \<and> queue_ok q' \<and>
    qdata q' = (if has q Qmsg then rest else drop (nat len) m @ rest)"
proof -
  from qconsume_skip_ok [OF assms(1), of "[]"] obtain q1 fr where q1: "qconsume_skip q [] = (q1, fr)"
    "queue_ok q1" "qdata q1 = qdata q" "q_state q1 = q_state q" "\<forall>b bs. q_blocks q1 = b # bs \<longrightarrow> 0 < blen b" by blast
  then obtain b bs where b: "q_blocks q1 = b # bs" using assms(3) by (cases "q_blocks q1") (auto simp: qdata_def block_simps)
  then have ok: "block_ok b" "chain_ok bs" and pos: "0 < blen b" and d: "qdata q = bdata b @ chain_data bs"
    using q1 by (auto simp: queue_ok_def block_simps) (simp add: qdata_def block_simps flip: q1(3))
  then have i: "blen b = int (length (bdata b))" by (simp add: blen_bdata)
  define n where "n = (if blen b < len then blen b else len)"
  have n: "0 \<le> n" "n \<le> blen b" "n = min len (blen b)" using pos assms(2) by (auto simp: n_def)
  have g: "bget b (b_rp b) n = Some (take (nat len) (bdata b))"
    using bget_prefix [OF ok(1) n(1,2)] i by (auto simp: n_def)
  let ?b = "b\<lparr>b_rp := b_rp b + n\<rparr>"
  note c = consume_ok [OF ok(1) n(1,2)]
  let ?qk = "q1\<lparr>q_blocks := ?b # bs, q_dlen := q_dlen q1 - n\<rparr>"
  let ?qr = "q1\<lparr>q_blocks := bs, q_len := q_len q1 - balloc b, q_dlen := q_dlen q1 - blen b\<rparr>"
  have k: "queue_ok ?qk" "qdata ?qk = drop (nat n) (bdata b) @ chain_data bs"
    and r: "queue_ok ?qr" "qdata ?qr = chain_data bs"
    using q1(2) b ok c by (auto simp: queue_ok_def qdata_def block_simps)
  have h: "has q1 f = has q f" for f using q1(4) by (simp add: has_def)
  have e: "q_dlen q1 - n - blen ?b = q_dlen q1 - blen b" by (simp add: c)
  have dn: "drop (nat n) (bdata b) = drop (nat len) (bdata b)" using i by (auto simp: n_def)
  define q2 where "q2 = (if has q Qmsg \<or> n = blen b then ?qr else ?qk)"
  obtain q3 ev where q3: "restart q2 = (q3, ev)" by fastforce
  have "\<exists>fr. qconsume q len = Some (n, take (nat len) (bdata b), q3, ev, fr)"
    using q3 unfolding qconsume_def q1(1) q2_def
    by (auto simp: b g h e c Let_def queue_simps simp flip: n_def split: if_splits)
  moreover have "queue_ok q3" "qdata q3 = qdata q2"
  proof -
    have "queue_ok q2" using k(1) r(1) by (simp add: q2_def)
    then show "queue_ok q3" "qdata q3 = qdata q2" using restart_ok(1,2) [of q2] by (simp_all add: q3)
  qed
  moreover have "qdata q2 = (if has q Qmsg then chain_data bs else drop (nat len) (bdata b) @ chain_data bs)"
    using k(2) r(2) i by (auto simp: q2_def dn n_def)
  ultimately show ?thesis using d n(3) pos i by (intro exI [of _ "bdata b"] exI [of _ "chain_data bs"]) auto
qed

subsection \<open>Copying out of the middle\<close>

lemma bget_middle:
  assumes "block_ok b" "0 \<le> k" "0 \<le> n" "k + n \<le> blen b"
  shows "bget b (b_rp b + k) n = Some (take (nat n) (drop (nat k) (bdata b)))"
proof -
  have k: "k \<le> blen b" using assms by simp
  note c = consume_ok [OF assms(1,2) k]
  have "n \<le> blen (b\<lparr>b_rp := b_rp b + k\<rparr>)" using assms c by simp
  from bget_prefix [OF c(1) assms(3) this] show ?thesis
    by (simp add: c(2)) (simp add: bget_def balloc_def split: if_splits)
qed

lemma qcopy_seek_data:
  "chain_ok bs \<Longrightarrow> 0 \<le> sofar \<Longrightarrow> sofar \<le> offset \<Longrightarrow>
   (case qcopy_seek bs sofar offset of
     None \<Rightarrow> drop (nat (offset - sofar)) (chain_data bs) = []
   | Some (b, p, n, r) \<Rightarrow> block_ok b \<and> chain_ok r \<and> 0 < n \<and> n \<le> blen b \<and> p = b_rp b + (blen b - n) \<and>
       drop (nat (offset - sofar)) (chain_data bs) = drop (nat (blen b - n)) (bdata b) @ chain_data r)"
proof (induction bs arbitrary: sofar)
  case Nil
  then show ?case by (simp add: block_simps)
next
  case (Cons b bs)
  then have b: "block_ok b" "chain_ok bs" and i: "blen b = int (length (bdata b))"
    by (auto simp: block_simps blen_bdata)
  show ?case
  proof (cases "sofar + blen b > offset")
    case True
    then show ?thesis using Cons.prems b i by (auto simp: block_simps Let_def)
  next
    case False
    then have "0 \<le> sofar + blen b" "sofar + blen b \<le> offset" using Cons.prems i by auto
    note ih = Cons.IH [OF b(2) this]
    have "nat (offset - sofar) - length (bdata b) = nat (offset - (sofar + blen b))" "length (bdata b) \<le> nat (offset - sofar)"
      using False i by linarith+
    then have "drop (nat (offset - sofar)) (chain_data (b # bs)) = drop (nat (offset - (sofar + blen b))) (chain_data bs)"
      by (simp add: block_simps)
    with ih False show ?thesis by (auto simp: Let_def split: option.splits)
  qed
qed

lemma qcopy_loop_data:
  "block_ok nb \<Longrightarrow> block_ok b \<Longrightarrow> chain_ok bs \<Longrightarrow> 0 \<le> n \<Longrightarrow> n \<le> blen b \<Longrightarrow> 0 \<le> sofar \<Longrightarrow> sofar \<le> len \<Longrightarrow>
   len - sofar \<le> int (broom nb) \<Longrightarrow>
   \<exists>nb'. qcopy_loop nb b (b_rp b + (blen b - n)) n bs len sofar = Some nb' \<and> block_ok nb' \<and>
     bdata nb' = bdata nb @ take (nat (len - sofar)) (drop (nat (blen b - n)) (bdata b) @ chain_data bs)"
proof (induction bs arbitrary: nb b n sofar)
  case Nil
  then have "0 \<le> blen b - n" by simp
  define m where "m = (if n > len - sofar then len - sofar else n)"
  have m: "0 \<le> m" "(blen b - n) + m \<le> blen b" "m \<le> len - sofar" using Nil by (auto simp: m_def)
  have i: "blen b = int (length (bdata b))" using Nil by (simp add: blen_bdata)
  let ?d = "take (nat m) (drop (nat (blen b - n)) (bdata b))"
  have g: "bget b (b_rp b + (blen b - n)) m = Some ?d"
    using Nil m by (intro bget_middle) auto
  have "length ?d \<le> broom nb" using m Nil by auto
  from bappend_fits [OF Nil(1) this] obtain c where c: "bappend nb ?d = Some c" "block_ok c" "bdata c = bdata nb @ ?d"
    by blast
  have "?d = take (nat (len - sofar)) (drop (nat (blen b - n)) (bdata b))"
    using Nil i by (auto simp: m_def)
  with c g Nil show ?case by (auto simp: block_simps Let_def simp flip: m_def)
next
  case (Cons e bs)
  then have e: "block_ok e" "chain_ok bs" by (auto simp: block_simps)
  define m where "m = (if n > len - sofar then len - sofar else n)"
  have m: "0 \<le> m" "(blen b - n) + m \<le> blen b" "m \<le> len - sofar" using Cons.prems by (auto simp: m_def)
  have i: "blen b = int (length (bdata b))" using Cons.prems by (simp add: blen_bdata)
  let ?d = "take (nat m) (drop (nat (blen b - n)) (bdata b))"
  have g: "bget b (b_rp b + (blen b - n)) m = Some ?d"
    using Cons.prems m by (intro bget_middle) auto
  have ld: "length ?d = nat m" using m i Cons.prems by auto
  then have "length ?d \<le> broom nb" using m Cons.prems by linarith
  from bappend_fits [OF Cons.prems(1) this] ld obtain c where c: "bappend nb ?d = Some c" "block_ok c"
    "bdata c = bdata nb @ ?d" "broom c = broom nb - nat m" by auto
  have room: "len - (sofar + m) \<le> int (broom c)" using c(4) m Cons.prems by linarith
  have "0 \<le> blen e" using e(1) by (rule blen_nonneg)
  then obtain nb' where nb': "qcopy_loop c e (b_rp e) (blen e) bs len (sofar + m) = Some nb'" "block_ok nb'"
    "bdata nb' = bdata c @ take (nat (len - (sofar + m))) (bdata e @ chain_data bs)"
    using Cons.IH [OF c(2) e _ _ _ _ room, of "blen e"] m Cons.prems by auto
  show ?case
  proof (cases "sofar < len")
    case False
    then show ?thesis using Cons.prems by simp
  next
    case True
    have "take (nat (len - sofar)) (drop (nat (blen b - n)) (bdata b) @ bdata e @ chain_data bs) =
      ?d @ take (nat (len - (sofar + m))) (bdata e @ chain_data bs)"
    proof (cases "n > len - sofar")
      case True
      then have "m = len - sofar" by (simp add: m_def)
      then show ?thesis using True i Cons.prems by simp
    next
      case False
      then have "m = n" by (simp add: m_def)
      moreover have "nat (len - sofar) - nat n = nat (len - (sofar + n))" using Cons.prems by linarith
      moreover have "length (bdata b) - nat (blen b - n) = nat n" using i Cons.prems by linarith
      ultimately show ?thesis using False Cons.prems(4) by simp
    qed
    then show ?thesis
      using nb' c(1,3) g True by (simp add: block_simps Let_def flip: m_def)
  qed
qed

lemma qcopy_data:
  assumes "queue_ok q" "0 \<le> len" "0 \<le> offset"
  shows "\<exists>nb. qcopy q len offset = Some nb \<and> block_ok nb \<and> bdata nb = take (nat len) (drop (nat offset) (qdata q))"
proof -
  have ok: "chain_ok (q_blocks q)" using assms(1) by (simp add: queue_ok_def)
  obtain nb where nb: "allocb len = Some nb" "block_ok nb" "bdata nb = []" "len \<le> int (broom nb)"
    using allocb_ok [OF assms(2)] by metis
  show ?thesis
  proof (cases "qcopy_seek (q_blocks q) 0 offset")
    case None
    then show ?thesis using qcopy_seek_data [OF ok order_refl assms(3)] nb
      by (simp add: qcopy_def qdata_def)
  next
    case (Some r)
    obtain b p n bs where r: "r = (b, p, n, bs)" by (cases r) auto
    have s: "block_ok b" "chain_ok bs" "0 < n" "n \<le> blen b" "p = b_rp b + (blen b - n)"
      "drop (nat offset) (chain_data (q_blocks q)) = drop (nat (blen b - n)) (bdata b) @ chain_data bs"
      using qcopy_seek_data [OF ok order_refl assms(3)] Some r by simp_all
    have n: "0 \<le> n" and l: "len - 0 \<le> int (broom nb)" using s(3) nb(4) by simp_all
    from qcopy_loop_data [OF nb(2) s(1,2) n s(4) order_refl assms(2) l] nb(1,3) Some r s(5,6) show ?thesis
      by (simp add: qcopy_def qdata_def del: qcopy_loop.simps)
  qed
qed

subsection \<open>Adding data\<close>

lemma feed_split: "feed q = (q', ev) \<Longrightarrow> queue_ok q' = queue_ok q \<and> qdata q' = qdata q \<and> q_blocks q' = q_blocks q \<and>
   q_len q' = q_len q \<and> q_limit q' = q_limit q"
  using feed_ok [of q] by simp

lemma qadd_ok:
  assumes "queue_ok q" "block_ok b"
  shows "queue_ok (q\<lparr>q_blocks := q_blocks q @ [b], q_len := q_len q + balloc b, q_dlen := q_dlen q + blen b\<rparr>)"
    "qdata (q\<lparr>q_blocks := q_blocks q @ [b], q_len := q_len q + balloc b, q_dlen := q_dlen q + blen b\<rparr>) = qdata q @ bdata b"
  using assms append_ok [of q "[b]"] by (simp_all add: qdata_def block_simps)

lemma qbwrite_put_ok:
  assumes "queue_ok q" "block_ok b" "qbwrite_put q b = (r, q', ev, fr)"
  shows "queue_ok q' \<and> q_limit q' = q_limit q \<and>
    qdata q' = qdata q @ (if q_bypass q \<or> has q Qclosed \<or> q_len q \<ge> q_limit q \<and> q_noblock q then [] else bdata b)"
  using assms qadd_ok [OF assms(1,2)]
  by (auto simp: qbwrite_put_def Let_def dest!: feed_split split: if_splits prod.splits)

lemma qpass_add_ok:
  assumes "queue_ok q" "chain_ok bs" "qpass_add q bs = (r, q', ev, fr)"
  shows "queue_ok q' \<and> qdata q' = qdata q @ chain_data bs \<and> q_limit q' = q_limit q"
proof -
  let ?q = "q\<lparr>q_blocks := q_blocks q @ bs, q_len := q_len q + blockalloclen bs, q_dlen := q_dlen q + blocklen bs\<rparr>"
  have "queue_ok ?q" "qdata ?q = qdata q @ chain_data bs"
    using append_ok [OF assms(1,2)] by (simp_all add: qdata_def block_simps)
  moreover define q2 where "q2 = (if q_len ?q \<ge> q_limit ?q sdiv 2 then setf Qflow ?q else ?q)"
  ultimately have "queue_ok q2" "qdata q2 = qdata q @ chain_data bs" "q_limit q2 = q_limit q"
    by (simp_all add: queue_simps)
  moreover have "feed q2 = (q', ev)"
    using assms(3) unfolding q2_def
    by (cases "q_limit q sdiv 2 \<le> q_len q + blockalloclen bs")
      (auto simp: qpass_add_def Let_def split: prod.splits)
  ultimately show ?thesis by (auto dest!: feed_split)
qed

lemma qpass_ok:
  assumes "queue_ok q" "chain_ok bs" "qpass q bs = Some (r, q', ev, fr) \<or> qpassnolim q bs = Some (r, q', ev, fr)"
  shows "queue_ok q' \<and> q_limit q' = q_limit q \<and> (qdata q' = qdata q @ chain_data bs \<or> q' = q)"
  using assms(3) qpass_add_ok [OF assms(1,2)] assms(1)
  by (auto simp: qpass_def qpassnolim_def split: if_splits list.splits)

lemma qproduce_ok:
  assumes "queue_ok q" "0 \<le> len" "qproduce ia mem q p len = Some (r, q', ev, ia')"
  shows "queue_ok q' \<and> q_limit q' = q_limit q \<and> qdata q' = qdata q @ take (nat (if q_len q \<ge> q_limit q then 0 else r)) p"
proof (cases "q_len q \<ge> q_limit q")
  case True
  then show ?thesis using assms by (auto simp: qproduce_def queue_simps)
next
  case False
  with assms(3) obtain bo ia1 where ib: "iallocb ia mem len = Some (bo, ia1)"
    by (auto simp: qproduce_def bind_eq_Some_conv)
  show ?thesis
  proof (cases bo)
    case None
    then show ?thesis using assms False ib by (auto simp: qproduce_def)
  next
    case (Some b)
    note a = iallocb_ok [OF assms(2) ib [unfolded Some]]
    from assms(3) False ib Some obtain d c where d: "mget len p = Some d" "bappend b d = Some c"
      by (auto simp: qproduce_def bind_eq_Some_conv)
    have dd: "d = take (nat len) p" "length d = nat len"
      using d(1) by (auto simp: mget_def mem_read_def split: if_splits)
    then have "length d \<le> broom b" using a by auto
    from bappend_fits [OF _ this] a d(2) have c: "block_ok c" "bdata c = d" by auto
    let ?q = "q\<lparr>q_blocks := q_blocks q @ [c], q_len := q_len q + balloc c, q_dlen := q_dlen q + blen c\<rparr>"
    obtain q2 ev2 where f: "feed ?q = (q2, ev2)" by fastforce
    have "r = len" "q' = (if q_len q2 \<ge> q_limit q2 then setf Qflow q2 else q2)"
      using assms(3) False ib Some d f by (auto simp: qproduce_def Let_def)
    with feed_split [OF f] qadd_ok [OF assms(1) c(1)] False show ?thesis
      by (auto simp: queue_simps c(2) dd(1))
  qed
qed

subsection \<open>Reading\<close>

lemma qwait_ok:
  assumes "queue_ok q"
  shows "queue_ok (snd (qwait q)) \<and> q_blocks (snd (qwait q)) = q_blocks q \<and> qdata (snd (qwait q)) = qdata q \<and>
    q_limit (snd (qwait q)) = q_limit q \<and> q_len (snd (qwait q)) = q_len q \<and>
    (q_blocks q \<noteq> [] \<longrightarrow> qwait q = (Some 1, q))"
  using assms by (auto simp: qwait_def queue_simps Let_def)

lemma qread_grab_hd: "q_blocks q = b # bs \<Longrightarrow> hd (fst (qread_grab q len n)) = b"
  by (subst qread_grab.simps) (auto simp: Let_def split: list.splits prod.splits)

lemma qread_grab_ok:
  "queue_ok q \<Longrightarrow> q_blocks q \<noteq> [] \<Longrightarrow>
   \<exists>first n' q'. qread_grab q len n = (first, n', q') \<and> first \<noteq> [] \<and> chain_ok first \<and> queue_ok q' \<and>
     qdata q = chain_data first @ qdata q' \<and> n' = n + blocklen first \<and> (1 < length first \<longrightarrow> n' \<le> len) \<and>
     q_state q' = q_state q \<and> q_limit q' = q_limit q \<and> q_len q' \<le> q_len q \<and>
     q_len q' + blockalloclen first = q_len q"
proof (induction q len n rule: qread_grab.induct)
  case (1 q len n)
  then obtain b bs where b: "q_blocks q = b # bs" by (cases "q_blocks q") auto
  note r = qremove_ok [OF 1(2) b]
  let ?q = "snd (qremove q)"
  have s: "q_state ?q = q_state q" "q_limit ?q = q_limit q" "q_len ?q \<le> q_len q" "q_len ?q + balloc b = q_len q"
    by (simp_all add: qremove_def b balloc_def)
  show ?case
  proof (cases bs)
    case Nil
    then show ?thesis using b r s by (subst qread_grab.simps) (simp add: block_simps Let_def)
  next
    case (Cons c cs)
    show ?thesis
    proof (cases "n + blen b + blen c > len")
      case True
      then show ?thesis using Cons b r s by (subst qread_grab.simps) (simp add: block_simps Let_def)
    next
      case False
      with 1(1) [OF b refl refl Cons False] r(2,3) Cons obtain first n' q' where f:
        "qread_grab ?q len (n + blen b) = (first, n', q')" "first \<noteq> []" "chain_ok first" "queue_ok q'"
        "qdata ?q = chain_data first @ qdata q'" "n' = n + blen b + blocklen first" "1 < length first \<longrightarrow> n' \<le> len"
        "q_state q' = q_state ?q" "q_limit q' = q_limit ?q" "q_len q' \<le> q_len ?q"
        "q_len q' + blockalloclen first = q_len ?q" by auto
      have "n' \<le> len"
      proof (cases "1 < length first")
        case True
        then show ?thesis using f(7) by simp
      next
        case len1: False
        then obtain d where "first = [d]" using f(2) by (cases first rule: remdups_adj.cases) auto
        moreover have "hd first = c"
        proof -
          have "q_blocks ?q = c # cs" using r(3) Cons by simp
          then show ?thesis using qread_grab_hd [of ?q c cs len "n + blen b"] f(1) by simp
        qed
        ultimately show ?thesis using f(6) False by simp
      qed
      with f b r s Cons False show ?thesis
        by (subst qread_grab.simps) (auto simp: block_simps Let_def)
    qed
  qed
qed

text \<open>The three ways \<open>qread\<close> starts.\<close>

lemma qread_take_ok:
  "queue_ok q \<Longrightarrow> (case qread_take q len of
     (Returns (first, n), q', fr) \<Rightarrow> queue_ok q' \<and> q_limit q' = q_limit q \<and> q_len q' \<le> q_len q \<and>
       q_state q' = q_state q \<and>
       (if first = [] then n = 0 \<and> has q Qclosed \<and> qdata q = [] \<and> q_blocks q' = []
        else chain_ok first \<and> n = blocklen first \<and> qdata q = chain_data first @ qdata q' \<and>
          (1 < length first \<longrightarrow> n \<le> len) \<and>
          (\<not> has q Qcoalesce \<longrightarrow> length first = 1) \<and> q_len q' + blockalloclen first \<le> q_len q)
   | (Errors e, q', fr) \<Rightarrow> queue_ok q' \<and> q_limit q' = q_limit q \<and> q_len q' \<le> q_len q \<and> has q Qclosed \<and>
       qdata q = [] \<and> q_blocks q' = [] \<and> q_state q' = q_state q
   | (Sleeps, q', fr) \<Rightarrow> queue_ok q' \<and> q_limit q' = q_limit q \<and> q_len q' \<le> q_len q \<and> \<not> has q Qclosed \<and>
       qdata q = [] \<and> q_blocks q' = [] \<and> q_state q' = set_bit Qstarve (q_state q))"
proof (induction q len rule: qread_take.induct)
  case (1 q len)
  show ?case
  proof (cases "q_blocks q")
    case Nil
    then have "qdata q = []" by (simp add: qdata_def block_simps)
    with Nil 1(2) show ?thesis
      by (subst qread_take.simps) (auto simp: qwait_def Let_def queue_simps setf_def)
  next
    case (Cons b bs)
    then have w: "qwait q = (Some 1, q)" by (simp add: qwait_def)
    note r = qremove_ok [OF 1(2) Cons]
    let ?q = "snd (qremove q)"
    have s: "q_state ?q = q_state q" "q_limit ?q = q_limit q" "q_len ?q \<le> q_len q" "q_len ?q + balloc b = q_len q"
      by (simp_all add: qremove_def Cons balloc_def)
    consider "\<not> has q Qcoalesce" | "has q Qcoalesce" "blen b \<le> 0" | "has q Qcoalesce" "0 < blen b" by linarith
    then show ?thesis
    proof cases
      case 1
      then show ?thesis using Cons r s by (subst qread_take.simps) (simp add: w block_simps)
    next
      case 2
      have z: "bdata b = []" using 2 r(4) by (simp add: blen_bdata)
      have ih: "case qread_take ?q len of
          (Returns (first, n), q', fr) \<Rightarrow> queue_ok q' \<and> q_limit q' = q_limit ?q \<and> q_len q' \<le> q_len ?q \<and>
            q_state q' = q_state ?q \<and>
            (if first = [] then n = 0 \<and> has ?q Qclosed \<and> qdata ?q = [] \<and> q_blocks q' = []
             else chain_ok first \<and> n = blocklen first \<and> qdata ?q = chain_data first @ qdata q' \<and>
               (1 < length first \<longrightarrow> n \<le> len) \<and> (\<not> has ?q Qcoalesce \<longrightarrow> length first = 1) \<and>
               q_len q' + blockalloclen first \<le> q_len ?q)
        | (Errors e, q', fr) \<Rightarrow> queue_ok q' \<and> q_limit q' = q_limit ?q \<and> q_len q' \<le> q_len ?q \<and> has ?q Qclosed \<and>
            qdata ?q = [] \<and> q_blocks q' = [] \<and> q_state q' = q_state ?q
        | (Sleeps, q', fr) \<Rightarrow> queue_ok q' \<and> q_limit q' = q_limit ?q \<and> q_len q' \<le> q_len ?q \<and> \<not> has ?q Qclosed \<and>
            qdata ?q = [] \<and> q_blocks q' = [] \<and> q_state q' = set_bit Qstarve (q_state ?q)"
        using "1.IH" [OF w [symmetric] refl] 2 Cons r(2) by simp
      have h: "has ?q f = has q f" for f using s(1) by (simp add: has_def)
      have e: "qread_take q len = (let (r, q, fr) = qread_take ?q len in (r, q, b # fr))"
        using 2 Cons w by (subst qread_take.simps) simp
      obtain r' q' fr' where t: "qread_take ?q len = (r', q', fr')" by (cases "qread_take ?q len") auto
      show ?thesis
        using ih s z r(5) by (cases r') (auto simp: e t h split: if_splits)
    next
      case 3
      from qread_grab_ok [OF 1(2), of len 0] Cons obtain first n' q' where
        "qread_grab q len 0 = (first, n', q')" "first \<noteq> []" "chain_ok first" "queue_ok q'"
        "qdata q = chain_data first @ qdata q'" "n' = blocklen first" "1 < length first \<longrightarrow> n' \<le> len"
        "q_state q' = q_state q" "q_limit q' = q_limit q" "q_len q' \<le> q_len q"
        "q_len q' + blockalloclen first = q_len q" by auto
      then show ?thesis using 3 Cons by (subst qread_take.simps) (auto simp: w)
    qed
  qed
qed

lemma bl2mem_length: "bl2mem bs n = Some (d, r, fr) \<Longrightarrow> length r \<le> length bs"
  by (induction bs arbitrary: n d r fr)
    (fastforce simp: Let_def split: if_splits Option.bind_splits)+

text \<open>
  What is left of a chain that \<open>qread\<close> took: at most one block, and the count it returns is
  the number of bytes it stored.
\<close>

lemma bl2mem_taken:
  assumes "chain_ok first" "0 \<le> len" "1 < length first \<longrightarrow> blocklen first \<le> len"
  obtains rest fr where "bl2mem first len = Some (take (nat len) (chain_data first), rest, fr)"
    "chain_ok rest" "chain_data rest = drop (nat len) (chain_data first)" "length rest \<le> 1"
proof -
  from bl2mem_data [OF assms(1,2)] obtain rest fr where r:
    "bl2mem first len = Some (take (nat len) (chain_data first), rest, fr)"
    "chain_ok rest" "chain_data rest = drop (nat len) (chain_data first)" by blast
  have "length rest \<le> 1"
  proof (cases "1 < length first")
    case True
    with assms have "int (length (chain_data first)) \<le> len" by (simp add: blocklen_data)
    from bl2mem_all [OF assms(1) this] r show ?thesis by auto
  next
    case False
    with bl2mem_length [OF r(1)] show ?thesis by simp
  qed
  with r show thesis using that by blast
qed

lemma qwakeup_split: "qwakeup_iunlock q = (q', ev) \<Longrightarrow> queue_ok q' = queue_ok q \<and> qdata q' = qdata q \<and>
   q_blocks q' = q_blocks q \<and> q_len q' = q_len q \<and> q_limit q' = q_limit q"
  using restart_ok [of q] by simp

lemma qread_end_ok:
  assumes "queue_ok q" "chain_ok rest" "length rest \<le> 1" "qread_end q rest n = (n', q', ev, fr)"
  shows "queue_ok q' \<and> q_limit q' = q_limit q \<and> n' = n - blocklen rest \<and>
    qdata q' = (if has q Qmsg then [] else chain_data rest) @ qdata q"
proof (cases rest)
  case Nil
  then show ?thesis using assms by (auto simp: qread_end_def block_simps dest!: qwakeup_split split: prod.splits)
next
  case (Cons b bs)
  then have b: "bs = []" "block_ok b" using assms by (auto simp: block_simps)
  have l: "q_limit (qputback q b) = q_limit q" by (simp add: qputback_def)
  show ?thesis
    using assms Cons b qputback_ok [OF assms(1) b(2)] l
    by (cases "has q Qmsg")
      (auto simp: qread_end_def block_simps dest!: qwakeup_split split: prod.splits)
qed

lemma qread_data:
  assumes "queue_ok q" "0 \<le> len"
    and env: "\<And>q. queue_ok q \<Longrightarrow> queue_ok (env q) \<and> qdata (env q) = qdata q @ added \<and> has (env q) Qmsg = has q Qmsg"
  shows "(qdata q = [] \<and> (\<exists>r q' ev fr. qread env q len = Some (r, q', ev, fr) \<and> queue_ok q' \<and> qdata q' = [] \<and>
        (\<forall>n d. r = Returns (n, d) \<longrightarrow> n = 0 \<and> d = [])))
    \<or> (\<exists>m rest q' ev fr. qdata q = m @ rest \<and>
        qread env q len = Some (Returns (int (length (take (nat len) m)), take (nat len) m), q', ev, fr) \<and>
        queue_ok q' \<and> qdata q' = (if has q Qmsg then [] else drop (nat len) m) @ rest @ added)"
proof -
  obtain r q1 fr1 where t: "qread_take q len = (r, q1, fr1)" by (cases "qread_take q len") auto
  note ok = qread_take_ok [OF assms(1), of len, unfolded t]
  show ?thesis
  proof (cases r)
    case (Errors e)
    then show ?thesis using ok t by (simp add: qread_def qdata_def block_simps)
  next
    case Sleeps
    then show ?thesis using ok t by (simp add: qread_def qdata_def block_simps)
  next
    case (Returns fn)
    obtain first n where fn: "fn = (first, n)" by (cases fn) auto
    show ?thesis
    proof (cases "first = []")
      case True
      then show ?thesis using ok t Returns fn by (simp add: qread_def qdata_def block_simps)
    next
      case False
      then have f: "chain_ok first" "n = blocklen first" "qdata q = chain_data first @ qdata q1"
        "1 < length first \<longrightarrow> blocklen first \<le> len" and q1: "queue_ok q1" "q_state q1 = q_state q"
        using ok Returns fn by auto
      from bl2mem_taken [OF f(1) assms(2) f(4)] obtain rest fr2 where rest:
        "bl2mem first len = Some (take (nat len) (chain_data first), rest, fr2)"
        "chain_ok rest" "chain_data rest = drop (nat len) (chain_data first)" "length rest \<le> 1" by blast
      obtain n' q' ev fr3 where e: "qread_end (env q1) rest n = (n', q', ev, fr3)"
        by (cases "qread_end (env q1) rest n") auto
      have "queue_ok (env q1)" and en: "qdata (env q1) = qdata q1 @ added" "has (env q1) Qmsg = has q Qmsg"
        using env [OF q1(1)] q1(2) by (auto simp: has_def)
      note q' = qread_end_ok [OF this(1) rest(2,4) e]
      have "n' = int (length (take (nat len) (chain_data first)))"
        using q' f rest assms(2) by (simp add: blocklen_data of_nat_diff)
      moreover have "qread env q len = Some (Returns (n', take (nat len) (chain_data first)), q', ev, fr1 @ fr2 @ fr3)"
        using t Returns fn False rest(1) e by (simp add: qread_def)
      ultimately show ?thesis
        using q' f(3) rest(3) en by (intro disjI2 exI [of _ "chain_data first"] exI [of _ "qdata q1"]) auto
    qed
  qed
qed

lemma qbread_data:
  assumes "queue_ok q" "0 \<le> len" "q_blocks q = b # bs"
  shows "\<exists>nb q' ev. qbread q len = Some (Returns (Some nb), q', ev) \<and> block_ok nb \<and>
    bdata nb = take (nat len) (bdata b) \<and> queue_ok q' \<and> q_limit q' = q_limit q \<and>
    qdata q' = (if has q Qmsg then [] else drop (nat len) (bdata b)) @ chain_data bs"
proof -
  have w: "qwait q = (Some 1, q)" using assms(3) by (simp add: qwait_def)
  note r = qremove_ok [OF assms(1,3)]
  let ?q = "snd (qremove q)"
  have l: "q_limit ?q = q_limit q" "has ?q f = has q f" for f by (simp_all add: qremove_def assms(3) has_def)
  have d: "qdata ?q = chain_data bs" using r(3) by (simp add: qdata_def)
  have i: "blen b = int (length (bdata b))" using r(4) by (simp add: blen_bdata)
  let ?nb = "b\<lparr>b_wp := b_rp b + len\<rparr>"
  obtain r1 q1 where rq: "qremove q = (r1, q1)" by (cases "qremove q") auto
  have q1: "?q = q1" and r1: "r1 = Some b" using rq r(1) by simp_all
  show ?thesis
  proof (cases "blen b > len")
    case False
    obtain q2 ev where x: "qwakeup_iunlock ?q = (q2, ev)" by fastforce
    have "take (nat len) (bdata b) = bdata b" "drop (nat len) (bdata b) = []" using False i by auto
    then show ?thesis using False w rq r(2,4) q1 r1 x qwakeup_split [OF x] l(1) d
      by (simp add: qbread_def)
  next
    case True
    have t: "block_ok ?nb" "bdata ?nb = take (nat len) (bdata b)"
      using truncate_ok [OF r(4) assms(2)] True by auto
    show ?thesis
    proof (cases "has q Qmsg")
      case True
      obtain q2 ev where x: "qwakeup_iunlock ?q = (q2, ev)" by fastforce
      from \<open>blen b > len\<close> True show ?thesis using w rq r(2) q1 r1 x t qwakeup_split [OF x] l d
        by (simp add: qbread_def)
    next
      case False
      have n: "0 \<le> blen b - len" using True by simp
      obtain c where c: "allocb (blen b - len) = Some c" "block_ok c" "bdata c = []" "blen b - len \<le> int (broom c)"
        using allocb_ok [OF n] by metis
      let ?d = "drop (nat len) (bdata b)"
      have g: "bget b (b_rp b + len) (blen b - len) = Some ?d"
        using bget_middle [OF r(4) assms(2) n] i True by simp
      have "length ?d \<le> broom c" using c(4) i by simp
      from bappend_fits [OF c(2) this] c(3) obtain e where e: "bappend c ?d = Some e" "block_ok e" "bdata e = ?d" by auto
      have p: "queue_ok (qputback ?q e)" "qdata (qputback ?q e) = ?d @ chain_data bs" "q_limit (qputback ?q e) = q_limit q"
        using qputback_ok [OF r(2) e(2)] e(3) d l by (simp_all add: qputback_def)
      obtain q2 ev where x: "qwakeup_iunlock (qputback ?q e) = (q2, ev)" by fastforce
      from True False show ?thesis using w rq q1 r1 x t qwakeup_split [OF x] l p c(1) g e(1)
        by (simp add: qbread_def Let_def)
    qed
  qed
qed

subsection \<open>Writing\<close>

text \<open>What the other processes may do while a writer waits: take data from the front.\<close>

definition readers_only :: "(queue \<Rightarrow> queue) \<Rightarrow> bool" where
  "readers_only env = (\<forall>q. queue_ok q \<longrightarrow> queue_ok (env q) \<and> (\<exists>x. qdata q = x @ qdata (env q)) \<and>
     (\<forall>f. f \<noteq> Qflow \<and> f \<noteq> Qstarve \<longrightarrow> has (env q) f = has q f) \<and> q_bypass (env q) = q_bypass q \<and>
     q_noblock (env q) = q_noblock q \<and> q_limit (env q) = q_limit q)"

definition writable :: "queue \<Rightarrow> bool" where
  "writable q = (queue_ok q \<and> \<not> q_bypass q \<and> \<not> has q Qclosed \<and> \<not> q_noblock q)"

lemma alloc_chunk:
  assumes "0 \<le> n" "n \<le> int (length p)"
  obtains nb b where "allocb n = Some nb" "mget n p = Some (take (nat n) p)"
    "bappend nb (take (nat n) p) = Some b" "block_ok b" "bdata b = take (nat n) p" "blen b = n"
proof -
  obtain nb where nb: "allocb n = Some nb" "block_ok nb" "bdata nb = []" "n \<le> int (broom nb)"
    using allocb_ok [OF assms(1)] by metis
  have len: "length (take (nat n) p) = nat n" using assms by simp
  then have "length (take (nat n) p) \<le> broom nb" using nb(4) by simp
  from bappend_fits [OF nb(2) this] nb(3) obtain b where b: "bappend nb (take (nat n) p) = Some b"
    "block_ok b" "bdata b = take (nat n) p" by auto
  moreover have "blen b = n" using b len assms by (simp add: blen_bdata)
  moreover have "mget n p = Some (take (nat n) p)" using assms by (simp add: mget_def)
  ultimately show thesis using that nb(1) by blast
qed

lemma qbwrite_put_writable:
  assumes "writable q" "block_ok b" "qbwrite_put q b = (r, q', ev, fr)"
  shows "r = Returns (blen b) \<and> writable q' \<and> qdata q' = qdata q @ bdata b \<and>
    (\<forall>f. f \<noteq> Qstarve \<longrightarrow> has q' f = has q f) \<and> q_limit q' = q_limit q"
proof -
  let ?q = "q\<lparr>q_blocks := q_blocks q @ [b], q_len := q_len q + balloc b, q_dlen := q_dlen q + blen b\<rparr>"
  obtain q2 wake where f: "feed ?q = (q2, wake)" by fastforce
  then have fl: "\<forall>f. f \<noteq> Qstarve \<longrightarrow> has q2 f = has q f" "q_bypass q2 = q_bypass q" "q_noblock q2 = q_noblock q"
    by (auto simp: feed_def queue_simps split: if_splits)
  have "q' = q2" "r = Returns (blen b)"
    using assms(1,3) f by (auto simp: qbwrite_put_def writable_def Let_def)
  with assms(1) fl feed_split [OF f] qadd_ok [OF _ assms(2), of q] show ?thesis
    by (auto simp: writable_def queue_simps)
qed

lemma qwrite_loop_data:
  "readers_only env \<Longrightarrow> writable q \<Longrightarrow> 0 \<le> sofar \<Longrightarrow> sofar \<le> len \<Longrightarrow> len = int (length p) \<Longrightarrow>
   \<exists>q' ev fr x. qwrite_loop env q p len sofar = Some (Returns len, q', ev, fr) \<and> writable q' \<and>
     qdata q @ (if has q Qmsg then take (nat Maxatomic) (drop (nat sofar) p) else drop (nat sofar) p) = x @ qdata q' \<and>
     ((\<forall>q. qdata (env q) = qdata q) \<longrightarrow> x = []) \<and> has q' Qmsg = has q Qmsg"
proof (induction env q p len sofar rule: qwrite_loop.induct)
  case (1 env q p len sofar)
  define n where "n = (if len - sofar > Maxatomic then Maxatomic else len - sofar)"
  have n: "0 \<le> n" "n \<le> int (length (drop (nat sofar) p))" "sofar + n \<le> len"
    using 1(4-6) by (auto simp: n_def Maxatomic_def)
  from alloc_chunk [OF n(1,2)] obtain nb b where b: "allocb n = Some nb"
    "mget n (drop (nat sofar) p) = Some (take (nat n) (drop (nat sofar) p))"
    "bappend nb (take (nat n) (drop (nat sofar) p)) = Some b" "block_ok b"
    "bdata b = take (nat n) (drop (nat sofar) p)" "blen b = n" .
  obtain r q1 ev fr where put: "qbwrite_put q b = (r, q1, ev, fr)" by (cases "qbwrite_put q b") auto
  from qbwrite_put_writable [OF 1(3) b(4) put] have q1: "r = Returns n" "writable q1"
    "qdata q1 = qdata q @ bdata b" "has q1 Qmsg = has q Qmsg" using b(6) by (auto simp: queue_simps)
  let ?q2 = "env q1"
  have "queue_ok q1" using q1(2) by (simp add: writable_def)
  with 1(2) have "\<exists>x. qdata q1 = x @ qdata ?q2" by (auto simp: readers_only_def)
  then obtain x where x: "qdata q1 = x @ qdata ?q2" by blast
  have q2: "writable ?q2" "has ?q2 Qmsg = has q Qmsg"
    using 1(2) q1(2,4) by (auto simp: readers_only_def writable_def queue_simps)
  have e: "qwrite_loop env q p len sofar =
    (if sofar + n < len \<and> \<not> has ?q2 Qmsg then do {
       (r, q, ev2, fr2) \<leftarrow> qwrite_loop env ?q2 p len (sofar + n);
       Some (r, q, ev @ ev2, fr @ fr2)
     } else Some (Returns len, ?q2, ev, fr))"
    using b(1-3) put q1(1) by (subst qwrite_loop.simps) (simp add: Let_def flip: n_def)
  have xid: "(\<forall>q. qdata (env q) = qdata q) \<longrightarrow> x = []" using x by (metis append_self_conv2)
  show ?case
  proof (cases "sofar + n < len \<and> \<not> has ?q2 Qmsg")
    case False
    have "bdata b = (if has q Qmsg then take (nat Maxatomic) (drop (nat sofar) p) else drop (nat sofar) p)"
    proof (cases "has q Qmsg")
      case True
      then show ?thesis using b(5) 1(4-6) by (auto simp: n_def)
    next
      case f: False
      then have "n = len - sofar" using False q2(2) n(3) by simp
      then show ?thesis using f b(5) 1(4-6) by simp
    qed
    then show ?thesis using False e q2 x xid q1(3) by auto
  next
    case True
    then have nm: "\<not> has q Qmsg" and lt: "sofar + n < len" using q2 by auto
    have "\<exists>q' ev fr y. qwrite_loop env ?q2 p len (sofar + n) = Some (Returns len, q', ev, fr) \<and> writable q' \<and>
     qdata ?q2 @ drop (nat (sofar + n)) p = y @ qdata q' \<and>
     ((\<forall>q. qdata (env q) = qdata q) \<longrightarrow> y = []) \<and> has q' Qmsg = has ?q2 Qmsg"
    proof -
      show ?thesis
        using 1(1) [OF refl n_def b(1-3) put [unfolded q1(1), symmetric] refl refl refl refl True] 1(2,4-6) q2 n True by auto
    qed
    then obtain q' ev' fr' y where y: "qwrite_loop env ?q2 p len (sofar + n) = Some (Returns len, q', ev', fr')"
      "writable q'" "qdata ?q2 @ drop (nat (sofar + n)) p = y @ qdata q'"
      "(\<forall>q. qdata (env q) = qdata q) \<longrightarrow> y = []" "has q' Qmsg = has ?q2 Qmsg" by blast
    have "drop (nat sofar) p = bdata b @ drop (nat (sofar + n)) p"
    proof -
      have "nat (sofar + n) = nat n + nat sofar" using n 1(4) by simp
      then have "drop (nat (sofar + n)) p = drop (nat n) (drop (nat sofar) p)" by simp
      then show ?thesis unfolding b(5) by (simp only: append_take_drop_id)
    qed
    then have "qdata q @ drop (nat sofar) p = (x @ y) @ qdata q'"
      using q1(3) x y(3) by (metis append.assoc)
    moreover have "(\<forall>q. qdata (env q) = qdata q) \<longrightarrow> x @ y = []" using xid y(4) by simp
    ultimately show ?thesis using y e True nm q2 by auto
  qed
qed

lemma qwrite_data:
  assumes "readers_only env" "writable q"
  shows "\<exists>q' ev fr x. qwrite env q p (int (length p)) = Some (Returns (int (length p)), q', ev, fr) \<and> writable q' \<and>
     qdata q @ (if has q Qmsg then take (nat Maxatomic) p else p) = x @ qdata q' \<and>
     ((\<forall>q. qdata (env q) = qdata q) \<longrightarrow> x = [])"
  using qwrite_loop_data [OF assms, of 0 "int (length p)" p] by (auto simp: qwrite_def)

text \<open>qiwrite queues a prefix of the data and returns its length.\<close>

lemma qiwrite_loop_data:
  "queue_ok q \<Longrightarrow> 0 \<le> sofar \<Longrightarrow> sofar \<le> len \<Longrightarrow> len = int (length p) \<Longrightarrow>
   qiwrite_loop ia mem q p len sofar wake = Some (r, q', ev, ia') \<Longrightarrow>
   queue_ok q' \<and> sofar \<le> r \<and> r \<le> len \<and> qdata q' = qdata q @ take (nat (r - sofar)) (drop (nat sofar) p)"
proof (induction ia mem q p len sofar wake arbitrary: r q' ev ia' rule: qiwrite_loop.induct)
  case (1 ia mem q p len sofar wake)
  define n where "n = (if len - sofar > Maxatomic then Maxatomic else len - sofar)"
  have n: "0 \<le> n" "n \<le> int (length (drop (nat sofar) p))" "sofar + n \<le> len"
    using 1(3-5) by (auto simp: n_def Maxatomic_def)
  note start = 1(6) [unfolded qiwrite_loop.simps [of ia mem q p len sofar wake], folded n_def, unfolded Let_def, folded n_def]
  then obtain bo ia1 where ib: "iallocb ia (mem sofar) n = Some (bo, ia1)"
    by (auto simp: bind_eq_Some_conv)
  show ?case
  proof (cases bo)
    case None
    then show ?thesis using start ib 1(2,4) by auto
  next
    case (Some b)
    note a = iallocb_ok [OF n(1) ib [unfolded Some]]
    have m: "mget n (drop (nat sofar) p) = Some (take (nat n) (drop (nat sofar) p))"
      using n by (simp add: mget_def)
    let ?d = "take (nat n) (drop (nat sofar) p)"
    have len: "length ?d = nat n" using n by simp
    then have "length ?d \<le> broom b" using a by linarith
    from bappend_fits [OF _ this] a obtain c where c: "bappend b ?d = Some c" "block_ok c" "bdata c = ?d"
      by auto
    then have bc: "blen c = n" using len n by (simp add: blen_bdata)
    show ?thesis
    proof (cases "16384 \<le> q_dlen q")
      case True
      then show ?thesis using start ib Some m c(1) 1(2,4) by simp
    next
      case False
      let ?q1 = "q\<lparr>q_blocks := q_blocks q @ [c], q_len := q_len q + balloc c, q_dlen := q_dlen q + n\<rparr>"
      let ?q2 = "fst (feed ?q1)"
      have q2: "queue_ok ?q2" "qdata ?q2 = qdata q @ ?d"
        using qadd_ok [OF 1(2) c(2)] by (simp_all add: queue_simps bc c(3))
      show ?thesis
      proof (cases "sofar + n < len \<and> \<not> has ?q2 Qmsg")
        case False
        with \<open>\<not> 16384 \<le> q_dlen q\<close> start ib Some m c(1) have "r = sofar + n" "q' = ?q2" by simp_all
        with q2 n show ?thesis by simp
      next
        case True
        from True \<open>\<not> 16384 \<le> q_dlen q\<close> start ib Some m c(1)
        obtain ev2 where rec: "qiwrite_loop ia1 mem ?q2 p len (sofar + n) (wake \<or> has ?q1 Qstarve) = Some (r, q', ev2, ia')"
          by (simp add: bind_eq_Some_conv split: prod.splits) metis
        have "0 \<le> sofar + n" using n 1(3) by simp
        have ih: "queue_ok q' \<and> sofar + n \<le> r \<and> r \<le> len \<and>
            qdata q' = qdata ?q2 @ take (nat (r - (sofar + n))) (drop (nat (sofar + n)) p)"
          using 1(1) [of "len - sofar" n "(Some b, ia1)" "Some b" ia1 b ?d c ?q1 "wake \<or> has ?q1 Qstarve" ?q2]
            q2(1) n(3) 1(3,5) n(1) rec ib Some m c(1) True \<open>\<not> 16384 \<le> q_dlen q\<close>
          by (simp add: n_def)
        have "take (nat (r - sofar)) (drop (nat sofar) p) =
            ?d @ take (nat (r - (sofar + n))) (drop (nat (sofar + n)) p)"
        proof -
          have "nat (r - sofar) = nat n + nat (r - (sofar + n))" "nat (sofar + n) = nat n + nat sofar"
            using ih n 1(3) by linarith+
          then show ?thesis by (simp add: take_add)
        qed
        with ih q2 n show ?thesis by simp
      qed
    qed
  qed
qed

lemma qiwrite_data:
  assumes "queue_ok q" "qiwrite ia mem q p (int (length p)) = Some (r, q', ev, ia')"
  shows "queue_ok q' \<and> 0 \<le> r \<and> r \<le> int (length p) \<and> qdata q' = qdata q @ take (nat r) p"
  using qiwrite_loop_data [OF assms(1) order_refl _ refl, of p ia mem False r q' ev ia'] assms(2)
  by (simp add: qiwrite_def)

end
