(* ===== verification/Qstream.thy ===== *)
theory Qstream
  imports Qio
begin

text \<open>
  An IO queue as a stream of bytes: the interface a user of a byte stream relies on, and the
  proof that the queue's qread and qwrite provide it, together with the properties of the other
  operations on the data of a queue.
\<close>

subsection \<open>The interface of a byte stream\<close>

datatype use = Put bytes | Get nat

text \<open>A script of uses: all that was put in, all that came out, the stream left.\<close>

fun run_stream ::
  "('s \<Rightarrow> bytes \<Rightarrow> 's option) \<Rightarrow> ('s \<Rightarrow> nat \<Rightarrow> (bytes \<times> 's) option) \<Rightarrow> 's \<Rightarrow> use list \<Rightarrow> (bytes \<times> bytes \<times> 's) option" where
  "run_stream put get s [] = Some ([], [], s)"
| "run_stream put get s (Put d # us) = do {
     s \<leftarrow> put s d;
     (i, out, s) \<leftarrow> run_stream put get s us;
     Some (d @ i, out, s)
   }"
| "run_stream put get s (Get n # us) = do {
     (d, s) \<leftarrow> get s n;
     (i, out, s) \<leftarrow> run_stream put get s us;
     Some (i, d @ out, s)
   }"

locale byte_stream =
  fixes put :: "'s \<Rightarrow> bytes \<Rightarrow> 's option"
    and get :: "'s \<Rightarrow> nat \<Rightarrow> (bytes \<times> 's) option"
    and held :: "'s \<Rightarrow> bytes"
    and ok :: "'s \<Rightarrow> bool"
  assumes put_law: "ok s \<Longrightarrow> \<exists>s'. put s d = Some s' \<and> ok s' \<and> held s' = held s @ d"
    and get_law: "ok s \<Longrightarrow> \<exists>d s'. get s n = Some (d, s') \<and> ok s' \<and> held s = d @ held s' \<and> length d \<le> n"
begin

lemma run_fifo: "ok s \<Longrightarrow> \<exists>i out s'. run_stream put get s us = Some (i, out, s') \<and> ok s' \<and> held s @ i = out @ held s'"
proof (induction us arbitrary: s)
  case Nil
  then show ?case by simp
next
  case (Cons u us)
  show ?case
  proof (cases u)
    case (Put d)
    obtain s1 where s1: "put s d = Some s1" "ok s1" "held s1 = held s @ d" using put_law [OF Cons.prems] by blast
    with Cons.IH [OF s1(2)] Put show ?thesis by auto
  next
    case (Get n)
    obtain d s1 where s1: "get s n = Some (d, s1)" "ok s1" "held s = d @ held s1"
      using get_law [OF Cons.prems] by blast
    with Cons.IH [OF s1(2)] Get show ?thesis by auto
  qed
qed

end

subsection \<open>What the operations leave alone\<close>

definition static :: "queue \<Rightarrow> queue \<Rightarrow> bool" where
  "static q q' = (q_bypass q' = q_bypass q \<and> q_noblock q' = q_noblock q \<and> q_limit q' = q_limit q \<and>
     (\<forall>f. f \<noteq> Qflow \<longrightarrow> f \<noteq> Qstarve \<longrightarrow> has q' f = has q f))"

lemma static_refl [simp]: "static q q"
  by (simp add: static_def)

lemma static_trans [trans]: "static q r \<Longrightarrow> static r s \<Longrightarrow> static q s"
  by (auto simp: static_def)

lemma static_flags: "static q (setf Qstarve q)" "static q (setf Qflow q)" "static q (clearf Qstarve q)"
  "static q (clearf Qflow q)"
  by (auto simp: static_def queue_simps)

lemma static_ops:
  "static q (snd (qremove q))" "static q (qputback q b)" "static q (snd (qwait q))"
  "static q (fst (qwakeup_iunlock q))" "static q (fst (restart q))" "static q (fst (feed q))"
  by (auto simp: static_def qremove_def qputback_def qwait_def qwakeup_iunlock_def restart_def feed_def
      queue_simps has_def Let_def split: list.splits)
    (auto simp: queue_simps simp flip: has_def)

lemma static_grab: "static q (snd (snd (qread_grab q len n)))"
proof (induction q len n rule: qread_grab.induct)
  case (1 q len n)
  show ?case
  proof (cases "q_blocks q")
    case Nil
    then show ?thesis by (subst qread_grab.simps) simp
  next
    case (Cons b bs)
    then show ?thesis
      using 1 [OF Cons refl refl] static_ops(1) [of q]
      by (subst qread_grab.simps) (auto simp: Let_def split: list.splits prod.splits intro: static_trans)
  qed
qed

lemma static_take: "static q (fst (snd (qread_take q len)))"
proof (induction q len rule: qread_take.induct)
  case (1 q len)
  obtain r q' where w: "qwait q = (r, q')" by (cases "qwait q") auto
  then have s: "static q q'" using static_ops(3) [of q] by simp
  show ?case
  proof (cases "\<exists>k b bs. r = Some k \<and> k \<noteq> 0 \<and> k \<noteq> -1 \<and> has q' Qcoalesce \<and> q_blocks q' = b # bs \<and> blen b \<le> 0")
    case True
    then obtain k b bs where k: "r = Some k" "k \<noteq> 0" "k \<noteq> -1" "has q' Qcoalesce" "q_blocks q' = b # bs" "blen b \<le> 0"
      by blast
    then have ih: "static (snd (qremove q')) (fst (snd (qread_take (snd (qremove q')) len)))"
      using 1 [OF w [unfolded k(1), symmetric] refl] by simp
    have "static q (fst (snd (qread_take (snd (qremove q')) len)))"
      using static_trans [OF static_trans [OF s static_ops(1)] ih] .
    moreover have "fst (snd (qread_take q len)) = fst (snd (qread_take (snd (qremove q')) len))"
      using k w by (subst qread_take.simps) (simp split: prod.splits)
    ultimately show ?thesis by simp
  next
    case False
    then show ?thesis
      using w s static_trans [OF s static_ops(1)] static_trans [OF s static_grab [of q' len 0]]
      by (subst qread_take.simps) (auto simp: Let_def split: option.splits list.splits prod.splits)
  qed
qed

text \<open>The two ways \<open>qread\<close> returns.\<close>

lemma qread_cases:
  assumes "qread env q len = Some (r, q', ev, fr)"
  obtains (start) t fr' where "qread_take q len = (t, q', fr')"
      "r = Sleeps \<and> t = Sleeps \<or> (\<exists>e. r = Errors e \<and> t = Errors e) \<or> (\<exists>n. r = Returns (0, []) \<and> t = Returns ([], n))"
  | (finish) first n q1 fr1 d rest fr2 n' fr3 where "qread_take q len = (Returns (first, n), q1, fr1)" "first \<noteq> []"
      "bl2mem first len = Some (d, rest, fr2)" "qread_end (env q1) rest n = (n', q', ev, fr3)" "r = Returns (n', d)"
proof -
  obtain t q1 fr1 where t: "qread_take q len = (t, q1, fr1)" by (cases "qread_take q len") auto
  show thesis
  proof (cases "\<exists>first n. t = Returns (first, n) \<and> first \<noteq> []")
    case False
    then show thesis using assms t start by (cases t) (auto simp: qread_def)
  next
    case True
    then obtain first n where f: "t = Returns (first, n)" "first \<noteq> []" by blast
    with assms t obtain d rest fr2 where b: "bl2mem first len = Some (d, rest, fr2)"
      by (auto simp: qread_def bind_eq_Some_conv)
    obtain n' q2 ev2 fr3 where e: "qread_end (env q1) rest n = (n', q2, ev2, fr3)"
      by (cases "qread_end (env q1) rest n") auto
    show thesis using assms t f b e finish [OF _ f(2) b] by (simp add: qread_def)
  qed
qed

lemma static_end: "static q (fst (snd (qread_end q rest n)))"
proof -
  have "static q (fst (qwakeup_iunlock q))" "static q (fst (qwakeup_iunlock (qputback q b)))" for b
    using static_ops(4) static_trans [OF static_ops(2) static_ops(4)] by blast+
  then show ?thesis
    by (auto simp: qread_end_def split: list.splits prod.splits) (metis fst_conv)+
qed

lemma static_qread:
  assumes "qread (\<lambda>q. q) q len = Some (r, q', ev, fr)"
  shows "static q q'"
  using assms
proof (cases rule: qread_cases)
  case (start t fr')
  then show ?thesis using static_take [of q len] by simp
next
  case (finish first n q1 fr1 d rest fr2 n' fr3)
  then show ?thesis using static_trans [of q q1 q'] static_take [of q len] static_end [of q1 rest n] by simp
qed

subsection \<open>The queue is a byte stream\<close>

definition stream_ok :: "queue \<Rightarrow> bool" where
  "stream_ok q = (writable q \<and> \<not> has q Qmsg)"

text \<open>
  Writing all of \<open>d\<close>, and one read of at most \<open>n\<close> bytes. A read that would wait gets nothing.
\<close>

definition qput_stream :: "queue \<Rightarrow> bytes \<Rightarrow> queue option" where
  "qput_stream q d = (case qwrite (\<lambda>q. q) q d (int (length d)) of
     Some (Returns _, q, _, _) \<Rightarrow> Some q | _ \<Rightarrow> None)"

definition qget_stream :: "queue \<Rightarrow> nat \<Rightarrow> (bytes \<times> queue) option" where
  "qget_stream q n = (case qread (\<lambda>q. q) q (int n) of
     Some (Returns (_, d), q, _, _) \<Rightarrow> Some (d, q) | Some (Sleeps, q, _, _) \<Rightarrow> Some ([], q) | _ \<Rightarrow> None)"

lemma readers_only_id: "readers_only (\<lambda>q. q)"
  by (simp add: readers_only_def)

lemma qread_open:
  assumes "queue_ok q" "\<not> has q Qclosed" "qread env q len = Some (r, q', ev, fr)"
  shows "r \<noteq> Errors e"
  using assms(3)
proof (cases rule: qread_cases)
  case (start t fr')
  then show ?thesis using assms(2) qread_take_ok [OF assms(1), of len, unfolded start(1)]
    by (cases t) auto
next
  case finish
  then show ?thesis by simp
qed

lemma qget_stream_law:
  assumes "stream_ok q"
  shows "\<exists>d q'. qget_stream q n = Some (d, q') \<and> stream_ok q' \<and> qdata q = d @ qdata q' \<and> length d \<le> n"
proof -
  have ok: "queue_ok q" "\<not> has q Qclosed" "\<not> has q Qmsg" using assms by (auto simp: stream_ok_def writable_def)
  have keep: "stream_ok q'" if "queue_ok q'" "qread (\<lambda>q. q) q (int n) = Some (r, q', ev, fr)" for r q' ev fr
    using assms that static_qread [OF that(2)]
    by (auto simp: stream_ok_def writable_def static_def queue_simps)
  from qread_data [OF ok(1), of "int n" "\<lambda>q. q" "[]"]
  consider (none) r q' ev fr where "qdata q = []" "qread (\<lambda>q. q) q (int n) = Some (r, q', ev, fr)" "queue_ok q'"
      "qdata q' = []" "\<forall>k d. r = Returns (k, d) \<longrightarrow> k = 0 \<and> d = []"
  | (some) m rest q' ev fr where "qdata q = m @ rest"
      "qread (\<lambda>q. q) q (int n) = Some (Returns (int (length (take n m)), take n m), q', ev, fr)"
      "queue_ok q'" "qdata q' = drop n m @ rest"
    using ok(3) by auto
  then show ?thesis
  proof cases
    case none
    with qread_open [OF ok(1,2) none(2)] keep show ?thesis
      by (cases r) (auto simp: qget_stream_def)
  next
    case some
    with keep [OF some(3,2)] show ?thesis by (simp add: qget_stream_def)
  qed
qed

lemma qput_stream_law:
  assumes "stream_ok q"
  shows "\<exists>q'. qput_stream q d = Some q' \<and> stream_ok q' \<and> qdata q' = qdata q @ d"
proof -
  have q: "writable q" "\<not> has q Qmsg" using assms by (auto simp: stream_ok_def)
  from qwrite_loop_data [OF readers_only_id q(1), of 0 "int (length d)" d] q(2) show ?thesis
    by (auto simp: qput_stream_def qwrite_def stream_ok_def)
qed

interpretation qs: byte_stream qput_stream qget_stream qdata stream_ok
  by unfold_locales (use qput_stream_law qget_stream_law in blast)+

subsection \<open>The properties\<close>

lemma has_qopen: "has (qopen limit msg kick) f = (f = Qstarve \<or> bit msg f)"
  by (simp add: qopen_def has_setf flag_facts) (simp add: has_def)

lemma qopen_empty:
  "queue_ok (qopen limit msg kick)" "qdata (qopen limit msg kick) = []" "\<not> q_bypass (qopen limit msg kick)"
  "\<not> q_noblock (qopen limit msg kick)" "q_blocks (qopen limit msg kick) = []" "q_limit (qopen limit msg kick) = limit"
  "q_len (qopen limit msg kick) = 0"
  by (simp_all add: qopen_def queue_ok_def qdata_def queue_simps block_simps)

definition example_queue :: queue where
  "example_queue = (qopen 1000 0 False)\<lparr>q_blocks := example_chain, q_len := blockalloclen example_chain,
     q_dlen := blocklen example_chain\<rparr>"

lemma example_queue_ok: "queue_ok example_queue" "qdata example_queue = [1, 2, 3, 4, 5, 6, 7]"
  "has example_queue f = (f = Qstarve)" "q_blocks example_queue = example_chain"
  by (auto simp: example_queue_def queue_ok_def qdata_def example_chain_ok queue_simps qopen_def has_def setf_def
      bit_set_bit_iff possible_bit_word flag_defs bit_1_iff)

lemma example_queue_stream: "stream_ok example_queue"
  using example_queue_ok(1)
  by (simp add: stream_ok_def writable_def example_queue_ok(3) queue_simps)
    (simp add: example_queue_def qopen_def setf_def)

text \<open>
  C16. A queue that is not a message queue is a FIFO of bytes: for every sequence of writes of any
  sizes and reads of any sizes, what was in the queue followed by all that was written is all
  that was read, in that order, followed by what is left; nothing is lost, repeated or moved
  outside a block.
\<close>

theorem qio_fifo:
  assumes "stream_ok q"
  shows "\<exists>i out q'. run_stream qput_stream qget_stream q us = Some (i, out, q') \<and> stream_ok q' \<and>
    qdata q @ i = out @ qdata q'"
  by (rule qs.run_fifo [OF assms])

theorem qio_fifo_witness:
  "\<exists>i out q'. run_stream qput_stream qget_stream example_queue [Get 2, Put [8, 9], Get 20] = Some (i, out, q') \<and>
     [1, 2, 3, 4, 5, 6, 7] @ i = out @ qdata q'"
  using qio_fifo [OF example_queue_stream, of "[Get 2, Put [8, 9], Get 20]"]
  by (auto simp: example_queue_ok)

text \<open>
  qread, which copies outside the lock while others may append \<open>added\<close>. On a queue with data
  it returns a prefix \<open>m\<close> of at most \<open>len\<close> bytes, says how many, and puts what it did not
  deliver of the blocks it had taken back in front of everything else; a message queue drops
  that rest of the message. With no data it returns 0 bytes, fails or sleeps.
\<close>

theorem qread_spec:
  assumes "queue_ok q" and "0 \<le> len"
    and "\<And>q. queue_ok q \<Longrightarrow> queue_ok (env q) \<and> qdata (env q) = qdata q @ added \<and> has (env q) Qmsg = has q Qmsg"
  shows "if qdata q = [] then \<exists>r q' ev fr. qread env q len = Some (r, q', ev, fr) \<and> queue_ok q' \<and>
        (\<forall>n d. r = Returns (n, d) \<longrightarrow> n = 0 \<and> d = [])
    else \<exists>m rest q' ev fr. qdata q = m @ rest \<and>
        qread env q len = Some (Returns (int (length (take (nat len) m)), take (nat len) m), q', ev, fr) \<and>
        queue_ok q' \<and> qdata q' = (if has q Qmsg then [] else drop (nat len) m) @ rest @ added"
proof (cases "qdata q = []")
  case False
  then show ?thesis using qread_data [OF assms(1,2), of env added] assms(3) by simp
next
  case True
  from qread_data [OF assms(1,2), of env added] assms(3) True show ?thesis by fastforce
qed

theorem qread_spec_witness:
  "\<exists>m rest q' ev fr. [1, 2, 3, 4, 5, 6, 7] = m @ rest \<and>
     qread (\<lambda>q. q) example_queue 2 = Some (Returns (int (length (take 2 m)), take 2 m), q', ev, fr) \<and>
     qdata q' = drop 2 m @ rest"
  using qread_spec [OF example_queue_ok(1), of 2 "\<lambda>q. q" "[]"]
  by (simp add: example_queue_ok queue_simps) blast

text \<open>
  What a transport protocol relies on when it retransmits from its send queue and discards
  what was acknowledged: qcopy copies exactly the \<open>len\<close> bytes at \<open>offset\<close> (fewer at the end),
  whatever the boundaries of the blocks, and after qdiscard of \<open>k\<close> bytes the same bytes are found
  \<open>k\<close> earlier; qdiscard says how many it removed.
\<close>

theorem qcopy_qdiscard:
  assumes "queue_ok q" and "0 \<le> len" and "0 \<le> offset" and "0 \<le> k"
  shows "\<exists>nb q' ev fr nb2. qcopy q len offset = Some nb \<and> bdata nb = take (nat len) (drop (nat offset) (qdata q)) \<and>
    qdiscard q k = (min k (qlen q), q', ev, fr) \<and> queue_ok q' \<and> qdata q' = drop (nat k) (qdata q) \<and>
    qcopy q' len offset = Some nb2 \<and> bdata nb2 = take (nat len) (drop (nat (offset + k)) (qdata q))"
proof -
  obtain nb where nb: "qcopy q len offset = Some nb" "bdata nb = take (nat len) (drop (nat offset) (qdata q))"
    using qcopy_data [OF assms(1-3)] by blast
  obtain q' ev fr where q': "qdiscard q k = (min k (q_dlen q), q', ev, fr)" "queue_ok q'"
    "qdata q' = drop (nat k) (qdata q)"
    using qdiscard_data [OF assms(1,4)] by blast
  obtain nb2 where "qcopy q' len offset = Some nb2" "bdata nb2 = take (nat len) (drop (nat offset) (qdata q'))"
    using qcopy_data [OF q'(2) assms(2,3)] by blast
  with nb q' assms(3,4) show ?thesis by (auto simp: qlen_def nat_add_distrib)
qed

theorem qcopy_qdiscard_witness:
  "\<exists>nb q' ev fr nb2. qcopy example_queue 3 2 = Some nb \<and> bdata nb = [3, 4, 5] \<and>
     qdiscard example_queue 2 = (min 2 (qlen example_queue), q', ev, fr) \<and>
     qcopy q' 3 2 = Some nb2 \<and> bdata nb2 = [5, 6, 7]"
  using qcopy_qdiscard [OF example_queue_ok(1), of 3 2 2] by (fastforce simp: example_queue_ok numeral_eq_Suc)

text \<open>
  qwrite tells the writer of a message queue that all \<open>len\<close> bytes were written when the
  message is longer than Maxatomic, but queues only the first Maxatomic of them.
\<close>

theorem qwrite_message_cut:
  assumes "writable q" and "has q Qmsg" and "int (length p) > Maxatomic"
  shows "\<exists>q' ev fr. qwrite (\<lambda>q. q) q p (int (length p)) = Some (Returns (int (length p)), q', ev, fr) \<and>
    qdata q' = qdata q @ take 65536 p"
  using qwrite_data [OF readers_only_id assms(1), of p] assms(2) by (auto simp: Maxatomic_def)

theorem qwrite_message_cut_witness:
  "\<exists>q' ev fr. qwrite (\<lambda>q. q) (qopen 1000000 2 False) (replicate 65537 7) 65537 = Some (Returns 65537, q', ev, fr) \<and>
     length (qdata q') = 65536"
proof -
  let ?q = "qopen 1000000 2 False"
  have w: "writable ?q" "has ?q Qmsg" "qdata ?q = []"
    by (simp_all add: writable_def qopen_empty has_qopen flag_defs)
  define p where "p = replicate 65537 (7 :: u8)"
  have lp: "length p = 65537" unfolding p_def by (rule length_replicate)
  then have l: "int (length p) > Maxatomic" by (simp add: Maxatomic_def)
  from qwrite_message_cut [OF w(1,2) l] obtain q' ev fr where
    "qwrite (\<lambda>q. q) ?q p (int (length p)) = Some (Returns (int (length p)), q', ev, fr)" "qdata q' = take 65536 p"
    unfolding w(3) by auto
  moreover from this(2) have "length (qdata q') = 65536" by (simp add: lp)
  ultimately show ?thesis unfolding lp p_def [symmetric] by auto
qed

text \<open>
  qconsume on a queue whose blocks are all empty removes them without freeing them, and
  returns without restarting a writer that waits for room, although the queue is now empty; a
  later qget does not restart it either.
\<close>

theorem qconsume_forgets:
  assumes "queue_ok q" and "qdata q = []" and "has q Qflow" and "2 \<le> q_limit q"
  shows "\<exists>q'. qconsume q len = Some (-1, [], q', [], []) \<and> q_blocks q' = [] \<and>
    has q' Qflow \<and> q_len q' < q_limit q' sdiv 2 \<and> qget q' = (None, q', [])"
proof -
  from qconsume_empty [OF assms(1,2), of len] obtain q' where q': "qconsume q len = Some (-1, [], q', [], [])"
    "q_blocks q' = []" "q_len q' = 0" "q_limit q' = q_limit q" "q_state q' = set_bit Qstarve (q_state q)" by blast
  have f: "has q' Qflow" using assms(3) by (simp add: has_def q'(5) bit_set_bit_iff)
  have "set_bit Qstarve (q_state q') = q_state q'"
    unfolding q'(5) by (rule bit_eqI) (auto simp: bit_set_bit_iff)
  then have g: "setf Qstarve q' = q'" by (simp add: setf_def)
  have "0 < q_limit q' sdiv 2" using assms(4) q'(4) by (simp add: signed_divide_int_def sgn_if)
  with q' f g show ?thesis by (simp add: qget_def)
qed

definition full_of_nothing :: queue where
  "full_of_nothing = setf Qflow (qopen 10 0 False)\<lparr>q_blocks := [block_of []], q_len := 72\<rparr>"

lemma full_of_nothing: "queue_ok full_of_nothing" "qdata full_of_nothing = []" "has full_of_nothing Qflow"
  "q_limit full_of_nothing = 10"
proof -
  have "balloc (block_of []) = 72" "blen (block_of []) = 0"
    by (simp_all add: balloc_def blen_def block_of_def)
  then show "queue_ok full_of_nothing" "qdata full_of_nothing = []"
    by (simp_all add: full_of_nothing_def queue_simps queue_ok_def qdata_def block_simps block_of_ok qopen_def)
  show "has full_of_nothing Qflow" "q_limit full_of_nothing = 10"
    by (simp_all add: full_of_nothing_def queue_simps) (simp add: qopen_def queue_simps)
qed

theorem qconsume_forgets_witness:
  "\<exists>q'. qconsume full_of_nothing 5 = Some (-1, [], q', [], []) \<and> q_blocks q' = [] \<and> has q' Qflow \<and>
     q_len q' < q_limit q' sdiv 2"
  using qconsume_forgets [OF full_of_nothing(1-3), of 5] by (auto simp: full_of_nothing(4))

text \<open>
  pullupqueue does not keep the count of memory that flow control goes by: when it merges a
  block into the one before it and frees it, \<open>len\<close> keeps the freed block's memory; once the
  queue is emptied by qget, \<open>len\<close> is still that much, and if the limit is no more than that
  qpass refuses every block from then on.
\<close>

theorem pullupqueue_len:
  assumes "queue_ok q" and "q_blocks q = [b, c]" and "blen b < n" and "n = blen b + blen c"
    and "n \<le> balloc b - b_rp b" and "q_limit q \<le> balloc c"
  shows "\<exists>q1 fr b' q2 ev. pullupqueue q n = Some (q1, fr) \<and> bdata b' = qdata q \<and> qget q1 = (Some b', q2, ev) \<and>
    q_blocks q2 = [] \<and> q_len q2 = balloc c \<and> (\<forall>bs. qpass q2 bs = Some (-1, q2, [], bs))"
proof -
  have ok: "block_ok b" "block_ok c" "q_len q = balloc b + balloc c" "qdata q = bdata b @ bdata c"
    using assms(1,2) by (auto simp: queue_ok_def qdata_def block_simps)
  have c: "blen c = int (length (bdata c))" using ok(2) by (simp add: blen_bdata)
  have "length (bdata c) \<le> broom b" using assms(4,5) c by (simp add: broom_def blen_def)
  from bappend_fits [OF ok(1) this] obtain b' where b': "bappend b (bdata c) = Some b'" "bdata b' = bdata b @ bdata c"
    "balloc b' = balloc b" by blast
  have m: "n - blen b = blen c" using assms(4) by simp
  have g: "bget c (b_rp c) (blen c) = Some (bdata c)" using ok(2) by (simp add: block_simps)
  have pb: "pullupblock (q_blocks q) n = Some ([b'], [c])"
    using assms(2,3,5) b'(1) g c by (simp add: m Let_def)
  let ?q1 = "q\<lparr>q_blocks := [b']\<rparr>"
  have p: "pullupqueue q n = Some (?q1, [c])"
    using assms(2,3) pb by (simp add: pullupqueue_def)
  obtain q2 ev where q2: "qget ?q1 = (Some b', q2, ev)" "q_blocks q2 = []" "q_len q2 = balloc c" "q_limit q2 = q_limit q"
  proof -
    let ?qa = "?q1\<lparr>q_blocks := [], q_len := q_len ?q1 - balloc b', q_dlen := q_dlen ?q1 - blen b'\<rparr>"
    obtain q2 ev where r: "restart ?qa = (q2, ev)" by fastforce
    then have "q_blocks q2 = []" "q_len q2 = q_len ?qa" "q_limit q2 = q_limit ?qa"
      using restart_ok(3-5) [of ?qa] by simp_all
    with r show thesis using that ok(3) b'(3) by (simp add: qget_def)
  qed
  then have "\<forall>bs. qpass q2 bs = Some (-1, q2, [], bs)" using assms(6) by (simp add: qpass_def)
  with p q2 b'(2) ok(4) show ?thesis by auto
qed

theorem pullupqueue_len_witness:
  "\<exists>q1 fr b' q2 ev. pullupqueue ((qopen 70 0 False)\<lparr>q_blocks := [(block_of [1, 9])\<lparr>b_wp := 73\<rparr>, block_of [2]], q_len := 147, q_dlen := 2\<rparr>) 2
     = Some (q1, fr) \<and> qget q1 = (Some b', q2, ev) \<and> q_blocks q2 = [] \<and> q_len q2 = 73 \<and>
     (\<forall>bs. qpass q2 bs = Some (-1, q2, [], bs))"
proof -
  let ?b = "(block_of [1, 9])\<lparr>b_wp := 73\<rparr>" and ?c = "block_of [2]"
  let ?q = "(qopen 70 0 False)\<lparr>q_blocks := [?b, ?c], q_len := 147, q_dlen := 2\<rparr>"
  have b: "block_ok ?b" "balloc ?b = 74" "blen ?b = 1" "b_rp ?b = 72"
    and c: "block_ok ?c" "balloc ?c = 73" "blen ?c = 1"
    by (simp_all add: block_of_def block_ok_def balloc_def blen_def)
  have "queue_ok ?q" using b c by (simp add: queue_ok_def block_simps)
  moreover have "q_limit ?q \<le> balloc ?c" using c(2) by (simp add: qopen_empty)
  moreover have "blen ?b < 2" "2 = blen ?b + blen ?c" "2 \<le> balloc ?b - b_rp ?b" "q_blocks ?q = [?b, ?c]"
    using b c by simp_all
  ultimately obtain q1 fr b' q2 ev where "pullupqueue ?q 2 = Some (q1, fr)" "qget q1 = (Some b', q2, ev)"
    "q_blocks q2 = []" "q_len q2 = balloc ?c" "\<forall>bs. qpass q2 bs = Some (-1, q2, [], bs)"
    using pullupqueue_len [of ?q ?b ?c 2] by blast
  then show ?thesis unfolding c(2) by blast
qed

end
