(* ===== verification/Qsys.thy ===== *)
theory Qsys
  imports Qstream
begin

text \<open>
  Readers, writers and interrupt routines on one IO queue, as they interleave: each step is what
  one of them does between taking and releasing the queue's lock, a test made without it, a wakeup, or falling asleep.
  \<open>rlock\<close> and \<open>wlock\<close> let one reader and one writer in at a time. \<open>sleep(&r, cond, arg)\<close> tests its condition
  before it sleeps. A wakeup comes after the lock was released, at any later time, and finds only who is asleep by then.
\<close>

subsection \<open>The steps\<close>

datatype reader = R_idle | R_going | R_asleep | R_copy chain int

datatype writer = W_idle | W_check | W_full | W_going | W_asleep

text \<open>\<open>s_ev\<close>: the calls of \<open>wakeup\<close> and \<open>kick\<close> that somebody who released the lock has yet to make.\<close>

record qsys =
  s_q :: queue
  s_rd :: reader
  s_wr :: writer
  s_ev :: "event list"

definition later :: "event list \<Rightarrow> qsys \<Rightarrow> qsys" where
  "later ev s = s\<lparr>s_ev := s_ev s @ ev\<rparr>"

definition woken :: "event \<Rightarrow> qsys \<Rightarrow> qsys" where
  "woken e s = s\<lparr>
     s_rd := (if e = Wakeup_rr \<and> s_rd s = R_asleep then R_idle else s_rd s),
     s_wr := (if e = Wakeup_wr \<and> s_wr s = W_asleep then W_check else s_wr s)\<rparr>"

text \<open>What else goes on, besides qread, qbwrite, qclose and qhangup. \<open>A_note\<close>: a note ends a sleep. \<open>A_list\<close>: qaddlist, qremove and qputback, called
  from outside.\<close>

datatype activity = A_bread | A_pass | A_produce | A_iwrite | A_noblock | A_note | A_reopen | A_setlimit |
  A_get | A_discard | A_consume | A_flush | A_list | A_pullup

text \<open>
  The reader is in qread or qbread: idle, between \<open>qwait\<close>'s last look and its sleep, asleep, or
  copying outside the lock. The writer is in qbwrite: idle, about to test for room, about to set \<open>Qflow\<close> since
  there was none, between that and its sleep, asleep. A round of qiwrite is qiwrite of at most \<open>Maxatomic\<close> bytes.
\<close>

inductive qstep :: "activity set \<Rightarrow> qsys \<Rightarrow> qsys \<Rightarrow> bool" for F where
  read_none: "s_rd s = R_idle \<Longrightarrow> qread_take (s_q s) len = (r, q, fr) \<Longrightarrow>
    r = Returns ([], n) \<or> r = Errors e \<Longrightarrow> qstep F s (s\<lparr>s_q := q\<rparr>)"
| read_wait: "s_rd s = R_idle \<Longrightarrow> qread_take (s_q s) len = (Sleeps, q, fr) \<Longrightarrow>
    qstep F s (s\<lparr>s_q := q, s_rd := R_going\<rparr>)"
| read_copy: "s_rd s = R_idle \<Longrightarrow> 0 \<le> len \<Longrightarrow> qread_take (s_q s) len = (Returns (first, n), q, fr) \<Longrightarrow>
    first \<noteq> [] \<Longrightarrow> bl2mem first len = Some (d, rest, fr2) \<Longrightarrow>
    qstep F s (s\<lparr>s_q := q, s_rd := R_copy rest n\<rparr>)"
| read_end: "s_rd s = R_copy rest n \<Longrightarrow> qread_end (s_q s) rest n = (n', q, ev, fr) \<Longrightarrow>
    qstep F s (later ev (s\<lparr>s_q := q, s_rd := R_idle\<rparr>))"
| bread: "A_bread \<in> F \<Longrightarrow> s_rd s = R_idle \<Longrightarrow> 0 \<le> len \<Longrightarrow> qbread (s_q s) len = Some (r, q, ev) \<Longrightarrow>
    qstep F s (later ev (s\<lparr>s_q := q, s_rd := (if r = Sleeps then R_going else R_idle)\<rparr>))"
| read_sleep: "s_rd s = R_going \<Longrightarrow>
    qstep F s (s\<lparr>s_rd := (if notempty (s_q s) then R_idle else R_asleep)\<rparr>)"
| read_note: "A_note \<in> F \<Longrightarrow> s_rd s = R_going \<or> s_rd s = R_asleep \<Longrightarrow> qstep F s (s\<lparr>s_rd := R_idle\<rparr>)"
| put: "s_wr s = W_idle \<Longrightarrow> block_ok b \<Longrightarrow> qbwrite_put (s_q s) b = (r, q, ev, fr) \<Longrightarrow>
    qstep F s (later ev (s\<lparr>s_q := q, s_wr := (case r of Returns _ \<Rightarrow> W_check | _ \<Rightarrow> W_idle)\<rparr>))"
| check: "s_wr s = W_check \<Longrightarrow>
    qstep F s (s\<lparr>s_wr := (if q_noblock (s_q s) \<or> qnotfull (s_q s) then W_idle else W_full)\<rparr>)"
| flow: "s_wr s = W_full \<Longrightarrow> qstep F s (s\<lparr>s_q := setf Qflow (s_q s), s_wr := W_going\<rparr>)"
| write_sleep: "s_wr s = W_going \<Longrightarrow>
    qstep F s (s\<lparr>s_wr := (if qnotfull (s_q s) then W_check else W_asleep)\<rparr>)"
| write_note: "A_note \<in> F \<Longrightarrow> s_wr s = W_going \<or> s_wr s = W_asleep \<Longrightarrow> qstep F s (s\<lparr>s_wr := W_idle\<rparr>)"
| wake: "e \<in> set (s_ev s) \<Longrightarrow> qstep F s (woken e (s\<lparr>s_ev := remove1 e (s_ev s)\<rparr>))"
| pass: "A_pass \<in> F \<Longrightarrow> chain_ok bs \<Longrightarrow> qpass (s_q s) bs = Some (r, q, ev, fr) \<or> qpassnolim (s_q s) bs = Some (r, q, ev, fr) \<Longrightarrow>
    qstep F s (later ev (s\<lparr>s_q := q\<rparr>))"
| produce: "A_produce \<in> F \<Longrightarrow> 0 \<le> len \<Longrightarrow> qproduce ia mem (s_q s) p len = Some (r, q, ev, ia') \<Longrightarrow>
    qstep F s (later ev (s\<lparr>s_q := q\<rparr>))"
| iwrite: "A_iwrite \<in> F \<Longrightarrow> len = int (length p) \<Longrightarrow> len \<le> Maxatomic \<Longrightarrow>
    qiwrite_loop ia mem (s_q s) p len 0 wake = Some (r, q, ev, ia') \<Longrightarrow> qstep F s (later ev (s\<lparr>s_q := q\<rparr>))"
| close: "qclose (s_q s) = (q, ev, fr) \<Longrightarrow> qstep F s (later ev (s\<lparr>s_q := q\<rparr>))"
| hangup: "qhangup (s_q s) msg = (q, ev) \<Longrightarrow> qstep F s (later ev (s\<lparr>s_q := q\<rparr>))"
| noblock: "A_noblock \<in> F \<Longrightarrow> qstep F s (s\<lparr>s_q := qnoblock (s_q s) onoff\<rparr>)"
| reopen: "A_reopen \<in> F \<Longrightarrow> qstep F s (s\<lparr>s_q := qreopen (s_q s)\<rparr>)"
| setlimit: "A_setlimit \<in> F \<Longrightarrow> qstep F s (s\<lparr>s_q := qsetlimit (s_q s) limit\<rparr>)"
| get: "A_get \<in> F \<Longrightarrow> qget (s_q s) = (r, q, ev) \<Longrightarrow> qstep F s (later ev (s\<lparr>s_q := q\<rparr>))"
| discard: "A_discard \<in> F \<Longrightarrow> 0 \<le> len \<Longrightarrow> qdiscard (s_q s) len = (r, q, ev, fr) \<Longrightarrow>
    qstep F s (later ev (s\<lparr>s_q := q\<rparr>))"
| consume: "A_consume \<in> F \<Longrightarrow> 0 \<le> len \<Longrightarrow> qconsume (s_q s) len = Some (r, d, q, ev, fr) \<Longrightarrow>
    qstep F s (later ev (s\<lparr>s_q := q\<rparr>))"
| flush: "A_flush \<in> F \<Longrightarrow> qflush (s_q s) = (q, ev, fr) \<Longrightarrow> qstep F s (later ev (s\<lparr>s_q := q\<rparr>))"
| add: "A_list \<in> F \<Longrightarrow> chain_ok bs \<Longrightarrow> qstep F s (s\<lparr>s_q := qaddlist (s_q s) bs\<rparr>)"
| remove: "A_list \<in> F \<Longrightarrow> qstep F s (s\<lparr>s_q := snd (qremove (s_q s))\<rparr>)"
| putback: "A_list \<in> F \<Longrightarrow> block_ok b \<Longrightarrow> qstep F s (s\<lparr>s_q := qputback (s_q s) b\<rparr>)"
| pullup: "A_pullup \<in> F \<Longrightarrow> pullupqueue (s_q s) n = Some (q, fr) \<Longrightarrow> qstep F s (s\<lparr>s_q := q\<rparr>)"

inductive qreach :: "activity set \<Rightarrow> queue \<Rightarrow> qsys \<Rightarrow> bool" for F q where
  start: "qreach F q \<lparr>s_q = q, s_rd = R_idle, s_wr = W_idle, s_ev = []\<rparr>"
| step: "qreach F q s \<Longrightarrow> qstep F s t \<Longrightarrow> qreach F q t"

lemma later_simps [simp]: "s_q (later ev s) = s_q s" "s_rd (later ev s) = s_rd s" "s_wr (later ev s) = s_wr s"
  "s_ev (later ev s) = s_ev s @ ev" "later [] s = s"
  by (simp_all add: later_def)

lemma woken_simps [simp]: "s_q (woken e s) = s_q s" "s_ev (woken e s) = s_ev s"
  by (simp_all add: woken_def)

lemma woken_copy [simp]: "(s_rd (woken e s) = R_copy rest n) = (s_rd s = R_copy rest n)"
  by (simp add: woken_def)

subsection \<open>The counters\<close>

text \<open>The queue is sound at every step, and so is what a reader has taken out of it.\<close>

definition sys_ok :: "int \<Rightarrow> qsys \<Rightarrow> bool" where
  "sys_ok limit s = (queue_ok (s_q s) \<and> q_limit (s_q s) = limit \<and>
     (\<forall>rest n. s_rd s = R_copy rest n \<longrightarrow> chain_ok rest \<and> length rest \<le> 1))"

lemma sys_ok_event: "queue_ok q \<Longrightarrow> q_limit q = limit \<Longrightarrow> sys_ok limit s \<Longrightarrow> sys_ok limit (later ev (s\<lparr>s_q := q\<rparr>))"
  by (simp add: sys_ok_def)

lemma qget_limit: "qget q = (r, q', ev) \<Longrightarrow> q_limit q' = q_limit q"
  by (auto simp: qget_def restart_def Let_def queue_simps split: list.splits if_splits)

lemma qdiscard_limit:
  assumes "queue_ok q" "0 \<le> len" "qdiscard q len = (r, q', ev, fr)"
  shows "q_limit q' = q_limit q"
proof -
  from qdiscard_loop_ok [OF assms(1), of 0 len] assms(2) obtain q1 fr1 where q1:
    "qdiscard_loop q len 0 = (min len (q_dlen q), q1, fr1)" "q_limit q1 = q_limit q" by auto
  then have "q' = fst (restart q1)" using assms(3) by (simp add: qdiscard_def split: prod.splits)
  then show ?thesis using q1 by (simp add: queue_simps)
qed

lemma qconsume_limit:
  assumes "queue_ok q" "qconsume q len = Some (r, d, q', ev, fr)"
  shows "q_limit q' = q_limit q"
proof -
  obtain q1 fr1 where q1: "qconsume_skip q [] = (q1, fr1)" "q_limit q1 = q_limit q"
    using qconsume_skip_ok [OF assms(1), of "[]"] by blast
  show ?thesis using assms(2) q1
    by (auto simp: qconsume_def Let_def queue_simps bind_eq_Some_conv case_prod_beta split: list.splits if_splits)
qed

text \<open>One round of \<open>qiwrite\<close>.\<close>

lemma qiwrite_round:
  assumes "len \<le> Maxatomic" "qiwrite_loop ia mem q p len 0 wake = Some (r, q', ev, ia')"
  shows "q' = q \<or> (\<exists>b. q' = fst (feed (q\<lparr>q_blocks := q_blocks q @ [b], q_len := q_len q + balloc b, q_dlen := q_dlen q + len\<rparr>)) \<and>
    (has q Qstarve \<longrightarrow> Wakeup_rr \<in> set ev))"
proof -
  have n: "(if len - 0 > Maxatomic then Maxatomic else len - 0) = len" using assms(1) by simp
  note start = assms(2) [unfolded qiwrite_loop.simps [of ia mem q p len 0 wake] Let_def n]
  then obtain bo ia1 where ib: "iallocb ia (mem 0) len = Some (bo, ia1)" by (auto simp: bind_eq_Some_conv)
  show ?thesis
  proof (cases bo)
    case None
    then show ?thesis using start ib by simp
  next
    case (Some b)
    obtain d where d: "mget len (drop (nat 0) p) = Some d" using start ib Some by (auto simp: bind_eq_Some_conv)
    obtain c where c: "bappend b d = Some c" using start ib Some d by (auto simp: bind_eq_Some_conv)
    show ?thesis
    proof (cases "16 * 1024 \<le> q_dlen q")
      case True
      then show ?thesis using start ib Some d c by simp
    next
      case False
      then show ?thesis using start ib Some d c by (intro disjI2 exI [of _ c]) (auto simp: queue_simps)
    qed
  qed
qed

lemma qiwrite_limit: "len \<le> Maxatomic \<Longrightarrow> qiwrite_loop ia mem q p len 0 wake = Some (r, q', ev, ia') \<Longrightarrow> q_limit q' = q_limit q"
  by (auto dest!: qiwrite_round simp: queue_simps)

lemma qstep_fixed: "qstep F s t \<Longrightarrow> F \<inter> {A_reopen, A_setlimit, A_pullup} = {} \<Longrightarrow> sys_ok limit s \<Longrightarrow> sys_ok limit t"
proof (induction rule: qstep.induct)
  case (read_none s len r q fr n e)
  then have ok: "queue_ok (s_q s)" by (simp add: sys_ok_def)
  from qread_take_ok [OF this, of len] read_none show ?case by (auto simp: sys_ok_def)
next
  case (read_wait s len q fr)
  then have ok: "queue_ok (s_q s)" by (simp add: sys_ok_def)
  from qread_take_ok [OF this, of len] read_wait show ?case by (auto simp: sys_ok_def)
next
  case (read_copy s len first n q fr d rest fr2)
  then have ok: "queue_ok (s_q s)" by (simp add: sys_ok_def)
  with qread_take_ok [OF this, of len] read_copy have t: "queue_ok q" "q_limit q = limit" "chain_ok first"
    "1 < length first \<longrightarrow> blocklen first \<le> len" by (auto simp: sys_ok_def)
  obtain r2 fr3 where "bl2mem first len = Some (take (nat len) (chain_data first), r2, fr3)" "chain_ok r2" "length r2 \<le> 1"
    using bl2mem_taken [OF t(3) read_copy(2) t(4)] by metis
  with t read_copy show ?case by (simp add: sys_ok_def)
next
  case (read_end s rest n n' q ev fr)
  then have "queue_ok (s_q s)" "chain_ok rest" "length rest \<le> 1" by (auto simp: sys_ok_def)
  from qread_end_ok [OF this read_end(2)] read_end show ?case by (simp add: sys_ok_def)
next
  case (bread s len r q ev)
  then have ok: "queue_ok (s_q s)" by (simp add: sys_ok_def)
  have "queue_ok q \<and> q_limit q = q_limit (s_q s)"
  proof (cases "q_blocks (s_q s)")
    case Nil
    then show ?thesis using bread(4) qwait_ok [OF ok]
      by (auto simp: qbread_def qwait_def Let_def split: if_splits)
  next
    case (Cons b bs)
    from qbread_data [OF ok bread(3) Cons] bread(4) show ?thesis by auto
  qed
  with bread show ?case by (simp add: sys_ok_def)
next
  case (put s b r q ev fr)
  then have "queue_ok (s_q s)" by (simp add: sys_ok_def)
  from qbwrite_put_ok [OF this put(2,3)] put show ?case by (simp add: sys_ok_def)
next
  case (flow s)
  then show ?case by (simp add: sys_ok_def queue_ok_def queue_simps)
next
  case (iwrite len p ia mem s wake r q ev ia')
  then have ok: "queue_ok (s_q s)" by (simp add: sys_ok_def)
  show ?case using qiwrite_loop_data [OF ok order_refl _ iwrite(2,4)] qiwrite_limit [OF iwrite(3,4)] iwrite(2,6)
    by (intro sys_ok_event) (auto simp: sys_ok_def)
next
  case (noblock s onoff)
  then show ?case by (simp add: sys_ok_def queue_ok_def qnoblock_def)
next
  case (add bs s)
  then show ?case using append_ok [of "s_q s" bs] by (simp add: sys_ok_def qaddlist_def)
next
  case (remove s)
  then show ?case
    by (cases "q_blocks (s_q s)") (auto simp: sys_ok_def qremove_def queue_ok_def block_simps)
next
  case (putback b s)
  then show ?case using qputback_ok(1) [of "s_q s" b] by (simp add: sys_ok_def) (simp add: qputback_def)
next
  case (pass bs s r q ev fr)
  then have ok: "queue_ok (s_q s)" by (simp add: sys_ok_def)
  from qpass_ok [OF this pass(2,3)] pass show ?case by (intro sys_ok_event) (auto simp: sys_ok_def)
next
  case (produce len ia mem s p r q ev ia')
  then have ok: "queue_ok (s_q s)" by (simp add: sys_ok_def)
  from qproduce_ok [OF this produce(2,3)] produce show ?case by (intro sys_ok_event) (auto simp: sys_ok_def)
next
  case (close s q ev fr)
  then have "queue_ok q" "q_limit q = limit"
    by (auto simp: qclose_def Let_def queue_ok_def block_simps queue_simps sys_ok_def)
  with close show ?case by (intro sys_ok_event) auto
next
  case (hangup s msg q ev)
  then have "queue_ok q" "q_limit q = limit"
    by (auto simp: qhangup_def Let_def queue_simps sys_ok_def)
  with hangup show ?case by (intro sys_ok_event) auto
next
  case (get s r q ev)
  then have ok: "queue_ok (s_q s)" by (simp add: sys_ok_def)
  from qget_ok [OF this get(2)] qget_limit [OF get(2)] get show ?case
    by (intro sys_ok_event) (auto simp: sys_ok_def)
next
  case (discard len s r q ev fr)
  then have ok: "queue_ok (s_q s)" by (simp add: sys_ok_def)
  from qdiscard_data [OF this discard(2)] qdiscard_limit [OF ok discard(2,3)] discard show ?case
    by (intro sys_ok_event) (auto simp: sys_ok_def)
next
  case (consume len s r d q ev fr)
  then have ok: "queue_ok (s_q s)" by (simp add: sys_ok_def)
  have "queue_ok q"
    using qconsume_empty [OF ok, of len] qconsume_data [OF ok consume(2)] consume(3)
    by (cases "qdata (s_q s) = []") auto
  with qconsume_limit [OF ok consume(3)] consume show ?case
    by (intro sys_ok_event) (auto simp: sys_ok_def)
next
  case (flush s q ev fr)
  then have "queue_ok q" "q_limit q = limit"
    by (auto simp: qflush_def queue_ok_def block_simps sys_ok_def)
  with flush show ?case by (intro sys_ok_event) auto
qed (auto simp: sys_ok_def)

text \<open>Reopening and setting the limit change the limit, and no counter.\<close>

lemma qstep_fixes: "qstep F s t \<Longrightarrow> qstep (F - {A_reopen, A_setlimit}) s t \<or>
    (\<exists>q l. t = s\<lparr>s_q := q\<rparr> \<and> (q = qreopen (s_q s) \<or> q = qsetlimit (s_q s) l))"
  by (induction rule: qstep.induct) (blast intro: qstep.intros)+

lemma qstep_ok:
  assumes "qstep F s t" "A_pullup \<notin> F" "sys_ok limit s"
  shows "sys_ok (q_limit (s_q t)) t"
  using qstep_fixes [OF assms(1)]
proof
  assume "qstep (F - {A_reopen, A_setlimit}) s t"
  from qstep_fixed [OF this _ assms(3)] assms(2) have "sys_ok limit t" by blast
  then show ?thesis by (simp add: sys_ok_def)
next
  assume "\<exists>q l. t = s\<lparr>s_q := q\<rparr> \<and> (q = qreopen (s_q s) \<or> q = qsetlimit (s_q s) l)"
  then show ?thesis using assms(3) by (auto simp: sys_ok_def queue_ok_def qreopen_def qsetlimit_def queue_simps)
qed

lemma qreach_ok:
  assumes "qreach F q s" "queue_ok q" "A_pullup \<notin> F"
  shows "sys_ok (q_limit (s_q s)) s \<and> (F \<inter> {A_reopen, A_setlimit} = {} \<longrightarrow> q_limit (s_q s) = q_limit q)"
  using assms(1)
proof (induction rule: qreach.induct)
  case start
  then show ?case using assms(2) by (simp add: sys_ok_def)
next
  case (step s t)
  then have "sys_ok (q_limit (s_q t)) t" using qstep_ok [OF step(2) assms(3)] by blast
  moreover have "q_limit (s_q t) = q_limit q" if "F \<inter> {A_reopen, A_setlimit} = {}"
    using step qstep_fixed [OF step(2), of "q_limit q"] that assms(3) by (auto simp: sys_ok_def)
  ultimately show ?case by blast
qed

subsection \<open>No reader sleeps on\<close>









subsection \<open>No writer sleeps on\<close>

text \<open>Whether a queue coalesces never changes.\<close>

lemma has_ops [queue_simps]:
  "has (fst (restart q)) Qcoalesce = has q Qcoalesce" "has (fst (qwakeup_iunlock q)) Qcoalesce = has q Qcoalesce"
  "has (fst (feed q)) Qcoalesce = has q Qcoalesce" "has (snd (qremove q)) f = has q f" "has (qputback q b) f = has q f"
  "has (snd (qwait q)) Qcoalesce = has q Qcoalesce"
  by (auto simp: restart_def qwakeup_iunlock_def feed_def qwait_def Let_def queue_simps)
    (auto simp: has_def qremove_def qputback_def split: list.splits)

lemma has_pairs:
  "restart q = (q', ev) \<Longrightarrow> has q' Qcoalesce = has q Qcoalesce"
  "qwakeup_iunlock q = (q', ev) \<Longrightarrow> has q' Qcoalesce = has q Qcoalesce"
  using has_ops(1,2) [of q] by simp_all

lemma qbread_coalesce: "qbread q len = Some (r, q', ev) \<Longrightarrow> has q' Qcoalesce = has q Qcoalesce"
proof -
  assume a: "qbread q len = Some (r, q', ev)"
  obtain w q1 where w: "qwait q = (w, q1)" by (cases "qwait q") auto
  obtain b q2 where b: "qremove q1 = (b, q2)" by (cases "qremove q1") auto
  have h: "has q1 Qcoalesce = has q Qcoalesce" "has q2 Qcoalesce = has q1 Qcoalesce"
    using has_ops(6) [of q] has_ops(4) [of q1] w b by simp_all
  show ?thesis using a w b h
    by (auto simp: qbread_def Let_def queue_simps bind_eq_Some_conv case_prod_beta
        dest!: has_pairs split: option.splits if_splits)
qed


lemma qproduce_coalesce: "qproduce ia mem q p len = Some (n, q', ev, ia') \<Longrightarrow> has q' Qcoalesce = has q Qcoalesce"
  by (auto simp: qproduce_def Let_def queue_simps bind_eq_Some_conv case_prod_beta split: option.splits if_splits)

lemma qdiscard_coalesce:
  assumes "queue_ok q" "0 \<le> len" "qdiscard q len = (r, q', ev, fr)"
  shows "has q' Qcoalesce = has q Qcoalesce"
proof -
  from qdiscard_loop_ok [OF assms(1), of 0 len] assms(2) obtain q1 fr1 where q1:
    "qdiscard_loop q len 0 = (min len (q_dlen q), q1, fr1)" "q_state q1 = q_state q" by auto
  then have "q' = fst (restart q1)" using assms(3) by (simp add: qdiscard_def split: prod.splits)
  then show ?thesis using q1(2) by (simp add: queue_simps) (simp add: has_def)
qed












subsection \<open>The properties\<close>


lemma put_open:
  "\<not> q_bypass q \<Longrightarrow> \<not> has q Qclosed \<Longrightarrow> \<not> q_noblock q \<Longrightarrow> \<not> q_kick q \<Longrightarrow>
   qbwrite_put q b =
     (let q' = q\<lparr>q_blocks := q_blocks q @ [b], q_len := q_len q + balloc b, q_dlen := q_dlen q + blen b\<rparr> in
      if has q Qstarve then (Returns (blen b), clearf Qstarve q', [Wakeup_rr], [])
      else (Returns (blen b), q', [], []))"
  by (simp add: qbwrite_put_def feed_def Let_def queue_simps)

text \<open>
  C22. The counters that flow control goes by are exact at every moment, however readers,
  writers, interrupt routines, flushes, closes and the other operations of \<open>qio.c\<close> interleave: \<open>len\<close> is the memory of the queued
  blocks and \<open>dlen\<close> their data, and every block is sound. The limit changes only when a queue is reopened or its limit set. The
  one operation that does not keep the counters is \<open>pullupqueue\<close>, which only the mount driver calls, and the runs
  with a step of it are excluded; \<open>pullup_breaks_len\<close> shows such a run. \<open>qwrite\<close> and \<open>qiwrite\<close> are here as the rounds they consist of,
  \<open>qfree\<close> as the \<open>qclose\<close> it starts with, and \<open>qcopy\<close> only reads.
\<close>

theorem qio_counters:
  assumes "qreach F q s" and "queue_ok q" and "A_pullup \<notin> F"
  shows "q_len (s_q s) = blockalloclen (q_blocks (s_q s)) \<and> q_dlen (s_q s) = int (length (qdata (s_q s))) \<and>
    chain_ok (q_blocks (s_q s)) \<and> (A_reopen \<notin> F \<and> A_setlimit \<notin> F \<longrightarrow> q_limit (s_q s) = q_limit q)"
  using qreach_ok [OF assms] by (simp add: sys_ok_def queue_ok_def qdata_def blocklen_data)

definition after_put :: qsys where
  "after_put = \<lparr>s_q = clearf Qstarve ((qopen 1000 0 False)\<lparr>q_blocks := [block_of [1]],
      q_len := balloc (block_of [1]), q_dlen := 1\<rparr>), s_rd = R_idle, s_wr = W_check, s_ev = [Wakeup_rr]\<rparr>"

lemma after_put: "qreach {} (qopen 1000 0 False) after_put"
proof -
  let ?q = "qopen 1000 0 False"
  have o: "\<not> q_bypass ?q" "\<not> has ?q Qclosed" "\<not> q_noblock ?q" "\<not> q_kick ?q" "has ?q Qstarve" "q_dlen ?q = 0"
    by (simp_all add: qopen_empty has_qopen flag_defs) (simp_all add: qopen_def queue_simps)
  have l: "blen (block_of [1]) = 1" by (simp add: blen_bdata block_of_ok)
  have "qbwrite_put ?q (block_of [1]) = (Returns 1, clearf Qstarve (?q\<lparr>q_blocks := [block_of [1]],
      q_len := balloc (block_of [1]), q_dlen := 1\<rparr>), [Wakeup_rr], [])"
    using put_open [OF o(1-4), of "block_of [1]"] o(5,6) by (simp add: l qopen_empty)
  from qreach.step [OF qreach.start qstep.put [OF _ block_of_ok(1)], OF _ this[THEN trans[rotated]]]
  show ?thesis by (simp add: after_put_def later_def)
qed

theorem qio_counters_witness: "q_dlen (s_q after_put) = int (length (qdata (s_q after_put)))"
  using qio_counters [OF after_put qopen_empty(1)] by simp

lemma pullup_breaks_len:
  "\<exists>q s. queue_ok q \<and> qreach {A_pullup} q s \<and> q_len (s_q s) \<noteq> blockalloclen (q_blocks (s_q s))"
proof -
  let ?b = "(block_of [1, 9])\<lparr>b_wp := 73\<rparr>" and ?c = "block_of [2]"
  let ?q = "(qopen 70 0 False)\<lparr>q_blocks := [?b, ?c], q_len := 147, q_dlen := 2\<rparr>"
  have b: "block_ok ?b" "balloc ?b = 74" "blen ?b = 1" "b_rp ?b = 72" "broom ?b = 1"
    and c: "block_ok ?c" "balloc ?c = 73" "blen ?c = 1" "bget ?c (b_rp ?c) 1 = Some [2]"
    by (simp_all add: block_of_def block_ok_def balloc_def blen_def broom_def bget_def)
  obtain b' where b': "bappend ?b [2] = Some b'" "balloc b' = 74"
    using bappend_fits [OF b(1), of "[2]"] b(2,5) by auto
  have "pullupqueue ?q 2 = Some (?q\<lparr>q_blocks := [b']\<rparr>, [?c])"
    using b c b' by (simp add: pullupqueue_def Let_def)
  then have "qreach {A_pullup} ?q \<lparr>s_q = ?q\<lparr>q_blocks := [b']\<rparr>, s_rd = R_idle, s_wr = W_idle, s_ev = []\<rparr>"
    using qreach.step [OF qreach.start qstep.pullup [of "{A_pullup}" _ 2]] by simp
  moreover have "queue_ok ?q" using b c by (simp add: queue_ok_def block_simps)
  ultimately show ?thesis using b'(2)
    by (intro exI [of _ ?q] exI [of _ "\<lparr>s_q = ?q\<lparr>q_blocks := [b']\<rparr>, s_rd = R_idle, s_wr = W_idle, s_ev = []\<rparr>"]) (simp add: block_simps)
qed





end
