(* ===== verification/Netbytes.thy ===== *)
theory Netbytes
  imports Wire
begin

text \<open>
  Network byte order (\<open>libip/bo.c\<close>) and the embedding of version 4 addresses in version 6
  addresses (\<open>libip/ipaux.c\<close>). A pointer is the list of the bytes from it on; reading beyond them
  is \<^term>\<open>None\<close>. The encoders are the ones of the 9P wire in reverse, so the round trips come
  from the interpretations of \<open>fixed_codec\<close> there and are stated again for the big-endian pair by
  another interpretation.
\<close>

definition hnputv :: "u64 \<Rightarrow> bytes" where
  "hnputv v = [ucast (drop_bit 56 v), ucast (drop_bit 48 v), ucast (drop_bit 40 v), ucast (drop_bit 32 v),
     ucast (drop_bit 24 v), ucast (drop_bit 16 v), ucast (drop_bit 8 v), ucast v]"

definition hnputl :: "u32 \<Rightarrow> bytes" where
  "hnputl v = [ucast (drop_bit 24 v), ucast (drop_bit 16 v), ucast (drop_bit 8 v), ucast v]"

definition hnputs :: "u16 \<Rightarrow> bytes" where
  "hnputs v = [ucast (drop_bit 8 v), ucast v]"

text \<open>
  The compiler promotes an unsigned char to unsigned int (\<open>arith\<close> of \<open>cmd/cc/sub.c\<close> adds 2 to the
  type until it is int or more), so no shift touches a sign.
\<close>

fun nhgetv :: "bytes \<Rightarrow> u64 option" where
  "nhgetv (a # b # c # d # e # f # g # h # p) =
     Some (push_bit 56 (ucast a) OR push_bit 48 (ucast b) OR push_bit 40 (ucast c) OR push_bit 32 (ucast d) OR
       ucast (push_bit 24 (ucast e) :: u32) OR ucast (push_bit 16 (ucast f) :: u32) OR
       ucast (push_bit 8 (ucast g) :: u32) OR ucast h)"
| "nhgetv _ = None"

fun nhgetl :: "bytes \<Rightarrow> u32 option" where
  "nhgetl (a # b # c # d # p) = Some (push_bit 24 (ucast a) OR push_bit 16 (ucast b) OR push_bit 8 (ucast c) OR ucast d)"
| "nhgetl _ = None"

fun nhgets :: "bytes \<Rightarrow> u16 option" where
  "nhgets (a # b # p) = Some (push_bit 8 (ucast a) OR ucast b)"
| "nhgets _ = None"

lemma nhgetl_gbit32: "length p = 4 \<Longrightarrow> nhgetl p = map_option fst (gbit32 (rev p))"
  by (cases p rule: nhgetl.cases) (auto simp: or.commute or.left_commute or.assoc)

lemma nhgets_gbit16: "length p = 2 \<Longrightarrow> nhgets p = map_option fst (gbit16 (rev p))"
  by (cases p rule: nhgets.cases) (auto simp: or.commute)

lemma hnput_rev: "hnputl v = rev (pbit32 v)" "hnputs s = rev (pbit16 s)" "hnputv w = rev (pbit64 w)"
  by (simp_all add: hnputl_def pbit32_def hnputs_def pbit16_def hnputv_def pbit64_def)

lemma hnput_lengths [wire_simps, simp]: "length (hnputl v) = 4" "length (hnputs s) = 2" "length (hnputv w) = 8"
  by (simp_all add: hnputl_def hnputs_def hnputv_def)

lemma nhgetl_hnputl [wire_simps, simp]: "nhgetl (hnputl v @ r) = Some v"
proof -
  have "nhgetl (hnputl v @ r) = nhgetl (hnputl v)" by (simp add: hnputl_def)
  also have "\<dots> = Some v"
    using gbit32_pbit32 [of v "[]"] by (simp add: nhgetl_gbit32) (simp add: hnput_rev)
  finally show ?thesis .
qed

lemma nhgets_hnputs [wire_simps, simp]: "nhgets (hnputs v @ r) = Some v"
proof -
  have "nhgets (hnputs v @ r) = nhgets (hnputs v)" by (simp add: hnputs_def)
  also have "\<dots> = Some v"
    using gbit16_pbit16 [of v "[]"] by (simp add: nhgets_gbit16) (simp add: hnput_rev)
  finally show ?thesis .
qed

lemma byte_join64:
  "(push_bit 56 (ucast (ucast (drop_bit 56 v) :: u8)) OR push_bit 48 (ucast (ucast (drop_bit 48 v) :: u8))
    OR push_bit 40 (ucast (ucast (drop_bit 40 v) :: u8)) OR push_bit 32 (ucast (ucast (drop_bit 32 v) :: u8))
    OR ucast (push_bit 24 (ucast (ucast (drop_bit 24 v) :: u8)) :: u32)
    OR ucast (push_bit 16 (ucast (ucast (drop_bit 16 v) :: u8)) :: u32)
    OR ucast (push_bit 8 (ucast (ucast (drop_bit 8 v) :: u8)) :: u32)
    OR ucast (ucast v :: u8)) = (v :: u64)" (is "?j = _")
proof (rule bit_word_eqI)
  fix n assume n: "n < LENGTH(64)"
  consider "n < 8" | "\<not> n < 8" "n < 16" | "\<not> n < 16" "n < 24" | "\<not> n < 24" "n < 32" | "\<not> n < 32" "n < 40"
    | "\<not> n < 40" "n < 48" | "\<not> n < 48" "n < 56" | "\<not> n < 56" by blast
  then show "bit ?j n = bit v n"
    by cases (use n in \<open>auto simp: bit_simps\<close>)
qed

lemma nhgetv_hnputv [wire_simps, simp]: "nhgetv (hnputv v @ r) = Some v"
  using byte_join64 [of v] by (simp add: hnputv_def)

lemma nhgetl_Some: "4 \<le> length p \<Longrightarrow> \<exists>v. nhgetl p = Some v"
  by (cases p rule: nhgetl.cases) auto

interpretation hnl: fixed_codec hnputl "\<lambda>p. map_option (\<lambda>v. (v, drop 4 p)) (nhgetl p)" "\<lambda>_. True" 4
  by unfold_locales simp_all

interpretation hns: fixed_codec hnputs "\<lambda>p. map_option (\<lambda>v. (v, drop 2 p)) (nhgets p)" "\<lambda>_. True" 2
  by unfold_locales simp_all

interpretation hnv: fixed_codec hnputv "\<lambda>p. map_option (\<lambda>v. (v, drop 8 p)) (nhgetv p)" "\<lambda>_. True" 8
  by unfold_locales simp_all

subsection \<open>Version 4 addresses in version 6 addresses\<close>

definition v4prefix :: bytes where "v4prefix = [0,0,0,0, 0,0,0,0, 0,0,0xff,0xff, 0,0,0,0]"
definition IPnoaddr :: bytes where "IPnoaddr = replicate 16 0"

definition isv4 :: "bytes \<Rightarrow> bool" where
  "isv4 ip = (take 12 ip = take 12 v4prefix)"

definition v4tov6 :: "bytes \<Rightarrow> bytes option" where
  "v4tov6 v4 = map_option (\<lambda>a. take 12 v4prefix @ a) (mem_read 4 v4)"

text \<open>The result and the four bytes stored.\<close>

definition v6tov4 :: "bytes \<Rightarrow> int \<times> bytes" where
  "v6tov4 v6 = (if take 12 v6 = [0,0,0,0, 0,0,0,0, 0,0,0xff,0xff] then (0, take 4 (drop 12 v6))
     else if take 16 v6 = IPnoaddr then (0, replicate 4 0) else (-1, replicate 4 0))"

lemma v6tov4_v4tov6: "v4tov6 v4 = Some v6 \<Longrightarrow> v6tov4 v6 = (0, take 4 v4) \<and> isv4 v6"
  by (auto simp: v4tov6_def mem_read_eq_Some v6tov4_def isv4_def v4prefix_def)

end
