(* ===== verification/Iproute.thy ===== *)
theory Iproute
  imports Nix_Prelude "HOL-Library.Multiset"
begin

text \<open>
  The IP routing trees of \<open>ip/iproute.c\<close>: a search tree of disjoint address ranges, each node with
  a third subtree \<open>mid\<close> for the ranges inside its own. The code has every comparison twice, for
  the 32-bit addresses of version 4 and the four words of version 6; here the tree is over any
  linear order, and the theory of the forest makes the word arrays one. A \<open>Route*\<close> with its
  three links is a tree; nil is \<open>Nil\<close>. The free lists only recycle memory and are left out.
\<close>

subsection \<open>Data\<close>

definition Rv4 :: u8 where "Rv4 = 1"
definition Rifc :: u8 where "Rifc = 2"
definition Rptpt :: u8 where "Rptpt = 4"
definition Runi :: u8 where "Runi = 8"
definition Rbcast :: u8 where "Rbcast = 16"
definition Rmulti :: u8 where "Rmulti = 32"

record 'a route =
  r_depth :: u8
  r_type :: u8
  r_ifcid :: u8
  r_ifc :: "nat option"
  r_tag :: bytes
  r_ref :: int
  r_addr :: 'a
  r_end :: 'a
  r_gate :: bytes

datatype 'a rtree = Nil | Node "'a route" (left: "'a rtree") (mid: "'a rtree") (right: "'a rtree")

datatype order = Rpreceeds | Rfollows | Requals | Rcontains | Rcontained

definition rangecompare :: "('a::linorder) route \<Rightarrow> 'a route \<Rightarrow> order" where
  "rangecompare a b =
     (if r_end a < r_addr b then Rpreceeds
      else if r_addr a > r_end b then Rfollows
      else if r_addr a \<le> r_addr b \<and> r_end a \<ge> r_end b then
        (if r_addr a = r_addr b \<and> r_end a = r_end b then Requals else Rcontains)
      else Rcontained)"

subsection \<open>Adding\<close>

definition copygate :: "'a route \<Rightarrow> 'a route \<Rightarrow> 'a route" where
  "copygate old new = old\<lparr>r_gate := r_gate new\<rparr>"

fun depth :: "'a rtree \<Rightarrow> u8" where
  "depth Nil = 0"
| "depth (Node r l m rt) = r_depth r"

text \<open>\<open>d\<close> is an int, the depth field an unsigned char.\<close>

fun calcd :: "'a rtree \<Rightarrow> 'a rtree" where
  "calcd Nil = Nil"
| "calcd (Node r l m rt) =
     (let d = 0;
          d = (if l \<noteq> Nil then unat (depth l) else d);
          d = (if rt \<noteq> Nil \<and> unat (depth rt) > d then unat (depth rt) else d);
          d = (if m \<noteq> Nil \<and> unat (depth m) > d then unat (depth m) else d) in
      Node (r\<lparr>r_depth := of_nat (d + 1)\<rparr>) l m rt)"

text \<open>The rotations store through \<open>l\<close> or \<open>r\<close>, which are not nil there: a nil has depth 0.\<close>

fun balancetree :: "'a rtree \<Rightarrow> 'a rtree" where
  "balancetree Nil = Nil"
| "balancetree (Node p l m r) =
     (let dl = unat (depth l); dr = unat (depth r) in
      if dl > dr + 1 then
        (case l of
          Node lr ll lm lrt \<Rightarrow> calcd (Node lr ll lm (calcd (Node p lrt m r)))
        | Nil \<Rightarrow> Nil)
      else if dr > dl + 1 then
        (case r of
          Node rr rl rm rrt \<Rightarrow> calcd (Node rr (calcd (Node p l m rl)) rm rrt)
        | Nil \<Rightarrow> Nil)
      else calcd (Node p l m r))"

definition addqueue :: "'a rtree list \<Rightarrow> 'a rtree \<Rightarrow> 'a rtree list" where
  "addqueue q r = (if r = Nil then q else r # q)"

text \<open>The old entry \<open>p\<close> after a new one with the same range: superseded, or shared.\<close>

definition supersede :: "'a route \<Rightarrow> 'a route \<Rightarrow> 'a route" where
  "supersede p new =
     (if r_type p AND Rifc = 0 then copygate (p\<lparr>r_type := r_type new, r_ifcid := -1\<rparr>) new
      else if r_type new AND Rifc \<noteq> 0 then p\<lparr>r_ref := r_ref p + 1\<rparr>
      else p)"

text \<open>
  \<open>addnode\<close> of the node \<open>new\<close> with the subtree \<open>nm\<close> in its \<open>mid\<close> (its other links are nil
  whenever it is called) to a tree; the second result is \<open>f->queue\<close>.
\<close>

fun addnode :: "('a::linorder) rtree \<Rightarrow> 'a route \<Rightarrow> 'a rtree \<Rightarrow> 'a rtree list \<Rightarrow> 'a rtree \<times> 'a rtree list" where
  "addnode Nil new nm q = (Node (new\<lparr>r_depth := 1\<rparr>) Nil nm Nil, q)"
| "addnode (Node p l m r) new nm q =
     (let (t, q) = (case rangecompare new p of
          Rpreceeds \<Rightarrow> (let (l, q) = addnode l new nm q in (Node p l m r, q))
        | Rfollows \<Rightarrow> (let (r, q) = addnode r new nm q in (Node p l m r, q))
        | Rcontains \<Rightarrow> (Node (new\<lparr>r_depth := 1\<rparr>) Nil nm Nil, addqueue q (Node p l m r))
        | Requals \<Rightarrow> (Node (supersede p new) l m r, q)
        | Rcontained \<Rightarrow> (let (m, q) = addnode m new nm q in (Node p l m r, q)))
      in (balancetree t, q))"

fun walkadd :: "('a::linorder) rtree \<Rightarrow> 'a rtree list \<Rightarrow> 'a rtree \<Rightarrow> 'a rtree \<times> 'a rtree list" where
  "walkadd root q Nil = (root, q)"
| "walkadd root q (Node p l m r) =
     (let (root, q) = addnode root p m q;
          (root, q) = walkadd root q l in
      walkadd root q r)"

text \<open>\<open>while(p = f->queue)\<close>: it may queue more than it takes, so whether it ends is to be proved.\<close>

partial_function (option) drain :: "('a::linorder) rtree \<Rightarrow> 'a rtree list \<Rightarrow> 'a rtree option" where
  "drain root q = (case q of
      [] \<Rightarrow> Some root
    | p # q \<Rightarrow> (let (root, q) = walkadd root q p in drain root q))"

declare drain.simps [code]

text \<open>What v4addroute and v6addroute do in one tree while they hold the lock.\<close>

definition tree_add :: "('a::linorder) rtree \<Rightarrow> 'a route \<Rightarrow> 'a rtree option" where
  "tree_add root p = (let (root, q) = addnode root p Nil [] in drain root q)"

subsection \<open>Deleting\<close>

text \<open>\<open>looknode\<close>: the subtree at the place it returns, and that place with another tree put there.\<close>

fun looknode :: "('a::linorder) rtree \<Rightarrow> 'a route \<Rightarrow> 'a rtree" where
  "looknode Nil r = Nil"
| "looknode (Node p l m rt) r = (case rangecompare r p of
      Rcontains \<Rightarrow> Nil
    | Rpreceeds \<Rightarrow> looknode l r
    | Rfollows \<Rightarrow> looknode rt r
    | Rcontained \<Rightarrow> looknode m r
    | Requals \<Rightarrow> Node p l m rt)"

fun putnode :: "('a::linorder) rtree \<Rightarrow> 'a route \<Rightarrow> 'a rtree \<Rightarrow> 'a rtree" where
  "putnode Nil r s = Nil"
| "putnode (Node p l m rt) r s = (case rangecompare r p of
      Rcontains \<Rightarrow> Node p l m rt
    | Rpreceeds \<Rightarrow> Node p (putnode l r s) m rt
    | Rfollows \<Rightarrow> Node p l m (putnode rt r s)
    | Rcontained \<Rightarrow> Node p l (putnode m r s) rt
    | Requals \<Rightarrow> s)"

definition tree_del :: "('a::linorder) rtree \<Rightarrow> 'a route \<Rightarrow> 'a rtree option" where
  "tree_del root r = (case looknode root r of
      Nil \<Rightarrow> Some root
    | Node p l m rt \<Rightarrow>
        if r_ref p - 1 = 0
        then drain (putnode root r Nil) (addqueue (addqueue (addqueue [] l) m) rt)
        else Some (putnode root r (Node (p\<lparr>r_ref := r_ref p - 1\<rparr>) l m rt)))"

subsection \<open>Looking up\<close>

text \<open>The search of v4lookup and v6lookup; \<open>q\<close> is the last route passed that holds the address.\<close>

fun search :: "('a::linorder) rtree \<Rightarrow> 'a \<Rightarrow> 'a route option \<Rightarrow> 'a route option" where
  "search Nil la q = q"
| "search (Node p l m r) la q =
     (if la \<ge> r_addr p then
        (if la \<le> r_end p then search m la (Some p) else search r la q)
      else search l la q)"

text \<open>The same place in the tree, with the route there changed (\<open>q->ifc = ifc\<close>).\<close>

fun update_found :: "('a::linorder) rtree \<Rightarrow> 'a \<Rightarrow> ('a route \<Rightarrow> 'a route) \<Rightarrow> 'a rtree" where
  "update_found Nil la g = Nil"
| "update_found (Node p l m r) la g =
     (if la \<ge> r_addr p then
        (if la \<le> r_end p then
           (if search m la None = None then Node (g p) l m r else Node p l (update_found m la g) r)
         else Node p l m (update_found r la g))
      else Node p (update_found l la g) m r)"

subsection \<open>Ranges\<close>

definition valid :: "('a::linorder) route \<Rightarrow> bool" where
  "valid a = (r_addr a \<le> r_end a)"

definition precedes :: "('a::linorder) route \<Rightarrow> 'a route \<Rightarrow> bool" where
  "precedes a b = (r_end a < r_addr b)"

definition inside :: "('a::linorder) route \<Rightarrow> 'a route \<Rightarrow> bool" where
  "inside a b = (r_addr b \<le> r_addr a \<and> r_end a \<le> r_end b)"

definition key :: "'a route \<Rightarrow> 'a \<times> 'a" where
  "key a = (r_addr a, r_end a)"

definition holds :: "('a::linorder) route \<Rightarrow> 'a \<Rightarrow> bool" where
  "holds a x = (r_addr a \<le> x \<and> x \<le> r_end a)"

text \<open>Address ranges of prefixes are disjoint or nested.\<close>

definition lam :: "('a::linorder) route \<Rightarrow> 'a route \<Rightarrow> bool" where
  "lam a b = (precedes a b \<or> precedes b a \<or> inside a b \<or> inside b a)"

lemmas range_defs = valid_def precedes_def inside_def key_def holds_def lam_def

named_theorems route_simps \<open>what the bookkeeping fields of a route do not change\<close>

definition strip :: "'a route \<Rightarrow> 'a route" where
  "strip r = r\<lparr>r_depth := 0\<rparr>"

lemma strip_same [route_simps]:
  "strip (strip r) = strip r" "strip (r\<lparr>r_depth := d\<rparr>) = strip r" "key (strip r) = key r"
  "key (r\<lparr>r_depth := d\<rparr>) = key r"
  by (simp_all add: strip_def key_def)

lemma strip_simps [route_simps]:
  "valid (strip r) = valid r" "precedes (strip r) s = precedes r s" "precedes s (strip r) = precedes s r"
  "inside (strip r) s = inside r s" "inside s (strip r) = inside s r"
  "lam (strip r) s = lam r s" "lam s (strip r) = lam s r"
  "holds (strip r) x = holds r x"
  "valid (r\<lparr>r_depth := d\<rparr>) = valid r" "precedes (r\<lparr>r_depth := d\<rparr>) s = precedes r s"
  "precedes s (r\<lparr>r_depth := d\<rparr>) = precedes s r" "inside (r\<lparr>r_depth := d\<rparr>) s = inside r s"
  "inside s (r\<lparr>r_depth := d\<rparr>) = inside s r"
  by (simp_all add: strip_def range_defs)

lemma supersede_simps [route_simps]:
  "valid (supersede p n) = valid p" "precedes (supersede p n) s = precedes p s"
  "precedes s (supersede p n) = precedes s p" "inside (supersede p n) s = inside p s"
  "inside s (supersede p n) = inside s p" "key (supersede p n) = key p"
  "strip (supersede p n) = supersede (strip p) n" "lam (supersede p n) s = lam p s"
  by (simp_all add: supersede_def copygate_def range_defs strip_def)

lemma rangecompare_cases:
  assumes "valid a" "valid b" "lam b a"
  shows "rangecompare a b = (if precedes a b then Rpreceeds else if precedes b a then Rfollows
    else if key a = key b then Requals else if inside b a then Rcontains else Rcontained)"
    and "rangecompare a b = Rcontained \<Longrightarrow> inside a b \<and> key a \<noteq> key b"
  using assms by (auto simp: rangecompare_def range_defs split: if_split_asm)

subsection \<open>The search order\<close>

fun rms :: "'a rtree \<Rightarrow> 'a route multiset" where
  "rms Nil = {#}"
| "rms (Node p l m r) = add_mset (strip p) (rms l + rms m + rms r)"

fun tree_ok :: "('a::linorder) rtree \<Rightarrow> bool" where
  "tree_ok Nil = True"
| "tree_ok (Node p l m r) =
     (valid p \<and> (\<forall>x \<in># rms l. precedes x p) \<and> (\<forall>x \<in># rms r. precedes p x) \<and>
      (\<forall>x \<in># rms m. inside x p \<and> key x \<noteq> key p) \<and> tree_ok l \<and> tree_ok m \<and> tree_ok r)"

lemma tree_ok_valid: "tree_ok t \<Longrightarrow> x \<in># rms t \<Longrightarrow> valid x"
  by (induction t) (auto simp: route_simps)

lemma precedes_trans: "precedes a b \<Longrightarrow> valid b \<Longrightarrow> precedes b c \<Longrightarrow> precedes a c"
  by (auto simp: range_defs)

lemma precedes_inside: "precedes a b \<Longrightarrow> inside c b \<Longrightarrow> precedes a c" "precedes b a \<Longrightarrow> inside c b \<Longrightarrow> precedes c a"
  by (auto simp: range_defs)

lemma precedes_not_inside: "precedes a b \<Longrightarrow> valid a \<Longrightarrow> valid b \<Longrightarrow> \<not> inside a b \<and> \<not> inside b a \<and> key a \<noteq> key b \<and> \<not> precedes b a"
  by (auto simp: range_defs)

lemma inside_trans: "inside a b \<Longrightarrow> inside b c \<Longrightarrow> inside a c"
  by (auto simp: range_defs)

lemma inside_antisym: "inside a b \<Longrightarrow> inside b a \<Longrightarrow> key a = key b"
  by (auto simp: range_defs)

lemma calcd_rms [simp]: "rms (calcd t) = rms t"
  by (cases t) (simp_all add: Let_def route_simps)

lemma calcd_ok [simp]: "tree_ok (calcd t) = tree_ok t"
  by (cases t) (simp_all add: Let_def route_simps)

declare calcd.simps [simp del]

lemma balancetree_same [simp]: "rms (balancetree t) = rms t"
proof (cases t)
  case (Node p l m r)
  then show ?thesis by (cases l; cases r) (simp_all add: Let_def)
qed simp

lemma balancetree_ok: "tree_ok t \<Longrightarrow> tree_ok (balancetree t)"
proof (cases t)
  case (Node p l m r)
  assume ok: "tree_ok t"
  have rot_l: "tree_ok (Node lp ll lm (Node p lr m r))" if "l = Node lp ll lm lr" for lp ll lm lr
    using ok Node that by (auto simp: route_simps intro: precedes_trans precedes_inside)
  have rot_r: "tree_ok (Node rp (Node p l m rl) rm rr)" if "r = Node rp rl rm rr" for rp rl rm rr
    using ok Node that by (auto simp: route_simps intro: precedes_trans precedes_inside)
  show ?thesis
    using ok Node rot_l rot_r
    by (cases l; cases r) (simp_all add: Let_def)
qed simp

declare balancetree.simps [simp del]

text \<open>
  What has to hold of the trees \<open>a\<close> and \<open>b\<close> so that adding the nodes of \<open>b\<close> to \<open>a\<close> displaces
  nothing: no range of \<open>a\<close> is inside one of \<open>b\<close>.
\<close>

definition fits :: "('a::linorder) route multiset \<Rightarrow> 'a route multiset \<Rightarrow> bool" where
  "fits a b = (\<forall>x \<in># b. \<forall>y \<in># a. lam y x \<and> \<not> inside y x)"

lemma fits_simps [route_simps]:
  "fits a {#}" "fits {#} b"
  "fits a (add_mset x b) = ((\<forall>y \<in># a. lam y x \<and> \<not> inside y x) \<and> fits a b)"
  "fits (add_mset y a) b = ((\<forall>x \<in># b. lam y x \<and> \<not> inside y x) \<and> fits a b)"
  "fits a (b + c) = (fits a b \<and> fits a c)" "fits (a + c) b = (fits a b \<and> fits c b)"
  by (auto simp: fits_def)

lemma disjoint_lam: "precedes a b \<Longrightarrow> valid a \<Longrightarrow> valid b \<Longrightarrow> lam a b \<and> \<not> inside a b \<and> lam b a \<and> \<not> inside b a"
  by (auto simp: range_defs)

lemma disjoint_lam_pair: "precedes a b \<Longrightarrow> valid a \<Longrightarrow> valid b \<Longrightarrow> lam b a \<and> \<not> inside b a"
  and disjoint_lam_pair': "precedes b a \<Longrightarrow> valid a \<Longrightarrow> valid b \<Longrightarrow> lam b a \<and> \<not> inside b a"
  by (auto simp: range_defs)

lemma addnode_plain:
  assumes "tree_ok t" "valid n" "tree_ok nm" "\<forall>y \<in># rms nm. inside y n \<and> key y \<noteq> key n"
    "\<forall>y \<in># rms t. lam y n \<and> \<not> inside y n"
  shows "\<exists>t'. addnode t n nm q = (t', q) \<and> tree_ok t' \<and> rms t' = add_mset (strip n) (rms nm + rms t)"
  using assms(1,5)
proof (induction t)
  case Nil
  then show ?case using assms(2-4) by (simp add: route_simps)
next
  case (Node p l m r)
  then have p: "valid p" "lam p n" "\<not> inside p n" by (auto simp: route_simps)
  then have nk: "key n \<noteq> key p" by (auto simp: range_defs)
  consider "precedes n p" | "precedes p n" "\<not> precedes n p" | "inside n p" "\<not> precedes n p" "\<not> precedes p n"
    using p by (auto simp: lam_def)
  then show ?case
  proof cases
    case 1
    then have c: "rangecompare n p = Rpreceeds" by (simp add: rangecompare_def precedes_def)
    from Node obtain l' where l': "addnode l n nm q = (l', q)" "tree_ok l'" "rms l' = add_mset (strip n) (rms nm + rms l)"
      by auto
    have "\<forall>x \<in># rms l'. precedes x p" using l'(3) Node.prems 1 assms(4) by (auto simp: route_simps intro: precedes_inside(2))
    then have "tree_ok (Node p l' m r)" using l' Node.prems by simp
    then show ?thesis using c l' by (simp add: balancetree_ok union_ac add_mset_commute)
  next
    case 2
    then have c: "rangecompare n p = Rfollows" by (auto simp: rangecompare_def precedes_def)
    from Node obtain r' where r': "addnode r n nm q = (r', q)" "tree_ok r'" "rms r' = add_mset (strip n) (rms nm + rms r)"
      by auto
    have "\<forall>x \<in># rms r'. precedes p x" using r'(3) Node.prems 2 assms(4) by (auto simp: route_simps intro: precedes_inside(1))
    then have "tree_ok (Node p l m r')" using r' Node.prems by simp
    then show ?thesis using c r' by (simp add: balancetree_ok union_ac add_mset_commute)
  next
    case 3
    then have c: "rangecompare n p = Rcontained"
      using p nk by (auto simp: rangecompare_def range_defs)
    from Node obtain m' where m': "addnode m n nm q = (m', q)" "tree_ok m'" "rms m' = add_mset (strip n) (rms nm + rms m)"
      by auto
    have "\<forall>x \<in># rms m'. inside x p \<and> key x \<noteq> key p"
    proof
      fix x assume "x \<in># rms m'"
      then consider "x = strip n" | "x \<in># rms nm" | "x \<in># rms m" unfolding m'(3) by auto
      then show "inside x p \<and> key x \<noteq> key p"
      proof cases
        case 1
        then show ?thesis using 3 nk by (simp add: route_simps)
      next
        case 2
        then have "inside x n" "key x \<noteq> key n" using assms(4) by auto
        with 3(1) show ?thesis by (auto simp: range_defs)
      next
        case 3
        then show ?thesis using Node.prems by simp
      qed
    qed
    then have "tree_ok (Node p l m' r)" using m' Node.prems by simp
    then show ?thesis using c m' by (simp add: balancetree_ok union_ac add_mset_commute)
  qed
qed

lemma walkadd_plain:
  "tree_ok t \<Longrightarrow> tree_ok s \<Longrightarrow> fits (rms t) (rms s) \<Longrightarrow>
   \<exists>t'. walkadd t q s = (t', q) \<and> tree_ok t' \<and> rms t' = rms t + rms s"
proof (induction s arbitrary: t)
  case Nil
  then show ?case by simp
next
  case (Node p l m r)
  have pv: "valid p" using Node.prems by simp
  from addnode_plain [OF Node.prems(1) pv, of m q] Node.prems obtain t1 where t1:
    "addnode t p m q = (t1, q)" "tree_ok t1" "rms t1 = add_mset (strip p) (rms m + rms t)"
    by (auto simp: route_simps)
  have vl: "valid x" if "x \<in># rms l \<or> x \<in># rms m \<or> x \<in># rms r" for x
    using that Node.prems(2) by (auto intro: tree_ok_valid)
  have dl: "lam y x \<and> \<not> inside y x" if "x \<in># rms l" "y = strip p \<or> y \<in># rms m \<or> y \<in># rms r" for x y
  proof -
    have "precedes x p" using that Node.prems by simp
    then have "precedes x y"
      using that Node.prems pv by (auto simp: route_simps intro: precedes_inside(1) precedes_trans)
    moreover have "valid y" using that pv vl by (auto simp: route_simps)
    ultimately show ?thesis using disjoint_lam vl that by blast
  qed
  have dr: "lam y x \<and> \<not> inside y x" if "x \<in># rms r" "y = strip p \<or> y \<in># rms m \<or> y \<in># rms l" for x y
  proof -
    have "precedes p x" using that Node.prems by simp
    then have "precedes y x"
      using that Node.prems pv by (auto simp: route_simps intro: precedes_inside(2) precedes_trans)
    moreover have "valid y" using that pv vl by (auto simp: route_simps)
    ultimately show ?thesis using disjoint_lam vl that by blast
  qed
  have dlp: "lam p x \<and> \<not> inside p x" if "x \<in># rms l" for x
    using dl [OF that, of "strip p"] by (simp add: route_simps)
  have drp: "lam p x \<and> \<not> inside p x" if "x \<in># rms r" for x
    using dr [OF that, of "strip p"] by (simp add: route_simps)
  have "fits (rms t1) (rms l)" unfolding t1(3) using Node.prems dl dlp by (auto simp: route_simps fits_def)
  with Node.IH(1) [OF t1(2)] Node.prems obtain t2 where t2: "walkadd t1 q l = (t2, q)" "tree_ok t2"
    "rms t2 = rms t1 + rms l" by auto
  have "fits (rms t2) (rms r)" unfolding t2(3) t1(3) using Node.prems dr drp by (auto simp: route_simps fits_def)
  with Node.IH(3) [OF t2(2)] Node.prems obtain t3 where "walkadd t2 q r = (t3, q)" "tree_ok t3"
    "rms t3 = rms t2 + rms r" by auto
  with t1 t2 show ?case by (simp add: union_ac)
qed

fun fits_all :: "('a::linorder) route multiset \<Rightarrow> 'a rtree list \<Rightarrow> bool" where
  "fits_all a [] = True"
| "fits_all a (s # ss) = (tree_ok s \<and> fits a (rms s) \<and> (\<forall>s' \<in> set ss. fits (rms s) (rms s')) \<and> fits_all a ss)"

lemma fits_all_add: "fits_all a ss \<Longrightarrow> \<forall>s' \<in> set ss. fits b (rms s') \<Longrightarrow> fits_all (a + b) ss"
  by (induction ss) (auto simp: route_simps)

lemma drain_plain:
  "tree_ok t \<Longrightarrow> fits_all (rms t) q \<Longrightarrow> \<exists>t'. drain t q = Some t' \<and> tree_ok t' \<and> rms t' = rms t + sum_list (map rms q)"
proof (induction q arbitrary: t)
  case Nil
  then show ?case by (subst drain.simps) simp
next
  case (Cons s q)
  then obtain t1 where t1: "walkadd t q s = (t1, q)" "tree_ok t1" "rms t1 = rms t + rms s"
    using walkadd_plain [of t s q] by auto
  have "fits_all (rms t1) q" unfolding t1(3) using Cons.prems by (auto intro: fits_all_add)
  from Cons.IH [OF t1(2) this] t1 show ?case by (subst drain.simps) (simp add: union_ac)
qed

subsection \<open>Adding a new route\<close>

text \<open>
  The three ways addnode ends for a new leaf: put in, merged with the entry of the same range,
  or in the place of a subtree that is queued.
\<close>

definition put_in :: "('a::linorder) rtree \<Rightarrow> 'a route \<Rightarrow> 'a rtree \<Rightarrow> bool" where
  "put_in t n t' = (rms t' = add_mset (strip n) (rms t))"

definition merged :: "('a::linorder) rtree \<Rightarrow> 'a route \<Rightarrow> 'a rtree \<Rightarrow> bool" where
  "merged t n t' = (\<exists>p. p \<in># rms t \<and> key p = key n \<and> rms t' = add_mset (supersede p n) (rms t - {#p#}))"

definition displaced :: "('a::linorder) rtree \<Rightarrow> 'a route \<Rightarrow> 'a rtree \<Rightarrow> 'a rtree \<Rightarrow> bool" where
  "displaced t n t' s = (s \<noteq> Nil \<and> tree_ok s \<and> (\<exists>c. rms t = c + rms s \<and> rms t' = add_mset (strip n) c) \<and>
     fits (rms t') (rms s))"

definition add_result :: "('a::linorder) rtree \<Rightarrow> 'a route \<Rightarrow> 'a rtree list \<Rightarrow> 'a rtree \<Rightarrow> 'a rtree list \<Rightarrow> bool" where
  "add_result t n q t' q' =
     (q' = q \<and> put_in t n t' \<or> q' = q \<and> merged t n t' \<or> (\<exists>s. q' = s # q \<and> displaced t n t' s))"

lemma add_result_context:
  assumes "add_result t n q t' q'"
    and "\<forall>x \<in># rms t. \<forall>y \<in># c. lam y x \<and> \<not> inside y x"
    and "rms u = c + rms t" "rms u' = c + rms t'"
  shows "add_result u n q u' q'"
proof -
  from assms(1) consider "q' = q" "put_in t n t'" | "q' = q" "merged t n t'" | s where "q' = s # q" "displaced t n t' s"
    by (auto simp: add_result_def)
  then show ?thesis
  proof cases
    case 1
    then show ?thesis using assms(3,4) by (simp add: add_result_def put_in_def)
  next
    case 2
    then obtain p where "p \<in># rms t" "key p = key n" "rms t' = add_mset (supersede p n) (rms t - {#p#})"
      by (auto simp: merged_def)
    then have "merged u n u'" using assms(3,4) unfolding merged_def by (intro exI [of _ p]) simp
    then show ?thesis using 2 by (simp add: add_result_def)
  next
    case 3
    then obtain d where d: "rms t = d + rms s" "rms t' = add_mset (strip n) d" "fits (rms t') (rms s)" "s \<noteq> Nil" "tree_ok s"
      by (auto simp: displaced_def)
    have "fits c (rms s)" using assms(2) d(1) by (auto simp: fits_def)
    then have "displaced u n u' s"
      using d assms(3,4) by (auto simp: displaced_def route_simps union_ac intro!: exI [of _ "c + d"])
    then show ?thesis using 3 by (simp add: add_result_def)
  qed
qed

text \<open>The routes in a tree are disjoint or nested, and a route is in its subtree only.\<close>

lemma add_result_all:
  assumes "add_result t n q t' q'" "\<forall>x \<in># rms t. Q x" "Q (strip n)" "\<forall>x \<in># rms t. Q (supersede x n)"
  shows "\<forall>x \<in># rms t'. Q x"
  using assms by (auto simp: add_result_def put_in_def merged_def displaced_def) (meson in_diffD)+

lemma addnode_leaf:
  "tree_ok t \<Longrightarrow> valid n \<Longrightarrow> \<forall>y \<in># rms t. lam y n \<Longrightarrow>
   \<exists>t' q'. addnode t n Nil q = (t', q') \<and> tree_ok t' \<and> add_result t n q t' q'"
proof (induction t)
  case Nil
  then show ?case by (simp add: add_result_def put_in_def route_simps)
next
  case (Node p l m r)
  then have p: "valid p" "lam p n" and lamall: "\<forall>y \<in># rms l. lam y n" "\<forall>y \<in># rms m. lam y n" "\<forall>y \<in># rms r. lam y n"
    by (auto simp: route_simps)
  have ok: "tree_ok l" "tree_ok m" "tree_ok r" using Node.prems by auto
  have v: "valid x" if "x \<in># rms l \<or> x \<in># rms m \<or> x \<in># rms r" for x
    using that ok by (auto intro: tree_ok_valid)
  have lr: "precedes x y" if "x \<in># rms l" "y = strip p \<or> y \<in># rms m \<or> y \<in># rms r" for x y
    using that Node.prems p by (auto simp: route_simps intro: precedes_inside precedes_trans)
  have rl: "precedes y x" if "x \<in># rms r" "y = strip p \<or> y \<in># rms m \<or> y \<in># rms l" for x y
    using that Node.prems p by (auto simp: route_simps intro: precedes_inside precedes_trans)
  have mid: "precedes y x \<or> precedes x y" if "x \<in># rms m" "y \<in># rms l \<or> y \<in># rms r" for x y
    using that Node.prems by (auto intro: precedes_inside)
  have vp: "valid (strip p)" using p by (simp add: route_simps)
  note rc = rangecompare_cases [OF Node.prems(2) p(1) p(2)]
  show ?case
  proof (cases "rangecompare n p")
    case Rpreceeds
    then have np: "precedes n p" by (auto simp: rangecompare_def precedes_def split: if_splits)
    from Node.IH(1) [OF ok(1) Node.prems(2) lamall(1)] obtain l' q' where l':
      "addnode l n Nil q = (l', q')" "tree_ok l'" "add_result l n q l' q'" by blast
    have "\<forall>x \<in># rms l'. precedes x p"
      by (rule add_result_all [OF l'(3)]) (use np Node.prems in \<open>simp_all add: route_simps\<close>)
    then have "tree_ok (Node p l' m r)" using l' Node.prems by simp
    moreover have "add_result (Node p l m r) n q (balancetree (Node p l' m r)) q'"
    proof (rule add_result_context [OF l'(3)])
      show "\<forall>x \<in># rms l. \<forall>y \<in># add_mset (strip p) (rms m + rms r). lam y x \<and> \<not> inside y x"
        using lr v vp disjoint_lam by fastforce
    qed (simp_all add: union_ac)
    ultimately show ?thesis using Rpreceeds l'(1) by (simp add: balancetree_ok)
  next
    case Rfollows
    then have np: "precedes p n" by (auto simp: rangecompare_def precedes_def split: if_splits)
    from Node.IH(3) [OF ok(3) Node.prems(2) lamall(3)] obtain r' q' where r':
      "addnode r n Nil q = (r', q')" "tree_ok r'" "add_result r n q r' q'" by blast
    have "\<forall>x \<in># rms r'. precedes p x"
      by (rule add_result_all [OF r'(3)]) (use np Node.prems in \<open>simp_all add: route_simps\<close>)
    then have "tree_ok (Node p l m r')" using r' Node.prems by simp
    moreover have "add_result (Node p l m r) n q (balancetree (Node p l m r')) q'"
    proof (rule add_result_context [OF r'(3)])
      show "\<forall>x \<in># rms r. \<forall>y \<in># add_mset (strip p) (rms m + rms l). lam y x \<and> \<not> inside y x"
        using rl v vp disjoint_lam by fastforce
    qed (simp_all add: union_ac)
    ultimately show ?thesis using Rfollows r'(1) by (simp add: balancetree_ok)
  next
    case Rcontained
    then have np: "inside n p" "key n \<noteq> key p" using rc(2) by auto
    from Node.IH(2) [OF ok(2) Node.prems(2) lamall(2)] obtain m' q' where m':
      "addnode m n Nil q = (m', q')" "tree_ok m'" "add_result m n q m' q'" by blast
    have "\<forall>x \<in># rms m'. inside x p \<and> key x \<noteq> key p"
      by (rule add_result_all [OF m'(3)]) (use np Node.prems in \<open>simp_all add: route_simps\<close>)
    then have "tree_ok (Node p l m' r)" using m' Node.prems by simp
    moreover have "add_result (Node p l m r) n q (balancetree (Node p l m' r)) q'"
    proof (rule add_result_context [OF m'(3)])
      have "lam (strip p) x \<and> \<not> inside (strip p) x" if "x \<in># rms m" for x
        using that Node.prems inside_antisym [of x p] by (auto simp: route_simps lam_def)
      moreover have "lam y x \<and> \<not> inside y x" if "x \<in># rms m" "y \<in># rms l \<or> y \<in># rms r" for x y
        using mid [OF that] disjoint_lam [of x y] disjoint_lam [of y x] v that by blast
      ultimately show "\<forall>x \<in># rms m. \<forall>y \<in># add_mset (strip p) (rms l + rms r). lam y x \<and> \<not> inside y x"
        by auto
    qed (simp_all add: union_ac)
    ultimately show ?thesis using Rcontained m'(1) by (simp add: balancetree_ok)
  next
    case Requals
    then have k: "key p = key n" by (auto simp: rangecompare_def key_def split: if_splits)
    have "tree_ok (Node (supersede p n) l m r)" using Node.prems by (simp add: route_simps)
    moreover have "merged (Node p l m r) n (balancetree (Node (supersede p n) l m r))"
      using k by (auto simp: merged_def route_simps intro!: exI [of _ "strip p"])
    ultimately show ?thesis using Requals by (simp add: balancetree_ok add_result_def)
  next
    case Rcontains
    then have np: "inside p n" "key p \<noteq> key n"
      by (auto simp: rangecompare_def range_defs split: if_splits)
    have "\<not> inside (strip n) x \<and> lam (strip n) x" if "x \<in># rms (Node p l m r)" for x
    proof -
      have lx: "lam x n" using Node.prems(3) that by auto
      moreover have "\<not> inside n x"
      proof
        assume nx: "inside n x"
        then have px: "inside p x" using np(1) inside_trans by blast
        from that consider "x = strip p" | "x \<in># rms l" | "x \<in># rms m" | "x \<in># rms r" by auto
        then show False
        proof cases
          case 1
          then show ?thesis using nx np inside_antisym by (auto simp: route_simps)
        next
          case 2
          then show ?thesis using px lr [of x "strip p"] precedes_not_inside [of x "strip p"] v vp
            by (simp add: route_simps)
        next
          case 3
          then show ?thesis using px Node.prems inside_antisym [of x p] by auto
        next
          case 4
          then show ?thesis using px rl [of x "strip p"] precedes_not_inside [of "strip p" x] v vp
            by (simp add: route_simps)
        qed
      qed
      ultimately show ?thesis by (auto simp: route_simps lam_def)
    qed
    then have "fits {#strip n#} (rms (Node p l m r))" by (simp add: fits_def)
    then have "displaced (Node p l m r) n (balancetree (Node (n\<lparr>r_depth := 1\<rparr>) Nil Nil Nil)) (Node p l m r)"
      using Node.prems(1) by (simp add: displaced_def route_simps)
    moreover have "tree_ok (Node (n\<lparr>r_depth := 1\<rparr>) Nil Nil Nil)" using Node.prems(2) by (simp add: route_simps)
    ultimately show ?thesis
      using Rcontains by (simp add: balancetree_ok add_result_def addqueue_def)
  qed
qed

text \<open>The abstract table: what is known of each range.\<close>

fun table :: "'a rtree \<Rightarrow> ('a \<times> 'a) \<Rightarrow> 'a route option" where
  "table Nil = Map.empty"
| "table (Node p l m r) = (table l ++ table m ++ table r)(key p \<mapsto> strip p)"

lemma tree_ok_distinct: "tree_ok t \<Longrightarrow> x \<in># rms t \<Longrightarrow> y \<in># rms t \<Longrightarrow> key x = key y \<Longrightarrow> x = y"
proof (induction t)
  case Nil
  then show ?case by simp
next
  case (Node p l m r)
  have v: "valid p" "\<And>z. z \<in># rms l \<or> z \<in># rms m \<or> z \<in># rms r \<Longrightarrow> valid z"
    using Node.prems(1) by (auto intro: tree_ok_valid)
  have lr: "key a \<noteq> key b" if "a \<in># rms l" "b = strip p \<or> b \<in># rms m \<or> b \<in># rms r" for a b
  proof -
    have "precedes a b" using that Node.prems(1) by (auto simp: route_simps intro: precedes_inside precedes_trans)
    then show ?thesis using precedes_not_inside [of a b] v that by (auto simp: route_simps)
  qed
  have rl: "key a \<noteq> key b" if "a \<in># rms r" "b = strip p \<or> b \<in># rms m" for a b
  proof -
    have "precedes b a" using that Node.prems(1) by (auto simp: route_simps intro: precedes_inside precedes_trans)
    then show ?thesis using precedes_not_inside [of b a] v that by (auto simp: route_simps)
  qed
  have m: "key a \<noteq> key (strip p)" if "a \<in># rms m" for a
    using that Node.prems(1) by (auto simp: route_simps)
  have ok: "tree_ok l" "tree_ok m" "tree_ok r" using Node.prems by auto
  have "x = strip p \<or> x \<in># rms l \<or> x \<in># rms m \<or> x \<in># rms r"
    "y = strip p \<or> y \<in># rms l \<or> y \<in># rms m \<or> y \<in># rms r" using Node.prems(2,3) by auto
  then show ?case
    using Node.IH(1) [OF ok(1)] Node.IH(2) [OF ok(2)] Node.IH(3) [OF ok(3)] Node.prems(4) lr rl m by metis
qed

lemma table_Some: "tree_ok t \<Longrightarrow> table t k = Some x \<longleftrightarrow> x \<in># rms t \<and> key x = k"
proof
  show "table t k = Some x \<Longrightarrow> x \<in># rms t \<and> key x = k"
    by (induction t) (auto simp: map_add_Some_iff route_simps split: if_splits)
next
  assume ok: "tree_ok t" and x: "x \<in># rms t \<and> key x = k"
  have "x \<in># rms t \<Longrightarrow> \<exists>y. table t (key x) = Some y" for x
    by (induction t) (auto simp: route_simps map_add_def split: option.splits)
  then obtain y where "table t k = Some y" using x by blast
  moreover have "table t k = Some y \<Longrightarrow> y \<in># rms t \<and> key y = k"
    by (induction t) (auto simp: map_add_Some_iff route_simps split: if_splits)
  ultimately show "table t k = Some x" using tree_ok_distinct [OF ok] x by metis
qed

lemma table_None: "tree_ok t \<Longrightarrow> table t k = None \<longleftrightarrow> (\<forall>x \<in># rms t. key x \<noteq> k)"
  using table_Some [of t k] by (metis not_Some_eq)

text \<open>What adding a route does to the table.\<close>

definition table_add :: "('a \<times> 'a \<Rightarrow> 'a route option) \<Rightarrow> 'a route \<Rightarrow> ('a \<times> 'a \<Rightarrow> 'a route option)" where
  "table_add T n = T(key n \<mapsto> (case T (key n) of None \<Rightarrow> strip n | Some p \<Rightarrow> supersede p n))"

lemma table_eqI: "tree_ok t \<Longrightarrow> (\<And>k x. T k = Some x \<longleftrightarrow> x \<in># rms t \<and> key x = k) \<Longrightarrow> table t = T"
  by (rule ext) (metis table_Some not_Some_eq)

lemma tree_ok_count: "tree_ok t \<Longrightarrow> count (rms t) x \<le> 1"
proof (induction t)
  case Nil
  then show ?case by simp
next
  case (Node p l m r)
  have v: "valid p" "\<And>z. z \<in># rms l \<or> z \<in># rms m \<or> z \<in># rms r \<Longrightarrow> valid z"
    using Node.prems(1) by (auto intro: tree_ok_valid)
  have lr: "a \<noteq> b" if "a \<in># rms l" "b = strip p \<or> b \<in># rms m \<or> b \<in># rms r" for a b
  proof -
    have "precedes a b" using that Node.prems(1) by (auto simp: route_simps intro: precedes_inside precedes_trans)
    then show ?thesis using precedes_not_inside [of a b] v that by (auto simp: route_simps)
  qed
  have rl: "a \<noteq> b" if "a \<in># rms r" "b = strip p \<or> b \<in># rms m" for a b
  proof -
    have "precedes b a" using that Node.prems(1) by (auto simp: route_simps intro: precedes_inside precedes_trans)
    then show ?thesis using precedes_not_inside [of b a] v that by (auto simp: route_simps)
  qed
  have m: "a \<noteq> strip p" if "a \<in># rms m" for a
    using that Node.prems(1) by (auto simp: route_simps)
  have ok: "tree_ok l" "tree_ok m" "tree_ok r" using Node.prems by auto
  have ih: "count (rms l) x \<le> 1" "count (rms m) x \<le> 1" "count (rms r) x \<le> 1"
    using Node.IH ok by blast+
  have z: "count (rms s) x = 0" if "x \<notin># rms s" for s using that by (simp add: not_in_iff)
  have "x = strip p \<Longrightarrow> x \<notin># rms l \<and> x \<notin># rms m \<and> x \<notin># rms r"
    "x \<in># rms l \<Longrightarrow> x \<notin># rms m \<and> x \<notin># rms r" "x \<in># rms m \<Longrightarrow> x \<notin># rms l \<and> x \<notin># rms r"
    "x \<in># rms r \<Longrightarrow> x \<notin># rms l \<and> x \<notin># rms m"
    using lr rl m by blast+
  then show ?case
    using ih z by (cases "x = strip p"; cases "x \<in># rms l"; cases "x \<in># rms m"; cases "x \<in># rms r") auto
qed

lemma tree_ok_once: "tree_ok t \<Longrightarrow> x \<notin># rms t - {#x#}"
  using tree_ok_count [of t x] by (simp add: in_diff_count)

lemma tree_add_ok:
  assumes "tree_ok t" "valid n" "\<forall>y \<in># rms t. lam y n"
  shows "\<exists>t'. tree_add t n = Some t' \<and> tree_ok t' \<and> table t' = table_add (table t) n \<and>
    (put_in t n t' \<or> merged t n t')"
proof -
  from addnode_leaf [OF assms, of "[]"] obtain t1 q where t1: "addnode t n Nil [] = (t1, q)" "tree_ok t1"
    "add_result t n [] t1 q" by blast
  have "\<exists>t'. tree_add t n = Some t' \<and> tree_ok t' \<and> (put_in t n t' \<or> merged t n t')"
  proof (cases "q = []")
    case True
    then show ?thesis using t1 by (auto simp: tree_add_def add_result_def drain.simps)
  next
    case False
    then obtain s where s: "q = [s]" "displaced t n t1 s" using t1(3) by (auto simp: add_result_def)
    then have "fits_all (rms t1) [s]" by (simp add: displaced_def)
    from drain_plain [OF t1(2) this] s t1 show ?thesis
      by (auto simp: tree_add_def displaced_def put_in_def union_ac)
  qed
  then obtain t' where t': "tree_add t n = Some t'" "tree_ok t'" "put_in t n t' \<or> merged t n t'" by blast
  have "table t' = table_add (table t) n"
  proof (rule table_eqI [OF t'(2)])
    fix k x
    show "table_add (table t) n k = Some x \<longleftrightarrow> x \<in># rms t' \<and> key x = k"
      using t'(3)
    proof
      assume put: "put_in t n t'"
      have "\<forall>y \<in># rms t. key y \<noteq> key n"
      proof (rule ccontr)
        assume "\<not> ?thesis"
        then obtain y where y: "y \<in># rms t" "key y = key n" by blast
        then have "y = strip n" using tree_ok_distinct [OF t'(2), of y "strip n"] put by (simp add: put_in_def route_simps)
        then show False using tree_ok_once [OF t'(2), of "strip n"] y put by (simp add: put_in_def)
      qed
      then have "table t (key n) = None" using table_None [OF assms(1)] by blast
      then show ?thesis using put table_Some [OF assms(1)] \<open>\<forall>y \<in># rms t. key y \<noteq> key n\<close>
        by (auto simp: table_add_def put_in_def route_simps)
    next
      assume "merged t n t'"
      then obtain p where p: "p \<in># rms t" "key p = key n" "rms t' = add_mset (supersede p n) (rms t - {#p#})"
        by (auto simp: merged_def)
      have tp: "table t (key n) = Some p" using table_Some [OF assms(1)] p by blast
      have "x \<in># rms t - {#p#} \<longleftrightarrow> x \<in># rms t \<and> x \<noteq> p" for x
        using tree_ok_once [OF assms(1), of p] by (cases "x = p") (auto simp: in_diff_count)
      note rest = this
      have one: "x = p" if "x \<in># rms t" "key x = key n" for x
        using tree_ok_distinct [OF assms(1) that(1) p(1)] that(2) p(2) by simp
      have k': "key (supersede p n) = key n" using p(2) by (simp add: route_simps)
      show ?thesis
      proof (cases "k = key n")
        case True
        then show ?thesis using one rest k' by (auto simp: table_add_def tp p(3))
      next
        case False
        then have "table_add (table t) n k = table t k" by (simp add: table_add_def)
        then show ?thesis using False rest k' p(2) by (auto simp: table_Some [OF assms(1)] p(3))
      qed
    qed
  qed
  with t' show ?thesis by blast
qed

subsection \<open>Deleting a route\<close>

text \<open>The entry of the range, and the tree with another subtree \<open>s\<close> in its place.\<close>

definition found_at :: "('a::linorder) rtree \<Rightarrow> 'a route \<Rightarrow> 'a route \<Rightarrow> 'a rtree \<Rightarrow> 'a rtree \<Rightarrow> 'a rtree \<Rightarrow> bool" where
  "found_at t n p l m r =
     (key p = key n \<and> tree_ok (Node p l m r) \<and>
      (\<exists>c. rms t = c + rms (Node p l m r) \<and> fits c (rms l + rms m + rms r) \<and>
         tree_ok (putnode t n Nil) \<and> rms (putnode t n Nil) = c \<and>
         (\<forall>p'. key p' = key p \<longrightarrow> tree_ok (putnode t n (Node p' l m r)) \<and>
            rms (putnode t n (Node p' l m r)) = c + rms (Node p' l m r))))"

lemma key_ranges: "key a = key b \<Longrightarrow> valid a = valid b \<and> precedes a c = precedes b c \<and> precedes c a = precedes c b \<and>
    inside a c = inside b c \<and> inside c a = inside c b \<and> lam a c = lam b c"
  by (simp add: range_defs)

lemma key_tree_ok: "key p' = key p \<Longrightarrow> tree_ok (Node p l m r) \<Longrightarrow> tree_ok (Node p' l m r)"
  using key_ranges [of p' p] by auto

lemma found_context:
  assumes f: "found_at t n p l m r"
    and d: "\<forall>x \<in># rms t. \<forall>y \<in># d. lam y x \<and> \<not> inside y x"
    and u: "rms u = d + rms t"
    and put: "\<And>s. putnode u n s = U (putnode t n s)"
    and rmsU: "\<And>s. rms (U s) = d + rms s"
    and okU: "\<And>s. tree_ok s \<Longrightarrow> \<forall>x \<in># rms s. \<exists>y \<in># rms t. key x = key y \<Longrightarrow> tree_ok (U s)"
  shows "found_at u n p l m r"
proof -
  from f obtain c where c: "key p = key n" "tree_ok (Node p l m r)" "rms t = c + rms (Node p l m r)"
    "fits c (rms l + rms m + rms r)" "tree_ok (putnode t n Nil)" "rms (putnode t n Nil) = c"
    and p': "\<And>p'. key p' = key p \<Longrightarrow> tree_ok (putnode t n (Node p' l m r)) \<and>
        rms (putnode t n (Node p' l m r)) = c + rms (Node p' l m r)"
    by (auto simp: found_at_def)
  have "\<forall>x \<in># rms l + rms m + rms r. \<forall>y \<in># d. lam y x \<and> \<not> inside y x"
    using d c(3) by auto
  then have "fits (d + c) (rms l + rms m + rms r)" using c(4) by (auto simp: fits_def)
  moreover have "tree_ok (U (putnode t n Nil))" by (rule okU) (use c in auto)
  moreover have "tree_ok (U (putnode t n (Node p' l m r)))" if "key p' = key p" for p'
  proof (rule okU)
    show "tree_ok (putnode t n (Node p' l m r))" using p' [OF that] by simp
    show "\<forall>x \<in># rms (putnode t n (Node p' l m r)). \<exists>y \<in># rms t. key x = key y"
      using p' [OF that] c(3) that by (auto simp: route_simps)
  qed
  ultimately show ?thesis
    using c p' u by (auto simp: found_at_def put rmsU intro!: exI [of _ "d + c"])
qed

lemma keys_precede:
  "\<forall>x \<in># a. \<exists>y \<in># b. key x = key y \<Longrightarrow> \<forall>y \<in># b. precedes y p \<Longrightarrow> \<forall>x \<in># a. precedes x p"
  "\<forall>x \<in># a. \<exists>y \<in># b. key x = key y \<Longrightarrow> \<forall>y \<in># b. precedes p y \<Longrightarrow> \<forall>x \<in># a. precedes p x"
  "\<forall>x \<in># a. \<exists>y \<in># b. key x = key y \<Longrightarrow> \<forall>y \<in># b. inside y p \<and> key y \<noteq> key p \<Longrightarrow> \<forall>x \<in># a. inside x p \<and> key x \<noteq> key p"
  by (metis key_ranges)+

lemma looknode_found:
  "tree_ok t \<Longrightarrow> valid n \<Longrightarrow> \<forall>y \<in># rms t. lam y n \<Longrightarrow>
   (case looknode t n of Nil \<Rightarrow> \<forall>y \<in># rms t. key y \<noteq> key n | Node p l m r \<Rightarrow> found_at t n p l m r)"
proof (induction t)
  case Nil
  then show ?case by simp
next
  case (Node p l m r)
  then have p: "valid p" "lam p n" and lamall: "\<forall>y \<in># rms l. lam y n" "\<forall>y \<in># rms m. lam y n" "\<forall>y \<in># rms r. lam y n"
    by (auto simp: route_simps)
  have ok: "tree_ok l" "tree_ok m" "tree_ok r" using Node.prems by auto
  have v: "valid x" if "x = strip p \<or> x \<in># rms l \<or> x \<in># rms m \<or> x \<in># rms r" for x
    using that ok p by (auto simp: route_simps intro: tree_ok_valid)
  have lr: "precedes x y" if "x \<in># rms l" "y = strip p \<or> y \<in># rms m \<or> y \<in># rms r" for x y
    using that Node.prems p by (auto simp: route_simps intro: precedes_inside precedes_trans)
  have rl: "precedes y x" if "x \<in># rms r" "y = strip p \<or> y \<in># rms m \<or> y \<in># rms l" for x y
    using that Node.prems p by (auto simp: route_simps intro: precedes_inside precedes_trans)
  have mid: "precedes y x \<or> precedes x y" if "x \<in># rms m" "y \<in># rms l \<or> y \<in># rms r" for x y
    using that Node.prems by (auto intro: precedes_inside)
  have pm: "lam (strip p) x \<and> \<not> inside (strip p) x \<and> key x \<noteq> key (strip p)" if "x \<in># rms m" for x
    using that Node.prems inside_antisym [of x p] by (auto simp: route_simps lam_def)
  have nl: "key y \<noteq> key n" if "precedes n p" "y = strip p \<or> y \<in># rms m \<or> y \<in># rms r" for y
  proof -
    have "precedes n y" using that Node.prems by (auto simp: route_simps intro: precedes_inside precedes_trans)
    then show ?thesis using precedes_not_inside [of n y] Node.prems(2) v that by metis
  qed
  have nr: "key y \<noteq> key n" if "precedes p n" "y = strip p \<or> y \<in># rms m \<or> y \<in># rms l" for y
  proof -
    have "precedes y n" using that Node.prems by (auto simp: route_simps intro: precedes_inside precedes_trans)
    then show ?thesis using precedes_not_inside [of y n] Node.prems(2) v that by metis
  qed
  note rc = rangecompare_cases [OF Node.prems(2) p(1) p(2)]
  show ?case
  proof (cases "rangecompare n p")
    case Rpreceeds
    then have np: "precedes n p" by (auto simp: rangecompare_def precedes_def split: if_splits)
    have ih: "case looknode l n of Nil \<Rightarrow> \<forall>y \<in># rms l. key y \<noteq> key n | Node a b c d \<Rightarrow> found_at l n a b c d"
      by (rule Node.IH(1) [OF ok(1) Node.prems(2) lamall(1)])
    have ctx: "found_at (Node p l m r) n a b c d" if "found_at l n a b c d" for a b c d
    proof (rule found_context [OF that, where d = "add_mset (strip p) (rms m + rms r)" and U = "\<lambda>s. Node p s m r"])
      show "\<forall>x \<in># rms l. \<forall>y \<in># add_mset (strip p) (rms m + rms r). lam y x \<and> \<not> inside y x"
        by (intro ballI disjoint_lam_pair [OF lr] v) auto
      show "tree_ok (Node p s m r)" if "tree_ok s" "\<forall>x \<in># rms s. \<exists>y \<in># rms l. key x = key y" for s
        using that(1) Node.prems(1) keys_precede(1) [OF that(2), of p] by simp
    qed (use Rpreceeds in \<open>simp_all add: union_ac\<close>)
    show ?thesis using ih ctx nl [OF np] Rpreceeds by (cases "looknode l n") auto
  next
    case Rfollows
    then have np: "precedes p n" by (auto simp: rangecompare_def precedes_def split: if_splits)
    have ih: "case looknode r n of Nil \<Rightarrow> \<forall>y \<in># rms r. key y \<noteq> key n | Node a b c d \<Rightarrow> found_at r n a b c d"
      by (rule Node.IH(3) [OF ok(3) Node.prems(2) lamall(3)])
    have ctx: "found_at (Node p l m r) n a b c d" if "found_at r n a b c d" for a b c d
    proof (rule found_context [OF that, where d = "add_mset (strip p) (rms m + rms l)" and U = "\<lambda>s. Node p l m s"])
      show "\<forall>x \<in># rms r. \<forall>y \<in># add_mset (strip p) (rms m + rms l). lam y x \<and> \<not> inside y x"
        by (intro ballI disjoint_lam_pair' [OF rl] v) auto
      show "tree_ok (Node p l m s)" if "tree_ok s" "\<forall>x \<in># rms s. \<exists>y \<in># rms r. key x = key y" for s
        using that(1) Node.prems(1) keys_precede(2) [OF that(2), of p] by simp
    qed (use Rfollows in \<open>simp_all add: union_ac\<close>)
    show ?thesis using ih ctx nr [OF np] Rfollows by (cases "looknode r n") auto
  next
    case Rcontained
    then have np: "inside n p" "key n \<noteq> key p" using rc(2) by auto
    have ih: "case looknode m n of Nil \<Rightarrow> \<forall>y \<in># rms m. key y \<noteq> key n | Node a b c d \<Rightarrow> found_at m n a b c d"
      by (rule Node.IH(2) [OF ok(2) Node.prems(2) lamall(2)])
    have ctx: "found_at (Node p l m r) n a b c d" if "found_at m n a b c d" for a b c d
    proof (rule found_context [OF that, where d = "add_mset (strip p) (rms l + rms r)" and U = "\<lambda>s. Node p l s r"])
      have "lam y x \<and> \<not> inside y x" if "x \<in># rms m" "y \<in># rms l \<or> y \<in># rms r" for x y
        using mid [OF that] disjoint_lam [of x y] disjoint_lam [of y x] v that by blast
      then show "\<forall>x \<in># rms m. \<forall>y \<in># add_mset (strip p) (rms l + rms r). lam y x \<and> \<not> inside y x"
        using pm by auto
      show "tree_ok (Node p l s r)" if "tree_ok s" "\<forall>x \<in># rms s. \<exists>y \<in># rms m. key x = key y" for s
        using that(1) Node.prems(1) keys_precede(3) [OF that(2), of p] by simp
    qed (use Rcontained in \<open>simp_all add: union_ac\<close>)
    have "key y \<noteq> key n" if "y \<in># rms l \<or> y \<in># rms r" for y
    proof
      assume k: "key y = key n"
      from that Node.prems(1) have "precedes y n \<or> precedes n y"
        using np(1) by (auto intro: precedes_inside)
      then show False using k precedes_not_inside Node.prems(2) v that by metis
    qed
    then show ?thesis using ih ctx np(2) Rcontained by (cases "looknode m n") (auto simp: route_simps)
  next
    case Requals
    then have k: "key p = key n" by (auto simp: rangecompare_def key_def split: if_splits)
    have "found_at (Node p l m r) n p l m r"
      using Requals k Node.prems(1) key_tree_ok [OF _ Node.prems(1)]
      by (auto simp: found_at_def route_simps)
    then show ?thesis using Requals by simp
  next
    case Rcontains
    then have np: "inside p n" "key p \<noteq> key n"
      by (auto simp: rangecompare_def range_defs split: if_splits)
    have "key y \<noteq> key n" if "y \<in># rms (Node p l m r)" for y
    proof
      assume k: "key y = key n"
      then have py: "inside p y" using np(1) key_ranges by blast
      from that consider "y = strip p" | "y \<in># rms l" | "y \<in># rms m" | "y \<in># rms r" by auto
      then show False
      proof cases
        case 1
        then show ?thesis using k np(2) by (simp add: route_simps)
      next
        case 2
        then show ?thesis using py lr [of y "strip p"] precedes_not_inside [of y "strip p"] v [of y] v [of "strip p"]
          by (simp add: route_simps)
      next
        case 3
        then show ?thesis using py pm [of y] by (simp add: route_simps)
      next
        case 4
        then show ?thesis using py rl [of y "strip p"] precedes_not_inside [of "strip p" y] v [of y] v [of "strip p"]
          by (simp add: route_simps)
      qed
    qed
    then show ?thesis using Rcontains by simp
  qed
qed

lemma siblings_fit:
  assumes "tree_ok (Node p l m r)"
  shows "fits (rms r) (rms m)" "fits (rms r) (rms l)" "fits (rms m) (rms l)"
proof -
  have v: "\<And>z. z \<in># rms l \<or> z \<in># rms m \<or> z \<in># rms r \<Longrightarrow> valid z"
    using assms by (auto intro: tree_ok_valid)
  have "precedes x y" if "x \<in># rms l" "y \<in># rms m \<or> y \<in># rms r" for x y
    using that assms by (auto intro: precedes_inside precedes_trans)
  moreover have "precedes x y" if "x \<in># rms m" "y \<in># rms r" for x y
    using that assms by (auto intro: precedes_inside)
  ultimately show "fits (rms r) (rms m)" "fits (rms r) (rms l)" "fits (rms m) (rms l)"
    using v by (auto simp: fits_def disjoint_lam_pair)
qed

lemma queued_rms: "sum_list (map rms (addqueue (addqueue (addqueue [] l) m) r)) = rms l + rms m + rms r"
  by (simp add: addqueue_def union_ac)

lemma queued_fits:
  assumes "tree_ok (Node p l m r)" "fits c (rms l + rms m + rms r)"
  shows "fits_all c (addqueue (addqueue (addqueue [] l) m) r)"
  using assms siblings_fit [OF assms(1)] by (auto simp: addqueue_def route_simps)

text \<open>What deleting a route does to the table.\<close>

definition table_del :: "('a \<times> 'a \<Rightarrow> 'a route option) \<Rightarrow> 'a route \<Rightarrow> ('a \<times> 'a \<Rightarrow> 'a route option)" where
  "table_del T n = (case T (key n) of None \<Rightarrow> T
     | Some p \<Rightarrow> T(key n := (if r_ref p - 1 = 0 then None else Some (p\<lparr>r_ref := r_ref p - 1\<rparr>))))"

lemma ref_simps [route_simps]:
  "key (r\<lparr>r_ref := i\<rparr>) = key r" "strip (r\<lparr>r_ref := i\<rparr>) = (strip r)\<lparr>r_ref := i\<rparr>" "r_ref (strip r) = r_ref r"
  "valid (r\<lparr>r_ref := i\<rparr>) = valid r" "lam (r\<lparr>r_ref := i\<rparr>) s = lam r s"
  by (simp_all add: key_def strip_def range_defs)

lemma table_replace:
  assumes "tree_ok t" "tree_ok t'" "p \<in># rms t" "key p = k"
    and "rms t = c + {#p#}" "rms t' = c + a" "\<forall>x \<in># a. key x = k" "size a \<le> 1"
  shows "table t' = (table t)(k := (if a = {#} then None else Some (THE x. a = {#x#})))"
proof (rule table_eqI [OF assms(2)])
  fix k' x
  have notc: "key y \<noteq> k" if "y \<in># c" for y
  proof
    assume "key y = k"
    then have "y = p" using tree_ok_distinct [OF assms(1), of y p] assms(3-5) that by simp
    then show False using tree_ok_count [OF assms(1), of p] assms(5) that by (simp add: count_eq_zero_iff)
  qed
  consider "a = {#}" | y where "a = {#y#}" using assms(8) by (cases a) auto
  then show "((table t)(k := (if a = {#} then None else Some (THE x. a = {#x#})))) k' = Some x \<longleftrightarrow> x \<in># rms t' \<and> key x = k'"
    by cases (use assms notc table_Some [OF assms(1), of k' x] in \<open>auto simp: assms(5,6)\<close>)
qed

lemma tree_del_ok:
  assumes "tree_ok t" "valid n" "\<forall>y \<in># rms t. lam y n"
  shows "\<exists>t'. tree_del t n = Some t' \<and> tree_ok t' \<and> table t' = table_del (table t) n"
proof -
  note look = looknode_found [OF assms]
  show ?thesis
  proof (cases "looknode t n")
    case Nil
    then have "table t (key n) = None" using look table_None [OF assms(1), of "key n"] by simp
    then show ?thesis using Nil assms(1) by (simp add: tree_del_def table_del_def)
  next
    case (Node p l m r)
    then have f: "found_at t n p l m r" using look by simp
    then obtain c where c: "key p = key n" "tree_ok (Node p l m r)" "rms t = c + rms (Node p l m r)"
      "fits c (rms l + rms m + rms r)" "tree_ok (putnode t n Nil)" "rms (putnode t n Nil) = c"
      and p': "\<And>p'. key p' = key p \<Longrightarrow> tree_ok (putnode t n (Node p' l m r)) \<and>
          rms (putnode t n (Node p' l m r)) = c + rms (Node p' l m r)"
      unfolding found_at_def by auto
    have tn: "table t (key n) = Some (strip p)" using table_Some [OF assms(1)] c(1,3) by (simp add: route_simps)
    let ?c = "c + rms l + rms m + rms r"
    have rt: "rms t = ?c + {#strip p#}" "strip p \<in># rms t" "key (strip p) = key n"
      using c(1,3) by (simp_all add: route_simps union_ac)
    show ?thesis
    proof (cases "r_ref p - 1 = 0")
      case True
      from drain_plain [OF c(5), of "addqueue (addqueue (addqueue [] l) m) r"]
      obtain t' where t': "drain (putnode t n Nil) (addqueue (addqueue (addqueue [] l) m) r) = Some t'" "tree_ok t'"
        "rms t' = ?c" using queued_fits [OF c(2,4)] c(6) by (auto simp: queued_rms union_ac)
      have "table t' = (table t)(key n := None)"
        using table_replace [OF assms(1) t'(2) rt(2,3,1), of "{#}"] t'(3) by simp
      then show ?thesis using t' Node True tn by (simp add: tree_del_def table_del_def route_simps)
    next
      case False
      let ?p = "p\<lparr>r_ref := r_ref p - 1\<rparr>"
      let ?t = "putnode t n (Node ?p l m r)"
      have t': "tree_ok ?t" "rms ?t = ?c + {#strip ?p#}" using p' [of ?p] by (simp_all add: route_simps union_ac)
      have "table ?t = (table t)(key n := Some (strip ?p))"
        using table_replace [OF assms(1) t'(1) rt(2,3,1) t'(2)] c(1) by (simp add: route_simps)
      then show ?thesis using t' Node False tn by (simp add: tree_del_def table_del_def route_simps)
    qed
  qed
qed

subsection \<open>Looking up an address\<close>

text \<open>The entry of the smallest range that holds the address.\<close>

definition best :: "('a::linorder) route multiset \<Rightarrow> 'a \<Rightarrow> 'a route \<Rightarrow> bool" where
  "best a x p = (p \<in># a \<and> holds p x \<and> (\<forall>y \<in># a. holds y x \<longrightarrow> inside p y))"

lemma search_default: "search t x q = (case search t x None of None \<Rightarrow> q | Some p \<Rightarrow> Some p)"
proof (induction t arbitrary: q)
  case Nil
  then show ?case by simp
next
  case (Node p l m r)
  have "search m x (Some p) = (case search m x None of None \<Rightarrow> Some p | Some p \<Rightarrow> Some p)" by (rule Node.IH)
  then show ?case using Node.IH(1) [of q] Node.IH(3) [of q] by (auto split: option.split)
qed

lemma holds_simps: "precedes a b \<Longrightarrow> r_addr b \<le> x \<Longrightarrow> \<not> holds a x" "precedes b a \<Longrightarrow> x \<le> r_end b \<Longrightarrow> \<not> holds a x"
  "inside a b \<Longrightarrow> holds a x \<Longrightarrow> holds b x"
  by (auto simp: range_defs)

lemma search_ok:
  "tree_ok t \<Longrightarrow> (case search t x None of None \<Rightarrow> \<forall>y \<in># rms t. \<not> holds y x | Some p \<Rightarrow> best (rms t) x (strip p))"
proof (induction t)
  case Nil
  then show ?case by simp
next
  case (Node p l m r)
  then have ok: "tree_ok l" "tree_ok m" "tree_ok r" "valid p" by auto
  note lmr = Node.IH(1) [OF ok(1)] Node.IH(2) [OF ok(2)] Node.IH(3) [OF ok(3)]
  have lp: "\<forall>y \<in># rms l. precedes y p" and rp: "\<forall>y \<in># rms r. precedes p y" and mp: "\<forall>y \<in># rms m. inside y p"
    using Node.prems by auto
  consider "x < r_addr p" | "r_addr p \<le> x" "x \<le> r_end p" | "r_addr p \<le> x" "r_end p < x" by fastforce
  then show ?case
  proof cases
    case 1
    then have "\<forall>y \<in># rms m. \<not> holds y x" "\<forall>y \<in># rms r. \<not> holds y x" "\<not> holds p x"
      using rp mp ok(4) by (auto simp: range_defs)
    then show ?thesis using lmr(1) 1 by (auto simp: best_def route_simps split: option.splits)
  next
    case 2
    then have "\<forall>y \<in># rms l. \<not> holds y x" "\<forall>y \<in># rms r. \<not> holds y x" "holds p x" "inside p p"
      using lp rp by (auto simp: range_defs)
    then show ?thesis using lmr(2) 2 mp search_default [of m x "Some p"]
      by (auto simp: best_def route_simps split: option.splits)
  next
    case 3
    then have "\<forall>y \<in># rms m. \<not> holds y x" "\<forall>y \<in># rms l. \<not> holds y x" "\<not> holds p x"
      using lp mp ok(4) by (auto simp: range_defs)
    then show ?thesis using lmr(3) 3 by (auto simp: best_def route_simps split: option.splits)
  qed
qed

section \<open>What the trees do\<close>

definition ex_net :: "nat \<Rightarrow> nat \<Rightarrow> nat route" where
  "ex_net a e = \<lparr>r_depth = 0, r_type = Rv4, r_ifcid = 0, r_ifc = None, r_tag = replicate 4 0, r_ref = 1, r_addr = a,
     r_end = e, r_gate = []\<rparr>"

definition ex_tree :: "nat rtree" where
  "ex_tree = Node (ex_net 16 31) (Node (ex_net 0 15) Nil (Node (ex_net 4 7) Nil Nil Nil) Nil) Nil Nil"

lemmas ex_simps = ex_tree_def ex_net_def strip_def range_defs

lemma ex_tree_fine: "tree_ok ex_tree" "rms ex_tree = {#strip (ex_net 16 31), strip (ex_net 0 15), strip (ex_net 4 7)#}"
  by (simp_all add: ex_simps)

text \<open>
  Adding a route ends (the queue of displaced subtrees, which walkadd may refill, runs dry), the
  tree stays a search tree, and as a table it changes in that range only: a new range gets the new
  route, and a range that was there gets what the code makes of the two. The nodes a larger range
  displaces are all put back.
\<close>

theorem tree_add_table:
  assumes "tree_ok t" "valid n" "\<forall>y \<in># rms t. lam y n"
  shows "\<exists>t'. tree_add t n = Some t' \<and> tree_ok t' \<and> table t' = table_add (table t) n"
  using tree_add_ok [OF assms] by blast

lemma tree_add_table_witness:
  "\<exists>t'. tree_add ex_tree (ex_net 0 31) = Some t' \<and> tree_ok t' \<and> table t' = table_add (table ex_tree) (ex_net 0 31)"
  by (rule tree_add_table [OF ex_tree_fine(1)]) (simp_all add: ex_simps)

text \<open>
  Deleting a route ends, the tree stays a search tree, and as a table it changes in that range
  only: the reference is dropped, and the last one takes the entry away; the ranges below it and
  beside it stay.
\<close>

theorem tree_del_table:
  assumes "tree_ok t" "valid n" "\<forall>y \<in># rms t. lam y n"
  shows "\<exists>t'. tree_del t n = Some t' \<and> tree_ok t' \<and> table t' = table_del (table t) n"
  by (rule tree_del_ok [OF assms])

lemma tree_del_table_witness:
  "\<exists>t'. tree_del ex_tree (ex_net 0 15) = Some t' \<and> tree_ok t' \<and> table t' = table_del (table ex_tree) (ex_net 0 15)"
  by (rule tree_del_table [OF ex_tree_fine(1)]) (simp_all add: ex_simps)

text \<open>
  The search finds the longest match: the route returned holds the address and every route
  of the tree that holds it contains the range returned; nothing is returned when no route of the
  tree holds the address.
\<close>

theorem search_longest_match:
  assumes "tree_ok t"
  shows "case search t x None of None \<Rightarrow> \<forall>y \<in># rms t. \<not> holds y x | Some p \<Rightarrow> best (rms t) x (strip p)"
  by (rule search_ok [OF assms])

lemma search_longest_match_witness:
  "search ex_tree 6 None = Some (ex_net 4 7) \<and> best (rms ex_tree) 6 (strip (ex_net 4 7))"
proof -
  have "search ex_tree 6 None = Some (ex_net 4 7)" by (simp add: ex_tree_def ex_net_def)
  then show ?thesis using search_longest_match [OF ex_tree_fine(1), of 6] by simp
qed

end
