(* ===== verification/Ipforest.thy ===== *)
theory Ipforest
  imports Iproute Netbytes
begin

text \<open>
  The routing forest of \<open>ip/iproute.c\<close>: the 1024 trees an address is hashed to, the adding,
  deleting and looking up of a route by its address and mask, the route a conversation caches,
  and the flushing of routes by tag. The locale \<open>forest\<close> states what the two address families
  need of the hash and is interpreted for both; what it proves is that the forest is one table
  of prefixes, with the trees of a prefix holding the same entries but for the interface cache.
\<close>

subsection \<open>Addresses and their hash\<close>

definition Lroot :: nat where "Lroot = 10"

definition V4H :: "u32 \<Rightarrow> nat" where
  "V4H a = unat (drop_bit (32 - Lroot - 5) (a AND 0x07ffffff))"

text \<open>The four words of a version 6 address, in the order \<open>lcmp\<close> compares them.\<close>

datatype v6addr = V6 u32 u32 u32 u32

fun v6words :: "v6addr \<Rightarrow> u32 list" where
  "v6words (V6 a b c d) = [a, b, c, d]"

fun lcmp_words :: "u32 list \<Rightarrow> u32 list \<Rightarrow> int" where
  "lcmp_words (a # as) (b # bs) = (if a > b then 1 else if a < b then -1 else lcmp_words as bs)"
| "lcmp_words _ _ = 0"

definition lcmp :: "v6addr \<Rightarrow> v6addr \<Rightarrow> int" where
  "lcmp a b = lcmp_words (v6words a) (v6words b)"

text \<open>The number an address is, and that \<open>lcmp\<close> is its order.\<close>

fun v6num :: "v6addr \<Rightarrow> nat" where
  "v6num (V6 a b c d) = ((unat a * 2 ^ 32 + unat b) * 2 ^ 32 + unat c) * 2 ^ 32 + unat d"

lemma unat_32: "unat (w :: u32) < 2 ^ 32"
  using unat_u32_bound [of w] by simp

lemma horner_less: "b < B \<Longrightarrow> b' < B \<Longrightarrow> a * B + b < a' * B + b' \<longleftrightarrow> a < a' \<or> (a = a' \<and> b < b')" for a B :: nat
proof -
  assume b: "b < B" "b' < B"
  have "a * B + b < a' * B + b'" if "a < a'"
  proof -
    have "(a + 1) * B \<le> a' * B" using that by (intro mult_right_mono) auto
    then show ?thesis using b by simp
  qed
  moreover have "a' * B + b' < a * B + b" if "a' < a"
  proof -
    have "(a' + 1) * B \<le> a * B" using that by (intro mult_right_mono) auto
    then show ?thesis using b by simp
  qed
  ultimately show ?thesis by (cases a a' rule: linorder_cases) auto
qed

lemma horner_eq: "b < B \<Longrightarrow> b' < B \<Longrightarrow> a * B + b = a' * B + b' \<longleftrightarrow> a = a' \<and> b = b'" for a B :: nat
  using horner_less [of b B b' a a'] horner_less [of b' B b a' a] by (metis nat_neq_iff)

lemma lcmp_num: "lcmp a b < 0 \<longleftrightarrow> v6num a < v6num b" "lcmp a b = 0 \<longleftrightarrow> a = b" "lcmp a b > 0 \<longleftrightarrow> v6num b < v6num a"
proof -
  obtain a1 a2 a3 a4 b1 b2 b3 b4 where ab: "a = V6 a1 a2 a3 a4" "b = V6 b1 b2 b3 b4" by (metis v6addr.exhaust)
  have h: "v6num a < v6num b \<longleftrightarrow> a1 < b1 \<or> (a1 = b1 \<and> (a2 < b2 \<or> (a2 = b2 \<and> (a3 < b3 \<or> (a3 = b3 \<and> a4 < b4)))))"
    if "a = V6 a1 a2 a3 a4" "b = V6 b1 b2 b3 b4" for a1 a2 a3 a4 b1 b2 b3 b4 :: u32 and a b
    unfolding that v6num.simps
    by (simp only: horner_less [OF unat_32 unat_32] horner_eq [OF unat_32 unat_32]
      word_less_nat_alt word_unat_eq_iff) blast
  show "lcmp a b < 0 \<longleftrightarrow> v6num a < v6num b"
    unfolding h [OF ab] unfolding ab lcmp_def v6words.simps lcmp_words.simps by auto
  show "lcmp a b > 0 \<longleftrightarrow> v6num b < v6num a"
    unfolding h [OF ab(2,1)] unfolding ab lcmp_def v6words.simps lcmp_words.simps by auto
  show "lcmp a b = 0 \<longleftrightarrow> a = b"
    unfolding ab lcmp_def v6words.simps lcmp_words.simps by auto
qed

lemma v6num_inject: "v6num a = v6num b \<longleftrightarrow> a = b"
  using lcmp_num [of a b] by (metis less_irrefl linorder_neqE_linordered_idom)

instantiation v6addr :: linorder
begin

definition less_v6addr :: "v6addr \<Rightarrow> v6addr \<Rightarrow> bool" where
  "less_v6addr a b = (lcmp a b < 0)"

definition less_eq_v6addr :: "v6addr \<Rightarrow> v6addr \<Rightarrow> bool" where
  "less_eq_v6addr a b = (lcmp a b \<le> 0)"

instance
proof
  fix x y z :: v6addr
  have le: "lcmp x y \<le> 0 \<longleftrightarrow> v6num x \<le> v6num y" for x y using lcmp_num [of x y] by (meson not_less)
  show "(x < y) = (x \<le> y \<and> \<not> y \<le> x)" "x \<le> x" "x \<le> y \<or> y \<le> x"
    by (auto simp: less_v6addr_def less_eq_v6addr_def le lcmp_num(1))
  show "x \<le> y \<Longrightarrow> y \<le> z \<Longrightarrow> x \<le> z" "x \<le> y \<Longrightarrow> y \<le> x \<Longrightarrow> x = y"
    by (auto simp: less_eq_v6addr_def le v6num_inject [symmetric])
qed

end

lemma v6num_le: "v6num a \<le> v6num b \<longleftrightarrow> a \<le> b"
  using lcmp_num [of a b] by (simp add: less_eq_v6addr_def) (meson not_less)

fun V6H :: "v6addr \<Rightarrow> nat" where
  "V6H (V6 a b c d) = unat (drop_bit (32 - Lroot - 5) (d AND 0x07ffffff))"

subsection \<open>Prefix ranges\<close>

text \<open>The addresses that agree in all but the last \<open>k\<close> bits.\<close>

definition dyadic :: "nat \<Rightarrow> nat \<Rightarrow> bool" where
  "dyadic s e = (\<exists>k q. s = q * 2 ^ k \<and> e = q * 2 ^ k + (2 ^ k - 1))"

lemma dyadic_le: "dyadic s e \<Longrightarrow> s \<le> e"
  by (auto simp only: dyadic_def le_add1)

lemma dyadic_one: "dyadic n n"
  unfolding dyadic_def by (rule exI [of _ 0]) simp

lemma dyadic_low: "dyadic s e \<Longrightarrow> dyadic (s * 2 ^ i) (e * 2 ^ i + (2 ^ i - 1))"
proof -
  assume "dyadic s e"
  then obtain k q where kq: "s = q * 2 ^ k" "e = q * 2 ^ k + (2 ^ k - 1)" by (auto simp: dyadic_def)
  have "(a - 1) * b + (b - 1) = a * b - (1 :: nat)" if "0 < a" "0 < b" for a b
    using that by (cases a; cases b) auto
  from this [of "2 ^ k" "2 ^ i"] have "(2 ^ k - 1) * 2 ^ i + (2 ^ i - 1) = (2 ^ (k + i) - 1 :: nat)"
    by (simp add: power_add)
  then have "e * 2 ^ i + (2 ^ i - 1) = q * 2 ^ (k + i) + (2 ^ (k + i) - 1)"
    unfolding kq(2) add_mult_distrib by (simp only: add.assoc power_add mult.assoc)
  then show ?thesis unfolding dyadic_def
    by - (rule exI [of _ "k + i"], rule exI [of _ q], simp add: kq(1) power_add mult.assoc)
qed

lemma dyadic_high:
  assumes "dyadic s e" "e < 2 ^ i"
  shows "dyadic (h * 2 ^ i + s) (h * 2 ^ i + e)"
proof -
  obtain k q where kq: "s = q * 2 ^ k" "e = q * 2 ^ k + (2 ^ k - 1)" using assms by (auto simp: dyadic_def)
  have "(2 :: nat) ^ k < 2 ^ i + 1" using assms(2) kq(2) by linarith
  then have "k \<le> i" by (metis Suc_eq_plus1 less_Suc_eq_le one_less_numeral_iff power_le_imp_le_exp semiring_norm(76))
  then have "(2 :: nat) ^ i = 2 ^ (i - k) * 2 ^ k" by (simp add: power_add [symmetric])
  then show ?thesis unfolding dyadic_def
    by - (rule exI [of _ k], rule exI [of _ "h * 2 ^ (i - k) + q"],
      simp only: kq add_mult_distrib mult.assoc add.assoc simp_thms)
qed

lemma dyadic_laminar_aux:
  assumes "s = q * 2 ^ j" "e = q * 2 ^ j + (2 ^ j - 1)" "s' = q' * 2 ^ k" "e' = q' * 2 ^ k + (2 ^ k - 1)" "j \<le> k"
  shows "e < s' \<or> e' < s \<or> (s' \<le> s \<and> e \<le> (e' :: nat))"
proof -
  have k: "(2 :: nat) ^ k = 2 ^ (k - j) * 2 ^ j" using assms(5) by (simp add: power_add [symmetric])
  define r where "r = q mod 2 ^ (k - j)"
  define d where "d = q div 2 ^ (k - j)"
  have q: "q = d * 2 ^ (k - j) + r" by (simp only: d_def r_def div_mult_mod_eq)
  have "r < 2 ^ (k - j)" by (simp add: r_def)
  then have "(r + 1) * 2 ^ j \<le> 2 ^ (k - j) * 2 ^ j" by (intro mult_right_mono) auto
  then have r: "r * 2 ^ j + 2 ^ j \<le> 2 ^ k" using k by simp
  have s: "s = d * 2 ^ k + r * 2 ^ j" by (simp add: assms(1) q k algebra_simps)
  have e: "e = d * 2 ^ k + r * 2 ^ j + (2 ^ j - 1)" using s assms(1,2) by simp
  have p: "(0 :: nat) < 2 ^ j" "(0 :: nat) < 2 ^ k" by simp_all
  consider "d < q'" | "q' < d" | "d = q'" by linarith
  then show ?thesis
  proof cases
    case 1
    then have "(d + 1) * 2 ^ k \<le> q' * 2 ^ k" by (intro mult_right_mono) auto
    then have "d * 2 ^ k + 2 ^ k \<le> q' * 2 ^ k" by simp
    then have "e < s'" unfolding e assms(3) using r p by linarith
    then show ?thesis by blast
  next
    case 2
    then have "(q' + 1) * 2 ^ k \<le> d * 2 ^ k" by (intro mult_right_mono) auto
    then have "q' * 2 ^ k + 2 ^ k \<le> d * 2 ^ k" by simp
    then have "e' < s" unfolding s assms(4) using p by linarith
    then show ?thesis by blast
  next
    case 3
    have "s' \<le> s" "e \<le> e'" unfolding e s assms(3,4) 3 using r p by simp_all
    then show ?thesis by blast
  qed
qed

lemma dyadic_laminar:
  assumes "dyadic s e" "dyadic s' e'"
  shows "e < s' \<or> e' < s \<or> (s' \<le> s \<and> e \<le> e') \<or> (s \<le> s' \<and> e' \<le> e)"
proof -
  obtain q j q' k where "s = q * 2 ^ j" "e = q * 2 ^ j + (2 ^ j - 1)" "s' = q' * 2 ^ k" "e' = q' * 2 ^ k + (2 ^ k - 1)"
    using assms by (auto simp: dyadic_def)
  then show ?thesis
    using dyadic_laminar_aux [of s q j e s' q' k e'] dyadic_laminar_aux [of s' q' k e' s q j e] by (cases "j \<le> k") auto
qed

text \<open>Ten of the last 27 bits: the hash of a number.\<close>

definition nhash :: "nat \<Rightarrow> nat" where "nhash n = n mod 2 ^ 27 div 2 ^ 17"

lemma nhash_less: "nhash n < 1024"
proof -
  have "n mod 2 ^ 27 < 2 ^ 17 * 1024" by simp
  then show ?thesis unfolding nhash_def by (simp add: less_mult_imp_div_less mult.commute)
qed

lemma nhash_dyadic:
  assumes "dyadic s e" "s \<le> x" "x \<le> e"
  shows "nhash s \<le> nhash x \<and> nhash x \<le> nhash e"
proof -
  obtain k q where kq: "s = q * 2 ^ k" "e = q * 2 ^ k + (2 ^ k - 1)" using assms(1) by (auto simp: dyadic_def)
  obtain i where i: "x = s + i" using assms(2) le_Suc_ex by blast
  then have i_less: "i < 2 ^ k"
  proof -
    have "i \<le> 2 ^ k - 1" using assms(3) kq i by simp
    moreover have "(0 :: nat) < 2 ^ k" by simp
    ultimately show ?thesis by linarith
  qed
  show ?thesis
  proof (cases "k < 27")
    case True
    then have b: "(2 :: nat) ^ 27 = 2 ^ (27 - k) * 2 ^ k" by (simp only: power_add [symmetric]) simp
    have m: "(s + j) mod 2 ^ 27 = (q mod 2 ^ (27 - k)) * 2 ^ k + j" if "j < 2 ^ k" for j
    proof -
      have "(s + j) mod 2 ^ 27 = 2 ^ k * ((s + j) div 2 ^ k mod 2 ^ (27 - k)) + (s + j) mod 2 ^ k"
        unfolding b by (simp only: mult.commute [of "2 ^ (27 - k)"] mod_mult2_eq)
      then show ?thesis using that by (simp add: kq mult.commute)
    qed
    have "s mod 2 ^ 27 \<le> x mod 2 ^ 27" "x mod 2 ^ 27 \<le> e mod 2 ^ 27"
    proof -
      have e: "e mod 2 ^ 27 = q mod 2 ^ (27 - k) * 2 ^ k + (2 ^ k - 1)"
        unfolding kq(2) unfolding kq(1) [symmetric] by (rule m) simp
      have "i \<le> 2 ^ k - 1" using i_less by linarith
      then show "x mod 2 ^ 27 \<le> e mod 2 ^ 27" unfolding e i m [OF i_less] by (rule add_left_mono)
      show "s mod 2 ^ 27 \<le> x mod 2 ^ 27" using m [of 0] unfolding i m [OF i_less] by simp
    qed
    then show ?thesis unfolding nhash_def by (meson div_le_mono)
  next
    case False
    then have b: "(2 :: nat) ^ k = 2 ^ (k - 27) * 2 ^ 27" by (simp only: power_add [symmetric]) simp
    have "s mod 2 ^ 27 = 0" by (simp only: kq(1) b mult.assoc [symmetric] mod_mult_self2_is_0)
    moreover have "e mod 2 ^ 27 = 2 ^ 27 - 1"
    proof -
      have "(0 :: nat) < 2 ^ (k - 27)" by simp
      then obtain c where "(2 :: nat) ^ (k - 27) = Suc c" by (metis gr0_implies_Suc)
      then have "e = (2 ^ 27 - 1) + (q * 2 ^ (k - 27) + c) * 2 ^ 27"
        unfolding kq(2) b by (simp add: algebra_simps)
      then show ?thesis by (simp only: mod_mult_self1) simp
    qed
    ultimately have "nhash s = 0" "nhash e = 1023" by (simp_all only: nhash_def) simp_all
    then show ?thesis using nhash_less [of x] by simp
  qed
qed

subsection \<open>The loops over the trees\<close>

text \<open>
  The loop body of v4addroute and v6addroute, and of v4delroute and v6delroute, for the hashes
  in order. The lock is taken and dropped for each tree.
\<close>

type_synonym 'a forest = "nat \<Rightarrow> 'a rtree"

fun add_loop :: "('a::linorder) forest \<Rightarrow> 'a route \<Rightarrow> nat list \<Rightarrow> 'a forest option" where
  "add_loop root p [] = Some root"
| "add_loop root p (h # hs) = (case tree_add (root h) p of
      None \<Rightarrow> None | Some t \<Rightarrow> add_loop (root(h := t)) p hs)"

fun del_loop :: "('a::linorder) forest \<Rightarrow> 'a route \<Rightarrow> nat list \<Rightarrow> 'a forest option" where
  "del_loop root p [] = Some root"
| "del_loop root p (h # hs) = (case tree_del (root h) p of
      None \<Rightarrow> None | Some t \<Rightarrow> del_loop (root(h := t)) p hs)"

lemma add_loop_each:
  "distinct hs \<Longrightarrow> (\<And>h. h \<in> set hs \<Longrightarrow> tree_add (root h) p = Some (t h)) \<Longrightarrow>
   add_loop root p hs = Some (\<lambda>h. if h \<in> set hs then t h else root h)"
proof (induction hs arbitrary: root)
  case (Cons h hs)
  then have "add_loop (root(h := t h)) p hs = Some (\<lambda>i. if i \<in> set hs then t i else (root(h := t h)) i)"
    by (intro Cons.IH) auto
  then show ?case using Cons.prems by (auto intro!: ext)
qed simp

lemma del_loop_each:
  "distinct hs \<Longrightarrow> (\<And>h. h \<in> set hs \<Longrightarrow> tree_del (root h) p = Some (t h)) \<Longrightarrow>
   del_loop root p hs = Some (\<lambda>h. if h \<in> set hs then t h else root h)"
proof (induction hs arbitrary: root)
  case (Cons h hs)
  then have "del_loop (root(h := t h)) p hs = Some (\<lambda>i. if i \<in> set hs then t i else (root(h := t h)) i)"
    by (intro Cons.IH) auto
  then show ?case using Cons.prems by (auto intro!: ext)
qed simp

subsection \<open>The forest as one table\<close>

text \<open>The trees of a prefix differ in the depth field and in the interface looked up last.\<close>

definition bare :: "'a route \<Rightarrow> 'a route" where
  "bare r = r\<lparr>r_depth := 0, r_ifc := None, r_ifcid := 0\<rparr>"

lemma bare_simps [route_simps]:
  "bare (bare r) = bare r" "bare (strip r) = bare r" "strip (bare r) = bare r" "key (bare r) = key r"
  "bare (supersede (bare p) n) = bare (supersede p n)" "r_ref (bare r) = r_ref r" "r_type (bare r) = r_type r"
  "bare (r\<lparr>r_ref := i\<rparr>) = (bare r)\<lparr>r_ref := i\<rparr>" "bare (r\<lparr>r_ifc := j, r_ifcid := w\<rparr>) = bare r"
  "r_addr (bare r) = r_addr r" "r_end (bare r) = r_end r" "r_gate (bare r) = r_gate r" "r_tag (bare r) = r_tag r"
  by (simp_all add: bare_def strip_def key_def supersede_def copygate_def)

text \<open>What adding and deleting do to the table of a forest.\<close>

definition entry_add :: "('a \<times> 'a \<Rightarrow> 'a route option) \<Rightarrow> 'a route \<Rightarrow> ('a \<times> 'a \<Rightarrow> 'a route option)" where
  "entry_add T n = T(key n \<mapsto> (case T (key n) of None \<Rightarrow> bare n | Some p \<Rightarrow> bare (supersede p n)))"

text \<open>
  \<open>num\<close> is the number an address is. The forest holds the table \<open>T\<close>: the ranges are prefixes, every
  tree is a search tree, and a range is in exactly the trees from the hash of its first address to
  the hash of its last.
\<close>

definition forest_ok :: "('a::linorder \<Rightarrow> nat) \<Rightarrow> ('a \<Rightarrow> nat) \<Rightarrow> 'a forest \<Rightarrow> ('a \<times> 'a \<Rightarrow> 'a route option) \<Rightarrow> bool" where
  "forest_ok num hash root T =
     ((\<forall>k p. T k = Some p \<longrightarrow> key p = k \<and> bare p = p \<and> dyadic (num (fst k)) (num (snd k))) \<and>
      (\<forall>h. tree_ok (root h)) \<and>
      (\<forall>h k. map_option bare (table (root h) k) = (if hash (fst k) \<le> h \<and> h \<le> hash (snd k) then T k else None)))"

lemma forest_okD:
  assumes "forest_ok num hash root T"
  shows "T k = Some p \<Longrightarrow> key p = k \<and> bare p = p \<and> dyadic (num (fst k)) (num (snd k))"
    and "tree_ok (root h)"
    and "map_option bare (table (root h) k) = (if hash (fst k) \<le> h \<and> h \<le> hash (snd k) then T k else None)"
  using assms unfolding forest_ok_def by blast+

locale forest =
  fixes num :: "'a::linorder \<Rightarrow> nat" and hash :: "'a \<Rightarrow> nat"
  assumes num_le: "num x \<le> num y \<longleftrightarrow> x \<le> y"
    and hash_num: "hash x = nhash (num x)"
begin

lemma num_less: "num x < num y \<longleftrightarrow> x < y"
  using num_le [of y x] by (meson not_le)

lemma hash_bound: "hash x < 1024"
  by (simp add: hash_num nhash_less)

lemma hash_range: "dyadic (num s) (num e) \<Longrightarrow> s \<le> x \<Longrightarrow> x \<le> e \<Longrightarrow> hash s \<le> hash x \<and> hash x \<le> hash e"
  using nhash_dyadic [of "num s" "num e" "num x"] by (simp add: hash_num num_le)

lemma prefix_lam: "dyadic (num (r_addr a)) (num (r_end a)) \<Longrightarrow> dyadic (num (r_addr b)) (num (r_end b)) \<Longrightarrow> lam a b"
  using dyadic_laminar [of "num (r_addr a)" "num (r_end a)" "num (r_addr b)" "num (r_end b)"]
  by (auto simp: num_le num_less range_defs)

lemma prefix_valid: "dyadic (num (r_addr a)) (num (r_end a)) \<Longrightarrow> valid a"
  using dyadic_le [of "num (r_addr a)" "num (r_end a)"] by (simp add: valid_def num_le)

lemma in_tree:
  assumes "forest_ok num hash root T" "y \<in># rms (root h)"
  shows "T (key y) = Some (bare y)" "hash (r_addr y) \<le> h" "h \<le> hash (r_end y)"
    "dyadic (num (r_addr y)) (num (r_end y))"
proof -
  have ok: "tree_ok (root h)" by (rule forest_okD(2) [OF assms(1)])
  have "table (root h) (key y) = Some y" using table_Some [OF ok] assms(2) by blast
  moreover have "map_option bare (table (root h) (key y)) =
    (if hash (fst (key y)) \<le> h \<and> h \<le> hash (snd (key y)) then T (key y) else None)"
    by (rule forest_okD(3) [OF assms(1)])
  ultimately have h: "T (key y) = Some (bare y) \<and> hash (fst (key y)) \<le> h \<and> h \<le> hash (snd (key y))"
    by (metis option.distinct(1) option.simps(9))
  then show "T (key y) = Some (bare y)" "hash (r_addr y) \<le> h" "h \<le> hash (r_end y)" by (auto simp: key_def)
  show "dyadic (num (r_addr y)) (num (r_end y))"
    using forest_okD(1) [OF assms(1), of "key y" "bare y"] h by (simp add: key_def)
qed

lemma tree_ready:
  assumes "forest_ok num hash root T" "dyadic (num (r_addr n)) (num (r_end n))"
  shows "tree_ok (root h)" "valid n" "\<forall>y \<in># rms (root h). lam y n"
  using assms(2) forest_okD(2) [OF assms(1)] in_tree(4) [OF assms(1)] prefix_lam prefix_valid by auto

lemma replace_trees:
  assumes f: "forest_ok num hash root T" and d: "dyadic (num (r_addr n)) (num (r_end n))"
    and T': "\<And>k. k \<noteq> key n \<Longrightarrow> T' k = T k" "\<And>p. T' (key n) = Some p \<Longrightarrow> key p = key n \<and> bare p = p"
    and t: "\<And>h. tree_ok (t h)" "\<And>h k. k \<noteq> key n \<Longrightarrow> table (t h) k = table (root h) k"
    "\<And>h. map_option bare (table (root h) (key n)) = T (key n) \<Longrightarrow> map_option bare (table (t h) (key n)) = T' (key n)"
  shows "forest_ok num hash (\<lambda>h. if h \<in> set [hash (r_addr n) ..< Suc (hash (r_end n))] then t h else root h) T'"
proof -
  have "key p = k \<and> bare p = p \<and> dyadic (num (fst k)) (num (snd k))" if "T' k = Some p" for k p
    using that T'(1) [of k] T'(2) [of p] forest_okD(1) [OF f, of k p] d by (cases "k = key n") (auto simp: key_def)
  moreover have "map_option bare (table (if h \<in> set [hash (r_addr n) ..< Suc (hash (r_end n))] then t h else root h) k) =
      (if hash (fst k) \<le> h \<and> h \<le> hash (snd k) then T' k else None)" for h k
    using forest_okD(3) [OF f, of h k] t(2) [of k h] t(3) [of h] T'(1) [of k] by (cases "k = key n") (auto simp: key_def)
  ultimately show ?thesis using forest_okD(2) [OF f] t(1) by (simp add: forest_ok_def)
qed

lemma add_ok:
  assumes f: "forest_ok num hash root T" and d: "dyadic (num (r_addr n)) (num (r_end n))"
  shows "\<exists>root'. add_loop root n [hash (r_addr n) ..< Suc (hash (r_end n))] = Some root' \<and>
    forest_ok num hash root' (entry_add T n)"
proof -
  have "\<exists>t'. tree_add (root h) n = Some t' \<and> tree_ok t' \<and> table t' = table_add (table (root h)) n" for h
    using tree_add_ok [OF tree_ready [OF f d]] by blast
  then obtain t where t: "\<And>h. tree_add (root h) n = Some (t h)" "\<And>h. tree_ok (t h)"
    "\<And>h. table (t h) = table_add (table (root h)) n" by metis
  have "forest_ok num hash (\<lambda>h. if h \<in> set [hash (r_addr n) ..< Suc (hash (r_end n))] then t h else root h) (entry_add T n)"
  proof (rule replace_trees [OF f d])
    show "key p = key n \<and> bare p = p" if "entry_add T n (key n) = Some p" for p
      using that forest_okD(1) [OF f, of "key n"] by (auto simp: entry_add_def route_simps split: option.splits)
    show "map_option bare (table (t h) (key n)) = entry_add T n (key n)"
      if "map_option bare (table (root h) (key n)) = T (key n)" for h
      using that [symmetric] by (cases "table (root h) (key n)") (simp_all add: t(3) table_add_def entry_add_def route_simps)
  qed (simp_all add: t(2,3) table_add_def entry_add_def)
  then show ?thesis using add_loop_each [of _ root n t] t(1) by (metis distinct_upt)
qed

lemma del_ok:
  assumes f: "forest_ok num hash root T" and d: "dyadic (num (r_addr n)) (num (r_end n))"
  shows "\<exists>root'. del_loop root n [hash (r_addr n) ..< Suc (hash (r_end n))] = Some root' \<and>
    forest_ok num hash root' (table_del T n)"
proof -
  have "\<exists>t'. tree_del (root h) n = Some t' \<and> tree_ok t' \<and> table t' = table_del (table (root h)) n" for h
    using tree_del_ok [OF tree_ready [OF f d]] by blast
  then obtain t where t: "\<And>h. tree_del (root h) n = Some (t h)" "\<And>h. tree_ok (t h)"
    "\<And>h. table (t h) = table_del (table (root h)) n" by metis
  have "forest_ok num hash (\<lambda>h. if h \<in> set [hash (r_addr n) ..< Suc (hash (r_end n))] then t h else root h) (table_del T n)"
  proof (rule replace_trees [OF f d])
    show "key p = key n \<and> bare p = p" if "table_del T n (key n) = Some p" for p
      using that forest_okD(1) [OF f, of "key n"] by (auto simp: table_del_def route_simps split: option.splits if_splits)
    show "map_option bare (table (t h) (key n)) = table_del T n (key n)"
      if "map_option bare (table (root h) (key n)) = T (key n)" for h
      using that [symmetric] by (cases "table (root h) (key n)") (simp_all add: t(3) table_del_def route_simps)
  qed (simp_all add: t(2,3) table_del_def split: option.splits)
  then show ?thesis using del_loop_each [of _ root n t] t(1) by (metis distinct_upt)
qed

text \<open>The search in the tree of an address finds the longest match of the whole table.\<close>

lemma lookup_ok:
  assumes f: "forest_ok num hash root T"
  shows "case search (root (hash x)) x None of
      None \<Rightarrow> \<forall>k p. T k = Some p \<longrightarrow> \<not> holds p x
    | Some q \<Rightarrow> T (key q) = Some (bare q) \<and> holds q x \<and> (\<forall>k p. T k = Some p \<longrightarrow> holds p x \<longrightarrow> inside q p)"
proof -
  have here: "\<exists>y \<in># rms (root (hash x)). bare y = p" if p: "T k = Some p" "holds p x" for k p
  proof -
    have k: "key p = k" "dyadic (num (fst k)) (num (snd k))" using forest_okD(1) [OF f p(1)] by auto
    then have "hash (fst k) \<le> hash x \<and> hash x \<le> hash (snd k)"
      using hash_range [OF k(2)] p(2) k(1) by (auto simp: holds_def key_def)
    then have "map_option bare (table (root (hash x)) k) = Some p" using forest_okD(3) [OF f, of "hash x" k] p(1) by simp
    then obtain y where "table (root (hash x)) k = Some y" "bare y = p" by auto
    then show ?thesis using table_Some [OF forest_okD(2) [OF f]] by blast
  qed
  have bare_range: "holds (bare y) x = holds y x" "inside q (bare y) = inside q y" for y q
    by (simp_all add: bare_def range_defs)
  show ?thesis
  proof (cases "search (root (hash x)) x None")
    case None
    then have "\<forall>y \<in># rms (root (hash x)). \<not> holds y x" using search_ok [OF forest_okD(2) [OF f], of "hash x" x] by simp
    then have "\<not> holds p x" if "T k = Some p" for k p using here [OF that] bare_range(1) by blast
    then show ?thesis using None by simp
  next
    case (Some q)
    then have b: "best (rms (root (hash x))) x (strip q)" using search_ok [OF forest_okD(2) [OF f], of "hash x" x] by simp
    then have "T (key q) = Some (bare q)" using in_tree(1) [OF f, of "strip q" "hash x"] by (simp add: best_def route_simps)
    moreover have "inside q p" if "T k = Some p" "holds p x" for k p
      using here [OF that] that(2) b bare_range by (auto simp: best_def route_simps)
    ultimately show ?thesis using Some b by (auto simp: best_def route_simps)
  qed
qed

end

lemma hash_word: "unat (drop_bit (32 - Lroot - 5) ((a :: u32) AND 0x07ffffff)) = nhash (unat a)"
proof -
  have m: "(0x07ffffff :: u32) = mask 27" by (simp add: mask_eq_exp_minus_1)
  have a: "unat (a AND mask 27) = unat a mod 2 ^ 27"
    by (simp only: take_bit_eq_mask [symmetric] unsigned_take_bit_eq) (simp add: take_bit_eq_mod)
  have l: "32 - Lroot - 5 = 17" by (simp add: Lroot_def)
  show ?thesis
    unfolding m l unat_drop_bit_eq a nhash_def by (simp only: drop_bit_eq_div)
qed

lemma nhash_horner: "nhash (h * 2 ^ 32 + n) = nhash n"
proof -
  have "(h * 2 ^ 32 + n) mod 2 ^ 27 = (n + (h * 2 ^ 5) * 2 ^ 27) mod 2 ^ 27"
    by (simp add: add.commute mult.commute)
  then show ?thesis unfolding nhash_def by (simp only: mod_mult_self1)
qed

interpretation v4: forest unat V4H
  by unfold_locales (simp_all only: word_le_nat_alt V4H_def hash_word)

interpretation v6: forest v6num V6H
proof
  show "(v6num x \<le> v6num y) = (x \<le> y)" for x y by (rule v6num_le)
  show "V6H x = nhash (v6num x)" for x
    by (cases x) (simp only: V6H.simps hash_word v6num.simps nhash_horner)
qed

subsection \<open>Masks\<close>

text \<open>A mask of leading ones.\<close>

definition contig :: "u32 \<Rightarrow> bool" where
  "contig m = (\<exists>k \<le> 32. m = NOT (mask k))"

lemma masked_dyadic:
  assumes "contig m"
  shows "dyadic (unat (x AND m)) (unat (x OR NOT m))"
proof -
  obtain k where k: "k \<le> 32" "m = NOT (mask k)" using assms by (auto simp: contig_def)
  have s: "unat (x AND m) = push_bit k (drop_bit k (unat x))"
    unfolding k(2) by (rule bit_eqI) (auto simp: bit_simps dest: bit_imp_le_length)
  have "push_bit k (drop_bit k (unat x)) + mask k = push_bit k (drop_bit k (unat x)) OR mask k"
    by (rule disjunctive_add_eq_or) (auto simp: bit_eq_iff bit_simps)
  also have "\<dots> = unat (x OR NOT m)"
    unfolding k(2) using k(1) by (intro bit_eqI) (auto simp: bit_simps dest: bit_imp_le_length)
  finally have e: "unat (x OR NOT m) = push_bit k (drop_bit k (unat x)) + mask k" by simp
  show ?thesis
    unfolding dyadic_def s e
    by (rule exI [of _ k], rule exI [of _ "drop_bit k (unat x)"]) (simp add: push_bit_eq_mult mask_eq_exp_minus_1)
qed

fun v6low :: "v6addr \<Rightarrow> v6addr \<Rightarrow> v6addr" where
  "v6low (V6 a b c d) (V6 m n k l) = V6 (a AND m) (b AND n) (c AND k) (d AND l)"

fun v6high :: "v6addr \<Rightarrow> v6addr \<Rightarrow> v6addr" where
  "v6high (V6 a b c d) (V6 m n k l) = V6 (a OR NOT m) (b OR NOT n) (c OR NOT k) (d OR NOT l)"

fun contig6 :: "v6addr \<Rightarrow> bool" where
  "contig6 (V6 m n k l) =
     (contig m \<and> n = 0 \<and> k = 0 \<and> l = 0 \<or> m = -1 \<and> contig n \<and> k = 0 \<and> l = 0 \<or>
      m = -1 \<and> n = -1 \<and> contig k \<and> l = 0 \<or> m = -1 \<and> n = -1 \<and> k = -1 \<and> contig l)"

lemma dyadic_horner:
  "dyadic s e \<Longrightarrow> dyadic (s * 2 ^ 32 + unat ((x :: u32) AND 0)) (e * 2 ^ 32 + unat (x OR NOT 0))"
  "dyadic s e \<Longrightarrow> e < 2 ^ 32 \<Longrightarrow> dyadic (h * 2 ^ 32 + s) (h * 2 ^ 32 + e)"
  using dyadic_low [of s e 32] dyadic_high [of s e 32 h] by (simp_all add: unsigned_minus_1_eq_mask mask_eq_exp_minus_1)

lemma v6_masked_dyadic:
  assumes "contig6 m"
  shows "dyadic (v6num (v6low x m)) (v6num (v6high x m))"
proof -
  obtain a b c d m0 m1 m2 m3 where x: "x = V6 a b c d" "m = V6 m0 m1 m2 m3" by (metis v6addr.exhaust)
  have w: "unat ((z :: u32) AND -1) = unat z" "unat (z OR NOT (-1)) = unat z" for z by simp_all
  consider "contig m0" "m1 = 0" "m2 = 0" "m3 = 0" | "m0 = -1" "contig m1" "m2 = 0" "m3 = 0"
    | "m0 = -1" "m1 = -1" "contig m2" "m3 = 0" | "m0 = -1" "m1 = -1" "m2 = -1" "contig m3"
    using assms unfolding x(2) contig6.simps by blast
  then show ?thesis
  proof cases
    case 1
    then show ?thesis unfolding x v6low.simps v6high.simps v6num.simps
      by (simp only: 1) (intro dyadic_horner masked_dyadic 1)
  next
    case 2
    then show ?thesis unfolding x v6low.simps v6high.simps v6num.simps
      by (simp only: 2 w) (intro dyadic_horner masked_dyadic 2 unat_32)
  next
    case 3
    then show ?thesis unfolding x v6low.simps v6high.simps v6num.simps
      by (simp only: 3 w) (intro dyadic_horner masked_dyadic 3 unat_32)
  next
    case 4
    then show ?thesis unfolding x v6low.simps v6high.simps v6num.simps
      by (simp only: 4 w) (intro dyadic_horner(2) masked_dyadic 4 unat_32)
  qed
qed

subsection \<open>The operations\<close>

text \<open>
  What is told to the media through \<open>ipifcaddroute\<close> and \<open>ipifcremroute\<close>, last first. The roots,
  the generations and the calls made are the state; \<open>ulong\<close> is 32 bits.
\<close>

datatype ifc_call = Ifcadd u8 bytes bytes bytes u8 | Ifcrem u8 bytes bytes

record rfs =
  v4root :: "u32 forest"
  v6root :: "v6addr forest"
  v4gen :: u32
  v6gen :: u32
  told :: "ifc_call list"

definition allocroute :: "u8 \<Rightarrow> 'a \<Rightarrow> 'a route" where
  "allocroute type zero = \<lparr>r_depth = 0, r_type = type, r_ifcid = 0, r_ifc = None, r_tag = replicate 4 0, r_ref = 1,
     r_addr = zero, r_end = zero, r_gate = []\<rparr>"

definition v4addroute :: "rfs \<Rightarrow> bytes \<Rightarrow> bytes \<Rightarrow> bytes \<Rightarrow> bytes \<Rightarrow> u8 \<Rightarrow> rfs option" where
  "v4addroute f tag a mk gate type = do {
     m \<leftarrow> nhgetl mk;
     x \<leftarrow> nhgetl a;
     let sa = x AND m;
     let ea = sa OR NOT m;
     g \<leftarrow> mem_read 4 gate;
     t \<leftarrow> mem_read 4 tag;
     let p = (allocroute (Rv4 OR type) 0)\<lparr>r_addr := sa, r_end := ea, r_gate := g, r_tag := t\<rparr>;
     root \<leftarrow> add_loop (v4root f) p [V4H sa ..< Suc (V4H ea)];
     Some (f\<lparr>v4root := root, v4gen := v4gen f + 1, told := Ifcadd Rv4 a mk gate type # told f\<rparr>)
   }"

definition nhgetl4 :: "bytes \<Rightarrow> v6addr option" where
  "nhgetl4 p = do {
     a \<leftarrow> nhgetl p;
     b \<leftarrow> nhgetl (drop 4 p);
     c \<leftarrow> nhgetl (drop 8 p);
     d \<leftarrow> nhgetl (drop 12 p);
     Some (V6 a b c d)
   }"

definition v6addroute :: "rfs \<Rightarrow> bytes \<Rightarrow> bytes \<Rightarrow> bytes \<Rightarrow> bytes \<Rightarrow> u8 \<Rightarrow> rfs option" where
  "v6addroute f tag a mk gate type = do {
     x \<leftarrow> nhgetl4 a;
     y \<leftarrow> nhgetl4 mk;
     let sa = v6low x y;
     let ea = v6high x y;
     g \<leftarrow> mem_read 16 gate;
     t \<leftarrow> mem_read 4 tag;
     let p = (allocroute type (V6 0 0 0 0))\<lparr>r_addr := sa, r_end := ea, r_gate := g, r_tag := t\<rparr>;
     root \<leftarrow> add_loop (v6root f) p [V6H sa ..< Suc (V6H ea)];
     Some (f\<lparr>v6root := root, v6gen := v6gen f + 1, told := Ifcadd 0 a mk gate type # told f\<rparr>)
   }"

text \<open>The route on the stack has only its range set; \<open>dolock\<close> does not change what is done.\<close>

definition v4delroute :: "rfs \<Rightarrow> bytes \<Rightarrow> bytes \<Rightarrow> rfs option" where
  "v4delroute f a mk = do {
     m \<leftarrow> nhgetl mk;
     x \<leftarrow> nhgetl a;
     let sa = x AND m;
     let rt = (allocroute Rv4 0)\<lparr>r_addr := sa, r_end := sa OR NOT m\<rparr>;
     root \<leftarrow> del_loop (v4root f) rt [V4H (r_addr rt) ..< Suc (V4H (r_end rt))];
     Some (f\<lparr>v4root := root, v4gen := v4gen f + 1, told := Ifcrem Rv4 a mk # told f\<rparr>)
   }"

definition v6delroute :: "rfs \<Rightarrow> bytes \<Rightarrow> bytes \<Rightarrow> rfs option" where
  "v6delroute f a mk = do {
     x \<leftarrow> nhgetl4 a;
     y \<leftarrow> nhgetl4 mk;
     let rt = (allocroute 0 (V6 0 0 0 0))\<lparr>r_addr := v6low x y, r_end := v6high x y\<rparr>;
     root \<leftarrow> del_loop (v6root f) rt [V6H (r_addr rt) ..< Suc (V6H (r_end rt))];
     Some (f\<lparr>v6root := root, v6gen := v6gen f + 1, told := Ifcrem 0 a mk # told f\<rparr>)
   }"

text \<open>
  A \<open>Route*\<close> of the lookups is the place of a node: family, tree and range. The nodes are relinked,
  not copied, so a place is a pointer as long as the range has an entry. \<open>c_rgen\<close> tells whether a
  cached pointer may be followed; the code reads \<open>c->r->ifc\<close> before it compares the generation,
  which is harmless as freed nodes stay in a free list.
\<close>

datatype place = P4 nat "u32 \<times> u32" | P6 nat "v6addr \<times> v6addr"

record conv_route =
  c_r :: "place option"
  c_rgen :: u32

fun place_ifc :: "rfs \<Rightarrow> place \<Rightarrow> nat option" where
  "place_ifc f (P4 h k) = (case table (v4root f h) k of None \<Rightarrow> None | Some r \<Rightarrow> r_ifc r)"
| "place_ifc f (P6 h k) = (case table (v6root f h) k of None \<Rightarrow> None | Some r \<Rightarrow> r_ifc r)"

definition cached :: "rfs \<Rightarrow> u32 \<Rightarrow> conv_route option \<Rightarrow> place option" where
  "cached f gen c = (case c of None \<Rightarrow> None
     | Some cv \<Rightarrow> (case c_r cv of None \<Rightarrow> None
         | Some pl \<Rightarrow> if place_ifc f pl \<noteq> None \<and> c_rgen cv = gen then Some pl else None))"

text \<open>Whether the interface of a route has to be looked up; \<open>ids\<close> are the \<open>ifcid\<close> fields of the interfaces.\<close>

definition stale :: "(nat \<Rightarrow> u8) \<Rightarrow> 'a route \<Rightarrow> bool" where
  "stale ids q = (case r_ifc q of None \<Rightarrow> True | Some ifc \<Rightarrow> r_ifcid q \<noteq> ids ifc)"

definition with_ifc :: "(nat \<Rightarrow> u8) \<Rightarrow> nat \<Rightarrow> 'a route \<Rightarrow> 'a route" where
  "with_ifc ids ifc q = q\<lparr>r_ifc := Some ifc, r_ifcid := ids ifc\<rparr>"

definition v4gate :: "u32 route \<Rightarrow> bytes option" where
  "v4gate q = (if r_type q AND Rifc \<noteq> 0 then Some (take 12 v4prefix @ hnputl (r_addr q)) else v4tov6 (r_gate q))"

text \<open>\<open>findifc\<close> is \<open>findipifc\<close> of ipifc.c on the interfaces as they are.\<close>

definition v4lookup :: "(bytes \<Rightarrow> u8 \<Rightarrow> nat option) \<Rightarrow> (nat \<Rightarrow> u8) \<Rightarrow> rfs \<Rightarrow> bytes \<Rightarrow> conv_route option \<Rightarrow>
    (place option \<times> rfs \<times> conv_route option) option" where
  "v4lookup findifc ids f a c = (case cached f (v4gen f) c of
      Some pl \<Rightarrow> Some (Some pl, f, c)
    | None \<Rightarrow> do {
        la \<leftarrow> nhgetl a;
        let h = V4H la;
        case search (v4root f h) la None of
          None \<Rightarrow> Some (None, f, map_option (\<lambda>cv. cv\<lparr>c_r := None, c_rgen := v4gen f\<rparr>) c)
        | Some q \<Rightarrow>
            let pl = P4 h (key q); c' = map_option (\<lambda>cv. cv\<lparr>c_r := Some pl, c_rgen := v4gen f\<rparr>) c in
            if stale ids q then do {
              gate \<leftarrow> v4gate q;
              case findifc gate (r_type q) of
                None \<Rightarrow> Some (None, f, c)
              | Some ifc \<Rightarrow>
                  Some (Some pl, f\<lparr>v4root := (v4root f)(h := update_found (v4root f h) la (with_ifc ids ifc))\<rparr>, c')
            }
            else Some (Some pl, f, c')
      })"

definition v6gate :: "v6addr route \<Rightarrow> bytes" where
  "v6gate q = (if r_type q AND Rifc \<noteq> 0 then concat (map hnputl (v6words (r_addr q))) else r_gate q)"

definition v6lookup :: "(bytes \<Rightarrow> u8 \<Rightarrow> nat option) \<Rightarrow> (nat \<Rightarrow> u8) \<Rightarrow> rfs \<Rightarrow> bytes \<Rightarrow> conv_route option \<Rightarrow>
    (place option \<times> rfs \<times> conv_route option) option" where
  "v6lookup findifc ids f a c = do {
     (r, f, c) \<leftarrow> (if isv4 a then v4lookup findifc ids f (drop 12 a) c else Some (None, f, c));
     if r \<noteq> None then Some (r, f, c)
     else (case cached f (v6gen f) c of
       Some pl \<Rightarrow> Some (Some pl, f, c)
     | None \<Rightarrow> do {
         la \<leftarrow> nhgetl4 a;
         let h = V6H la;
         case search (v6root f h) la None of
           None \<Rightarrow> Some (None, f, map_option (\<lambda>cv. cv\<lparr>c_r := None, c_rgen := v6gen f\<rparr>) c)
         | Some q \<Rightarrow>
             let pl = P6 h (key q); c' = map_option (\<lambda>cv. cv\<lparr>c_r := Some pl, c_rgen := v6gen f\<rparr>) c in
             if stale ids q then
               (case findifc (v6gate q) (r_type q) of
                 None \<Rightarrow> Some (None, f, c)
               | Some ifc \<Rightarrow>
                   Some (Some pl, f\<lparr>v6root := (v6root f)(h := update_found (v6root f h) la (with_ifc ids ifc))\<rparr>, c'))
             else Some (Some pl, f, c')
       })
   }"

subsection \<open>Reading and flushing the table\<close>

definition routetype :: "u8 \<Rightarrow> string" where
  "routetype type =
     (let s = (if type AND Rv4 \<noteq> 0 then ''4'' else ''6'');
          s = (if type AND Rifc \<noteq> 0 then s @ ''i'' else s);
          s = (if type AND Runi \<noteq> 0 then s @ ''u'' else if type AND Rbcast \<noteq> 0 then s @ ''b''
               else if type AND Rmulti \<noteq> 0 then s @ ''m'' else s);
          s = (if type AND Rptpt \<noteq> 0 then s @ ''p'' else s) in
      take 4 (s @ replicate 4 CHR 0x20))"

text \<open>\<open>convroute\<close>: the address and the mask (16 bytes each) and the gate.\<close>

definition convroute4 :: "u32 route \<Rightarrow> bytes \<times> bytes \<times> bytes" where
  "convroute4 r = (take 12 v4prefix @ hnputl (r_addr r), replicate 12 0xff @ hnputl (NOT (r_end r XOR r_addr r)),
     take 12 v4prefix @ r_gate r)"

definition convroute6 :: "v6addr route \<Rightarrow> bytes \<times> bytes \<times> bytes" where
  "convroute6 r = (concat (map hnputl (v6words (r_addr r))),
     concat (map hnputl (map2 (\<lambda>e a. NOT (e XOR a)) (v6words (r_end r)) (v6words (r_addr r)))), r_gate r)"

definition delroute4 :: "rfs \<Rightarrow> u32 route \<Rightarrow> rfs option" where
  "delroute4 f r = (let (addr, mk, gate) = convroute4 r in v4delroute f (drop 12 addr) (drop 12 mk))"

definition delroute6 :: "rfs \<Rightarrow> v6addr route \<Rightarrow> rfs option" where
  "delroute6 f r = (let (addr, mk, gate) = convroute6 r in v6delroute f addr mk)"

text \<open>\<open>strncmp(a, b, n) == 0\<close>.\<close>

definition strncmp_eq :: "bytes \<Rightarrow> bytes \<Rightarrow> nat \<Rightarrow> bool" where
  "strncmp_eq a b n = (takeWhile (\<lambda>x. x \<noteq> 0) (take n a) = takeWhile (\<lambda>x. x \<noteq> 0) (take n b))"

definition flushable :: "cstr \<Rightarrow> 'a route \<Rightarrow> bool" where
  "flushable tag r = (r_type r AND Rifc = 0 \<and> (case tag of None \<Rightarrow> True | Some t \<Rightarrow> strncmp_eq t (r_tag r) 4))"

text \<open>The route \<open>routeflush\<close> deletes before it returns 1: mid, left, right, then the node.\<close>

fun flush_pick :: "cstr \<Rightarrow> 'a rtree \<Rightarrow> 'a route option" where
  "flush_pick tag Nil = None"
| "flush_pick tag (Node p l m r) = (case flush_pick tag m of Some x \<Rightarrow> Some x
     | None \<Rightarrow> (case flush_pick tag l of Some x \<Rightarrow> Some x
     | None \<Rightarrow> (case flush_pick tag r of Some x \<Rightarrow> Some x
     | None \<Rightarrow> if flushable tag p then Some p else None)))"

text \<open>The loop of routewrite over one tree, and over all of them.\<close>

partial_function (option) flush_tree :: "(rfs \<Rightarrow> 'a rtree) \<Rightarrow> (rfs \<Rightarrow> 'a route \<Rightarrow> rfs option) \<Rightarrow> cstr \<Rightarrow> rfs \<Rightarrow> rfs option" where
  "flush_tree root delroute tag f = (case flush_pick tag (root f) of
      None \<Rightarrow> Some f
    | Some r \<Rightarrow> (case delroute f r of None \<Rightarrow> None | Some f \<Rightarrow> flush_tree root delroute tag f))"

fun flush_each :: "(nat \<Rightarrow> rfs \<Rightarrow> rfs option) \<Rightarrow> nat list \<Rightarrow> rfs \<Rightarrow> rfs option" where
  "flush_each flush [] f = Some f"
| "flush_each flush (h # hs) f = (case flush h f of None \<Rightarrow> None | Some f \<Rightarrow> flush_each flush hs f)"

definition routes_flush :: "rfs \<Rightarrow> cstr \<Rightarrow> rfs option" where
  "routes_flush f tag =
     (case flush_each (\<lambda>h. flush_tree (\<lambda>f. v4root f h) delroute4 tag) [0 ..< 1024] f of
        None \<Rightarrow> None
      | Some f \<Rightarrow> flush_each (\<lambda>h. flush_tree (\<lambda>f. v6root f h) delroute6 tag) [0 ..< 1024] f)"

text \<open>
  \<open>rr\<close> and \<open>ipwalkroutes\<close> with what the walk function does to the Routewalk: \<open>walk\<close> is
  \<open>rw->walk\<close>, and \<open>full\<close> is \<open>rw->e <= rw->p\<close>. A route that is in several trees is walked in the
  tree of its first address only.
\<close>

fun rr :: "('s \<Rightarrow> bool) \<Rightarrow> ('s \<Rightarrow> 'a route \<Rightarrow> 's) \<Rightarrow> ('a \<Rightarrow> nat) \<Rightarrow> nat \<Rightarrow> 'a rtree \<Rightarrow> 's \<Rightarrow> 's \<times> bool" where
  "rr full walk hash h Nil s = (s, \<not> full s)"
| "rr full walk hash h (Node p l m r) s =
     (if full s then (s, False)
      else (case rr full walk hash h l s of (s, go) \<Rightarrow>
        if \<not> go then (s, False)
        else (case rr full walk hash h m (if hash (r_addr p) = h then walk s p else s) of (s, go) \<Rightarrow>
          if \<not> go then (s, False)
          else rr full walk hash h r s)))"

fun rr_each :: "('s \<Rightarrow> bool) \<Rightarrow> ('s \<Rightarrow> 'a route \<Rightarrow> 's) \<Rightarrow> ('a \<Rightarrow> nat) \<Rightarrow> 'a forest \<Rightarrow> nat list \<Rightarrow> 's \<Rightarrow> 's" where
  "rr_each full walk hash root [] s = s"
| "rr_each full walk hash root (h # hs) s = (case rr full walk hash h (root h) s of (s, go) \<Rightarrow>
     if \<not> go then s else rr_each full walk hash root hs s)"

definition ipwalkroutes :: "('s \<Rightarrow> bool) \<Rightarrow> ('s \<Rightarrow> u32 route \<Rightarrow> 's) \<Rightarrow> ('s \<Rightarrow> v6addr route \<Rightarrow> 's) \<Rightarrow> rfs \<Rightarrow> 's \<Rightarrow> 's" where
  "ipwalkroutes full walk4 walk6 f s =
     (let s = (if \<not> full s then rr_each full walk4 V4H (v4root f) [0 ..< 1024] s else s) in
      if \<not> full s then rr_each full walk6 V6H (v6root f) [0 ..< 1024] s else s)"

subsection \<open>What the interface cache does not change\<close>

definition same_route :: "('a route \<Rightarrow> 'a route) \<Rightarrow> bool" where
  "same_route g = (\<forall>p. bare (g p) = bare p \<and> key (g p) = key p)"

lemma same_route_with_ifc: "same_route (with_ifc ids ifc)"
  by (simp add: same_route_def with_ifc_def bare_def key_def)

lemma bare_add_cong:
  "map_option bare (s k) = map_option bare (s' k) \<Longrightarrow> map_option bare (t k) = map_option bare (t' k) \<Longrightarrow>
   map_option bare ((s ++ t) k) = map_option bare ((s' ++ t') k)"
  by (cases "t k"; cases "t' k") (simp_all add: map_add_def)

lemma update_found_table:
  "same_route g \<Longrightarrow> map_option bare (table (update_found t x g) k) = map_option bare (table t k)"
  by (induction t) (auto simp: same_route_def route_simps intro!: bare_add_cong)

lemma update_found_keys:
  "same_route g \<Longrightarrow> y \<in># rms (update_found t x g) \<Longrightarrow> \<exists>z \<in># rms t. key y = key z"
  by (induction t) (auto simp: same_route_def route_simps split: if_splits)

lemma update_found_ok:
  assumes "same_route g"
  shows "tree_ok t \<Longrightarrow> tree_ok (update_found t x g)"
proof (induction t)
  case Nil
  then show ?case by simp
next
  case (Node p l m r)
  have k: "\<forall>y \<in># rms (update_found s x g). \<exists>z \<in># rms s. key y = key z" for s
    using update_found_keys [OF assms] by blast
  have ok: "tree_ok l" "tree_ok m" "tree_ok r" using Node.prems by auto
  note sub = Node.IH(1) [OF ok(1)] Node.IH(2) [OF ok(2)] Node.IH(3) [OF ok(3)]
  have "tree_ok (Node p (update_found l x g) m r)"
    using sub(1) Node.prems keys_precede(1) [OF k, of l p] by simp
  moreover have "tree_ok (Node p l (update_found m x g) r)"
    using sub(2) Node.prems keys_precede(3) [OF k, of m p] by simp
  moreover have "tree_ok (Node p l m (update_found r x g))"
    using sub(3) Node.prems keys_precede(2) [OF k, of r p] by simp
  moreover have "tree_ok (Node (g p) l m r)"
    using key_tree_ok [OF _ Node.prems, of "g p"] assms by (simp add: same_route_def)
  ultimately show ?case by simp
qed

lemma update_found_there: "search t x None = Some q \<Longrightarrow> strip (g q) \<in># rms (update_found t x g)"
proof (induction t)
  case Nil
  then show ?case by simp
next
  case (Node p l m r)
  then show ?case
    using search_default [of m x "Some p"] by (auto split: if_splits option.splits)
qed

lemma forest_cache_ok:
  assumes "forest_ok num hash root T" "same_route g"
  shows "forest_ok num hash (root(h := update_found (root h) x g)) T"
  using forest_okD [OF assms(1)] update_found_ok [OF assms(2)] update_found_table [OF assms(2)]
  unfolding forest_ok_def by (intro conjI allI impI) (auto simp only: fun_upd_apply split: if_split)

subsection \<open>The family of version 4\<close>

definition longest :: "(('a::linorder) \<times> 'a \<Rightarrow> 'a route option) \<Rightarrow> 'a \<Rightarrow> 'a route \<Rightarrow> bool" where
  "longest T x q = (T (key q) = Some q \<and> holds q x \<and> (\<forall>k p. T k = Some p \<longrightarrow> holds p x \<longrightarrow> inside q p))"

text \<open>An entry was made from an address and a mask of leading ones, and has a reference.\<close>

definition v4_entry_ok :: "u32 route \<Rightarrow> bool" where
  "v4_entry_ok p = (length (r_gate p) = 4 \<and> 1 \<le> r_ref p \<and> (\<exists>x m. contig m \<and> key p = (x AND m, x OR NOT m)))"

definition v4_ok :: "rfs \<Rightarrow> (u32 \<times> u32 \<Rightarrow> u32 route option) \<Rightarrow> bool" where
  "v4_ok f T = (forest_ok unat V4H (v4root f) T \<and> (\<forall>k p. T k = Some p \<longrightarrow> v4_entry_ok p))"

definition v4entry :: "u32 \<Rightarrow> u32 \<Rightarrow> bytes \<Rightarrow> bytes \<Rightarrow> u8 \<Rightarrow> u32 route" where
  "v4entry x m gate tag type = (allocroute (Rv4 OR type) 0)
     \<lparr>r_addr := x AND m, r_end := x OR NOT m, r_gate := take 4 gate, r_tag := take 4 tag\<rparr>"

lemma v4entry_simps [route_simps]:
  "r_addr (v4entry x m g t y) = x AND m" "r_end (v4entry x m g t y) = x OR NOT m" "r_gate (v4entry x m g t y) = take 4 g"
  "key (v4entry x m g t y) = (x AND m, x OR NOT m)" "r_ref (v4entry x m g t y) = 1"
  by (simp_all add: v4entry_def key_def allocroute_def)

lemma high_mask: "(x AND m) OR NOT m = (x OR NOT m :: 'a::len word)"
  by (rule bit_word_eqI) (auto simp: bit_simps)

lemma entry_add_all:
  "\<forall>k p. T k = Some p \<longrightarrow> Q p \<Longrightarrow> Q (bare n) \<Longrightarrow> (\<And>p. Q p \<Longrightarrow> Q (bare (supersede p n))) \<Longrightarrow>
   \<forall>k p. entry_add T n k = Some p \<longrightarrow> Q p"
  by (auto simp: entry_add_def simp del: split_paired_All split: option.splits if_splits)

lemma table_del_all:
  "\<forall>k p. T k = Some p \<longrightarrow> Q p \<Longrightarrow> (\<And>p. Q p \<Longrightarrow> r_ref p - 1 \<noteq> 0 \<Longrightarrow> Q (p\<lparr>r_ref := r_ref p - 1\<rparr>)) \<Longrightarrow>
   \<forall>k p. table_del T n k = Some p \<longrightarrow> Q p"
  by (auto simp: table_del_def simp del: split_paired_All split: option.splits if_splits)

lemma supersede_bare [route_simps]:
  "r_gate (supersede p n) = (if r_type p AND Rifc = 0 then r_gate n else r_gate p)"
  "r_ref (supersede p n) = (if r_type p AND Rifc \<noteq> 0 \<and> r_type n AND Rifc \<noteq> 0 then r_ref p + 1 else r_ref p)"
  by (simp_all add: supersede_def copygate_def)

lemma v4addroute_ok:
  assumes "v4_ok f T" "nhgetl a = Some x" "nhgetl mk = Some m" "contig m" "4 \<le> length gate" "4 \<le> length tag"
  shows "\<exists>root. v4addroute f tag a mk gate type =
      Some (f\<lparr>v4root := root, v4gen := v4gen f + 1, told := Ifcadd Rv4 a mk gate type # told f\<rparr>) \<and>
    v4_ok (f\<lparr>v4root := root\<rparr>) (entry_add T (v4entry x m gate tag type))"
proof -
  let ?n = "v4entry x m gate tag type"
  have "dyadic (unat (r_addr ?n)) (unat (r_end ?n))" using masked_dyadic [OF assms(4)] by (simp add: route_simps)
  from v4.add_ok [OF _ this, of "v4root f" T] assms(1) obtain root where
    root: "add_loop (v4root f) ?n [V4H (r_addr ?n) ..< Suc (V4H (r_end ?n))] = Some root"
    "forest_ok unat V4H root (entry_add T ?n)" by (auto simp: v4_ok_def)
  have "v4addroute f tag a mk gate type =
      Some (f\<lparr>v4root := root, v4gen := v4gen f + 1, told := Ifcadd Rv4 a mk gate type # told f\<rparr>)"
    using root(1) assms(2-) by (simp add: v4addroute_def Let_def high_mask v4entry_def del: upt_Suc)
  moreover have "\<forall>k p. entry_add T ?n k = Some p \<longrightarrow> v4_entry_ok p"
    using assms by (intro entry_add_all) (auto simp: v4_ok_def v4_entry_ok_def route_simps simp del: split_paired_All)
  ultimately show ?thesis using root(2) by (auto simp: v4_ok_def)
qed

lemma v4delroute_ok:
  assumes "v4_ok f T" "nhgetl a = Some x" "nhgetl mk = Some m" "contig m"
  shows "\<exists>root. v4delroute f a mk =
      Some (f\<lparr>v4root := root, v4gen := v4gen f + 1, told := Ifcrem Rv4 a mk # told f\<rparr>) \<and>
    v4_ok (f\<lparr>v4root := root\<rparr>) (table_del T (v4entry x m [] [] 0))"
proof -
  let ?n = "(allocroute Rv4 0)\<lparr>r_addr := x AND m, r_end := (x AND m) OR NOT m\<rparr>"
  have n: "r_addr ?n = x AND m" "r_end ?n = x OR NOT m" "key ?n = key (v4entry x m [] [] 0)"
    by (simp_all add: high_mask key_def v4entry_def)
  have "dyadic (unat (r_addr ?n)) (unat (r_end ?n))" using masked_dyadic [OF assms(4)] unfolding n .
  from v4.del_ok [OF _ this, of "v4root f" T] assms(1) obtain root where
    root: "del_loop (v4root f) ?n [V4H (r_addr ?n) ..< Suc (V4H (r_end ?n))] = Some root"
    "forest_ok unat V4H root (table_del T ?n)" by (auto simp: v4_ok_def)
  have t: "table_del T ?n = table_del T (v4entry x m [] [] 0)" by (simp only: table_del_def n(3))
  have "v4delroute f a mk = Some (f\<lparr>v4root := root, v4gen := v4gen f + 1, told := Ifcrem Rv4 a mk # told f\<rparr>)"
    using root(1) assms(2-) by (simp add: v4delroute_def Let_def del: upt_Suc)
  moreover have "\<forall>k p. table_del T ?n k = Some p \<longrightarrow> v4_entry_ok p"
    using assms(1) by (intro table_del_all) (auto simp: v4_ok_def v4_entry_ok_def route_simps simp del: split_paired_All)
  ultimately show ?thesis using root(2) by (auto simp: v4_ok_def t)
qed

lemma cached_set: "c \<noteq> None \<Longrightarrow> place_ifc f pl \<noteq> None \<Longrightarrow>
    cached f g (map_option (\<lambda>cv. cv\<lparr>c_r := Some pl, c_rgen := g\<rparr>) c) = Some pl"
  by (cases c) (simp_all add: cached_def)

text \<open>What \<open>v4lookup\<close> returns when no current route is cached.\<close>

lemma v4lookup_ok:
  assumes ok: "v4_ok f T" and a: "nhgetl a = Some la" and miss: "cached f (v4gen f) c = None"
  shows "\<exists>pl f' c'. v4lookup findifc ids f a c = Some (pl, f', c') \<and> v4_ok f' T \<and> v4gen f' = v4gen f \<and> v6root f' = v6root f \<and>
    (case pl of
      None \<Rightarrow> (\<forall>k p. T k = Some p \<longrightarrow> \<not> holds p la) \<or> (\<exists>q g. longest T la q \<and> v4gate q = Some g \<and> findifc g (r_type q) = None)
    | Some p \<Rightarrow> (\<exists>q. longest T la q \<and> p = P4 (V4H la) (key q)) \<and> place_ifc f' p \<noteq> None \<and>
        (c \<noteq> None \<longrightarrow> cached f' (v4gen f') c' = Some p))"
proof -
  let ?t = "v4root f (V4H la)"
  have fo: "forest_ok unat V4H (v4root f) T" using ok by (simp add: v4_ok_def)
  note look = v4.lookup_ok [OF fo, of la]
  show ?thesis
  proof (cases "search ?t la None")
    case None
    then have "\<forall>k p. T k = Some p \<longrightarrow> \<not> holds p la" using look by simp
    then show ?thesis using None ok a miss by (simp add: v4lookup_def)
  next
    case (Some q)
    then have q: "T (key q) = Some (bare q)" "holds q la" "\<forall>k p. T k = Some p \<longrightarrow> holds p la \<longrightarrow> inside q p"
      using look by auto
    then have l: "longest T la (bare q)" by (simp add: longest_def route_simps) (simp add: range_defs bare_def)
    have "v4_entry_ok (bare q)" using ok q(1) unfolding v4_ok_def by blast
    then have "length (r_gate q) = 4" by (simp add: v4_entry_ok_def route_simps)
    then have "\<exists>g. v4gate q = Some g" by (simp add: v4gate_def v4tov6_def)
    then obtain g where g: "v4gate q = Some g" by blast
    have gb: "v4gate (bare q) = v4gate q" by (simp add: v4gate_def route_simps)
    let ?f = "\<lambda>ifc. f\<lparr>v4root := (v4root f)(V4H la := update_found ?t la (with_ifc ids ifc))\<rparr>"
    have fok: "v4_ok (?f ifc) T" for ifc
      using forest_cache_ok [OF fo same_route_with_ifc] ok by (simp add: v4_ok_def)
    have there: "table (update_found ?t la (with_ifc ids ifc)) (key q) = Some (strip (with_ifc ids ifc q))" for ifc
    proof -
      have "tree_ok (update_found ?t la (with_ifc ids ifc))"
        by (rule update_found_ok [OF same_route_with_ifc forest_okD(2) [OF fo]])
      moreover have "key (with_ifc ids ifc q) = key q" by (simp add: with_ifc_def key_def)
      ultimately show ?thesis
        using table_Some [of _ "key q" "strip (with_ifc ids ifc q)"] update_found_there [OF Some, of "with_ifc ids ifc"]
        by (simp add: route_simps)
    qed
    have old: "table ?t (key q) = Some (strip q)"
      using table_Some [OF forest_okD(2) [OF fo]] search_ok [OF forest_okD(2) [OF fo, of "V4H la"], of la] Some
      by (simp add: best_def route_simps)
    have bq: "\<exists>p. longest T la p \<and> key q = key p" using l by (metis bare_simps(4))
    let ?pl = "P4 (V4H la) (key q)" and ?c = "map_option (\<lambda>cv. cv\<lparr>c_r := Some (P4 (V4H la) (key q)), c_rgen := v4gen f\<rparr>) c"
    show ?thesis
    proof (cases "stale ids q")
      case False
      then have i: "place_ifc f ?pl \<noteq> None" using old by (auto simp: stale_def strip_def split: option.splits)
      have "v4lookup findifc ids f a c = Some (Some ?pl, f, ?c)"
        using Some False a miss by (simp add: v4lookup_def Let_def)
      then show ?thesis using ok i bq cached_set [OF _ i] by (intro exI [of _ "Some ?pl"] exI [of _ f] exI [of _ ?c]) auto
    next
      case True
      show ?thesis
      proof (cases "findifc g (r_type q)")
        case None
        then have "longest T la (bare q) \<and> v4gate (bare q) = Some g \<and> findifc g (r_type (bare q)) = None"
          using l g gb by (simp add: route_simps)
        moreover have "v4lookup findifc ids f a c = Some (None, f, c)"
          using Some True None a miss g by (simp add: v4lookup_def Let_def)
        ultimately show ?thesis using ok by (intro exI [of _ None] exI [of _ f] exI [of _ c]) auto
      next
        case (Some ifc)
        have i: "place_ifc (?f ifc) ?pl \<noteq> None" using there [of ifc] by (simp add: with_ifc_def strip_def)
        have "v4lookup findifc ids f a c = Some (Some ?pl, ?f ifc, ?c)"
          using \<open>search ?t la None = Some q\<close> True Some a miss g by (simp add: v4lookup_def Let_def)
        then show ?thesis using fok [of ifc] i bq cached_set [OF _ i]
          by (intro exI [of _ "Some ?pl"] exI [of _ "?f ifc"] exI [of _ ?c]) auto
      qed
    qed
  qed
qed

subsection \<open>The family of version 6\<close>

text \<open>The same for the family of version 6.\<close>

definition v6_entry_ok :: "v6addr route \<Rightarrow> bool" where
  "v6_entry_ok p = (length (r_gate p) = 16 \<and> 1 \<le> r_ref p \<and> (\<exists>x m. contig6 m \<and> key p = (v6low x m, v6high x m)))"

definition v6_ok :: "rfs \<Rightarrow> (v6addr \<times> v6addr \<Rightarrow> v6addr route option) \<Rightarrow> bool" where
  "v6_ok f T = (forest_ok v6num V6H (v6root f) T \<and> (\<forall>k p. T k = Some p \<longrightarrow> v6_entry_ok p))"

definition v6entry :: "v6addr \<Rightarrow> v6addr \<Rightarrow> bytes \<Rightarrow> bytes \<Rightarrow> u8 \<Rightarrow> v6addr route" where
  "v6entry x m gate tag type = (allocroute type (V6 0 0 0 0))
     \<lparr>r_addr := v6low x m, r_end := v6high x m, r_gate := take 16 gate, r_tag := take 4 tag\<rparr>"

lemma v6entry_simps [route_simps]:
  "r_addr (v6entry x m g t y) = v6low x m" "r_end (v6entry x m g t y) = v6high x m" "r_gate (v6entry x m g t y) = take 16 g"
  "key (v6entry x m g t y) = (v6low x m, v6high x m)" "r_ref (v6entry x m g t y) = 1"
  by (simp_all add: v6entry_def key_def allocroute_def)

lemma v6addroute_ok:
  assumes "v6_ok f T" "nhgetl4 a = Some x" "nhgetl4 mk = Some m" "contig6 m" "16 \<le> length gate" "4 \<le> length tag"
  shows "\<exists>root. v6addroute f tag a mk gate type =
      Some (f\<lparr>v6root := root, v6gen := v6gen f + 1, told := Ifcadd 0 a mk gate type # told f\<rparr>) \<and>
    v6_ok (f\<lparr>v6root := root\<rparr>) (entry_add T (v6entry x m gate tag type))"
proof -
  let ?n = "v6entry x m gate tag type"
  have "dyadic (v6num (r_addr ?n)) (v6num (r_end ?n))" using v6_masked_dyadic [OF assms(4)] by (simp add: route_simps)
  from v6.add_ok [OF _ this, of "v6root f" T] assms(1) obtain root where
    root: "add_loop (v6root f) ?n [V6H (r_addr ?n) ..< Suc (V6H (r_end ?n))] = Some root"
    "forest_ok v6num V6H root (entry_add T ?n)" by (auto simp: v6_ok_def)
  have "v6addroute f tag a mk gate type =
      Some (f\<lparr>v6root := root, v6gen := v6gen f + 1, told := Ifcadd 0 a mk gate type # told f\<rparr>)"
    using root(1) assms(2-) by (simp add: v6addroute_def Let_def v6entry_def del: upt_Suc)
  moreover have "\<forall>k p. entry_add T ?n k = Some p \<longrightarrow> v6_entry_ok p"
    using assms by (intro entry_add_all) (auto simp: v6_ok_def v6_entry_ok_def route_simps simp del: split_paired_All)
  ultimately show ?thesis using root(2) by (auto simp: v6_ok_def)
qed

lemma v6delroute_ok:
  assumes "v6_ok f T" "nhgetl4 a = Some x" "nhgetl4 mk = Some m" "contig6 m"
  shows "\<exists>root. v6delroute f a mk =
      Some (f\<lparr>v6root := root, v6gen := v6gen f + 1, told := Ifcrem 0 a mk # told f\<rparr>) \<and>
    v6_ok (f\<lparr>v6root := root\<rparr>) (table_del T (v6entry x m [] [] 0))"
proof -
  let ?n = "(allocroute 0 (V6 0 0 0 0))\<lparr>r_addr := v6low x m, r_end := v6high x m\<rparr>"
  have n: "r_addr ?n = v6low x m" "r_end ?n = v6high x m" "key ?n = key (v6entry x m [] [] 0)"
    by (simp_all add: key_def v6entry_def)
  have "dyadic (v6num (r_addr ?n)) (v6num (r_end ?n))" using v6_masked_dyadic [OF assms(4)] unfolding n .
  from v6.del_ok [OF _ this, of "v6root f" T] assms(1) obtain root where
    root: "del_loop (v6root f) ?n [V6H (r_addr ?n) ..< Suc (V6H (r_end ?n))] = Some root"
    "forest_ok v6num V6H root (table_del T ?n)" by (auto simp: v6_ok_def)
  have t: "table_del T ?n = table_del T (v6entry x m [] [] 0)" by (simp only: table_del_def n(3))
  have "v6delroute f a mk = Some (f\<lparr>v6root := root, v6gen := v6gen f + 1, told := Ifcrem 0 a mk # told f\<rparr>)"
    using root(1) assms(2-) by (simp add: v6delroute_def Let_def del: upt_Suc)
  moreover have "\<forall>k p. table_del T ?n k = Some p \<longrightarrow> v6_entry_ok p"
    using assms(1) by (intro table_del_all) (auto simp: v6_ok_def v6_entry_ok_def route_simps simp del: split_paired_All)
  ultimately show ?thesis using root(2) by (auto simp: v6_ok_def t)
qed

text \<open>What \<open>v6lookup\<close> returns for an address that is not one of version 4, when no route is cached.\<close>

lemma v6lookup_ok:
  assumes ok: "v6_ok f T" and a: "nhgetl4 a = Some la" and miss: "\<not> isv4 a" "cached f (v6gen f) c = None"
  shows "\<exists>pl f' c'. v6lookup findifc ids f a c = Some (pl, f', c') \<and> v6_ok f' T \<and> v6gen f' = v6gen f \<and> v4root f' = v4root f \<and> v4gen f' = v4gen f \<and>
    (case pl of
      None \<Rightarrow> (\<forall>k p. T k = Some p \<longrightarrow> \<not> holds p la) \<or> (\<exists>q. longest T la q \<and> findifc (v6gate q) (r_type q) = None)
    | Some p \<Rightarrow> (\<exists>q. longest T la q \<and> p = P6 (V6H la) (key q)) \<and> place_ifc f' p \<noteq> None \<and>
        (c \<noteq> None \<longrightarrow> cached f' (v6gen f') c' = Some p))"
proof -
  let ?t = "v6root f (V6H la)"
  have fo: "forest_ok v6num V6H (v6root f) T" using ok by (simp add: v6_ok_def)
  note look = v6.lookup_ok [OF fo, of la]
  show ?thesis
  proof (cases "search ?t la None")
    case None
    then have "\<forall>k p. T k = Some p \<longrightarrow> \<not> holds p la" using look by simp
    then show ?thesis using None ok a miss by (simp add: v6lookup_def)
  next
    case (Some q)
    then have q: "T (key q) = Some (bare q)" "holds q la" "\<forall>k p. T k = Some p \<longrightarrow> holds p la \<longrightarrow> inside q p"
      using look by auto
    then have l: "longest T la (bare q)" by (simp add: longest_def route_simps) (simp add: range_defs bare_def)
    have gb: "v6gate (bare q) = v6gate q" by (simp add: v6gate_def route_simps)
    let ?f = "\<lambda>ifc. f\<lparr>v6root := (v6root f)(V6H la := update_found ?t la (with_ifc ids ifc))\<rparr>"
    have fok: "v6_ok (?f ifc) T" for ifc
      using forest_cache_ok [OF fo same_route_with_ifc] ok by (simp add: v6_ok_def)
    have there: "table (update_found ?t la (with_ifc ids ifc)) (key q) = Some (strip (with_ifc ids ifc q))" for ifc
    proof -
      have "tree_ok (update_found ?t la (with_ifc ids ifc))"
        by (rule update_found_ok [OF same_route_with_ifc forest_okD(2) [OF fo]])
      moreover have "key (with_ifc ids ifc q) = key q" by (simp add: with_ifc_def key_def)
      ultimately show ?thesis
        using table_Some [of _ "key q" "strip (with_ifc ids ifc q)"] update_found_there [OF Some, of "with_ifc ids ifc"]
        by (simp add: route_simps)
    qed
    have old: "table ?t (key q) = Some (strip q)"
      using table_Some [OF forest_okD(2) [OF fo]] search_ok [OF forest_okD(2) [OF fo, of "V6H la"], of la] Some
      by (simp add: best_def route_simps)
    have bq: "\<exists>p. longest T la p \<and> key q = key p" using l by (metis bare_simps(4))
    let ?pl = "P6 (V6H la) (key q)" and ?c = "map_option (\<lambda>cv. cv\<lparr>c_r := Some (P6 (V6H la) (key q)), c_rgen := v6gen f\<rparr>) c"
    show ?thesis
    proof (cases "stale ids q")
      case False
      then have i: "place_ifc f ?pl \<noteq> None" using old by (auto simp: stale_def strip_def split: option.splits)
      have "v6lookup findifc ids f a c = Some (Some ?pl, f, ?c)"
        using Some False a miss by (simp add: v6lookup_def Let_def)
      then show ?thesis using ok i bq cached_set [OF _ i] by (intro exI [of _ "Some ?pl"] exI [of _ f] exI [of _ ?c]) auto
    next
      case True
      show ?thesis
      proof (cases "findifc (v6gate q) (r_type q)")
        case None
        then have "longest T la (bare q) \<and> findifc (v6gate (bare q)) (r_type (bare q)) = None"
          using l gb by (simp add: route_simps)
        moreover have "v6lookup findifc ids f a c = Some (None, f, c)"
          using Some True None a miss by (simp add: v6lookup_def Let_def)
        ultimately show ?thesis using ok by (intro exI [of _ None] exI [of _ f] exI [of _ c]) auto
      next
        case (Some ifc)
        have i: "place_ifc (?f ifc) ?pl \<noteq> None" using there [of ifc] by (simp add: with_ifc_def strip_def)
        have "v6lookup findifc ids f a c = Some (Some ?pl, ?f ifc, ?c)"
          using \<open>search ?t la None = Some q\<close> True Some a miss by (simp add: v6lookup_def Let_def)
        then show ?thesis using fok [of ifc] i bq cached_set [OF _ i]
          by (intro exI [of _ "Some ?pl"] exI [of _ "?f ifc"] exI [of _ ?c]) auto
      qed
    qed
  qed
qed

subsection \<open>Flushing\<close>

text \<open>The table without the entries a flush of the tag takes away.\<close>

definition unflushed :: "cstr \<Rightarrow> ('a \<times> 'a \<Rightarrow> 'a route option) \<Rightarrow> ('a \<times> 'a \<Rightarrow> 'a route option)" where
  "unflushed tag T k = (case T k of None \<Rightarrow> None | Some p \<Rightarrow> if flushable tag p then None else Some p)"

definition in_bucket :: "('a \<Rightarrow> nat) \<Rightarrow> nat \<Rightarrow> 'a \<times> 'a \<Rightarrow> bool" where
  "in_bucket hash h k = (hash (fst k) \<le> h \<and> h \<le> hash (snd k))"

lemma flushable_bare [simp]: "flushable tag (bare p) = flushable tag p" "flushable tag (strip p) = flushable tag p"
  "flushable tag (p\<lparr>r_ref := i\<rparr>) = flushable tag p"
  by (cases tag; simp add: flushable_def bare_def strip_def)+

lemma flush_pick_None: "flush_pick tag t = None \<longleftrightarrow> (\<forall>y \<in># rms t. \<not> flushable tag y)"
  by (induction t) (auto split: option.splits)

lemma flush_pick_Some: "flush_pick tag t = Some p \<Longrightarrow> strip p \<in># rms t \<and> flushable tag p"
  by (induction t) (auto split: option.splits if_splits)

text \<open>The references a flush of one tree has to drop.\<close>

definition flush_refs :: "cstr \<Rightarrow> ('a \<times> 'a) set \<Rightarrow> ('a \<times> 'a \<Rightarrow> 'a route option) \<Rightarrow> nat" where
  "flush_refs tag S T = (\<Sum>k\<in>S. case T k of None \<Rightarrow> 0 | Some p \<Rightarrow> if flushable tag p then nat (r_ref p) else 0)"

lemma flush_refs_drop:
  assumes "finite S" "key n \<in> S" "T (key n) = Some p" "flushable tag p" "1 \<le> r_ref p"
  shows "flush_refs tag S (table_del T n) < flush_refs tag S T"
  unfolding flush_refs_def
proof (rule sum_strict_mono_ex1 [OF assms(1)])
  show "\<forall>k\<in>S. (case table_del T n k of None \<Rightarrow> 0 | Some p \<Rightarrow> if flushable tag p then nat (r_ref p) else 0)
      \<le> (case T k of None \<Rightarrow> 0 | Some p \<Rightarrow> if flushable tag p then nat (r_ref p) else 0)"
    using assms by (auto simp: table_del_def split: option.split)
  show "\<exists>k\<in>S. (case table_del T n k of None \<Rightarrow> 0 | Some p \<Rightarrow> if flushable tag p then nat (r_ref p) else 0)
      < (case T k of None \<Rightarrow> 0 | Some p \<Rightarrow> if flushable tag p then nat (r_ref p) else 0)"
    using assms by (intro bexI [of _ "key n"]) (auto simp: table_del_def)
qed

lemma table_del_unflushed:
  "T (key n) = Some p \<Longrightarrow> flushable tag p \<Longrightarrow> unflushed tag (table_del T n) = unflushed tag T"
  by (rule ext) (simp add: unflushed_def table_del_def)

text \<open>
  What flushing needs of a family: the state holds a table, and deleting a route the tree has
  drops one reference of its entry.
\<close>

locale flusher = forest num hash for num :: "'a::linorder \<Rightarrow> nat" and hash +
  fixes ok :: "rfs \<Rightarrow> ('a \<times> 'a \<Rightarrow> 'a route option) \<Rightarrow> bool"
    and root :: "rfs \<Rightarrow> 'a forest"
    and delroute :: "rfs \<Rightarrow> 'a route \<Rightarrow> rfs option"
    and other :: "rfs \<Rightarrow> 'o"
  assumes ok_forest: "ok f T \<Longrightarrow> forest_ok num hash (root f) T"
    and ok_refs: "ok f T \<Longrightarrow> T k = Some p \<Longrightarrow> 1 \<le> r_ref p"
    and del_one: "ok f T \<Longrightarrow> T (key r) = Some (bare r) \<Longrightarrow>
      \<exists>f'. delroute f r = Some f' \<and> ok f' (table_del T r) \<and> other f' = other f"
begin

lemma flush_tree_ok:
  "ok f T \<Longrightarrow> finite S \<Longrightarrow> {k. T k \<noteq> None \<and> in_bucket hash h k} \<subseteq> S \<Longrightarrow>
   \<exists>f' T'. flush_tree (\<lambda>f. root f h) delroute tag f = Some f' \<and> ok f' T' \<and> other f' = other f \<and>
     unflushed tag T' = unflushed tag T \<and> (\<forall>k. T k = None \<longrightarrow> T' k = None) \<and>
     (\<forall>k p. T' k = Some p \<longrightarrow> in_bucket hash h k \<longrightarrow> \<not> flushable tag p)"
proof (induction "flush_refs tag S T" arbitrary: f T rule: less_induct)
  case less
  have fo: "forest_ok num hash (root f) T" by (rule ok_forest [OF less.prems(1)])
  show ?case
  proof (cases "flush_pick tag (root f h)")
    case None
    then have no: "\<forall>y \<in># rms (root f h). \<not> flushable tag y" by (simp add: flush_pick_None)
    have "\<not> flushable tag p" if "T k = Some p" "in_bucket hash h k" for k p
    proof -
      have "map_option bare (table (root f h) k) = Some p"
        using forest_okD(3) [OF fo, of h k] that by (simp add: in_bucket_def)
      then obtain y where y: "table (root f h) k = Some y" "bare y = p" by auto
      then have "y \<in># rms (root f h)" using table_Some [OF forest_okD(2) [OF fo]] by blast
      then show ?thesis using no y(2) by auto
    qed
    then show ?thesis using None less.prems(1) by (subst flush_tree.simps) auto
  next
    case (Some r)
    then have r: "strip r \<in># rms (root f h)" "flushable tag r" using flush_pick_Some by blast+
    then have T: "T (key r) = Some (bare r)" using in_tree(1) [OF fo r(1)] by (simp add: route_simps)
    have b: "in_bucket hash h (key r)"
      using in_tree(2,3) [OF fo r(1)] by (simp add: in_bucket_def key_def strip_def)
    obtain f1 where f1: "delroute f r = Some f1" "ok f1 (table_del T r)" "other f1 = other f"
      using del_one [OF less.prems(1) T] by blast
    have ref: "1 \<le> r_ref (bare r)" by (rule ok_refs [OF less.prems(1) T])
    have k: "key r \<in> S" using less.prems(3) T b by blast
    have lt: "flush_refs tag S (table_del T r) < flush_refs tag S T"
      by (rule flush_refs_drop [where p = "bare r"]) (simp_all add: less.prems(2) k T ref r(2))
    have unfl: "unflushed tag (table_del T r) = unflushed tag T"
      by (rule table_del_unflushed [where p = "bare r"]) (simp_all add: T r(2))
    have sub: "{k. table_del T r k \<noteq> None \<and> in_bucket hash h k} \<subseteq> S"
      using less.prems(3) T by (auto simp: table_del_def split: if_splits)
    have none: "T k = None \<Longrightarrow> table_del T r k = None" for k
      using T by (auto simp: table_del_def)
    from less.hyps [OF lt f1(2) less.prems(2) sub] obtain f' T' where
      "flush_tree (\<lambda>f. root f h) delroute tag f1 = Some f'" "ok f' T'" "other f' = other f1"
      "unflushed tag T' = unflushed tag (table_del T r)" "\<forall>k. table_del T r k = None \<longrightarrow> T' k = None"
      "\<forall>k p. T' k = Some p \<longrightarrow> in_bucket hash h k \<longrightarrow> \<not> flushable tag p" by blast
    then show ?thesis
      using Some f1 none unfl by (subst flush_tree.simps) auto
  qed
qed

lemma bucket_finite: "ok f T \<Longrightarrow> finite {k. T k \<noteq> None \<and> in_bucket hash h k}"
proof -
  assume "ok f T"
  note fo = ok_forest [OF this]
  have "{k. T k \<noteq> None \<and> in_bucket hash h k} \<subseteq> key ` set_mset (rms (root f h))"
  proof
    fix k assume "k \<in> {k. T k \<noteq> None \<and> in_bucket hash h k}"
    then obtain y where "table (root f h) k = Some y"
      using forest_okD(3) [OF fo, of h k] by (auto simp: in_bucket_def)
    then have "y \<in># rms (root f h) \<and> key y = k" using table_Some [OF forest_okD(2) [OF fo]] by simp
    then show "k \<in> key ` set_mset (rms (root f h))" by blast
  qed
  then show ?thesis by (rule finite_subset) simp
qed

lemma flush_each_ok:
  "ok f T \<Longrightarrow> \<exists>f' T'. flush_each (\<lambda>h. flush_tree (\<lambda>f. root f h) delroute tag) hs f = Some f' \<and> ok f' T' \<and> other f' = other f \<and>
     unflushed tag T' = unflushed tag T \<and> (\<forall>k. T k = None \<longrightarrow> T' k = None) \<and>
     (\<forall>k p. T' k = Some p \<longrightarrow> (\<exists>h \<in> set hs. in_bucket hash h k) \<longrightarrow> \<not> flushable tag p)"
proof (induction hs arbitrary: f T)
  case Nil
  then show ?case by auto
next
  case (Cons h hs)
  obtain f1 T1 where 1: "flush_tree (\<lambda>f. root f h) delroute tag f = Some f1" "ok f1 T1" "other f1 = other f"
    "unflushed tag T1 = unflushed tag T" "\<forall>k. T k = None \<longrightarrow> T1 k = None"
    "\<forall>k p. T1 k = Some p \<longrightarrow> in_bucket hash h k \<longrightarrow> \<not> flushable tag p"
    using flush_tree_ok [OF Cons.prems bucket_finite [OF Cons.prems] order_refl] by blast
  from Cons.IH [OF 1(2)] obtain f2 T2 where 2: "flush_each (\<lambda>h. flush_tree (\<lambda>f. root f h) delroute tag) hs f1 = Some f2"
    "ok f2 T2" "other f2 = other f1" "unflushed tag T2 = unflushed tag T1" "\<forall>k. T1 k = None \<longrightarrow> T2 k = None"
    "\<forall>k p. T2 k = Some p \<longrightarrow> (\<exists>h \<in> set hs. in_bucket hash h k) \<longrightarrow> \<not> flushable tag p" by blast
  have "\<not> flushable tag p" if p: "T2 k = Some p" "in_bucket hash h k" for k p
  proof
    assume fl: "flushable tag p"
    then obtain q where q: "T1 k = Some q" using 2(5) p(1) by (cases "T1 k") (auto simp del: split_paired_All)
    then have "unflushed tag T1 k = Some q" using 1(6) p(2) by (simp add: unflushed_def del: split_paired_All)
    moreover have "unflushed tag T2 k = None" using p(1) fl by (simp add: unflushed_def)
    ultimately show False using 2(4) by simp
  qed
  then have "\<forall>k p. T2 k = Some p \<longrightarrow> (\<exists>h \<in> set (h # hs). in_bucket hash h k) \<longrightarrow> \<not> flushable tag p"
    using 2(6) by (metis set_ConsD)
  moreover have "\<forall>k. T k = None \<longrightarrow> T2 k = None" using 1(5) 2(5) by blast
  ultimately show ?case using 1 2 by (intro exI [of _ f2] exI [of _ T2]) simp
qed

text \<open>All trees: what is left is the table without the flushed entries.\<close>

lemma flush_all_ok:
  assumes "ok f T"
  shows "\<exists>f'. flush_each (\<lambda>h. flush_tree (\<lambda>f. root f h) delroute tag) [0 ..< 1024] f = Some f' \<and> ok f' (unflushed tag T) \<and>
    other f' = other f"
proof -
  from flush_each_ok [OF assms, of tag "[0 ..< 1024]"] obtain f' T' where
    f': "flush_each (\<lambda>h. flush_tree (\<lambda>f. root f h) delroute tag) [0 ..< 1024] f = Some f'" "ok f' T'" "other f' = other f"
    "unflushed tag T' = unflushed tag T"
    "\<forall>k p. T' k = Some p \<longrightarrow> (\<exists>h \<in> set [0 ..< 1024]. in_bucket hash h k) \<longrightarrow> \<not> flushable tag p" by blast
  have "\<not> flushable tag p" if "T' k = Some p" for k p
  proof -
    have "key p = k" "dyadic (num (fst k)) (num (snd k))" using forest_okD(1) [OF ok_forest [OF f'(2)] that] by auto
    then have "in_bucket hash (hash (fst k)) k"
      using hash_range [of "fst k" "snd k" "fst k"] dyadic_le [of "num (fst k)" "num (snd k)"] num_le by (simp add: in_bucket_def)
    then show ?thesis using f'(5) that hash_bound [of "fst k"] by (metis atLeast0LessThan atLeastLessThan_upt lessThan_iff)
  qed
  then have "unflushed tag T' = T'" by (intro ext) (auto simp: unflushed_def split: option.split)
  then show ?thesis using f' by auto
qed

end

lemma mask_back: "NOT ((x OR NOT m) XOR (x AND m)) = (m :: 'a::len word)" "(x AND m) AND m = x AND m"
  "(x AND m) OR NOT m = x OR NOT m"
  by (rule bit_word_eqI; auto simp: bit_simps)+

lemma table_del_key: "key a = key b \<Longrightarrow> table_del T a = table_del T b"
  by (simp add: table_del_def split: option.split)

text \<open>Deleting a route by the address and mask made from its range deletes that range.\<close>

lemma delroute4_ok:
  assumes "v4_ok f T" "T (key r) = Some (bare r)"
  shows "\<exists>f'. delroute4 f r = Some f' \<and> v4_ok f' (table_del T r) \<and> v6root f' = v6root f"
proof -
  have "v4_entry_ok (bare r)" using assms unfolding v4_ok_def by blast
  then obtain x m where xm: "contig m" "key r = (x AND m, x OR NOT m)" by (auto simp: v4_entry_ok_def route_simps)
  then have r: "r_addr r = x AND m" "r_end r = x OR NOT m" by (simp_all add: key_def)
  have g: "nhgetl (hnputl v) = Some v" for v using nhgetl_hnputl [of v "[]"] by simp
  have "drop 12 (take 12 v4prefix @ b) = b" "drop 12 (replicate 12 0xff @ b) = b" for b :: bytes
    by (simp_all add: v4prefix_def)
  then have "delroute4 f r = v4delroute f (hnputl (x AND m)) (hnputl m)"
    by (simp add: delroute4_def convroute4_def r mask_back(1))
  moreover have "table_del T (v4entry (x AND m) m [] [] 0) = table_del T r"
    by (rule table_del_key) (simp add: route_simps xm(2) mask_back(2,3))
  ultimately show ?thesis
    using v4delroute_ok [OF assms(1) g g xm(1), of "x AND m"] by (auto simp: v4_ok_def)
qed

lemma v6_back:
  "v6low (v6low x m) m = v6low x m" "v6high (v6low x m) m = v6high x m"
  "map2 (\<lambda>e a. NOT (e XOR a)) (v6words (v6high x m)) (v6words (v6low x m)) = v6words m"
  by (cases x; cases m; simp add: mask_back)+

lemma nhgetl4_words: "nhgetl4 (concat (map hnputl (v6words x))) = Some x"
proof (cases x)
  case (V6 a b c d)
  have "nhgetl (hnputl v) = Some v" for v using nhgetl_hnputl [of v "[]"] by simp
  then show ?thesis by (simp add: V6 nhgetl4_def)
qed

lemma delroute6_ok:
  assumes "v6_ok f T" "T (key r) = Some (bare r)"
  shows "\<exists>f'. delroute6 f r = Some f' \<and> v6_ok f' (table_del T r) \<and> v4root f' = v4root f"
proof -
  have "v6_entry_ok (bare r)" using assms unfolding v6_ok_def by blast
  then obtain x m where xm: "contig6 m" "key r = (v6low x m, v6high x m)" by (auto simp: v6_entry_ok_def route_simps)
  then have r: "r_addr r = v6low x m" "r_end r = v6high x m" by (simp_all add: key_def)
  have "delroute6 f r = v6delroute f (concat (map hnputl (v6words (v6low x m)))) (concat (map hnputl (v6words m)))"
    by (simp only: delroute6_def convroute6_def r v6_back(3) Let_def prod.case)
  moreover have "table_del T (v6entry (v6low x m) m [] [] 0) = table_del T r"
    by (rule table_del_key) (simp add: route_simps xm(2) v6_back(1,2))
  ultimately show ?thesis
    using v6delroute_ok [OF assms(1) nhgetl4_words nhgetl4_words xm(1), of "v6low x m"] by (auto simp: v6_ok_def)
qed

interpretation fl4: flusher unat V4H v4_ok v4root delroute4 v6root
proof unfold_locales
  show "1 \<le> r_ref p" if "v4_ok f T" "T k = Some p" for f T k p
    using that unfolding v4_ok_def v4_entry_ok_def by blast
qed (simp add: v4_ok_def, rule delroute4_ok)

interpretation fl6: flusher v6num V6H v6_ok v6root delroute6 v4root
proof unfold_locales
  show "1 \<le> r_ref p" if "v6_ok f T" "T k = Some p" for f T k p
    using that unfolding v6_ok_def v6_entry_ok_def by blast
qed (simp add: v6_ok_def, rule delroute6_ok)

lemma routes_flush_ok:
  assumes "v4_ok f T4" "v6_ok f T6"
  shows "\<exists>f'. routes_flush f tag = Some f' \<and> v4_ok f' (unflushed tag T4) \<and> v6_ok f' (unflushed tag T6)"
proof -
  obtain f1 where f1: "flush_each (\<lambda>h. flush_tree (\<lambda>f. v4root f h) delroute4 tag) [0 ..< 1024] f = Some f1"
    "v4_ok f1 (unflushed tag T4)" "v6root f1 = v6root f" using fl4.flush_all_ok [OF assms(1), of tag] by blast
  then have "v6_ok f1 T6" using assms(2) by (simp add: v6_ok_def)
  then obtain f2 where f2: "flush_each (\<lambda>h. flush_tree (\<lambda>f. v6root f h) delroute6 tag) [0 ..< 1024] f1 = Some f2"
    "v6_ok f2 (unflushed tag T6)" "v4root f2 = v4root f1" using fl6.flush_all_ok [of f1 T6 tag] by blast
  then have "v4_ok f2 (unflushed tag T4)" using f1(2) by (simp add: v4_ok_def)
  then show ?thesis using f1 f2 by (simp add: routes_flush_def)
qed

subsection \<open>Walking the table\<close>

text \<open>The routes walked in one tree, and in all, when the buffer never fills up.\<close>

fun owned :: "('a \<Rightarrow> nat) \<Rightarrow> nat \<Rightarrow> 'a rtree \<Rightarrow> 'a route list" where
  "owned hash h Nil = []"
| "owned hash h (Node p l m r) = owned hash h l @ (if hash (r_addr p) = h then [p] else []) @ owned hash h m @ owned hash h r"

lemma rr_owned: "rr (\<lambda>_. False) walk hash h t s = (foldl walk s (owned hash h t), True)"
  by (induction t arbitrary: s) simp_all

lemma rr_each_owned: "rr_each (\<lambda>_. False) walk hash root hs s = foldl walk s (concat (map (\<lambda>h. owned hash h (root h)) hs))"
  by (induction hs arbitrary: s) (simp_all add: rr_owned)

lemma owned_mset: "mset (map strip (owned hash h t)) = filter_mset (\<lambda>y. hash (r_addr y) = h) (rms t)"
  by (induction t) (simp_all add: union_ac strip_def)

lemma owned_set: "strip ` set (owned hash h t) = {y. y \<in># rms t \<and> hash (r_addr y) = h}"
  using arg_cong [OF owned_mset [of hash h t], of set_mset] by auto

lemma distinct_concat_tagged:
  assumes "\<And>h. distinct (f h)" "\<And>h k. k \<in> set (f h) \<Longrightarrow> tag k = h"
  shows "distinct hs \<Longrightarrow> distinct (concat (map f hs))"
proof (induction hs)
  case (Cons h hs)
  have "k \<notin> set (f h)" if "k \<in> set (f i)" "i \<in> set hs" for k i
    using assms(2) that Cons.prems by auto
  then show ?case using Cons assms(1) by auto
qed simp

context forest
begin

lemma walk_once:
  assumes f: "forest_ok num hash root T"
  defines "w \<equiv> concat (map (\<lambda>h. owned hash h (root h)) [0 ..< 1024])"
  shows "distinct (map key w)" "T k = Some p \<longleftrightarrow> (\<exists>x \<in> set w. key x = k \<and> bare x = p)"
proof -
  have ok: "tree_ok (root h)" for h by (rule forest_okD(2) [OF f])
  have hash_of: "hash (fst k) = h" if k: "k \<in> set (map key (owned hash h (root h)))" for k h
  proof -
    obtain x where "x \<in> set (owned hash h (root h))" "k = key x" using k by auto
    moreover then have "hash (r_addr (strip x)) = h" using owned_set [of hash h "root h"] by blast
    ultimately show ?thesis by (simp add: key_def strip_def)
  qed
  have "distinct (map key (owned hash h (root h)))" for h
  proof -
    have "distinct (map strip (owned hash h (root h)))"
      unfolding distinct_count_atmost_1 owned_mset
    proof
      fix y show "count (filter_mset (\<lambda>y. hash (r_addr y) = h) (rms (root h))) y = (if y \<in> set (map strip (owned hash h (root h))) then 1 else 0)"
      proof (cases "y \<in># rms (root h) \<and> hash (r_addr y) = h")
        case True
        then have "count (rms (root h)) y = 1" using tree_ok_count [OF ok, of h y] by (simp add: le_antisym)
        moreover have "y \<in> set (map strip (owned hash h (root h)))" using True owned_set [of hash h "root h"] by simp
        ultimately show ?thesis using True by simp
      next
        case False
        then have "y \<notin> set (map strip (owned hash h (root h)))" using owned_set [of hash h "root h"] by simp
        then show ?thesis using False by (auto simp: not_in_iff)
      qed
    qed
    moreover have "inj_on key (strip ` set (owned hash h (root h)))"
      using tree_ok_distinct [OF ok] by (auto simp: inj_on_def owned_set)
    ultimately have "distinct (map key (map strip (owned hash h (root h))))" by (subst distinct_map) simp
    then show ?thesis by (simp add: comp_def route_simps)
  qed
  then have "distinct (concat (map (\<lambda>h. map key (owned hash h (root h))) [0 ..< 1024]))"
    using hash_of by (intro distinct_concat_tagged [where tag = "\<lambda>k. hash (fst k)"]) (blast, blast, simp)
  then show "distinct (map key w)" unfolding w_def by (simp add: map_concat comp_def)
  show "T k = Some p \<longleftrightarrow> (\<exists>x \<in> set w. key x = k \<and> bare x = p)"
  proof
    assume p: "T k = Some p"
    have k: "dyadic (num (fst k)) (num (snd k))" using forest_okD(1) [OF f p] by simp
    then have "fst k \<le> snd k" using dyadic_le num_le by blast
    then have "hash (fst k) \<le> hash (snd k)" using hash_range [OF k, of "fst k"] by simp
    then obtain y where y: "table (root (hash (fst k))) k = Some y" "bare y = p"
      using forest_okD(3) [OF f, of "hash (fst k)" k] p by auto
    then have "y \<in># rms (root (hash (fst k)))" "key y = k" using table_Some [OF ok] by blast+
    then have "y \<in> strip ` set (owned hash (hash (fst k)) (root (hash (fst k))))"
      unfolding owned_set by (auto simp: key_def)
    then obtain x where "x \<in> set (owned hash (hash (fst k)) (root (hash (fst k))))" "y = strip x" by auto
    then show "\<exists>x \<in> set w. key x = k \<and> bare x = p"
      unfolding w_def using \<open>key y = k\<close> y(2) hash_bound by (intro bexI [of _ x]) (auto simp: route_simps)
  next
    assume "\<exists>x \<in> set w. key x = k \<and> bare x = p"
    then obtain x h where x: "x \<in> set (owned hash h (root h))" "key x = k" "bare x = p" by (auto simp: w_def)
    then have "strip x \<in># rms (root h)" using owned_set [of hash h "root h"] by blast
    from in_tree(1) [OF f this] x show "T k = Some p" by (simp add: route_simps)
  qed
qed

end

section \<open>What the forest does\<close>

definition no_routes :: rfs where
  "no_routes = \<lparr>v4root = (\<lambda>h. Nil), v6root = (\<lambda>h. Nil), v4gen = 0, v6gen = 0, told = []\<rparr>"

lemma no_routes_ok: "v4_ok no_routes Map.empty" "v6_ok no_routes Map.empty"
  by (simp_all add: v4_ok_def v6_ok_def forest_ok_def no_routes_def)

lemma contig_24: "contig 0xffffff00"
  unfolding contig_def by (rule exI [of _ 8]) (simp add: mask_eq_exp_minus_1)

text \<open>
  C29. v4addroute with a mask of leading ones always returns, the forest then holds the old table
  with the one entry of that prefix new or superseded (whatever trees the prefix is in), and the
  generation moves, so that no conversation keeps its cached route.
\<close>

theorem v4addroute_table:
  assumes "v4_ok f T" "nhgetl a = Some x" "nhgetl mk = Some m" "contig m" "4 \<le> length gate" "4 \<le> length tag"
  shows "\<exists>f'. v4addroute f tag a mk gate type = Some f' \<and> v4_ok f' (entry_add T (v4entry x m gate tag type)) \<and>
    v4gen f' \<noteq> v4gen f \<and> v6root f' = v6root f"
proof -
  obtain root where r: "v4addroute f tag a mk gate type =
      Some (f\<lparr>v4root := root, v4gen := v4gen f + 1, told := Ifcadd Rv4 a mk gate type # told f\<rparr>)"
    "v4_ok (f\<lparr>v4root := root\<rparr>) (entry_add T (v4entry x m gate tag type))"
    using v4addroute_ok [OF assms, of type] by blast
  then show ?thesis by (simp add: v4_ok_def)
qed

lemma v4addroute_table_witness:
  "\<exists>f'. v4addroute no_routes (replicate 4 1) [10, 1, 2, 3] [255, 255, 255, 0] [10, 0, 0, 1] 0 = Some f' \<and>
    v4_ok f' (entry_add Map.empty (v4entry 0x0a010203 0xffffff00 [10, 0, 0, 1] (replicate 4 1) 0)) \<and>
    v4gen f' \<noteq> v4gen no_routes \<and> v6root f' = v6root no_routes"
  by (rule v4addroute_table [OF no_routes_ok(1) _ _ contig_24]) simp_all

text \<open>
  C30. v4delroute with a mask of leading ones always returns, and the forest then holds the old
  table with one reference of that prefix dropped, and the entry gone with its last one; every
  other prefix keeps its entry in every tree.
\<close>

theorem v4delroute_table:
  assumes "v4_ok f T" "nhgetl a = Some x" "nhgetl mk = Some m" "contig m"
  shows "\<exists>f'. v4delroute f a mk = Some f' \<and> v4_ok f' (table_del T (v4entry x m [] [] 0)) \<and> v4gen f' \<noteq> v4gen f"
proof -
  obtain root where r: "v4delroute f a mk = Some (f\<lparr>v4root := root, v4gen := v4gen f + 1, told := Ifcrem Rv4 a mk # told f\<rparr>)"
    "v4_ok (f\<lparr>v4root := root\<rparr>) (table_del T (v4entry x m [] [] 0))"
    using v4delroute_ok [OF assms] by blast
  then show ?thesis by (simp add: v4_ok_def)
qed

lemma v4delroute_table_witness:
  "\<exists>f'. v4delroute no_routes [10, 1, 2, 3] [255, 255, 255, 0] = Some f' \<and>
    v4_ok f' (table_del Map.empty (v4entry 0x0a010203 0xffffff00 [] [] 0)) \<and> v4gen f' \<noteq> v4gen no_routes"
  by (rule v4delroute_table [OF no_routes_ok(1) _ _ contig_24]) simp_all

text \<open>
  C31. v4lookup finds the longest match of the whole table although it searches one tree only: the
  place it returns is the entry of the smallest prefix that holds the address, with an interface,
  and a conversation has it cached. It returns nil only when no prefix holds the address or no
  interface reaches the gate of the best one; the table stays as it is.
\<close>

theorem v4lookup_longest_match:
  assumes "v4_ok f T" "nhgetl a = Some la" "cached f (v4gen f) c = None"
  shows "\<exists>pl f' c'. v4lookup findifc ids f a c = Some (pl, f', c') \<and> v4_ok f' T \<and> v4gen f' = v4gen f \<and> v6root f' = v6root f \<and>
    (case pl of
      None \<Rightarrow> (\<forall>k p. T k = Some p \<longrightarrow> \<not> holds p la) \<or> (\<exists>q g. longest T la q \<and> v4gate q = Some g \<and> findifc g (r_type q) = None)
    | Some p \<Rightarrow> (\<exists>q. longest T la q \<and> p = P4 (V4H la) (key q)) \<and> place_ifc f' p \<noteq> None \<and>
        (c \<noteq> None \<longrightarrow> cached f' (v4gen f') c' = Some p))"
  by (rule v4lookup_ok [OF assms])

lemma v4lookup_longest_match_witness:
  "\<exists>pl f' c'. v4lookup (\<lambda>g t. Some 0) (\<lambda>i. 1) no_routes [10, 1, 2, 3] None = Some (pl, f', c') \<and> pl = None \<and> v4_ok f' Map.empty"
proof -
  have "nhgetl [10, 1, 2, 3] = Some 0x0a010203" "cached no_routes (v4gen no_routes) None = None"
    by (simp_all add: cached_def)
  from v4lookup_longest_match [OF no_routes_ok(1) this, of "\<lambda>g t. Some 0" "\<lambda>i. 1"]
  show ?thesis by (auto simp: longest_def split: option.splits)
qed

text \<open>
  The same for v6lookup and an address that is not a version 4 one: the longest match by the
  128-bit prefixes, from the one tree that the last word of the address selects.
\<close>

theorem v6lookup_longest_match:
  assumes "v6_ok f T" "nhgetl4 a = Some la" "\<not> isv4 a" "cached f (v6gen f) c = None"
  shows "\<exists>pl f' c'. v6lookup findifc ids f a c = Some (pl, f', c') \<and> v6_ok f' T \<and> v6gen f' = v6gen f \<and> v4root f' = v4root f \<and>
    (case pl of
      None \<Rightarrow> (\<forall>k p. T k = Some p \<longrightarrow> \<not> holds p la) \<or> (\<exists>q. longest T la q \<and> findifc (v6gate q) (r_type q) = None)
    | Some p \<Rightarrow> (\<exists>q. longest T la q \<and> p = P6 (V6H la) (key q)) \<and> place_ifc f' p \<noteq> None \<and>
        (c \<noteq> None \<longrightarrow> cached f' (v6gen f') c' = Some p))"
  using v6lookup_ok [OF assms, of findifc ids] by blast

lemma v6lookup_longest_match_witness:
  "\<exists>pl f' c'. v6lookup (\<lambda>g t. Some 0) (\<lambda>i. 1) no_routes [0x20, 0x20, 0x20, 0x20, 0x20, 0x20, 0x20, 0x20, 0x20, 0x20, 0x20, 0x20, 0x20, 0x20, 0x20, 0x20] None = Some (pl, f', c') \<and> pl = None \<and> v6_ok f' Map.empty"
proof -
  have "nhgetl4 [0x20, 0x20, 0x20, 0x20, 0x20, 0x20, 0x20, 0x20, 0x20, 0x20, 0x20, 0x20, 0x20, 0x20, 0x20, 0x20] = Some (V6 0x20202020 0x20202020 0x20202020 0x20202020)"
    "\<not> isv4 [0x20, 0x20, 0x20, 0x20, 0x20, 0x20, 0x20, 0x20, 0x20, 0x20, 0x20, 0x20, 0x20, 0x20, 0x20, 0x20]" "cached no_routes (v6gen no_routes) None = None"
    by (simp_all add: cached_def nhgetl4_def isv4_def v4prefix_def)
  from v6lookup_longest_match [OF no_routes_ok(2) this, of "\<lambda>g t. Some 0" "\<lambda>i. 1"]
  show ?thesis by (auto simp: longest_def split: option.splits)
qed

text \<open>
  Flushing the table ends, for every tag: although each round deletes one reference of one
  route in several trees and starts over, the loops of routewrite run dry, and what is left is
  the table without the routes of that tag that are not interface routes, in both families.
\<close>

theorem routes_flush_ends:
  assumes "v4_ok f T4" "v6_ok f T6"
  shows "\<exists>f'. routes_flush f tag = Some f' \<and> v4_ok f' (unflushed tag T4) \<and> v6_ok f' (unflushed tag T6)"
  by (rule routes_flush_ok [OF assms])

lemma routes_flush_ends_witness:
  "\<exists>f'. routes_flush no_routes None = Some f' \<and> v4_ok f' (unflushed None Map.empty) \<and> v6_ok f' (unflushed None Map.empty)"
  by (rule routes_flush_ends [OF no_routes_ok])

text \<open>
  Walking the table with room in the buffer gives every route of both families exactly once,
  although a short prefix is in many trees.
\<close>

theorem ipwalk_each_once:
  assumes "v4_ok f T4" "v6_ok f T6"
  shows "\<exists>w4 w6. ipwalkroutes (\<lambda>_. False) (\<lambda>(a, b) r. (a @ [r], b)) (\<lambda>(a, b) r. (a, b @ [r])) f ([], []) = (w4, w6) \<and>
    distinct (map key w4) \<and> (\<forall>k p. T4 k = Some p \<longleftrightarrow> (\<exists>x \<in> set w4. key x = k \<and> bare x = p)) \<and>
    distinct (map key w6) \<and> (\<forall>k p. T6 k = Some p \<longleftrightarrow> (\<exists>x \<in> set w6. key x = k \<and> bare x = p))"
proof -
  have "foldl (\<lambda>(a, b) r. (a @ [r], b)) (a, b) xs = (a @ xs, b)" for a xs :: "u32 route list" and b :: "v6addr route list"
    by (induction xs arbitrary: a) simp_all
  moreover have "foldl (\<lambda>(a, b) r. (a, b @ [r])) (a, b) xs = (a, b @ xs)" for a :: "u32 route list" and b xs :: "v6addr route list"
    by (induction xs arbitrary: b) simp_all
  ultimately have "ipwalkroutes (\<lambda>_. False) (\<lambda>(a, b) r. (a @ [r], b)) (\<lambda>(a, b) r. (a, b @ [r])) f ([], []) =
      (concat (map (\<lambda>h. owned V4H h (v4root f h)) [0 ..< 1024]), concat (map (\<lambda>h. owned V6H h (v6root f h)) [0 ..< 1024]))"
    by (simp add: ipwalkroutes_def rr_each_owned)
  moreover have "forest_ok unat V4H (v4root f) T4" "forest_ok v6num V6H (v6root f) T6"
    using assms by (simp_all add: v4_ok_def v6_ok_def)
  ultimately show ?thesis using v4.walk_once [of "v4root f" T4] v6.walk_once [of "v6root f" T6] by blast
qed

lemma ipwalk_each_once_witness:
  "\<exists>w4 w6. ipwalkroutes (\<lambda>_. False) (\<lambda>(a, b) r. (a @ [r], b)) (\<lambda>(a, b) r. (a, b @ [r])) no_routes ([], []) = (w4, w6) \<and>
    distinct (map key w4) \<and> (\<forall>k p. Map.empty k = Some p \<longleftrightarrow> (\<exists>x \<in> set w4. key x = k \<and> bare x = p)) \<and>
    distinct (map key w6) \<and> (\<forall>k p. Map.empty k = Some p \<longleftrightarrow> (\<exists>x \<in> set w6. key x = k \<and> bare x = p))"
  by (rule ipwalk_each_once [OF no_routes_ok])

end
