(* ===== verification/Qlocks.thy ===== *)
theory Qlocks
  imports Nix_Prelude
begin

text \<open>
  The queueing locks of \<open>port/qlock.c\<close>: QLock, a mutual exclusion lock that is handed to the
  process that waited longest, and RWlock, with any number of readers or one writer. The queue of
  waiting processes is the pointer structure of the code: \<open>head\<close> and \<open>tail\<close> in the lock, \<open>qnext\<close>
  and the state in the process. What the spin lock \<open>use\<close> protects is one step. The statistics,
  the traces and the warnings printed are left out.

  A function ends in \<open>Got\<close> when the caller has the lock on return, and in \<open>Sched\<close> when it calls
  \<open>sched\<close> with its state set; it has the lock when it runs again. A panic is \<^term>\<open>None\<close>.
\<close>

named_theorems lock_simps \<open>what the lock operations do to their fields\<close>

subsection \<open>Processes and the queue\<close>

datatype pstate = Dead | Moribund | Ready | Scheding | Running | Queueing | QueueingR | QueueingW | Wakeme | Broken
  | Stopped | Rendezvous | Waitrelease | Exotic | Semdown

type_synonym proc = nat

record procs =
  p_state :: "proc \<Rightarrow> pstate"
  p_qnext :: "proc \<Rightarrow> proc option"
  p_qpc :: "proc \<Rightarrow> u64"

record lockq =
  q_head :: "proc option"
  q_tail :: "proc option"

record QLock = lockq +
  q_locked :: bool
  q_pc :: u64

record rwlock = lockq +
  rw_wpc :: u64
  rw_wproc :: "proc option"
  rw_readers :: int
  rw_writer :: bool

datatype outcome = Got | Sched

text \<open>The caller joins the queue in the given state; the first waiter leaves it.\<close>

definition enq :: "pstate \<Rightarrow> proc \<Rightarrow> 'a lockq_scheme \<times> procs \<Rightarrow> 'a lockq_scheme \<times> procs" where
  "enq st up = (\<lambda>(q, s).
     let (q, s) = (case q_tail q of
           None \<Rightarrow> (q\<lparr>q_head := Some up\<rparr>, s)
         | Some p \<Rightarrow> (q, s\<lparr>p_qnext := (p_qnext s)(p := Some up)\<rparr>));
         q = q\<lparr>q_tail := Some up\<rparr> in
     (q, s\<lparr>p_qnext := (p_qnext s)(up := None), p_state := (p_state s)(up := st)\<rparr>))"

definition deq :: "'a lockq_scheme \<times> procs \<Rightarrow> (proc \<times> 'a lockq_scheme \<times> procs) option" where
  "deq = (\<lambda>(q, s). case q_head q of
      None \<Rightarrow> None
    | Some p \<Rightarrow>
        let q = q\<lparr>q_head := p_qnext s p\<rparr>;
            q = (if q_head q = None then q\<lparr>q_tail := None\<rparr> else q) in
        Some (p, q, s))"

text \<open>
  What \<open>ready\<close> does to the state of a process without an EDF reservation; the run queues are not
  part of this theory. The code calls it after it let go of \<open>use\<close>, but the process is off the
  queue by then and cannot run before, so it is part of the same step here.
\<close>

definition ready :: "proc \<Rightarrow> 'a procs_scheme \<Rightarrow> 'a procs_scheme" where
  "ready p s = s\<lparr>p_state := (p_state s)(p := Ready)\<rparr>"

subsection \<open>QLock\<close>




subsection \<open>RWlock\<close>

definition rlock :: "proc option \<Rightarrow> rwlock \<times> procs \<Rightarrow> (outcome \<times> rwlock \<times> procs) option" where
  "rlock up = (\<lambda>(q, s).
     if \<not> rw_writer q \<and> q_head q = None then Some (Got, q\<lparr>rw_readers := rw_readers q + 1\<rparr>, s)
     else (case up of None \<Rightarrow> None | Some p \<Rightarrow> Some (Sched, enq QueueingR p (q, s))))"

definition runlock :: "rwlock \<times> procs \<Rightarrow> (rwlock \<times> procs) option" where
  "runlock = (\<lambda>(q, s).
     let q = q\<lparr>rw_readers := rw_readers q - 1\<rparr> in
     if rw_readers q > 0 then Some (q, s)
     else (case q_head q of
         None \<Rightarrow> Some (q, s)
       | Some h \<Rightarrow>
           if p_state s h \<noteq> QueueingW then None
           else (case deq (q, s) of
               Some (p, q, s) \<Rightarrow> Some (q\<lparr>rw_writer := True\<rparr>, ready p s)
             | None \<Rightarrow> None)))"

definition wlock :: "proc option \<Rightarrow> u64 \<Rightarrow> rwlock \<times> procs \<Rightarrow> (outcome \<times> rwlock \<times> procs) option" where
  "wlock up pc = (\<lambda>(q, s).
     if rw_readers q = 0 \<and> \<not> rw_writer q then Some (Got, q\<lparr>rw_wpc := pc, rw_wproc := up, rw_writer := True\<rparr>, s)
     else (case up of None \<Rightarrow> None | Some p \<Rightarrow> Some (Sched, enq QueueingW p (q, s))))"

text \<open>The loop over the waiting readers. It follows the links, so that it ends is to be proved.\<close>

partial_function (option) wake_readers :: "rwlock \<Rightarrow> procs \<Rightarrow> (rwlock \<times> procs) option" where
  "wake_readers q s = (case q_head q of
      None \<Rightarrow> Some (q, s)
    | Some p \<Rightarrow>
        if p_state s p = QueueingR
        then wake_readers (q\<lparr>q_head := p_qnext s p, rw_readers := rw_readers q + 1\<rparr>) (ready p s)
        else Some (q, s))"

declare wake_readers.simps [code]

definition wunlock :: "rwlock \<times> procs \<Rightarrow> (rwlock \<times> procs) option" where
  "wunlock = (\<lambda>(q, s). case q_head q of
      None \<Rightarrow> Some (q\<lparr>rw_writer := False\<rparr>, s)
    | Some p \<Rightarrow>
        if p_state s p = QueueingW then (case deq (q, s) of
            Some (p, q, s) \<Rightarrow> Some (q, ready p s)
          | None \<Rightarrow> None)
        else if p_state s p \<noteq> QueueingR then None
        else (case wake_readers q s of
            None \<Rightarrow> None
          | Some (q, s) \<Rightarrow>
              let q = (if q_head q = None then q\<lparr>q_tail := None\<rparr> else q) in
              Some (q\<lparr>rw_writer := False\<rparr>, s)))"

definition canrlock :: "rwlock \<Rightarrow> bool \<times> rwlock" where
  "canrlock q = (if \<not> rw_writer q \<and> q_head q = None then (True, q\<lparr>rw_readers := rw_readers q + 1\<rparr>) else (False, q))"

subsection \<open>The queue is a list\<close>

text \<open>The interface the locks need: who waits, in order; a new waiter is last, and the first leaves.\<close>

locale wait_queue =
  fixes waiting :: "'s \<Rightarrow> proc list \<Rightarrow> bool"
    and join :: "proc \<Rightarrow> 's \<Rightarrow> 's"
    and leave :: "'s \<Rightarrow> (proc \<times> 's) option"
  assumes join_last: "waiting s ps \<Longrightarrow> p \<notin> set ps \<Longrightarrow> waiting (join p s) (ps @ [p])"
    and leave_none: "waiting s [] \<Longrightarrow> leave s = None"
    and leave_first: "waiting s (p # ps) \<Longrightarrow> \<exists>s'. leave s = Some (p, s') \<and> waiting s' ps"
begin

fun joins :: "proc list \<Rightarrow> 's \<Rightarrow> 's" where
  "joins [] s = s"
| "joins (p # ps) s = joins ps (join p s)"

fun leaves :: "nat \<Rightarrow> 's \<Rightarrow> proc list" where
  "leaves 0 s = []"
| "leaves (Suc n) s = (case leave s of None \<Rightarrow> [] | Some (p, s) \<Rightarrow> p # leaves n s)"

lemma joins_waiting: "waiting s qs \<Longrightarrow> distinct (qs @ ps) \<Longrightarrow> waiting (joins ps s) (qs @ ps)"
proof (induction ps arbitrary: s qs)
  case (Cons p ps)
  have "waiting (join p s) (qs @ [p])" by (rule join_last) (use Cons.prems in auto)
  from Cons.IH [OF this] show ?case using Cons.prems(2) by simp
qed simp

lemma leaves_order: "waiting s ps \<Longrightarrow> leaves n s = take n ps"
proof (induction n arbitrary: s ps)
  case (Suc n)
  then show ?case using leave_none leave_first by (cases ps) (fastforce split: option.split)+
qed simp

text \<open>The waiters leave in the order they came.\<close>

lemma first_come_first_served: "waiting s [] \<Longrightarrow> distinct ps \<Longrightarrow> leaves n (joins ps s) = take n ps"
  using joins_waiting [of s "[]" ps] by (simp add: leaves_order)

end

definition first :: "proc list \<Rightarrow> proc option" where
  "first ps = (case ps of [] \<Rightarrow> None | p # _ \<Rightarrow> Some p)"

lemma first_simps [simp]: "first [] = None" "first (p # ps) = Some p" "first ps = None \<longleftrightarrow> ps = []"
  "ps \<noteq> [] \<Longrightarrow> first (ps @ qs) = first ps"
  by (cases ps; simp add: first_def)+

fun linked :: "(proc \<Rightarrow> proc option) \<Rightarrow> proc list \<Rightarrow> bool" where
  "linked nx [] = True"
| "linked nx (p # ps) = (nx p = first ps \<and> linked nx ps)"

definition waiting :: "'a lockq_scheme \<times> procs \<Rightarrow> proc list \<Rightarrow> bool" where
  "waiting = (\<lambda>(q, s) ps. distinct ps \<and> q_head q = first ps \<and> q_tail q = first (rev ps) \<and> linked (p_qnext s) ps)"

lemma linked_other: "(\<And>p. p \<in> set ps \<Longrightarrow> nx' p = nx p) \<Longrightarrow> linked nx' ps = linked nx ps"
  by (induction ps) auto

lemma linked_snoc:
  "linked nx (ps @ [l]) \<Longrightarrow> distinct (ps @ [l]) \<Longrightarrow> p \<notin> set (ps @ [l]) \<Longrightarrow> linked (nx(l := Some p, p := None)) (ps @ [l, p])"
proof (induction ps)
  case (Cons a ps)
  then show ?case by (cases ps) auto
qed simp

lemma enq_waiting: "waiting qs ps \<Longrightarrow> p \<notin> set ps \<Longrightarrow> waiting (enq st p qs) (ps @ [p])"
proof -
  assume w: "waiting qs ps" and p: "p \<notin> set ps"
  obtain q s where qs: "qs = (q, s)" by (cases qs)
  show ?thesis
  proof (cases ps rule: rev_cases)
    case Nil
    then show ?thesis using w qs by (simp add: waiting_def enq_def)
  next
    case (snoc rs l)
    then have f: "distinct (rs @ [l])" "q_head q = first (rs @ [l])" "q_tail q = Some l" "linked (p_qnext s) (rs @ [l])"
      using w by (simp_all add: qs waiting_def)
    have "first (rs @ [l]) = first (rs @ [l, p])" by (cases rs) simp_all
    then show ?thesis
      using f p linked_snoc [OF f(4,1), of p] unfolding qs snoc by (simp add: waiting_def enq_def)
  qed
qed

lemma deq_waiting:
  "waiting (q, s) (p # ps) \<Longrightarrow>
   \<exists>h t. deq (q, s) = Some (p, q\<lparr>q_head := h, q_tail := t\<rparr>, s) \<and> waiting (q\<lparr>q_head := h, q_tail := t\<rparr>, s) ps"
  by (intro exI [of _ "first ps"] exI [of _ "first (rev ps)"]) (auto simp: deq_def waiting_def Let_def)

lemma deq_none: "waiting qs [] \<Longrightarrow> deq qs = None"
  by (cases qs) (simp add: deq_def waiting_def)

interpretation lq: wait_queue "waiting :: lockq \<times> procs \<Rightarrow> proc list \<Rightarrow> bool" "enq st" deq for st
proof
  show "\<exists>s'. deq qs = Some (p, s') \<and> waiting s' ps" if "waiting qs (p # ps)" for qs :: "lockq \<times> procs" and p ps
    using that deq_waiting by (cases qs) blast
qed (auto intro: enq_waiting deq_none)

lemma waiting_head: "waiting (q, s) ps \<Longrightarrow> q_head q = None \<longleftrightarrow> ps = []"
  by (simp add: waiting_def)

text \<open>What does not concern the queue.\<close>

lemma waiting_cong:
  "q_head q' = q_head q \<Longrightarrow> q_tail q' = q_tail q \<Longrightarrow> (\<And>p. p \<in> set ps \<Longrightarrow> p_qnext s' p = p_qnext s p) \<Longrightarrow>
   waiting (q', s') ps = waiting (q, s) ps"
  using linked_other [of ps "p_qnext s'" "p_qnext s"] by (simp add: waiting_def)

lemma enq_simps [lock_simps]:
  "p_state (snd (enq st p (q, s))) = (p_state s)(p := st)"
  "x \<noteq> p \<Longrightarrow> q_tail q \<noteq> Some x \<Longrightarrow> p_qnext (snd (enq st p (q, s))) x = p_qnext s x"
  by (auto simp: enq_def Let_def split: option.split)

lemma enq_fields [lock_simps]:
  "rw_readers (fst (enq st p (q, s))) = rw_readers q" "rw_writer (fst (enq st p (q, s))) = rw_writer q"
  "q_locked (fst (enq st p (ql, s))) = q_locked ql"
  by (auto simp: enq_def Let_def split: option.split)

lemma ready_simps [lock_simps]: "p_state (ready p s) = (p_state s)(p := Ready)" "p_qnext (ready p s) = p_qnext s"
  by (simp_all add: ready_def)

subsection \<open>Waking the readers\<close>

lemma wake_readers_list:
  "linked (p_qnext s) ps \<Longrightarrow> q_head q = first ps \<Longrightarrow> distinct ps \<Longrightarrow>
   wake_readers q s = Some
     (q\<lparr>q_head := first (dropWhile (\<lambda>p. p_state s p = QueueingR) ps),
        rw_readers := rw_readers q + int (length (takeWhile (\<lambda>p. p_state s p = QueueingR) ps))\<rparr>,
      s\<lparr>p_state := (\<lambda>p. if p \<in> set (takeWhile (\<lambda>p. p_state s p = QueueingR) ps) then Ready else p_state s p)\<rparr>)"
proof (induction ps arbitrary: q s)
  case Nil
  then show ?case by (subst wake_readers.simps) simp
next
  case (Cons a ps)
  show ?case
  proof (cases "p_state s a = QueueingR")
    case False
    then show ?thesis using Cons.prems by (subst wake_readers.simps) simp
  next
    case True
    let ?s = "ready a s"
    have same: "takeWhile (\<lambda>p. p_state ?s p = QueueingR) ps = takeWhile (\<lambda>p. p_state s p = QueueingR) ps"
      "dropWhile (\<lambda>p. p_state ?s p = QueueingR) ps = dropWhile (\<lambda>p. p_state s p = QueueingR) ps"
      using Cons.prems(3) by (auto simp: lock_simps intro!: takeWhile_cong dropWhile_cong)
    have "wake_readers q s = wake_readers (q\<lparr>q_head := p_qnext s a, rw_readers := rw_readers q + 1\<rparr>) ?s"
      using Cons.prems(2) True by (subst wake_readers.simps) simp
    also have "\<dots> = Some
      (q\<lparr>q_head := first (dropWhile (\<lambda>p. p_state s p = QueueingR) ps),
         rw_readers := rw_readers q + 1 + int (length (takeWhile (\<lambda>p. p_state s p = QueueingR) ps))\<rparr>,
       ?s\<lparr>p_state := (\<lambda>p. if p \<in> set (takeWhile (\<lambda>p. p_state s p = QueueingR) ps) then Ready else p_state ?s p)\<rparr>)"
      using Cons.prems by (subst Cons.IH) (simp_all add: ready_simps(2) same)
    finally show ?thesis using True by (auto simp: ready_def fun_eq_iff)
  qed
qed

lemma linked_append: "linked nx (rs @ ws) \<Longrightarrow> linked nx ws"
  by (induction rs) auto

lemma wake_readers_waiting:
  assumes "waiting (q, s) ps"
  defines "rs \<equiv> takeWhile (\<lambda>p. p_state s p = QueueingR) ps" and "ws \<equiv> dropWhile (\<lambda>p. p_state s p = QueueingR) ps"
  shows "\<exists>q' s'. wake_readers q s = Some (q', s') \<and> rw_readers q' = rw_readers q + int (length rs) \<and>
    waiting ((if q_head q' = None then q'\<lparr>q_tail := None\<rparr> else q')\<lparr>rw_writer := False\<rparr>, s') ws \<and>
    p_state s' = (\<lambda>p. if p \<in> set rs then Ready else p_state s p)"
proof -
  have ps: "ps = rs @ ws" by (simp add: rs_def ws_def)
  have d: "distinct (rs @ ws)" "linked (p_qnext s) (rs @ ws)" "q_tail q = first (rev (rs @ ws))"
    using assms(1) by (simp_all only: ps [symmetric] waiting_def prod.case)
  have t: "ws \<noteq> [] \<Longrightarrow> first (rev (rs @ ws)) = first (rev ws)" by simp
  have "wake_readers q s = Some (q\<lparr>q_head := first ws, rw_readers := rw_readers q + int (length rs)\<rparr>,
      s\<lparr>p_state := (\<lambda>p. if p \<in> set rs then Ready else p_state s p)\<rparr>)"
    using wake_readers_list [of s ps q] assms(1) by (simp add: waiting_def rs_def ws_def)
  then show ?thesis using d t linked_append [OF d(2)] by (cases "ws = []") (simp_all add: waiting_def)
qed

subsection \<open>Processes using a RWlock\<close>

text \<open>
  Where a process is with regard to the lock. It waits from the time it joins the queue to the time
  it runs again. Everything else processes do (run, stop, wait for other locks through the same
  links) is a step of the environment, for processes not waiting for this lock.
\<close>

datatype ppoint = Outside | Wait_R | Wait_W | Has_R | Has_W

record rwsys =
  y_q :: rwlock
  y_s :: procs
  y_at :: "proc \<Rightarrow> ppoint"

inductive rwstep :: "rwsys \<Rightarrow> rwsys \<Rightarrow> bool" where
  rlock: "y_at y p = Outside \<Longrightarrow> rlock (Some p) (y_q y, y_s y) = Some (r, q, s) \<Longrightarrow>
    rwstep y \<lparr>y_q = q, y_s = s, y_at = (y_at y)(p := if r = Got then Has_R else Wait_R)\<rparr>"
| wlock: "y_at y p = Outside \<Longrightarrow> wlock (Some p) pc (y_q y, y_s y) = Some (r, q, s) \<Longrightarrow>
    rwstep y \<lparr>y_q = q, y_s = s, y_at = (y_at y)(p := if r = Got then Has_W else Wait_W)\<rparr>"
| canrlock: "y_at y p = Outside \<Longrightarrow> canrlock (y_q y) = (b, q) \<Longrightarrow>
    rwstep y \<lparr>y_q = q, y_s = y_s y, y_at = (y_at y)(p := if b then Has_R else Outside)\<rparr>"
| run_r: "y_at y p = Wait_R \<Longrightarrow> p_state (y_s y) p = Ready \<Longrightarrow>
    rwstep y (y\<lparr>y_s := (y_s y)\<lparr>p_state := (p_state (y_s y))(p := Running)\<rparr>, y_at := (y_at y)(p := Has_R)\<rparr>)"
| run_w: "y_at y p = Wait_W \<Longrightarrow> p_state (y_s y) p = Ready \<Longrightarrow>
    rwstep y (y\<lparr>y_s := (y_s y)\<lparr>p_state := (p_state (y_s y))(p := Running)\<rparr>, y_at := (y_at y)(p := Has_W)\<rparr>)"
| runlock: "y_at y p = Has_R \<Longrightarrow> runlock (y_q y, y_s y) = Some (q, s) \<Longrightarrow>
    rwstep y \<lparr>y_q = q, y_s = s, y_at = (y_at y)(p := Outside)\<rparr>"
| wunlock: "y_at y p = Has_W \<Longrightarrow> wunlock (y_q y, y_s y) = Some (q, s) \<Longrightarrow>
    rwstep y \<lparr>y_q = q, y_s = s, y_at = (y_at y)(p := Outside)\<rparr>"
| env: "y_at y p \<notin> {Wait_R, Wait_W} \<Longrightarrow>
    rwstep y (y\<lparr>y_s := (y_s y)\<lparr>p_state := (p_state (y_s y))(p := st), p_qnext := (p_qnext (y_s y))(p := nx)\<rparr>\<rparr>)"

inductive rwreach :: "rwsys \<Rightarrow> bool" where
  start: "y_q y = \<lparr>q_head = None, q_tail = None, rw_wpc = 0, rw_wproc = None, rw_readers = 0, rw_writer = False\<rparr> \<Longrightarrow>
    y_at y = (\<lambda>p. Outside) \<Longrightarrow> rwreach y"
| step: "rwreach y \<Longrightarrow> rwstep y z \<Longrightarrow> rwreach z"

text \<open>Who has the lock: a waiter has it from the moment it is made ready.\<close>

definition queued :: "rwsys \<Rightarrow> proc \<Rightarrow> bool" where
  "queued y p = (y_at y p = Wait_R \<and> p_state (y_s y) p = QueueingR \<or> y_at y p = Wait_W \<and> p_state (y_s y) p = QueueingW)"

definition readers :: "rwsys \<Rightarrow> proc set" where
  "readers y = {p. y_at y p = Has_R \<or> y_at y p = Wait_R \<and> \<not> queued y p}"

definition writers :: "rwsys \<Rightarrow> proc set" where
  "writers y = {p. y_at y p = Has_W \<or> y_at y p = Wait_W \<and> \<not> queued y p}"

definition rw_inv :: "rwsys \<Rightarrow> proc list \<Rightarrow> bool" where
  "rw_inv y ps =
     (waiting (y_q y, y_s y) ps \<and> set ps = {p. queued y p} \<and>
      (\<forall>p. y_at y p = Wait_R \<longrightarrow> p_state (y_s y) p \<in> {QueueingR, Ready}) \<and>
      (\<forall>p. y_at y p = Wait_W \<longrightarrow> p_state (y_s y) p \<in> {QueueingW, Ready}) \<and>
      finite (readers y) \<and> rw_readers (y_q y) = int (card (readers y)) \<and>
      (if rw_writer (y_q y) then readers y = {} \<and> (\<exists>w. writers y = {w}) else writers y = {}) \<and>
      (ps \<noteq> [] \<longrightarrow> readers y \<noteq> {} \<or> rw_writer (y_q y)) \<and>
      (readers y \<noteq> {} \<longrightarrow> ps \<noteq> [] \<longrightarrow> y_at y (hd ps) = Wait_W))"

lemmas point_defs = readers_def writers_def queued_def

lemma rw_invD:
  assumes "rw_inv y ps"
  shows "waiting (y_q y, y_s y) ps" "set ps = {p. queued y p}" "finite (readers y)"
    "rw_readers (y_q y) = int (card (readers y))"
    "rw_writer (y_q y) \<Longrightarrow> readers y = {} \<and> (\<exists>w. writers y = {w})" "\<not> rw_writer (y_q y) \<Longrightarrow> writers y = {}"
    "ps \<noteq> [] \<Longrightarrow> readers y \<noteq> {} \<or> rw_writer (y_q y)"
    "readers y \<noteq> {} \<Longrightarrow> ps \<noteq> [] \<Longrightarrow> y_at y (hd ps) = Wait_W"
    "y_at y p = Wait_R \<Longrightarrow> p_state (y_s y) p = QueueingR \<or> p_state (y_s y) p = Ready"
    "y_at y p = Wait_W \<Longrightarrow> p_state (y_s y) p = QueueingW \<or> p_state (y_s y) p = Ready"
  using assms by (auto simp: rw_inv_def split: if_splits)

lemma rw_invI:
  assumes "waiting (y_q y, y_s y) ps" "set ps = {p. queued y p}"
    "\<And>p. y_at y p = Wait_R \<Longrightarrow> p_state (y_s y) p \<in> {QueueingR, Ready}"
    "\<And>p. y_at y p = Wait_W \<Longrightarrow> p_state (y_s y) p \<in> {QueueingW, Ready}"
    "finite (readers y)" "rw_readers (y_q y) = int (card (readers y))"
    "rw_writer (y_q y) \<Longrightarrow> readers y = {} \<and> (\<exists>w. writers y = {w})" "\<not> rw_writer (y_q y) \<Longrightarrow> writers y = {}"
    "ps \<noteq> [] \<Longrightarrow> readers y \<noteq> {} \<or> rw_writer (y_q y)"
    "readers y \<noteq> {} \<Longrightarrow> ps \<noteq> [] \<Longrightarrow> y_at y (hd ps) = Wait_W"
  shows "rw_inv y ps"
  using assms by (simp add: rw_inv_def)

lemma rw_join:
  assumes inv: "rw_inv y ps" and p: "y_at y p = Outside"
    and st: "st = QueueingR \<and> a = Wait_R \<or> st = QueueingW \<and> a = Wait_W"
    and busy: "ps \<noteq> [] \<or> rw_writer (y_q y) \<or> (readers y \<noteq> {} \<and> a = Wait_W)"
    and e: "enq st p (y_q y, y_s y) = (q, s)"
    and z: "y_q z = q" "y_s z = s" "y_at z = (y_at y)(p := a)"
  shows "rw_inv z (ps @ [p])"
proof -
  note i = rw_invD [OF inv]
  have pn: "p \<notin> set ps" using i(2) p by (simp add: queued_def)
  have s: "p_state s = (p_state (y_s y))(p := st)" "rw_readers q = rw_readers (y_q y)" "rw_writer q = rw_writer (y_q y)"
    using enq_simps(1) [of st p "y_q y" "y_s y"] enq_fields(1,2) [of st p "y_q y" "y_s y"] e by simp_all
  have zs: "readers z = readers y" "writers z = writers y" "queued z x \<longleftrightarrow> queued y x \<or> x = p" for x
    using p st by (auto simp: point_defs z s)
  show ?thesis
  proof (rule rw_invI)
    show "waiting (y_q z, y_s z) (ps @ [p])" using enq_waiting [OF i(1) pn, of st] e z by simp
    show "y_at z (hd (ps @ [p])) = Wait_W" if "readers z \<noteq> {}" "ps @ [p] \<noteq> []"
      using that busy i(5,8) pn st unfolding zs z by (cases ps) auto
    show "readers z \<noteq> {} \<or> rw_writer (y_q z)" using busy i(7) by (auto simp: zs z s)
  qed (use i st in \<open>auto simp: zs z s split: if_splits\<close>)
qed

lemma rw_read:
  assumes inv: "rw_inv y ps" and p: "y_at y p = Outside" and free: "\<not> rw_writer (y_q y)" "q_head (y_q y) = None"
    and z: "y_q z = (y_q y)\<lparr>rw_readers := rw_readers (y_q y) + 1\<rparr>" "y_s z = y_s y" "y_at z = (y_at y)(p := Has_R)"
  shows "rw_inv z []"
proof -
  note i = rw_invD [OF inv]
  have ps: "ps = []" using waiting_head [OF i(1)] free(2) by simp
  have zs: "readers z = insert p (readers y)" "writers z = writers y" "queued z x = queued y x" for x
    using p by (auto simp: point_defs z)
  have "p \<notin> readers y" using p by (simp add: point_defs)
  moreover have "waiting (y_q z, y_s z) []" using i(1) unfolding ps by (simp add: waiting_def z)
  ultimately show ?thesis using i free ps by (intro rw_invI) (auto simp: zs z split: if_splits)
qed

lemma rw_write:
  assumes inv: "rw_inv y ps" and p: "y_at y p = Outside" and free: "\<not> rw_writer (y_q y)" "rw_readers (y_q y) = 0"
    and z: "y_q z = (y_q y)\<lparr>rw_wpc := pc, rw_wproc := w, rw_writer := True\<rparr>" "y_s z = y_s y" "y_at z = (y_at y)(p := Has_W)"
  shows "rw_inv z []"
proof -
  note i = rw_invD [OF inv]
  have r: "readers y = {}" using i(3,4) free(2) by simp
  have ps: "ps = []" using i(7) r free(1) by blast
  have zs: "readers z = readers y" "writers z = insert p (writers y)" "queued z x = queued y x" for x
    using p by (auto simp: point_defs z)
  moreover have "waiting (y_q z, y_s z) []" using i(1) unfolding ps by (simp add: waiting_def z)
  ultimately show ?thesis using i free ps r by (intro rw_invI) (auto simp: zs z split: if_splits)
qed

text \<open>The first waiter, a writer, is given the lock.\<close>

lemma rw_pass_writer:
  assumes inv: "rw_inv y (a # ps)" and a: "y_at y a = Wait_W" and p: "y_at y p \<in> {Has_R, Has_W}"
    and alone: "readers y \<union> writers y = {p}"
    and z: "waiting (y_q z, y_s y) ps" "y_s z = ready a (y_s y)" "y_at z = (y_at y)(p := Outside)"
      "rw_readers (y_q z) = 0" "rw_writer (y_q z)"
  shows "rw_inv z ps"
proof -
  note i = rw_invD [OF inv]
  have ps: "set ps = {x. queued y x} - {a}" using i(1,2) by (auto simp: waiting_def)
  have ap: "a \<noteq> p" using a p by auto
  have st: "p_state (y_s z) = (p_state (y_s y))(a := Ready)" by (simp add: z lock_simps)
  have al: "x \<notin> readers y \<and> x \<notin> writers y" if "x \<noteq> p" for x using alone that by blast
  have "x \<in> readers z \<Longrightarrow> x \<in> readers y \<and> x \<noteq> p" for x
    using a ap by (auto simp: point_defs z(3) st split: if_split_asm)
  then have r: "readers z = {}" using al by blast
  have "x \<in> writers z \<Longrightarrow> x \<in> writers y \<and> x \<noteq> p \<or> x = a" for x
    by (auto simp: point_defs z(3) st split: if_split_asm)
  moreover have "a \<in> writers z" using a ap by (simp add: point_defs z(3) st)
  ultimately have w: "writers z = {a}" using al by blast
  have qd: "queued z x \<longleftrightarrow> queued y x \<and> x \<noteq> a" for x
    using p by (auto simp: queued_def z(3) st)
  note zs = r w qd
  show ?thesis
  proof (rule rw_invI)
    show "waiting (y_q z, y_s z) ps" using z(1) by (simp add: waiting_def lock_simps z(2))
  qed (use i ps a in \<open>auto simp: zs z lock_simps split: if_splits\<close>)
qed

text \<open>The waiting readers up to the first writer are given the lock.\<close>

lemma rw_pass_readers:
  assumes inv: "rw_inv y ps" and p: "y_at y p = Has_W" and alone: "writers y = {p}" "readers y = {}"
    and rs: "rs = takeWhile (\<lambda>p. p_state (y_s y) p = QueueingR) ps" "rs \<noteq> []"
    and ws: "ws = dropWhile (\<lambda>p. p_state (y_s y) p = QueueingR) ps"
    and z: "waiting (y_q z, y_s z) ws" "p_state (y_s z) = (\<lambda>p. if p \<in> set rs then Ready else p_state (y_s y) p)"
      "y_at z = (y_at y)(p := Outside)" "rw_readers (y_q z) = int (length rs)" "\<not> rw_writer (y_q z)"
  shows "rw_inv z ws"
proof -
  note i = rw_invD [OF inv]
  have ps: "ps = rs @ ws" by (simp add: rs(1) ws)
  have d: "distinct rs" "set rs \<inter> set ws = {}" using i(1) unfolding ps by (auto simp: waiting_def)
  have q: "queued y x \<longleftrightarrow> x \<in> set rs \<or> x \<in> set ws" for x using i(2) unfolding ps by auto
  have rr: "y_at y x = Wait_R \<and> p_state (y_s y) x = QueueingR" if "x \<in> set rs" for x
    using set_takeWhileD [of x "\<lambda>p. p_state (y_s y) p = QueueingR" ps] that q [of x] unfolding rs(1) [symmetric]
    by (auto simp: queued_def)
  have np: "p \<notin> set rs" "p \<notin> set ws" using q [of p] p by (auto simp: queued_def)
  have qz: "queued z x \<longleftrightarrow> x \<in> set ws" for x
  proof (cases "x = p")
    case True
    then show ?thesis using np by (simp add: queued_def z(3))
  next
    case False
    then show ?thesis using q [of x] d(2) rr [of x] by (cases "x \<in> set rs") (auto simp: queued_def z(2,3))
  qed
  have r: "readers z = set rs"
  proof (rule set_eqI)
    fix x
    show "x \<in> readers z \<longleftrightarrow> x \<in> set rs"
      using np alone(2) rr [of x] q [of x] d(2) qz [of x] by (cases "x \<in> set rs") (auto simp: readers_def z(3))
  qed
  have w: "writers z = {}"
  proof -
    have "x \<notin> writers z" for x
      using alone(1) rr [of x] q [of x] qz [of x] by (cases "x = p"; cases "x \<in> set rs") (auto simp: writers_def z(3))
    then show ?thesis by blast
  qed
  have hd: "y_at z (hd ws) = Wait_W" if "ws \<noteq> []"
  proof -
    have h: "hd ws \<in> set ws" "p_state (y_s y) (hd ws) \<noteq> QueueingR"
      using that hd_dropWhile [of "\<lambda>p. p_state (y_s y) p = QueueingR" ps] ws by auto
    then have "hd ws \<noteq> p" using np by auto
    then show ?thesis using h q [of "hd ws"] by (auto simp: queued_def z(3))
  qed
  show ?thesis
  proof (rule rw_invI [OF z(1)])
    show "p_state (y_s z) x \<in> {QueueingR, Ready}" if "y_at z x = Wait_R" for x
      using that i(9) [of x] by (auto simp: z(2,3) split: if_splits)
    show "p_state (y_s z) x \<in> {QueueingW, Ready}" if "y_at z x = Wait_W" for x
      using that i(10) [of x] by (auto simp: z(2,3) split: if_splits)
  qed (use r w hd qz z rs(2) d(1) in \<open>simp_all add: distinct_card\<close>)
qed

text \<open>A lock given up with nobody waiting, or with other readers left.\<close>

lemma rw_drop:
  assumes inv: "rw_inv y ps" and p: "y_at y p \<in> {Has_R, Has_W}"
    and z: "q_head (y_q z) = q_head (y_q y)" "q_tail (y_q z) = q_tail (y_q y)" "y_s z = y_s y" "y_at z = (y_at y)(p := Outside)"
    and n: "rw_readers (y_q z) = (if y_at y p = Has_R then rw_readers (y_q y) - 1 else rw_readers (y_q y))"
    and w: "rw_writer (y_q z) = (y_at y p = Has_R \<and> rw_writer (y_q y))"
    and left: "ps \<noteq> [] \<Longrightarrow> y_at y p = Has_R \<and> 1 < rw_readers (y_q y)"
  shows "rw_inv z ps"
proof -
  note i = rw_invD [OF inv]
  have zs: "readers z = readers y - {p}" "writers z = writers y - {p}" "queued z x = queued y x" for x
    using p by (auto simp: point_defs z)
  have wt: "waiting (y_q z, y_s z) ps" using i(1) waiting_cong [of "y_q z" "y_q y" ps "y_s z" "y_s y"] z by simp
  show ?thesis
  proof (cases "y_at y p = Has_R")
    case True
    then have "p \<in> readers y" "p \<notin> writers y" by (simp_all add: point_defs)
    then have nw: "\<not> rw_writer (y_q y)" using i(5) by auto
    have c: "card (readers z) = card (readers y) - 1" "1 \<le> card (readers y)"
      using \<open>p \<in> readers y\<close> i(3) card_gt_0_iff [of "readers y"] by (auto simp: zs)
    have "readers z \<noteq> {}" if "ps \<noteq> []"
    proof -
      have "1 < card (readers y)" using left [OF that] i(4) by simp
      then have "card (readers z) \<noteq> 0" using c by simp
      then show ?thesis by auto
    qed
    moreover have "y_at z (hd ps) = Wait_W" if "ps \<noteq> []"
    proof -
      have "readers y \<noteq> {}" using \<open>p \<in> readers y\<close> by blast
      then have "y_at y (hd ps) = Wait_W" using i(8) that by blast
      then show ?thesis using True by (cases "hd ps = p") (simp_all add: z(4))
    qed
    ultimately show ?thesis using wt i nw True n w c \<open>p \<notin> writers y\<close>
      by (intro rw_invI) (auto simp: zs z split: if_split_asm)
  next
    case False
    then have pw: "y_at y p = Has_W" using p by simp
    then have "p \<in> writers y" "ps = []" using left by (auto simp: point_defs)
    moreover from this have "rw_writer (y_q y)" using i(6) by blast
    ultimately have "readers y = {}" "writers y = {p}" using i(5) by auto
    then show ?thesis using wt i n w False \<open>ps = []\<close> pw
      by (intro rw_invI) (auto simp: zs z split: if_split_asm)
  qed
qed

text \<open>A process that has been made ready runs.\<close>

lemma rw_run:
  assumes inv: "rw_inv y ps" and p: "y_at y p = Wait_R \<and> a = Has_R \<or> y_at y p = Wait_W \<and> a = Has_W"
    and r: "p_state (y_s y) p = Ready"
    and z: "y_q z = y_q y" "y_s z = (y_s y)\<lparr>p_state := (p_state (y_s y))(p := Running)\<rparr>" "y_at z = (y_at y)(p := a)"
  shows "rw_inv z ps"
proof -
  note i = rw_invD [OF inv]
  have nq: "\<not> queued y p" using r by (auto simp: queued_def)
  have zs: "readers z = readers y" "writers z = writers y" "queued z x = queued y x" for x
    using p r by (auto simp: point_defs z)
  have wt: "waiting (y_q z, y_s z) ps" using i(1) waiting_cong [of "y_q z" "y_q y" ps "y_s z" "y_s y"] z by simp
  have "ps \<noteq> [] \<Longrightarrow> hd ps \<noteq> p" using i(2) nq by (metis hd_in_set mem_Collect_eq)
  then show ?thesis using wt i p by (intro rw_invI) (auto simp: zs z split: if_split_asm)
qed

lemma rw_env:
  assumes inv: "rw_inv y ps" and p: "y_at y p \<notin> {Wait_R, Wait_W}"
    and z: "y_q z = y_q y" "y_at z = y_at y" "\<And>x. x \<noteq> p \<Longrightarrow> p_state (y_s z) x = p_state (y_s y) x \<and> p_qnext (y_s z) x = p_qnext (y_s y) x"
  shows "rw_inv z ps"
proof -
  note i = rw_invD [OF inv]
  have st: "p_state (y_s z) x = p_state (y_s y) x" if "y_at y x = Wait_R \<or> y_at y x = Wait_W" for x
    using z(3) [of x] p that by auto
  have zs: "readers z = readers y" "writers z = writers y" "queued z x = queued y x" for x
    using st by (auto simp: point_defs z(2))
  have "p \<notin> set ps" using i(2) p by (auto simp: queued_def)
  then have wt: "waiting (y_q z, y_s z) ps"
    using i(1) waiting_cong [of "y_q z" "y_q y" ps "y_s z" "y_s y"] z(1,3) by (metis)
  show ?thesis using wt i st by (intro rw_invI) (auto simp: zs z(1,2) split: if_split_asm)
qed

text \<open>The two releases: they return, and hand the lock to the first waiter when it falls free.\<close>

lemma runlock_inv:
  assumes inv: "rw_inv y ps" and p: "y_at y p = Has_R"
  shows "\<exists>q s ps'. runlock (y_q y, y_s y) = Some (q, s) \<and>
    rw_inv \<lparr>y_q = q, y_s = s, y_at = (y_at y)(p := Outside)\<rparr> ps' \<and>
    (ps' = ps \<and> (ps = [] \<or> 1 < rw_readers (y_q y)) \<or> (\<exists>a. ps = a # ps' \<and> p_state s a = Ready))"
proof -
  note i = rw_invD [OF inv]
  have pr: "p \<in> readers y" using p by (simp add: readers_def)
  then have nw: "\<not> rw_writer (y_q y)" and c: "1 \<le> rw_readers (y_q y)"
    using i(3,4,5) card_gt_0_iff [of "readers y"] by auto
  let ?q = "(y_q y)\<lparr>rw_readers := rw_readers (y_q y) - 1\<rparr>"
  show ?thesis
  proof (cases "ps = [] \<or> 1 < rw_readers (y_q y)")
    case True
    then have "runlock (y_q y, y_s y) = Some (?q, y_s y)"
      using waiting_head [OF i(1)] by (auto simp: runlock_def Let_def)
    moreover have "rw_inv \<lparr>y_q = ?q, y_s = y_s y, y_at = (y_at y)(p := Outside)\<rparr> ps"
      by (rule rw_drop [OF inv, of p]) (use p True nw in auto)
    ultimately show ?thesis using True by blast
  next
    case False
    then obtain a ps' where ps: "ps = a # ps'" and one: "rw_readers (y_q y) = 1" using c by (cases ps) auto
    have "readers y \<noteq> {}" using pr by blast
    then have aw: "y_at y a = Wait_W" using i(8) ps by simp
    have "queued y a" using i(2) ps by auto
    then have as: "p_state (y_s y) a = QueueingW" using aw by (simp add: queued_def)
    have h: "q_head (y_q y) = Some a" using i(1) ps by (simp add: waiting_def)
    have "waiting (?q, y_s y) (a # ps')" using i(1) ps by (simp add: waiting_def)
    from deq_waiting [OF this] obtain hd' tl' where d: "deq (?q, y_s y) = Some (a, ?q\<lparr>q_head := hd', q_tail := tl'\<rparr>, y_s y)"
      "waiting (?q\<lparr>q_head := hd', q_tail := tl'\<rparr>, y_s y) ps'" by blast
    let ?r = "?q\<lparr>q_head := hd', q_tail := tl', rw_writer := True\<rparr>"
    have "runlock (y_q y, y_s y) = Some (?r, ready a (y_s y))"
      using one h as d by (simp add: runlock_def Let_def)
    moreover have "card (readers y) = 1" using i(4) one by simp
    then have "readers y = {p}" using pr by (metis card_1_singletonE singletonD)
    then have alone: "readers y \<union> writers y = {p}" using i(6) nw by simp
    moreover have "rw_inv \<lparr>y_q = ?r, y_s = ready a (y_s y), y_at = (y_at y)(p := Outside)\<rparr> ps'"
      by (rule rw_pass_writer [OF inv [unfolded ps] aw _ alone]) (use p one d(2) in \<open>simp_all add: waiting_def\<close>)
    ultimately show ?thesis using ps by (auto simp: ready_def)
  qed
qed

lemma wunlock_inv:
  assumes inv: "rw_inv y ps" and p: "y_at y p = Has_W"
  shows "\<exists>q s ps'. wunlock (y_q y, y_s y) = Some (q, s) \<and>
    rw_inv \<lparr>y_q = q, y_s = s, y_at = (y_at y)(p := Outside)\<rparr> ps' \<and>
    (ps = [] \<or> (\<exists>a as. ps = a # as @ ps' \<and> (\<forall>x \<in> set (a # as). p_state s x = Ready)))"
proof -
  note i = rw_invD [OF inv]
  have pw: "p \<in> writers y" using p by (simp add: writers_def)
  then have w: "rw_writer (y_q y)" using i(6) by blast
  then have alone: "writers y = {p}" "readers y = {}" using i(5) pw by auto
  then have n0: "rw_readers (y_q y) = 0" using i(4) by simp
  show ?thesis
  proof (cases ps)
    case Nil
    then have "wunlock (y_q y, y_s y) = Some ((y_q y)\<lparr>rw_writer := False\<rparr>, y_s y)"
      using waiting_head [OF i(1)] by (simp add: wunlock_def)
    moreover have "rw_inv \<lparr>y_q = (y_q y)\<lparr>rw_writer := False\<rparr>, y_s = y_s y, y_at = (y_at y)(p := Outside)\<rparr> ps"
      by (rule rw_drop [OF inv, of p]) (use p Nil in auto)
    ultimately show ?thesis using Nil by blast
  next
    case (Cons a ps1)
    have h: "q_head (y_q y) = Some a" using i(1) Cons by (simp add: waiting_def)
    have "queued y a" using i(2) Cons by auto
    then consider "y_at y a = Wait_W" "p_state (y_s y) a = QueueingW" | "p_state (y_s y) a = QueueingR"
      by (auto simp: queued_def)
    then show ?thesis
    proof cases
      case 1
      have "waiting (y_q y, y_s y) (a # ps1)" using i(1) Cons by simp
      from deq_waiting [OF this] obtain hd' tl' where
        d: "deq (y_q y, y_s y) = Some (a, (y_q y)\<lparr>q_head := hd', q_tail := tl'\<rparr>, y_s y)"
        "waiting ((y_q y)\<lparr>q_head := hd', q_tail := tl'\<rparr>, y_s y) ps1" by blast
      let ?r = "(y_q y)\<lparr>q_head := hd', q_tail := tl'\<rparr>"
      have "wunlock (y_q y, y_s y) = Some (?r, ready a (y_s y))" using h 1 d by (simp add: wunlock_def)
      moreover have "rw_inv \<lparr>y_q = ?r, y_s = ready a (y_s y), y_at = (y_at y)(p := Outside)\<rparr> ps1"
        by (rule rw_pass_writer [OF inv [unfolded Cons] 1(1)]) (use p alone n0 w d(2) in simp_all)
      ultimately show ?thesis using Cons by (auto simp: ready_def)
    next
      case 2
      let ?rs = "takeWhile (\<lambda>p. p_state (y_s y) p = QueueingR) ps" and ?ws = "dropWhile (\<lambda>p. p_state (y_s y) p = QueueingR) ps"
      from wake_readers_waiting [OF i(1)] obtain q' s' where q': "wake_readers (y_q y) (y_s y) = Some (q', s')"
        "rw_readers q' = rw_readers (y_q y) + int (length ?rs)"
        "waiting ((if q_head q' = None then q'\<lparr>q_tail := None\<rparr> else q')\<lparr>rw_writer := False\<rparr>, s') ?ws"
        "p_state s' = (\<lambda>p. if p \<in> set ?rs then Ready else p_state (y_s y) p)" by blast
      let ?q = "(if q_head q' = None then q'\<lparr>q_tail := None\<rparr> else q')\<lparr>rw_writer := False\<rparr>"
      have "wunlock (y_q y, y_s y) = Some (?q, s')" using h 2 q'(1) by (simp add: wunlock_def Let_def)
      moreover have ne: "?rs = a # takeWhile (\<lambda>p. p_state (y_s y) p = QueueingR) ps1" using 2 Cons by simp
      moreover have "rw_inv \<lparr>y_q = ?q, y_s = s', y_at = (y_at y)(p := Outside)\<rparr> ?ws"
        by (rule rw_pass_readers [OF inv p alone, of ?rs ?ws]) (use q' n0 ne in \<open>simp_all add: Cons 2\<close>)
      moreover have "ps = a # takeWhile (\<lambda>p. p_state (y_s y) p = QueueingR) ps1 @ ?ws"
        using takeWhile_dropWhile_id [of "\<lambda>p. p_state (y_s y) p = QueueingR" ps] unfolding ne by simp
      moreover have "\<forall>x \<in> set (a # takeWhile (\<lambda>p. p_state (y_s y) p = QueueingR) ps1). p_state s' x = Ready"
        unfolding ne [symmetric] by (simp add: q'(4))
      ultimately show ?thesis by blast
    qed
  qed
qed

lemma runlock_hands:
  assumes inv: "rw_inv y ps" and p: "y_at y p = Has_R"
  shows "\<exists>q s. runlock (y_q y, y_s y) = Some (q, s) \<and>
    (ps = [] \<or> 1 < rw_readers (y_q y) \<or> waiting (q, s) (tl ps) \<and> p_state s (hd ps) = Ready)"
proof -
  obtain q s ps' where r: "runlock (y_q y, y_s y) = Some (q, s)"
    "rw_inv \<lparr>y_q = q, y_s = s, y_at = (y_at y)(p := Outside)\<rparr> ps'"
    "ps' = ps \<and> (ps = [] \<or> 1 < rw_readers (y_q y)) \<or> (\<exists>a. ps = a # ps' \<and> p_state s a = Ready)"
    using runlock_inv [OF inv p] by blast
  have "waiting (q, s) ps'" using rw_invD(1) [OF r(2)] by simp
  then show ?thesis using r(1,3) by auto
qed

lemma wunlock_hands:
  assumes inv: "rw_inv y ps" and p: "y_at y p = Has_W"
  shows "\<exists>q s as ps'. wunlock (y_q y, y_s y) = Some (q, s) \<and> ps = as @ ps' \<and>
    waiting (q, s) ps' \<and> (\<forall>x \<in> set as. p_state s x = Ready) \<and> (ps = [] \<or> as \<noteq> [])"
proof -
  obtain q s ps' where w: "wunlock (y_q y, y_s y) = Some (q, s)"
    "rw_inv \<lparr>y_q = q, y_s = s, y_at = (y_at y)(p := Outside)\<rparr> ps'"
    "ps = [] \<or> (\<exists>a as. ps = a # as @ ps' \<and> (\<forall>x \<in> set (a # as). p_state s x = Ready))"
    using wunlock_inv [OF inv p] by blast
  have wt: "waiting (q, s) ps'" using rw_invD(1) [OF w(2)] by simp
  show ?thesis
  proof (cases "ps = []")
    case True
    have h: "waiting (y_q y, y_s y) []" using rw_invD(1) [OF inv] True by simp
    then have "wunlock (y_q y, y_s y) = Some ((y_q y)\<lparr>rw_writer := False\<rparr>, y_s y)"
      using waiting_head [OF h] by (simp add: wunlock_def)
    then have "waiting (q, s) []" using w(1) h by (auto simp: waiting_def)
    then show ?thesis using w(1) True by (intro exI [of _ q] exI [of _ s] exI [of _ "[]"]) simp
  next
    case False
    then obtain a as where "ps = (a # as) @ ps'" "\<forall>x \<in> set (a # as). p_state s x = Ready" using w(3) by auto
    then show ?thesis using w(1) wt by blast
  qed
qed

lemma rwstep_inv:
  assumes "rwstep y z" "rw_inv y ps"
  shows "\<exists>ps'. rw_inv z ps'"
  using assms
proof (cases rule: rwstep.cases)
  case (rlock p r q s)
  show ?thesis
  proof (cases "\<not> rw_writer (y_q y) \<and> q_head (y_q y) = None")
    case True
    then have "rw_inv z []" using rlock by (intro rw_read [OF assms(2), of p]) (auto simp: rlock_def)
    then show ?thesis by blast
  next
    case False
    then have "ps \<noteq> [] \<or> rw_writer (y_q y)" using waiting_head [OF rw_invD(1) [OF assms(2)]] by auto
    then have "rw_inv z (ps @ [p])" using rlock False
      by (intro rw_join [OF assms(2), of p QueueingR Wait_R]) (auto simp: rlock_def)
    then show ?thesis by blast
  qed
next
  case (wlock p pc r q s)
  show ?thesis
  proof (cases "rw_readers (y_q y) = 0 \<and> \<not> rw_writer (y_q y)")
    case True
    then have "rw_inv z []" using wlock by (intro rw_write [OF assms(2), of p]) (auto simp: wlock_def)
    then show ?thesis by blast
  next
    case False
    then have "rw_writer (y_q y) \<or> readers y \<noteq> {}" using rw_invD(4) [OF assms(2)] by auto
    then have "rw_inv z (ps @ [p])" using wlock False
      by (intro rw_join [OF assms(2), of p QueueingW Wait_W]) (auto simp: wlock_def split: if_splits)
    then show ?thesis by blast
  qed
next
  case (canrlock p b q)
  show ?thesis
  proof (cases "\<not> rw_writer (y_q y) \<and> q_head (y_q y) = None")
    case True
    then have "rw_inv z []" using canrlock by (intro rw_read [OF assms(2), of p]) (auto simp: canrlock_def)
    then show ?thesis by blast
  next
    case False
    then have "z = y" using canrlock by (auto simp: canrlock_def fun_upd_idem)
    then show ?thesis using assms(2) by blast
  qed
next
  case (run_r p)
  then have "rw_inv z ps" by (intro rw_run [OF assms(2), of p Has_R]) auto
  then show ?thesis by blast
next
  case (run_w p)
  then have "rw_inv z ps" by (intro rw_run [OF assms(2), of p Has_W]) auto
  then show ?thesis by blast
next
  case (runlock p q s)
  then show ?thesis using runlock_inv [OF assms(2), of p] by auto
next
  case (wunlock p q s)
  then show ?thesis using wunlock_inv [OF assms(2), of p] by auto
next
  case (env p st nx)
  then have "rw_inv z ps" by (intro rw_env [OF assms(2), of p]) auto
  then show ?thesis by blast
qed

lemma rwreach_inv: "rwreach y \<Longrightarrow> \<exists>ps. rw_inv y ps"
proof (induction rule: rwreach.induct)
  case (start y)
  then have "rw_inv y []" by (intro rw_invI) (auto simp: waiting_def point_defs)
  then show ?case by blast
next
  case (step y z)
  then show ?case using rwstep_inv by blast
qed

subsection \<open>Processes using a QLock\<close>
















section \<open>What the locks do\<close>

definition ex_procs :: procs where
  "ex_procs = \<lparr>p_state = (\<lambda>p. Running), p_qnext = (\<lambda>p. None), p_qpc = (\<lambda>p. 0)\<rparr>"






definition ex_rw :: rwsys where
  "ex_rw = \<lparr>y_q = \<lparr>q_head = None, q_tail = None, rw_wpc = 7, rw_wproc = Some 3, rw_readers = 0, rw_writer = True\<rparr>,
     y_s = ex_procs, y_at = (\<lambda>p. Outside)(3 := Has_W)\<rparr>"

lemma ex_rw: "rwreach ex_rw"
proof -
  let ?y = "\<lparr>y_q = \<lparr>q_head = None, q_tail = None, rw_wpc = 0, rw_wproc = None, rw_readers = 0, rw_writer = False\<rparr>,
     y_s = ex_procs, y_at = (\<lambda>p. Outside)\<rparr>"
  have "rwreach ?y" by (rule rwreach.start) simp_all
  moreover have "rwstep ?y ex_rw"
    using rwstep.wlock [of ?y 3 7 Got "y_q ex_rw" ex_procs] by (simp add: ex_rw_def wlock_def)
  ultimately show ?thesis by (rule rwreach.step)
qed

text \<open>
  C36. A writer that has a RWlock excludes everybody else, readers and writers, also those that
  have been made ready and have not run yet, and the two counters of the lock are exact.
\<close>

theorem rwlock_excludes:
  assumes "rwreach y"
  shows "(\<forall>p x. p \<in> writers y \<longrightarrow> x \<in> readers y \<or> x \<in> writers y \<longrightarrow> x = p) \<and>
    rw_readers (y_q y) = int (card (readers y)) \<and> (rw_writer (y_q y) \<longleftrightarrow> writers y \<noteq> {})"
proof -
  obtain ps where inv: "rw_inv y ps" using rwreach_inv [OF assms] by blast
  note i = rw_invD [OF inv]
  show ?thesis
  proof (cases "rw_writer (y_q y)")
    case True
    then obtain w where "writers y = {w}" "readers y = {}" using i(5) by blast
    then show ?thesis using True i(4) by auto
  qed (use i(4,6) in auto)
qed

lemma rwlock_excludes_witness: "rwreach ex_rw \<and> rw_readers (y_q ex_rw) = int (card (readers ex_rw)) \<and> 3 \<in> writers ex_rw"
proof (intro conjI)
  show "rwreach ex_rw" by (rule ex_rw)
  show "rw_readers (y_q ex_rw) = int (card (readers ex_rw))"
    by (rule rwlock_excludes [OF ex_rw, THEN conjunct2, THEN conjunct1])
  show "3 \<in> writers ex_rw" by (simp add: ex_rw_def writers_def)
qed

text \<open>
  C37. Nobody waits for a RWlock that nobody has. Giving it up never panics and always returns
  (the loop that wakes the readers ends), the waiters are given the lock from the front of the
  queue only, and when the lock falls free with somebody waiting, the first waiter is made ready.
\<close>

theorem rwlock_hands_over:
  assumes "rwreach y"
  shows "\<exists>ps. waiting (y_q y, y_s y) ps \<and> set ps = {p. queued y p} \<and>
    (ps = [] \<or> (\<exists>p. p \<in> readers y \<or> p \<in> writers y)) \<and>
    (\<forall>p. y_at y p = Has_R \<longrightarrow> (\<exists>q s. runlock (y_q y, y_s y) = Some (q, s) \<and>
       (ps = [] \<or> 1 < rw_readers (y_q y) \<or> waiting (q, s) (tl ps) \<and> p_state s (hd ps) = Ready))) \<and>
    (\<forall>p. y_at y p = Has_W \<longrightarrow> (\<exists>q s as ps'. wunlock (y_q y, y_s y) = Some (q, s) \<and> ps = as @ ps' \<and>
       waiting (q, s) ps' \<and> (\<forall>x \<in> set as. p_state s x = Ready) \<and> (ps = [] \<or> as \<noteq> [])))"
proof -
  obtain ps where inv: "rw_inv y ps" using rwreach_inv [OF assms] by blast
  note i = rw_invD [OF inv]
  have "ps = [] \<or> (\<exists>p. p \<in> readers y \<or> p \<in> writers y)" using i(5,7) by blast
  note held = this
  show ?thesis
  proof (rule exI [of _ ps], intro conjI)
    show "waiting (y_q y, y_s y) ps" by (rule i(1))
    show "set ps = {p. queued y p}" by (rule i(2))
    show "ps = [] \<or> (\<exists>p. p \<in> readers y \<or> p \<in> writers y)" by (rule held)
  qed (intro allI impI, erule runlock_hands [OF inv] wunlock_hands [OF inv])+
qed

lemma rwlock_hands_over_witness: "\<exists>q s. wunlock (y_q ex_rw, y_s ex_rw) = Some (q, s) \<and> rwreach ex_rw"
proof -
  have "y_at ex_rw 3 = Has_W" by (simp add: ex_rw_def)
  then show ?thesis using rwlock_hands_over [OF ex_rw] ex_rw by blast
qed

end
