(* ===== verification/Sems.thy ===== *)
theory Sems
  imports Qlocks
begin

text \<open>
  The NIX semaphores (\<open>port/syssem.c\<close>, and \<open>libc/9sys/upsem.c\<close> that does the same outside the kernel).
  A semaphore is an integer that processes add to and take from atomically, in user space; a process
  that takes it below zero goes to the kernel to sleep, one that leaves it at zero or below goes there
  to wake a sleeper. \<open>np\<close> is the integer, \<open>sq\<close> the array of the sleeping processes. An atomic
  operation on the integer, and what the lock of the semaphore protects, is one function here; the
  system at the end interleaves them. A semaphore is named by a number, for \<open>waitsem\<close>.
\<close>

subsection \<open>Critical sections\<close>

type_synonym semid = nat

record sem =
  np :: int
  sq :: "proc list"

record semprocs = procs +
  waitsem :: "proc \<Rightarrow> semid option"

text \<open>\<open>s->nq--; s->q[i] = s->q[s->nq]\<close>\<close>

definition take_out :: "nat \<Rightarrow> proc list \<Rightarrow> proc list" where
  "take_out i q = (butlast q)[i := last q]"

definition semainc :: "sem \<Rightarrow> int \<times> sem" where
  "semainc s = (np s + 1, s\<lparr>np := np s + 1\<rparr>)"

definition semadec :: "sem \<Rightarrow> int \<times> sem" where
  "semadec s = (np s - 1, s\<lparr>np := np s - 1\<rparr>)"

text \<open>One round of the loop of \<open>semwakeup\<close>, and the loop.\<close>

definition semwake1 :: "proc \<Rightarrow> semid \<Rightarrow> bool \<Rightarrow> proc \<Rightarrow> sem \<times> semprocs \<Rightarrow> sem \<times> semprocs" where
  "semwake1 up k didwake p = (\<lambda>(s, ps).
     let s = s\<lparr>sq := take_out 0 (sq s)\<rparr> in
     if didwake then
       let ps = ps\<lparr>waitsem := (waitsem ps)(p := Some k)\<rparr> in
       (s, if p \<noteq> up then ready p ps else ps)
     else (s, ps))"

function semwakeup :: "proc \<Rightarrow> semid \<Rightarrow> bool \<Rightarrow> sem \<times> semprocs \<Rightarrow> sem \<times> semprocs" where
  "semwakeup up k didwake z =
     (if sq (fst z) \<noteq> [] \<and> int (length (sq (fst z))) > - np (fst z)
      then semwakeup up k didwake (semwake1 up k didwake (sq (fst z) ! 0) z) else z)"
  by pat_completeness auto
termination
  by (relation "measure (\<lambda>(_, _, _, z). length (sq (fst z)))")
    (auto simp: semwake1_def take_out_def Let_def split: prod.splits)

declare semwakeup.simps [simp del]

text \<open>
  \<open>semsleep\<close>: the section that joins the sleepers, or finds that a ticket came (\<^term>\<open>False\<close>), and
  what comes after \<open>Done\<close>.
\<close>

definition semsleep_join :: "proc \<Rightarrow> sem \<times> semprocs \<Rightarrow> bool \<times> sem \<times> semprocs" where
  "semsleep_join up = (\<lambda>(s, ps).
     if np s \<ge> 0 then (False, s, ps)
     else (True, s\<lparr>sq := sq s @ [up]\<rparr>, ps\<lparr>waitsem := (waitsem ps)(up := None), p_state := (p_state ps)(up := Semdown)\<rparr>))"

definition semsleep_done :: "proc \<Rightarrow> semid \<Rightarrow> sem \<times> semprocs \<Rightarrow> sem \<times> semprocs" where
  "semsleep_done up k = (\<lambda>(s, ps).
     if waitsem ps up = None then semwakeup up k True (snd (semainc s), ps) else (s, ps))"

text \<open>\<open>semdequeue\<close>, and \<open>semalt\<close> up to \<open>sched\<close> and from \<open>Done\<close> on.\<close>

definition semdequeue :: "proc \<Rightarrow> semid \<Rightarrow> sem \<times> semprocs \<Rightarrow> sem \<times> semprocs" where
  "semdequeue up k = (\<lambda>(s, ps).
     let i = length (takeWhile (\<lambda>p. p \<noteq> up) (sq s)) in
     if i = length (sq s) then semwakeup up k False (snd (semainc s), ps)
     else (s\<lparr>sq := take_out i (sq s)\<rparr>, ps))"

function semalt_enter ::
    "proc \<Rightarrow> semid list \<Rightarrow> nat \<Rightarrow> int \<Rightarrow> (semid \<Rightarrow> sem) \<Rightarrow> (int \<times> nat \<times> (semid \<Rightarrow> sem)) option" where
  "semalt_enter up ss i n st =
     (if int i < n then
        (if i < length ss then
           let k = ss ! i; (n, s) = semadec (st k) in
           if n \<ge> 0 then Some (int i, i, st(k := s))
           else semalt_enter up ss (i + 1) n (st(k := s\<lparr>sq := sq s @ [up]\<rparr>))
         else None)
      else Some (-1, i, st))"
  by pat_completeness auto
termination by (relation "measure (\<lambda>(_, ss, i, _, _). length ss - i)") auto

declare semalt_enter.simps [simp del]

fun semalt_leave :: "proc \<Rightarrow> semid list \<Rightarrow> nat \<Rightarrow> int \<Rightarrow> (semid \<Rightarrow> sem) \<times> semprocs \<Rightarrow> int \<times> (semid \<Rightarrow> sem) \<times> semprocs" where
  "semalt_leave up [] j r z = (r, z)"
| "semalt_leave up (k # ss) j r (st, ps) =
     (if waitsem ps up \<noteq> Some k
      then (case semdequeue up k (st k, ps) of (s, ps) \<Rightarrow> semalt_leave up ss (j + 1) r (st(k := s), ps))
      else semalt_leave up ss (j + 1) (int j) (st, ps))"

definition semalt_done :: "proc \<Rightarrow> semid list \<Rightarrow> nat \<Rightarrow> int \<Rightarrow> (semid \<Rightarrow> sem) \<times> semprocs \<Rightarrow> (int \<times> (semid \<Rightarrow> sem) \<times> semprocs) option" where
  "semalt_done up ss i r z = (case semalt_leave up (take i ss) 0 r z of (r, z) \<Rightarrow> if r < 0 then None else Some (r, z))"

subsection \<open>Processes using a semaphore\<close>

text \<open>
  Where a process is: in \<open>downsem\<close> after it took the integer below zero (\<open>Going\<close>), asleep, after
  \<open>Done\<close> (\<open>Back\<close>), holding a ticket; in a \<open>downsem\<close> that must not block, before and after it gave
  back what it took; in \<open>upsem\<close>, on its way to \<open>semwakeup\<close>; killed in its sleep.
\<close>

datatype spoint = Out | Going | Asleep | Back | Holds | Undo | Unwake | Up | Killed | Gone

text \<open>What a run may contain besides the plain use.\<close>

datatype allowed = A_nonblock | A_fresh | A_kill

record ssys =
  s_sem :: "sem \<times> semprocs"
  s_at :: "proc \<Rightarrow> spoint"

text \<open>
  A process is fresh when it has never been woken by a semaphore, so that \<open>waitsem\<close> is nil. The test
  of the integer that \<open>downsem\<close> makes first is not part of a step: its result may be out of date when the
  integer is decremented.
\<close>

inductive sstep :: "allowed set \<Rightarrow> semid \<Rightarrow> ssys \<Rightarrow> ssys \<Rightarrow> bool" for A k where
  down: "s_at y p = Out \<Longrightarrow> s_sem y = (s, ps) \<Longrightarrow> semadec s = (n, s') \<Longrightarrow>
    sstep A k y (y\<lparr>s_sem := (s', ps), s_at := (s_at y)(p := if n < 0 then Going else Holds)\<rparr>)"
| down_nonblock: "A_nonblock \<in> A \<Longrightarrow> s_at y p = Out \<Longrightarrow> s_sem y = (s, ps) \<Longrightarrow> semadec s = (n, s') \<Longrightarrow>
    sstep A k y (y\<lparr>s_sem := (s', ps), s_at := (s_at y)(p := if n < 0 then Undo else Holds)\<rparr>)"
| gives_back: "s_at y p = Undo \<Longrightarrow> s_sem y = (s, ps) \<Longrightarrow> semainc s = (n, s') \<Longrightarrow>
    sstep A k y (y\<lparr>s_sem := (s', ps), s_at := (s_at y)(p := Unwake)\<rparr>)"
| wakes_again: "s_at y p = Unwake \<Longrightarrow>
    sstep A k y (y\<lparr>s_sem := semwakeup p k True (s_sem y), s_at := (s_at y)(p := Holds)\<rparr>)"
| falls_asleep: "s_at y p = Going \<Longrightarrow> semsleep_join p (s_sem y) = (True, z) \<Longrightarrow>
    sstep A k y (y\<lparr>s_sem := z, s_at := (s_at y)(p := Asleep)\<rparr>)"
| came: "s_at y p = Going \<Longrightarrow> semsleep_join p (s_sem y) = (False, z) \<Longrightarrow> A_fresh \<in> A \<or> waitsem (snd z) p \<noteq> None \<Longrightarrow>
    sstep A k y (y\<lparr>s_sem := z, s_at := (s_at y)(p := Back)\<rparr>)"
| runs: "s_at y p = Asleep \<Longrightarrow> p_state (snd (s_sem y)) p = Ready \<Longrightarrow> sstep A k y (y\<lparr>s_at := (s_at y)(p := Back)\<rparr>)"
| killed: "A_kill \<in> A \<Longrightarrow> s_at y p = Asleep \<Longrightarrow> s_sem y = (s, ps) \<Longrightarrow> p_state ps p = Semdown \<Longrightarrow>
    sstep A k y (y\<lparr>s_sem := (s, ready p ps), s_at := (s_at y)(p := Killed)\<rparr>)"
| returns: "s_at y p = Back \<Longrightarrow>
    sstep A k y (y\<lparr>s_sem := semsleep_done p k (s_sem y), s_at := (s_at y)(p := Holds)\<rparr>)"
| dies: "s_at y p = Killed \<Longrightarrow>
    sstep A k y (y\<lparr>s_sem := semsleep_done p k (s_sem y), s_at := (s_at y)(p := Gone)\<rparr>)"
| up: "s_at y p = Holds \<Longrightarrow> s_sem y = (s, ps) \<Longrightarrow> semainc s = (n, s') \<Longrightarrow>
    sstep A k y (y\<lparr>s_sem := (s', ps), s_at := (s_at y)(p := if n \<le> 0 then Up else Out)\<rparr>)"
| wakes: "s_at y p = Up \<Longrightarrow>
    sstep A k y (y\<lparr>s_sem := semwakeup p k True (s_sem y), s_at := (s_at y)(p := Out)\<rparr>)"

inductive sreach :: "allowed set \<Rightarrow> semid \<Rightarrow> nat \<Rightarrow> ssys \<Rightarrow> bool" for A k K where
  start: "s_sem y = (\<lparr>np = int K, sq = []\<rparr>, ps) \<Longrightarrow> s_at y = (\<lambda>p. Out) \<Longrightarrow> sreach A k K y"
| step: "sreach A k K y \<Longrightarrow> sstep A k y z \<Longrightarrow> sreach A k K z"

subsection \<open>The tickets\<close>

text \<open>The processes that have a ticket or will have one when they run, and those on their way to sleep.\<close>

definition ticketed :: "(proc \<Rightarrow> spoint) \<Rightarrow> semprocs \<Rightarrow> proc set" where
  "ticketed at ps = {p. at p = Holds \<or> at p = Back \<or> at p = Asleep \<and> p_state ps p \<noteq> Semdown}"

definition going :: "(proc \<Rightarrow> spoint) \<Rightarrow> proc set" where
  "going at = {p. at p = Going}"

definition sinv :: "nat \<Rightarrow> (proc \<Rightarrow> spoint) \<Rightarrow> sem \<times> semprocs \<Rightarrow> bool" where
  "sinv K at = (\<lambda>(s, ps).
     finite {p. at p \<noteq> Out} \<and> (\<forall>p. at p \<in> {Out, Going, Asleep, Back, Holds, Up}) \<and>
     distinct (sq s) \<and> set (sq s) = {p. at p = Asleep \<and> p_state ps p = Semdown} \<and>
     (\<forall>p. at p = Asleep \<longrightarrow> p_state ps p = Semdown \<or> p_state ps p = Ready \<and> waitsem ps p \<noteq> None) \<and>
     (\<forall>p. at p = Back \<longrightarrow> waitsem ps p \<noteq> None) \<and>
     np s = int K - int (card (ticketed at ps)) - int (card (going at)) - int (length (sq s)) \<and> card (ticketed at ps) \<le> K)"

lemma sinvD:
  assumes "sinv K at (s, ps)"
  shows "finite (ticketed at ps)" "finite (going at)" "at p \<in> {Out, Going, Asleep, Back, Holds, Up}" "distinct (sq s)"
    "p \<in> set (sq s) \<longleftrightarrow> at p = Asleep \<and> p_state ps p = Semdown"
    "at p = Asleep \<Longrightarrow> p_state ps p = Semdown \<or> p_state ps p = Ready \<and> waitsem ps p \<noteq> None"
    "at p = Back \<Longrightarrow> waitsem ps p \<noteq> None"
    "np s = int K - int (card (ticketed at ps)) - int (card (going at)) - int (length (sq s))" "card (ticketed at ps) \<le> K"
    "finite {p. at p \<noteq> Out}"
proof -
  have fin: "finite {p. at p \<noteq> Out}" using assms by (simp add: sinv_def)
  show "finite (ticketed at ps)" "finite (going at)" by (rule finite_subset [OF _ fin]; auto simp: ticketed_def going_def)+
  show "finite {p. at p \<noteq> Out}" by (rule fin)
qed (use assms in \<open>auto simp: sinv_def\<close>)

lemma take_out_0: "take_out 0 (p # q) = (if q = [] then [] else last q # butlast q)"
  by (cases q rule: rev_cases) (auto simp: take_out_def)

lemma set_take_out_0:
  assumes "distinct (p # q)"
  shows "distinct (take_out 0 (p # q))" "set (take_out 0 (p # q)) = set q" "length (take_out 0 (p # q)) = length q"
  using assms by (cases q rule: rev_cases; auto simp: take_out_0)+

text \<open>A sleeper that is taken off the array with a ticket left for it.\<close>

lemma semwake1_inv:
  assumes inv: "sinv K at (s, ps)" and q: "sq s = p # r" and left: "int (length (sq s)) > - np s" and up: "at up \<noteq> Asleep"
  shows "sinv K at (semwake1 up k True p (s, ps))"
proof -
  note i = sinvD [OF inv]
  have p: "at p = Asleep" "p_state ps p = Semdown" using i(5) [of p] q by simp_all
  then have pu: "p \<noteq> up" using up by auto
  let ?ps = "ready p (ps\<lparr>waitsem := (waitsem ps)(p := Some k)\<rparr>)"
  note t = set_take_out_0 [of p r]
  have d: "distinct (p # r)" using i(4) q by simp
  have own: "ticketed at ?ps = insert p (ticketed at ps)" using p(1) by (auto simp: ticketed_def ready_def)
  have new: "p \<notin> ticketed at ps" using p by (simp add: ticketed_def)
  have "card (ticketed at ?ps) = Suc (card (ticketed at ps))" unfolding own using new i(1) by simp
  moreover have "int (card (ticketed at ps)) + int (card (going at)) < int K" using left i(8) by simp
  moreover have "set (take_out 0 (sq s)) = {p. at p = Asleep \<and> p_state ?ps p = Semdown}"
    using d i(5) unfolding q t(2) [OF d] by (force simp: q ready_def)
  moreover have "at u = Asleep \<longrightarrow> p_state ?ps u = Semdown \<or> p_state ?ps u = Ready \<and> waitsem ?ps u \<noteq> None" for u
    using i(6) [of u] by (auto simp: ready_def)
  moreover have "at u = Back \<longrightarrow> waitsem ?ps u \<noteq> None" for u using i(7) [of u] by (auto simp: ready_def)
  ultimately have "sinv K at (s\<lparr>sq := take_out 0 (sq s)\<rparr>, ?ps)"
    using i(3,8,10) t(1,3) [OF d] q unfolding sinv_def by simp
  then show ?thesis using pu by (simp add: semwake1_def)
qed

lemma semwakeup_inv: "sinv K at z \<Longrightarrow> at up \<noteq> Asleep \<Longrightarrow> sinv K at (semwakeup up k True z)"
proof (induction up k True z rule: semwakeup.induct)
  case (1 up k z)
  show ?case
  proof (cases "sq (fst z) \<noteq> [] \<and> int (length (sq (fst z))) > - np (fst z)")
    case True
    obtain s ps p r where z: "z = (s, ps)" "sq s = p # r" using True by (cases z; cases "sq (fst z)") auto
    have "sinv K at (semwake1 up k True (sq (fst z) ! 0) z)" using semwake1_inv [of K at s ps p r up k] "1.prems" z True by simp
    then show ?thesis using "1.hyps" [OF True] "1.prems"(2) True by (subst semwakeup.simps) simp
  qed (use "1.prems" in \<open>subst semwakeup.simps, auto\<close>)
qed

lemma ticketed_upd: "ticketed (at(p := c)) ps =
    (if c = Holds \<or> c = Back \<or> c = Asleep \<and> p_state ps p \<noteq> Semdown then insert p (ticketed at ps) else ticketed at ps - {p})"
  by (auto simp: ticketed_def)

lemma going_upd: "going (at(p := c)) = (if c = Going then insert p (going at) else going at - {p})"
  by (auto simp: going_def)

lemma finite_upd: "finite {p. at p \<noteq> Out} \<Longrightarrow> finite {u. (at(p := c)) u \<noteq> Out}"
  by (rule finite_subset [of _ "insert p {p. at p \<noteq> Out}"]) auto

lemma card_del: "finite X \<Longrightarrow> x \<in> X \<Longrightarrow> int (card (X - {x})) = int (card X) - 1"
  using card_Diff_singleton [of x X] card_gt_0_iff [of X] by auto

text \<open>A process moves on, with the integer changed by \<open>d\<close>.\<close>

lemma sinv_move:
  assumes inv: "sinv K at (s, ps)" and c: "c \<in> {Out, Going, Back, Holds, Up}" and p: "at p \<noteq> Asleep \<or> p_state ps p \<noteq> Semdown"
    and bk: "c = Back \<Longrightarrow> waitsem ps p \<noteq> None"
    and np: "np s' = int K - int (card (ticketed (at(p := c)) ps)) - int (card (going (at(p := c)))) - int (length (sq s))"
    and sq: "sq s' = sq s" and le: "card (ticketed (at(p := c)) ps) \<le> K"
  shows "sinv K (at(p := c)) (s', ps)"
proof -
  note i = sinvD [OF inv]
  have "set (sq s) = {u. (at(p := c)) u = Asleep \<and> p_state ps u = Semdown}"
    using i(5) p c by (auto split: if_splits)
  moreover have "\<forall>u. (at(p := c)) u \<in> {Out, Going, Asleep, Back, Holds, Up}" using i(3) c by auto
  moreover have "\<forall>u. (at(p := c)) u = Asleep \<longrightarrow> p_state ps u = Semdown \<or> p_state ps u = Ready \<and> waitsem ps u \<noteq> None"
    using i(6) c by auto
  moreover have "\<forall>u. (at(p := c)) u = Back \<longrightarrow> waitsem ps u \<noteq> None" using i(7) bk by auto
  ultimately show ?thesis using np sq le i(4) finite_upd [OF i(10)] by (simp add: sinv_def del: fun_upd_apply)
qed

lemma sinv_points: "sinv K at z \<Longrightarrow> at p = Undo \<or> at p = Unwake \<or> at p = Killed \<Longrightarrow> False"
  using sinvD(3) [of K at "fst z" "snd z" p] by auto

lemma sstep_inv:
  assumes "sstep {} k y z" "sinv K (s_at y) (s_sem y)"
  shows "sinv K (s_at z) (s_sem z)"
  using assms
proof (induction rule: sstep.induct)
  case (down y p s ps n s')
  have inv: "sinv K (s_at y) (s, ps)" using down by simp
  note i = sinvD [OF inv]
  have s': "np s' = np s - 1" "sq s' = sq s" "n = np s - 1" using down.hyps(3) by (auto simp: semadec_def)
  have new: "p \<notin> ticketed (s_at y) ps" "p \<notin> going (s_at y)" using down.hyps(1) by (auto simp: ticketed_def going_def)
  have "sinv K ((s_at y)(p := if n < 0 then Going else Holds)) (s', ps)"
    using new i(1,2,8,9) s' down.hyps(1)
    by (intro sinv_move [OF inv]) (auto simp: ticketed_upd going_upd split: if_splits)
  then show ?case by (cases "n < 0") (simp_all add: fun_upd_def)
next
  case (falls_asleep y p z)
  obtain s ps where y: "s_sem y = (s, ps)" by (cases "s_sem y")
  have inv: "sinv K (s_at y) (s, ps)" using falls_asleep y by simp
  note i = sinvD [OF inv]
  let ?ps = "ps\<lparr>waitsem := (waitsem ps)(p := None), p_state := (p_state ps)(p := Semdown)\<rparr>"
  have z: "z = (s\<lparr>sq := sq s @ [p]\<rparr>, ?ps)" using falls_asleep.hyps(2) y by (auto simp: semsleep_join_def split: if_splits)
  let ?at = "(s_at y)(p := Asleep)"
  have own: "ticketed ?at ?ps = ticketed (s_at y) ps" using falls_asleep.hyps(1) by (auto simp: ticketed_def)
  have g: "p \<in> going (s_at y)" using falls_asleep.hyps(1) by (simp add: going_def)
  have "int (card (going ?at)) = int (card (going (s_at y))) - 1" using card_del [OF i(2) g] by (simp add: going_upd)
  moreover have "p \<notin> set (sq s)" using i(5) [of p] falls_asleep.hyps(1) by simp
  moreover have "set (sq s @ [p]) = {u. ?at u = Asleep \<and> p_state ?ps u = Semdown}" using i(5) by auto
  moreover have "\<forall>u. ?at u \<in> {Out, Going, Asleep, Back, Holds, Up}" using i(3) by auto
  moreover have "\<forall>u. ?at u = Asleep \<longrightarrow> p_state ?ps u = Semdown \<or> p_state ?ps u = Ready \<and> waitsem ?ps u \<noteq> None"
    using i(6) by auto
  moreover have "\<forall>u. ?at u = Back \<longrightarrow> waitsem ?ps u \<noteq> None" using i(7) by auto
  ultimately show ?case using i(4,8,9) own finite_upd [OF i(10)] by (simp add: sinv_def z del: fun_upd_apply)
next
  case (came y p z)
  obtain s ps where y: "s_sem y = (s, ps)" by (cases "s_sem y")
  have inv: "sinv K (s_at y) (s, ps)" using came y by simp
  note i = sinvD [OF inv]
  have z: "z = (s, ps)" "np s \<ge> 0" using came.hyps(2) y by (auto simp: semsleep_join_def split: if_splits)
  have g: "p \<in> going (s_at y)" "p \<notin> ticketed (s_at y) ps" using came.hyps(1) by (auto simp: ticketed_def going_def)
  note cg = card_del [OF i(2) g(1)]
  have "0 < card (going (s_at y))" using i(2) g(1) by (auto simp: card_gt_0_iff)
  then have "sinv K ((s_at y)(p := Back)) (s, ps)"
    using i(1,8) z(2) g cg came.hyps(1,3) z(1) by (intro sinv_move [OF inv]) (auto simp: ticketed_upd going_upd)
  then show ?case by (simp add: z fun_upd_def)
next
  case (runs y p)
  obtain s ps where y: "s_sem y = (s, ps)" by (cases "s_sem y")
  have inv: "sinv K (s_at y) (s, ps)" using runs y by simp
  note i = sinvD [OF inv]
  have "p \<in> ticketed (s_at y) ps" "p \<notin> going (s_at y)" using runs y by (auto simp: ticketed_def going_def)
  then have "sinv K ((s_at y)(p := Back)) (s, ps)"
    using i(6) [of p] i(8,9) runs.hyps y
    by (intro sinv_move [OF inv]) (auto simp: ticketed_upd going_upd insert_absorb)
  then show ?case using y by (simp add: fun_upd_def)
next
  case (returns y p)
  obtain s ps where y: "s_sem y = (s, ps)" by (cases "s_sem y")
  have inv: "sinv K (s_at y) (s, ps)" using returns y by simp
  note i = sinvD [OF inv]
  have d: "semsleep_done p k (s, ps) = (s, ps)" using i(7) [OF returns.hyps] by (auto simp: semsleep_done_def)
  have "p \<in> ticketed (s_at y) ps" "p \<notin> going (s_at y)" using returns.hyps by (auto simp: ticketed_def going_def)
  then have "sinv K ((s_at y)(p := Holds)) (s, ps)"
    using i(8,9) returns.hyps by (intro sinv_move [OF inv]) (auto simp: ticketed_upd going_upd insert_absorb)
  then show ?case using y d by (simp add: fun_upd_def)
next
  case (up y p s ps n s')
  have inv: "sinv K (s_at y) (s, ps)" using up by simp
  note i = sinvD [OF inv]
  have s': "np s' = np s + 1" "sq s' = sq s" using up.hyps(3) by (auto simp: semainc_def)
  have p: "p \<in> ticketed (s_at y) ps" "p \<notin> going (s_at y)" using up.hyps(1) by (auto simp: ticketed_def going_def)
  note cd = card_del [OF i(1) p(1)]
  have "sinv K ((s_at y)(p := if n \<le> 0 then Up else Out)) (s', ps)"
    using p(2) cd i(8,9) s' up.hyps(1)
    by (intro sinv_move [OF inv]) (auto simp: ticketed_upd going_upd split: if_splits)
  then show ?case by (cases "n \<le> 0") (simp_all add: fun_upd_def)
next
  case (wakes y p)
  have inv: "sinv K (s_at y) (semwakeup p k True (s_sem y))" using wakes by (intro semwakeup_inv) auto
  obtain s ps where y: "semwakeup p k True (s_sem y) = (s, ps)" by (cases "semwakeup p k True (s_sem y)")
  note i = sinvD [OF inv [unfolded y]]
  have "p \<notin> ticketed (s_at y) ps" "p \<notin> going (s_at y)" using wakes.hyps by (auto simp: ticketed_def going_def)
  then have "sinv K ((s_at y)(p := Out)) (s, ps)"
    using i(8,9) wakes.hyps by (intro sinv_move [OF inv [unfolded y]]) (auto simp: ticketed_upd going_upd)
  then show ?case using y by (simp add: fun_upd_def)
qed (auto dest: sinv_points)

lemma sreach_inv: "sreach {} k K y \<Longrightarrow> sinv K (s_at y) (s_sem y)"
proof (induction rule: sreach.induct)
  case (start y ps)
  then show ?case by (simp add: sinv_def ticketed_def going_def)
qed (rule sstep_inv)

text \<open>Runs, on states written out.\<close>

definition sys :: "int \<Rightarrow> proc list \<Rightarrow> semprocs \<Rightarrow> (proc \<Rightarrow> spoint) \<Rightarrow> ssys" where
  "sys n q ps at = \<lparr>s_sem = (\<lparr>np = n, sq = q\<rparr>, ps), s_at = at\<rparr>"

lemma run_down: "sreach A k K (sys n q ps at) \<Longrightarrow> at p = Out \<Longrightarrow>
    sreach A k K (sys (n - 1) q ps (at(p := if n \<le> 0 then Going else Holds)))"
  using sstep.down [of "sys n q ps at" p "\<lparr>np = n, sq = q\<rparr>" ps "n - 1" "\<lparr>np = n - 1, sq = q\<rparr>" A k]
  by (cases "n \<le> 0") (auto simp: sys_def semadec_def elim: sreach.step)

lemma run_down_nonblock: "sreach A k K (sys n q ps at) \<Longrightarrow> at p = Out \<Longrightarrow> A_nonblock \<in> A \<Longrightarrow> n \<le> 0 \<Longrightarrow>
    sreach A k K (sys (n - 1) q ps (at(p := Undo)))"
  by (drule sreach.step [OF _ sstep.down_nonblock [of _ _ p]]) (auto simp: sys_def semadec_def)

lemma run_undo: "sreach A k K (sys n q ps at) \<Longrightarrow> at p = Undo \<Longrightarrow> sreach A k K (sys (n + 1) q ps (at(p := Unwake)))"
  by (drule sreach.step [OF _ sstep.gives_back [of _ p]]) (auto simp: sys_def semainc_def)

lemma run_sleep: "sreach A k K (sys n q ps at) \<Longrightarrow> at p = Going \<Longrightarrow> n < 0 \<Longrightarrow>
    sreach A k K (sys n (q @ [p]) (ps\<lparr>waitsem := (waitsem ps)(p := None), p_state := (p_state ps)(p := Semdown)\<rparr>) (at(p := Asleep)))"
  by (drule sreach.step [OF _ sstep.falls_asleep [of _ p]]) (auto simp: sys_def semsleep_join_def)

lemma run_came: "sreach A k K (sys n q ps at) \<Longrightarrow> at p = Going \<Longrightarrow> 0 \<le> n \<Longrightarrow> A_fresh \<in> A \<Longrightarrow>
    sreach A k K (sys n q ps (at(p := Back)))"
  by (drule sreach.step [OF _ sstep.came [of _ p]]) (auto simp: sys_def semsleep_join_def)

lemma run_up: "sreach A k K (sys n q ps at) \<Longrightarrow> at p = Holds \<Longrightarrow>
    sreach A k K (sys (n + 1) q ps (at(p := if n < 0 then Up else Out)))"
  using sstep.up [of "sys n q ps at" p "\<lparr>np = n, sq = q\<rparr>" ps "n + 1" "\<lparr>np = n + 1, sq = q\<rparr>" A k]
  by (cases "n < 0") (auto simp: sys_def semainc_def elim: sreach.step)

lemma run_wakeup:
  assumes "sreach A k K (sys n q ps at)" "at p = Up \<and> c = Out \<or> at p = Unwake \<and> c = Holds"
    "q = [] \<or> int (length q) \<le> - n"
  shows "sreach A k K (sys n q ps (at(p := c)))"
proof -
  have "semwakeup p k True (\<lparr>np = n, sq = q\<rparr>, ps) = (\<lparr>np = n, sq = q\<rparr>, ps)"
    using assms(3) by (subst semwakeup.simps) auto
  then show ?thesis
    using assms(1,2) sreach.step [OF assms(1) sstep.wakes [of _ p]] sreach.step [OF assms(1) sstep.wakes_again [of _ p]]
    by (auto simp: sys_def)
qed

lemma run_start: "sreach A k K (sys (int K) [] ps (\<lambda>p. Out))"
  by (rule sreach.start [of _ _ ps]) (simp_all add: sys_def)

text \<open>Two processes asleep with the integer at -1 and nobody else about: no step takes any of them out.\<close>

definition stuck :: "(proc \<Rightarrow> spoint) \<Rightarrow> sem \<times> semprocs \<Rightarrow> bool" where
  "stuck at z \<longleftrightarrow> np (fst z) < 0 \<and> (\<forall>p. at p = Out \<or> at p = Going \<or> at p = Asleep \<and> p_state (snd z) p = Semdown)"

lemma stuck_points:
  assumes "stuck at z"
  shows "at p = Out \<or> at p = Going \<or> at p = Asleep" "at p = Asleep \<Longrightarrow> p_state (snd z) p = Semdown"
proof -
  have "at p = Out \<or> at p = Going \<or> at p = Asleep \<and> p_state (snd z) p = Semdown" using assms unfolding stuck_def by blast
  then show "at p = Out \<or> at p = Going \<or> at p = Asleep" "at p = Asleep \<Longrightarrow> p_state (snd z) p = Semdown" by auto
qed

lemma stuck_elsewhere:
  "stuck at z \<Longrightarrow> at p = Undo \<or> at p = Unwake \<or> at p = Killed \<or> at p = Back \<or> at p = Holds \<or> at p = Up \<Longrightarrow> False"
  using stuck_points(1) [of at z p] by auto

lemma stuck_step: "sstep {} k y z \<Longrightarrow> stuck (s_at y) (s_sem y) \<Longrightarrow> stuck (s_at z) (s_sem z)"
proof (induction rule: sstep.induct)
  case (falls_asleep y p z)
  then show ?case by (cases "s_sem y") (auto simp: stuck_def semsleep_join_def split: if_splits)
next
  case (came y p z)
  then show ?case by (cases "s_sem y") (auto simp: stuck_def semsleep_join_def split: if_splits)
next
  case (down y p s ps n s')
  then show ?case by (auto simp: stuck_def semadec_def)
next
  case (runs y p)
  then show ?case using stuck_points(2) [OF runs.prems runs.hyps(1)] by simp
qed (auto dest: stuck_elsewhere)

lemma stuck_forever: "(sstep {} k)\<^sup>*\<^sup>* y z \<Longrightarrow> stuck (s_at y) (s_sem y) \<Longrightarrow> stuck (s_at z) (s_sem z)"
  by (induction rule: rtranclp_induct) (auto dest: stuck_step)

lemma stuck_ticketed: "stuck at z \<Longrightarrow> ticketed at (snd z) = {}"
  using stuck_points [of at z] by (auto simp: ticketed_def) (metis spoint.distinct)+

text \<open>
  C12. A semaphore can lose a wakeup, without anything unusual: when the only ticket comes back while one
  process sleeps and another is between the decrement and its sleep, the integer makes \<open>semwakeup\<close> take
  the sleeper for one that needs no ticket, and then the other goes to sleep as well. From there
  on nobody ever gets the ticket, whoever comes and goes.
\<close>

theorem sem_lost_wakeup:
  "\<exists>y s ps. sreach {} k 1 y \<and> s_sem y = (s, ps) \<and> sq s = [2, 3] \<and> ticketed (s_at y) ps = {} \<and>
     {p. s_at y p \<noteq> Out} = {2, 3} \<and> \<not> (\<exists>z s' ps'. (sstep {} k)\<^sup>*\<^sup>* y z \<and> s_sem z = (s', ps') \<and> ticketed (s_at z) ps' \<noteq> {})"
proof -
  let ?ps = "\<lparr>p_state = (\<lambda>p. Running), p_qnext = (\<lambda>p. None), p_qpc = (\<lambda>p. 0), waitsem = (\<lambda>p. Some k)\<rparr>"
  let ?s2 = "?ps\<lparr>waitsem := (waitsem ?ps)(2 := None), p_state := (p_state ?ps)(2 := Semdown)\<rparr>"
  let ?s3 = "?s2\<lparr>waitsem := (waitsem ?s2)(3 := None), p_state := (p_state ?s2)(3 := Semdown)\<rparr>"
  let ?o = "\<lambda>p :: proc. Out"
  have "sreach {} k 1 (sys 0 [] ?ps (?o(1 := Holds)))" using run_down [OF run_start [of "{}" k 1 ?ps], of 1] by simp
  then have "sreach {} k 1 (sys (- 1) [] ?ps (?o(1 := Holds, 2 := Going)))" by (drule_tac run_down [of _ _ _ _ _ _ _ 2]) simp_all
  then have "sreach {} k 1 (sys (- 1) [2] ?s2 (?o(1 := Holds, 2 := Asleep)))" by (drule_tac run_sleep [of _ _ _ _ _ _ _ 2]) simp_all
  then have "sreach {} k 1 (sys (- 2) [2] ?s2 (?o(1 := Holds, 2 := Asleep, 3 := Going)))"
    by (drule_tac run_down [of _ _ _ _ _ _ _ 3]) simp_all
  then have "sreach {} k 1 (sys (- 1) [2] ?s2 (?o(1 := Up, 2 := Asleep, 3 := Going)))"
    by (drule_tac run_up [of _ _ _ _ _ _ _ 1]) (simp_all add: fun_upd_twist)
  then have "sreach {} k 1 (sys (- 1) [2] ?s2 (?o(1 := Out, 2 := Asleep, 3 := Going)))"
    by (drule_tac run_wakeup [of _ _ _ _ _ _ _ 1 Out]) (simp_all add: fun_upd_twist)
  then have r: "sreach {} k 1 (sys (- 1) [2, 3] ?s3 (?o(2 := Asleep, 3 := Asleep)))"
    by (drule_tac run_sleep [of _ _ _ _ _ _ _ 3]) (simp_all add: fun_upd_idem)
  have st: "stuck (?o(2 := Asleep, 3 := Asleep)) (\<lparr>np = - 1, sq = [2, 3]\<rparr>, ?s3)" by (simp add: stuck_def)
  have "ticketed (s_at z) ps' = {}" if "(sstep {} k)\<^sup>*\<^sup>* (sys (- 1) [2, 3] ?s3 (?o(2 := Asleep, 3 := Asleep))) z" "s_sem z = (s', ps')"
    for z s' ps'
    using stuck_ticketed [OF stuck_forever [OF that(1)]] st that(2) by (simp add: sys_def)
  then show ?thesis
    using r by (intro exI [of _ "sys (- 1) [2, 3] ?s3 (?o(2 := Asleep, 3 := Asleep))"] exI [of _ "\<lparr>np = - 1, sq = [2, 3]\<rparr>"] exI [of _ ?s3])
      (auto simp: sys_def ticketed_def)
qed

lemma run_kill: "sreach A k K (sys n q ps at) \<Longrightarrow> at p = Asleep \<Longrightarrow> p_state ps p = Semdown \<Longrightarrow> A_kill \<in> A \<Longrightarrow>
    sreach A k K (sys n q (ready p ps) (at(p := Killed)))"
  by (drule sreach.step [OF _ sstep.killed [of _ _ p]]) (auto simp: sys_def)

lemma run_runs: "sreach A k K (sys n q ps at) \<Longrightarrow> at p = Asleep \<Longrightarrow> p_state ps p = Ready \<Longrightarrow>
    sreach A k K (sys n q ps (at(p := Back)))"
  by (drule sreach.step [OF _ sstep.runs [of _ p]]) (auto simp: sys_def)

lemma run_done:
  assumes "sreach A k K (sys n q ps at)" "at p = Back \<and> c = Holds \<or> at p = Killed \<and> c = Gone"
    "semsleep_done p k (\<lparr>np = n, sq = q\<rparr>, ps) = (\<lparr>np = n', sq = q'\<rparr>, ps')"
  shows "sreach A k K (sys n' q' ps' (at(p := c)))"
  using assms(2,3) sreach.step [OF assms(1) sstep.returns [of _ p]] sreach.step [OF assms(1) sstep.dies [of _ p]]
  by (auto simp: sys_def)

text \<open>A process with \<open>waitsem\<close> nil that comes to \<open>Done\<close> gives its ticket back, and goes on.\<close>

lemma done_fresh: "waitsem ps p = None \<Longrightarrow> semsleep_done p k (\<lparr>np = n, sq = []\<rparr>, ps) = (\<lparr>np = n + 1, sq = []\<rparr>, ps)"
  by (simp add: semsleep_done_def semainc_def semwakeup.simps)

definition ex_ps :: semprocs where
  "ex_ps = \<lparr>p_state = (\<lambda>p. Running), p_qnext = (\<lambda>p. None), p_qpc = (\<lambda>p. 0), waitsem = (\<lambda>p. None)\<rparr>"

lemma run_one: "sreach A k 1 (sys 0 [] ex_ps ((\<lambda>p. Out)(1 := Holds)))"
  using run_down [OF run_start [of A k 1 ex_ps], of 1] by simp

lemma two_holders_nonblock: "\<exists>y. sreach {A_nonblock} k 1 y \<and> {1, 2} \<subseteq> {p. s_at y p = Holds}"
proof -
  have "sreach {A_nonblock} k 1 (sys (- 1) [] ex_ps ((\<lambda>p. Out)(1 := Holds, 2 := Undo)))"
    using run_down_nonblock [OF run_one, of 2] by simp
  then have "sreach {A_nonblock} k 1 (sys 0 [] ex_ps ((\<lambda>p. Out)(1 := Holds, 2 := Unwake)))"
    by (drule_tac run_undo [of _ _ _ _ _ _ _ 2]) simp_all
  then have "sreach {A_nonblock} k 1 (sys 0 [] ex_ps ((\<lambda>p. Out)(1 := Holds, 2 := Holds)))"
    by (drule_tac run_wakeup [of _ _ _ _ _ _ _ 2 Holds]) simp_all
  then show ?thesis by (intro exI conjI, assumption) (simp add: sys_def)
qed

lemma two_holders_fresh: "\<exists>y. sreach {A_fresh} k 1 y \<and> {1, 2} \<subseteq> {p. s_at y p = Holds}"
proof -
  have "sreach {A_fresh} k 1 (sys (- 1) [] ex_ps ((\<lambda>p. Out)(1 := Holds, 2 := Going)))" using run_down [OF run_one, of 2] by simp
  then have "sreach {A_fresh} k 1 (sys 0 [] ex_ps ((\<lambda>p. Out)(1 := Up, 2 := Going)))"
    by (drule_tac run_up [of _ _ _ _ _ _ _ 1]) (simp_all add: fun_upd_twist)
  then have "sreach {A_fresh} k 1 (sys 0 [] ex_ps ((\<lambda>p. Out)(1 := Out, 2 := Going)))"
    by (drule_tac run_wakeup [of _ _ _ _ _ _ _ 1 Out]) (simp_all add: fun_upd_twist)
  then have "sreach {A_fresh} k 1 (sys 0 [] ex_ps ((\<lambda>p. Out)(1 := Out, 2 := Back)))"
    by (drule_tac run_came [of _ _ _ _ _ _ _ 2]) simp_all
  then have "sreach {A_fresh} k 1 (sys 1 [] ex_ps ((\<lambda>p. Out)(1 := Out, 2 := Holds)))"
    by (drule_tac run_done [of _ _ _ _ _ _ _ 2 Holds 1 "[]" ex_ps]) (simp_all add: done_fresh ex_ps_def)
  then have "sreach {A_fresh} k 1 (sys 0 [] ex_ps ((\<lambda>p. Out)(1 := Holds, 2 := Holds)))"
    by (drule_tac run_down [of _ _ _ _ _ _ _ 1]) (simp_all add: fun_upd_twist)
  then show ?thesis by (intro exI conjI, assumption) (simp add: sys_def)
qed

lemma two_holders_kill: "\<exists>y. sreach {A_kill} k 1 y \<and> {1, 2} \<subseteq> {p. s_at y p = Holds}"
proof -
  let ?s = "\<lambda>a b c. ex_ps\<lparr>p_state := (p_state ex_ps)(2 := a, 3 := b), waitsem := (waitsem ex_ps)(2 := c, 3 := None)\<rparr>"
  have "sreach {A_kill} k 1 (sys (- 1) [] ex_ps ((\<lambda>p. Out)(1 := Holds, 2 := Going)))" using run_down [OF run_one, of 2] by simp
  then have "sreach {A_kill} k 1 (sys (- 1) [2] (?s Semdown Running None) ((\<lambda>p. Out)(1 := Holds, 2 := Asleep)))"
    by (drule_tac run_sleep [of _ _ _ _ _ _ _ 2]) (simp_all add: fun_upd_idem ex_ps_def)
  then have "sreach {A_kill} k 1 (sys (- 2) [2] (?s Semdown Running None) ((\<lambda>p. Out)(1 := Holds, 2 := Asleep, 3 := Going)))"
    by (drule_tac run_down [of _ _ _ _ _ _ _ 3]) simp_all
  then have "sreach {A_kill} k 1 (sys (- 2) [2, 3] (?s Semdown Semdown None) ((\<lambda>p. Out)(1 := Holds, 2 := Asleep, 3 := Asleep)))"
    by (drule_tac run_sleep [of _ _ _ _ _ _ _ 3]) (simp_all add: fun_upd_idem ex_ps_def)
  then have "sreach {A_kill} k 1 (sys (- 2) [2, 3] (?s Semdown Ready None) ((\<lambda>p. Out)(1 := Holds, 2 := Asleep, 3 := Killed)))"
    by (drule_tac run_kill [of _ _ _ _ _ _ _ 3]) (simp_all add: ready_def ex_ps_def)
  then have "sreach {A_kill} k 1 (sys (- 1) [3] (?s Ready Ready (Some k)) ((\<lambda>p. Out)(1 := Holds, 2 := Asleep, 3 := Gone)))"
    by (drule_tac run_done [of _ _ _ _ _ _ _ 3 Gone "- 1" "[3]" "?s Ready Ready (Some k)"])
      (simp_all add: semsleep_done_def semainc_def semwakeup.simps semwake1_def take_out_0 ready_def fun_upd_twist ex_ps_def)
  then have "sreach {A_kill} k 1 (sys (- 1) [3] (?s Ready Ready (Some k)) ((\<lambda>p. Out)(1 := Holds, 2 := Back, 3 := Gone)))"
    by (drule_tac run_runs [of _ _ _ _ _ _ _ 2]) (simp_all add: fun_upd_twist)
  then have "sreach {A_kill} k 1 (sys (- 1) [3] (?s Ready Ready (Some k)) ((\<lambda>p. Out)(1 := Holds, 2 := Holds, 3 := Gone)))"
    by (drule_tac run_done [of _ _ _ _ _ _ _ 2 Holds "- 1" "[3]" "?s Ready Ready (Some k)"])
      (simp_all add: semsleep_done_def fun_upd_twist ex_ps_def)
  then show ?thesis by (intro exI conjI, assumption) (simp add: sys_def)
qed

lemma sstep_mono: "sstep A k y z \<Longrightarrow> A \<subseteq> B \<Longrightarrow> sstep B k y z"
  by (induction rule: sstep.induct) (blast intro: sstep.intros)+

lemma sreach_mono: "sreach A k K y \<Longrightarrow> A \<subseteq> B \<Longrightarrow> sreach B k K y"
  by (induction rule: sreach.induct) (auto intro: sreach.intros sstep_mono)

lemma two_holders:
  assumes "A \<noteq> {}"
  shows "\<exists>y. sreach A k 1 y \<and> {1, 2} \<subseteq> {p. s_at y p = Holds}"
proof -
  obtain a where a: "{a} \<subseteq> A" using assms by blast
  have "\<exists>y. sreach {a} k 1 y \<and> {1, 2} \<subseteq> {p. s_at y p = Holds}"
    using two_holders_nonblock two_holders_fresh two_holders_kill by (cases a) simp_all
  then show ?thesis using sreach_mono [OF _ a] by blast
qed

text \<open>
  C19. When a semaphore with \<open>K\<close> tickets gives them to at most \<open>K\<close> processes at a time, and when it does not. It does, however
  \<open>downsem\<close>, \<open>upsem\<close> and the sleeping and waking in the kernel interleave, in the runs in which none of three things happens: a process
  is killed while it sleeps (\<open>A_kill\<close>); a process that may not block finds the ticket gone between its test and its decrement
  (\<open>A_nonblock\<close>); a process that no semaphore ever woke, so that its \<open>waitsem\<close> is nil, finds on its way to sleep that a ticket
  came (\<open>A_fresh\<close>). In these runs the
  processes asleep are those in the array, each once, and the integer is the number of tickets
  less those that have or want one. Each of the three things alone puts one ticket in two hands: a
  process killed in its sleep wakes the first in the array instead of taking itself out; \<open>downsem\<close> without blocking
  puts the ticket back and returns 0 as if it had it; and \<open>semsleep\<close> takes the nil \<open>waitsem\<close> for a kill, gives
  the ticket to the others and keeps it.
\<close>

theorem sem_tickets:
  "(\<forall>y s ps. sreach {} k K y \<and> s_sem y = (s, ps) \<longrightarrow>
      card (ticketed (s_at y) ps) \<le> K \<and> finite (ticketed (s_at y) ps) \<and>
      distinct (sq s) \<and> set (sq s) = {p. s_at y p = Asleep \<and> p_state ps p = Semdown} \<and>
      np s = int K - int (card (ticketed (s_at y) ps)) - int (card (going (s_at y))) - int (length (sq s))) \<and>
   (\<forall>A. A \<noteq> {} \<longrightarrow> (\<exists>y. sreach A k 1 y \<and> {1, 2} \<subseteq> {p. s_at y p = Holds}))"
proof -
  have "card (ticketed (s_at y) ps) \<le> K \<and> finite (ticketed (s_at y) ps) \<and>
      distinct (sq s) \<and> set (sq s) = {p. s_at y p = Asleep \<and> p_state ps p = Semdown} \<and>
      np s = int K - int (card (ticketed (s_at y) ps)) - int (card (going (s_at y))) - int (length (sq s))"
    if "sreach {} k K y" "s_sem y = (s, ps)" for y s ps
  proof -
    have inv: "sinv K (s_at y) (s, ps)" using sreach_inv [OF that(1)] that(2) by simp
    note i = sinvD [OF inv]
    show ?thesis using i(1,4,5,8,9) by blast
  qed
  then show ?thesis using two_holders by blast
qed

lemma sem_tickets_witness:
  "\<exists>y s ps. sreach {} 0 2 y \<and> s_sem y = (s, ps) \<and> np s = 1 \<and> ticketed (s_at y) ps = {5}"
proof -
  let ?ps = "\<lparr>p_state = (\<lambda>p. Running), p_qnext = (\<lambda>p. None), p_qpc = (\<lambda>p. 0), waitsem = (\<lambda>p. Some 0)\<rparr>"
  have r: "sreach {} 0 2 (sys 1 [] ?ps ((\<lambda>p. Out)(5 := Holds)))"
    using run_down [OF run_start [of "{}" 0 2 ?ps], of 5] by simp
  have "np \<lparr>np = 1, sq = []\<rparr> =
      int 2 - int (card (ticketed ((\<lambda>p. Out)(5 := Holds)) ?ps)) - int (card (going ((\<lambda>p. Out)(5 := Holds)))) - int (length (sq \<lparr>np = 1, sq = []\<rparr>))"
    using sem_tickets [of 0 2, THEN conjunct1, rule_format, of "sys 1 [] ?ps ((\<lambda>p. Out)(5 := Holds))" "\<lparr>np = 1, sq = []\<rparr>" ?ps] r
    by (simp add: sys_def)
  then show ?thesis
    using r by (intro exI [of _ "sys 1 [] ?ps ((\<lambda>p. Out)(5 := Holds))"] exI [of _ "\<lparr>np = 1, sq = []\<rparr>"] exI [of _ ?ps])
      (auto simp: sys_def ticketed_def)
qed

text \<open>
  \<open>semalt\<close> keeps the number of semaphores in the variable it also decrements them into: its loop
  never gets beyond the first semaphore, whatever the others hold.
\<close>

lemma semalt_first_only:
  assumes "0 < n" "ss \<noteq> []" "semalt_enter up ss 0 n st = Some (r, i, st')"
  shows "i \<le> 1 \<and> r \<le> 0 \<and> (\<forall>j. j \<noteq> hd ss \<longrightarrow> st' j = st j)"
proof -
  have "semalt_enter up ss 1 m t = Some (-1, 1, t)" if "m < 0" for m t
    using that by (subst semalt_enter.simps) simp
  then show ?thesis
    using assms by (subst (asm) semalt_enter.simps) (auto simp: semadec_def Let_def hd_conv_nth split: if_splits)
qed

end
