(* ===== verification/Cksum.thy ===== *)
theory Cksum
  imports Block Netbytes
begin

text \<open>
  The Internet checksum: \<open>ptclbsum\<close> of \<open>ip/ptclbsum.c\<close> over a piece of memory and \<open>ptclcsum\<close> of
  \<open>ip/ipaux.c\<close> over a chain of blocks, proved equal to the one's complement sum of 16 bit words
  that RFC 1071 defines. Memory is the list of the bytes from the address on; a read past its end
  is \<^term>\<open>None\<close>. The byte order of the machine, which the code finds out when it runs, and the
  addresses of the blocks, whose parity the code tests, are arguments.
\<close>

lemma less_mult_pow: "0 < (q :: nat) \<Longrightarrow> q + r < 2 ^ 16 * q + r"
  by simp

subsection \<open>ptclbsum.c\<close>

text \<open>\<open>*(ushort* )(addr+i)\<close>\<close>

definition hw :: "bool \<Rightarrow> bytes \<Rightarrow> nat \<Rightarrow> u32" where
  "hw little d i =
     (if little then ucast (d ! i) + 256 * ucast (d ! Suc i) else 256 * ucast (d ! i) + ucast (d ! Suc i))"

function sum16 :: "bool \<Rightarrow> u32 \<Rightarrow> bytes \<Rightarrow> int \<Rightarrow> (u32 \<times> bytes \<times> int) option" where
  "sum16 little mdsum addr len =
     (if 16 \<le> len then (case mem_read 16 addr of
         None \<Rightarrow> None
       | Some d \<Rightarrow>
           let t1 = hw little d 0;
               t2 = hw little d 2; mdsum = mdsum + t1;
               t1 = hw little d 4; mdsum = mdsum + t2;
               t2 = hw little d 6; mdsum = mdsum + t1;
               t1 = hw little d 8; mdsum = mdsum + t2;
               t2 = hw little d 10; mdsum = mdsum + t1;
               t1 = hw little d 12; mdsum = mdsum + t2;
               t2 = hw little d 14; mdsum = mdsum + t1;
               mdsum = mdsum + t2 in
           sum16 little mdsum (drop 16 addr) (len - 16))
      else Some (mdsum, addr, len))"
  by pat_completeness auto
termination by (relation "measure (\<lambda>(l, s, a, n). nat n)") auto

declare sum16.simps [simp del]

function sum2 :: "bool \<Rightarrow> u32 \<Rightarrow> bytes \<Rightarrow> int \<Rightarrow> (u32 \<times> bytes \<times> int) option" where
  "sum2 little mdsum addr len =
     (if 2 \<le> len then (case mem_read 2 addr of
         None \<Rightarrow> None
       | Some d \<Rightarrow> sum2 little (mdsum + hw little d 0) (drop 2 addr) (len - 2))
      else Some (mdsum, addr, len))"
  by pat_completeness auto
termination by (relation "measure (\<lambda>(l, s, a, n). nat n)") auto

declare sum2.simps [simp del]

definition byte0 :: "bytes \<Rightarrow> u32 option" where
  "byte0 addr = (case addr of [] \<Rightarrow> None | b # _ \<Rightarrow> Some (ucast b))"

text \<open>\<open>while(hisum = losum>>16) losum = hisum + (losum & 0xffff)\<close>: the carries come back in.\<close>

lemma unat_half: "unat (drop_bit 16 (w :: u32)) = unat w div 2 ^ 16" "unat (w AND 65535) = unat w mod 2 ^ 16"
proof -
  show "unat (drop_bit 16 w) = unat w div 2 ^ 16" by (subst unat_drop_bit_eq) (rule drop_bit_eq_div)
  have "w AND 65535 = take_bit 16 w" by (simp add: take_bit_eq_mask mask_eq_exp_minus_1)
  then show "unat (w AND 65535) = unat w mod 2 ^ 16" by (simp only: unsigned_take_bit_eq) (simp only: take_bit_eq_mod)
qed

lemma unat_fold_step: "unat (drop_bit 16 (w :: u32) + (w AND 65535)) = unat w div 2 ^ 16 + unat w mod 2 ^ 16"
proof -
  have "unat w < 2 ^ 32" using unat_u32_bound [of w] by simp
  then have "unat w div 2 ^ 16 < 2 ^ 16" by (simp add: less_mult_imp_div_less)
  moreover have "unat w mod 2 ^ 16 < 2 ^ 16" by simp
  ultimately have "unat w div 2 ^ 16 + unat w mod 2 ^ 16 < 2 ^ 32" by simp
  then show ?thesis by (simp add: unat_word_ariths unat_half)
qed

function fold16 :: "u32 \<Rightarrow> u32" where
  "fold16 losum =
     (let hisum = drop_bit 16 losum in
      if hisum \<noteq> 0 then fold16 (hisum + (losum AND 65535)) else losum)"
  by pat_completeness auto
termination
proof (relation "measure unat")
  fix losum hisum :: u32
  assume h: "hisum = drop_bit 16 losum" "hisum \<noteq> 0"
  then have "0 < unat losum div 2 ^ 16" by (metis unat_half(1) unat_eq_zero neq0_conv)
  then have "unat losum div 2 ^ 16 + unat losum mod 2 ^ 16 < 2 ^ 16 * (unat losum div 2 ^ 16) + unat losum mod 2 ^ 16"
    by (rule less_mult_pow)
  then show "(hisum + (losum AND 65535), losum) \<in> measure unat"
    by (simp only: h(1) in_measure unat_fold_step mult_div_mod_eq)
qed simp

declare fold16.simps [simp del]

definition ptclbsum :: "bool \<Rightarrow> bool \<Rightarrow> bytes \<Rightarrow> int \<Rightarrow> u16 option" where
  "ptclbsum little x addr len = do {
     (hisum, addr, len) \<leftarrow> (if x \<and> len \<noteq> 0 then do { a \<leftarrow> byte0 addr; Some (a, tl addr, len - 1) }
                          else Some (0, addr, len));
     (mdsum, addr, len) \<leftarrow> sum16 little 0 addr len;
     (mdsum, addr, len) \<leftarrow> sum2 little mdsum addr len;
     a \<leftarrow> (if len \<noteq> 0 then byte0 addr else Some 0);
     let (losum, hisum) =
       (if x then (if little then (a + mdsum, hisum) else (a, hisum + mdsum))
        else (if little then (0, hisum + a + mdsum) else (mdsum, hisum + a)));
     let losum = losum + drop_bit 8 hisum;
     let losum = losum + push_bit 8 (hisum AND 255);
     Some (ucast (fold16 losum AND 65535))
   }"

subsection \<open>ptclcsum\<close>

fun skip_offset :: "chain \<Rightarrow> int \<Rightarrow> chain \<times> int" where
  "skip_offset [] offset = ([], offset)"
| "skip_offset (b # bs) offset =
     (if offset \<noteq> 0 \<and> offset \<ge> blen b then skip_offset bs (offset - blen b) else (b # bs, offset))"

text \<open>\<open>ptclbsum(bp->rp + offset, len)\<close>, where \<open>base b\<close> is the address of the memory of \<open>b\<close>.\<close>

definition block_sum :: "bool \<Rightarrow> (block \<Rightarrow> int) \<Rightarrow> block \<Rightarrow> int \<Rightarrow> int \<Rightarrow> u16 option" where
  "block_sum little base b offset len =
     (if 0 \<le> b_rp b + offset
      then ptclbsum little (odd (base b + b_rp b + offset)) (drop (nat (b_rp b + offset)) (b_buf b)) len
      else None)"

fun csum_loop :: "bool \<Rightarrow> (block \<Rightarrow> int) \<Rightarrow> u32 \<Rightarrow> u32 \<Rightarrow> int \<Rightarrow> int \<Rightarrow> int \<Rightarrow> chain \<Rightarrow> (u32 \<times> u32) option" where
  "csum_loop little base losum hisum od offset len [] = Some (losum, hisum)"
| "csum_loop little base losum hisum od offset len (b # bs) =
     (if len = 0 then Some (losum, hisum)
      else
        let blocklen = blen b - offset;
            x = (if len < blocklen then len else blocklen) in
        (case block_sum little base b offset x of
           None \<Rightarrow> None
         | Some csum \<Rightarrow>
             if od \<noteq> 0
             then csum_loop little base losum (hisum + ucast csum) ((od + x) mod 2) 0 (len - x) bs
             else csum_loop little base (losum + ucast csum) hisum ((od + x) mod 2) 0 (len - x) bs))"

definition ptclcsum :: "bool \<Rightarrow> (block \<Rightarrow> int) \<Rightarrow> chain \<Rightarrow> int \<Rightarrow> int \<Rightarrow> u16 option" where
  "ptclcsum little base bp offset len = (case skip_offset bp offset of
      ([], offset) \<Rightarrow> Some 0
    | ([b], offset) \<Rightarrow> do {
        let blocklen = blen b - offset;
        s \<leftarrow> block_sum little base b offset (if blocklen < len then blocklen else len);
        Some (NOT s)
      }
    | (bp, offset) \<Rightarrow> do {
        (losum, hisum) \<leftarrow> csum_loop little base 0 0 0 offset len bp;
        let losum = losum + drop_bit 8 hisum;
        let losum = losum + push_bit 8 (hisum AND 255);
        Some (NOT (ucast (fold16 losum)))
      })"

subsection \<open>The one's complement sum\<close>

text \<open>
  The specification, after RFC 1071: the bytes are read as 16 bit words, the first byte high, an odd
  last byte is padded with zero, and the words are added with the carry brought back in.
\<close>

definition oc_plus :: "u16 \<Rightarrow> u16 \<Rightarrow> u16" where
  "oc_plus x y = (let s = unat x + unat y in of_nat (s mod 65536 + s div 65536))"

fun oc_sum :: "bytes \<Rightarrow> u16" where
  "oc_sum [] = 0"
| "oc_sum [a] = 256 * ucast a"
| "oc_sum (a # b # d) = oc_plus (256 * ucast a + ucast b) (oc_sum d)"

text \<open>The sum without carries, and what the code adds up: its halfwords and an odd last byte.\<close>

fun be_val :: "bytes \<Rightarrow> nat" where
  "be_val [] = 0"
| "be_val [a] = 256 * unat a"
| "be_val (a # b # d) = 256 * unat a + unat b + be_val d"

fun hwval :: "bool \<Rightarrow> bytes \<Rightarrow> nat" where
  "hwval l (a # b # d) = (if l then unat a + 256 * unat b else 256 * unat a + unat b) + hwval l d"
| "hwval l d = 0"

fun lastb :: "bytes \<Rightarrow> nat" where
  "lastb [] = 0"
| "lastb [a] = unat a"
| "lastb (a # b # d) = lastb d"

text \<open>Numbers that one's complement addition does not tell apart.\<close>

definition oeq :: "nat \<Rightarrow> nat \<Rightarrow> bool" where
  "oeq m n \<longleftrightarrow> m mod 65535 = n mod 65535 \<and> (m = 0 \<longleftrightarrow> n = 0)"

lemma oeq_refl [simp]: "oeq n n"
  by (simp add: oeq_def)

lemma oeq_sym: "oeq m n \<Longrightarrow> oeq n m"
  by (simp add: oeq_def)

lemma oeq_trans [trans]: "oeq k m \<Longrightarrow> oeq m n \<Longrightarrow> oeq k n"
  by (simp add: oeq_def)

lemma oeq_add: "oeq a b \<Longrightarrow> oeq c d \<Longrightarrow> oeq (a + c) (b + d)"
  by (auto simp: oeq_def intro: mod_add_cong)

lemma oeq_mult: "oeq a b \<Longrightarrow> oeq (k * a) (k * b)"
  by (auto simp: oeq_def intro: mod_mult_cong)

lemma oeq_carry: "oeq (65536 * a + b) (a + b)"
proof -
  have "65536 * a + b = a + b + 65535 * a" by simp
  then show ?thesis by (simp only: oeq_def mod_mult_self2) linarith
qed

lemma oeq_unique: "oeq m n \<Longrightarrow> m < 65536 \<Longrightarrow> n < 65536 \<Longrightarrow> m = n"
proof -
  assume o: "oeq m n" and m: "m < 65536" and n: "n < 65536"
  show "m = n"
  proof (cases "m = 65535 \<or> n = 65535")
    case True
    then show ?thesis using o m n by (auto simp: oeq_def elim!: dvdE)
  next
    case False
    then have "m < 65535" "n < 65535" using m n by linarith+
    then show ?thesis using o by (simp add: oeq_def)
  qed
qed

lemma oeq_swap: "oeq (n div 256 + 256 * (n mod 256)) (256 * n)"
proof -
  have "256 * n = 256 * (256 * (n div 256) + n mod 256)" by simp
  also have "\<dots> = 65536 * (n div 256) + 256 * (n mod 256)" by (simp only: distrib_left)
  finally show ?thesis by (simp only: oeq_sym [OF oeq_carry])
qed

lemma oeq_256_256: "oeq (256 * (256 * n)) n"
  using oeq_carry [of n 0] by simp

lemma be_val_Cons: "oeq (be_val (a # d)) (256 * unat a + 256 * be_val d)"
proof (induction d arbitrary: a rule: be_val.induct)
  case (2 b)
  then show ?case using oeq_add [OF oeq_refl oeq_sym [OF oeq_256_256], of "256 * unat a" "unat b"] by simp
next
  case (3 b c d)
  have "oeq (256 * unat a + unat b + be_val (c # d)) (256 * unat a + 256 * (256 * unat b) + (256 * unat c + 256 * be_val d))"
    by (intro oeq_add oeq_refl oeq_sym [OF oeq_256_256] 3)
  then show ?case by (simp add: algebra_simps)
qed simp

lemma be_val_append: "oeq (be_val (x @ y)) (be_val x + (if odd (length x) then 256 * be_val y else be_val y))"
proof (induction x rule: be_val.induct)
  case (3 a b d)
  then show ?case using oeq_add [OF oeq_refl 3, of "256 * unat a + unat b"] by (simp add: add.assoc)
qed (use be_val_Cons in simp_all)

lemma hwval_big: "hwval False d + 256 * lastb d = be_val d"
  by (induction d rule: be_val.induct) simp_all

lemma hwval_little: "oeq (hwval True d + lastb d) (256 * be_val d)"
proof (induction d rule: be_val.induct)
  case (2 a)
  then show ?case using oeq_sym [OF oeq_256_256] by simp
next
  case (3 a b d)
  have "oeq (unat a + 256 * unat b + (hwval True d + lastb d)) (256 * (256 * unat a) + 256 * unat b + 256 * be_val d)"
    by (intro oeq_add oeq_refl oeq_sym [OF oeq_256_256] 3)
  then show ?case by (simp add: algebra_simps)
qed simp

lemma hwval_bound: "hwval l d \<le> 65535 * (length d div 2)"
proof (induction d rule: be_val.induct)
  case (3 a b d)
  then show ?case using unat_u8_bound [of a] unat_u8_bound [of b] by (cases l) auto
qed simp_all

lemma hwval_append: "even (length x) \<Longrightarrow> hwval l (x @ y) = hwval l x + hwval l y"
  by (induction x rule: be_val.induct) simp_all

lemma lastb_append: "even (length x) \<Longrightarrow> lastb (x @ y) = lastb y"
  by (induction x rule: be_val.induct) simp_all

lemma oc_plus_oeq: "oeq (unat (oc_plus x y)) (unat x + unat y)"
proof -
  let ?s = "unat x + unat y"
  have s: "?s < 131072" using unat_u16_bound [of x] unat_u16_bound [of y] by linarith
  then have "?s mod 65536 + ?s div 65536 < 65536"
    using unat_u16_bound [of x] unat_u16_bound [of y] by (cases "?s < 65536") (auto simp: div_if mod_if)
  then have "unat (oc_plus x y) = ?s mod 65536 + ?s div 65536" by (simp only: oc_plus_def Let_def unat_of_nat_u16)
  then show ?thesis using oeq_sym [OF oeq_carry [of "?s div 65536" "?s mod 65536"]] by (simp add: add.commute)
qed

lemma unat_byte_pair: "unat (256 * ucast (a :: u8) + ucast (b :: u8) :: u16) = 256 * unat a + unat b"
proof -
  have "256 * ucast a + ucast b = (of_nat (256 * unat a + unat b) :: u16)" by simp
  moreover have "256 * unat a + unat b < 65536" using unat_u8_bound [of a] unat_u8_bound [of b] by linarith
  ultimately show ?thesis by (simp only: unat_of_nat_u16)
qed

lemma oc_sum_oeq: "oeq (unat (oc_sum d)) (be_val d)"
proof (induction d rule: oc_sum.induct)
  case (2 a)
  then show ?case using unat_byte_pair [of a 0] by simp
next
  case (3 a b d)
  have "oeq (unat (oc_sum (a # b # d))) (unat (256 * ucast a + ucast b :: u16) + unat (oc_sum d))"
    by (simp add: oc_plus_oeq)
  also have "oeq \<dots> (256 * unat a + unat b + be_val d)" by (simp only: unat_byte_pair) (rule oeq_add [OF oeq_refl 3])
  finally show ?case by simp
qed simp

subsection \<open>The sums of the code\<close>

lemma hw_eq:
  "even i \<Longrightarrow> j = i + 2 \<Longrightarrow> j \<le> length d \<Longrightarrow>
    (of_nat (hwval l (take j d)) :: u32) = of_nat (hwval l (take i d)) + hw l d i"
proof -
  assume i: "even i" "j = i + 2" "j \<le> length d"
  then have "take j d = take i d @ [d ! i, d ! Suc i]"
    by (simp add: take_Suc_conv_app_nth)
  then show ?thesis using i by (simp add: hwval_append hw_def)
qed

lemma sum16_ok:
  "0 \<le> len \<Longrightarrow> len \<le> int (length addr) \<Longrightarrow>
   \<exists>k. even k \<and> int k \<le> len \<and> sum16 l s addr len = Some (s + of_nat (hwval l (take k addr)), drop k addr, len - int k)"
proof (induction l s addr len rule: sum16.induct)
  case (1 l s addr len)
  show ?case
  proof (cases "16 \<le> len")
    case False
    then show ?thesis using "1.prems" by (intro exI [of _ 0]) (simp add: sum16.simps)
  next
    case True
    let ?d = "take 16 addr" and ?r = "drop 16 addr"
    have len: "16 \<le> length addr" using True "1.prems" by linarith
    then have ld: "length ?d = 16" by simp
    define s' where "s' = s + of_nat (hwval l ?d)"
    have "of_nat (hwval l (take 16 ?d)) = hw l ?d 0 + hw l ?d 2 + hw l ?d 4 + hw l ?d 6 + hw l ?d 8 + hw l ?d 10 + hw l ?d 12 + hw l ?d 14"
      using hw_eq [of 0 2 ?d l] hw_eq [of 2 4 ?d l] hw_eq [of 4 6 ?d l] hw_eq [of 6 8 ?d l] hw_eq [of 8 10 ?d l]
        hw_eq [of 10 12 ?d l] hw_eq [of 12 14 ?d l] hw_eq [of 14 16 ?d l] len by (simp del: take_take)
    then have s': "s' = s + hw l ?d 0 + hw l ?d 2 + hw l ?d 4 + hw l ?d 6 + hw l ?d 8 + hw l ?d 10 + hw l ?d 12 + hw l ?d 14"
      by (simp add: s'_def add.assoc)
    have rd: "mem_read 16 addr = Some ?d" using len by simp
    have step: "sum16 l s addr len = sum16 l s' ?r (len - 16)"
      using True by (subst sum16.simps) (simp add: rd Let_def s')
    have "\<exists>k. even k \<and> int k \<le> len - 16 \<and>
        sum16 l s' ?r (len - 16) = Some (s' + of_nat (hwval l (take k ?r)), drop k ?r, len - 16 - int k)"
      unfolding s' by (rule "1.IH" [OF True rd refl refl refl refl refl refl refl refl refl refl refl refl refl refl refl refl])
        (use True "1.prems" in simp_all)
    then obtain k where k: "even k" "int k \<le> len - 16"
      "sum16 l s' ?r (len - 16) = Some (s' + of_nat (hwval l (take k ?r)), drop k ?r, len - 16 - int k)" by blast
    have "hwval l (take (16 + k) addr) = hwval l ?d + hwval l (take k ?r)"
      by (simp only: take_add) (simp add: hwval_append len min_absorb2)
    then show ?thesis using k step by (intro exI [of _ "16 + k"]) (simp add: s'_def add.commute)
  qed
qed

lemma sum2_ok:
  "0 \<le> len \<Longrightarrow> len \<le> int (length addr) \<Longrightarrow>
   \<exists>k. even k \<and> int k \<le> len \<and> len - int k < 2 \<and>
     sum2 l s addr len = Some (s + of_nat (hwval l (take k addr)), drop k addr, len - int k)"
proof (induction l s addr len rule: sum2.induct)
  case (1 l s addr len)
  show ?case
  proof (cases "2 \<le> len")
    case False
    then show ?thesis using "1.prems" by (intro exI [of _ 0]) (simp add: sum2.simps)
  next
    case True
    let ?d = "take 2 addr" and ?r = "drop 2 addr"
    have len: "2 \<le> length addr" using True "1.prems" by linarith
    then have ld: "length ?d = 2" by simp
    have rd: "mem_read 2 addr = Some ?d" using len by simp
    have hv: "hw l ?d 0 = of_nat (hwval l ?d)" using hw_eq [of 0 2 ?d l] len by simp
    obtain k where k: "even k" "int k \<le> len - 2" "len - 2 - int k < 2"
      "sum2 l (s + hw l ?d 0) ?r (len - 2) =
         Some (s + hw l ?d 0 + of_nat (hwval l (take k ?r)), drop k ?r, len - 2 - int k)"
      using "1.IH" [OF True rd] True "1.prems" by auto
    have "hwval l (take (2 + k) addr) = hwval l ?d + hwval l (take k ?r)"
      by (simp only: take_add) (simp add: hwval_append len min_absorb2)
    moreover have "sum2 l s addr len = sum2 l (s + hw l ?d 0) ?r (len - 2)"
      using True by (subst sum2.simps) (simp add: rd)
    ultimately show ?thesis using k by (intro exI [of _ "2 + k"]) (simp add: hv add.commute)
  qed
qed

lemma hwval_even: "even (length x) \<Longrightarrow> length y < 2 \<Longrightarrow> hwval l (x @ y) = hwval l x \<and> lastb (x @ y) = lastb y"
  using hwval_append [of x l y] lastb_append [of x y] by (cases y) auto

lemma unat_ucast_u8_u32: "unat (ucast (c :: u8) :: u32) = unat c"
  using unat_u8_bound [of c] by (simp add: unsigned_ucast_eq take_bit_nat_eq_self)

lemma sums_ok:
  assumes "0 \<le> len" "len \<le> int (length addr)" "len < 131072"
  shows "\<exists>m1 a1 n1 m a n x. sum16 l 0 addr len = Some (m1, a1, n1) \<and> sum2 l m1 a1 n1 = Some (m, a, n) \<and>
    (if n \<noteq> 0 then byte0 a else Some 0) = Some x \<and>
    unat m = hwval l (take (nat len) addr) \<and> unat x = lastb (take (nat len) addr)"
proof -
  obtain k1 where k1: "even k1" "int k1 \<le> len"
    "sum16 l 0 addr len = Some (0 + of_nat (hwval l (take k1 addr)), drop k1 addr, len - int k1)"
    using sum16_ok [OF assms(1,2)] by blast
  have n1: "0 \<le> len - int k1" "len - int k1 \<le> int (length (drop k1 addr))" using k1 assms by auto
  obtain k2 where k2: "even k2" "int k2 \<le> len - int k1" "len - int k1 - int k2 < 2"
    "sum2 l (0 + of_nat (hwval l (take k1 addr))) (drop k1 addr) (len - int k1) =
      Some (0 + of_nat (hwval l (take k1 addr)) + of_nat (hwval l (take k2 (drop k1 addr))), drop k2 (drop k1 addr),
        len - int k1 - int k2)"
    using sum2_ok [OF n1] by blast
  let ?x = "take (k1 + k2) addr" and ?y = "take (nat len - (k1 + k2)) (drop (k1 + k2) addr)"
  have le: "k1 + k2 \<le> nat len" "nat len \<le> length addr" using k1(2) k2(2) assms by linarith+
  have split: "take (nat len) addr = ?x @ ?y"
    using le(1) by (metis add_diff_inverse_nat linorder_not_less take_add)
  have ev: "even (length ?x)" "length ?y < 2" using k1(1) k2(1,3) le by auto
  have val: "hwval l (take (nat len) addr) = hwval l ?x" "lastb (take (nat len) addr) = lastb ?y"
    unfolding split using hwval_even [OF ev] by auto
  have "length ?x div 2 \<le> 65535" using le(1) assms(3) by simp
  then have "hwval l ?x \<le> 65535 * 65535" using hwval_bound [of l ?x] by linarith
  then have bound: "hwval l ?x < 4294967296" by simp
  have hx: "hwval l ?x = hwval l (take k1 addr) + hwval l (take k2 (drop k1 addr))"
    using k1(1) le by (simp only: take_add) (simp add: hwval_append min_absorb2)
  define m :: u32 where "m = 0 + of_nat (hwval l (take k1 addr)) + of_nat (hwval l (take k2 (drop k1 addr)))"
  have "m = of_nat (hwval l ?x)" by (simp add: m_def hx)
  then have um: "unat m = hwval l ?x" using bound by (simp only: unat_of_nat_u32)
  have "\<exists>x. (if len - int k1 - int k2 \<noteq> 0 then byte0 (drop k2 (drop k1 addr)) else Some 0) = Some x \<and> unat x = lastb ?y"
  proof (cases "len - int k1 - int k2 = 0")
    case True
    then have "nat len - (k1 + k2) = 0" by linarith
    then show ?thesis using True by simp
  next
    case False
    then have one: "nat len - (k1 + k2) = 1" using k2(2,3) by linarith
    then obtain c r where cr: "drop (k1 + k2) addr = c # r" using le by (cases "drop (k1 + k2) addr") auto
    then show ?thesis using False one by (intro exI [of _ "ucast c"]) (simp add: byte0_def add.commute unat_ucast_u8_u32)
  qed
  then show ?thesis using k1(3) k2(4) um val unfolding m_def [symmetric] by auto
qed

lemma fold16_ok: "oeq (unat (fold16 w)) (unat w) \<and> unat (fold16 w) < 65536"
proof (induction w rule: fold16.induct)
  case (1 w)
  show ?case
  proof (cases "drop_bit 16 w = 0")
    case True
    then have "unat w div 65536 = 0" using unat_half(1) [of w] by simp
    then show ?thesis using True by (subst (1 2) fold16.simps) (simp add: div_eq_0_iff)
  next
    case False
    have f: "fold16 w = fold16 (drop_bit 16 w + (w AND 65535))"
      by (subst fold16.simps) (simp only: Let_def False not_False_eq_True if_True)
    have o: "oeq (unat (drop_bit 16 w + (w AND 65535))) (unat w)"
      using oeq_sym [OF oeq_carry [of "unat w div 65536" "unat w mod 65536"]] by (simp add: unat_fold_step)
    note IH = "1.IH" [OF refl False]
    show ?thesis unfolding f using oeq_trans [OF conjunct1 [OF IH] o] conjunct2 [OF IH] by (rule conjI)
  qed
qed

lemma unat_low_high8:
  "unat (drop_bit 8 (w :: u32)) = unat w div 256" "unat (push_bit 8 (w AND 255)) = 256 * (unat w mod 256)"
proof -
  have "unat (drop_bit 8 w) = unat w div 2 ^ 8" by (subst unat_drop_bit_eq) (rule drop_bit_eq_div)
  then show "unat (drop_bit 8 w) = unat w div 256" by simp
  have "w AND 255 = take_bit 8 w" by (simp add: take_bit_eq_mask mask_eq_exp_minus_1)
  then have low: "unat (w AND 255) = unat w mod 256" by (simp only: unsigned_take_bit_eq) (simp add: take_bit_eq_mod)
  have "push_bit 8 (w AND 255) = of_nat (256 * (unat w mod 256))"
    by (simp add: push_bit_eq_mult low [symmetric])
  moreover have "256 * (unat w mod 256) < 4294967296" using mod_less_divisor [of 256 "unat w"] by linarith
  ultimately show "unat (push_bit 8 (w AND 255)) = 256 * (unat w mod 256)" by (simp only: unat_of_nat_u32)
qed

lemma fold_halves:
  assumes "unat lo + unat hi div 256 < 4294901760"
  shows "oeq (unat (fold16 (lo + drop_bit 8 hi + push_bit 8 (hi AND 255)))) (unat lo + 256 * unat hi)"
proof -
  let ?w = "lo + drop_bit 8 hi + push_bit 8 (hi AND 255)"
  let ?n = "unat lo + unat hi div 256 + 256 * (unat hi mod 256)"
  have "?n < 4294967296" using assms mod_less_divisor [of 256 "unat hi"] by linarith
  moreover have "?w = of_nat ?n"
    using arg_cong [OF unat_low_high8(1) [of hi], of "of_nat :: nat \<Rightarrow> u32"]
      arg_cong [OF unat_low_high8(2) [of hi], of "of_nat :: nat \<Rightarrow> u32"] by (simp add: of_nat_unat)
  ultimately have "unat ?w = ?n" by (simp only: unat_of_nat_u32)
  then have "oeq (unat (fold16 ?w)) ?n" using fold16_ok [of ?w] by metis
  also have "oeq ?n (unat lo + 256 * unat hi)"
    using oeq_add [OF oeq_refl oeq_swap, of "unat lo" "unat hi"] by (simp add: add.assoc)
  finally show ?thesis .
qed

lemma unat_fold16_u16: "unat (ucast (fold16 w AND 65535) :: u16) = unat (fold16 w)" "unat (ucast (fold16 w) :: u16) = unat (fold16 w)"
proof -
  have f: "unat (fold16 w) < 65536" using fold16_ok by blast
  have "unat (fold16 w AND 65535) = unat (fold16 w) mod 2 ^ 16" by (rule unat_half)
  then have "unat (fold16 w AND 65535) = unat (fold16 w)" using f by simp
  then have "fold16 w AND 65535 = fold16 w" by (simp only: word_unat_eq_iff)
  moreover show "unat (ucast (fold16 w) :: u16) = unat (fold16 w)"
    using f by (simp add: unsigned_ucast_eq take_bit_nat_eq_self)
  ultimately show "unat (ucast (fold16 w AND 65535) :: u16) = unat (fold16 w)" by simp
qed

lemma unat_add_u32: "unat (x :: u32) + unat y < 4294967296 \<Longrightarrow> unat (x + y) = unat x + unat y"
  by (simp add: unat_word_ariths)

lemma lastb_bound: "lastb d < 256"
  by (induction d rule: lastb.induct) (simp_all add: unat_u8_bound)

text \<open>The halves the code forms from the halfwords, an odd last byte and a first byte at an odd address.\<close>

lemma halves_even: "oeq (256 * (lastb d + hwval True d)) (be_val d)" "oeq (hwval False d + 256 * lastb d) (be_val d)"
proof -
  have "oeq (256 * (hwval True d + lastb d)) (256 * (256 * be_val d))" by (rule oeq_mult [OF hwval_little])
  also have "oeq \<dots> (be_val d)" by (rule oeq_256_256)
  finally show "oeq (256 * (lastb d + hwval True d)) (be_val d)" by (simp add: add.commute)
  show "oeq (hwval False d + 256 * lastb d) (be_val d)" by (simp add: hwval_big)
qed

lemma halves_odd:
  "oeq (lastb d + hwval True d + 256 * unat c) (be_val (c # d))"
  "oeq (lastb d + 256 * (unat c + hwval False d)) (be_val (c # d))"
proof -
  have "oeq (256 * unat c + (hwval True d + lastb d)) (256 * unat c + 256 * be_val d)"
    by (rule oeq_add [OF oeq_refl hwval_little])
  also have "oeq \<dots> (be_val (c # d))" by (rule oeq_sym [OF be_val_Cons])
  finally show "oeq (lastb d + hwval True d + 256 * unat c) (be_val (c # d))" by (simp add: add.commute add.left_commute)
  have "oeq (256 * unat c + 256 * hwval False d + lastb d) (256 * unat c + 256 * hwval False d + 256 * (256 * lastb d))"
    by (rule oeq_add [OF oeq_refl oeq_sym [OF oeq_256_256]])
  also have "256 * unat c + 256 * hwval False d + 256 * (256 * lastb d) = 256 * unat c + 256 * be_val d"
    using hwval_big [of d] by simp
  also have "oeq \<dots> (be_val (c # d))" by (rule oeq_sym [OF be_val_Cons])
  finally show "oeq (lastb d + 256 * (unat c + hwval False d)) (be_val (c # d))" by (simp add: algebra_simps)
qed

text \<open>The sums of the halves do not wrap.\<close>

lemma fold_halves_u16:
  assumes "unat lo + unat hi div 256 < 4294901760" "oeq (unat lo + 256 * unat hi) n"
  shows "oeq (unat (ucast (fold16 (lo + drop_bit 8 hi + push_bit 8 (hi AND 255)) AND 65535) :: u16)) n"
  unfolding unat_fold16_u16 using oeq_trans [OF fold_halves [OF assms(1)] assms(2)] .

lemma hwval_take_bound:
  assumes "n < 131072" shows "hwval l (take (nat n) d) \<le> 4294836225"
proof -
  have "length (take (nat n) d) div 2 \<le> 65535" using assms by simp
  then show ?thesis using hwval_bound [of l "take (nat n) d"] by linarith
qed

lemma ptclbsum_odd:
  assumes "0 < len" "len \<le> int (length addr)" "len < 131072"
  shows "\<exists>s. ptclbsum l True addr len = Some s \<and> oeq (unat s) (be_val (take (nat len) addr))"
proof -
  obtain c r where addr: "addr = c # r" using assms by (cases addr) auto
  have len': "0 \<le> len - 1" "len - 1 \<le> int (length r)" "len - 1 < 131072" using assms addr by auto
  define d where "d = take (nat (len - 1)) r"
  obtain m1 a1 n1 m a n z where s: "sum16 l 0 r (len - 1) = Some (m1, a1, n1)" "sum2 l m1 a1 n1 = Some (m, a, n)"
    "(if n \<noteq> 0 then byte0 a else Some 0) = Some z" and m: "unat m = hwval l d" and z: "unat z = lastb d"
    using sums_ok [OF len'] unfolding d_def by metis
  have t: "take (nat len) addr = c # d" using assms(1) addr by (simp add: d_def take_Cons' nat_diff_distrib)
  note cc = unat_ucast_u8_u32 [of c]
  have mb: "unat m \<le> 4294836225" "unat z < 256" "unat c < 256"
    using hwval_take_bound [OF len'(3)] by (simp_all add: m z d_def lastb_bound unat_u8_bound)
  have um: "unat (z + m) = lastb d + hwval l d" "unat (ucast c + m) = unat c + hwval l d"
    unfolding m [symmetric] z [symmetric] cc [symmetric] by (intro unat_add_u32; use mb cc in linarith)+
  have "oeq (unat (ucast (fold16 (z + m + drop_bit 8 (ucast c) + push_bit 8 (ucast c AND 255)) AND 65535) :: u16)) (be_val (c # d))"
    if l
  proof (rule fold_halves_u16)
    show "unat (z + m) + unat (ucast c :: u32) div 256 < 4294901760" using mb um m z cc by linarith
    show "oeq (unat (z + m) + 256 * unat (ucast c :: u32)) (be_val (c # d))" using halves_odd(1) that by (simp add: um cc)
  qed
  moreover have "oeq (unat (ucast (fold16 (z + drop_bit 8 (ucast c + m) + push_bit 8 (ucast c + m AND 255)) AND 65535) :: u16)) (be_val (c # d))"
    if "\<not> l"
  proof (rule fold_halves_u16)
    show "unat z + unat (ucast c + m) div 256 < 4294901760" using mb um m z cc by linarith
    show "oeq (unat z + 256 * unat (ucast c + m)) (be_val (c # d))" using halves_odd(2) that by (simp add: um z)
  qed
  ultimately show ?thesis using assms(1) s by (cases l) (simp_all add: ptclbsum_def addr byte0_def t [unfolded addr])
qed

lemma ptclbsum_even:
  assumes "0 \<le> len" "len \<le> int (length addr)" "len < 131072" "x \<longrightarrow> len = 0"
  shows "\<exists>s. ptclbsum l x addr len = Some s \<and> oeq (unat s) (be_val (take (nat len) addr))"
proof -
  define d where "d = take (nat len) addr"
  obtain m1 a1 n1 m a n z where s: "sum16 l 0 addr len = Some (m1, a1, n1)" "sum2 l m1 a1 n1 = Some (m, a, n)"
    "(if n \<noteq> 0 then byte0 a else Some 0) = Some z" and m: "unat m = hwval l d" and z: "unat z = lastb d"
    using sums_ok [OF assms(1-3)] unfolding d_def by metis
  have mb: "unat m \<le> 4294836225" "unat z < 256"
    using hwval_take_bound [OF assms(3)] by (simp_all add: m z d_def lastb_bound)
  have um: "unat (0 + z + m) = lastb d + hwval l d" "unat (0 + z) = lastb d"
    unfolding m [symmetric] z [symmetric] by (simp_all, intro unat_add_u32, use mb in linarith)
  have little: "oeq (unat (ucast (fold16 (0 + drop_bit 8 (0 + z + m) + push_bit 8 (0 + z + m AND 255)) AND 65535) :: u16)) (be_val d)" if l
  proof (rule fold_halves_u16)
    show "unat (0 :: u32) + unat (0 + z + m) div 256 < 4294901760" using mb um(1) m z by simp
    show "oeq (unat (0 :: u32) + 256 * unat (0 + z + m)) (be_val d)"
      using halves_even(1) [of d] that um(1) by (simp only: simp_thms unsigned_0 add_0)
  qed
  have big: "oeq (unat (ucast (fold16 (m + drop_bit 8 (0 + z) + push_bit 8 (0 + z AND 255)) AND 65535) :: u16)) (be_val d)" if "\<not> l"
  proof (rule fold_halves_u16)
    show "unat m + unat (0 + z) div 256 < 4294901760" using mb by simp
    show "oeq (unat m + 256 * unat (0 + z)) (be_val d)" using halves_even(2) [of d] that by (simp add: m z)
  qed
  show ?thesis
  proof (cases x)
    case False
    then show ?thesis using s little big by (cases l) (simp_all add: ptclbsum_def d_def)
  next
    case True
    then have "d = []" using assms(4) by (simp add: d_def)
    then have "m = 0" "z = 0" using m z by (simp_all add: unat_eq_zero)
    then show ?thesis using s little big True assms(4) by (cases l) (simp_all add: ptclbsum_def d_def)
  qed
qed

lemma oc_sum_unique: "oeq (unat s) (be_val d) \<Longrightarrow> s = oc_sum d"
proof -
  assume "oeq (unat s) (be_val d)"
  then have "oeq (unat s) (unat (oc_sum d))" by (rule oeq_trans [OF _ oeq_sym [OF oc_sum_oeq]])
  then have "unat s = unat (oc_sum d)" by (rule oeq_unique) (rule unat_u16_bound)+
  then show ?thesis by (simp only: word_unat_eq_iff)
qed

lemma ptclbsum_ok:
  assumes "0 \<le> len" "len \<le> int (length addr)" "len < 131072"
  shows "ptclbsum l x addr len = Some (oc_sum (take (nat len) addr))"
proof -
  obtain s where s: "ptclbsum l x addr len = Some s" "oeq (unat s) (be_val (take (nat len) addr))"
    using ptclbsum_even [OF assms] ptclbsum_odd [of len addr l] assms by (cases "x \<and> len \<noteq> 0") auto
  then show ?thesis using oc_sum_unique [OF s(2)] by simp
qed

subsection \<open>Chains\<close>

lemma block_sum_ok:
  assumes "block_ok b" "0 \<le> off" "0 \<le> x" "off + x \<le> blen b" "x < 131072"
  shows "block_sum l base b off x = Some (oc_sum (take (nat x) (drop (nat off) (bdata b))))"
proof -
  have b: "0 \<le> b_rp b" "b_wp b \<le> int (length (b_buf b))" using assms(1) by (simp_all add: block_ok_def balloc_def)
  have "x \<le> int (length (drop (nat (b_rp b + off)) (b_buf b)))" using b assms by (simp add: blen_def)
  moreover have "take (nat x) (drop (nat off) (bdata b)) = take (nat x) (drop (nat (b_rp b + off)) (b_buf b))"
    using b assms by (simp add: bdata_def drop_take nat_add_distrib add.commute min_def)
  ultimately show ?thesis
    using b assms ptclbsum_ok [of x "drop (nat (b_rp b + off)) (b_buf b)"] by (simp add: block_sum_def)
qed

lemma skip_offset_ok:
  "chain_ok bs \<Longrightarrow> 0 \<le> off \<Longrightarrow> off < int (length (chain_data bs)) \<Longrightarrow>
   \<exists>c r off'. skip_offset bs off = (c # r, off') \<and> chain_ok (c # r) \<and> 0 \<le> off' \<and> (off' < blen c \<or> off' = 0) \<and>
     drop (nat off) (chain_data bs) = drop (nat off') (chain_data (c # r))"
proof (induction bs arbitrary: off)
  case (Cons b bs)
  note len = blen_bdata [of b]
  show ?case
  proof (cases "off \<noteq> 0 \<and> off \<ge> blen b")
    case True
    then show ?thesis using Cons.prems Cons.IH [of "off - blen b"] len by (auto simp: block_simps nat_diff_distrib)
  next
    case False
    then show ?thesis using Cons.prems len by auto
  qed
qed (simp add: block_simps)

lemma chain_ok_next: "chain_ok (b # bs) \<Longrightarrow> case bs of [] \<Rightarrow> (0 :: int) = 0 | c # _ \<Rightarrow> 0 \<le> blen c"
  by (cases bs) (simp_all add: chain_ok_def blen_nonneg)

text \<open>The two sums of the loop against the data still to come.\<close>

lemma csum_loop_ok:
  "chain_ok bs \<Longrightarrow> od = 0 \<or> od = 1 \<Longrightarrow> 0 \<le> len \<Longrightarrow> len < 131072 \<Longrightarrow> 0 \<le> off \<Longrightarrow>
   (case bs of [] \<Rightarrow> off = 0 | b # _ \<Rightarrow> off \<le> blen b) \<Longrightarrow>
   D = take (nat len) (drop (nat off) (chain_data bs)) \<Longrightarrow> unat lo + unat hi + 65535 * length D < 4294967296 \<Longrightarrow>
   \<exists>lo' hi'. csum_loop l base lo hi od off len bs = Some (lo', hi') \<and>
     unat lo' + unat hi' \<le> unat lo + unat hi + 65535 * length D \<and>
     oeq (unat lo' + 256 * unat hi') (unat lo + 256 * unat hi + (if od = 0 then be_val D else 256 * be_val D))"
proof (induction bs arbitrary: lo hi od off len D)
  case (Cons b bs)
  show ?case
  proof (cases "len = 0")
    case False
    define x where "x = min len (blen b - off)"
    define P where "P = take (nat x) (drop (nat off) (bdata b))"
    define Q where "Q = take (nat (len - x)) (chain_data bs)"
    define s where "s = oc_sum P"
    have len: "block_ok b" "blen b = int (length (bdata b))" using Cons.prems(1) by (simp_all add: block_simps blen_bdata)
    have x: "0 \<le> x" "x \<le> len" "off + x \<le> blen b" "x < 131072" "x = len \<or> off + x = blen b"
      using Cons.prems by (auto simp: x_def)
    have xif: "(if len < blen b - off then len else blen b - off) = x" by (simp add: x_def)
    have lP: "length P = nat x" using len(2) x(1,3) Cons.prems(5) unfolding P_def by simp
    have D: "D = P @ Q"
    proof -
      let ?p = "drop (nat off) (bdata b)"
      have p: "int (length ?p) = blen b - off" "nat off \<le> length (bdata b)" using len(2) Cons.prems(5,6) by auto
      have "nat x = min (nat len) (length ?p)" using p(1) unfolding x_def by linarith
      then have "P = take (nat len) ?p" by (simp only: P_def) (simp add: min_def)
      moreover have "nat (len - x) = nat len - length ?p" using p(1) Cons.prems(3) unfolding x_def by linarith
      moreover have "drop (nat off) (chain_data (b # bs)) = ?p @ chain_data bs" using p(2) by (simp add: block_simps)
      ultimately show ?thesis by (simp only: Cons.prems(7) Q_def take_append)
    qed
    have s: "block_sum l base b off x = Some s" unfolding s_def P_def by (rule block_sum_ok) (use len x Cons.prems in auto)
    have so: "oeq (unat s) (be_val P)" unfolding s_def by (rule oc_sum_oeq)
    have us: "unat (ucast s :: u32) = unat s" by simp
    have sb: "unat s \<le> 65535 * length P"
    proof (cases "P = []")
      case False
      then have "1 \<le> length P" by (simp add: Suc_le_eq)
      then show ?thesis using unat_u16_bound [of s] by linarith
    qed (simp add: s_def)
    have lD: "length D = length P + length Q" using D by simp
    have app: "oeq (be_val D) (be_val P + (if odd (nat x) then 256 * be_val Q else be_val Q))"
      using be_val_append [of P Q] D lP by simp
    define od' where "od' = (od + x) mod 2"
    have od': "od' = 0 \<or> od' = 1" "od' = 0 \<longleftrightarrow> (od = 0) = even (nat x)"
      using Cons.prems(2) unfolding od'_def even_nat_iff [OF x(1)] by presburger+
    have nxt: "case bs of [] \<Rightarrow> (0 :: int) = 0 | b # _ \<Rightarrow> 0 \<le> blen b"
      using chain_ok_next Cons.prems(1) by blast
    have ok: "chain_ok bs" "0 \<le> len - x" "len - x < 131072"
      using Cons.prems(1) x(1,2) Cons.prems(4) by (simp add: chain_ok_def, linarith, linarith)
    have Q: "Q = take (nat (len - x)) (drop (nat 0) (chain_data bs))" by (simp add: Q_def)
    note IH = Cons.IH [OF ok(1) od'(1) ok(2,3) order_refl nxt Q]
    show ?thesis
    proof (cases "od = 0")
      case True
      have ul: "unat (lo + ucast s) = unat lo + unat s"
        unfolding us [symmetric] by (rule unat_add_u32) (use Cons.prems(8) sb lD us in linarith)
      have "unat (lo + ucast s) + unat hi + 65535 * length Q < 4294967296" using Cons.prems(8) sb lD ul by linarith
      then obtain lo' hi' where r: "csum_loop l base (lo + ucast s) hi od' 0 (len - x) bs = Some (lo', hi')"
        "unat lo' + unat hi' \<le> unat (lo + ucast s) + unat hi + 65535 * length Q"
        "oeq (unat lo' + 256 * unat hi') (unat (lo + ucast s) + 256 * unat hi + (if od' = 0 then be_val Q else 256 * be_val Q))"
        using IH [of "lo + ucast s" hi] by blast
      let ?c = "if od' = 0 then be_val Q else 256 * be_val Q"
      have "?c = (if odd (nat x) then 256 * be_val Q else be_val Q)" using od'(2) True by simp
      then have "oeq (unat s + ?c) (be_val D)"
        using oeq_trans [OF oeq_add [OF so oeq_refl] oeq_sym [OF app]] by (simp only:)
      then have "oeq (unat lo + 256 * unat hi + (unat s + ?c)) (unat lo + 256 * unat hi + be_val D)"
        by (rule oeq_add [OF oeq_refl])
      moreover have "unat (lo + ucast s) + 256 * unat hi + ?c = unat lo + 256 * unat hi + (unat s + ?c)"
        unfolding ul by linarith
      ultimately have "oeq (unat lo' + 256 * unat hi') (unat lo + 256 * unat hi + be_val D)"
        using oeq_trans [OF r(3)] by (simp only:)
      moreover have "unat lo' + unat hi' \<le> unat lo + unat hi + 65535 * length D" using r(2) sb lD ul by linarith
      moreover have "csum_loop l base lo hi od off len (b # bs) = Some (lo', hi')"
        using True False s r(1) by (simp add: xif od'_def Let_def)
      ultimately show ?thesis using True by (intro exI [of _ lo'] exI [of _ hi'] conjI) simp_all
    next
      case odd: False
      have ul: "unat (hi + ucast s) = unat hi + unat s"
        unfolding us [symmetric] by (rule unat_add_u32) (use Cons.prems(8) sb lD us in linarith)
      have "unat lo + unat (hi + ucast s) + 65535 * length Q < 4294967296" using Cons.prems(8) sb lD ul by linarith
      then obtain lo' hi' where r: "csum_loop l base lo (hi + ucast s) od' 0 (len - x) bs = Some (lo', hi')"
        "unat lo' + unat hi' \<le> unat lo + unat (hi + ucast s) + 65535 * length Q"
        "oeq (unat lo' + 256 * unat hi') (unat lo + 256 * unat (hi + ucast s) + (if od' = 0 then be_val Q else 256 * be_val Q))"
        using IH [of lo "hi + ucast s"] by blast
      have "oeq (256 * unat s + (if od' = 0 then be_val Q else 256 * be_val Q)) (256 * be_val D)"
      proof -
        have "oeq (256 * unat s + (if od' = 0 then be_val Q else 256 * be_val Q))
           (256 * be_val P + (if od' = 0 then 256 * (256 * be_val Q) else 256 * be_val Q))"
          using oeq_mult [OF so] oeq_sym [OF oeq_256_256] by (intro oeq_add) auto
        also have "\<dots> = 256 * (be_val P + (if odd (nat x) then 256 * be_val Q else be_val Q))"
          using od'(2) odd by (simp add: distrib_left)
        also have "oeq \<dots> (256 * be_val D)" by (rule oeq_mult [OF oeq_sym [OF app]])
        finally show ?thesis .
      qed
      then have "oeq (unat lo + 256 * unat hi + (256 * unat s + (if od' = 0 then be_val Q else 256 * be_val Q)))
          (unat lo + 256 * unat hi + 256 * be_val D)"
        by (rule oeq_add [OF oeq_refl])
      moreover have "unat lo + 256 * unat (hi + ucast s) + (if od' = 0 then be_val Q else 256 * be_val Q) =
          unat lo + 256 * unat hi + (256 * unat s + (if od' = 0 then be_val Q else 256 * be_val Q))"
        unfolding ul distrib_left by (simp only: add.assoc)
      ultimately have "oeq (unat lo' + 256 * unat hi') (unat lo + 256 * unat hi + 256 * be_val D)"
        using oeq_trans [OF r(3)] by (simp only:)
      moreover have "unat lo' + unat hi' \<le> unat lo + unat hi + 65535 * length D" using r(2) sb lD ul by linarith
      moreover have "csum_loop l base lo hi od off len (b # bs) = Some (lo', hi')"
        using odd False s r(1) by (simp add: xif od'_def Let_def)
      ultimately show ?thesis using odd by (intro exI [of _ lo'] exI [of _ hi'] conjI) simp_all
    qed
  qed (use Cons.prems(7) in simp)
qed (auto simp: chain_data_def)

lemma ptclcsum_oc:
  assumes "chain_ok bp" "0 \<le> offset" "offset < blocklen bp" "0 \<le> len" "len < 65536"
  shows "ptclcsum little base bp offset len = Some (NOT (oc_sum (take (nat len) (drop (nat offset) (chain_data bp)))))"
proof -
  define D where "D = take (nat len) (drop (nat offset) (chain_data bp))"
  obtain c r off where s: "skip_offset bp offset = (c # r, off)" "chain_ok (c # r)" "0 \<le> off" "off < blen c \<or> off = 0"
    "drop (nat offset) (chain_data bp) = drop (nat off) (chain_data (c # r))"
    using skip_offset_ok [OF assms(1,2)] assms(3) blocklen_data [OF assms(1)] by metis
  have c: "block_ok c" "off \<le> blen c" using s(2-4) blen_nonneg [of c] by (auto simp: chain_ok_def)
  have D: "D = take (nat len) (drop (nat off) (chain_data (c # r)))" unfolding D_def s(5) ..
  have "ptclcsum little base bp offset len = Some (NOT (oc_sum D))"
  proof (cases r)
    case Nil
    let ?x = "if blen c - off < len then blen c - off else len"
    have "block_sum little base c off ?x = Some (oc_sum (take (nat ?x) (drop (nat off) (bdata c))))"
      using c s(3) assms(4,5) by (intro block_sum_ok) auto
    moreover have "take (nat ?x) (drop (nat off) (bdata c)) = D"
      using D Nil s(3) c blen_bdata [of c] by (auto simp: chain_data_def)
    ultimately show ?thesis using s(1) Nil by (simp add: ptclcsum_def)
  next
    case (Cons b r')
    have "length D \<le> 65535" using assms(5) by (simp add: D_def)
    then have lD: "65535 * length D \<le> 4294836225" by simp
    obtain lo hi where l: "csum_loop little base 0 0 0 off len (c # r) = Some (lo, hi)"
      "unat lo + unat hi \<le> 65535 * length D" "oeq (unat lo + 256 * unat hi) (be_val D)"
      using csum_loop_ok [OF s(2) _ assms(4) _ s(3) _ D, of 0 0 0 little base] c(2) assms(5) lD by auto
    have "unat lo + unat hi div 256 < 4294901760" using l(2) lD by linarith
    then have "oeq (unat (ucast (fold16 (lo + drop_bit 8 hi + push_bit 8 (hi AND 255))) :: u16)) (be_val D)"
      unfolding unat_fold16_u16 by (rule oeq_trans [OF fold_halves l(3)])
    then have "ucast (fold16 (lo + drop_bit 8 hi + push_bit 8 (hi AND 255))) = oc_sum D" by (rule oc_sum_unique)
    then show ?thesis using s(1) Cons l(1) by (simp add: ptclcsum_def)
  qed
  then show ?thesis by (simp only: D_def)
qed

text \<open>
  C38. \<open>ptclcsum\<close> is the complement of the one's complement sum that RFC 1071 defines over the bytes
  asked for, however they are cut into blocks, at odd or even addresses, on a machine of either
  byte order. No sum of the code wraps for the lengths of an IP packet, and nothing is read
  outside the data of the blocks.
\<close>

theorem ptclcsum_rfc1071:
  assumes "chain_ok bp" "0 \<le> offset" "offset < blocklen bp" "0 \<le> len" "len < 65536"
  shows "ptclcsum little base bp offset len = Some (NOT (oc_sum (take (nat len) (drop (nat offset) (chain_data bp)))))"
  by (rule ptclcsum_oc [OF assms])

lemma ptclcsum_rfc1071_witness:
  "ptclcsum True (\<lambda>b. 7) [block_of [1, 2, 3], block_of [4, 5]] 1 4 = Some (NOT (oc_sum [2, 3, 4, 5]))"
proof -
  let ?bp = "[block_of [1, 2, 3], block_of [4, 5]]"
  have ok: "chain_ok ?bp" and d: "chain_data ?bp = [1, 2, 3, 4, 5]" by (simp_all add: chain_ok_def chain_data_def block_of_ok)
  have l: "1 < blocklen ?bp" unfolding blocklen_data [OF ok] d by simp
  then show ?thesis using ptclcsum_rfc1071 [OF ok _ l, of 4 True "\<lambda>b. 7"] by (simp add: d del: oc_sum.simps)
qed

subsection \<open>Sending and receiving\<close>

lemma be_val_append_even: "even (length x) \<Longrightarrow> be_val (x @ y) = be_val x + be_val y"
  by (induction x rule: be_val.induct) simp_all

lemma be_val_hnputs: "be_val (hnputs c @ d) = unat c + be_val d"
proof -
  have u8: "unat (ucast w :: u8) = unat w mod 256" for w :: u16
    by (simp only: unsigned_ucast_eq) (simp add: take_bit_eq_mod)
  have "unat (drop_bit 8 c) = unat c div 2 ^ 8" by (subst unat_drop_bit_eq) (rule drop_bit_eq_div)
  then have "unat (ucast (drop_bit 8 c) :: u8) = unat c div 256" using unat_u16_bound [of c] by (simp add: u8)
  moreover have "unat (ucast c :: u8) = unat c mod 256" by (rule u8)
  ultimately have "256 * unat (ucast (drop_bit 8 c) :: u8) + unat (ucast c :: u8) = unat c" by (simp only:) simp
  then show ?thesis by (simp add: hnputs_def)
qed

lemma unat_not_plus: "unat (NOT w) + unat w = unat (NOT 0 :: 'a word)" for w :: "'a::len word"
proof -
  have "w \<le> - 1" by (rule word_order.extremum)
  then have "unat (- 1 - w) + unat w = unat (- 1 :: 'a word)" by (simp add: unat_sub word_le_nat_alt)
  moreover have "NOT w = - 1 - w" by (simp add: not_eq_complement)
  ultimately show ?thesis by simp
qed

lemma region: "d = h @ x @ t \<Longrightarrow> len = int (length x) \<Longrightarrow> take (nat len) (drop (nat (int (length h))) d) = x"
  by simp

text \<open>The complement of the sum in place of a zero word of the data makes the sum all ones.\<close>

lemma oc_sum_verifies:
  assumes "even (length p)"
  shows "oc_sum (p @ hnputs (NOT (oc_sum (p @ [0, 0] @ s))) @ s) = NOT 0"
proof -
  let ?r = "oc_sum (p @ [0, 0] @ s)"
  have v: "be_val (p @ [0, 0] @ s) = be_val p + be_val s" using assms by (simp add: be_val_append_even)
  have n: "unat (NOT ?r) + unat ?r = unat (NOT 0 :: u16)"
    by (rule unat_not_plus)
  have "be_val (p @ hnputs (NOT ?r) @ s) = be_val p + be_val s + unat (NOT ?r)"
    using assms by (simp add: be_val_append_even be_val_hnputs)
  moreover have "oeq (be_val p + be_val s + unat (NOT ?r)) (unat ?r + unat (NOT ?r))"
    using oeq_add [OF oeq_sym [OF oc_sum_oeq] oeq_refl, of "p @ [0, 0] @ s" "unat (NOT ?r)"] by (simp only: v)
  ultimately have "oeq (unat (NOT 0 :: u16)) (be_val (p @ hnputs (NOT ?r) @ s))"
    using n by (simp only: add.commute oeq_sym)
  then show ?thesis by (rule oc_sum_unique [symmetric])
qed

text \<open>
  The senders store \<open>ptclcsum\<close> of a packet in its checksum field, which they cleared before,
  and the receivers drop a packet when \<open>ptclcsum\<close> of it is not zero. A packet that arrives as it was
  sent passes, however sender and receiver cut it into blocks.
\<close>

theorem ptclcsum_verifies:
  assumes "chain_ok bp" "chain_data bp = h @ (p @ [0, 0] @ s) @ t"
    and "even (length p)" "len = int (length (p @ [0, 0] @ s))" "len < 65536"
    and "ptclcsum little base bp (int (length h)) len = Some c"
    and "chain_ok bp'" "chain_data bp' = h' @ (p @ hnputs c @ s) @ t'"
  shows "ptclcsum little' base' bp' (int (length h')) len = Some 0"
proof -
  have "int (length h) < blocklen bp" "int (length h') < blocklen bp'"
    unfolding blocklen_data [OF assms(1)] blocklen_data [OF assms(7)] assms(2,8) by simp_all
  note sum = ptclcsum_oc [OF assms(1) _ this(1) _ assms(5)] ptclcsum_oc [OF assms(7) _ this(2) _ assms(5)]
  have len: "len = int (length (p @ hnputs c @ s))" using assms(4) by simp
  have "c = NOT (oc_sum (p @ [0, 0] @ s))"
    using sum(1) [of little base] assms(6) unfolding region [OF assms(2,4)] by (simp add: assms(4))
  moreover have "ptclcsum little' base' bp' (int (length h')) len = Some (NOT (oc_sum (p @ hnputs c @ s)))"
    using sum(2) [of little' base'] unfolding region [OF assms(8) len] by (simp add: assms(4))
  ultimately show ?thesis using oc_sum_verifies [OF assms(3), of s] by simp
qed

lemma ptclcsum_verifies_witness:
  "\<exists>c. ptclcsum True (\<lambda>b. 0) [block_of [9, 1, 2, 0], block_of [0, 7]] 1 5 = Some c \<and>
     ptclcsum False (\<lambda>b. 1) [block_of ([1, 2] @ hnputs c @ [7])] 0 5 = Some 0"
proof -
  let ?bp = "[block_of [9, 1, 2, 0], block_of [0, 7]]" and ?len = "int (length ([1, 2] @ [0, 0] @ [7 :: u8]))"
  have bp: "chain_ok ?bp" "chain_data ?bp = [9] @ ([1, 2] @ [0, 0] @ [7]) @ []"
    by (simp_all add: chain_ok_def chain_data_def block_of_ok)
  have "int (length [9 :: u8]) < blocklen ?bp" unfolding blocklen_data [OF bp(1)] bp(2) by simp
  then obtain c where c: "ptclcsum True (\<lambda>b. 0) ?bp (int (length [9 :: u8])) ?len = Some c"
    using ptclcsum_oc [OF bp(1), of "int (length [9 :: u8])" ?len True "\<lambda>b. 0"] by simp
  have bp': "chain_ok [block_of ([1, 2] @ hnputs c @ [7])]"
    "chain_data [block_of ([1, 2] @ hnputs c @ [7])] = [] @ ([1, 2] @ hnputs c @ [7]) @ []"
    by (simp_all add: chain_ok_def chain_data_def block_of_ok)
  have "ptclcsum False (\<lambda>b. 1) [block_of ([1, 2] @ hnputs c @ [7])] (int (length ([] :: bytes))) ?len = Some 0"
    by (rule ptclcsum_verifies [OF bp _ refl _ c bp']) simp_all
  then show ?thesis using c by simp
qed

end
