(* ===== verification/Clock.thy ===== *)
theory Clock
  imports Nix_Prelude "HOL-Library.Signed_Division"
begin

text \<open>
  The time of day clock (\<open>port/tod.c\<close>), its fixed point multiplication (\<open>port/mul64fract.c\<close>) and
  the conversions between milliseconds and ticks (the end of \<open>port/portclock.c\<close>). A vlong is a
  64 bit word read with \<^const>\<open>sint\<close>. What the code reads from the machine is an argument: the
  fast clock \<open>now\<close>, the count of slow ticks, and for the first call of any routine \<open>boot\<close>, the
  reading and the frequency \<open>todinit\<close> finds. A division by zero is \<^term>\<open>None\<close>.
\<close>

subsection \<open>Fixed point numbers\<close>

definition mul64fract :: "u64 \<Rightarrow> u64 \<Rightarrow> u64" where
  "mul64fract a b =
     (let bl = b AND 0xffffffff; bh = drop_bit 32 b;
          al = a AND 0xffffffff; ah = drop_bit 32 a;
          res = drop_bit 32 (al * bl);
          res = res + al * bh;
          res = res + ah * bl in
      res + push_bit 32 (ah * bh))"

definition mk64fract :: "u64 \<Rightarrow> u64 \<Rightarrow> u64 option" where
  "mk64fract to from = (if from = 0 then None else Some (push_bit 32 to div from))"

subsection \<open>The clock\<close>

definition TODFREQ :: u64 where "TODFREQ = 1000000000"

definition MicroFREQ :: u64 where "MicroFREQ = 1000000"

definition HZ :: nat where "HZ = 100"

record tod =
  td_init :: bool
  multiplier :: u64
  divider :: u64
  umultiplier :: u64
  udivider :: u64
  td_hz :: u64
  td_last :: u64
  td_off :: u64
  td_lasttime :: u64
  td_delta :: u64
  sstart :: u32
  send :: u32

definition todsetfreq :: "u64 \<Rightarrow> tod \<Rightarrow> tod option" where
  "todsetfreq f s = do {
     m \<leftarrow> mk64fract TODFREQ f;
     d \<leftarrow> mk64fract f TODFREQ;
     um \<leftarrow> mk64fract MicroFREQ f;
     ud \<leftarrow> mk64fract f MicroFREQ;
     Some (s\<lparr>td_hz := f, multiplier := m, divider := d + 1, umultiplier := um, udivider := ud + 1\<rparr>)
   }"

text \<open>\<open>todinit\<close>, without the registration of \<open>todfix\<close> as a periodic timer.\<close>

definition todinit :: "u64 \<times> u64 \<Rightarrow> tod \<Rightarrow> tod option" where
  "todinit boot s =
     (if td_init s then Some s
      else do {
        s \<leftarrow> todsetfreq (snd boot) (s\<lparr>td_last := fst boot, td_hz := snd boot\<rparr>);
        Some (s\<lparr>td_init := True\<rparr>)
      })"

definition todset :: "u64 \<times> u64 \<Rightarrow> u64 \<Rightarrow> u32 \<Rightarrow> u64 \<Rightarrow> u64 \<Rightarrow> u32 \<Rightarrow> tod \<Rightarrow> tod option" where
  "todset boot now ticks t delta n s = do {
     s \<leftarrow> todinit boot s;
     if 0 \<le> sint t then Some (s\<lparr>td_off := t, td_last := now, td_lasttime := 0, td_delta := 0, sstart := send s\<rparr>)
     else
       let n = (if sint n \<le> 0 then 1 else n) * of_nat HZ;
           n = (if sint delta < 0 \<and> sint (- delta) < sint n then ucast (- delta) else n);
           n = (if 0 < sint delta \<and> sint delta < sint n then ucast delta else n) in
       if n = 0 then None
       else Some (s\<lparr>sstart := ticks, send := ticks + n, td_delta := word_of_int (sint delta sdiv sint n)\<rparr>)
   }"

text \<open>The correction \<open>todget\<close> adds, and the time before it is kept from going backwards.\<close>

definition slew :: "u32 \<Rightarrow> tod \<Rightarrow> tod" where
  "slew ticks s =
     (if sstart s \<noteq> send s then
        let t = (if send s \<le> ticks then send s else ticks) in
        s\<lparr>td_off := td_off s + td_delta s * ucast (t - sstart s), sstart := t\<rparr>
      else s)"

definition todnow :: "u64 \<Rightarrow> tod \<Rightarrow> u64" where
  "todnow now s =
     (let diff = now - td_last s; diff = (if sint diff < 0 then 0 else diff) in
      mul64fract diff (multiplier s) + td_off s)"

definition todget :: "u64 \<times> u64 \<Rightarrow> u64 \<Rightarrow> u32 \<Rightarrow> tod \<Rightarrow> (u64 \<times> tod) option" where
  "todget boot now ticks s = do {
     s \<leftarrow> todinit boot s;
     let s = slew ticks s;
     let x = todnow now s;
     if x < td_lasttime s then Some (td_lasttime s, s)
     else Some (x, s\<lparr>td_lasttime := x\<rparr>)
   }"

definition todfix :: "u64 \<Rightarrow> tod \<Rightarrow> tod" where
  "todfix now s =
     (let diff = now - td_last s in
      if sint (td_hz s) < sint diff then
        let x = mul64fract diff (multiplier s) + td_off s in
        s\<lparr>td_last := now, td_off := x\<rparr>
      else s)"

definition tod2fastticks :: "u64 \<Rightarrow> tod \<Rightarrow> u64" where
  "tod2fastticks ns s = mul64fract (ns - td_off s) (divider s) + td_last s"

definition seconds :: "u64 \<times> u64 \<Rightarrow> u64 \<Rightarrow> u32 \<Rightarrow> tod \<Rightarrow> (u32 \<times> tod) option" where
  "seconds boot now ticks s = do {
     (x, s) \<leftarrow> todget boot now ticks s;
     Some (ucast (x div TODFREQ), s)
   }"

definition fastticks2us :: "u64 \<times> u64 \<Rightarrow> u64 \<Rightarrow> tod \<Rightarrow> (u64 \<times> tod) option" where
  "fastticks2us boot ticks s = do { s \<leftarrow> todinit boot s; Some (mul64fract ticks (umultiplier s), s) }"

definition us2fastticks :: "u64 \<times> u64 \<Rightarrow> u64 \<Rightarrow> tod \<Rightarrow> (u64 \<times> tod) option" where
  "us2fastticks boot us s = do { s \<leftarrow> todinit boot s; Some (mul64fract us (udivider s), s) }"

definition ms2fastticks :: "u64 \<times> u64 \<Rightarrow> u32 \<Rightarrow> tod \<Rightarrow> (u64 \<times> tod) option" where
  "ms2fastticks boot ms s = do { s \<leftarrow> todinit boot s; Some ((td_hz s * ucast ms) div 1000, s) }"

definition ns2fastticks :: "u64 \<times> u64 \<Rightarrow> u64 \<Rightarrow> tod \<Rightarrow> (u64 \<times> tod) option" where
  "ns2fastticks boot ns s = do { s \<leftarrow> todinit boot s; Some (mul64fract ns (divider s), s) }"

definition fastticks2ns :: "u64 \<times> u64 \<Rightarrow> u64 \<Rightarrow> tod \<Rightarrow> (u64 \<times> tod) option" where
  "fastticks2ns boot ticks s = do { s \<leftarrow> todinit boot s; Some (mul64fract ticks (multiplier s), s) }"

subsection \<open>Slow ticks\<close>

definition tk2ms :: "u32 \<Rightarrow> u32" where
  "tk2ms ticks = (let t = ucast ticks :: u64; hz = of_nat HZ; t = t * 1000; t = t div hz in ucast t)"

definition ms2tk :: "u32 \<Rightarrow> u32" where
  "ms2tk ms = (if of_nat (1000000000 div HZ) \<le> ms then (ms div 1000) * of_nat HZ else (ms * of_nat HZ + 500) div 1000)"

subsection \<open>Exactness\<close>

lemma unat_u64_bound: "unat (w :: u64) < 18446744073709551616"
proof -
  have "unat w < 2 ^ LENGTH(64)" by (rule unsigned_less)
  then show ?thesis by simp
qed

lemma halves: "unat (w AND 0xffffffff) = unat w mod 2 ^ 32" "unat (drop_bit 32 w) = unat w div 2 ^ 32" for w :: u64
proof -
  have "w AND 0xffffffff = take_bit 32 w" by (simp add: take_bit_eq_mask mask_eq_exp_minus_1)
  then show "unat (w AND 0xffffffff) = unat w mod 2 ^ 32"
    by (simp only: unsigned_take_bit_eq) (simp only: take_bit_eq_mod)
  show "unat (drop_bit 32 w) = unat w div 2 ^ 32" by (subst unat_drop_bit_eq) (rule drop_bit_eq_div)
qed

lemma unat_of_nat_u64: "n < 18446744073709551616 \<Longrightarrow> unat (of_nat n :: u64) = n"
  by (simp add: unat_of_nat take_bit_nat_eq_self)

lemma schoolbook:
  fixes a b N :: nat
  assumes "0 < N"
  shows "(a * b) div N = (a mod N) * (b mod N) div N + (a mod N) * (b div N) + (a div N) * (b mod N) + (a div N) * (b div N) * N"
proof -
  have "a * b = (N * (a div N) + a mod N) * (N * (b div N) + b mod N)" by simp
  also have "\<dots> = (a mod N) * (b mod N) + N * ((a mod N) * (b div N) + (a div N) * (b mod N) + (a div N) * (b div N) * N)"
    by (simp only: distrib_left distrib_right ac_simps)
  finally show ?thesis using assms by simp
qed

text \<open>\<open>mul64fract\<close> is the middle of the 128 bit product, cut to 64 bits.\<close>

lemma mul64fract_eq: "mul64fract a b = of_nat (unat a * unat b div 2 ^ 32)"
proof -
  let ?N = "2 ^ 32 :: nat"
  let ?al = "a AND 0xffffffff" and ?bl = "b AND 0xffffffff"
  note h = halves [of a] halves [of b]
  have w: "w = of_nat (unat w)" for w :: u64 by simp
  have l: "unat ?al < ?N" "unat ?bl < ?N" unfolding h by simp_all
  have "unat ?al * unat ?bl \<le> 4294967295 * 4294967295" using l by (intro mult_mono) simp_all
  then have p: "unat ?al * unat ?bl < 18446744073709551616" by simp
  have "?al * ?bl = of_nat (unat ?al * unat ?bl)" by simp
  then have "unat (?al * ?bl) = unat ?al * unat ?bl" using unat_of_nat_u64 [OF p] by simp
  then have low: "drop_bit 32 (?al * ?bl) = of_nat ((unat a mod ?N) * (unat b mod ?N) div ?N)"
    by (subst w, simp only: halves)
  have parts: "?al = of_nat (unat a mod ?N)" "drop_bit 32 a = of_nat (unat a div ?N)"
    "?bl = of_nat (unat b mod ?N)" "drop_bit 32 b = of_nat (unat b div ?N)"
    by (subst w, simp only: h)+
  have "push_bit 32 x = x * of_nat ?N" for x :: u64 by (simp add: push_bit_eq_mult)
  then have "mul64fract a b = of_nat ((unat a mod ?N) * (unat b mod ?N) div ?N + (unat a mod ?N) * (unat b div ?N) +
      (unat a div ?N) * (unat b mod ?N) + (unat a div ?N) * (unat b div ?N) * ?N)"
    unfolding mul64fract_def Let_def low by (simp only: parts of_nat_add of_nat_mult)
  moreover have "0 < ?N" by simp
  note schoolbook [of ?N "unat a" "unat b", OF this]
  ultimately show ?thesis by simp
qed

lemma unat_mul64fract:
  "unat a * unat b div 2 ^ 32 < 18446744073709551616 \<Longrightarrow> unat (mul64fract a b) = unat a * unat b div 2 ^ 32"
  unfolding mul64fract_eq by (rule unat_of_nat_u64)

lemma mk64fract_ok:
  assumes "0 < unat from" "unat to < 2 ^ 32"
  shows "\<exists>q. mk64fract to from = Some q \<and> unat q = unat to * 2 ^ 32 div unat from"
proof -
  have "unat to * 2 ^ 32 < 18446744073709551616" using assms(2) by simp
  moreover have "push_bit 32 to = of_nat (unat to * 2 ^ 32)" by (simp add: push_bit_eq_mult)
  ultimately have "unat (push_bit 32 to) = unat to * 2 ^ 32" by (simp only: unat_of_nat_u64)
  then show ?thesis using assms(1) by (auto simp: mk64fract_def unat_div)
qed

subsection \<open>Accuracy of the conversions\<close>

text \<open>Rounding a factor down, or up, to a fixed point number.\<close>

lemma fract_down:
  fixes to f t N :: nat
  assumes "0 < f" "0 < N"
  shows "t * (to * N div f) div N * f \<le> t * to" "t * to * N < (t * (to * N div f) div N + 1) * N * f + t * f"
proof -
  let ?m = "to * N div f" and ?x = "t * (to * N div f) div N"
  have m: "?m * f \<le> to * N" "to * N < ?m * f + f"
    using div_mult_mod_eq [of "to * N" f] mod_less_divisor [OF assms(1), of "to * N"] by linarith+
  have x: "?x * N \<le> t * ?m" "t * ?m < ?x * N + N"
    using div_mult_mod_eq [of "t * ?m" N] mod_less_divisor [OF assms(2), of "t * ?m"] by linarith+
  have "?x * f * N = ?x * N * f" by simp
  also have "\<dots> \<le> t * ?m * f" using x(1) by (rule mult_le_mono1)
  also have "\<dots> = t * (?m * f)" by simp
  also have "\<dots> \<le> t * (to * N)" using m(1) by (rule mult_le_mono2)
  finally show "?x * f \<le> t * to" using assms(2) by (metis mult.assoc mult_le_cancel2)
  have "t * to * N = t * (to * N)" by simp
  also have "\<dots> \<le> t * (?m * f + f)" using m(2) by (intro mult_le_mono2 less_imp_le)
  also have "\<dots> = t * ?m * f + t * f" by (simp only: distrib_left mult.assoc)
  also have "\<dots> < (?x * N + N) * f + t * f" using x(2) assms(1) by simp
  also have "\<dots> = (?x + 1) * N * f + t * f" by simp
  finally show "t * to * N < (?x + 1) * N * f + t * f" .
qed

lemma fract_up:
  fixes f g n N :: nat
  assumes "0 < g" "0 < N"
  shows "n * f < (n * (f * N div g + 1) div N + 1) * g" "n * (f * N div g + 1) div N * g * N \<le> n * f * N + n * g"
proof -
  let ?d = "f * N div g + 1" and ?y = "n * (f * N div g + 1) div N"
  have "?d * g = f * N div g * g + g" by simp
  then have d: "?d * g \<le> f * N + g" "f * N < ?d * g"
    using div_mult_mod_eq [of "f * N" g] mod_less_divisor [OF assms(1), of "f * N"] by linarith+
  have y: "?y * N \<le> n * ?d" "n * ?d < ?y * N + N"
    using div_mult_mod_eq [of "n * ?d" N] mod_less_divisor [OF assms(2), of "n * ?d"] by linarith+
  have "n * f * N = n * (f * N)" by simp
  also have "\<dots> \<le> n * (?d * g)" using d(2) by (intro mult_le_mono2 less_imp_le)
  also have "\<dots> = n * ?d * g" by (simp only: mult.assoc)
  also have "\<dots> < (?y * N + N) * g" using y(2) assms(1) by (rule mult_less_mono1)
  also have "\<dots> = (?y + 1) * g * N" by (simp only: distrib_right mult_1 mult.assoc mult.commute [of N g])
  finally show "n * f < (?y + 1) * g" using mult_less_cancel2 by blast
  have "?y * g * N = ?y * N * g" by simp
  also have "\<dots> \<le> n * ?d * g" using y(1) by (rule mult_le_mono1)
  also have "\<dots> = n * (?d * g)" by (simp only: mult.assoc)
  also have "\<dots> \<le> n * (f * N + g)" using d(1) by (rule mult_le_mono2)
  finally show "?y * g * N \<le> n * f * N + n * g" by (simp only: distrib_left mult.assoc)
qed

lemma quotients:
  fixes y g N n m :: nat
  assumes "0 < g" "0 < N" "y * g * N \<le> m * N + n * g"
  shows "y \<le> m div g + n div N + 1"
proof -
  have "m < (m div g + 1) * g" "n < (n div N + 1) * N"
    using assms(1,2) by (simp_all add: dividend_less_div_times)
  then have "m * N + n * g < (m div g + 1) * g * N + (n div N + 1) * N * g"
    using assms(1,2) by (intro add_strict_mono mult_less_mono1)
  also have "\<dots> = (m div g + n div N + 2) * g * N" by (simp add: algebra_simps)
  finally have "y * g * N < (m div g + n div N + 2) * g * N" using assms(3) by (rule le_less_trans [rotated])
  then have "y < m div g + n div N + 2" by (simp only: mult_less_cancel2)
  then show ?thesis by simp
qed

text \<open>The factors a frequency below \<open>2^32\<close> gives.\<close>

lemma todsetfreq_ok:
  assumes "0 < unat f" "unat f < 2 ^ 32"
  shows "\<exists>s'. todsetfreq f s = Some s' \<and> td_init s' = td_init s \<and> unat (multiplier s') = 1000000000 * 2 ^ 32 div unat f \<and>
    unat (divider s') = unat f * 2 ^ 32 div 1000000000 + 1"
proof -
  have c: "unat TODFREQ = 1000000000" "unat MicroFREQ = 1000000" by (simp_all add: TODFREQ_def MicroFREQ_def)
  have ranges: "0 < unat TODFREQ" "unat TODFREQ < 2 ^ 32" "0 < unat MicroFREQ" "unat MicroFREQ < 2 ^ 32" unfolding c by simp_all
  obtain m where m: "mk64fract TODFREQ f = Some m" "unat m = unat TODFREQ * 2 ^ 32 div unat f"
    using mk64fract_ok [OF assms(1) ranges(2)] by blast
  obtain d where d: "mk64fract f TODFREQ = Some d" "unat d = unat f * 2 ^ 32 div unat TODFREQ"
    using mk64fract_ok [OF ranges(1) assms(2)] by blast
  obtain um ud where u: "mk64fract MicroFREQ f = Some um" "mk64fract f MicroFREQ = Some ud"
    using mk64fract_ok [OF assms(1) ranges(4)] mk64fract_ok [OF ranges(3) assms(2)] by blast
  have "unat d \<le> unat f * 4294967296" unfolding d(2) using div_le_dividend [of "unat f * 4294967296" "unat TODFREQ"] by simp
  moreover have "unat f \<le> 4294967295" using assms(2) by simp
  ultimately have "unat d + 1 < 18446744073709551616" by linarith
  then have "unat (d + 1) = unat d + 1" by (simp add: unat_word_ariths)
  then show ?thesis by (simp add: todsetfreq_def m d u c)
qed

text \<open>
  C40. With a clock slower than \<open>2^32\<close> Hz, the conversion of ticks to nanoseconds never gives more
  than the true time, and less by one nanosecond and by the fraction \<open>ticks / 2^32\<close> at most; the
  conversion of nanoseconds to ticks never gives less than the true number rounded down, so that a
  timer does not go off early, and is above it by the fraction \<open>ns / 2^32\<close> at most.
\<close>

theorem tod_conversions:
  assumes "td_init s" "todsetfreq f s = Some s'" "0 < unat f" "unat f < 2 ^ 32"
    and "unat ticks * 1000000000 div unat f < 2 ^ 64" "unat ns * unat f div 1000000000 + unat ns div 2 ^ 32 + 1 < 2 ^ 64"
  shows "\<exists>x y. fastticks2ns boot ticks s' = Some (x, s') \<and> ns2fastticks boot ns s' = Some (y, s') \<and>
    unat x * unat f \<le> unat ticks * 1000000000 \<and>
    unat ticks * 1000000000 * 2 ^ 32 < (unat x + 1) * 2 ^ 32 * unat f + unat ticks * unat f \<and>
    unat ns * unat f < (unat y + 1) * 1000000000 \<and>
    unat y * 1000000000 * 2 ^ 32 \<le> unat ns * unat f * 2 ^ 32 + unat ns * 1000000000"
proof -
  have s': "td_init s'" "unat (multiplier s') = 1000000000 * 2 ^ 32 div unat f" "unat (divider s') = unat f * 2 ^ 32 div 1000000000 + 1"
    using todsetfreq_ok [OF assms(3,4), of s] assms(1,2) by auto
  let ?x = "unat ticks * (1000000000 * 2 ^ 32 div unat f) div 2 ^ 32"
  let ?y = "unat ns * (unat f * 2 ^ 32 div 1000000000 + 1) div 2 ^ 32"
  have N: "0 < (2 ^ 32 :: nat)" "0 < (1000000000 :: nat)" by simp_all
  note down = fract_down [OF assms(3) N(1), of "unat ticks" 1000000000] and up = fract_up [OF N(2,1), of "unat ns" "unat f"]
  have "?x \<le> unat ticks * 1000000000 div unat f" using down(1) assms(3) by (simp add: less_eq_div_iff_mult_less_eq)
  then have x: "unat (mul64fract ticks (multiplier s')) = ?x"
    using assms(5) unat_mul64fract [of ticks "multiplier s'"] by (simp add: s'(2))
  have "?y \<le> unat ns * unat f div 1000000000 + unat ns div 2 ^ 32 + 1" by (rule quotients [OF N(2,1) up(2)])
  then have y: "unat (mul64fract ns (divider s')) = ?y"
    using assms(6) unat_mul64fract [of ns "divider s'"] by (simp add: s'(3))
  show ?thesis using down up by (simp add: fastticks2ns_def ns2fastticks_def todinit_def s'(1) x y)
qed

definition ex_tod :: tod where
  "ex_tod = \<lparr>td_init = True, multiplier = 0, divider = 0, umultiplier = 0, udivider = 0, td_hz = 0, td_last = 0,
     td_off = 0, td_lasttime = 0, td_delta = 0, sstart = 0, send = 0\<rparr>"

lemma tod_conversions_witness:
  "\<exists>s' x y. todsetfreq 3000000000 ex_tod = Some s' \<and> fastticks2ns (0, 0) 6000000000 s' = Some (x, s') \<and>
     ns2fastticks (0, 0) 5000000000 s' = Some (y, s') \<and> unat x \<le> 2000000000 \<and> 15000000000 < (unat y + 1)"
proof -
  have f: "0 < unat (3000000000 :: u64)" "unat (3000000000 :: u64) < 2 ^ 32" by simp_all
  obtain s' where s': "todsetfreq 3000000000 ex_tod = Some s'" using todsetfreq_ok [OF f] by blast
  show ?thesis
    using tod_conversions [OF _ s' f, of 6000000000 5000000000 "(0, 0)"] s' by (auto simp: ex_tod_def)
qed

subsection \<open>The time of day\<close>

text \<open>\<open>todget\<close> never goes backwards, and \<open>todfix\<close> does not move the time it will give.\<close>

lemma todget_forward:
  assumes "td_init s" "todget boot now ticks s = Some (x, s')"
  shows "td_lasttime s \<le> x \<and> td_lasttime s' = x \<and> td_init s'"
  using assms by (auto simp: todget_def todinit_def slew_def Let_def split: if_splits)

lemma mul64fract_0 [simp]: "mul64fract 0 m = 0"
  by (simp add: mul64fract_eq)

lemma todfix_keeps_time: "0 \<le> sint (now - td_last s) \<Longrightarrow> todnow now (todfix now s) = todnow now s"
  by (auto simp: todnow_def todfix_def Let_def)

text \<open>A frequency of \<open>2^32\<close> Hz or more does not fit: the divider is lost, and every timer is due at once.\<close>

lemma todsetfreq_fast: "\<exists>s'. todsetfreq 0x100000000 s = Some s' \<and> divider s' = 1"
  by (simp add: todsetfreq_def mk64fract_def TODFREQ_def MicroFREQ_def)

text \<open>The number of seconds to slew over, times HZ, can wrap to 0, by which \<open>todset\<close> then divides.\<close>

lemma todset_divides_by_zero: "td_init s \<Longrightarrow> todset boot now ticks (- 1) 5 0x40000000 s = None"
  by (simp add: todset_def todinit_def HZ_def)

text \<open>\<open>ms2tk\<close> does not wrap, and rounds to the nearest tick while there are less than ten million milliseconds.\<close>

lemma ms2tk_ok:
  "unat ms < 10000000 \<Longrightarrow> unat (ms2tk ms) = (unat ms + 5) div 10"
  "10000000 \<le> unat ms \<Longrightarrow> unat (ms2tk ms) = unat ms div 1000 * 100"
proof -
  have c: "(of_nat (1000000000 div HZ) \<le> ms) = (10000000 \<le> unat ms)" by (simp add: HZ_def word_le_nat_alt)
  show "unat (ms2tk ms) = (unat ms + 5) div 10" if "unat ms < 10000000"
  proof -
    have "unat ms * 100 + 500 < 4294967296" using that by linarith
    moreover have "ms * of_nat HZ + 500 = of_nat (unat ms * 100 + 500)" by (simp add: HZ_def)
    ultimately have "unat (ms * of_nat HZ + 500) = unat ms * 100 + 500" by (simp only: unat_of_nat_u32)
    then have "unat (ms2tk ms) = (unat ms * 100 + 500) div 1000" using that c by (simp add: ms2tk_def unat_div)
    also have "\<dots> = (100 * (unat ms + 5)) div (100 * 10)" by simp
    finally show ?thesis by (simp only: div_mult_mult1)
  qed
  show "unat (ms2tk ms) = unat ms div 1000 * 100" if "10000000 \<le> unat ms"
  proof -
    have "unat ms div 1000 * 100 < 4294967296" using unat_u32_bound [of ms] by linarith
    moreover have "ms div 1000 * of_nat HZ = of_nat (unat (ms div 1000) * 100)" by (simp add: HZ_def)
    moreover have "unat (ms div 1000) = unat ms div 1000" by (simp add: unat_div)
    ultimately have "unat (ms div 1000 * of_nat HZ) = unat ms div 1000 * 100" by (simp only: unat_of_nat_u32)
    then show ?thesis using that c by (simp only: ms2tk_def if_True)
  qed
qed

end
