(* ===== verification/Timers.thy ===== *)
theory Timers
  imports Clock
begin

text \<open>
  The timers of \<open>port/portclock.c\<close>: for every machine a list of timers in the order they go off,
  the operations that add and remove one, and the interrupt that fires the timers that are due.
  A \<open>Timer*\<close> is a number, its fields are in a store, and \<open>tnext\<close> from \<open>head\<close> on is a list.
  A vlong is an integer here: fast ticks since boot do not reach \<open>2^63\<close>. The conversion of
  nanoseconds to fast ticks is an argument, \<open>tk\<close>, with what is used of it in a locale that is
  interpreted on the clock. A call of \<open>timerset\<close> is part of the result; a failed assertion is
  \<^term>\<open>None\<close>.
\<close>

subsection \<open>Timers\<close>

datatype tmode = Trelative | Tperiodic

type_synonym tid = nat

type_synonym machno = nat

record timer =
  tmode :: tmode
  tns :: int
  tf :: bool
  tt :: "machno option"
  twhen :: int

record timers =
  tm :: "tid \<Rightarrow> timer"
  heads :: "machno \<Rightarrow> tid list"

text \<open>The time \<open>tadd\<close> gives the timer; \<open>now\<close> is the fast clock.\<close>

definition next_when :: "(int \<Rightarrow> int) \<Rightarrow> int \<Rightarrow> timers \<Rightarrow> machno \<Rightarrow> tid \<Rightarrow> timer option" where
  "next_when tk now s k nt =
     (let t = tm s nt in
      case tmode t of
        Trelative \<Rightarrow>
          let t = (if tns t \<le> 0 then t\<lparr>tns := 1\<rparr> else t) in
          Some (t\<lparr>twhen := now + tk (tns t)\<rparr>)
      | Tperiodic \<Rightarrow>
          if tns t < 100000 then None
          else
            let t = (if twhen t = 0
                     then (case find (\<lambda>u. tmode (tm s u) = Tperiodic \<and> tns (tm s u) = tns t) (heads s k) of
                         Some u \<Rightarrow> t\<lparr>twhen := twhen (tm s u)\<rparr>
                       | None \<Rightarrow> t\<lparr>twhen := now\<rparr>)
                     else t);
                when = tk (tns t);
                when = (if when = 0 then 1 else when) in
            Some (t\<lparr>twhen := twhen t + when\<rparr>))"

fun insert_timer :: "(tid \<Rightarrow> timer) \<Rightarrow> tid \<Rightarrow> tid list \<Rightarrow> tid list" where
  "insert_timer m nt [] = [nt]"
| "insert_timer m nt (t # ts) = (if twhen (m t) > twhen (m nt) then nt # t # ts else t # insert_timer m nt ts)"

definition tadd :: "(int \<Rightarrow> int) \<Rightarrow> int \<Rightarrow> machno \<Rightarrow> tid \<Rightarrow> timers \<Rightarrow> (int \<times> timers) option" where
  "tadd tk now k nt s =
     (if tt (tm s nt) \<noteq> None then None
      else (case next_when tk now s k nt of
          None \<Rightarrow> None
        | Some t \<Rightarrow>
            let m = (tm s)(nt := t);
                ts = insert_timer m nt (heads s k);
                s = s\<lparr>tm := m(nt := t\<lparr>tt := Some k\<rparr>), heads := (heads s)(k := ts)\<rparr> in
            Some (if hd ts = nt then twhen t else 0, s)))"

definition tdel :: "tid \<Rightarrow> timers \<Rightarrow> int \<times> timers" where
  "tdel dt s = (case tt (tm s dt) of
      None \<Rightarrow> (0, s)
    | Some k \<Rightarrow>
        let ts = heads s k;
            s = (if dt \<in> set ts
                 then s\<lparr>tm := (tm s)(dt := (tm s dt)\<lparr>tt := None\<rparr>), heads := (heads s)(k := remove1 dt ts)\<rparr>
                 else s) in
        if (ts = [] \<or> hd ts = dt) \<and> heads s k \<noteq> [] then (twhen (tm s (hd (heads s k))), s) else (0, s))"

text \<open>Both return the argument of \<open>timerset\<close>, when it is called, on the machine \<open>m\<close> that runs them.\<close>

definition timeradd :: "(int \<Rightarrow> int) \<Rightarrow> int \<Rightarrow> machno \<Rightarrow> tid \<Rightarrow> timers \<Rightarrow> (int option \<times> timers) option" where
  "timeradd tk now m nt s = do {
     let s = (if tt (tm s nt) \<noteq> None then snd (tdel nt s) else s);
     (when, s) \<leftarrow> tadd tk now m nt s;
     Some (if when \<noteq> 0 then Some when else None, s)
   }"

definition timerdel :: "machno \<Rightarrow> tid \<Rightarrow> timers \<Rightarrow> int option \<times> timers" where
  "timerdel m dt s = (case tt (tm s dt) of
      None \<Rightarrow> (None, s)
    | Some k \<Rightarrow> (case tdel dt s of (when, s) \<Rightarrow>
        (if when \<noteq> 0 \<and> k = m then Some (twhen (tm s (hd (heads s k)))) else None, s)))"

subsection \<open>The interrupt\<close>

text \<open>One timer that is due leaves the list; after its function ran, a periodic one joins it again.\<close>

definition tpop :: "machno \<Rightarrow> timers \<Rightarrow> timers option" where
  "tpop k s = (case heads s k of
      [] \<Rightarrow> None
    | t # ts \<Rightarrow>
        if tt (tm s t) \<noteq> Some k then None
        else Some (s\<lparr>tm := (tm s)(t := (tm s t)\<lparr>tt := None\<rparr>), heads := (heads s)(k := ts)\<rparr>))"

definition tagain :: "(int \<Rightarrow> int) \<Rightarrow> int \<Rightarrow> machno \<Rightarrow> tid \<Rightarrow> timers \<Rightarrow> timers option" where
  "tagain tk now k t s =
     (if tmode (tm s t) = Tperiodic then map_option snd (tadd tk now k t s) else Some s)"

text \<open>
  The loop of \<open>timerintr\<close>. What the functions of the timers do to the timers is the argument \<open>f\<close>.
  The result has the argument of \<open>timerset\<close>, if it is called, how often \<open>hzclock\<close> is due, and the
  timers whose function was called, in order.
\<close>

partial_function (option) timer_loop ::
    "(int \<Rightarrow> int) \<Rightarrow> (tid \<Rightarrow> timers \<Rightarrow> timers option) \<Rightarrow> int \<Rightarrow> machno \<Rightarrow> nat \<Rightarrow> tid list \<Rightarrow> timers \<Rightarrow>
     (int option \<times> nat \<times> tid list \<times> timers) option" where
  "timer_loop tk f now k callhz fired s = (case heads s k of
      [] \<Rightarrow> Some (None, 0, fired, s)
    | t # ts \<Rightarrow>
        if twhen (tm s t) > now then Some (Some (twhen (tm s t)), callhz, fired, s)
        else (case tpop k s of
            None \<Rightarrow> None
          | Some s1 \<Rightarrow> (case (if tf (tm s1 t) then f t s1 else Some s1) of
              None \<Rightarrow> None
            | Some s2 \<Rightarrow> (case tagain tk now k t s2 of
                None \<Rightarrow> None
              | Some s3 \<Rightarrow>
                  timer_loop tk f now k (if tf (tm s1 t) then callhz else callhz + 1) (fired @ [t]) s3))))"

declare timer_loop.simps [code]

definition timerintr ::
    "(int \<Rightarrow> int) \<Rightarrow> (tid \<Rightarrow> timers \<Rightarrow> timers option) \<Rightarrow> int \<Rightarrow> machno \<Rightarrow> timers \<Rightarrow>
     (int option \<times> bool \<times> tid list \<times> timers) option" where
  "timerintr tk f now k s = do {
     (when, callhz, fired, s) \<leftarrow> timer_loop tk f now k 0 [] s;
     Some (when, callhz \<noteq> 0, fired, s)
   }"

definition timersinit :: "(int \<Rightarrow> int) \<Rightarrow> int \<Rightarrow> machno \<Rightarrow> tid \<Rightarrow> timers \<Rightarrow> (int option \<times> timers) option" where
  "timersinit tk now m t s =
     timeradd tk now m t (s\<lparr>tm := (tm s)(t := \<lparr>tmode = Tperiodic, tns = int (1000000000 div HZ), tf = False, tt = None, twhen = 0\<rparr>)\<rparr>)"

definition addclock0link :: "(int \<Rightarrow> int) \<Rightarrow> int \<Rightarrow> tid \<Rightarrow> int \<Rightarrow> timers \<Rightarrow> (int option \<times> timers) option" where
  "addclock0link tk now nt ms s = do {
     let ms = (if ms = 0 then int (1000 div HZ) else ms);
     (when, s) \<leftarrow> tadd tk now 0 nt
        (s\<lparr>tm := (tm s)(nt := \<lparr>tmode = Tperiodic, tns = ms * 1000000, tf = True, tt = None, twhen = 0\<rparr>)\<rparr>);
     Some (if when \<noteq> 0 then Some when else None, s)
   }"

subsection \<open>Well-formed lists\<close>

definition tsorted :: "timers \<Rightarrow> tid list \<Rightarrow> bool" where
  "tsorted s ts = sorted (map (\<lambda>t. twhen (tm s t)) ts)"

text \<open>A timer is on the list of the machine its \<open>tt\<close> says, once, and the lists are in order of time.\<close>

definition twf :: "timers \<Rightarrow> bool" where
  "twf s \<longleftrightarrow> (\<forall>t. 0 \<le> twhen (tm s t)) \<and> (\<forall>t. tt (tm s t) \<noteq> None \<longrightarrow> 0 < twhen (tm s t)) \<and>
     (\<forall>k. tsorted s (heads s k) \<and> distinct (heads s k) \<and> set (heads s k) = {t. tt (tm s t) = Some k})"

lemma twfD:
  assumes "twf s"
  shows "0 \<le> twhen (tm s t)" "tt (tm s t) = Some k \<Longrightarrow> 0 < twhen (tm s t)" "tsorted s (heads s k)" "distinct (heads s k)"
    "t \<in> set (heads s k) \<longleftrightarrow> tt (tm s t) = Some k"
  using assms by (auto simp: twf_def)

lemma twf_hd_le:
  assumes "twf s" "t \<in> set (heads s k)" shows "twhen (tm s (hd (heads s k))) \<le> twhen (tm s t)"
  using twfD(3) [OF assms(1), of k] assms(2) by (cases "heads s k") (auto simp: tsorted_def)

lemma insert_timer_props:
  "set (insert_timer m nt ts) = insert nt (set ts)"
  "nt \<notin> set ts \<Longrightarrow> distinct ts \<Longrightarrow> distinct (insert_timer m nt ts)"
  "insert_timer m nt ts \<noteq> []"
  "hd (insert_timer m nt ts) = nt \<or> ts \<noteq> [] \<and> hd (insert_timer m nt ts) = hd ts"
  by (induction ts) auto

lemma insert_timer_sorted:
  "sorted (map (\<lambda>t. twhen (m t)) ts) \<Longrightarrow> sorted (map (\<lambda>t. twhen (m t)) (insert_timer m nt ts))"
  by (induction ts) (auto simp: insert_timer_props(1))

lemma tsorted_cong: "(\<And>t. t \<in> set ts \<Longrightarrow> twhen (tm s t) = twhen (tm s' t)) \<Longrightarrow> tsorted s ts = tsorted s' ts"
  unfolding tsorted_def by (metis (no_types, lifting) map_eq_conv)

lemma tsorted_remove1: "tsorted s ts \<Longrightarrow> tsorted s (remove1 t ts)"
  unfolding tsorted_def by (induction ts) (auto dest: notin_set_remove1)

text \<open>What the code uses of the conversion of nanoseconds.\<close>

locale tick_conv =
  fixes tk :: "int \<Rightarrow> int"
  assumes tk_nonneg: "0 \<le> tk ns"
begin

lemma next_when_pos:
  assumes "twf s" "0 < now" "next_when tk now s k nt = Some t"
  shows "0 < twhen t" "tmode t = tmode (tm s nt)" "tt t = tt (tm s nt)" "tf t = tf (tm s nt)"
proof -
  have u: "0 < twhen (tm s u)" if "find P (heads s k) = Some u" for P u
    using that twfD(2,5) [OF assms(1)] by (metis find_Some_iff nth_mem)
  have "0 < twhen t \<and> tmode t = tmode (tm s nt) \<and> tt t = tt (tm s nt) \<and> tf t = tf (tm s nt)"
    using assms(2,3) tk_nonneg [of 1] tk_nonneg [of "tns (tm s nt)"] twfD(1) [OF assms(1), of nt]
    by (auto simp: next_when_def Let_def dest: u split: tmode.splits if_splits option.splits)
  then show "0 < twhen t" "tmode t = tmode (tm s nt)" "tt t = tt (tm s nt)" "tf t = tf (tm s nt)" by blast+
qed

lemma tadd_twf:
  assumes wf: "twf s" and now: "0 < now" and a: "tadd tk now k nt s = Some (w, s')"
  shows "twf s'" "j \<noteq> k \<Longrightarrow> heads s' j = heads s j" "heads s' k \<noteq> []"
    "w \<noteq> 0 \<Longrightarrow> w = twhen (tm s' (hd (heads s' k)))"
    "w = 0 \<Longrightarrow> heads s k \<noteq> [] \<and> hd (heads s' k) = hd (heads s k) \<and> hd (heads s k) \<noteq> nt"
    "t \<noteq> nt \<Longrightarrow> tm s' t = tm s t" "set (heads s' k) = insert nt (set (heads s k))" "tt (tm s nt) = None"
    "\<exists>t. next_when tk now s k nt = Some t \<and> tm s' nt = t\<lparr>tt := Some k\<rparr>"
proof -
  obtain t where t: "tt (tm s nt) = None" "next_when tk now s k nt = Some t" and s':
    "s' = s\<lparr>tm := (tm s)(nt := t\<lparr>tt := Some k\<rparr>), heads := (heads s)(k := insert_timer ((tm s)(nt := t)) nt (heads s k))\<rparr>"
    and w: "w = (if hd (insert_timer ((tm s)(nt := t)) nt (heads s k)) = nt then twhen t else 0)"
    using a by (auto simp: tadd_def Let_def split: if_splits option.splits)
  have p: "0 < twhen t" by (rule next_when_pos [OF wf now t(2)])
  have nin: "nt \<notin> set (heads s j)" for j using twfD(5) [OF wf] t(1) by simp
  have "tsorted s (heads s k)" by (rule twfD(3) [OF wf])
  then have "sorted (map (\<lambda>u. twhen (((tm s)(nt := t)) u)) (heads s k))"
    using nin [of k] unfolding tsorted_def by (metis (mono_tags, lifting) fun_upd_other map_eq_conv)
  then have "sorted (map (\<lambda>u. twhen (((tm s)(nt := t)) u)) (insert_timer ((tm s)(nt := t)) nt (heads s k)))"
    by (rule insert_timer_sorted)
  moreover have tw: "twhen (tm s' u) = twhen (((tm s)(nt := t)) u)" for u by (simp add: s')
  ultimately have srt: "tsorted s' (heads s' k)" unfolding tsorted_def tw by (simp add: s')
  have other: "tsorted s' (heads s' j)" if "j \<noteq> k" for j
  proof -
    have "tsorted s (heads s j) = tsorted s' (heads s j)" by (rule tsorted_cong) (use nin [of j] in \<open>auto simp: tw\<close>)
    moreover have "heads s' j = heads s j" using that by (simp add: s')
    ultimately show ?thesis using twfD(3) [OF wf, of j] by simp
  qed
  show wf': "twf s'"
    unfolding twf_def
  proof (intro conjI allI impI)
    fix j
    show "tsorted s' (heads s' j)" using srt other by (cases "j = k") auto
    show "distinct (heads s' j)" "set (heads s' j) = {t. tt (tm s' t) = Some j}"
      using twfD(4,5) [OF wf] nin t(1) by (auto simp: s' insert_timer_props)
  qed (use wf p in \<open>auto simp: s' twf_def\<close>)
  show "j \<noteq> k \<Longrightarrow> heads s' j = heads s j" "t \<noteq> nt \<Longrightarrow> tm s' t = tm s t" "tt (tm s nt) = None" "heads s' k \<noteq> []"
    "set (heads s' k) = insert nt (set (heads s k))" "\<exists>t. next_when tk now s k nt = Some t \<and> tm s' nt = t\<lparr>tt := Some k\<rparr>" for t j
    using t by (auto simp: s' insert_timer_props)
  show "w \<noteq> 0 \<Longrightarrow> w = twhen (tm s' (hd (heads s' k)))" using w by (auto simp: s' split: if_splits)
  show "w = 0 \<Longrightarrow> heads s k \<noteq> [] \<and> hd (heads s' k) = hd (heads s k) \<and> hd (heads s k) \<noteq> nt"
    using w p insert_timer_props(4) [of "(tm s)(nt := t)" nt "heads s k"] by (auto simp: s' split: if_splits)
qed

end

lemma tdel_twf:
  assumes wf: "twf s" and d: "tdel dt s = (w, s')"
  shows "twf s'" "heads s' j = remove1 dt (heads s j)" "tt (tm s' dt) = None" "t \<noteq> dt \<Longrightarrow> tm s' t = tm s t"
    "tm s' dt = (tm s dt)\<lparr>tt := None\<rparr>"
    "tt (tm s dt) = Some k \<Longrightarrow> heads s' k \<noteq> [] \<Longrightarrow> hd (heads s k) = dt \<Longrightarrow> w = twhen (tm s' (hd (heads s' k)))"
    "w \<noteq> 0 \<Longrightarrow> \<exists>k. tt (tm s dt) = Some k \<and> heads s' k \<noteq> []"
proof -
  have in_heads: "dt \<in> set (heads s j) \<longleftrightarrow> tt (tm s dt) = Some j" for j by (rule twfD(5) [OF wf])
  have "heads s' j = remove1 dt (heads s j) \<and> tm s' = (tm s)(dt := (tm s dt)\<lparr>tt := None\<rparr>)" for j
  proof (cases "tt (tm s dt)")
    case None
    then have "s' = s" using d by (simp add: tdel_def)
    moreover have "(tm s)(dt := (tm s dt)\<lparr>tt := None\<rparr>) = tm s"
      by (rule fun_upd_idem) (use None in \<open>cases "tm s dt"; simp\<close>)
    ultimately show ?thesis using in_heads [of j] None by (simp add: remove1_idem)
  next
    case (Some k)
    then have k: "dt \<in> set (heads s k)" using in_heads by blast
    then have "s' = s\<lparr>tm := (tm s)(dt := (tm s dt)\<lparr>tt := None\<rparr>), heads := (heads s)(k := remove1 dt (heads s k))\<rparr>"
      using d Some by (auto simp: tdel_def Let_def split: if_splits)
    then show ?thesis using in_heads [of j] Some by (auto simp: remove1_idem)
  qed
  then have *: "heads s' j = remove1 dt (heads s j)" "tm s' = (tm s)(dt := (tm s dt)\<lparr>tt := None\<rparr>)" for j by blast+
  have tw: "twhen (tm s' u) = twhen (tm s u)" for u by (simp add: *(2))
  show "twf s'"
    unfolding twf_def
  proof (intro conjI allI impI)
    fix j
    have "tsorted s (heads s' j)" unfolding *(1) by (rule tsorted_remove1 [OF twfD(3) [OF wf]])
    then show "tsorted s' (heads s' j)" using tw by (simp add: tsorted_def)
    show "distinct (heads s' j)" using twfD(4) [OF wf] by (simp add: *(1))
    show "set (heads s' j) = {t. tt (tm s' t) = Some j}" using twfD(4,5) [OF wf] by (auto simp: *)
  qed (use wf tw in \<open>auto simp: *(2) twf_def split: if_splits\<close>)
  show "heads s' j = remove1 dt (heads s j)" "tt (tm s' dt) = None" "t \<noteq> dt \<Longrightarrow> tm s' t = tm s t"
    "tm s' dt = (tm s dt)\<lparr>tt := None\<rparr>" using * by simp_all
  show "tt (tm s dt) = Some k \<Longrightarrow> heads s' k \<noteq> [] \<Longrightarrow> hd (heads s k) = dt \<Longrightarrow> w = twhen (tm s' (hd (heads s' k)))"
    using d in_heads [of k] by (auto simp: tdel_def Let_def split: if_splits)
  show "w \<noteq> 0 \<Longrightarrow> \<exists>k. tt (tm s dt) = Some k \<and> heads s' k \<noteq> []"
    using d by (auto simp: tdel_def Let_def split: if_splits option.splits)
qed

text \<open>The clock of machine \<open>k\<close>, set to \<open>a\<close>, goes off before or when its first timer does.\<close>

definition covered :: "timers \<Rightarrow> int option \<Rightarrow> machno \<Rightarrow> bool" where
  "covered s a k \<longleftrightarrow> heads s k = [] \<or> (\<exists>x. a = Some x \<and> x \<le> twhen (tm s (hd (heads s k))))"

definition arm :: "machno \<Rightarrow> int option \<Rightarrow> (machno \<Rightarrow> int option) \<Rightarrow> machno \<Rightarrow> int option" where
  "arm m w a = (case w of None \<Rightarrow> a | Some x \<Rightarrow> a(m := Some x))"

lemma covered_tdel:
  assumes wf: "twf s" and d: "tdel dt s = (w, s')" and c: "covered s a k"
  shows "covered s' a k"
proof (cases "heads s' k = []")
  case False
  let ?h = "hd (heads s' k)"
  have h: "?h \<in> set (heads s' k)" using False by simp
  then have hin: "?h \<in> set (heads s k)" using tdel_twf(2) [OF wf d, of k] by (metis notin_set_remove1)
  have "?h \<noteq> dt" using h twfD(5) [OF tdel_twf(1) [OF wf d], of ?h k] tdel_twf(3) [OF wf d] by auto
  then have "twhen (tm s (hd (heads s k))) \<le> twhen (tm s' ?h)"
    using twf_hd_le [OF wf hin] tdel_twf(4) [OF wf d, of ?h] by simp
  moreover have "heads s k \<noteq> []" using hin by auto
  ultimately show ?thesis using c unfolding covered_def by (metis order_trans)
qed (simp add: covered_def)

lemma tsys_timerdel:
  assumes wf: "twf s" and d: "timerdel m dt s = (w, s')"
  shows "twf s'" "covered s (a k) k \<Longrightarrow> covered s' (arm m w a k) k"
proof -
  obtain v where v: "tdel dt s = (v, s')"
    using d by (cases "tdel dt s") (auto simp: timerdel_def tdel_def split: option.splits)
  show "twf s'" by (rule tdel_twf(1) [OF wf v])
  assume c: "covered s (a k) k"
  have w: "w = None \<or> w = Some (twhen (tm s' (hd (heads s' m))))"
    using d v by (auto simp: timerdel_def split: option.splits if_splits)
  show "covered s' (arm m w a k) k"
    using covered_tdel [OF wf v c] w by (cases "k = m") (auto simp: arm_def covered_def)
qed

context tick_conv
begin

lemma tsys_timeradd:
  assumes wf: "twf s" and now: "0 < now" and a: "timeradd tk now m nt s = Some (w, s')"
  shows "twf s'" "covered s (a k) k \<Longrightarrow> covered s' (arm m w a k) k"
proof -
  obtain v0 s0 where d: "tdel nt s = (v0, s0)" by (cases "tdel nt s")
  have s0: "(if tt (tm s nt) \<noteq> None then snd (tdel nt s) else s) = s0" using d by (auto simp: tdel_def)
  obtain v where v: "tadd tk now m nt s0 = Some (v, s')" "w = (if v \<noteq> 0 then Some v else None)"
    using a unfolding timeradd_def Let_def s0 by (auto split: bind_splits)
  note wf0 = tdel_twf(1) [OF wf d] and t = tadd_twf [OF tdel_twf(1) [OF wf d] now v(1)]
  show "twf s'" by (rule t(1))
  assume "covered s (a k) k"
  then have c: "covered s0 (a k) k" by (rule covered_tdel [OF wf d])
  show "covered s' (arm m w a k) k"
  proof (cases "k = m")
    case False
    have "heads s' k = heads s0 k" using t(2) False by blast
    moreover have "tm s' (hd (heads s0 k)) = tm s0 (hd (heads s0 k))" if "heads s0 k \<noteq> []"
      using that t(6,8) twfD(5) [OF wf0, of "hd (heads s0 k)" k] by (metis hd_in_set option.distinct(1))
    ultimately show ?thesis using c False v(2) by (auto simp: covered_def arm_def)
  next
    case True
    show ?thesis
    proof (cases "v = 0")
      case True
      then show ?thesis using t(5,6) c v(2) \<open>k = m\<close> by (auto simp: covered_def arm_def)
    next
      case False
      then show ?thesis using t(4) v(2) \<open>k = m\<close> by (auto simp: covered_def arm_def)
    qed
  qed
qed

end

subsection \<open>The machines\<close>

text \<open>
  What a machine does with its timers: nothing, the loop of \<open>timerintr\<close> entered at a time, or the
  function of a timer the loop took off. Any process on any machine adds and deletes timers in
  between, the function that runs included, and changes the fields of its own timers.
\<close>

datatype hstate = Idle | Loop int | Fire int tid

record tsys =
  y_t :: timers
  y_armed :: "machno \<Rightarrow> int option"
  y_in :: "machno \<Rightarrow> hstate"

inductive tstep :: "(int \<Rightarrow> int) \<Rightarrow> tsys \<Rightarrow> tsys \<Rightarrow> bool" for tk where
  add: "0 < now \<Longrightarrow> timeradd tk now m nt (y_t y) = Some (w, s) \<Longrightarrow>
    tstep tk y (y\<lparr>y_t := s, y_armed := arm m w (y_armed y)\<rparr>)"
| del: "timerdel m dt (y_t y) = (w, s) \<Longrightarrow> tstep tk y (y\<lparr>y_t := s, y_armed := arm m w (y_armed y)\<rparr>)"
| program: "tstep tk y (y\<lparr>y_t := (y_t y)\<lparr>tm := (tm (y_t y))(t := (tm (y_t y) t)\<lparr>tmode := md, tns := ns, tf := fn\<rparr>)\<rparr>\<rparr>)"
| reset: "tt (tm (y_t y) t) = None \<Longrightarrow>
    tstep tk y (y\<lparr>y_t := (y_t y)\<lparr>tm := (tm (y_t y))(t := (tm (y_t y) t)\<lparr>twhen := 0\<rparr>)\<rparr>\<rparr>)"
| intr: "y_in y k = Idle \<Longrightarrow> 0 < now \<Longrightarrow>
    tstep tk y (y\<lparr>y_armed := (y_armed y)(k := None), y_in := (y_in y)(k := Loop now)\<rparr>)"
| fire: "y_in y k = Loop now \<Longrightarrow> heads (y_t y) k = t # ts \<Longrightarrow> twhen (tm (y_t y) t) \<le> now \<Longrightarrow> tpop k (y_t y) = Some s \<Longrightarrow>
    tstep tk y (y\<lparr>y_t := s, y_in := (y_in y)(k := Fire now t)\<rparr>)"
| again: "y_in y k = Fire now t \<Longrightarrow> 0 < rd \<Longrightarrow> tagain tk rd k t (y_t y) = Some s \<Longrightarrow>
    tstep tk y (y\<lparr>y_t := s, y_in := (y_in y)(k := Loop now)\<rparr>)"
| leave: "y_in y k = Loop now \<Longrightarrow> heads (y_t y) k = t # ts \<Longrightarrow> now < twhen (tm (y_t y) t) \<Longrightarrow>
    tstep tk y (y\<lparr>y_armed := (y_armed y)(k := Some (twhen (tm (y_t y) t))), y_in := (y_in y)(k := Idle)\<rparr>)"
| leave_empty: "y_in y k = Loop now \<Longrightarrow> heads (y_t y) k = [] \<Longrightarrow> tstep tk y (y\<lparr>y_in := (y_in y)(k := Idle)\<rparr>)"

inductive treach :: "(int \<Rightarrow> int) \<Rightarrow> tsys \<Rightarrow> bool" for tk where
  start: "(\<And>t. tt (tm (y_t y) t) = None) \<Longrightarrow> (\<And>t. twhen (tm (y_t y) t) = 0) \<Longrightarrow> heads (y_t y) = (\<lambda>k. []) \<Longrightarrow>
    y_in y = (\<lambda>k. Idle) \<Longrightarrow> treach tk y"
| step: "treach tk y \<Longrightarrow> tstep tk y z \<Longrightarrow> treach tk z"

definition tinv :: "tsys \<Rightarrow> bool" where
  "tinv y \<longleftrightarrow> twf (y_t y) \<and> (\<forall>k. y_in y k = Idle \<longrightarrow> covered (y_t y) (y_armed y k) k)"

lemma tinvI: "twf (y_t y) \<Longrightarrow> (\<And>k. y_in y k = Idle \<Longrightarrow> covered (y_t y) (y_armed y k) k) \<Longrightarrow> tinv y"
  by (simp add: tinv_def)

text \<open>The fields of a timer that do not place it.\<close>

lemma twf_program:
  assumes "twf s" "\<And>t. twhen (m t) = twhen (tm s t)" "\<And>t. tt (m t) = tt (tm s t)"
  shows "twf (s\<lparr>tm := m\<rparr>)" "covered (s\<lparr>tm := m\<rparr>) a k = covered s a k"
  using assms by (simp_all add: twf_def tsorted_def covered_def)

lemma twf_reset:
  assumes "twf s" "tt (tm s t) = None"
  shows "twf (s\<lparr>tm := (tm s)(t := (tm s t)\<lparr>twhen := 0\<rparr>)\<rparr>)"
    "covered (s\<lparr>tm := (tm s)(t := (tm s t)\<lparr>twhen := 0\<rparr>)\<rparr>) a k = covered s a k"
proof -
  let ?s = "s\<lparr>tm := (tm s)(t := (tm s t)\<lparr>twhen := 0\<rparr>)\<rparr>"
  have nin: "u \<in> set (heads s j) \<Longrightarrow> u \<noteq> t" for u j using twfD(5) [OF assms(1)] assms(2) by auto
  have "tsorted s (heads s j) = tsorted ?s (heads s j)" for j by (rule tsorted_cong) (use nin in auto)
  then show "twf ?s" using assms by (auto simp: twf_def)
  show "covered ?s a k = covered s a k" using nin [of "hd (heads s k)" k] by (auto simp: covered_def)
qed

lemma tpop_tdel:
  assumes "twf s" "heads s k = t # ts"
  shows "\<exists>w s'. tpop k s = Some s' \<and> tdel t s = (w, s')"
proof -
  have "tt (tm s t) = Some k" using twfD(5) [OF assms(1), of t k] assms(2) by simp
  then show ?thesis using assms(2) by (simp add: tpop_def tdel_def Let_def)
qed

context tick_conv
begin

lemma tagain_twf:
  assumes wf: "twf s" and now: "0 < now" and a: "tagain tk now k t s = Some s'"
  shows "twf s'" "j \<noteq> k \<Longrightarrow> covered s a j \<Longrightarrow> covered s' a j"
proof -
  obtain w where "s' = s \<or> tadd tk now k t s = Some (w, s')" using a by (auto simp: tagain_def split: if_splits)
  then consider "s' = s" | "tadd tk now k t s = Some (w, s')" by blast
  then have "twf s' \<and> (j \<noteq> k \<longrightarrow> covered s a j \<longrightarrow> covered s' a j)"
  proof cases
    case 2
    note p = tadd_twf [OF wf now 2]
    have "covered s a j = covered s' a j" if "j \<noteq> k"
    proof -
      have h: "heads s' j = heads s j" by (rule p(2) [OF that])
      have "tm s' (hd (heads s j)) = tm s (hd (heads s j))" if "heads s j \<noteq> []"
        using that p(6,8) twfD(5) [OF wf, of "hd (heads s j)" j] by (metis hd_in_set option.distinct(1))
      then show ?thesis using h by (auto simp: covered_def)
    qed
    then show ?thesis using p(1) by blast
  qed (use wf in auto)
  then show "twf s'" "j \<noteq> k \<Longrightarrow> covered s a j \<Longrightarrow> covered s' a j" by blast+
qed

lemma tstep_inv: "tstep tk y z \<Longrightarrow> tinv y \<Longrightarrow> tinv z"
proof (induction rule: tstep.induct)
  case (add now m nt y w s)
  then show ?case using tsys_timeradd by (auto simp: tinv_def)
next
  case (del m dt y w s)
  then show ?case using tsys_timerdel by (auto simp: tinv_def)
next
  case (program y t md ns fn)
  then show ?case by (auto simp: tinv_def intro!: twf_program(1) iffD2 [OF twf_program(2)])
next
  case (reset y t)
  then show ?case by (auto simp: tinv_def twf_reset)
next
  case (fire y k now t ts s)
  then have "\<exists>w. tdel t (y_t y) = (w, s)" using tpop_tdel [of "y_t y" k t ts] by (auto simp: tinv_def)
  then show ?case using fire tdel_twf(1) covered_tdel by (auto simp: tinv_def split: if_splits)
next
  case (again y k now t rd s)
  then show ?case using tagain_twf by (auto simp: tinv_def split: if_splits)
qed (auto simp: tinv_def covered_def split: if_splits)

lemma treach_inv: "treach tk y \<Longrightarrow> tinv y"
proof (induction rule: treach.induct)
  case (start y)
  then show ?case by (auto simp: tinv_def twf_def tsorted_def covered_def)
qed (rule tstep_inv)

end

subsection \<open>What the interrupt does\<close>

definition period :: "(int \<Rightarrow> int) \<Rightarrow> timer \<Rightarrow> int" where
  "period tk t = (if tk (tns t) = 0 then 1 else tk (tns t))"

text \<open>How often a timer fires until it is no longer due at \<open>now\<close>, and what becomes of it.\<close>

definition rounds :: "(int \<Rightarrow> int) \<Rightarrow> int \<Rightarrow> timer \<Rightarrow> nat" where
  "rounds tk now t =
     (if now < twhen t then 0
      else if tmode t = Trelative then 1 else nat ((now - twhen t) div period tk t + 1))"

definition fired_timer :: "(int \<Rightarrow> int) \<Rightarrow> int \<Rightarrow> timer \<Rightarrow> timer" where
  "fired_timer tk now t =
     (if now < twhen t then t
      else if tmode t = Trelative then t\<lparr>tt := None\<rparr>
      else t\<lparr>twhen := twhen t + period tk t * int (rounds tk now t)\<rparr>)"

definition backlog :: "int \<Rightarrow> machno \<Rightarrow> timers \<Rightarrow> nat" where
  "backlog now k s = (\<Sum>t \<in> set (heads s k). nat (now + 1 - twhen (tm s t)))"

context tick_conv
begin

lemma period_pos: "0 < period tk t"
  using tk_nonneg [of "tns t"] by (simp add: period_def)

lemma rounds_again:
  assumes "tmode t = Tperiodic" "twhen t \<le> now"
  shows "rounds tk now t = Suc (rounds tk now (t\<lparr>twhen := twhen t + period tk t\<rparr>))"
    "fired_timer tk now (t\<lparr>twhen := twhen t + period tk t\<rparr>) = fired_timer tk now t"
proof -
  let ?p = "period tk t" and ?u = "t\<lparr>twhen := twhen t + period tk t\<rparr>"
  have p: "0 < ?p" "period tk ?u = ?p" using period_pos by (simp_all add: period_def)
  show r: "rounds tk now t = Suc (rounds tk now ?u)"
  proof (cases "now < twhen t + ?p")
    case True
    then have "(now - twhen t) div ?p = 0" using assms(2) p(1) by (simp add: div_pos_pos_trivial)
    then show ?thesis using assms True by (simp add: rounds_def)
  next
    case False
    have "(now - twhen t) div ?p = (now - twhen t - ?p) div ?p + 1"
      using div_add_self2 [of ?p "now - twhen t - ?p"] p(1) by simp
    moreover have "0 \<le> (now - twhen t - ?p) div ?p" using False p(1) by (simp add: pos_imp_zdiv_nonneg_iff)
    ultimately show ?thesis using assms False p(2) by (simp add: rounds_def diff_diff_eq nat_add_distrib)
  qed
  show "fired_timer tk now ?u = fired_timer tk now t"
  proof (cases "now < twhen t + ?p")
    case True
    then have "rounds tk now ?u = 0" by (simp add: rounds_def)
    then show ?thesis using assms True r by (simp add: fired_timer_def)
  next
    case False
    then show ?thesis using assms r p(2) by (simp add: fired_timer_def algebra_simps)
  qed
qed

lemma tagain_fired:
  assumes wf: "twf s" and h: "heads s k = t # ts" and due: "twhen (tm s t) \<le> now" and now: "0 < now"
    and s1: "tpop k s = Some s1" and per: "tmode (tm s t) = Tperiodic \<Longrightarrow> 100000 \<le> tns (tm s t)"
  shows "\<exists>s3. tagain tk now k t s1 = Some s3 \<and> twf s3 \<and> (\<forall>j. j \<noteq> k \<longrightarrow> heads s3 j = heads s j) \<and>
    (\<forall>u. u \<noteq> t \<longrightarrow> tm s3 u = tm s u) \<and> backlog now k s3 < backlog now k s \<and>
    (if tmode (tm s t) = Tperiodic
     then set (heads s3 k) = set (heads s k) \<and> tm s3 t = (tm s t)\<lparr>twhen := twhen (tm s t) + period tk (tm s t)\<rparr>
     else heads s3 k = ts \<and> tm s3 t = (tm s t)\<lparr>tt := None\<rparr>)"
proof -
  obtain w where d: "tdel t s = (w, s1)" using tpop_tdel [OF wf h] s1 by auto
  have t: "tt (tm s t) = Some k" "t \<notin> set ts" "distinct ts" using twfD(4) [OF wf, of k] twfD(5) [OF wf, of t k] h by auto
  have s1h: "heads s1 k = ts" "\<And>j. j \<noteq> k \<Longrightarrow> heads s1 j = heads s j" "tm s1 t = (tm s t)\<lparr>tt := None\<rparr>"
    "\<And>u. u \<noteq> t \<Longrightarrow> tm s1 u = tm s u" "twf s1"
    using s1 h t(1) tdel_twf(1) [OF wf d] by (auto simp: tpop_def)
  have pos: "0 < twhen (tm s t)" by (rule twfD(2) [OF wf t(1)])
  have rest: "(\<Sum>u \<in> set ts. nat (now + 1 - twhen (tm z u))) = (\<Sum>u \<in> set ts. nat (now + 1 - twhen (tm s u)))"
    if "\<And>u. u \<noteq> t \<Longrightarrow> tm z u = tm s u" for z
  proof (rule sum.cong [OF refl])
    fix u assume "u \<in> set ts"
    then have "u \<noteq> t" using t(2) by blast
    then show "nat (now + 1 - twhen (tm z u)) = nat (now + 1 - twhen (tm s u))" by (simp add: that)
  qed
  have old: "backlog now k s = nat (now + 1 - twhen (tm s t)) + (\<Sum>u \<in> set ts. nat (now + 1 - twhen (tm s u)))"
    using t(2) by (simp add: backlog_def h)
  show ?thesis
  proof (cases "tmode (tm s t)")
    case Trelative
    then have "tagain tk now k t s1 = Some s1" by (simp add: tagain_def s1h(3))
    moreover have "backlog now k s1 < backlog now k s" using rest [OF s1h(4)] due by (simp add: old) (simp add: backlog_def s1h(1))
    ultimately show ?thesis using s1h Trelative by auto
  next
    case Tperiodic
    let ?t = "(tm s t)\<lparr>tt := None, twhen := twhen (tm s t) + period tk (tm s t)\<rparr>"
    have nw: "next_when tk now s1 k t = Some ?t"
      using per [OF Tperiodic] pos Tperiodic by (simp add: next_when_def s1h(3) Let_def period_def)
    then obtain w3 s3 where a: "tadd tk now k t s1 = Some (w3, s3)" by (simp add: tadd_def s1h(3) Let_def)
    note p = tadd_twf [OF s1h(5) now a]
    have t3: "tm s3 t = (tm s t)\<lparr>twhen := twhen (tm s t) + period tk (tm s t)\<rparr>"
      using p(9) nw t(1) by (cases "tm s t") auto
    have u3: "u \<noteq> t \<Longrightarrow> tm s3 u = tm s u" for u using p(6) s1h(4) by metis
    have set3: "set (heads s3 k) = insert t (set ts)" using p(7) s1h(1) by simp
    then have "backlog now k s3 = nat (now + 1 - twhen (tm s3 t)) + (\<Sum>u \<in> set ts. nat (now + 1 - twhen (tm s u)))"
      using t(2) rest [OF u3] by (simp add: backlog_def)
    then have "backlog now k s3 < backlog now k s" using old due period_pos [of "tm s t"] by (simp add: t3)
    moreover have "tagain tk now k t s1 = Some s3" using Tperiodic a by (simp add: tagain_def s1h(3))
    moreover have "heads s3 j = heads s j" if "j \<noteq> k" for j using p(2) s1h(2) that by metis
    ultimately show ?thesis using p(1) u3 t3 set3 h Tperiodic by auto
  qed
qed

end

context tick_conv
begin

text \<open>The loop, from any state it can reach: how far it is and what it will have done.\<close>

lemma timer_loop_ok:
  assumes "twf s" "0 < now" "\<And>t. t \<in> set (heads s k) \<Longrightarrow> tmode (tm s t) = Tperiodic \<Longrightarrow> 100000 \<le> tns (tm s t)"
    and f: "\<And>t s. f t s = Some s"
  shows "\<exists>n fired' s'. timer_loop tk f now k hz fired s =
      Some (case heads s' k of [] \<Rightarrow> None | t # _ \<Rightarrow> Some (twhen (tm s' t)), n, fired @ fired', s') \<and>
    twf s' \<and> (\<forall>j. j \<noteq> k \<longrightarrow> heads s' j = heads s j) \<and> (\<forall>t. t \<in> set (heads s' k) \<longrightarrow> now < twhen (tm s' t)) \<and>
    (\<forall>t. tm s' t = (if t \<in> set (heads s k) then fired_timer tk now (tm s t) else tm s t)) \<and>
    (\<forall>t. count_list fired' t = (if t \<in> set (heads s k) then rounds tk now (tm s t) else 0))"
  using assms(1-3)
proof (induction "backlog now k s" arbitrary: s hz fired rule: less_induct)
  case less
  show ?case
  proof (cases "heads s k")
    case Nil
    then show ?thesis using less.prems by (intro exI [of _ 0] exI [of _ "[]"] exI [of _ s]) (simp add: timer_loop.simps)
  next
    case h: (Cons t ts)
    show ?thesis
    proof (cases "twhen (tm s t) > now")
      case True
      then have later: "now < twhen (tm s u)" if "u \<in> set (heads s k)" for u
        using twf_hd_le [OF less.prems(1) that] h by simp
      have "fired_timer tk now (tm s u) = tm s u \<and> rounds tk now (tm s u) = 0" if "u \<in> set (heads s k)" for u
        using later [OF that] by (simp add: fired_timer_def rounds_def)
      then show ?thesis
        using less.prems(1) later h True
        by (intro exI [of _ hz] exI [of _ "[]"] exI [of _ s]) (subst timer_loop.simps, auto)
    next
      case due: False
      obtain s1 where s1: "tpop k s = Some s1" using tpop_tdel [OF less.prems(1) h] by blast
      obtain s3 where s3: "tagain tk now k t s1 = Some s3" "twf s3" "\<And>j. j \<noteq> k \<Longrightarrow> heads s3 j = heads s j"
        "\<And>u. u \<noteq> t \<Longrightarrow> tm s3 u = tm s u" "backlog now k s3 < backlog now k s" and
        mode: "if tmode (tm s t) = Tperiodic
           then set (heads s3 k) = set (heads s k) \<and> tm s3 t = (tm s t)\<lparr>twhen := twhen (tm s t) + period tk (tm s t)\<rparr>
           else heads s3 k = ts \<and> tm s3 t = (tm s t)\<lparr>tt := None\<rparr>"
        using tagain_fired [OF less.prems(1) h _ less.prems(2) s1] due less.prems(3) h by auto
      have t: "t \<notin> set ts" using twfD(4) [OF less.prems(1), of k] h by simp
      have per: "100000 \<le> tns (tm s3 u)" if "u \<in> set (heads s3 k)" "tmode (tm s3 u) = Tperiodic" for u
        using that mode less.prems(3) [of u] s3(4) [of u] h by (cases "u = t") (auto split: if_splits)
      let ?hz = "if tf (tm s1 t) then hz else hz + 1"
      from less.hyps [OF s3(5,2) less.prems(2) per, of ?hz "fired @ [t]"] obtain n fired' s' where
        r: "timer_loop tk f now k ?hz (fired @ [t]) s3 =
          Some (case heads s' k of [] \<Rightarrow> None | t # _ \<Rightarrow> Some (twhen (tm s' t)), n, (fired @ [t]) @ fired', s')"
        "twf s'" "\<And>j. j \<noteq> k \<Longrightarrow> heads s' j = heads s3 j" "\<And>t. t \<in> set (heads s' k) \<Longrightarrow> now < twhen (tm s' t)"
        "\<And>t. tm s' t = (if t \<in> set (heads s3 k) then fired_timer tk now (tm s3 t) else tm s3 t)"
        "\<And>t. count_list fired' t = (if t \<in> set (heads s3 k) then rounds tk now (tm s3 t) else 0)"
        by blast
      have step: "timer_loop tk f now k hz fired s = timer_loop tk f now k ?hz (fired @ [t]) s3"
        using h due s1 s3(1) by (subst timer_loop.simps) (simp add: f)
      have self: "tm s' t = fired_timer tk now (tm s t) \<and> count_list fired' t + 1 = rounds tk now (tm s t)"
      proof (cases "tmode (tm s t)")
        case Trelative
        then show ?thesis using mode t due r(5,6) [of t] by (simp add: fired_timer_def rounds_def)
      next
        case Tperiodic
        then show ?thesis using mode h due r(5,6) [of t] rounds_again [OF Tperiodic, of now] by simp
      qed
      have others: "tm s' u = (if u \<in> set (heads s k) then fired_timer tk now (tm s u) else tm s u) \<and>
          count_list fired' u = (if u \<in> set (heads s k) then rounds tk now (tm s u) else 0)" if "u \<noteq> t" for u
        using that mode h r(5,6) [of u] s3(4) [OF that] by (auto split: if_splits)
      show ?thesis
      proof (intro exI [of _ n] exI [of _ "t # fired'"] exI [of _ s'] conjI allI impI)
        show "timer_loop tk f now k hz fired s =
          Some (case heads s' k of [] \<Rightarrow> None | t # _ \<Rightarrow> Some (twhen (tm s' t)), n, fired @ t # fired', s')"
          using step r(1) by simp
        show "twf s'" by (rule r(2))
        show "heads s' j = heads s j" if "j \<noteq> k" for j using r(3) s3(3) that by simp
        show "now < twhen (tm s' u)" if "u \<in> set (heads s' k)" for u by (rule r(4) [OF that])
        show "tm s' u = (if u \<in> set (heads s k) then fired_timer tk now (tm s u) else tm s u)" for u
          using self others [of u] h by (cases "u = t") auto
        show "count_list (t # fired') u = (if u \<in> set (heads s k) then rounds tk now (tm s u) else 0)" for u
          using self others [of u] h by (cases "u = t") auto
      qed
    qed
  qed
qed

end

subsection \<open>Ticks of the clock\<close>

text \<open>\<open>ns2fastticks\<close> with a fixed frequency.\<close>

definition tod_ticks :: "u64 \<Rightarrow> int \<Rightarrow> int" where
  "tod_ticks d ns = uint (mul64fract (word_of_int ns) d)"

lemma tod_ticks: "td_init s \<Longrightarrow> ns2fastticks boot ns s = Some (y, s') \<Longrightarrow> uint y = tod_ticks (divider s) (uint ns)"
  by (auto simp: ns2fastticks_def todinit_def tod_ticks_def)

interpretation tod: tick_conv "tod_ticks d" for d
  by unfold_locales (simp add: tod_ticks_def)

text \<open>
  C20. In every state the machines can reach by adding, deleting, changing and firing timers in any
  order, a timer is on the list of the machine it says and on no other, once, and the lists are in
  the order of time. A machine that is not in \<open>timerintr\<close> has its clock set to go off no later than
  each of its timers, so no timer is missed; in \<open>timerintr\<close> the assertion on \<open>t->tt\<close> holds.
\<close>

theorem timers_armed:
  assumes "treach (tod_ticks d) y"
  shows "(\<forall>k. distinct (heads (y_t y) k) \<and> sorted (map (\<lambda>t. twhen (tm (y_t y) t)) (heads (y_t y) k)) \<and>
      (\<forall>t. t \<in> set (heads (y_t y) k) \<longleftrightarrow> tt (tm (y_t y) t) = Some k)) \<and>
    (\<forall>k t. y_in y k = Idle \<and> tt (tm (y_t y) t) = Some k \<longrightarrow> (\<exists>x. y_armed y k = Some x \<and> x \<le> twhen (tm (y_t y) t))) \<and>
    (\<forall>k. heads (y_t y) k \<noteq> [] \<longrightarrow> tpop k (y_t y) \<noteq> None)"
proof -
  have wf: "twf (y_t y)" and c: "\<And>k. y_in y k = Idle \<Longrightarrow> covered (y_t y) (y_armed y k) k"
    using tod.treach_inv [OF assms] by (auto simp: tinv_def)
  have armed: "\<exists>x. y_armed y k = Some x \<and> x \<le> twhen (tm (y_t y) t)" if "y_in y k = Idle" "tt (tm (y_t y) t) = Some k" for k t
  proof -
    have t: "t \<in> set (heads (y_t y) k)" using twfD(5) [OF wf] that(2) by simp
    then have "heads (y_t y) k \<noteq> []" by auto
    then show ?thesis using c [OF that(1)] twf_hd_le [OF wf t] unfolding covered_def by (metis order_trans)
  qed
  have "tpop k (y_t y) \<noteq> None" if "heads (y_t y) k \<noteq> []" for k
    using tpop_tdel [OF wf, of k "hd (heads (y_t y) k)" "tl (heads (y_t y) k)"] that by auto
  then show ?thesis using armed twfD(3-5) [OF wf] by (simp add: tsorted_def)
qed

definition ex_timers :: timers where
  "ex_timers = \<lparr>tm = (\<lambda>t. \<lparr>tmode = (if t = 1 then Tperiodic else Trelative), tns = 200000, tf = True, tt = None, twhen = 0\<rparr>),
     heads = (\<lambda>k. [])\<rparr>"

definition ex_two :: timers where
  "ex_two = \<lparr>tm = (tm ex_timers)(1 := (tm ex_timers 1)\<lparr>tt := Some 0, twhen := 200\<rparr>, 2 := (tm ex_timers 2)\<lparr>tt := Some 0, twhen := 700\<rparr>),
     heads = (\<lambda>k. [])(0 := [1, 2])\<rparr>"

lemma ex_two_wf: "twf ex_two"
  by (auto simp: twf_def tsorted_def ex_two_def ex_timers_def)

lemma timers_armed_witness:
  "\<exists>y x. treach (tod_ticks 4294967296) y \<and> tt (tm (y_t y) 1) = Some 0 \<and> y_armed y 0 = Some x \<and> x \<le> twhen (tm (y_t y) 1)"
proof -
  let ?y = "\<lparr>y_t = ex_timers, y_armed = (\<lambda>k. None), y_in = (\<lambda>k. Idle)\<rparr>"
  have r: "treach (tod_ticks 4294967296) ?y" by (rule treach.start) (simp_all add: ex_timers_def)
  have tk: "tod_ticks 4294967296 200000 = 200000" by (simp add: tod_ticks_def mul64fract_def)
  obtain w s where a: "timeradd (tod_ticks 4294967296) 10 0 1 ex_timers = Some (w, s)" "tt (tm s 1) = Some 0"
    by (simp add: timeradd_def tadd_def next_when_def ex_timers_def Let_def tk)
  have "treach (tod_ticks 4294967296) (?y\<lparr>y_t := s, y_armed := arm 0 w (y_armed ?y)\<rparr>)"
    by (rule treach.step [OF r tstep.add]) (use a in simp_all)
  from timers_armed [OF this] this show ?thesis using a(2) by (intro exI [of _ "?y\<lparr>y_t := s, y_armed := arm 0 w (y_armed ?y)\<rparr>"]) simp
qed

text \<open>
  C21. The interrupt ends, whatever the periods, when the functions of the timers leave the timers
  alone. It fires a timer that is due once, and a periodic one once for every period that has
  passed; a timer of the machine is not due any more afterwards, the other timers are as they
  were, and the clock is set for the first timer left.
\<close>

theorem timerintr_fires:
  assumes "twf s" "0 < now" "\<forall>t \<in> set (heads s k). tmode (tm s t) = Tperiodic \<longrightarrow> 100000 \<le> tns (tm s t)"
    and "\<forall>t s. f t s = Some s"
  shows "\<exists>hz fired s'. timerintr (tod_ticks d) f now k s =
      Some (case heads s' k of [] \<Rightarrow> None | t # _ \<Rightarrow> Some (twhen (tm s' t)), hz, fired, s') \<and> twf s' \<and>
    (\<forall>t \<in> set (heads s' k). now < twhen (tm s' t)) \<and>
    (\<forall>t. tm s' t = (if t \<in> set (heads s k) then fired_timer (tod_ticks d) now (tm s t) else tm s t)) \<and>
    (\<forall>t. count_list fired t = (if t \<in> set (heads s k) then rounds (tod_ticks d) now (tm s t) else 0))"
proof -
  obtain n fired s' where r: "timer_loop (tod_ticks d) f now k 0 [] s =
      Some (case heads s' k of [] \<Rightarrow> None | t # _ \<Rightarrow> Some (twhen (tm s' t)), n, [] @ fired, s')" "twf s'"
    "\<forall>t. t \<in> set (heads s' k) \<longrightarrow> now < twhen (tm s' t)"
    "\<forall>t. tm s' t = (if t \<in> set (heads s k) then fired_timer (tod_ticks d) now (tm s t) else tm s t)"
    "\<forall>t. count_list fired t = (if t \<in> set (heads s k) then rounds (tod_ticks d) now (tm s t) else 0)"
    using tod.timer_loop_ok [OF assms(1,2), of k f d 0 "[]"] assms(3,4) by auto
  then show ?thesis by (intro exI [of _ "n \<noteq> 0"] exI [of _ fired] exI [of _ s']) (simp add: timerintr_def)
qed

lemma timerintr_fires_witness:
  "\<exists>w hz fired s'. timerintr (tod_ticks 4294967) (\<lambda>t. Some) 650 0 ex_two = Some (w, hz, fired, s') \<and>
     count_list fired 1 = 3 \<and> count_list fired 2 = 0"
proof -
  have tk: "tod_ticks 4294967 200000 = 199" by (simp add: tod_ticks_def mul64fract_def)
  have "\<exists>hz fired s'. timerintr (tod_ticks 4294967) (\<lambda>t. Some) 650 0 ex_two =
      Some (case heads s' 0 of [] \<Rightarrow> None | t # _ \<Rightarrow> Some (twhen (tm s' t)), hz, fired, s') \<and> twf s' \<and>
    (\<forall>t \<in> set (heads s' 0). 650 < twhen (tm s' t)) \<and>
    (\<forall>t. tm s' t = (if t \<in> set (heads ex_two 0) then fired_timer (tod_ticks 4294967) 650 (tm ex_two t) else tm ex_two t)) \<and>
    (\<forall>t. count_list fired t = (if t \<in> set (heads ex_two 0) then rounds (tod_ticks 4294967) 650 (tm ex_two t) else 0))"
    by (rule timerintr_fires [OF ex_two_wf]) (simp_all add: ex_two_def ex_timers_def)
  then show ?thesis using tk by (auto simp: ex_two_def ex_timers_def rounds_def period_def)
qed

text \<open>
  \<open>timerdel\<close> of a periodic timer whose function is running finds \<open>tt\<close> nil and does nothing; when the
  function returns, the timer is on the list again.
\<close>

lemma timerdel_while_firing:
  assumes "twf s" "heads s k = t # ts" "0 < now" "twhen (tm s t) \<le> now" "tmode (tm s t) = Tperiodic" "100000 \<le> tns (tm s t)"
  shows "\<exists>s1 s3. tpop k s = Some s1 \<and> timerdel m t s1 = (None, s1) \<and>
    tagain (tod_ticks d) now k t s1 = Some s3 \<and> t \<in> set (heads s3 k)"
proof -
  obtain w s1 where s1: "tpop k s = Some s1" "tdel t s = (w, s1)" using tpop_tdel [OF assms(1,2)] by blast
  have "timerdel m t s1 = (None, s1)" using tdel_twf(3) [OF assms(1) s1(2)] by (simp add: timerdel_def)
  moreover obtain s3 where "tagain (tod_ticks d) now k t s1 = Some s3" "set (heads s3 k) = set (heads s k)"
    using tod.tagain_fired [OF assms(1,2,4,3) s1(1), of d] assms(5,6) by auto
  ultimately show ?thesis using s1(1) assms(2) by auto
qed

end
