(* ===== verification/Utf.thy ===== *)
theory Utf
  imports Nix_Prelude
begin

text \<open>
  UTF-8 (\<open>libc/port/rune.c\<close>, \<open>utflen.c\<close>, \<open>utfnlen.c\<close>, \<open>utfecpy.c\<close>, \<open>utfrune.c\<close>). A Rune has 16 bits here, as in
  \<open>libc.h\<close>. A pointer is the list of the bytes of the memory from it on, and reading past the end of
  that memory is \<^term>\<open>None\<close>; a string is such memory with a NUL in it.
\<close>

subsection \<open>Constants\<close>

type_synonym rune = u16

definition UTFmax :: nat where "UTFmax = 3"
definition Runeself :: u32 where "Runeself = 0x80"
definition Runesync :: u32 where "Runesync = 0x80"
definition Runeerror :: u32 where "Runeerror = 0xFFFD"
definition Runemax :: u32 where "Runemax = 0xFFFF"

definition Bitx :: nat where "Bitx = 6"
definition Tx :: u32 where "Tx = (push_bit (Bitx + 1) 1 - 1) XOR 0xFF"
definition T2 :: u32 where "T2 = (push_bit (5 + 1) 1 - 1) XOR 0xFF"
definition T3 :: u32 where "T3 = (push_bit (4 + 1) 1 - 1) XOR 0xFF"
definition T4 :: u32 where "T4 = (push_bit (3 + 1) 1 - 1) XOR 0xFF"
definition T5 :: u32 where "T5 = (push_bit (2 + 1) 1 - 1) XOR 0xFF"
definition Rune1 :: u32 where "Rune1 = push_bit 7 1 - 1"
definition Rune2 :: u32 where "Rune2 = push_bit (5 + 1 * Bitx) 1 - 1"
definition Rune3 :: u32 where "Rune3 = push_bit (4 + 2 * Bitx) 1 - 1"
definition Rune4 :: u32 where "Rune4 = push_bit (3 + 3 * Bitx) 1 - 1"
definition Maskx :: u32 where "Maskx = push_bit Bitx 1 - 1"
definition Testx :: u32 where "Testx = Maskx XOR 0xFF"

lemmas utf_consts = Bitx_def Tx_def T2_def T3_def T4_def T5_def Rune1_def Rune2_def Rune3_def Rune4_def Maskx_def Testx_def
  Runeself_def Runesync_def Runeerror_def Runemax_def UTFmax_def

subsection \<open>One rune\<close>

definition char_at :: "bytes \<Rightarrow> nat \<Rightarrow> u32 option" where
  "char_at str i = (if i < length str then Some (ucast (str ! i)) else None)"

definition bad :: "(rune \<times> nat) option" where
  "bad = Some (ucast Runeerror, 1)"

definition chartorune :: "bytes \<Rightarrow> (rune \<times> nat) option" where
  "chartorune str = do {
     c \<leftarrow> char_at str 0;
     if c < Tx then Some (ucast c, 1)
     else do {
       c1 \<leftarrow> map_option (\<lambda>b. b XOR Tx) (char_at str 1);
       if c1 AND Testx \<noteq> 0 then bad
       else if c < T3 then
         (if c < T2 then bad
          else
            let l = (push_bit Bitx c OR c1) AND Rune2 in
            if l \<le> Rune1 then bad else Some (ucast l, 2))
       else do {
         c2 \<leftarrow> map_option (\<lambda>b. b XOR Tx) (char_at str 2);
         if c2 AND Testx \<noteq> 0 then bad
         else if c < T4 then
           (let l = (push_bit Bitx (push_bit Bitx c OR c1) OR c2) AND Rune3 in
            if l \<le> Rune2 then bad else Some (ucast l, 3))
         else if UTFmax \<ge> 4 then do {
           c3 \<leftarrow> map_option (\<lambda>b. b XOR Tx) (char_at str 3);
           if c3 AND Testx \<noteq> 0 then bad
           else if c < T5 then
             (let l = (push_bit Bitx (push_bit Bitx (push_bit Bitx c OR c1) OR c2) OR c3) AND Rune4 in
              if l \<le> Rune3 then bad else if l > Runemax then bad else Some (ucast l, 4))
           else bad
         }
         else bad
       }
     }
   }"

definition runetochar :: "rune \<Rightarrow> bytes" where
  "runetochar rune =
     (let c = ucast rune :: u32 in
      if c \<le> Rune1 then [ucast c]
      else if c \<le> Rune2 then [ucast (T2 OR drop_bit (1 * Bitx) c), ucast (Tx OR (c AND Maskx))]
      else
        let c = (if c > Runemax then Runeerror else c) in
        if c \<le> Rune3 then
          [ucast (T3 OR drop_bit (2 * Bitx) c), ucast (Tx OR (drop_bit (1 * Bitx) c AND Maskx)), ucast (Tx OR (c AND Maskx))]
        else
          [ucast (T4 OR drop_bit (3 * Bitx) c), ucast (Tx OR (drop_bit (2 * Bitx) c AND Maskx)),
           ucast (Tx OR (drop_bit (1 * Bitx) c AND Maskx)), ucast (Tx OR (c AND Maskx))])"

definition runelen :: "u32 \<Rightarrow> nat" where
  "runelen c = length (runetochar (ucast c))"

fun runenlen :: "rune list \<Rightarrow> nat" where
  "runenlen [] = 0"
| "runenlen (r # rs) =
     (let c = ucast r :: u32 in
      (if c \<le> Rune1 then 1 else if c \<le> Rune2 then 2 else if c \<le> Rune3 \<or> c > Runemax then 3 else 4) + runenlen rs)"

definition fullrune :: "bytes \<Rightarrow> int \<Rightarrow> bool option" where
  "fullrune str n =
     (if n \<le> 0 then Some False
      else do {
        c \<leftarrow> char_at str 0;
        Some (if c < Tx then True else if c < T3 then 2 \<le> n else if UTFmax = 3 \<or> c < T4 then 3 \<le> n else 4 \<le> n)
      })"

subsection \<open>Strings\<close>

lemma chartorune_pos: "chartorune s = Some (r, n) \<Longrightarrow> 0 < n \<and> s \<noteq> []"
  by (auto simp: chartorune_def bad_def char_at_def Let_def split: if_splits bind_splits)

function utflen :: "bytes \<Rightarrow> nat option" where
  "utflen s = (case s of
      [] \<Rightarrow> None
    | b # s' \<Rightarrow>
        if ucast b < Runeself then (if b = 0 then Some 0 else map_option Suc (utflen s'))
        else (case chartorune s of
            None \<Rightarrow> None
          | Some (_, n) \<Rightarrow> map_option Suc (utflen (drop n s))))"
  by pat_completeness auto
termination by (relation "measure length") (auto dest: chartorune_pos)

declare utflen.simps [simp del]

function utfnlen :: "bytes \<Rightarrow> int \<Rightarrow> nat option" where
  "utfnlen s m =
     (if m \<le> 0 then Some 0
      else (case s of
          [] \<Rightarrow> None
        | b # s' \<Rightarrow>
            if ucast b < Runeself then (if b = 0 then Some 0 else map_option Suc (utfnlen s' (m - 1)))
            else (case fullrune s m of
                None \<Rightarrow> None
              | Some full \<Rightarrow>
                  if \<not> full then Some 0
                  else (case chartorune s of
                      None \<Rightarrow> None
                    | Some (_, n) \<Rightarrow> map_option Suc (utfnlen (drop n s) (m - int n))))))"
  by pat_completeness auto
termination by (relation "measure (\<lambda>(s, m). length s)") (auto dest: chartorune_pos)

declare utfnlen.simps [simp del]

text \<open>\<open>utfrune\<close>: where in the string the rune is, if it is there. \<open>strchr\<close> finds a byte, also the NUL.\<close>

fun strchr :: "bytes \<Rightarrow> u8 \<Rightarrow> nat option option" where
  "strchr [] c = None"
| "strchr (b # s) c = (if b = c then Some (Some 0) else if b = 0 then Some None else map_option (map_option Suc) (strchr s c))"

function utfrune_loop :: "bytes \<Rightarrow> u32 \<Rightarrow> nat option option" where
  "utfrune_loop s c = (case s of
      [] \<Rightarrow> None
    | b # s' \<Rightarrow>
        if ucast b < Runeself then
          (if b = 0 then Some None else if ucast b = c then Some (Some 0)
           else map_option (map_option Suc) (utfrune_loop s' c))
        else (case chartorune s of
            None \<Rightarrow> None
          | Some (r, n) \<Rightarrow>
              if ucast r = c then Some (Some 0) else map_option (map_option ((+) n)) (utfrune_loop (drop n s) c)))"
  by pat_completeness auto
termination by (relation "measure (\<lambda>(s, c). length s)") (auto dest: chartorune_pos)

declare utfrune_loop.simps [simp del]

definition utfrune :: "bytes \<Rightarrow> u32 \<Rightarrow> nat option option" where
  "utfrune s c = (if sint c < sint Runesync then strchr s (ucast c) else utfrune_loop s c)"

text \<open>
  \<open>utfecpy(to, e, from)\<close>: \<open>buf\<close> is the memory from \<open>to\<close> on, \<open>n\<close> the room \<open>e - to\<close>. The result is the
  offset that is returned and the memory afterwards.
\<close>

fun backoff :: "bytes \<Rightarrow> nat \<Rightarrow> nat" where
  "backoff buf 0 = 0"
| "backoff buf (Suc e) = (if buf ! e AND 0xC0 = 0x80 then backoff buf e else e)"

definition utfecpy :: "bytes \<Rightarrow> int \<Rightarrow> bytes \<Rightarrow> (nat \<times> bytes) option" where
  "utfecpy buf n from =
     (if n \<le> 0 then Some (0, buf)
      else if length buf < nat n then None
      else
        let k = length (takeWhile (\<lambda>b. b \<noteq> 0) from) in
        if k < nat n then
          (if k < length from then Some (k, take (k + 1) from @ drop (k + 1) buf) else None)
        else
          let buf = take (nat n) from @ drop (nat n) buf; end = backoff buf (nat n) in
          Some (end, buf[end := 0]))"

subsection \<open>The arithmetic of the bytes\<close>

lemma const_values:
  "Bitx = 6" "Tx = 0x80" "T2 = 0xC0" "T3 = 0xE0" "T4 = 0xF0" "Rune1 = 0x7F" "Rune2 = 0x7FF" "Rune3 = 0xFFFF"
  "Maskx = 0x3F" "Testx = 0xC0" "Runemax = 0xFFFF" "Runeerror = 0xFFFD" "UTFmax = 3" "Runeself = 0x80" "Runesync = 0x80"
  by (simp_all add: utf_consts)

lemma unat_u8_u32 [simp]: "unat (ucast (b :: u8) :: u32) = unat b"
  using unat_u8_bound [of b] by (simp add: unsigned_ucast_eq take_bit_nat_eq_self)

lemma take_bit_low: "unat (w :: u32) < 2 ^ n \<Longrightarrow> take_bit n w = w"
proof -
  assume "unat w < 2 ^ n"
  then have "unat (take_bit n w) = unat w" by (simp only: unsigned_take_bit_eq take_bit_nat_eq_self)
  then show ?thesis by (simp only: word_unat_eq_iff)
qed

lemma or_low: "unat (b :: u32) < 2 ^ n \<Longrightarrow> push_bit n a OR b = push_bit n a + b"
proof -
  assume "unat b < 2 ^ n"
  then have "push_bit n a AND b = push_bit n a AND take_bit n b" by (simp only: take_bit_low)
  also have "\<dots> = 0" by (rule bit_word_eqI) (auto simp: bit_simps)
  finally show ?thesis by (simp only: disjunctive_add_eq_or)
qed

lemma unat_or6: "unat (d :: u32) < 64 \<Longrightarrow> unat c < 1048576 \<Longrightarrow> unat (push_bit 6 c OR d) = 64 * unat c + unat d"
proof -
  assume d: "unat d < 64" and c: "unat c < 1048576"
  have "push_bit 6 c OR d = push_bit 6 c + d" by (rule or_low) (use d in simp)
  also have "\<dots> = of_nat (64 * unat c + unat d)" by (simp add: push_bit_eq_mult)
  finally show ?thesis using d c by (simp only: unat_of_nat_u32)
qed

lemma test_C0: "unat (w :: u32) < 256 \<Longrightarrow> w AND 0xC0 = 0 \<longleftrightarrow> unat w < 64"
proof -
  assume w: "unat w < 256"
  have "w AND 0xC0 = push_bit 6 (take_bit 2 (drop_bit 6 w))"
  proof -
    have c: "0xC0 = push_bit 6 (mask 2 :: u32)" by (simp add: mask_eq_exp_minus_1)
    show ?thesis unfolding c by (rule bit_word_eqI) (auto simp: bit_simps)
  qed
  moreover have d: "unat (drop_bit 6 w) = unat w div 64"
  proof -
    have "unat (drop_bit 6 w) = unat w div 2 ^ 6" by (subst unat_drop_bit_eq) (rule drop_bit_eq_div)
    then show ?thesis by simp
  qed
  moreover have "take_bit 2 (drop_bit 6 w) = drop_bit 6 w" using d w by (intro take_bit_low) simp
  ultimately have "unat (w AND 0xC0) = unat (push_bit 6 (drop_bit 6 w) OR 0)" by simp
  also have "\<dots> = 64 * (unat w div 64)" using d w by (subst unat_or6) simp_all
  finally have "unat (w AND 0xC0) = 64 * (unat w div 64)" .
  then show ?thesis by (auto simp: unat_eq_zero [symmetric] div_eq_0_iff)
qed

lemma bit_128: "bit (128 :: u32) n \<longleftrightarrow> n = 7" "bit (128 :: u8) n \<longleftrightarrow> n = 7" "bit (128 :: int) n \<longleftrightarrow> n = 7" "bit (128 :: nat) n \<longleftrightarrow> n = 7"
proof -
  have c: "(128 :: u32) = 2 ^ 7" "(128 :: u8) = 2 ^ 7" "(128 :: int) = 2 ^ 7" "(128 :: nat) = 2 ^ 7" by simp_all
  show "bit (128 :: u32) n \<longleftrightarrow> n = 7" "bit (128 :: u8) n \<longleftrightarrow> n = 7" "bit (128 :: int) n \<longleftrightarrow> n = 7" "bit (128 :: nat) n \<longleftrightarrow> n = 7"
    unfolding c by (simp_all only: bit_exp_iff) auto
qed

lemma xor_80: "unat (w :: u32) < 64 \<Longrightarrow> w XOR 0x80 = w + 0x80"
proof -
  assume w: "unat w < 64"
  have "w AND 0x80 = take_bit 6 w AND 0x80" using w by (simp add: take_bit_low)
  also have "\<dots> = 0" by (rule bit_word_eqI) (auto simp: bit_simps bit_128)
  finally have "w + 0x80 = w XOR 0x80" by (rule disjunctive_add_eq_xor)
  then show ?thesis by simp
qed

text \<open>A continuation byte, and the six bits it carries.\<close>

definition cont :: "u8 \<Rightarrow> bool" where
  "cont b \<longleftrightarrow> 128 \<le> unat b \<and> unat b < 192"

lemma cont_bits: "cont b \<Longrightarrow> (ucast b XOR 0x80 :: u32) = of_nat (unat b - 128)"
proof -
  assume "cont b"
  then have d: "unat b = (unat b - 128) + 128" "unat b - 128 < 64" by (auto simp: cont_def)
  let ?w = "of_nat (unat b - 128) :: u32"
  have w: "unat ?w < 64" using d(2) by simp
  have "ucast b = (of_nat (unat b) :: u32)" by (simp add: of_nat_unat)
  also have "\<dots> = ?w + 0x80" by (subst d(1)) simp
  also have "\<dots> = ?w XOR 0x80" by (rule xor_80 [OF w, symmetric])
  finally show ?thesis by (simp add: xor.assoc)
qed

lemma cont_test: "(ucast b XOR 0x80 :: u32) AND 0xC0 = 0 \<longleftrightarrow> cont b"
proof -
  have lt: "unat (ucast b XOR 0x80 :: u32) < 256"
  proof -
    have "(ucast b XOR 0x80 :: u32) = ucast (b XOR 0x80)" by (rule bit_word_eqI) (auto simp: bit_simps bit_128)
    then show ?thesis using unat_u8_bound [of "b XOR 0x80"] by simp
  qed
  show ?thesis
  proof
    assume "(ucast b XOR 0x80 :: u32) AND 0xC0 = 0"
    then have w: "unat (ucast b XOR 0x80 :: u32) < 64" using test_C0 [OF lt] by simp
    have "ucast b = (ucast b XOR 0x80) XOR (0x80 :: u32)" by (simp add: xor.assoc)
    also have "\<dots> = (ucast b XOR 0x80) + 0x80" by (rule xor_80 [OF w])
    finally have "unat b = unat ((ucast b XOR 0x80) + 0x80 :: u32)" by (metis unat_u8_u32)
    also have "\<dots> = unat (ucast b XOR 0x80 :: u32) + 128" using w by (simp add: unat_word_ariths)
    finally show "cont b" using w by (simp add: cont_def)
  next
    assume c: "cont b"
    have "unat b - 128 < 64" using c unfolding cont_def by linarith
    then have "unat (of_nat (unat b - 128) :: u32) < 64" by (simp only: unat_of_nat_u32)
    then show "(ucast b XOR 0x80 :: u32) AND 0xC0 = 0" using test_C0 [OF lt] cont_bits [OF c] by simp
  qed
qed

subsection \<open>Decoding in numbers\<close>

lemma char_at_simps [simp]: "char_at (b # s) 0 = Some (ucast b)" "char_at (b # s) (Suc i) = char_at s i"
  by (simp_all add: char_at_def)

lemma char_at_1 [simp]: "char_at (b # s) 1 = char_at s 0"
  by (simp add: char_at_def)

lemma char_at_2 [simp]: "char_at (a # b # s) 2 = char_at s 0"
  by (simp add: char_at_def numeral_2_eq_2)

lemma less_word: "(ucast b < (numeral n :: u32)) \<longleftrightarrow> unat b < unat (numeral n :: u32)" for b :: u8
  by (simp add: word_less_nat_alt)

definition two :: "u8 \<Rightarrow> u8 \<Rightarrow> nat" where
  "two a b = 64 * (unat a - 192) + (unat b - 128)"

definition three :: "u8 \<Rightarrow> u8 \<Rightarrow> u8 \<Rightarrow> nat" where
  "three a b c = 4096 * (unat a - 224) + 64 * (unat b - 128) + (unat c - 128)"

lemma unat_mask: "unat (w AND 0x7FF) = unat w mod 2048" "unat (w AND 0xFFFF) = unat w mod 65536" for w :: u32
proof -
  have "w AND 0x7FF = take_bit 11 w" "w AND 0xFFFF = take_bit 16 w" by (simp_all add: take_bit_eq_mask mask_eq_exp_minus_1)
  then show "unat (w AND 0x7FF) = unat w mod 2048" "unat (w AND 0xFFFF) = unat w mod 65536"
    by (simp_all only: unsigned_take_bit_eq) (simp_all add: take_bit_eq_mod)
qed

lemma offset: "k \<le> n \<Longrightarrow> n < k + m \<Longrightarrow> \<exists>h. n = k + h \<and> h < m" for n :: nat
  by (rule exI [of _ "n - k"]) linarith

lemma two_bits:
  assumes "192 \<le> unat a" "unat a < 224" "cont b"
  shows "unat ((push_bit 6 (ucast a) OR (ucast b XOR 0x80)) AND 0x7FF :: u32) = two a b" "two a b < 2048"
proof -
  obtain h where h: "unat a = 192 + h" "h < 32" using offset [of 192 "unat a" 32] assms(1,2) by auto
  obtain d where d: "unat b = 128 + d" "d < 64" using offset [of 128 "unat b" 64] assms(3) by (auto simp: cont_def)
  have w: "(ucast b XOR 0x80 :: u32) = of_nat d" using cont_bits [OF assms(3)] d by simp
  have u: "unat (of_nat d :: u32) = d" using d(2) by (intro unat_of_nat_u32) simp
  have "unat (push_bit 6 (ucast a) OR of_nat d :: u32) = 64 * (192 + h) + d"
    using unat_or6 [of "of_nat d" "ucast a"] h d u by simp
  also have "\<dots> = 64 * h + d + 6 * 2048" by simp
  finally have "unat (push_bit 6 (ucast a) OR of_nat d :: u32) mod 2048 = (64 * h + d) mod 2048" by (simp only: mod_mult_self1)
  then show "unat ((push_bit 6 (ucast a) OR (ucast b XOR 0x80)) AND 0x7FF :: u32) = two a b" "two a b < 2048"
    unfolding w unat_mask using h d by (simp_all add: two_def)
qed

lemma three_bits:
  assumes "224 \<le> unat a" "unat a < 240" "cont b" "cont c"
  shows "unat ((push_bit 6 (push_bit 6 (ucast a) OR (ucast b XOR 0x80)) OR (ucast c XOR 0x80)) AND 0xFFFF :: u32) = three a b c"
    "three a b c < 65536"
proof -
  obtain h where h: "unat a = 224 + h" "h < 16" using offset [of 224 "unat a" 16] assms(1,2) by auto
  obtain d where d: "unat b = 128 + d" "d < 64" using offset [of 128 "unat b" 64] assms(3) by (auto simp: cont_def)
  obtain e where e: "unat c = 128 + e" "e < 64" using offset [of 128 "unat c" 64] assms(4) by (auto simp: cont_def)
  have w: "(ucast b XOR 0x80 :: u32) = of_nat d" "(ucast c XOR 0x80 :: u32) = of_nat e"
    using cont_bits [OF assms(3)] cont_bits [OF assms(4)] d e by simp_all
  have u: "unat (of_nat d :: u32) = d" "unat (of_nat e :: u32) = e" using d(2) e(2) by (auto intro: unat_of_nat_u32)
  have "unat (push_bit 6 (ucast a) OR of_nat d :: u32) = 64 * (224 + h) + d"
    using unat_or6 [of "of_nat d" "ucast a"] h d u by simp
  then have "unat (push_bit 6 (push_bit 6 (ucast a) OR of_nat d) OR of_nat e :: u32) = 64 * (64 * (224 + h) + d) + e"
    using unat_or6 [of "of_nat e" "push_bit 6 (ucast a) OR of_nat d"] h d e u by simp
  also have "\<dots> = 4096 * h + 64 * d + e + 14 * 65536" by simp
  finally have "unat (push_bit 6 (push_bit 6 (ucast a) OR of_nat d) OR of_nat e :: u32) mod 65536 = (4096 * h + 64 * d + e) mod 65536"
    by (simp only: mod_mult_self1)
  then show "unat ((push_bit 6 (push_bit 6 (ucast a) OR (ucast b XOR 0x80)) OR (ucast c XOR 0x80)) AND 0xFFFF :: u32) = three a b c"
    "three a b c < 65536"
    unfolding w unat_mask using h d e by (simp_all add: three_def)
qed

text \<open>\<open>chartorune\<close> in numbers: what the first bytes decide.\<close>

lemma chartorune_1: "unat a < 128 \<Longrightarrow> chartorune (a # s) = Some (ucast a, 1)"
proof -
  have "(ucast (ucast a :: u32) :: u16) = ucast a" by (rule bit_word_eqI) (auto simp: bit_simps dest: bit_imp_le_length)
  then show "unat a < 128 \<Longrightarrow> chartorune (a # s) = Some (ucast a, 1)"
    by (simp add: chartorune_def const_values word_less_nat_alt)
qed

lemma chartorune_2:
  assumes "192 \<le> unat a" "unat a < 224"
  shows "chartorune (a # b # s) = (if cont b \<and> 127 < two a b then Some (of_nat (two a b), 2) else bad)"
proof (cases "cont b")
  case True
  define l where "l = (push_bit 6 (ucast a) OR (ucast b XOR 0x80)) AND (0x7FF :: u32)"
  have l: "unat l = two a b" "two a b < 2048" using two_bits [OF assms True] by (simp_all add: l_def)
  have "(ucast l :: u16) = of_nat (two a b)" unfolding l(1) [symmetric] by (simp add: of_nat_unat)
  moreover have "l \<le> 0x7F \<longleftrightarrow> two a b \<le> 127" using l(1) by (simp add: word_le_nat_alt)
  moreover have "chartorune (a # b # s) = (if l \<le> 0x7F then bad else Some (ucast l, 2))"
    using assms True by (simp add: chartorune_def const_values word_less_nat_alt cont_test l_def Let_def)
  ultimately show ?thesis using True by auto
next
  case False
  then show ?thesis using assms by (simp add: chartorune_def const_values word_less_nat_alt cont_test)
qed

lemma chartorune_3:
  assumes "224 \<le> unat a" "unat a < 240"
  shows "chartorune (a # b # c # s) =
    (if cont b \<and> cont c \<and> 2047 < three a b c then Some (of_nat (three a b c), 3) else bad)"
proof (cases "cont b \<and> cont c")
  case True
  define l where "l = (push_bit 6 (push_bit 6 (ucast a) OR (ucast b XOR 0x80)) OR (ucast c XOR 0x80)) AND (0xFFFF :: u32)"
  have l: "unat l = three a b c" "three a b c < 65536" using three_bits [OF assms] True by (simp_all add: l_def)
  have "(ucast l :: u16) = of_nat (three a b c)" unfolding l(1) [symmetric] by (simp add: of_nat_unat)
  moreover have "l \<le> 0x7FF \<longleftrightarrow> three a b c \<le> 2047" using l(1) by (simp add: word_le_nat_alt)
  moreover have "chartorune (a # b # c # s) = (if l \<le> 0x7FF then bad else Some (ucast l, 3))"
    using assms True by (simp add: chartorune_def const_values word_less_nat_alt cont_test l_def Let_def)
  ultimately show ?thesis using True by auto
next
  case False
  then show ?thesis using assms by (auto simp: chartorune_def const_values word_less_nat_alt cont_test)
qed

subsection \<open>Encoding in numbers\<close>

lemma or_high:
  "unat (w :: u32) < 64 \<Longrightarrow> unat (0x80 OR w) = 128 + unat w"
  "unat w < 64 \<Longrightarrow> unat (0xC0 OR w) = 192 + unat w"
  "unat w < 32 \<Longrightarrow> unat (0xE0 OR w) = 224 + unat w"
proof -
  have c: "(0x80 :: u32) = push_bit 6 2" "(0xC0 :: u32) = push_bit 6 3" "(0xE0 :: u32) = push_bit 5 7" by simp_all
  show "unat w < 64 \<Longrightarrow> unat (0x80 OR w) = 128 + unat w" "unat w < 64 \<Longrightarrow> unat (0xC0 OR w) = 192 + unat w"
    using unat_or6 [of w 2] unat_or6 [of w 3] unfolding c by simp_all
  assume w: "unat w < 32"
  then have "push_bit 5 7 OR w = push_bit 5 7 + w" by (intro or_low) simp
  also have "\<dots> = of_nat (224 + unat w)" by simp
  finally show "unat (0xE0 OR w) = 224 + unat w" unfolding c using w by (simp only: unat_of_nat_u32)
qed

lemma unat_low6: "unat (w AND 0x3F) = unat w mod 64" "unat (drop_bit 6 w) = unat w div 64" "unat (drop_bit 12 w) = unat w div 4096"
  for w :: u32
proof -
  have "w AND 0x3F = take_bit 6 w" by (simp add: take_bit_eq_mask mask_eq_exp_minus_1)
  then show "unat (w AND 0x3F) = unat w mod 64" by (simp only: unsigned_take_bit_eq) (simp add: take_bit_eq_mod)
  have "unat (drop_bit 6 w) = unat w div 2 ^ 6" "unat (drop_bit 12 w) = unat w div 2 ^ 12"
    by (subst unat_drop_bit_eq, rule drop_bit_eq_div)+
  then show "unat (drop_bit 6 w) = unat w div 64" "unat (drop_bit 12 w) = unat w div 4096" by simp_all
qed

lemma ucast_u8: "unat (w :: u32) < 256 \<Longrightarrow> unat (ucast w :: u8) = unat w"
  by (simp add: unsigned_ucast_eq take_bit_nat_eq_self)

text \<open>The bytes of a rune by the number of them.\<close>

lemma runetochar_1: "unat r < 128 \<Longrightarrow> runetochar r = [ucast r]"
proof -
  have "(ucast (ucast r :: u32) :: u8) = ucast r" by (rule bit_word_eqI) (auto simp: bit_simps dest: bit_imp_le_length)
  then show "unat r < 128 \<Longrightarrow> runetochar r = [ucast r]" by (simp add: runetochar_def const_values word_le_nat_alt)
qed

lemma runetochar_2:
  assumes "128 \<le> unat r" "unat r < 2048"
  shows "\<exists>a b. runetochar r = [a, b] \<and> unat a = 192 + unat r div 64 \<and> unat b = 128 + unat r mod 64"
proof -
  let ?c = "ucast r :: u32"
  have "unat (drop_bit 6 ?c) < 64" "unat (?c AND 0x3F) < 64" using assms by (simp_all only: unat_low6 unat_ucast_u16_u32)
  then have u: "unat (0xC0 OR drop_bit 6 ?c) = 192 + unat r div 64" "unat (0x80 OR (?c AND 0x3F)) = 128 + unat r mod 64"
    by (simp_all only: or_high unat_low6 unat_ucast_u16_u32)
  have "192 + unat r div 64 < 256" "128 + unat r mod 64 < 256"
    using assms mod_less_divisor [of 64 "unat r"] by linarith+
  then have "unat (ucast (0xC0 OR drop_bit 6 ?c) :: u8) = 192 + unat r div 64" "unat (ucast (0x80 OR (?c AND 0x3F)) :: u8) = 128 + unat r mod 64"
    using u by (simp_all only: ucast_u8)
  moreover have "runetochar r = [ucast (0xC0 OR drop_bit 6 ?c), ucast (0x80 OR (?c AND 0x3F))]"
    using assms by (simp add: runetochar_def const_values word_le_nat_alt Let_def)
  ultimately show ?thesis by blast
qed

lemma runetochar_3:
  assumes "2048 \<le> unat r"
  shows "\<exists>a b c. runetochar r = [a, b, c] \<and> unat a = 224 + unat r div 4096 \<and> unat b = 128 + unat r div 64 mod 64 \<and>
    unat c = 128 + unat r mod 64"
proof -
  let ?c = "ucast r :: u32"
  have lt: "unat r div 4096 < 16" using unat_u16_bound [of r] by linarith
  then have "unat (drop_bit 12 ?c) < 32" "unat (drop_bit 6 ?c AND 0x3F) < 64" "unat (?c AND 0x3F) < 64"
    by (simp_all only: unat_low6 unat_ucast_u16_u32)
  then have u: "unat (0xE0 OR drop_bit 12 ?c) = 224 + unat r div 4096"
    "unat (0x80 OR (drop_bit 6 ?c AND 0x3F)) = 128 + unat r div 64 mod 64" "unat (0x80 OR (?c AND 0x3F)) = 128 + unat r mod 64"
    by (simp_all only: or_high unat_low6 unat_ucast_u16_u32)
  have "224 + unat r div 4096 < 256" "128 + unat r div 64 mod 64 < 256" "128 + unat r mod 64 < 256"
    using lt mod_less_divisor [of 64 "unat r"] mod_less_divisor [of 64 "unat r div 64"] by linarith+
  then have "unat (ucast (0xE0 OR drop_bit 12 ?c) :: u8) = 224 + unat r div 4096"
    "unat (ucast (0x80 OR (drop_bit 6 ?c AND 0x3F)) :: u8) = 128 + unat r div 64 mod 64"
    "unat (ucast (0x80 OR (?c AND 0x3F)) :: u8) = 128 + unat r mod 64"
    using u by (simp_all only: ucast_u8)
  moreover have "runetochar r = [ucast (0xE0 OR drop_bit 12 ?c), ucast (0x80 OR (drop_bit 6 ?c AND 0x3F)), ucast (0x80 OR (?c AND 0x3F))]"
    using assms unat_u16_bound [of r] by (simp add: runetochar_def const_values word_le_nat_alt word_less_nat_alt Let_def)
  ultimately show ?thesis by blast
qed

lemma digits_64: "4096 * (n div 4096) + 64 * (n div 64 mod 64) + n mod 64 = n" for n :: nat
proof -
  have "n div 4096 = n div 64 div 64" using div_mult2_eq [of n 64 64] by simp
  then show ?thesis using div_mult_mod_eq [of n 64] div_mult_mod_eq [of "n div 64" 64] by linarith
qed

lemma digit_64: "x = 64 * y + z \<Longrightarrow> z < 64 \<Longrightarrow> x mod 64 = z \<and> x div 64 = y" for x :: nat
  by simp

lemma runetochar_cases:
  obtains (one) "unat r < 128" "runetochar r = [ucast r]"
  | (two) a b where "runetochar r = [a, b]" "192 \<le> unat a" "unat a < 224" "cont b" "two a b = unat r" "127 < unat r"
  | (three) a b c where "runetochar r = [a, b, c]" "224 \<le> unat a" "unat a < 240" "cont b" "cont c" "three a b c = unat r" "2047 < unat r"
proof -
  consider "unat r < 128" | "128 \<le> unat r" "unat r < 2048" | "2048 \<le> unat r" by linarith
  then show thesis
  proof cases
    case 1
    then show thesis using one runetochar_1 by blast
  next
    case 2
    obtain a b where ab: "runetochar r = [a, b]" "unat a = 192 + unat r div 64" "unat b = 128 + unat r mod 64"
      using runetochar_2 [OF 2] by blast
    have "unat r div 64 < 32" using 2(2) by linarith
    then show thesis using 2 ab by (intro two [of a b]) (simp_all add: cont_def two_def)
  next
    case 3
    obtain a b c where abc: "runetochar r = [a, b, c]" "unat a = 224 + unat r div 4096" "unat b = 128 + unat r div 64 mod 64"
      "unat c = 128 + unat r mod 64"
      using runetochar_3 [OF 3] by blast
    have "unat r div 4096 < 16" using unat_u16_bound [of r] by linarith
    moreover have "4096 * (unat r div 4096) + 64 * (unat r div 64 mod 64) + unat r mod 64 = unat r"
      by (rule digits_64)
    ultimately show thesis using 3 abc by (intro three [of a b c]) (simp_all add: cont_def three_def)
  qed
qed

lemma chartorune_runetochar: "chartorune (runetochar r @ s) = Some (r, length (runetochar r))"
proof (cases r rule: runetochar_cases)
  case one
  have "unat (ucast r :: u8) = unat r" using one(1) by (simp add: unsigned_ucast_eq take_bit_nat_eq_self)
  moreover have "(ucast (ucast r :: u8) :: u16) = r"
    using one(1) calculation by (metis of_nat_unat ucast_id)
  ultimately show ?thesis using one chartorune_1 [of "ucast r" s] by simp
next
  case (two a b)
  then show ?thesis using chartorune_2 [of a b s] by simp
next
  case (three a b c)
  then show ?thesis using chartorune_3 [of a b c s] by simp
qed

lemma chartorune_high: "unat a < 192 \<or> 240 \<le> unat a \<Longrightarrow> 128 \<le> unat a \<Longrightarrow> chartorune (a # s) = Some (r, n) \<Longrightarrow> (r, n) = (0xFFFD, 1)"
  by (auto simp: chartorune_def const_values word_less_nat_alt bad_def Let_def split: if_splits bind_splits option.splits)

lemma chartorune_short: "128 \<le> unat a \<Longrightarrow> chartorune [a] = None" "224 \<le> unat a \<Longrightarrow> cont b \<Longrightarrow> chartorune [a, b] = None"
  by (simp_all add: chartorune_def const_values word_less_nat_alt char_at_def cont_test)

lemma unat_eqI: "unat a = unat b \<Longrightarrow> a = (b :: u8)"
  by (simp only: word_unat_eq_iff)

text \<open>What is decoded without an error is what the encoder gives for it.\<close>

lemma runetochar_chartorune:
  assumes "chartorune s = Some (r, n)" "(r, n) \<noteq> (0xFFFD, 1)"
  shows "n \<le> length s \<and> take n s = runetochar r"
proof -
  obtain a t where s: "s = a # t" using chartorune_pos [OF assms(1)] by (cases s) auto
  consider "unat a < 128" | "128 \<le> unat a" "unat a < 192 \<or> 240 \<le> unat a" | "192 \<le> unat a" "unat a < 224" | "224 \<le> unat a" "unat a < 240"
    by linarith
  then show ?thesis
  proof cases
    case 1
    then have r: "r = ucast a" "n = 1" using assms(1) chartorune_1 [of a t] s by simp_all
    have "unat r = unat a" using 1 by (simp add: r unsigned_ucast_eq take_bit_nat_eq_self)
    moreover have "(ucast (ucast a :: u16) :: u8) = a" by (rule bit_word_eqI) (auto simp: bit_simps)
    ultimately show ?thesis using 1 s r runetochar_1 [of r] by simp
  next
    case 2
    then show ?thesis using chartorune_high assms s by blast
  next
    case 3
    then obtain b t' where t: "t = b # t'" using chartorune_short(1) [of a] assms(1) s by (cases t) auto
    then have r: "cont b" "127 < two a b" "r = of_nat (two a b)" "n = 2"
      using assms chartorune_2 [OF 3, of b t'] s by (auto simp: bad_def const_values split: if_splits)
    have lt: "two a b < 2048" using two_bits(2) [OF 3 r(1)] .
    then have ur: "unat r = two a b" unfolding r(3) by (intro unat_of_nat_u16) simp
    obtain a' b' where e: "runetochar r = [a', b']" "unat a' = 192 + unat r div 64" "unat b' = 128 + unat r mod 64"
      using runetochar_2 [of r] ur lt r(2) by auto
    have "unat b - 128 < 64" using r(1) unfolding cont_def by linarith
    then have "two a b div 64 = unat a - 192" "two a b mod 64 = unat b - 128" by (simp_all add: two_def)
    then have "a' = a" "b' = b" using e(2,3) ur 3 r(1) by (auto intro!: unat_eqI simp: cont_def)
    then show ?thesis using e(1) s t r(4) by simp
  next
    case 4
    then obtain b t' where t: "t = b # t'" using chartorune_short(1) [of a] assms(1) s by (cases t) auto
    have cb: "cont b"
      using assms 4 s t by (auto simp: chartorune_def const_values word_less_nat_alt cont_test bad_def split: if_splits)
    then obtain c t'' where t': "t' = c # t''" using chartorune_short(2) [of a b] 4 assms(1) s t by (cases t') auto
    have r: "cont c" "2047 < three a b c" "r = of_nat (three a b c)" "n = 3"
      using assms chartorune_3 [OF 4, of b c t''] s t t' by (auto simp: bad_def const_values split: if_splits)
    have lt: "three a b c < 65536" using three_bits(2) [OF 4 cb r(1)] .
    then have ur: "unat r = three a b c" unfolding r(3) by (intro unat_of_nat_u16) simp
    obtain a' b' c' where e: "runetochar r = [a', b', c']" "unat a' = 224 + unat r div 4096"
      "unat b' = 128 + unat r div 64 mod 64" "unat c' = 128 + unat r mod 64"
      using runetochar_3 [of r] ur r(2) by auto
    have d: "unat b - 128 < 64" "unat c - 128 < 64" using cb r(1) unfolding cont_def by linarith+
    have "three a b c = 64 * (64 * (unat a - 224) + (unat b - 128)) + (unat c - 128)" by (simp add: three_def)
    then have m: "three a b c mod 64 = unat c - 128" "three a b c div 64 = 64 * (unat a - 224) + (unat b - 128)" 
      using digit_64 [OF _ d(2)] by blast+
    then have "three a b c div 64 mod 64 = unat b - 128" "three a b c div 4096 = unat a - 224"
      using d(1) div_mult2_eq [of "three a b c" 64 64] by simp_all
    then have "a' = a" "b' = b" "c' = c" using e(2-4) m(1) ur 4 r(1) cb by (auto intro!: unat_eqI simp: cont_def)
    then show ?thesis using e(1) s t t' r(4) by simp
  qed
qed

subsection \<open>Strings of whole runes\<close>

text \<open>The bytes of a string of runes.\<close>

definition utf_bytes :: "rune list \<Rightarrow> bytes" where
  "utf_bytes rs = concat (map runetochar rs)"

lemma utf_bytes_simps [simp]: "utf_bytes [] = []" "utf_bytes (r # rs) = runetochar r @ utf_bytes rs"
  "utf_bytes (rs @ qs) = utf_bytes rs @ utf_bytes qs"
  by (simp_all add: utf_bytes_def)

lemma cont_0 [simp]: "\<not> cont 0"
  by (simp add: cont_def)

text \<open>The first byte of a rune is no continuation and every other one is; no byte is the NUL but of the rune 0.\<close>

lemma runetochar_shape:
  "\<exists>a bs. runetochar r = a # bs \<and> \<not> cont a \<and> (\<forall>b\<in>set bs. cont b) \<and> (r \<noteq> 0 \<longrightarrow> 0 \<notin> set (runetochar r)) \<and>
    (unat a < 128 \<longrightarrow> bs = [])"
proof (cases r rule: runetochar_cases)
  case one
  have u: "unat (ucast r :: u8) = unat r" using one(1) by (simp add: unsigned_ucast_eq take_bit_nat_eq_self)
  have "ucast r = (0 :: u8) \<Longrightarrow> r = 0" using u by (metis unat_0 unat_eq_zero)
  then show ?thesis using one u by (auto simp: cont_def)
qed (auto simp: cont_def)

lemma bit_192: "bit (192 :: u32) n \<longleftrightarrow> n = 6 \<or> n = 7" "bit (192 :: u8) n \<longleftrightarrow> n = 6 \<or> n = 7"
proof -
  have c: "(192 :: u32) = 2 ^ 7 OR 2 ^ 6" "(192 :: u8) = 2 ^ 7 OR 2 ^ 6" by simp_all
  show "bit (192 :: u32) n \<longleftrightarrow> n = 6 \<or> n = 7" "bit (192 :: u8) n \<longleftrightarrow> n = 6 \<or> n = 7"
    unfolding c by (simp_all only: bit_or_iff bit_exp_iff) auto
qed

lemma xor_0_iff: "x XOR y = 0 \<longleftrightarrow> x = y" for x y :: u8
proof
  assume "x XOR y = 0"
  then have "(x XOR y) XOR y = 0 XOR y" by (rule arg_cong)
  then show "x = y" by (simp add: xor.assoc)
qed simp

lemma cont_AND: "b AND 0xC0 = 0x80 \<longleftrightarrow> cont b" for b :: u8
proof -
  have "b AND 0xC0 = 0x80 \<longleftrightarrow> (ucast b XOR 0x80 :: u32) AND 0xC0 = 0"
  proof -
    have "(ucast b XOR 0x80 :: u32) AND 0xC0 = ucast ((b AND 0xC0) XOR 0x80)"
      by (rule bit_word_eqI) (auto simp: bit_simps bit_128 bit_192 dest: bit_imp_le_length)
    moreover have "ucast w = (0 :: u32) \<longleftrightarrow> w = 0" for w :: u8
      by (metis unat_u8_u32 unat_eq_zero unat_0)
    moreover have "(b AND 0xC0) XOR 0x80 = 0 \<longleftrightarrow> b AND 0xC0 = 0x80" by (rule xor_0_iff)
    ultimately show ?thesis by simp
  qed
  then show ?thesis by (simp add: cont_test)
qed

lemma runenlen_bytes: "runenlen rs = length (utf_bytes rs)"
proof (induction rs)
  case (Cons r rs)
  have "length (runetochar r) = (let c = ucast r :: u32 in if c \<le> Rune1 then 1 else if c \<le> Rune2 then 2 else if c \<le> Rune3 \<or> c > Runemax then 3 else 4)"
    by (simp add: runetochar_def Let_def const_values)
  then show ?case using Cons by (simp add: Let_def)
qed simp

lemma chartorune_bad1: "128 \<le> unat a \<Longrightarrow> \<not> cont b \<Longrightarrow> chartorune (a # b # s) = bad"
  by (simp add: chartorune_def const_values word_less_nat_alt cont_test)

lemma chartorune_bad2: "128 \<le> unat a \<Longrightarrow> unat a < 192 \<Longrightarrow> chartorune (a # b # s) = bad"
  by (simp add: chartorune_def const_values word_less_nat_alt)

lemma chartorune_bad3: "240 \<le> unat a \<Longrightarrow> chartorune (a # b # c # s) = bad"
  by (simp add: chartorune_def const_values word_less_nat_alt)

text \<open>No decoding goes past a NUL.\<close>

lemma chartorune_nul:
  assumes "s = p @ 0 # t" "p \<noteq> []" "0 \<notin> set p"
  shows "\<exists>r n. chartorune s = Some (r, n) \<and> n \<le> length p"
proof -
  obtain a q where p: "p = a # q" using assms(2) by (cases p) auto
  note bad1 = chartorune_bad1 [unfolded bad_def] and bad2 = chartorune_bad2 [unfolded bad_def] and bad3 = chartorune_bad3 [unfolded bad_def]
  consider "unat a < 128" | "128 \<le> unat a" "unat a < 192" | "240 \<le> unat a" | "192 \<le> unat a" "unat a < 224" | "224 \<le> unat a" "unat a < 240"
    by linarith
  then show ?thesis
  proof cases
    case 1
    then show ?thesis using chartorune_1 assms(1) p by simp
  next
    case 4
    then show ?thesis
      using chartorune_2 [OF 4, of 0 t] chartorune_2 [OF 4] assms(1) p by (cases q) (auto simp: bad_def)
  next
    case 5
    show ?thesis
    proof (cases q)
      case (Cons b q')
      show ?thesis
      proof (cases "cont b")
        case cb: True
        then show ?thesis
          using chartorune_3 [OF 5, of b 0 t] chartorune_3 [OF 5, of b] 5 assms(1) p Cons
          by (cases q') (auto simp: bad_def)
      qed (use bad1 [of a b] 5 assms(1) p Cons in auto)
    qed (use bad1 [of a 0] 5 assms(1) p in auto)
  next
    case 2
    then show ?thesis using bad2 assms(1) p by (cases q) auto
  next
    case 3
    show ?thesis
    proof (cases q)
      case (Cons b q')
      then show ?thesis using 3 bad3 [of a b] assms(1) p by (cases q') auto
    qed (use bad1 [of a 0] 3 assms(1) p in auto)
  qed
qed

subsection \<open>Counting and cutting\<close>

text \<open>How many of the runes fit into \<open>m\<close> bytes.\<close>

fun fit :: "rune list \<Rightarrow> nat \<Rightarrow> nat" where
  "fit [] m = 0"
| "fit (r # rs) m = (if length (runetochar r) \<le> m then Suc (fit rs (m - length (runetochar r))) else 0)"

lemma fit_spec:
  "fit rs m \<le> length rs \<and> length (utf_bytes (take (fit rs m) rs)) \<le> m \<and>
   (fit rs m < length rs \<longrightarrow> m < length (utf_bytes (take (Suc (fit rs m)) rs)))"
  by (induction rs m rule: fit.induct) auto

lemma fit_all: "length (utf_bytes rs) \<le> m \<Longrightarrow> fit rs m = length rs"
  by (induction rs m rule: fit.induct) auto

lemma runetochar_head:
  "\<exists>a bs. runetochar r = a # bs \<and> (a = 0 \<longleftrightarrow> r = 0) \<and>
    (ucast a < Runeself \<longleftrightarrow> bs = []) \<and> (unat a < 128 \<longrightarrow> unat a = unat r)"
proof (cases r rule: runetochar_cases)
  case one
  have u: "unat (ucast r :: u8) = unat r" using one(1) by (simp add: unsigned_ucast_eq take_bit_nat_eq_self)
  have "ucast r = (0 :: u8) \<longleftrightarrow> r = 0" using u by (metis unat_0 unat_eq_zero)
  then show ?thesis using one u by (simp add: Runeself_def word_less_nat_alt)
qed (auto simp: Runeself_def word_less_nat_alt)

lemma utflen_step:
  assumes "r \<noteq> 0" shows "utflen (runetochar r @ s) = map_option Suc (utflen s)"
proof -
  obtain a bs where a: "runetochar r = a # bs" "a \<noteq> 0" "ucast a < Runeself \<longleftrightarrow> bs = []"
    using runetochar_head [of r] assms by auto
  show ?thesis
  proof (cases "bs = []")
    case True
    then show ?thesis using a by (simp add: utflen.simps [of "a # s"])
  next
    case False
    then show ?thesis using a chartorune_runetochar [of r s] by (simp add: utflen.simps [of "a # bs @ s"])
  qed
qed

lemma utflen_nul: "utflen (0 # t) = Some 0"
  by (subst utflen.simps) (simp add: Runeself_def)

lemma utflen_bytes: "0 \<notin> set rs \<Longrightarrow> utflen (utf_bytes rs @ 0 # t) = Some (length rs)"
  by (induction rs) (auto simp: utflen_nul utflen_step)

lemma utflen_total: "0 \<in> set s \<Longrightarrow> \<exists>n. utflen s = Some n"
proof (induction s rule: length_induct)
  case (1 s)
  obtain p t where s: "s = p @ 0 # t" "0 \<notin> set p" using split_list_first [OF 1(2)] by blast
  show ?case
  proof (cases p)
    case Nil
    then show ?thesis using s utflen_nul by simp
  next
    case (Cons a q)
    obtain r n where n: "chartorune s = Some (r, n)" "n \<le> length p" using chartorune_nul [OF s(1)] s(2) Cons by blast
    have "0 < n" using chartorune_pos n(1) by blast
    then have "length (drop n s) < length s" "0 \<in> set (drop n s)" using s n(2) by auto
    then have "\<exists>k. utflen (drop n s) = Some k" using 1(1) by blast
    moreover have "\<exists>k. utflen (q @ 0 # t) = Some k" using 1(1) s(1) Cons by simp
    ultimately have "\<exists>k. utflen (drop n s) = Some k" "\<exists>k. utflen (q @ 0 # t) = Some k" by blast+
    then show ?thesis using n Cons s by (subst utflen.simps) auto
  qed
qed

lemma unat_rune_byte: "unat r < 128 \<Longrightarrow> unat (ucast r :: u8) = unat r" for r :: rune
  by (simp add: unsigned_ucast_eq take_bit_nat_eq_self)

lemma fullrune_runetochar:
  "0 < m \<Longrightarrow> fullrune (runetochar r @ s) m = Some (int (length (runetochar r)) \<le> m)"
proof (cases r rule: runetochar_cases)
  case one
  then show "0 < m \<Longrightarrow> ?thesis" using unat_rune_byte [of r] by (simp add: fullrune_def const_values word_less_nat_alt)
qed (auto simp: fullrune_def const_values word_less_nat_alt)

lemma utfnlen_step:
  assumes "r \<noteq> 0" "0 < m"
  shows "utfnlen (runetochar r @ s) m =
    (if int (length (runetochar r)) \<le> m then map_option Suc (utfnlen s (m - int (length (runetochar r)))) else Some 0)"
proof -
  obtain a bs where a: "runetochar r = a # bs" "a \<noteq> 0" "ucast a < Runeself \<longleftrightarrow> bs = []"
    using runetochar_head [of r] assms(1) by auto
  show ?thesis
  proof (cases "bs = []")
    case True
    then show ?thesis using a assms(2) by (simp add: utfnlen.simps [of "a # s"])
  next
    case False
    then show ?thesis
      using a chartorune_runetochar [of r s] fullrune_runetochar [of m r s] assms(2) by (simp add: utfnlen.simps [of "a # bs @ s"])
  qed
qed

lemma utfnlen_fit: "0 \<notin> set rs \<Longrightarrow> utfnlen (utf_bytes rs @ 0 # t) (int m) = Some (fit rs m)"
proof (induction rs m rule: fit.induct)
  case (1 m)
  then show ?case by (subst utfnlen.simps) (simp add: Runeself_def)
next
  case (2 r rs m)
  obtain a bs where "runetochar r = a # bs" using runetochar_head [of r] by auto
  show ?case
  proof (cases "m = 0")
    case True
    then show ?thesis using \<open>runetochar r = a # bs\<close> by (subst utfnlen.simps) simp
  next
    case False
    let ?l = "length (runetochar r)"
    have step: "utfnlen (runetochar r @ utf_bytes rs @ 0 # t) (int m) =
      (if int ?l \<le> int m then map_option Suc (utfnlen (utf_bytes rs @ 0 # t) (int m - int ?l)) else Some 0)"
      by (rule utfnlen_step) (use 2(2) False in auto)
    show ?thesis
    proof (cases "?l \<le> m")
      case True
      then have "utfnlen (utf_bytes rs @ 0 # t) (int m - int ?l) = Some (fit rs (m - ?l))"
        using 2 by (simp only: of_nat_diff [symmetric]) simp
      then show ?thesis using step True by simp
    qed (use step in simp)
  qed
qed

lemma plus_1: "(+) (Suc 0) = Suc" "(+) (0 :: nat) = id"
  by auto

lemma utfrune_step:
  assumes "r \<noteq> 0"
  shows "utfrune_loop (runetochar r @ s) c =
    (if ucast r = c then Some (Some 0) else map_option (map_option ((+) (length (runetochar r)))) (utfrune_loop s c))"
proof -
  obtain a bs where a: "runetochar r = a # bs" "a \<noteq> 0" "ucast a < Runeself \<longleftrightarrow> bs = []" "unat a < 128 \<longrightarrow> unat a = unat r"
    using runetochar_head [of r] assms by auto
  show ?thesis
  proof (cases "bs = []")
    case True
    then have "unat (ucast a :: u32) = unat (ucast r :: u32)" using a(3,4) by (simp add: Runeself_def word_less_nat_alt)
    then have "(ucast a :: u32) = ucast r" by (simp only: word_unat_eq_iff)
    then show ?thesis using True a by (simp add: utfrune_loop.simps [of "a # s"] plus_1)
  next
    case False
    then show ?thesis using a chartorune_runetochar [of r s] by (simp add: utfrune_loop.simps [of "a # bs @ s"])
  qed
qed

lemma ucast_rune_eq: "(ucast r :: u32) = ucast q \<longleftrightarrow> r = q" for r q :: rune
proof
  assume "(ucast r :: u32) = ucast q"
  then have "unat (ucast r :: u32) = unat (ucast q :: u32)" by (rule arg_cong)
  then show "r = q" by (simp only: unat_ucast_u16_u32 word_unat_eq_iff)
qed simp

lemma utfrune_loop_bytes:
  "0 \<notin> set rs \<Longrightarrow> utfrune_loop (utf_bytes rs @ 0 # t) (ucast r) =
    Some (if r \<in> set rs then Some (length (utf_bytes (takeWhile (\<lambda>q. q \<noteq> r) rs))) else None)"
proof (induction rs)
  case Nil
  then show ?case by (simp add: utfrune_loop.simps [of "0 # t"] Runeself_def)
next
  case (Cons q rs)
  then show ?case by (auto simp: utfrune_step ucast_rune_eq)
qed

lemma strchr_cont: "(\<forall>b\<in>set bs. b \<noteq> c \<and> b \<noteq> 0) \<Longrightarrow> strchr (bs @ s) c = map_option (map_option ((+) (length bs))) (strchr s c)"
proof (induction bs)
  case Nil
  show ?case by (cases "strchr s c") (simp_all add: option.map_ident)
next
  case (Cons b bs)
  then show ?case by (simp add: option.map_comp o_def)
qed

lemma strchr_bytes:
  assumes "unat r < 128"
  shows "0 \<notin> set rs \<Longrightarrow> r \<noteq> 0 \<Longrightarrow> strchr (utf_bytes rs @ 0 # t) (ucast r) =
    Some (if r \<in> set rs then Some (length (utf_bytes (takeWhile (\<lambda>q. q \<noteq> r) rs))) else None)"
proof (induction rs)
  case Nil
  have "ucast r \<noteq> (0 :: u8)" using unat_rune_byte [OF assms] Nil(2) by (metis unat_0 unat_eq_zero)
  then show ?case by auto
next
  case (Cons q rs)
  have ur: "unat (ucast r :: u8) = unat r" by (rule unat_rune_byte [OF assms])
  show ?case
  proof (cases "q = r")
    case True
    then show ?thesis using runetochar_1 [OF assms] by simp
  next
    case False
    have "\<forall>b\<in>set (runetochar q). b \<noteq> ucast r \<and> b \<noteq> 0"
    proof
      fix b assume b: "b \<in> set (runetochar q)"
      show "b \<noteq> ucast r \<and> b \<noteq> 0"
      proof (cases q rule: runetochar_cases)
        case one
        have "unat b = unat q" using unat_rune_byte [OF one(1)] b one(2) by simp
        then show ?thesis using ur False Cons(2) by (auto simp: word_unat_eq_iff)
      next
        case (two a' b')
        then have "128 \<le> unat b" using b by (auto simp: cont_def)
        then show ?thesis using ur assms by auto
      next
        case (three a' b' c')
        then have "128 \<le> unat b" using b by (auto simp: cont_def)
        then show ?thesis using ur assms by auto
      qed
    qed
    then show ?thesis using Cons False by (simp add: strchr_cont)
  qed
qed

lemma utfrune_bytes:
  assumes "0 \<notin> set rs" "r \<noteq> 0"
  shows "utfrune (utf_bytes rs @ 0 # t) (ucast r) =
    Some (if r \<in> set rs then Some (length (utf_bytes (takeWhile (\<lambda>q. q \<noteq> r) rs))) else None)"
proof (cases "sint (ucast r :: u32) < sint Runesync")
  case True
  have "sint (ucast r :: u32) = int (unat r)"
  proof -
    have "(65536 :: nat) \<le> 2 ^ 31" by simp
    then have "unat r < 2 ^ 31" using unat_u16_bound [of r] by (rule less_le_trans [rotated])
    then have le: "int (unat r) < 2 ^ 31" by (simp only: of_nat_less_iff [symmetric, where 'a = int] of_nat_power of_nat_numeral)
    have u: "uint (ucast r :: u32) = int (unat r)" by (simp only: uint_nat unat_ucast_u16_u32)
    then have "0 \<le> uint (ucast r :: u32)" "uint (ucast r :: u32) < 2 ^ 31"
      unfolding u using le by simp_all
    moreover from this have "- (2 ^ 31) \<le> uint (ucast r :: u32)" by linarith
    ultimately have "signed_take_bit 31 (uint (ucast r :: u32)) = uint (ucast r :: u32)" by (intro signed_take_bit_int_eq_self)
    then show ?thesis unfolding sint_uint u [symmetric] by simp
  qed
  then have "int (unat r) < 128" using True by (simp add: Runesync_def)
  then have "unat r < 128" by linarith
  moreover have "(ucast (ucast r :: u32) :: u8) = ucast r" by (rule bit_word_eqI) (auto simp: bit_simps dest: bit_imp_le_length)
  ultimately show ?thesis using True strchr_bytes [OF _ assms] by (simp add: utfrune_def)
qed (use utfrune_loop_bytes [OF assms(1)] in \<open>simp add: utfrune_def\<close>)

lemma backoff_to:
  "(\<And>i. k < i \<Longrightarrow> i < e \<Longrightarrow> cont (buf ! i)) \<Longrightarrow> \<not> cont (buf ! k) \<Longrightarrow> k < e \<Longrightarrow> backoff buf e = k"
proof (induction e)
  case (Suc e)
  then show ?case using Suc(2) [of e] by (cases "k = e") (auto simp: cont_AND)
qed simp

lemma runenlen_take_Suc: "k < length rs \<Longrightarrow> utf_bytes (take (Suc k) rs) = utf_bytes (take k rs) @ runetochar (rs ! k)"
  by (simp add: take_Suc_conv_app_nth)

lemma utf_bytes_split:
  "k < length rs \<Longrightarrow> utf_bytes rs = utf_bytes (take k rs) @ runetochar (rs ! k) @ utf_bytes (drop (Suc k) rs)"
  by (metis append.assoc append_take_drop_id runenlen_take_Suc utf_bytes_simps(3))

text \<open>Backing off from the end of a string that was cut finds the start of the rune there.\<close>

lemma backoff_fit:
  assumes "0 < n" "n \<le> length (utf_bytes rs)" "take n buf = take n (utf_bytes rs)" "n \<le> length buf"
  shows "backoff buf n = length (utf_bytes (take (fit rs (n - 1)) rs))"
proof -
  define k where "k = fit rs (n - 1)"
  have f: "length (utf_bytes (take k rs)) \<le> n - 1" "k < length rs \<Longrightarrow> n - 1 < length (utf_bytes (take (Suc k) rs))"
    "k \<le> length rs"
    using fit_spec [of rs "n - 1"] by (simp_all add: k_def)
  have k: "k < length rs"
  proof (rule ccontr)
    assume "\<not> k < length rs"
    then show False using f(1,3) assms(1,2) by simp
  qed
  let ?A = "utf_bytes (take k rs)" and ?r = "runetochar (rs ! k)"
  have split: "utf_bytes rs = ?A @ ?r @ utf_bytes (drop (Suc k) rs)" by (rule utf_bytes_split [OF k])
  obtain a bs where ab: "?r = a # bs" "\<not> cont a" "\<forall>b\<in>set bs. cont b" using runetochar_shape [of "rs ! k"] by blast
  have len: "n - 1 < length ?A + length ?r" using f(2) [OF k] by (simp add: runenlen_take_Suc [OF k])
  have nth: "buf ! i = ?r ! (i - length ?A)" if "length ?A \<le> i" "i < n" for i
  proof -
    have "buf ! i = utf_bytes rs ! i" using that(2) assms(3) by (metis nth_take)
    also have "\<dots> = ?r ! (i - length ?A)"
    proof -
      have "i - length ?A < length ?r" using that len by linarith
      then show ?thesis unfolding split using that(1) by (simp add: nth_append)
    qed
    finally show ?thesis .
  qed
  have "backoff buf n = length ?A"
  proof (rule backoff_to)
    show "length ?A < n" using f(1) assms(1) by simp
    then show "\<not> cont (buf ! length ?A)" using nth [of "length ?A"] ab by simp
    fix i assume i: "length ?A < i" "i < n"
    then have "?r ! (i - length ?A) = bs ! (i - length ?A - 1)" using ab(1) by simp
    moreover have "i - length ?A - 1 < length bs" using i len ab(1) by simp
    ultimately show "cont (buf ! i)" using nth [of i] i ab(3) by simp
  qed
  then show ?thesis by (simp add: k_def)
qed

lemma takeWhile_string: "0 \<notin> set p \<Longrightarrow> takeWhile (\<lambda>b. b \<noteq> 0) (p @ 0 # t) = p" for p :: bytes
  by (induction p) auto

lemma utf_bytes_nul: "0 \<notin> set rs \<Longrightarrow> 0 \<notin> set (utf_bytes rs)"
proof (induction rs)
  case (Cons r rs)
  then show ?case using runetochar_shape [of r] by auto
qed simp

lemma utfecpy_fit:
  assumes "0 \<notin> set rs" "0 < n" "n \<le> length buf"
  defines "k \<equiv> fit rs (n - 1)"
  shows "\<exists>buf'. utfecpy buf (int n) (utf_bytes rs @ 0 # t) = Some (length (utf_bytes (take k rs)), buf') \<and>
    length buf' = length buf \<and> take (length (utf_bytes (take k rs)) + 1) buf' = utf_bytes (take k rs) @ [0] \<and>
    drop n buf' = drop n buf"
proof (cases "length (utf_bytes rs) < n")
  case True
  then have "k = length rs" using fit_all [of rs "n - 1"] by (simp add: k_def)
  moreover have "drop n (take (Suc (length (utf_bytes rs))) (utf_bytes rs @ 0 # t) @ drop (Suc (length (utf_bytes rs))) buf) = drop n buf"
  proof -
    have "n - length (utf_bytes rs) = Suc (n - Suc (length (utf_bytes rs)))" using True by simp
    then show ?thesis using True by simp
  qed
  ultimately show ?thesis
    using assms(2,3) True takeWhile_string [OF utf_bytes_nul [OF assms(1)], of t] by (simp add: utfecpy_def Let_def)
next
  case False
  let ?A = "utf_bytes (take k rs)"
  define b where "b = take n (utf_bytes rs) @ drop n buf"
  have bo: "backoff b n = length ?A"
    unfolding k_def by (rule backoff_fit) (use False assms in \<open>simp_all add: b_def\<close>)
  have lt: "length ?A < n" using fit_spec [of rs "n - 1"] assms(2) unfolding k_def by linarith
  have "take (length ?A) b = ?A"
  proof -
    have "utf_bytes rs = ?A @ utf_bytes (drop k rs)" by (metis append_take_drop_id utf_bytes_simps(3))
    then have "take (length ?A) (utf_bytes rs) = ?A" by simp
    then show ?thesis using lt False by (simp add: b_def min_def)
  qed
  moreover have "length b = length buf" using False assms(3) by (simp add: b_def)
  ultimately have "take (length ?A + 1) (b[length ?A := 0]) = ?A @ [0]"
    using lt assms(3) by (simp add: take_Suc_conv_app_nth)
  moreover have "utfecpy buf (int n) (utf_bytes rs @ 0 # t) = Some (length ?A, b[length ?A := 0])"
    using assms False bo takeWhile_string [OF utf_bytes_nul [OF assms(1)], of t] by (simp add: utfecpy_def b_def Let_def)
  moreover have "drop n (b[length ?A := 0]) = drop n buf" using lt False by (simp add: b_def)
  ultimately show ?thesis using \<open>length b = length buf\<close> by simp
qed

subsection \<open>Properties\<close>

text \<open>
  C13. UTF-8 is an encoding. What \<open>runetochar\<close> writes for a rune, \<open>chartorune\<close> reads as that rune and as long as it
  was written, whatever follows; and bytes that \<open>chartorune\<close> accepts, for which it does not return the error
  rune with length 1, are in the memory, are what \<open>runetochar\<close> writes for the rune, and so are the only bytes for it (the
  longer forms are refused).
\<close>

theorem utf_roundtrip:
  "chartorune (runetochar r @ s) = Some (r, length (runetochar r)) \<and>
   (chartorune m = Some (q, n) \<longrightarrow> (q, n) \<noteq> (0xFFFD, 1) \<longrightarrow> n \<le> length m \<and> take n m = runetochar q)"
  using chartorune_runetochar runetochar_chartorune by blast

theorem utf_roundtrip_witness:
  "chartorune (runetochar 0x20AC @ [7]) = Some (0x20AC, 3) \<and> runetochar 0xE9 = take 2 [0xC3, 0xA9, 0x80]"
proof -
  have l: "length (runetochar 0x20AC) = 3" by (simp add: runetochar_def const_values)
  have c: "chartorune [0xC3, 0xA9, 0x80] = Some (0xE9, 2)" by (simp add: chartorune_def const_values char_at_def)
  show ?thesis using utf_roundtrip [of "0x20AC" "[7]" "[0xC3, 0xA9, 0x80]" "0xE9" 2] c l by simp
qed

text \<open>
  The string functions agree with the runes. On a string that holds the runes \<open>rs\<close>, none the NUL, \<open>utflen\<close> counts
  them, \<open>utfrune\<close> finds the first place of a rune or none, by \<open>strchr\<close> or by decoding, and \<open>utfnlen\<close> within the
  first \<open>m\<close> bytes counts as many whole runes as fit there; \<open>runenlen\<close> is the number of their bytes. And on any
  memory with a NUL in it, well formed or not, \<open>utflen\<close> ends and stays inside.
\<close>

theorem utf_strings:
  assumes "0 \<notin> set rs"
  shows "runenlen rs = length (utf_bytes rs) \<and>
    utflen (utf_bytes rs @ 0 # t) = Some (length rs) \<and>
    (r \<noteq> 0 \<longrightarrow> utfrune (utf_bytes rs @ 0 # t) (ucast r) =
      Some (if r \<in> set rs then Some (runenlen (takeWhile (\<lambda>q. q \<noteq> r) rs)) else None)) \<and>
    (\<exists>k\<le>length rs. utfnlen (utf_bytes rs @ 0 # t) (int m) = Some k \<and> runenlen (take k rs) \<le> m \<and>
      (k < length rs \<longrightarrow> m < runenlen (take (Suc k) rs))) \<and>
    (0 \<in> set s \<longrightarrow> utflen s \<noteq> None)"
proof -
  have "\<exists>k\<le>length rs. utfnlen (utf_bytes rs @ 0 # t) (int m) = Some k \<and> runenlen (take k rs) \<le> m \<and>
      (k < length rs \<longrightarrow> m < runenlen (take (Suc k) rs))"
    using utfnlen_fit [OF assms] fit_spec [of rs m] by (auto simp: runenlen_bytes)
  then show ?thesis
    using utfrune_bytes [OF assms] utflen_bytes [OF assms] utflen_total [of s] by (auto simp: runenlen_bytes)
qed

theorem utf_strings_witness:
  "utflen (utf_bytes [0x41, 0xE9, 0x20AC] @ [0]) = Some 3 \<and>
   utfrune (utf_bytes [0x41, 0xE9, 0x20AC] @ [0]) (ucast (0xE9 :: rune)) = Some (Some 1) \<and> utflen [0xC3, 0xC3, 0] \<noteq> None"
proof -
  have n: "0 \<notin> set [0x41, 0xE9, 0x20AC :: rune]" by simp
  have l: "runenlen [0x41] = 1" by (simp add: const_values)
  show ?thesis using utf_strings [OF n, of "[]" "0xE9" 0 "[0xC3, 0xC3, 0]"] l by simp
qed

text \<open>
  \<open>utfecpy\<close> never cuts a rune in two. Copying a string of the runes \<open>rs\<close> into a buffer with room for \<open>n\<close> bytes leaves
  there the longest prefix of whole runes that fits with its NUL, returns where the NUL is, and does
  not touch the memory behind the \<open>n\<close> bytes.
\<close>

theorem utfecpy_cut:
  assumes "0 \<notin> set rs" "0 < n" "n \<le> length buf"
  shows "\<exists>k buf'. utfecpy buf (int n) (utf_bytes rs @ 0 # t) = Some (runenlen (take k rs), buf') \<and> k \<le> length rs \<and>
    take (runenlen (take k rs) + 1) buf' = utf_bytes (take k rs) @ [0] \<and> length buf' = length buf \<and>
    drop n buf' = drop n buf \<and> runenlen (take k rs) < n \<and> (k < length rs \<longrightarrow> n \<le> runenlen (take (Suc k) rs))"
proof -
  define k where "k = fit rs (n - 1)"
  have "k \<le> length rs" "runenlen (take k rs) < n" "k < length rs \<longrightarrow> n \<le> runenlen (take (Suc k) rs)"
    using fit_spec [of rs "n - 1"] assms(2) unfolding k_def runenlen_bytes by linarith+
  moreover obtain buf' where "utfecpy buf (int n) (utf_bytes rs @ 0 # t) = Some (runenlen (take k rs), buf')"
    "length buf' = length buf" "take (runenlen (take k rs) + 1) buf' = utf_bytes (take k rs) @ [0]" "drop n buf' = drop n buf"
    using utfecpy_fit [OF assms, of t] unfolding k_def runenlen_bytes by blast
  ultimately show ?thesis by blast
qed

theorem utfecpy_cut_witness:
  "\<exists>k buf'. utfecpy [9, 9, 9, 9, 9, 9] 4 (utf_bytes [0x41, 0x20AC] @ [0]) = Some (runenlen (take k [0x41, 0x20AC]), buf') \<and>
    drop 4 buf' = [9, 9]"
  using utfecpy_cut [of "[0x41, 0x20AC]" 4 "[9, 9, 9, 9, 9, 9]" "[]"] by auto

end
