(* ===== verification/Asm.thy ===== *)
theory Asm
  imports Nix_Prelude
begin

text \<open>
  The map of the physical address space (\<open>k10/asm.c\<close>), from which the memory of the machine is handed
  out while it boots. The 64 entries are an array; the map is a list through it in the order of the
  addresses, and entries that are not used any more are on a second one. The links are modelled as
  they are, because a freed entry can stay on the map.
\<close>

subsection \<open>The map\<close>

record asm =
  a_addr :: u64
  a_size :: u64
  a_type :: int
  a_next :: "nat option"

definition AsmNONE :: int where "AsmNONE = 0"
definition AsmMEMORY :: int where "AsmMEMORY = 1"

record asms =
  asmarray :: "nat \<Rightarrow> asm"
  asmindex :: nat
  asmlist :: "nat option"
  asmfreelist :: "nat option"

definition asms0 :: asms where
  "asms0 = \<lparr>asmarray = (\<lambda>_. \<lparr>a_addr = 0, a_size = 0, a_type = 0, a_next = None\<rparr>)
       (0 := \<lparr>a_addr = 0, a_size = - 1, a_type = AsmNONE, a_next = None\<rparr>),
     asmindex = 1, asmlist = Some 0, asmfreelist = None\<rparr>"

abbreviation put :: "nat \<Rightarrow> asm \<Rightarrow> asms \<Rightarrow> asms" where
  "put i e st \<equiv> st\<lparr>asmarray := (asmarray st)(i := e)\<rparr>"

definition asmnew :: "u64 \<Rightarrow> u64 \<Rightarrow> int \<Rightarrow> asms \<Rightarrow> nat option \<times> asms" where
  "asmnew addr sz type st =
     (case (case asmfreelist st of
         Some i \<Rightarrow> Some (i, put i (asmarray st i\<lparr>a_next := None\<rparr>) (st\<lparr>asmfreelist := a_next (asmarray st i)\<rparr>))
       | None \<Rightarrow> if asmindex st \<ge> 64 then None else Some (asmindex st, st\<lparr>asmindex := asmindex st + 1\<rparr>)) of
       None \<Rightarrow> (None, st)
     | Some (i, st) \<Rightarrow> (Some i, put i (asmarray st i\<lparr>a_addr := addr, a_size := sz, a_type := type\<rparr>) st))"

text \<open>The last entry not above \<open>addr\<close>, if any, and the entry after it.\<close>

partial_function (option) asm_find :: "nat option \<Rightarrow> nat option \<Rightarrow> (nat \<Rightarrow> asm) \<Rightarrow> u64 \<Rightarrow> (nat option \<times> nat option) option" where
  "asm_find pp np m addr = (case np of
      None \<Rightarrow> Some (pp, None)
    | Some i \<Rightarrow> if a_addr (m i) \<le> addr then asm_find (Some i) (a_next (m i)) m addr else Some (pp, Some i))"

text \<open>\<open>*ppp = x\<close>, where \<open>ppp\<close> is \<open>&pp->next\<close>, or \<open>&asmlist\<close> when there is no \<open>pp\<close>.\<close>

definition link :: "nat option \<Rightarrow> nat option \<Rightarrow> asms \<Rightarrow> asms" where
  "link pp x st = (case pp of None \<Rightarrow> st\<lparr>asmlist := x\<rparr> | Some i \<Rightarrow> put i (asmarray st i\<lparr>a_next := x\<rparr>) st)"

definition asmfree :: "u64 \<Rightarrow> u64 \<Rightarrow> int \<Rightarrow> asms \<Rightarrow> (int \<times> asms) option" where
  "asmfree addr sz type st =
     (if sz = 0 then Some (0, st)
      else do {
        (pp, np) \<leftarrow> asm_find None (asmlist st) (asmarray st) addr;
        let p = map_option (asmarray st) pp; n = map_option (asmarray st) np;
            below = (case p of None \<Rightarrow> False | Some e \<Rightarrow> a_type e = type \<and> a_addr e + a_size e = addr);
            above = (case n of None \<Rightarrow> False | Some e \<Rightarrow> a_type e = type \<and> addr + sz = a_addr e) in
        if (case p of None \<Rightarrow> False | Some e \<Rightarrow> a_addr e + a_size e > addr) \<or>
           (case n of None \<Rightarrow> False | Some e \<Rightarrow> addr + sz > a_addr e)
        then Some (-1, st)
        else if below then
          let i = the pp; st = put i (asmarray st i\<lparr>a_size := a_size (asmarray st i) + sz\<rparr>) st in
          if above then
            let j = the np;
                st = put i (asmarray st i\<lparr>a_size := a_size (asmarray st i) + a_size (asmarray st j), a_next := a_next (asmarray st j)\<rparr>) st;
                st = put j (asmarray st j\<lparr>a_next := asmfreelist st\<rparr>) st in
            Some (0, st\<lparr>asmfreelist := Some j\<rparr>)
          else Some (0, st)
        else if above then
          let j = the np in
          Some (0, put j (asmarray st j\<lparr>a_addr := a_addr (asmarray st j) - sz, a_size := a_size (asmarray st j) + sz\<rparr>) st)
        else (case asmnew addr sz type st of
            (None, st) \<Rightarrow> Some (-1, st)
          | (Some k, st) \<Rightarrow> Some (0, let st = link pp (Some k) st in put k (asmarray st k\<lparr>a_next := np\<rparr>) st))
      })"

text \<open>The loop of \<open>asmalloc\<close>: the entry before the one that has room, that entry, and where in it.\<close>

partial_function (option) asm_room ::
  "nat option \<Rightarrow> nat option \<Rightarrow> (nat \<Rightarrow> asm) \<Rightarrow> u64 \<Rightarrow> u64 \<Rightarrow> int \<Rightarrow> int \<Rightarrow> (nat option \<times> nat \<times> u64) option option" where
  "asm_room pp asm m addr sz type align = (case asm of
      None \<Rightarrow> Some None
    | Some i \<Rightarrow>
        if a_type (m i) \<noteq> type then asm_room (Some i) (a_next (m i)) m addr sz type align
        else if addr \<noteq> 0 \<and> a_addr (m i) > addr then Some None
        else if addr \<noteq> 0 \<and> a_size (m i) < addr - a_addr (m i) then asm_room (Some i) (a_next (m i)) m addr sz type align
        else if addr \<noteq> 0 \<and> addr - a_addr (m i) > a_size (m i) - sz then Some None
        else
          let a = (if addr \<noteq> 0 then addr else a_addr (m i));
              a = (if align > 0 then ((a + of_int align - 1) div of_int align) * of_int align else a) in
          if a_addr (m i) + a_size (m i) - a < sz then asm_room (Some i) (a_next (m i)) m addr sz type align
          else Some (Some (pp, i, a)))"

definition asmalloc :: "u64 \<Rightarrow> u64 \<Rightarrow> int \<Rightarrow> int \<Rightarrow> asms \<Rightarrow> (u64 \<times> asms) option" where
  "asmalloc addr sz type align st = do {
     r \<leftarrow> asm_room None (asmlist st) (asmarray st) addr sz type align;
     case r of
       None \<Rightarrow> Some (0, st)
     | Some (pp, i, a) \<Rightarrow>
         let orig = a_addr (asmarray st i);
             st = put i (asmarray st i\<lparr>a_addr := a + sz, a_size := a_size (asmarray st i) - (a - orig + sz)\<rparr>) st;
             st = (if a_size (asmarray st i) = 0 then
                 let st = (case pp of None \<Rightarrow> st | Some p \<Rightarrow> put p (asmarray st p\<lparr>a_next := a_next (asmarray st i)\<rparr>) st);
                     st = put i (asmarray st i\<lparr>a_next := asmfreelist st\<rparr>) st in
                 st\<lparr>asmfreelist := Some i\<rparr>
               else st) in
         if orig \<noteq> a then do {
           (_, st) \<leftarrow> asmfree orig (a - orig) type st;
           Some (a, st)
         }
         else Some (a, st)
   }"

definition asminsert :: "u64 \<Rightarrow> u64 \<Rightarrow> int \<Rightarrow> asms \<Rightarrow> asms option" where
  "asminsert addr sz type st =
     (if type = AsmNONE then Some st
      else do {
        (r, st) \<leftarrow> asmalloc addr sz AsmNONE 0 st;
        if r = 0 then Some st
        else do {
          (r, st) \<leftarrow> asmfree addr sz type st;
          if r = 0 then Some st
          else do {
            (_, st) \<leftarrow> asmfree addr sz 0 st;
            Some st
          }
        }
      })"

subsection \<open>Booting\<close>

text \<open>The part of \<open>Sys\<close> the map keeps up to date.\<close>

record sys =
  pmstart :: u64
  pmend :: u64
  pmoccupied :: u64

definition ROUNDUP :: "'a :: len word \<Rightarrow> 'a word \<Rightarrow> 'a word" where
  "ROUNDUP x y = ((x + (y - 1)) div y) * y"

definition PGSZ :: u64 where "PGSZ = 4 * 1024"

definition asminit :: "u64 \<Rightarrow> sys \<times> asms \<Rightarrow> (sys \<times> asms) option" where
  "asminit paddr = (\<lambda>(sys, st). do {
     let sys = sys\<lparr>pmstart := ROUNDUP paddr PGSZ, pmend := ROUNDUP paddr PGSZ\<rparr>;
     (_, st) \<leftarrow> asmalloc 0 (pmstart sys) AsmNONE 0 st;
     Some (sys, st)
   })"

definition asmmapinit :: "u64 \<Rightarrow> u64 \<Rightarrow> int \<Rightarrow> sys \<times> asms \<Rightarrow> (sys \<times> asms) option" where
  "asmmapinit addr sz type = (\<lambda>(sys, st).
     if type = AsmMEMORY then
       (if addr < 1024 * 1024 \<or> addr + sz < pmstart sys then Some (sys, st)
        else
          let (addr, sz) = (if addr < pmstart sys then (pmstart sys, sz - (pmstart sys - addr)) else (addr, sz)) in
          do {
            st \<leftarrow> asminsert addr sz type st;
            let sys = sys\<lparr>pmoccupied := pmoccupied sys + sz\<rparr>;
            Some (if addr + sz > pmend sys then sys\<lparr>pmend := addr + sz\<rparr> else sys, st)
          })
     else do {
       st \<leftarrow> asminsert addr sz type st;
       Some (sys, st)
     })"

definition asmmodinit :: "u32 \<Rightarrow> u32 \<Rightarrow> sys \<times> asms \<Rightarrow> (sys \<times> asms) option" where
  "asmmodinit start end = (\<lambda>(sys, st).
     if ucast start < pmstart sys then Some (sys, st)
     else
       let end = ROUNDUP end 4096 in
       if ucast end > pmstart sys then do {
         (_, st) \<leftarrow> asmalloc (pmstart sys) (ucast end - pmstart sys) AsmNONE 0 st;
         Some (sys\<lparr>pmstart := ucast end\<rparr>, st)
       }
       else Some (sys, st))"

text \<open>The modules and the ranges the boot loader lists, in its order; a range of another type is left out.\<close>

fun multiboot_mods :: "(u32 \<times> u32) list \<Rightarrow> sys \<times> asms \<Rightarrow> (sys \<times> asms) option" where
  "multiboot_mods [] s = Some s"
| "multiboot_mods ((start, end) # mods) s = asmmodinit start end s \<bind> multiboot_mods mods"

fun multiboot_mmap :: "(u64 \<times> u64 \<times> u32) list \<Rightarrow> sys \<times> asms \<Rightarrow> (sys \<times> asms) option" where
  "multiboot_mmap [] s = Some s"
| "multiboot_mmap ((addr, len, type) # mmap) s =
     (if type \<in> {1, 2, 3, 4} then asmmapinit addr len (uint type) s else Some s) \<bind> multiboot_mmap mmap"

definition multiboot :: "(u32 \<times> u32) list \<Rightarrow> (u64 \<times> u64 \<times> u32) list \<Rightarrow> sys \<times> asms \<Rightarrow> (sys \<times> asms) option" where
  "multiboot mods mmap s = multiboot_mods mods s \<bind> multiboot_mmap mmap"

text \<open>How \<open>main\<close> makes the map.\<close>

definition boot_map :: "u64 \<Rightarrow> (u32 \<times> u32) list \<Rightarrow> (u64 \<times> u64 \<times> u32) list \<Rightarrow> (sys \<times> asms) option" where
  "boot_map paddr mods mmap = asminit paddr (\<lparr>pmstart = 0, pmend = 0, pmoccupied = 0\<rparr>, asms0) \<bind> multiboot mods mmap"

subsection \<open>The links\<close>

fun seg :: "(nat \<Rightarrow> asm) \<Rightarrow> nat option \<Rightarrow> nat list \<Rightarrow> nat option \<Rightarrow> bool" where
  "seg m s [] e \<longleftrightarrow> s = e"
| "seg m s (i # is) e \<longleftrightarrow> s = Some i \<and> seg m (a_next (m i)) is e"

lemma seg_append: "seg m s (is @ js) e \<longleftrightarrow> (\<exists>q. seg m s is q \<and> seg m q js e)"
  by (induction "is" arbitrary: s) auto

lemma seg_cong: "(\<And>i. i \<in> set is \<Longrightarrow> a_next (m' i) = a_next (m i)) \<Longrightarrow> seg m' s is e \<longleftrightarrow> seg m s is e"
  by (induction "is" arbitrary: s) auto

lemma seg_upd [simp]: "i \<notin> set is \<Longrightarrow> seg (m(i := x)) s is e \<longleftrightarrow> seg m s is e"
  by (rule seg_cong) auto

lemma seg_keep: "a_next x = a_next (m i) \<Longrightarrow> seg (m(i := x)) s is e \<longleftrightarrow> seg m s is e"
  by (rule seg_cong) auto

lemma seg_det: "seg m s is e \<Longrightarrow> seg m s is e' \<Longrightarrow> e = e'"
  by (induction "is" arbitrary: s) auto

text \<open>What the state stands for: the entries on the map, as numbers.\<close>

type_synonym entry = "nat \<times> nat \<times> int"

definition ent :: "asm \<Rightarrow> entry" where
  "ent e = (unat (a_addr e), unat (a_size e), a_type e)"

abbreviation e_end :: "entry \<Rightarrow> nat" where
  "e_end e \<equiv> fst e + fst (snd e)"

abbreviation e_type :: "entry \<Rightarrow> int" where
  "e_type e \<equiv> snd (snd e)"

definition below :: "entry \<Rightarrow> entry \<Rightarrow> bool" where
  "below d e \<longleftrightarrow> e_end d \<le> fst e \<and> (e_end d = fst e \<longrightarrow> e_type d \<noteq> e_type e)"

definition entries_ok :: "entry list \<Rightarrow> bool" where
  "entries_ok es \<longleftrightarrow> sorted_wrt below es \<and> (\<forall>e\<in>set es. 0 < fst (snd e) \<and> e_end e < 2 ^ 64)"

definition linked :: "asms \<Rightarrow> nat list \<Rightarrow> nat list \<Rightarrow> bool" where
  "linked st is fs \<longleftrightarrow> seg (asmarray st) (asmlist st) is None \<and> seg (asmarray st) (asmfreelist st) fs None \<and>
     distinct (is @ fs) \<and> set (is @ fs) = {..<asmindex st} \<and> asmindex st \<le> 64"

definition asm_rep :: "asms \<Rightarrow> entry list \<Rightarrow> bool" where
  "asm_rep st es \<longleftrightarrow> (\<exists>is fs. linked st is fs \<and> es = map (\<lambda>i. ent (asmarray st i)) is \<and> entries_ok es)"

text \<open>The type of each address that is on the map.\<close>

definition kind_of :: "entry list \<Rightarrow> nat \<Rightarrow> int option" where
  "kind_of es x = map_option e_type (find (\<lambda>e. fst e \<le> x \<and> x < e_end e) es)"

subsection \<open>Lists of entries\<close>

lemma kind_of_simps [simp]:
  "kind_of [] x = None"
  "kind_of (e # es) x = (if fst e \<le> x \<and> x < e_end e then Some (e_type e) else kind_of es x)"
  by (simp_all add: kind_of_def)

lemma kind_of_append: "kind_of (es @ fs) x = (case kind_of es x of None \<Rightarrow> kind_of fs x | Some k \<Rightarrow> Some k)"
  by (induction es) auto

lemma kind_of_Some: "kind_of es x = Some k \<Longrightarrow> \<exists>e\<in>set es. fst e \<le> x \<and> x < e_end e \<and> e_type e = k"
  by (induction es) (auto split: if_splits)

lemma kind_of_None: "(\<And>e. e \<in> set es \<Longrightarrow> x < fst e \<or> e_end e \<le> x) \<Longrightarrow> kind_of es x = None"
  by (induction es) (auto simp: not_less [symmetric])

lemma entries_ok_simps [simp]:
  "entries_ok []"
  "entries_ok (e # es) \<longleftrightarrow> (\<forall>d\<in>set es. below e d) \<and> 0 < fst (snd e) \<and> e_end e < 2 ^ 64 \<and> entries_ok es"
  by (auto simp: entries_ok_def)

lemma entries_ok_append: "entries_ok (es @ fs) \<longleftrightarrow> entries_ok es \<and> entries_ok fs \<and> (\<forall>d\<in>set es. \<forall>e\<in>set fs. below d e)"
  by (induction es) auto

lemma belowD: "below d e \<Longrightarrow> e_end d \<le> fst e"
  by (simp add: below_def)

subsection \<open>What the parts do to the links\<close>

lemma linked_cong:
  "(\<And>i. a_next (asmarray st' i) = a_next (asmarray st i)) \<Longrightarrow> asmlist st' = asmlist st \<Longrightarrow> asmfreelist st' = asmfreelist st \<Longrightarrow>
   asmindex st' = asmindex st \<Longrightarrow> linked st' is fs \<longleftrightarrow> linked st is fs"
  using seg_cong [of _ "asmarray st'" "asmarray st"] by (simp add: linked_def)

lemma linked_length: "linked st is fs \<Longrightarrow> length is + length fs = asmindex st"
  by (metis card_lessThan distinct_card length_append linked_def)

lemma asm_find_spec:
  "seg m np is None \<Longrightarrow> asm_find pp np m addr =
    Some (let as = takeWhile (\<lambda>i. a_addr (m i) \<le> addr) is; bs = dropWhile (\<lambda>i. a_addr (m i) \<le> addr) is in
      (if as = [] then pp else Some (last as), case bs of [] \<Rightarrow> None | b # _ \<Rightarrow> Some b))"
proof (induction "is" arbitrary: pp np)
  case Nil
  then show ?case by (simp add: asm_find.simps)
next
  case (Cons i "is")
  then show ?case by (subst asm_find.simps) (simp add: Let_def)
qed

lemma asmnew_none: "linked st is fs \<Longrightarrow> length is = 64 \<Longrightarrow> asmnew addr sz type st = (None, st)"
  using linked_length [of st "is" fs] by (cases fs) (auto simp: asmnew_def linked_def)

lemma asmnew_some:
  assumes "linked st is fs" "length is < 64"
  shows "\<exists>k st' fs' e. asmnew addr sz type st = (Some k, st') \<and> k \<notin> set is \<and> k \<notin> set fs' \<and> asmarray st' = (asmarray st)(k := e) \<and>
    a_addr e = addr \<and> a_size e = sz \<and> a_type e = type \<and> asmlist st' = asmlist st \<and> seg (asmarray st') (asmfreelist st') fs' None \<and>
    distinct (is @ fs') \<and> insert k (set (is @ fs')) = {..<asmindex st'} \<and> asmindex st' \<le> 64"
proof (cases fs)
  case (Cons k fs')
  define e where "e = (asmarray st k)\<lparr>a_next := None, a_addr := addr, a_size := sz, a_type := type\<rparr>"
  show ?thesis
    by (rule exI [of _ k], rule exI [of _ "put k e (st\<lparr>asmfreelist := a_next (asmarray st k)\<rparr>)"], rule exI [of _ fs'], rule exI [of _ e])
      (use assms Cons in \<open>auto simp: linked_def asmnew_def e_def\<close>)
next
  case Nil
  define k where "k = asmindex st"
  define e where "e = (asmarray st k)\<lparr>a_addr := addr, a_size := sz, a_type := type\<rparr>"
  have k: "k < 64" using linked_length [OF assms(1)] assms(2) Nil by (simp add: k_def)
  have l: "seg (asmarray st) (asmlist st) is None" "asmfreelist st = None" "distinct is" "set is = {..<k}"
    using assms(1) Nil by (auto simp: linked_def k_def)
  have new: "asmnew addr sz type st = (Some k, put k e (st\<lparr>asmindex := k + 1\<rparr>))"
    using l(2) k by (simp add: asmnew_def e_def k_def)
  have "insert k (set (is @ [])) = {..<k + 1}" "k \<notin> set is" using l(4) by (auto simp: lessThan_Suc)
  then show ?thesis
    using new l k by (intro exI [of _ k] exI [of _ "put k e (st\<lparr>asmindex := k + 1\<rparr>)"] exI [of _ "[]"] exI [of _ e]) (simp add: e_def)
qed

lemma seg_last_upd:
  assumes "seg m s (as @ [p]) q" "distinct (as @ [p])" "a_next e = x"
  shows "seg (m(p := e)) s (as @ [p]) x"
  using assms by (auto simp: seg_append)

lemma linked_insert:
  assumes "linked st (as @ bs) fs" "length (as @ bs) < 64" "asmnew addr sz type st = (Some k, st')"
  defines "pp \<equiv> (if as = [] then None else Some (last as))" and "np \<equiv> (case bs of [] \<Rightarrow> None | b # _ \<Rightarrow> Some b)"
  defines "st2 \<equiv> (let st = link pp (Some k) st' in put k (asmarray st k\<lparr>a_next := np\<rparr>) st)"
  shows "\<exists>fs'. linked st2 (as @ k # bs) fs' \<and> ent (asmarray st2 k) = (unat addr, unat sz, type) \<and> k \<notin> set (as @ bs) \<and>
    (\<forall>i\<in>set (as @ bs). ent (asmarray st2 i) = ent (asmarray st i))"
proof -
  obtain fs' e where k: "k \<notin> set (as @ bs)" "k \<notin> set fs'" "asmarray st' = (asmarray st)(k := e)"
    "a_addr e = addr" "a_size e = sz" "a_type e = type" "asmlist st' = asmlist st"
    "seg (asmarray st') (asmfreelist st') fs' None" "distinct ((as @ bs) @ fs')"
    "insert k (set ((as @ bs) @ fs')) = {..<asmindex st'}" "asmindex st' \<le> 64"
    using asmnew_some [OF assms(1,2), of addr sz type] assms(3) by auto
  have sb: "\<exists>q. seg (asmarray st) (asmlist st) as q \<and> seg (asmarray st) q bs None"
    using assms(1) by (simp add: linked_def seg_append)
  then have np: "seg (asmarray st) np bs None" by (cases bs) (auto simp: np_def)
  obtain q where q: "seg (asmarray st) (asmlist st) as q" using sb by blast
  have others: "asmindex st2 = asmindex st'" "asmfreelist st2 = asmfreelist st'"
    by (simp_all add: st2_def link_def Let_def split: option.split)
  show ?thesis
  proof (cases as rule: rev_cases)
    case Nil
    have "linked st2 (as @ k # bs) fs'"
      unfolding linked_def others using Nil k np
      by (auto simp: st2_def link_def pp_def seg_append Let_def)
    then show ?thesis using k Nil by (intro exI [of _ fs']) (auto simp: st2_def link_def pp_def ent_def Let_def)
  next
    case (snoc as' p)
    then have pk: "p \<noteq> k" "p \<notin> set as'" "p \<notin> set bs" "p \<notin> set fs'" using k by auto
    have "seg ((asmarray st)(k := e, p := asmarray st p\<lparr>a_next := Some k\<rparr>)) (asmlist st) as (Some k)"
      unfolding snoc by (rule seg_last_upd [where q = q]) (use q k snoc in auto)
    then have "linked st2 (as @ k # bs) fs'"
      unfolding linked_def others using snoc k np pk
      by (auto simp: st2_def link_def pp_def seg_append Let_def)
    then show ?thesis using k snoc pk by (intro exI [of _ fs']) (auto simp: st2_def link_def pp_def ent_def Let_def)
  qed
qed

lemma linked_merge:
  assumes "linked st (as @ p # j # bs) fs" "a_next e = a_next (asmarray st j)" "a_next f = asmfreelist st"
  shows "linked (put j f (put p e st)\<lparr>asmfreelist := Some j\<rparr>) (as @ p # bs) (j # fs)"
proof -
  have d: "distinct (as @ p # j # bs @ fs)" using assms(1) by (simp add: linked_def)
  have "seg (asmarray st) (asmlist st) (as @ [p]) (Some j)" "seg (asmarray st) (a_next (asmarray st j)) bs None"
    using assms(1) by (auto simp: linked_def seg_append)
  then have "seg ((asmarray st)(p := e)) (asmlist st) (as @ [p]) (a_next (asmarray st j))"
    using d assms(2) by (intro seg_last_upd) auto
  then have "seg ((asmarray st)(p := e, j := f)) (asmlist st) ((as @ [p]) @ bs) None"
    using d \<open>seg (asmarray st) (a_next (asmarray st j)) bs None\<close> by (subst seg_append) auto
  then show ?thesis using assms(1,3) d by (auto simp: linked_def)
qed

subsection \<open>Lists of entries with one more\<close>

lemma below_trans_left: "below d p \<Longrightarrow> below p e \<Longrightarrow> 0 < fst (snd p) \<Longrightarrow> below d e"
  by (auto simp: below_def)

lemma ok_left: "entries_ok (A @ [p]) \<Longrightarrow> below p e \<Longrightarrow> d \<in> set (A @ [p]) \<Longrightarrow> below d e"
  by (auto simp: entries_ok_append intro: below_trans_left)

lemma ok_right: "entries_ok (q # B) \<Longrightarrow> below e q \<Longrightarrow> d \<in> set (q # B) \<Longrightarrow> below e d"
  by (auto intro: below_trans_left)

lemma ok_insert:
  "entries_ok A \<Longrightarrow> entries_ok B \<Longrightarrow> \<forall>d\<in>set A. below d e \<Longrightarrow> \<forall>d\<in>set B. below e d \<Longrightarrow> 0 < fst (snd e) \<Longrightarrow> e_end e < 2 ^ 64 \<Longrightarrow>
   entries_ok (A @ e # B)"
  by (auto simp: entries_ok_append intro: below_trans_left)

lemma ok_merge_left:
  "entries_ok (A @ (a, s, t) # B) \<Longrightarrow> a + s + n < 2 ^ 64 \<Longrightarrow> \<forall>d\<in>set B. below (a, s + n, t) d \<Longrightarrow> entries_ok (A @ (a, s + n, t) # B)"
  by (auto simp: entries_ok_append below_def)

lemma ok_merge_right:
  "entries_ok (A @ (x + n, s, t) # B) \<Longrightarrow> 0 < n \<Longrightarrow> \<forall>d\<in>set A. below d (x, n + s, t) \<Longrightarrow> entries_ok (A @ (x, n + s, t) # B)"
  by (auto simp: entries_ok_append below_def)

lemma ok_merge_both:
  "entries_ok (A @ (a, s, t) # (b, u, t) # B) \<Longrightarrow> b = a + s + n \<Longrightarrow> entries_ok (A @ (a, s + n + u, t) # B)"
  by (auto simp: entries_ok_append below_def)

lemma kind_insert:
  assumes "\<forall>d\<in>set A. e_end d \<le> x" "\<forall>d\<in>set B. x + n \<le> fst d"
  shows "kind_of (A @ (x, n, t) # B) y = (if x \<le> y \<and> y < x + n then Some t else kind_of (A @ B) y)"
proof (cases "x \<le> y \<and> y < x + n")
  case True
  have "kind_of A y = None" by (rule kind_of_None) (use True assms(1) in auto)
  then show ?thesis using True by (simp add: kind_of_append)
qed (auto simp: kind_of_append split: option.split)

lemma kind_merge: "kind_of (A @ (a, s, t) # (a + s, n, t) # B) = kind_of (A @ (a, s + n, t) # B)"
  by (rule ext) (auto simp: kind_of_append split: option.split)

lemma unat_add_u64: "unat a + unat b < 2 ^ 64 \<Longrightarrow> unat (a + b) = unat a + unat b" for a b :: u64
  using unat_add_lem [of a b] by simp

lemma e_end_word: "entries_ok (map (\<lambda>i. ent (m i)) is) \<Longrightarrow> i \<in> set is \<Longrightarrow> unat (a_addr (m i) + a_size (m i)) = unat (a_addr (m i)) + unat (a_size (m i))"
  by (rule unat_add_u64) (auto simp: entries_ok_def ent_def)

subsection \<open>Giving a range back\<close>

definition adds :: "nat \<Rightarrow> nat \<Rightarrow> int \<Rightarrow> entry list \<Rightarrow> entry list \<Rightarrow> bool" where
  "adds x n t es es' \<longleftrightarrow> (\<forall>y. x \<le> y \<and> y < x + n \<longrightarrow> kind_of es y = None) \<and> length es' \<le> Suc (length es) \<and>
    kind_of es' = (\<lambda>y. if x \<le> y \<and> y < x + n then Some t else kind_of es y)"

text \<open>A range goes between the entries \<open>A\<close> below it and the entries \<open>B\<close> above it.\<close>

definition fits :: "nat \<Rightarrow> nat \<Rightarrow> entry list \<Rightarrow> entry list \<Rightarrow> bool" where
  "fits x n A B \<longleftrightarrow> entries_ok (A @ B) \<and> 0 < n \<and> x + n < 2 ^ 64 \<and> (\<forall>d\<in>set A. e_end d \<le> x) \<and> (\<forall>d\<in>set B. x + n \<le> fst d)"

lemma fits_kind: "fits x n A B \<Longrightarrow> x \<le> y \<Longrightarrow> y < x + n \<Longrightarrow> kind_of (A @ B) y = None"
  by (rule kind_of_None) (fastforce simp: fits_def)

lemma adds_insert: "fits x n A B \<Longrightarrow> adds x n t (A @ B) (A @ (x, n, t) # B)"
  using fits_kind [of x n A B] by (auto simp: adds_def fun_eq_iff kind_insert fits_def)

lemma adds_left: "fits x n (A @ [(a, s, t)]) B \<Longrightarrow> a + s = x \<Longrightarrow> adds x n t (A @ (a, s, t) # B) (A @ (a, s + n, t) # B)"
  using adds_insert [of x n "A @ [(a, s, t)]" B t] kind_merge [of A a s t n B] by (simp add: adds_def)

lemma adds_right: "fits x n A ((x + n, s, t) # B) \<Longrightarrow> adds x n t (A @ (x + n, s, t) # B) (A @ (x, n + s, t) # B)"
  using adds_insert [of x n A "(x + n, s, t) # B" t] kind_merge [of A x n t s B] by (simp add: adds_def)

lemma adds_both:
  "fits x n (A @ [(a, s, t)]) ((x + n, u, t) # B) \<Longrightarrow> a + s = x \<Longrightarrow>
   adds x n t (A @ (a, s, t) # (x + n, u, t) # B) (A @ (a, s + n + u, t) # B)"
  using adds_left [of x n A a s t "(x + n, u, t) # B"] kind_merge [of A a "s + n" t u B] by (auto simp: adds_def add.assoc)

lemma fits_ok_insert:
  assumes "fits x n A B" "A \<noteq> [] \<Longrightarrow> e_end (last A) = x \<Longrightarrow> e_type (last A) \<noteq> t" "B \<noteq> [] \<Longrightarrow> x + n = fst (hd B) \<Longrightarrow> e_type (hd B) \<noteq> t"
  shows "entries_ok (A @ (x, n, t) # B)"
proof (rule ok_insert)
  show "\<forall>d\<in>set A. below d (x, n, t)"
  proof (cases A rule: rev_cases)
    case (snoc A' p)
    have "entries_ok (A' @ [p])" using assms(1) snoc by (simp add: fits_def entries_ok_append)
    moreover have "below p (x, n, t)" using assms(1,2) snoc by (auto simp: fits_def below_def)
    ultimately show ?thesis using ok_left snoc by blast
  qed simp
  show "\<forall>d\<in>set B. below (x, n, t) d"
  proof (cases B)
    case (Cons q B')
    have "entries_ok (q # B')" using assms(1) Cons by (simp add: fits_def entries_ok_append)
    moreover have "below (x, n, t) q" using assms(1,3) Cons by (auto simp: fits_def below_def)
    ultimately show ?thesis using ok_right Cons by blast
  qed simp
qed (use assms(1) in \<open>auto simp: fits_def entries_ok_append\<close>)

lemma fits_ok_left:
  assumes "fits x n (A @ [(a, s, t)]) B" "a + s = x" "B \<noteq> [] \<Longrightarrow> x + n = fst (hd B) \<Longrightarrow> e_type (hd B) \<noteq> t"
  shows "entries_ok (A @ (a, s + n, t) # B)"
proof (rule ok_merge_left)
  show "entries_ok (A @ (a, s, t) # B)" "a + s + n < 2 ^ 64" using assms(1,2) by (auto simp: fits_def)
  show "\<forall>d\<in>set B. below (a, s + n, t) d"
  proof (cases B)
    case (Cons q B')
    have "entries_ok (q # B')" using assms(1) Cons by (simp add: fits_def entries_ok_append)
    moreover have "below (a, s + n, t) q" using assms Cons by (auto simp: fits_def below_def)
    ultimately show ?thesis using ok_right Cons by blast
  qed simp
qed

lemma fits_ok_right:
  assumes "fits x n A ((x + n, s, t) # B)" "A \<noteq> [] \<Longrightarrow> e_end (last A) = x \<Longrightarrow> e_type (last A) \<noteq> t"
  shows "entries_ok (A @ (x, n + s, t) # B)"
proof (rule ok_merge_right)
  show "entries_ok (A @ (x + n, s, t) # B)" "0 < n" using assms(1) by (auto simp: fits_def)
  show "\<forall>d\<in>set A. below d (x, n + s, t)"
  proof (cases A rule: rev_cases)
    case (snoc A' p)
    have "entries_ok (A' @ [p])" using assms(1) snoc by (simp add: fits_def entries_ok_append)
    moreover have "below p (x, n + s, t)" using assms snoc by (auto simp: fits_def below_def)
    ultimately show ?thesis using ok_left snoc by blast
  qed simp
qed

abbreviation ents :: "asms \<Rightarrow> nat list \<Rightarrow> entry list" where
  "ents st is \<equiv> map (\<lambda>i. ent (asmarray st i)) is"

definition place :: "asms \<Rightarrow> nat list \<Rightarrow> nat list \<Rightarrow> nat list \<Rightarrow> u64 \<Rightarrow> u64 \<Rightarrow> bool" where
  "place st as bs fs addr sz \<longleftrightarrow> linked st (as @ bs) fs \<and> sz \<noteq> 0 \<and> fits (unat addr) (unat sz) (ents st as) (ents st bs) \<and>
    asm_find None (asmlist st) (asmarray st) addr =
      Some (if as = [] then None else Some (last as), case bs of [] \<Rightarrow> None | b # _ \<Rightarrow> Some b)"

lemma ent_sel [simp]: "fst (ent e) = unat (a_addr e)" "fst (snd (ent e)) = unat (a_size e)" "e_type (ent e) = a_type e"
  by (simp_all add: ent_def)

lemma ok_bound: "entries_ok es \<Longrightarrow> e \<in> set es \<Longrightarrow> e_end e < 2 ^ 64"
  by (simp add: entries_ok_def)

lemma placeD:
  assumes "place st as bs fs addr sz"
  shows "linked st (as @ bs) fs" "sz \<noteq> 0" "fits (unat addr) (unat sz) (ents st as) (ents st bs)"
    "asm_find None (asmlist st) (asmarray st) addr =
      Some (if as = [] then None else Some (last as), case bs of [] \<Rightarrow> None | b # _ \<Rightarrow> Some b)"
    "unat (addr + sz) = unat addr + unat sz"
    "i \<in> set (as @ bs) \<Longrightarrow> unat (a_addr (asmarray st i) + a_size (asmarray st i)) = e_end (ent (asmarray st i))"
    "i \<in> set as \<Longrightarrow> e_end (ent (asmarray st i)) \<le> unat addr"
    "i \<in> set bs \<Longrightarrow> unat addr + unat sz \<le> fst (ent (asmarray st i))"
proof -
  show "linked st (as @ bs) fs" "sz \<noteq> 0" "fits (unat addr) (unat sz) (ents st as) (ents st bs)"
    "asm_find None (asmlist st) (asmarray st) addr =
      Some (if as = [] then None else Some (last as), case bs of [] \<Rightarrow> None | b # _ \<Rightarrow> Some b)"
    using assms by (simp_all add: place_def)
  show "unat (addr + sz) = unat addr + unat sz" by (rule unat_add_u64) (use assms in \<open>simp add: place_def fits_def\<close>)
  show "i \<in> set (as @ bs) \<Longrightarrow> unat (a_addr (asmarray st i) + a_size (asmarray st i)) = e_end (ent (asmarray st i))"
  proof -
    assume i: "i \<in> set (as @ bs)"
    have "entries_ok (ents st as @ ents st bs)" using assms by (simp add: place_def fits_def)
    then have "e_end (ent (asmarray st i)) < 2 ^ 64" by (rule ok_bound) (use i in auto)
    then have "unat (a_addr (asmarray st i)) + unat (a_size (asmarray st i)) < 2 ^ 64" by (simp only: ent_sel)
    then show "unat (a_addr (asmarray st i) + a_size (asmarray st i)) = e_end (ent (asmarray st i))"
      unfolding ent_sel by (rule unat_add_u64)
  qed
  show "i \<in> set as \<Longrightarrow> e_end (ent (asmarray st i)) \<le> unat addr" "i \<in> set bs \<Longrightarrow> unat addr + unat sz \<le> fst (ent (asmarray st i))"
    using assms by (auto simp: place_def fits_def)
qed

definition is_below :: "asms \<Rightarrow> nat list \<Rightarrow> u64 \<Rightarrow> int \<Rightarrow> bool" where
  "is_below st as addr type \<longleftrightarrow> as \<noteq> [] \<and> a_type (asmarray st (last as)) = type \<and> a_addr (asmarray st (last as)) + a_size (asmarray st (last as)) = addr"

definition is_above :: "asms \<Rightarrow> nat list \<Rightarrow> u64 \<Rightarrow> u64 \<Rightarrow> int \<Rightarrow> bool" where
  "is_above st bs addr sz type \<longleftrightarrow> bs \<noteq> [] \<and> a_type (asmarray st (hd bs)) = type \<and> addr + sz = a_addr (asmarray st (hd bs))"

lemma asmfree_place:
  assumes "place st as bs fs addr sz"
  shows "asmfree addr sz type st =
    (if is_below st as addr type then
       let i = last as; st1 = put i (asmarray st i\<lparr>a_size := a_size (asmarray st i) + sz\<rparr>) st in
       if is_above st bs addr sz type then
         let j = hd bs;
             st2 = put i (asmarray st1 i\<lparr>a_size := a_size (asmarray st1 i) + a_size (asmarray st1 j), a_next := a_next (asmarray st1 j)\<rparr>) st1;
             st3 = put j (asmarray st2 j\<lparr>a_next := asmfreelist st2\<rparr>) st2 in
         Some (0, st3\<lparr>asmfreelist := Some j\<rparr>)
       else Some (0, st1)
     else if is_above st bs addr sz type then
       let j = hd bs in
       Some (0, put j (asmarray st j\<lparr>a_addr := a_addr (asmarray st j) - sz, a_size := a_size (asmarray st j) + sz\<rparr>) st)
     else (case asmnew addr sz type st of
         (None, st) \<Rightarrow> Some (-1, st)
       | (Some k, st) \<Rightarrow> Some (0, let st = link (if as = [] then None else Some (last as)) (Some k) st in
           put k (asmarray st k\<lparr>a_next := (case bs of [] \<Rightarrow> None | b # _ \<Rightarrow> Some b)\<rparr>) st)))"
proof -
  note p = placeD [OF assms]
  have l: "\<not> a_addr (asmarray st (last as)) + a_size (asmarray st (last as)) > addr" if "as \<noteq> []"
    using p(6) [of "last as"] p(7) [of "last as"] that by (simp add: word_less_nat_alt)
  have r: "\<not> addr + sz > a_addr (asmarray st (hd bs))" if "bs \<noteq> []"
    using p(5) p(8) [of "hd bs"] that by (simp add: word_less_nat_alt)
  obtain rk s2 where new: "asmnew addr sz type st = (rk, s2)" by fastforce
  show ?thesis
  proof (cases "as = []")
    case True
    then show ?thesis using p(2,4) r by (cases rk; cases bs; hypsubst) (simp_all add: asmfree_def is_below_def is_above_def new Let_def)
  next
    case False
    then show ?thesis using p(2,4) l r by (cases rk; cases bs; hypsubst) (simp_all add: asmfree_def is_below_def is_above_def new Let_def)
  qed
qed

lemma asm_repI: "linked st is fs \<Longrightarrow> entries_ok es \<Longrightarrow> es = ents st is \<Longrightarrow> asm_rep st es"
  by (auto simp: asm_rep_def)

lemma ents_cong: "(\<And>i. i \<in> set is \<Longrightarrow> ent (asmarray st' i) = ent (asmarray st i)) \<Longrightarrow> ents st' is = ents st is"
  by simp

lemma u64_eq_iff: "a = b \<longleftrightarrow> unat a = unat b" for a b :: u64
  by (simp add: word_unat_eq_iff)

text \<open>What the entries next to the range say, in numbers.\<close>

lemma is_below_iff:
  assumes "place st (as @ [p]) bs fs addr sz"
  shows "is_below st (as @ [p]) addr type \<longleftrightarrow>
    a_type (asmarray st p) = type \<and> unat (a_addr (asmarray st p)) + unat (a_size (asmarray st p)) = unat addr"
  using placeD(6) [OF assms, of p] by (simp add: is_below_def u64_eq_iff)

lemma is_above_iff:
  assumes "place st as (q # bs) fs addr sz"
  shows "is_above st (q # bs) addr sz type \<longleftrightarrow>
    a_type (asmarray st q) = type \<and> unat (a_addr (asmarray st q)) = unat addr + unat sz"
  using placeD(5) [OF assms] by (auto simp: is_above_def u64_eq_iff)

lemma place_distinct: "place st as bs fs addr sz \<Longrightarrow> distinct (as @ bs)"
  by (auto simp: place_def linked_def)

lemma asmfree_both:
  assumes pl: "place st (as @ [p]) (j # bs) fs addr sz"
    and t: "is_below st (as @ [p]) addr type" "is_above st (j # bs) addr sz type"
  shows "\<exists>st' es'. asmfree addr sz type st = Some (0, st') \<and> asm_rep st' es' \<and>
    adds (unat addr) (unat sz) type (ents st ((as @ [p]) @ j # bs)) es'"
proof -
  let ?m = "asmarray st"
  define e where "e = ?m p\<lparr>a_size := a_size (?m p) + sz + a_size (?m j), a_next := a_next (?m j)\<rparr>"
  define st' where "st' = put j (?m j\<lparr>a_next := asmfreelist st\<rparr>) (put p e st)\<lparr>asmfreelist := Some j\<rparr>"
  have d: "p \<noteq> j" "p \<notin> set as" "p \<notin> set bs" "j \<notin> set as" "j \<notin> set bs" using place_distinct [OF pl] by auto
  have free: "asmfree addr sz type st = Some (0, st')"
    using d t by (simp add: asmfree_place [OF pl] Let_def st'_def e_def)
  have l: "linked st' (as @ p # bs) (j # fs)"
    unfolding st'_def by (rule linked_merge) (use placeD(1) [OF pl] in \<open>simp_all add: e_def\<close>)
  define a s u where "a = unat (a_addr (?m p))" and "s = unat (a_size (?m p))" and "u = unat (a_size (?m j))"
  have b: "a_type (?m p) = type" "a + s = unat addr" using is_below_iff [OF pl] t by (simp_all add: a_def s_def)
  have c: "a_type (?m j) = type" "unat (a_addr (?m j)) = unat addr + unat sz" using is_above_iff [OF pl] t by simp_all
  have es: "ents st (as @ [p]) = ents st as @ [(a, s, type)]" "ents st (j # bs) = (unat addr + unat sz, u, type) # ents st bs"
    using b c by (simp_all add: ent_def a_def s_def u_def)
  note f = placeD(3) [OF pl, unfolded es]
  have ok: "entries_ok (ents st as @ (a, s + unat sz + u, type) # ents st bs)"
    by (rule ok_merge_both [where b = "unat addr + unat sz"]) (use f b in \<open>simp_all add: fits_def\<close>)
  have lt: "a + (s + unat sz + u) < 2 ^ 64" using ok_bound [OF ok, of "(a, s + unat sz + u, type)"] by simp
  then have "unat (a_size (?m p) + sz) = s + unat sz" unfolding s_def by (intro unat_add_u64) simp
  then have "unat (a_size (?m p) + sz + a_size (?m j)) = s + unat sz + u"
    using lt unfolding u_def by (subst unat_add_u64) simp_all
  then have new: "ents st' (as @ p # bs) = ents st as @ (a, s + unat sz + u, type) # ents st bs"
    using d b by (auto simp: st'_def e_def ent_def a_def)
  have "adds (unat addr) (unat sz) type (ents st ((as @ [p]) @ j # bs)) (ents st' (as @ p # bs))"
  proof -
    have "ents st ((as @ [p]) @ j # bs) = ents st as @ (a, s, type) # (unat addr + unat sz, u, type) # ents st bs" using es by simp
    then show ?thesis using adds_both [OF f b(2)] by (simp only: new)
  qed
  moreover have "asm_rep st' (ents st' (as @ p # bs))" by (rule asm_repI [OF l]) (simp_all only: new ok)
  ultimately show ?thesis using free by blast
qed

lemma asmfree_left:
  assumes pl: "place st (as @ [p]) bs fs addr sz"
    and t: "is_below st (as @ [p]) addr type" "\<not> is_above st bs addr sz type"
  shows "\<exists>st' es'. asmfree addr sz type st = Some (0, st') \<and> asm_rep st' es' \<and>
    adds (unat addr) (unat sz) type (ents st ((as @ [p]) @ bs)) es'"
proof -
  let ?m = "asmarray st"
  define st' where "st' = put p (?m p\<lparr>a_size := a_size (?m p) + sz\<rparr>) st"
  have d: "p \<notin> set as" "p \<notin> set bs" using place_distinct [OF pl] by auto
  have free: "asmfree addr sz type st = Some (0, st')"
    using t by (simp add: asmfree_place [OF pl] Let_def st'_def)
  have l: "linked st' ((as @ [p]) @ bs) fs" using placeD(1) [OF pl] by (subst linked_cong [of _ st]) (auto simp: st'_def)
  define a s where "a = unat (a_addr (?m p))" and "s = unat (a_size (?m p))"
  have b: "a_type (?m p) = type" "a + s = unat addr" using is_below_iff [OF pl] t by (simp_all add: a_def s_def)
  have es: "ents st (as @ [p]) = ents st as @ [(a, s, type)]"
    using b by (simp add: ent_def a_def s_def)
  note f = placeD(3) [OF pl, unfolded es]
  have ok: "entries_ok (ents st as @ (a, s + unat sz, type) # ents st bs)"
  proof (rule fits_ok_left [OF f b(2)])
    assume n: "ents st bs \<noteq> []" "unat addr + unat sz = fst (hd (ents st bs))"
    then obtain q bs' where q: "bs = q # bs'" by (cases bs) auto
    show "e_type (hd (ents st bs)) \<noteq> type" using is_above_iff [OF pl [unfolded q]] t(2) n q by simp
  qed
  have "a + (s + unat sz) < 2 ^ 64" using ok_bound [OF ok, of "(a, s + unat sz, type)"] by simp
  then have "unat (a_size (?m p) + sz) = s + unat sz" unfolding s_def by (intro unat_add_u64) simp
  then have new: "ents st' ((as @ [p]) @ bs) = ents st as @ (a, s + unat sz, type) # ents st bs"
    using d b by (auto simp: st'_def ent_def a_def)
  have "adds (unat addr) (unat sz) type (ents st ((as @ [p]) @ bs)) (ents st' ((as @ [p]) @ bs))"
  proof -
    have "ents st ((as @ [p]) @ bs) = ents st as @ (a, s, type) # ents st bs" using es by simp
    then show ?thesis using adds_left [OF f b(2)] by (simp only: new)
  qed
  moreover have "asm_rep st' (ents st' ((as @ [p]) @ bs))" by (rule asm_repI [OF l]) (simp_all only: new ok)
  ultimately show ?thesis using free by blast
qed

lemma asmfree_right:
  assumes pl: "place st as (j # bs) fs addr sz"
    and t: "\<not> is_below st as addr type" "is_above st (j # bs) addr sz type"
  shows "\<exists>st' es'. asmfree addr sz type st = Some (0, st') \<and> asm_rep st' es' \<and>
    adds (unat addr) (unat sz) type (ents st (as @ j # bs)) es'"
proof -
  let ?m = "asmarray st"
  define st' where "st' = put j (?m j\<lparr>a_addr := a_addr (?m j) - sz, a_size := a_size (?m j) + sz\<rparr>) st"
  have d: "j \<notin> set as" "j \<notin> set bs" using place_distinct [OF pl] by auto
  have free: "asmfree addr sz type st = Some (0, st')"
    using t by (simp add: asmfree_place [OF pl] Let_def st'_def)
  have l: "linked st' (as @ j # bs) fs" using placeD(1) [OF pl] by (subst linked_cong [of _ st]) (auto simp: st'_def)
  define s where "s = unat (a_size (?m j))"
  have c: "a_type (?m j) = type" "unat (a_addr (?m j)) = unat addr + unat sz" using is_above_iff [OF pl] t by simp_all
  have es: "ents st (j # bs) = (unat addr + unat sz, s, type) # ents st bs" using c by (simp add: ent_def s_def)
  note f = placeD(3) [OF pl, unfolded es]
  have ok: "entries_ok (ents st as @ (unat addr, unat sz + s, type) # ents st bs)"
  proof (rule fits_ok_right [OF f])
    assume n: "ents st as \<noteq> []" "e_end (last (ents st as)) = unat addr"
    then obtain p as' where p: "as = as' @ [p]" by (cases as rule: rev_cases) auto
    show "e_type (last (ents st as)) \<noteq> type" using is_below_iff [OF pl [unfolded p]] t(1) n p by simp
  qed
  have "unat addr + (unat sz + s) < 2 ^ 64" using ok_bound [OF ok, of "(unat addr, unat sz + s, type)"] by simp
  then have z: "unat (a_size (?m j) + sz) = unat sz + s" unfolding s_def by (subst unat_add_u64) simp_all
  have "a_addr (?m j) = addr + sz" using placeD(5) [OF pl] c(2) by (simp add: u64_eq_iff)
  then have new: "ents st' (as @ j # bs) = ents st as @ (unat addr, unat sz + s, type) # ents st bs"
    using d c z by (auto simp: st'_def ent_def)
  have "ents st (as @ j # bs) = ents st as @ (unat addr + unat sz, s, type) # ents st bs" using es by simp
  then have "adds (unat addr) (unat sz) type (ents st (as @ j # bs)) (ents st' (as @ j # bs))"
    using adds_right [OF f] by (simp only: new)
  moreover have "asm_rep st' (ents st' (as @ j # bs))" by (rule asm_repI [OF l]) (simp_all only: new ok)
  ultimately show ?thesis using free by blast
qed

lemma asmfree_new:
  assumes pl: "place st as bs fs addr sz"
    and t: "\<not> is_below st as addr type" "\<not> is_above st bs addr sz type" and room: "length (as @ bs) < 64"
  shows "\<exists>st' es'. asmfree addr sz type st = Some (0, st') \<and> asm_rep st' es' \<and>
    adds (unat addr) (unat sz) type (ents st (as @ bs)) es'"
proof -
  obtain k s2 where new: "asmnew addr sz type st = (Some k, s2)" using asmnew_some [OF placeD(1) [OF pl] room] by blast
  define st' where "st' = (let st = link (if as = [] then None else Some (last as)) (Some k) s2 in
    put k (asmarray st k\<lparr>a_next := (case bs of [] \<Rightarrow> None | b # _ \<Rightarrow> Some b)\<rparr>) st)"
  have free: "asmfree addr sz type st = Some (0, st')"
    using t by (simp add: asmfree_place [OF pl] new st'_def)
  obtain fs' where l: "linked st' (as @ k # bs) fs'" "ent (asmarray st' k) = (unat addr, unat sz, type)"
    "\<forall>i\<in>set (as @ bs). ent (asmarray st' i) = ent (asmarray st i)"
    using linked_insert [OF placeD(1) [OF pl] room new] unfolding st'_def by blast
  note f = placeD(3) [OF pl]
  have ok: "entries_ok (ents st as @ (unat addr, unat sz, type) # ents st bs)"
  proof (rule fits_ok_insert [OF f])
    assume n: "ents st as \<noteq> []" "e_end (last (ents st as)) = unat addr"
    then obtain p as' where p: "as = as' @ [p]" by (cases as rule: rev_cases) auto
    show "e_type (last (ents st as)) \<noteq> type" using is_below_iff [OF pl [unfolded p]] t(1) n p by simp
  next
    assume n: "ents st bs \<noteq> []" "unat addr + unat sz = fst (hd (ents st bs))"
    then obtain q bs' where q: "bs = q # bs'" by (cases bs) auto
    show "e_type (hd (ents st bs)) \<noteq> type" using is_above_iff [OF pl [unfolded q]] t(2) n q by simp
  qed
  have n: "ents st' (as @ k # bs) = ents st as @ (unat addr, unat sz, type) # ents st bs" using l(2,3) by simp
  have "adds (unat addr) (unat sz) type (ents st (as @ bs)) (ents st' (as @ k # bs))"
    unfolding n using adds_insert [OF f] by simp
  moreover have "asm_rep st' (ents st' (as @ k # bs))" by (rule asm_repI [OF l(1)]) (simp_all only: n ok)
  ultimately show ?thesis using free by blast
qed

text \<open>The place is what the search finds, unless the range overlaps an entry.\<close>

lemma split_addr:
  "entries_ok (ents st is) \<Longrightarrow> i \<in> set (dropWhile (\<lambda>i. a_addr (asmarray st i) \<le> addr) is) \<Longrightarrow> addr < a_addr (asmarray st i)"
proof (induction "is")
  case (Cons j "is")
  show ?case
  proof (cases "a_addr (asmarray st j) \<le> addr")
    case False
    have "\<forall>d\<in>set (ents st is). below (ent (asmarray st j)) d" using Cons.prems(1) by simp
    then have "a_addr (asmarray st j) \<le> a_addr (asmarray st i)" if "i \<in> set is"
      using that by (auto simp: below_def word_le_nat_alt)
    then show ?thesis using Cons.prems(2) False by auto
  qed (use Cons in simp)
qed simp

lemma kind_of_in: "e \<in> set es \<Longrightarrow> fst e \<le> y \<Longrightarrow> y < e_end e \<Longrightarrow> kind_of es y \<noteq> None"
  by (induction es) auto

lemma asmfree_overlap:
  "asm_find None (asmlist st) (asmarray st) addr = Some (pp, np) \<Longrightarrow> sz \<noteq> 0 \<Longrightarrow>
   (\<exists>p. pp = Some p \<and> a_addr (asmarray st p) + a_size (asmarray st p) > addr) \<or>
   (\<exists>q. np = Some q \<and> addr + sz > a_addr (asmarray st q)) \<Longrightarrow>
   asmfree addr sz type st = Some (-1, st)"
  by (auto simp: asmfree_def Let_def)

lemma asmfree_table_aux:
  assumes "asm_rep st es" "sz \<noteq> 0" "unat addr + unat sz < 2 ^ 64"
  shows "\<exists>r st'. asmfree addr sz type st = Some (r, st') \<and>
    (r = -1 \<and> st' = st \<and> ((\<exists>y. unat addr \<le> y \<and> y < unat addr + unat sz \<and> kind_of es y \<noteq> None) \<or> length es = 64) \<or>
     r = 0 \<and> (\<exists>es'. asm_rep st' es' \<and> adds (unat addr) (unat sz) type es es'))"
proof -
  obtain "is" fs where l: "linked st is fs" and es: "es = ents st is" and ok: "entries_ok es"
    using assms(1) by (auto simp: asm_rep_def)
  define P where "P = (\<lambda>i. a_addr (asmarray st i) \<le> addr)"
  define as bs where "as = takeWhile P is" and "bs = dropWhile P is"
  have ab: "is = as @ bs" by (simp add: as_def bs_def)
  have as: "\<And>i. i \<in> set as \<Longrightarrow> a_addr (asmarray st i) \<le> addr" by (auto simp: as_def P_def dest: set_takeWhileD)
  have bs: "\<And>i. i \<in> set bs \<Longrightarrow> addr < a_addr (asmarray st i)"
    using split_addr ok unfolding es bs_def P_def by blast
  have f: "asm_find None (asmlist st) (asmarray st) addr =
      Some (if as = [] then None else Some (last as), case bs of [] \<Rightarrow> None | b # _ \<Rightarrow> Some b)"
    using asm_find_spec [of "asmarray st" "asmlist st" "is" None addr] l
    unfolding as_def bs_def P_def linked_def Let_def by simp
  show ?thesis
  proof (cases "(\<forall>i\<in>set as. e_end (ent (asmarray st i)) \<le> unat addr) \<and> (\<forall>i\<in>set bs. unat addr + unat sz \<le> fst (ent (asmarray st i)))")
    case True
    have nz: "0 < unat sz" using assms(2) unat_eq_zero [of sz] by auto
    have pl: "place st as bs fs addr sz"
      using l ok f assms(2,3) True nz unfolding place_def fits_def es ab by auto
    have len: "length es = length (as @ bs)" using es ab by simp
    have ee: "es = ents st (as @ bs)" using es ab by simp
    show ?thesis
    proof (cases "is_below st as addr type \<or> is_above st bs addr sz type \<or> length es < 64")
      case True
      have "\<exists>st' es'. asmfree addr sz type st = Some (0, st') \<and> asm_rep st' es' \<and> adds (unat addr) (unat sz) type es es'"
      proof (cases "is_below st as addr type")
        case b: True
        then obtain as' p where p: "as = as' @ [p]" by (cases as rule: rev_cases) (auto simp: is_below_def)
        show ?thesis
        proof (cases "is_above st bs addr sz type")
          case a: True
          then obtain j bs' where j: "bs = j # bs'" by (cases bs) (auto simp: is_above_def)
          show ?thesis using asmfree_both [OF pl [unfolded p j]] a b unfolding ee p j by blast
        next
          case False
          then show ?thesis using asmfree_left [OF pl [unfolded p]] b unfolding ee p by blast
        qed
      next
        case b: False
        show ?thesis
        proof (cases "is_above st bs addr sz type")
          case a: True
          then obtain j bs' where j: "bs = j # bs'" by (cases bs) (auto simp: is_above_def)
          show ?thesis using asmfree_right [OF pl [unfolded j]] a b unfolding ee j by blast
        next
          case False
          then show ?thesis using asmfree_new [OF pl b] True b len unfolding ee by simp
        qed
      qed
      then show ?thesis by blast
    next
      case False
      have "length es \<le> 64" using linked_length [OF l] l es by (simp add: linked_def)
      then have "length es = 64" using False by simp
      moreover have "asmnew addr sz type st = (None, st)" by (rule asmnew_none [OF l]) (use calculation es in simp)
      ultimately show ?thesis using False by (simp add: asmfree_place [OF pl])
    qed
  next
    case False
    have nz: "0 < unat sz" using assms(2) unat_eq_zero [of sz] by auto
    have okab: "entries_ok (ents st as)" "entries_ok (ents st bs)" using ok unfolding es ab by (simp_all add: entries_ok_append)
    from False consider (l) i where "i \<in> set as" "unat addr < e_end (ent (asmarray st i))"
      | (r) i where "i \<in> set bs" "fst (ent (asmarray st i)) < unat addr + unat sz" by force
    then show ?thesis
    proof cases
      case l
      obtain as' p where p: "as = as' @ [p]" using l(1) by (cases as rule: rev_cases) auto
      have "i = p"
      proof (rule ccontr)
        assume "i \<noteq> p"
        then have "below (ent (asmarray st i)) (ent (asmarray st p))" using okab(1) l(1) p by (auto simp: entries_ok_append)
        then show False using l(2) as [of p] p by (auto simp: below_def word_le_nat_alt)
      qed
      moreover have "unat (a_addr (asmarray st i) + a_size (asmarray st i)) = e_end (ent (asmarray st i))"
        using e_end_word [OF okab(1) l(1)] by simp
      ultimately have "a_addr (asmarray st p) + a_size (asmarray st p) > addr" using l(2) by (simp add: word_less_nat_alt)
      then have "asmfree addr sz type st = Some (-1, st)"
        using f p by (intro asmfree_overlap [OF f assms(2)]) auto
      moreover have "kind_of es (unat addr) \<noteq> None"
        by (rule kind_of_in [of "ent (asmarray st i)"]) (use es ab l as [of i] in \<open>auto simp: word_le_nat_alt\<close>)
      ultimately show ?thesis using nz by (auto intro!: exI [of _ "unat addr"])
    next
      case r
      obtain q bs' where q: "bs = q # bs'" using r(1) by (cases bs) auto
      have le: "fst (ent (asmarray st q)) \<le> fst (ent (asmarray st i))" using okab(2) r(1) q by (auto simp: below_def)
      have "unat (addr + sz) = unat addr + unat sz" by (rule unat_add_u64 [OF assms(3)])
      then have "addr + sz > a_addr (asmarray st q)" using le r(2) by (simp add: word_less_nat_alt)
      then have "asmfree addr sz type st = Some (-1, st)"
        using f q by (intro asmfree_overlap [OF f assms(2)]) auto
      moreover have "kind_of es (fst (ent (asmarray st q))) \<noteq> None"
        by (rule kind_of_in [of "ent (asmarray st q)"]) (use es ab q okab(2) in auto)
      moreover have "unat addr \<le> fst (ent (asmarray st q))" using bs [of q] q by (simp add: word_less_nat_alt)
      ultimately show ?thesis using le r(2) by (auto intro!: exI [of _ "fst (ent (asmarray st q))"])
    qed
  qed
qed

subsection \<open>Taking a range\<close>

text \<open>A request for \<open>n\<close> bytes, at \<open>x\<close> when that is not 0, can be met from an entry.\<close>

definition has_room :: "nat \<Rightarrow> nat \<Rightarrow> entry \<Rightarrow> bool" where
  "has_room x n e \<longleftrightarrow> (if x = 0 then n \<le> fst (snd e) else fst e \<le> x \<and> x + n \<le> e_end e)"

lemma unat_sub_u64: "b \<le> a \<Longrightarrow> unat (a - b) = unat a - unat b" for a b :: u64
  by (rule unat_sub)

text \<open>The tests of the loop on one entry, which the code writes without overflow.\<close>

lemma room_tests:
  assumes "a_addr e \<le> addr" "unat (a_addr e) + unat (a_size e) < 2 ^ 64"
  shows "a_size e < addr - a_addr e \<longleftrightarrow> unat (a_addr e) + unat (a_size e) < unat addr"
    and "\<not> a_size e < addr - a_addr e \<Longrightarrow>
      (\<not> addr - a_addr e > a_size e - sz \<and> \<not> a_addr e + a_size e - addr < sz) \<longleftrightarrow> unat addr + unat sz \<le> unat (a_addr e) + unat (a_size e)"
proof -
  have le: "unat (a_addr e) \<le> unat addr" using assms(1) by (simp add: word_le_nat_alt)
  show t: "a_size e < addr - a_addr e \<longleftrightarrow> unat (a_addr e) + unat (a_size e) < unat addr"
    using le by (auto simp: word_less_nat_alt unat_sub_u64 [OF assms(1)])
  assume "\<not> a_size e < addr - a_addr e"
  then have x: "unat addr \<le> unat (a_addr e) + unat (a_size e)" using t by simp
  have ue: "unat (a_addr e + a_size e) = unat (a_addr e) + unat (a_size e)" by (rule unat_add_u64 [OF assms(2)])
  then have "addr \<le> a_addr e + a_size e" using x by (simp add: word_le_nat_alt)
  then have u: "unat (a_addr e + a_size e - addr) = unat (a_addr e) + unat (a_size e) - unat addr" using ue by (simp add: unat_sub_u64)
  show "(\<not> addr - a_addr e > a_size e - sz \<and> \<not> a_addr e + a_size e - addr < sz) \<longleftrightarrow> unat addr + unat sz \<le> unat (a_addr e) + unat (a_size e)"
  proof
    assume "\<not> addr - a_addr e > a_size e - sz \<and> \<not> a_addr e + a_size e - addr < sz"
    then show "unat addr + unat sz \<le> unat (a_addr e) + unat (a_size e)" using u x unfolding word_less_nat_alt by linarith
  next
    assume r: "unat addr + unat sz \<le> unat (a_addr e) + unat (a_size e)"
    then have "unat sz \<le> unat (a_size e)" using le by linarith
    then have "unat (a_size e - sz) = unat (a_size e) - unat sz" by (simp add: unat_sub_u64 word_le_nat_alt)
    then show "\<not> addr - a_addr e > a_size e - sz \<and> \<not> a_addr e + a_size e - addr < sz"
      using r le u x by (auto simp: word_less_nat_alt unat_sub_u64 [OF assms(1)])
  qed
qed

definition room_at :: "u64 \<Rightarrow> asm \<Rightarrow> u64" where
  "room_at addr e = (if addr \<noteq> 0 then addr else a_addr e)"

lemma asm_room_step:
  assumes "unat (a_addr (m i)) + unat (a_size (m i)) < 2 ^ 64"
  shows "asm_room pp (Some i) m addr sz type 0 =
    (if a_type (m i) = type \<and> has_room (unat addr) (unat sz) (ent (m i)) then Some (Some (pp, i, room_at addr (m i)))
     else if a_type (m i) = type \<and> addr \<noteq> 0 \<and> (a_addr (m i) > addr \<or> \<not> a_size (m i) < addr - a_addr (m i) \<and> addr - a_addr (m i) > a_size (m i) - sz)
     then Some None
     else asm_room (Some i) (a_next (m i)) m addr sz type 0)"
proof (cases "addr = 0")
  case True
  then show ?thesis by (subst asm_room.simps) (simp add: has_room_def room_at_def word_less_nat_alt Let_def)
next
  case False
  then have x: "unat addr \<noteq> 0" using unat_eq_zero [of addr] by simp
  show ?thesis
  proof (cases "a_addr (m i) \<le> addr")
    case le: True
    have h: "has_room (unat addr) (unat sz) (ent (m i)) \<longleftrightarrow> \<not> a_size (m i) < addr - a_addr (m i) \<and>
      \<not> addr - a_addr (m i) > a_size (m i) - sz \<and> \<not> a_addr (m i) + a_size (m i) - addr < sz"
      using room_tests(1) [OF le assms] room_tests(2) [OF le assms, of sz] le x by (auto simp: has_room_def word_le_nat_alt)
    show ?thesis unfolding h by (subst asm_room.simps) (use False le in \<open>auto simp: room_at_def Let_def not_less\<close>)
  next
    case gt: False
    then have "\<not> has_room (unat addr) (unat sz) (ent (m i))" using x by (simp add: has_room_def word_le_nat_alt)
    then show ?thesis using False gt by (subst asm_room.simps) (simp add: Let_def not_le)
  qed
qed

lemma asm_room_spec:
  "seg (asmarray st) s is None \<Longrightarrow> entries_ok (ents st is) \<Longrightarrow>
   \<exists>res. asm_room pp s (asmarray st) addr sz type 0 = Some res \<and>
    (case res of
       None \<Rightarrow> \<forall>e\<in>set (ents st is). e_type e = type \<longrightarrow> \<not> has_room (unat addr) (unat sz) e
     | Some (qq, i, a) \<Rightarrow> \<exists>as bs. is = as @ i # bs \<and> qq = (if as = [] then pp else Some (last as)) \<and> a_type (asmarray st i) = type \<and>
         has_room (unat addr) (unat sz) (ent (asmarray st i)) \<and> a = room_at addr (asmarray st i))"
proof (induction "is" arbitrary: pp s)
  case Nil
  then show ?case by (simp add: asm_room.simps)
next
  case (Cons i "is")
  let ?e = "asmarray st i"
  have s: "s = Some i" "seg (asmarray st) (a_next ?e) is None" and ok: "entries_ok (ents st is)" "unat (a_addr ?e) + unat (a_size ?e) < 2 ^ 64"
    and bl: "\<forall>d\<in>set (ents st is). below (ent ?e) d" "0 < unat (a_size ?e)"
    using Cons.prems by auto
  note step = asm_room_step [of "asmarray st" i, OF ok(2), of pp addr sz type]
  consider (yes) "a_type ?e = type" "has_room (unat addr) (unat sz) (ent ?e)"
    | (stop) "\<not> (a_type ?e = type \<and> has_room (unat addr) (unat sz) (ent ?e))"
       "a_type ?e = type \<and> addr \<noteq> 0 \<and> (a_addr ?e > addr \<or> \<not> a_size ?e < addr - a_addr ?e \<and> addr - a_addr ?e > a_size ?e - sz)"
    | (go) "\<not> (a_type ?e = type \<and> has_room (unat addr) (unat sz) (ent ?e))"
       "\<not> (a_type ?e = type \<and> addr \<noteq> 0 \<and> (a_addr ?e > addr \<or> \<not> a_size ?e < addr - a_addr ?e \<and> addr - a_addr ?e > a_size ?e - sz))"
    by blast
  then show ?case
  proof cases
    case yes
    then show ?thesis unfolding s(1) step by (auto intro!: exI [of _ "[]"])
  next
    case stop
    have x: "unat addr \<noteq> 0" using stop(2) unat_eq_zero [of addr] by simp
    have "\<not> has_room (unat addr) (unat sz) d" if d: "d \<in> set (ents st is)" "e_type d = type" for d
    proof -
      have b: "below (ent ?e) d" using bl(1) d(1) by blast
      show ?thesis
      proof (cases "a_addr ?e > addr")
        case True
        then show ?thesis using b x by (auto simp: has_room_def below_def word_less_nat_alt)
      next
        case False
        then have le: "a_addr ?e \<le> addr" by simp
        have "\<not> a_size ?e < addr - a_addr ?e" using stop(2) False by blast
        then have "unat addr \<le> unat (a_addr ?e) + unat (a_size ?e)"
          unfolding room_tests(1) [OF le ok(2)] by (simp only: not_less)
        then show ?thesis using b x d(2) stop(2) by (auto simp: has_room_def below_def)
      qed
    qed
    then show ?thesis unfolding s(1) step using stop by auto
  next
    case go
    obtain res where r: "asm_room (Some i) (a_next ?e) (asmarray st) addr sz type 0 = Some res"
      "case res of
         None \<Rightarrow> \<forall>e\<in>set (ents st is). e_type e = type \<longrightarrow> \<not> has_room (unat addr) (unat sz) e
       | Some (qq, k, a) \<Rightarrow> \<exists>as bs. is = as @ k # bs \<and> qq = (if as = [] then Some i else Some (last as)) \<and> a_type (asmarray st k) = type \<and>
           has_room (unat addr) (unat sz) (ent (asmarray st k)) \<and> a = room_at addr (asmarray st k)"
      using Cons.IH [OF s(2) ok(1), of "Some i"] by blast
    have "asm_room pp s (asmarray st) addr sz type 0 = Some res" unfolding s(1) step by (simp only: go r(1) if_False)
    moreover have "case res of
       None \<Rightarrow> \<forall>e\<in>set (ents st (i # is)). e_type e = type \<longrightarrow> \<not> has_room (unat addr) (unat sz) e
     | Some (qq, k, a) \<Rightarrow> \<exists>as bs. i # is = as @ k # bs \<and> qq = (if as = [] then pp else Some (last as)) \<and> a_type (asmarray st k) = type \<and>
         has_room (unat addr) (unat sz) (ent (asmarray st k)) \<and> a = room_at addr (asmarray st k)"
    proof (cases res)
      case None
      then show ?thesis using r(2) go(1) by auto
    next
      case (Some t)
      obtain qq k a where t: "t = (qq, k, a)" by (cases t)
      then obtain as bs where "is = as @ k # bs" "qq = (if as = [] then Some i else Some (last as))" "a_type (asmarray st k) = type"
        "has_room (unat addr) (unat sz) (ent (asmarray st k))" "a = room_at addr (asmarray st k)" using r(2) Some by auto
      then have "\<exists>as bs. i # is = as @ k # bs \<and> qq = (if as = [] then pp else Some (last as)) \<and> a_type (asmarray st k) = type \<and>
        has_room (unat addr) (unat sz) (ent (asmarray st k)) \<and> a = room_at addr (asmarray st k)"
        by (intro exI [of _ "i # as"] exI [of _ bs]) simp
      then show ?thesis by (simp only: Some t option.case prod.case)
    qed
    ultimately show ?thesis by blast
  qed
qed

text \<open>Taking an entry off the map and onto the list of free ones; it works for every entry but the first.\<close>

lemma linked_unlink:
  assumes "linked st (as @ p # i # bs) fs" "a_next f = asmfreelist st" "a_next e = a_next (asmarray st i)"
  shows "linked (put i f (put p e st)\<lparr>asmfreelist := Some i\<rparr>) (as @ p # bs) (i # fs)"
  by (rule linked_merge [OF assms(1,3,2)])

lemma ok_cut: "entries_ok (A @ (b, s, t) # B) \<Longrightarrow> k < s \<Longrightarrow> entries_ok (A @ (b + k, s - k, t) # B)"
  by (auto simp: entries_ok_append below_def)

lemma ok_remove: "entries_ok (A @ e # B) \<Longrightarrow> entries_ok (A @ B)"
  by (auto simp: entries_ok_append)

lemma kind_outside:
  assumes "entries_ok (A @ (b, s, t) # B)" "b \<le> y" "y < b + s"
  shows "kind_of A y = None" "kind_of B y = None"
  using assms by (auto intro!: kind_of_None simp: entries_ok_append below_def)

lemma kind_cut: "entries_ok (A @ (b, s, t) # B) \<Longrightarrow> k < s \<Longrightarrow>
   kind_of (A @ (b + k, s - k, t) # B) = (\<lambda>y. if b \<le> y \<and> y < b + k then None else kind_of (A @ (b, s, t) # B) y)"
  by (rule ext) (auto simp: kind_of_append kind_outside split: option.split)

lemma kind_remove: "entries_ok (A @ (b, s, t) # B) \<Longrightarrow>
   kind_of (A @ B) = (\<lambda>y. if b \<le> y \<and> y < b + s then None else kind_of (A @ (b, s, t) # B) y)"
  by (rule ext) (auto simp: kind_of_append kind_outside split: option.split)

text \<open>The entry that gives the range loses everything up to its end.\<close>

definition cut :: "nat option \<Rightarrow> nat \<Rightarrow> u64 \<Rightarrow> u64 \<Rightarrow> asms \<Rightarrow> asms" where
  "cut pp i a sz st =
     (let orig = a_addr (asmarray st i);
          st = put i (asmarray st i\<lparr>a_addr := a + sz, a_size := a_size (asmarray st i) - (a - orig + sz)\<rparr>) st in
      if a_size (asmarray st i) = 0 then
        let st = (case pp of None \<Rightarrow> st | Some p \<Rightarrow> put p (asmarray st p\<lparr>a_next := a_next (asmarray st i)\<rparr>) st);
            st = put i (asmarray st i\<lparr>a_next := asmfreelist st\<rparr>) st in
        st\<lparr>asmfreelist := Some i\<rparr>
      else st)"

lemma asmalloc_cut: "asmalloc addr sz type align st = do {
     r \<leftarrow> asm_room None (asmlist st) (asmarray st) addr sz type align;
     case r of
       None \<Rightarrow> Some (0, st)
     | Some (pp, i, a) \<Rightarrow>
         if a_addr (asmarray st i) \<noteq> a then do {
           (_, st) \<leftarrow> asmfree (a_addr (asmarray st i)) (a - a_addr (asmarray st i)) type (cut pp i a sz st);
           Some (a, st)
         }
         else Some (a, cut pp i a sz st)
   }"
  unfolding asmalloc_def cut_def Let_def ..

lemma cut_rep:
  assumes l: "linked st (as @ i # bs) fs" and ok: "entries_ok (ents st (as @ i # bs))"
    and e: "ent (asmarray st i) = (b, s, t)" and a: "unat a = b + d" "d + unat sz \<le> s"
    and h: "as = [] \<Longrightarrow> d + unat sz < s"
  defines "st' \<equiv> cut (if as = [] then None else Some (last as)) i a sz st"
  shows "\<exists>es'. asm_rep st' es' \<and> length es' \<le> length as + Suc (length bs) \<and> (d + unat sz = s \<longrightarrow> length es' = length as + length bs) \<and>
    kind_of es' = (\<lambda>y. if b \<le> y \<and> y < b + d + unat sz then None else kind_of (ents st (as @ i # bs)) y)"
proof -
  let ?e = "asmarray st i"
  have u: "b = unat (a_addr ?e)" "s = unat (a_size ?e)" "t = a_type ?e" using e by (auto simp: ent_def)
  have bs: "b + s < 2 ^ 64" using ok_bound [OF ok, of "(b, s, t)"] e by simp
  have "a_addr ?e \<le> a" using a(1) u by (simp add: word_le_nat_alt)
  then have "unat (a - a_addr ?e) = d" using a(1) u by (simp add: unat_sub_u64)
  then have k: "unat (a - a_addr ?e + sz) = d + unat sz" using a(2) bs by (subst unat_add_u64) simp_all
  then have s': "unat (a_size ?e - (a - a_addr ?e + sz)) = s - (d + unat sz)"
    using a(2) u by (subst unat_sub_u64) (simp_all add: word_le_nat_alt)
  have a': "unat (a + sz) = b + (d + unat sz)" using a bs by (subst unat_add_u64) simp_all
  have dist: "i \<notin> set as" "i \<notin> set bs" using l by (auto simp: linked_def)
  have es: "ents st (as @ i # bs) = ents st as @ (b, s, t) # ents st bs" using e by simp
  show ?thesis
  proof (cases "d + unat sz = s")
    case False
    then have lt: "d + unat sz < s" using a(2) by simp
    then have nz: "a_size ?e - (a - a_addr ?e + sz) \<noteq> 0" using s' by (metis diff_is_0_eq not_le unat_0)
    have st': "st' = put i (?e\<lparr>a_addr := a + sz, a_size := a_size ?e - (a - a_addr ?e + sz)\<rparr>) st"
      using nz by (simp add: st'_def cut_def Let_def)
    have new: "ents st' (as @ i # bs) = ents st as @ (b + (d + unat sz), s - (d + unat sz), t) # ents st bs"
      using dist s' a' u by (auto simp: st' ent_def)
    have lk: "linked st' (as @ i # bs) fs" using l by (subst linked_cong [of _ st]) (auto simp: st')
    have "asm_rep st' (ents st' (as @ i # bs))"
      by (rule asm_repI [OF lk]) (simp_all only: new ok_cut [OF ok [unfolded es] lt])
    moreover have "kind_of (ents st' (as @ i # bs)) = (\<lambda>y. if b \<le> y \<and> y < b + d + unat sz then None else kind_of (ents st (as @ i # bs)) y)"
      unfolding new es using kind_cut [OF ok [unfolded es] lt] by (simp add: add.assoc)
    ultimately show ?thesis using False by (intro exI [of _ "ents st' (as @ i # bs)"]) simp
  next
    case True
    then obtain as' p where p: "as = as' @ [p]" using h by (cases as rule: rev_cases) auto
    have pi: "p \<noteq> i" "p \<notin> set as'" "p \<notin> set bs" using l p by (auto simp: linked_def)
    have "a_size ?e - (a - a_addr ?e + sz) = 0" using s' True by (simp add: unat_eq_zero)
    then have st': "st' = put i (?e\<lparr>a_addr := a + sz, a_size := 0, a_next := asmfreelist st\<rparr>)
        (put p (asmarray st p\<lparr>a_next := a_next ?e\<rparr>) st)\<lparr>asmfreelist := Some i\<rparr>"
      using pi p by (simp add: st'_def cut_def Let_def fun_upd_twist)
    have new: "ents st' (as @ bs) = ents st as @ ents st bs"
      using dist pi by (auto simp: st' ent_def p)
    have "linked st' (as' @ p # bs) (i # fs)"
      unfolding st' by (rule linked_unlink) (use l p in simp_all)
    then have lk: "linked st' (as @ bs) (i # fs)" using p by simp
    have "asm_rep st' (ents st' (as @ bs))"
      by (rule asm_repI [OF lk]) (simp_all only: new ok_remove [OF ok [unfolded es]])
    moreover have "kind_of (ents st' (as @ bs)) = (\<lambda>y. if b \<le> y \<and> y < b + d + unat sz then None else kind_of (ents st (as @ i # bs)) y)"
      unfolding new es using kind_remove [OF ok [unfolded es]] True by (simp add: add.assoc)
    ultimately show ?thesis using True by (intro exI [of _ "ents st' (as @ bs)"]) simp
  qed
qed

definition takes :: "nat \<Rightarrow> nat \<Rightarrow> entry list \<Rightarrow> entry list \<Rightarrow> bool" where
  "takes x n es es' \<longleftrightarrow> length es' \<le> Suc (length es) \<and> kind_of es' = (\<lambda>y. if x \<le> y \<and> y < x + n then None else kind_of es y)"

text \<open>The first entry of the map would lose its end.\<close>

definition head_end :: "nat \<Rightarrow> nat \<Rightarrow> int \<Rightarrow> entry list \<Rightarrow> bool" where
  "head_end x n t es \<longleftrightarrow> es \<noteq> [] \<and> e_type (hd es) = t \<and> (if x = 0 then n = fst (snd (hd es)) else x + n = e_end (hd es))"

lemma kind_of_entry: "entries_ok (A @ (b, s, t) # B) \<Longrightarrow> b \<le> y \<Longrightarrow> y < b + s \<Longrightarrow> kind_of (A @ (b, s, t) # B) y = Some t"
  by (simp add: kind_of_append kind_outside)

lemma asmalloc_table_aux:
  assumes "asm_rep st es" "sz \<noteq> 0" "length es < 64" "\<not> head_end (unat addr) (unat sz) type es"
  shows "\<exists>r st'. asmalloc addr sz type 0 st = Some (r, st') \<and>
    (r = 0 \<and> st' = st \<and> (\<forall>e\<in>set es. e_type e = type \<longrightarrow> \<not> has_room (unat addr) (unat sz) e) \<or>
     (\<exists>e\<in>set es. e_type e = type \<and> has_room (unat addr) (unat sz) e \<and> unat r = (if addr = 0 then fst e else unat addr)) \<and>
     (\<exists>es'. asm_rep st' es' \<and> takes (unat r) (unat sz) es es'))"
proof -
  obtain "is" fs where l: "linked st is fs" and es: "es = ents st is" and ok: "entries_ok es"
    using assms(1) by (auto simp: asm_rep_def)
  have sg: "seg (asmarray st) (asmlist st) is None" using l by (simp add: linked_def)
  obtain res where res: "asm_room None (asmlist st) (asmarray st) addr sz type 0 = Some res"
    "case res of
       None \<Rightarrow> \<forall>e\<in>set (ents st is). e_type e = type \<longrightarrow> \<not> has_room (unat addr) (unat sz) e
     | Some (qq, i, a) \<Rightarrow> \<exists>as bs. is = as @ i # bs \<and> qq = (if as = [] then None else Some (last as)) \<and> a_type (asmarray st i) = type \<and>
         has_room (unat addr) (unat sz) (ent (asmarray st i)) \<and> a = room_at addr (asmarray st i)"
    using asm_room_spec [OF sg ok [unfolded es]] by blast
  show ?thesis
  proof (cases res)
    case None
    then show ?thesis using res es by (simp add: asmalloc_cut)
  next
    case (Some t)
    obtain qq i a where t: "t = (qq, i, a)" by (cases t)
    obtain as bs where i: "is = as @ i # bs" "qq = (if as = [] then None else Some (last as))" "a_type (asmarray st i) = type"
      "has_room (unat addr) (unat sz) (ent (asmarray st i))" "a = room_at addr (asmarray st i)"
      using res(2) Some t by auto
    define b s where "b = unat (a_addr (asmarray st i))" and "s = unat (a_size (asmarray st i))"
    define d where "d = unat a - b"
    have e: "ent (asmarray st i) = (b, s, type)" using i(3) by (simp add: ent_def b_def s_def)
    have ua: "unat a = (if addr = 0 then b else unat addr)" using i(5) by (simp add: room_at_def b_def)
    have z: "addr = 0 \<longleftrightarrow> unat addr = 0" by (simp add: unat_eq_zero)
    have ad: "unat a = b + d" "d + unat sz \<le> s" using i(4) ua z e unfolding d_def by (auto simp: has_room_def split: if_splits)
    have h: "d + unat sz < s" if "as = []"
    proof -
      have "hd es = (b, s, type)" "es \<noteq> []" using that es i(1) e by simp_all
      then have "d + unat sz \<noteq> s" using assms(4) ua ad z by (auto simp: head_end_def split: if_splits)
      then show ?thesis using ad(2) by simp
    qed
    define st1 where "st1 = cut qq i a sz st"
    have ok': "entries_ok (ents st (as @ i # bs))" using ok es i(1) by simp
    obtain es1 where r1: "asm_rep st1 es1" and len: "length es1 \<le> length as + Suc (length bs)" "d + unat sz = s \<longrightarrow> length es1 = length as + length bs"
      and k1: "kind_of es1 = (\<lambda>y. if b \<le> y \<and> y < b + d + unat sz then None else kind_of (ents st (as @ i # bs)) y)"
      using cut_rep [OF l [unfolded i(1)] ok' e ad h] unfolding st1_def i(2) by blast
    have len': "length es = length as + Suc (length bs)" using es i(1) by simp
    have k: "kind_of es y = Some type" if "b \<le> y" "y < b + s" for y
      using kind_of_entry [of "ents st as" b s type "ents st bs" y] ok' that e unfolding es i(1) by simp
    have got: "\<exists>e\<in>set es. e_type e = type \<and> has_room (unat addr) (unat sz) e \<and> unat a = (if addr = 0 then fst e else unat addr)"
      using i(1,4) e ua unfolding es by (intro bexI [of _ "ent (asmarray st i)"]) auto
    show ?thesis
    proof (cases "a_addr (asmarray st i) = a")
      case True
      then have "d = 0" by (simp add: d_def b_def)
      then have "takes (unat a) (unat sz) es es1" using k1 len len' ad(1) unfolding takes_def es i(1) by auto
      moreover have "asmalloc addr sz type 0 st = Some (a, st1)"
        using True by (simp add: asmalloc_cut res(1) Some t st1_def)
      ultimately show ?thesis using got r1 by blast
    next
      case False
      have le: "a_addr (asmarray st i) \<le> a" using ad(1) by (simp add: b_def word_le_nat_alt)
      then have ud: "unat (a - a_addr (asmarray st i)) = d" by (simp add: unat_sub_u64 d_def b_def)
      have nz: "a - a_addr (asmarray st i) \<noteq> 0" using False by simp
      have nw: "unat (a_addr (asmarray st i)) + unat (a - a_addr (asmarray st i)) < 2 ^ 64"
      proof -
        have "unat a < 2 ^ LENGTH(64)" by (rule unsigned_less)
        then show ?thesis using ad(1) ud by (simp add: b_def)
      qed
      obtain r st2 where f: "asmfree (a_addr (asmarray st i)) (a - a_addr (asmarray st i)) type st1 = Some (r, st2)"
        "r = -1 \<and> st2 = st1 \<and> ((\<exists>y. b \<le> y \<and> y < b + d \<and> kind_of es1 y \<noteq> None) \<or> length es1 = 64) \<or>
         r = 0 \<and> (\<exists>es'. asm_rep st2 es' \<and> adds b d type es1 es')"
        using asmfree_table_aux [OF r1 nz nw, of type] unfolding ud b_def [symmetric] by blast
      have "\<not> (\<exists>y. b \<le> y \<and> y < b + d \<and> kind_of es1 y \<noteq> None)" using k1 by auto
      moreover have "length es1 \<noteq> 64" using len(1) len' assms(3) by simp
      ultimately obtain es2 where r2: "asm_rep st2 es2" "adds b d type es1 es2" using f(2) by blast
      have "kind_of es2 = (\<lambda>y. if unat a \<le> y \<and> y < unat a + unat sz then None else kind_of es y)"
      proof (rule ext)
        fix y
        have "kind_of es2 y = (if b \<le> y \<and> y < b + d then Some type else kind_of es1 y)" using r2(2) by (simp add: adds_def)
        then show "kind_of es2 y = (if unat a \<le> y \<and> y < unat a + unat sz then None else kind_of es y)"
          using k [of y] ad unfolding k1 es i(1) by auto
      qed
      moreover have "length es2 \<le> Suc (length es)" using r2(2) len(1) len' by (simp add: adds_def)
      ultimately have "takes (unat a) (unat sz) es es2" by (simp add: takes_def)
      moreover have "asmalloc addr sz type 0 st = Some (a, st2)"
        using False f(1) by (simp add: asmalloc_cut res(1) Some t st1_def)
      ultimately show ?thesis using got r2(1) by blast
    qed
  qed
qed

text \<open>Adjacent entries of one type would be one entry, so a range of one type is in one entry.\<close>

lemma one_entry:
  assumes "entries_ok es" "0 < n" "x \<noteq> 0"
  shows "(\<exists>e\<in>set es. e_type e = t \<and> has_room x n e) \<longleftrightarrow> (\<forall>y. x \<le> y \<and> y < x + n \<longrightarrow> kind_of es y = Some t)"
proof
  assume "\<exists>e\<in>set es. e_type e = t \<and> has_room x n e"
  then obtain b s A B where e: "es = A @ (b, s, t) # B" "b \<le> x" "x + n \<le> b + s"
    using assms(3) by (fastforce simp: has_room_def dest: split_list)
  then show "\<forall>y. x \<le> y \<and> y < x + n \<longrightarrow> kind_of es y = Some t" using kind_of_entry [of A b s t B] assms(1) by auto
next
  assume k: "\<forall>y. x \<le> y \<and> y < x + n \<longrightarrow> kind_of es y = Some t"
  then have "kind_of es x = Some t" using assms(2) by simp
  then obtain e where e: "e \<in> set es" "fst e \<le> x" "x < e_end e" "e_type e = t" using kind_of_Some by blast
  have "x + n \<le> e_end e"
  proof (rule ccontr)
    assume "\<not> x + n \<le> e_end e"
    then have "kind_of es (e_end e) = Some t" using k e(3) by simp
    then obtain f where f: "f \<in> set es" "fst f \<le> e_end e" "e_end e < e_end f" "e_type f = t" using kind_of_Some by blast
    have "f \<noteq> e" using f(3) by auto
    then have "below e f \<or> below f e"
      using assms(1) e(1) f(1) unfolding entries_ok_def by (metis in_set_conv_nth linorder_neqE_nat sorted_wrt_iff_nth_less)
    then show False using e f by (auto simp: below_def)
  qed
  then show "\<exists>e\<in>set es. e_type e = t \<and> has_room x n e" using e assms(3) by (auto simp: has_room_def)
qed

lemma asminsert_table_aux:
  assumes "asm_rep st es" "sz \<noteq> 0" "addr \<noteq> 0" "unat addr + unat sz < 2 ^ 64" "length es \<le> 62" "type \<noteq> AsmNONE"
    "\<not> head_end (unat addr) (unat sz) AsmNONE es"
  shows "\<exists>st' es'. asminsert addr sz type st = Some st' \<and> asm_rep st' es' \<and> length es' \<le> length es + 2 \<and>
    kind_of es' = (\<lambda>y. if (\<forall>z. unat addr \<le> z \<and> z < unat addr + unat sz \<longrightarrow> kind_of es z = Some AsmNONE) \<and>
      unat addr \<le> y \<and> y < unat addr + unat sz then Some type else kind_of es y)"
proof -
  have x: "unat addr \<noteq> 0" using assms(3) by (simp add: unat_eq_zero)
  have n: "0 < unat sz" using assms(2) unat_eq_zero [of sz] by auto
  have ok: "entries_ok es" using assms(1) by (auto simp: asm_rep_def)
  have "length es < 64" using assms(5) by simp
  then obtain r st1 where r: "asmalloc addr sz AsmNONE 0 st = Some (r, st1)"
    "r = 0 \<and> st1 = st \<and> (\<forall>e\<in>set es. e_type e = AsmNONE \<longrightarrow> \<not> has_room (unat addr) (unat sz) e) \<or>
     (\<exists>e\<in>set es. e_type e = AsmNONE \<and> has_room (unat addr) (unat sz) e \<and> unat r = (if addr = 0 then fst e else unat addr)) \<and>
     (\<exists>es'. asm_rep st1 es' \<and> takes (unat r) (unat sz) es es')"
    using asmalloc_table_aux [OF assms(1,2) _ assms(7)] by blast
  show ?thesis
  proof (cases "r = 0")
    case True
    then have "unat r \<noteq> unat addr" using x by simp
    then have no: "st1 = st" "\<not> (\<exists>e\<in>set es. e_type e = AsmNONE \<and> has_room (unat addr) (unat sz) e)" using r(2) assms(3) by auto
    then have nn: "\<not> (\<forall>y. unat addr \<le> y \<and> y < unat addr + unat sz \<longrightarrow> kind_of es y = Some AsmNONE)"
      using one_entry [OF ok n x, of AsmNONE] by blast
    have "asminsert addr sz type st = Some st" using assms(6) r(1) True no(1) by (simp add: asminsert_def)
    moreover have "kind_of es = (\<lambda>y. if (\<forall>z. unat addr \<le> z \<and> z < unat addr + unat sz \<longrightarrow> kind_of es z = Some AsmNONE) \<and>
      unat addr \<le> y \<and> y < unat addr + unat sz then Some type else kind_of es y)"
      by (simp only: nn simp_thms if_False)
    ultimately show ?thesis using assms(1) by (intro exI [of _ st] exI [of _ es]) (simp only: simp_thms)
  next
    case False
    then have r': "\<exists>e\<in>set es. e_type e = AsmNONE \<and> has_room (unat addr) (unat sz) e \<and> unat r = (if addr = 0 then fst e else unat addr)"
      "\<exists>es'. asm_rep st1 es' \<and> takes (unat r) (unat sz) es es'" using r(2) by blast+
    have got: "\<exists>e\<in>set es. e_type e = AsmNONE \<and> has_room (unat addr) (unat sz) e" "unat r = unat addr" using r'(1) assms(3) by auto
    obtain es1 where got': "asm_rep st1 es1" "takes (unat addr) (unat sz) es es1" using r'(2) got(2) by auto
    have all: "\<forall>y. unat addr \<le> y \<and> y < unat addr + unat sz \<longrightarrow> kind_of es y = Some AsmNONE"
      using got(1) one_entry [OF ok n x] by simp
    have k1: "kind_of es1 = (\<lambda>y. if unat addr \<le> y \<and> y < unat addr + unat sz then None else kind_of es y)" "length es1 \<le> Suc (length es)"
      using got'(2) by (simp_all add: takes_def)
    obtain q st2 where f: "asmfree addr sz type st1 = Some (q, st2)"
      "q = -1 \<and> st2 = st1 \<and> ((\<exists>y. unat addr \<le> y \<and> y < unat addr + unat sz \<and> kind_of es1 y \<noteq> None) \<or> length es1 = 64) \<or>
       q = 0 \<and> (\<exists>es'. asm_rep st2 es' \<and> adds (unat addr) (unat sz) type es1 es')"
      using asmfree_table_aux [OF got'(1) assms(2,4), of type] by blast
    have "\<not> (\<exists>y. unat addr \<le> y \<and> y < unat addr + unat sz \<and> kind_of es1 y \<noteq> None)" using k1(1) by auto
    then obtain es2 where q: "q = 0" "asm_rep st2 es2" "adds (unat addr) (unat sz) type es1 es2" using f(2) k1(2) assms(5) by auto
    have "asminsert addr sz type st = Some st2" using assms(6) r(1) False f(1) q(1) by (simp add: asminsert_def)
    moreover have "kind_of es2 = (\<lambda>y. if (\<forall>z. unat addr \<le> z \<and> z < unat addr + unat sz \<longrightarrow> kind_of es z = Some AsmNONE) \<and>
      unat addr \<le> y \<and> y < unat addr + unat sz then Some type else kind_of es y)"
      using q(3) k1(1) all by (auto simp: adds_def)
    moreover have "length es2 \<le> length es + 2" using q(3) k1(2) by (simp add: adds_def)
    ultimately show ?thesis using q(2) by blast
  qed
qed

text \<open>
  When the end of the first entry is taken, the entry is used up but stays first on the map, and the next new entry is
  the same one: it is linked to itself.
\<close>

lemma asm_find_circle: "asm_find pp np m addr = r \<Longrightarrow> np = Some i \<Longrightarrow> a_next (m i) = Some i \<Longrightarrow> a_addr (m i) \<le> addr \<Longrightarrow> r = None"
proof (rule ccontr)
  assume "asm_find pp np m addr = r" "np = Some i" "a_next (m i) = Some i" "a_addr (m i) \<le> addr" "r \<noteq> None"
  then obtain x where "asm_find pp np m addr = Some x" by blast
  then have "np = Some i \<longrightarrow> a_next (m i) = Some i \<longrightarrow> \<not> a_addr (m i) \<le> addr"
    by (rule asm_find.raw_induct [where P = "\<lambda>pp np m addr r. np = Some i \<longrightarrow> a_next (m i) = Some i \<longrightarrow> \<not> a_addr (m i) \<le> addr", rotated])
      (auto split: option.splits if_splits)
  then show False using \<open>np = Some i\<close> \<open>a_next (m i) = Some i\<close> \<open>a_addr (m i) \<le> addr\<close> by blast
qed

lemma asm_room_circle:
  assumes "asm = Some i" "a_next (m i) = Some i" "a_type (m i) \<noteq> type"
  shows "asm_room pp asm m addr sz type align = None"
proof (rule ccontr)
  assume "asm_room pp asm m addr sz type align \<noteq> None"
  then obtain x where "asm_room pp asm m addr sz type align = Some x" by blast
  then have "asm = Some i \<longrightarrow> a_next (m i) = Some i \<longrightarrow> a_type (m i) = type"
    by (rule asm_room.raw_induct [where P = "\<lambda>pp asm m addr sz type align r. asm = Some i \<longrightarrow> a_next (m i) = Some i \<longrightarrow> a_type (m i) = type", rotated])
      (auto split: option.splits if_splits)
  then show False using assms by blast
qed

lemma asminsert_head_end:
  assumes "asm_rep st es" "sz \<noteq> 0" "addr \<noteq> 0" "type \<noteq> AsmNONE"
    and "head_end (unat addr) (unat sz) AsmNONE es" "fst (hd es) \<le> unat addr"
  shows "if fst (hd es) = unat addr
    then \<exists>st' i. asminsert addr sz type st = Some st' \<and> asmlist st' = Some i \<and> a_next (asmarray st' i) = Some i
    else asminsert addr sz type st = None"
proof -
  obtain "is" fs where l: "linked st is fs" "es = ents st is" "entries_ok es" using assms(1) by (auto simp: asm_rep_def)
  have x: "unat addr \<noteq> 0" using assms(3) by (simp add: unat_eq_zero)
  have n: "0 < unat sz" using assms(2) unat_eq_zero [of sz] by auto
  obtain i js where i: "is = i # js" using assms(5) l(2) by (cases "is") (auto simp: head_end_def)
  let ?e = "asmarray st i"
  have lst: "asmlist st = Some i" using l(1) i by (simp add: linked_def)
  have hd: "hd es = ent ?e" using l(2) i by simp
  have t: "a_type ?e = AsmNONE" and ends: "unat addr + unat sz = unat (a_addr ?e) + unat (a_size ?e)"
    using assms(5) x by (simp_all add: head_end_def hd)
  have b: "unat (a_addr ?e) \<le> unat addr" using assms(6) hd by simp
  have nw: "unat (a_addr ?e) + unat (a_size ?e) < 2 ^ 64" using ok_bound [OF l(3), of "ent ?e"] l(2) i by simp
  have room: "asm_room None (asmlist st) (asmarray st) addr sz AsmNONE 0 = Some (Some (None, i, addr))"
    unfolding lst using t ends b x assms(3) by (subst asm_room_step [where i = i and m = "asmarray st", OF nw]) (simp add: has_room_def room_at_def)
  have add: "unat (addr + sz) = unat addr + unat sz" using ends nw by (intro unat_add_u64) simp
  have "addr - a_addr ?e + sz = a_size ?e"
    using ends b nw by (simp add: u64_eq_iff unat_add_u64 unat_sub_u64 word_le_nat_alt)
  then have c: "cut None i addr sz st = put i (?e\<lparr>a_addr := addr + sz, a_size := 0, a_next := asmfreelist st\<rparr>) st\<lparr>asmfreelist := Some i\<rparr>"
    by (simp add: cut_def Let_def)
  show ?thesis
  proof (cases "a_addr ?e = addr")
    case True
    have "asmalloc addr sz AsmNONE 0 st = Some (addr, put i (?e\<lparr>a_addr := addr + sz, a_size := 0, a_next := asmfreelist st\<rparr>) st\<lparr>asmfreelist := Some i\<rparr>)"
      unfolding asmalloc_cut room using True c by simp
    moreover have "addr < addr + sz" using add n by (simp add: word_less_nat_alt)
    ultimately show ?thesis using True hd lst t assms(2-4)
      by (auto simp: asminsert_def asmfree_def asm_find.simps asmnew_def link_def Let_def)
  next
    case False
    have ne: "unat (a_addr ?e) < unat addr" using False b u64_eq_iff by force
    have d: "addr - a_addr ?e \<noteq> 0" using False by simp
    have lt: "a_addr ?e < addr + sz" "a_addr ?e + (addr - a_addr ?e) = addr" "\<not> addr + sz < addr" "addr \<noteq> addr + sz"
      using ne add n assms(2) by (simp_all add: word_less_nat_alt)
    let ?st = "put i (?e\<lparr>a_size := addr - a_addr ?e, a_type := AsmNONE, a_next := Some i\<rparr>) st\<lparr>asmlist := Some i\<rparr>"
    have "asmalloc addr sz AsmNONE 0 st = Some (addr, ?st)"
      unfolding asmalloc_cut room using False c d lt t lst
      by (auto simp: asmfree_def asm_find.simps asmnew_def link_def Let_def)
    moreover have "asm_find None (Some i) (asmarray ?st) addr = None"
      using b by (intro asm_find_circle [OF refl refl]) (simp_all add: word_le_nat_alt)
    ultimately have "asminsert addr sz type st = None" using assms(2-4) lst by (simp add: asminsert_def asmfree_def)
    then show ?thesis using ne hd by simp
  qed
qed

lemma asminsert_table:
  assumes "asm_rep st es" "sz \<noteq> 0" "addr \<noteq> 0" "unat addr + unat sz < 2 ^ 64" "length es \<le> 62" "type \<noteq> AsmNONE"
    "\<not> (head_end (unat addr) (unat sz) AsmNONE es \<and> fst (hd es) \<le> unat addr)"
  shows "\<exists>st' es'. asminsert addr sz type st = Some st' \<and> asm_rep st' es' \<and>
    kind_of es' = (\<lambda>y. if (\<forall>z. unat addr \<le> z \<and> z < unat addr + unat sz \<longrightarrow> kind_of es z = Some AsmNONE) \<and>
      unat addr \<le> y \<and> y < unat addr + unat sz then Some type else kind_of es y)"
proof (cases "head_end (unat addr) (unat sz) AsmNONE es")
  case False
  show ?thesis using asminsert_table_aux [OF assms(1-6) False] by blast
next
  case True
  then have lt: "unat addr < fst (hd es)" using assms(7) by simp
  obtain "is" fs where l: "linked st is fs" "es = ents st is" "entries_ok es" using assms(1) by (auto simp: asm_rep_def)
  obtain i js where i: "is = i # js" using True l(2) by (cases "is") (auto simp: head_end_def)
  have hd: "hd es = ent (asmarray st i)" using l(2) i by simp
  have nw: "unat (a_addr (asmarray st i)) + unat (a_size (asmarray st i)) < 2 ^ 64"
    using ok_bound [OF l(3), of "ent (asmarray st i)"] l(2) i by simp
  have x: "unat addr \<noteq> 0" using assms(3) by (simp add: unat_eq_zero)
  have "asm_room None (asmlist st) (asmarray st) addr sz AsmNONE 0 = Some None"
    using True l(1) i lt hd x assms(3)
    by (simp add: asm_room_step [where i = i and m = "asmarray st", OF nw] linked_def head_end_def has_room_def word_less_nat_alt)
  then have "asminsert addr sz type st = Some st" using assms(6) by (simp add: asminsert_def asmalloc_def)
  moreover have "kind_of es (unat addr) = None"
    using l(3) lt by (intro kind_of_None) (cases es, auto simp: below_def entries_ok_def)
  moreover have "0 < unat sz" using assms(2) unat_eq_zero [of sz] by auto
  ultimately have "\<not> (\<forall>z. unat addr \<le> z \<and> z < unat addr + unat sz \<longrightarrow> kind_of es z = Some AsmNONE)" by auto
  then show ?thesis using \<open>asminsert addr sz type st = Some st\<close> assms(1) by (intro exI [of _ st] exI [of _ es]) (simp only: simp_thms if_False)
qed

text \<open>What \<open>asmmapinit\<close> inserts, when it inserts anything.\<close>

lemma asmmapinit_inserts:
  assumes "a = (if type = AsmMEMORY then max addr (pmstart sys) else addr)" "a < addr + sz" "\<not> (type = AsmMEMORY \<and> addr < 1024 * 1024)"
  shows "\<exists>sys'. pmstart sys' = pmstart sys \<and>
    asmmapinit addr sz type (sys, st) = asminsert a (addr + sz - a) type st \<bind> (\<lambda>st'. Some (sys', st'))"
proof (cases "type = AsmMEMORY")
  case mem: True
  then have skip: "\<not> (addr < 1024 * 1024 \<or> addr + sz < pmstart sys)" using assms by auto
  have "(if addr < pmstart sys then (pmstart sys, sz - (pmstart sys - addr)) else (addr, sz)) = (a, addr + sz - a)"
    using assms(1) mem by (auto simp: max_def)
  then show ?thesis using mem unfolding asmmapinit_def prod.case if_P [OF mem] if_not_P [OF skip]
    by (intro exI [of _ "if a + (addr + sz - a) > pmend (sys\<lparr>pmoccupied := pmoccupied sys + (addr + sz - a)\<rparr>)
      then sys\<lparr>pmoccupied := pmoccupied sys + (addr + sz - a), pmend := a + (addr + sz - a)\<rparr>
      else sys\<lparr>pmoccupied := pmoccupied sys + (addr + sz - a)\<rparr>"]) (simp add: Let_def)
next
  case False
  then have "a = addr" using assms(1) by simp
  then show ?thesis using False by (intro exI [of _ sys]) (simp add: asmmapinit_def)
qed

subsection \<open>Properties\<close>

text \<open>
  C4. Giving a range back. \<open>asmfree\<close> always returns, and on a map in order it either adds
  the range with its type and changes nothing else, joining it with the entries it touches, or refuses and leaves the map
  alone, and then part of the range was on the map or all 64 entries are in use.
\<close>

theorem asmfree_table:
  assumes "asm_rep st es" "sz \<noteq> 0" "unat addr + unat sz < 2 ^ 64"
  shows "\<exists>r st'. asmfree addr sz type st = Some (r, st') \<and>
    (r = -1 \<and> st' = st \<and> ((\<exists>y. unat addr \<le> y \<and> y < unat addr + unat sz \<and> kind_of es y \<noteq> None) \<or> length es = 64) \<or>
     r = 0 \<and> (\<forall>y. unat addr \<le> y \<and> y < unat addr + unat sz \<longrightarrow> kind_of es y = None) \<and>
       (\<exists>es'. asm_rep st' es' \<and> kind_of es' = (\<lambda>y. if unat addr \<le> y \<and> y < unat addr + unat sz then Some type else kind_of es y)))"
  using asmfree_table_aux [OF assms, of type] unfolding adds_def by blast

lemma asms0_rep: "asm_rep asms0 [(0, 2 ^ 64 - 1, AsmNONE)]"
proof -
  have "unat (- 1 :: u64) = 2 ^ 64 - 1" by (simp add: unsigned_minus_1_eq_mask mask_eq_exp_minus_1)
  then show ?thesis
    unfolding asm_rep_def linked_def by (intro exI [of _ "[0]"] exI [of _ "[]"]) (auto simp: asms0_def ent_def)
qed

lemma asmalloc_0_0x1000: "\<exists>st es. asmalloc 0 0x1000 AsmNONE 0 asms0 = Some (0, st) \<and> asm_rep st es \<and> kind_of es 5 = None \<and>
    kind_of es 0x1000 = Some AsmNONE"
proof -
  define st where "st = put 0 \<lparr>a_addr = 0x1000, a_size = - 0x1001, a_type = AsmNONE, a_next = None\<rparr> asms0"
  have "asmalloc 0 0x1000 AsmNONE 0 asms0 = Some (0, st)"
    by (simp add: asmalloc_def asm_room.simps asms0_def st_def AsmNONE_def)
  moreover have "asm_rep st [(0x1000, 2 ^ 64 - 0x1001, AsmNONE)]"
    unfolding asm_rep_def linked_def
    by (rule exI [of _ "[0]"], rule exI [of _ "[]"]) (auto simp: st_def asms0_def ent_def)
  ultimately show ?thesis by (intro exI [of _ st] exI [of _ "[(0x1000, 2 ^ 64 - 0x1001, AsmNONE)]"]) simp
qed

theorem asmfree_table_witness:
  "\<exists>st r st'. asmalloc 0 0x1000 AsmNONE 0 asms0 = Some (0, st) \<and> asmfree 0 0x1000 7 st = Some (r, st')"
proof -
  obtain st es where "asmalloc 0 0x1000 AsmNONE 0 asms0 = Some (0, st)" "asm_rep st es" using asmalloc_0_0x1000 by blast
  moreover have "unat (0 :: u64) + unat (0x1000 :: u64) < 2 ^ 64" by simp
  ultimately show ?thesis using asmfree_table [of st es "0x1000" 0 7] by fastforce
qed

text \<open>
  Taking a range, without an alignment as everywhere in the kernel. \<open>asmalloc\<close> always returns. As long as the range is not the end of
  the first entry and an entry is free for the rest of a split, it gives \<open>addr\<close>, or the start of the first entry with room when
  that is 0, the whole range had the type that was asked for, and just it is off the map afterwards. It refuses only
  when no range of the type will do, though it stops looking early.
\<close>

theorem asmalloc_table:
  assumes "asm_rep st es" "sz \<noteq> 0" "length es < 64" "\<not> head_end (unat addr) (unat sz) type es"
  shows "\<exists>r st'. asmalloc addr sz type 0 st = Some (r, st') \<and>
    (r = 0 \<and> st' = st \<and> (\<forall>x. 0 < x \<longrightarrow> addr = 0 \<or> x = unat addr \<longrightarrow>
        (\<exists>y. x \<le> y \<and> y < x + unat sz \<and> kind_of es y \<noteq> Some type)) \<or>
     (addr \<noteq> 0 \<longrightarrow> r = addr) \<and> (\<forall>y. unat r \<le> y \<and> y < unat r + unat sz \<longrightarrow> kind_of es y = Some type) \<and>
     (\<exists>es'. asm_rep st' es' \<and> kind_of es' = (\<lambda>y. if unat r \<le> y \<and> y < unat r + unat sz then None else kind_of es y)))"
proof -
  have ok: "entries_ok es" using assms(1) by (auto simp: asm_rep_def)
  have n: "0 < unat sz" using assms(2) unat_eq_zero [of sz] by auto
  have z: "addr = 0 \<longleftrightarrow> unat addr = 0" by (simp add: unat_eq_zero)
  obtain r st' where r: "asmalloc addr sz type 0 st = Some (r, st')"
    "r = 0 \<and> st' = st \<and> (\<forall>e\<in>set es. e_type e = type \<longrightarrow> \<not> has_room (unat addr) (unat sz) e) \<or>
     (\<exists>e\<in>set es. e_type e = type \<and> has_room (unat addr) (unat sz) e \<and> unat r = (if addr = 0 then fst e else unat addr)) \<and>
     (\<exists>es'. asm_rep st' es' \<and> takes (unat r) (unat sz) es es')"
    using asmalloc_table_aux [OF assms] by blast
  from r(2) show ?thesis
  proof (elim disjE conjE bexE exE)
    assume no: "r = 0" "st' = st" "\<forall>e\<in>set es. e_type e = type \<longrightarrow> \<not> has_room (unat addr) (unat sz) e"
    have "\<exists>y. x \<le> y \<and> y < x + unat sz \<and> kind_of es y \<noteq> Some type" if x: "0 < x" "addr = 0 \<or> x = unat addr" for x
    proof (rule ccontr)
      assume "\<not> ?thesis"
      then obtain e where "e \<in> set es" "e_type e = type" "has_room x (unat sz) e"
        using one_entry [OF ok n, of x type] x(1) by blast
      then show False using no(3) x z by (auto simp: has_room_def split: if_splits)
    qed
    then show ?thesis using r(1) no(1,2) by blast
  next
    fix e es' assume e: "e \<in> set es" "e_type e = type" "has_room (unat addr) (unat sz) e" "unat r = (if addr = 0 then fst e else unat addr)"
      and es': "asm_rep st' es'" "takes (unat r) (unat sz) es es'"
    obtain A b s B where ab: "es = A @ (b, s, type) # B" "e = (b, s, type)"
      using split_list [OF e(1)] e(2) by (metis prod.collapse)
    have "b \<le> unat r" "unat r + unat sz \<le> b + s" using e(3,4) z ab(2) by (auto simp: has_room_def split: if_splits)
    then have "\<forall>y. unat r \<le> y \<and> y < unat r + unat sz \<longrightarrow> kind_of es y = Some type"
      using kind_of_entry [of A b s type B] ok unfolding ab(1) by auto
    moreover have "addr \<noteq> 0 \<longrightarrow> r = addr" using e(4) by (auto simp: u64_eq_iff)
    ultimately show ?thesis using r(1) es' unfolding takes_def by blast
  qed
qed

theorem asmalloc_table_witness:
  "\<exists>st. asmalloc 0x3000 0x1000 AsmNONE 0 asms0 = Some (0x3000, st)"
proof -
  have "\<not> head_end (unat (0x3000 :: u64)) (unat (0x1000 :: u64)) AsmNONE [(0, 2 ^ 64 - 1, AsmNONE)]" by (simp add: head_end_def)
  from asmalloc_table [OF asms0_rep _ _ this] show ?thesis by (fastforce simp: AsmNONE_def)
qed

text \<open>
  C8. Telling the map what the firmware says of a range (\<open>asmmapinit\<close>): what happens to every range that is not empty, does
  not wrap and does not start at 0, when two entries are free. \<open>a\<close> is where the range starts after memory is cut at \<open>pmstart\<close>; a range of
  memory that starts below 1 MB is ignored. When the range
  is the end of the first entry, and that entry has no type, \<open>asmalloc\<close> goes wrong: if the range is the whole of that
  entry, the map becomes one entry linked to itself, and if it is a part, \<open>asmmapinit\<close> never returns. In every other case
  it returns, and either the whole range was of no type and has the type
  afterwards, nothing else being changed, or the map says of every address what it said before; no address below \<open>pmstart\<close>,
  where the kernel is, becomes memory to hand out.
\<close>

theorem asmmapinit_table:
  assumes "asm_rep st es" "length es \<le> 62" "type \<noteq> AsmNONE" "unat addr + unat sz < 2 ^ 64"
    and "a = (if type = AsmMEMORY then max addr (pmstart sys) else addr)" "a < addr + sz" "a \<noteq> 0"
  shows "if type = AsmMEMORY \<and> addr < 1024 * 1024 then asmmapinit addr sz type (sys, st) = Some (sys, st)
    else if head_end (unat a) (unat (addr + sz - a)) AsmNONE es \<and> fst (hd es) = unat a then
      \<exists>sys' st' i. asmmapinit addr sz type (sys, st) = Some (sys', st') \<and> asmlist st' = Some i \<and> a_next (asmarray st' i) = Some i
    else if head_end (unat a) (unat (addr + sz - a)) AsmNONE es \<and> fst (hd es) < unat a then
      asmmapinit addr sz type (sys, st) = None
    else
      \<exists>sys' st' es'. asmmapinit addr sz type (sys, st) = Some (sys', st') \<and> asm_rep st' es' \<and> pmstart sys' = pmstart sys \<and>
        (kind_of es' = kind_of es \<or>
         (\<forall>z. unat a \<le> z \<and> z < unat addr + unat sz \<longrightarrow> kind_of es z = Some AsmNONE) \<and>
         kind_of es' = (\<lambda>y. if unat a \<le> y \<and> y < unat addr + unat sz then Some type else kind_of es y)) \<and>
        (\<forall>y < unat (pmstart sys). kind_of es' y = Some AsmMEMORY \<longrightarrow> kind_of es y = Some AsmMEMORY)"
proof -
  have e: "unat (addr + sz) = unat addr + unat sz" by (rule unat_add_u64 [OF assms(4)])
  have "a \<le> addr + sz" using assms(6) by simp
  then have ua: "unat (addr + sz - a) = unat addr + unat sz - unat a" using e by (simp add: unat_sub_u64)
  have lt: "unat a < unat addr + unat sz" using assms(6) e by (simp add: word_less_nat_alt)
  have nz: "addr + sz - a \<noteq> 0" using ua lt by (metis diff_is_0_eq not_le unat_0)
  have nw: "unat a + unat (addr + sz - a) < 2 ^ 64" using ua lt assms(4) by simp
  have end': "unat a + unat (addr + sz - a) = unat addr + unat sz" using ua lt by simp
  show ?thesis
  proof (cases "type = AsmMEMORY \<and> addr < 1024 * 1024")
    case True
    then show ?thesis by (simp add: asmmapinit_def)
  next
    case go: False
    obtain sys' where s: "pmstart sys' = pmstart sys"
      "asmmapinit addr sz type (sys, st) = asminsert a (addr + sz - a) type st \<bind> (\<lambda>st'. Some (sys', st'))"
      using asmmapinit_inserts [OF assms(5,6) go] by blast
    show ?thesis
    proof (cases "head_end (unat a) (unat (addr + sz - a)) AsmNONE es \<and> fst (hd es) \<le> unat a")
      case True
      then show ?thesis using asminsert_head_end [OF assms(1) nz assms(7,3)] go s(2) by (auto split: if_splits)
    next
      case False
      obtain st' es' where i: "asminsert a (addr + sz - a) type st = Some st'" "asm_rep st' es'"
        "kind_of es' = (\<lambda>y. if (\<forall>z. unat a \<le> z \<and> z < unat addr + unat sz \<longrightarrow> kind_of es z = Some AsmNONE) \<and>
          unat a \<le> y \<and> y < unat addr + unat sz then Some type else kind_of es y)"
        using asminsert_table [OF assms(1) nz assms(7) nw assms(2,3) False] unfolding end' by blast
      have k: "kind_of es' = kind_of es \<or>
         (\<forall>z. unat a \<le> z \<and> z < unat addr + unat sz \<longrightarrow> kind_of es z = Some AsmNONE) \<and>
         kind_of es' = (\<lambda>y. if unat a \<le> y \<and> y < unat addr + unat sz then Some type else kind_of es y)"
      proof (cases "\<forall>z. unat a \<le> z \<and> z < unat addr + unat sz \<longrightarrow> kind_of es z = Some AsmNONE")
        case True
        then show ?thesis using i(3) by (simp only: eqTrueI [OF True] simp_thms)
      next
        case False
        then show ?thesis using i(3) by (simp only: simp_thms if_False)
      qed
      have "type = AsmMEMORY \<Longrightarrow> unat (pmstart sys) \<le> unat a" using assms(5) by (simp add: word_le_nat_alt [symmetric])
      then have "\<forall>y < unat (pmstart sys). kind_of es' y = Some AsmMEMORY \<longrightarrow> kind_of es y = Some AsmMEMORY"
        using k by (cases "type = AsmMEMORY") (auto split: if_splits)
      then show ?thesis using go False s i(1,2) k by auto
    qed
  qed
qed

theorem asmmapinit_table_witness:
  "\<exists>sys' st'. asmmapinit 0x300000 0x1000000 AsmMEMORY (\<lparr>pmstart = 0x400000, pmend = 0x400000, pmoccupied = 0\<rparr>, asms0) = Some (sys', st') \<and>
    pmstart sys' = 0x400000"
proof -
  let ?sys = "\<lparr>pmstart = 0x400000, pmend = 0x400000, pmoccupied = 0\<rparr>"
  have a: "0x400000 = (if AsmMEMORY = AsmMEMORY then max 0x300000 (pmstart ?sys) else 0x300000)" by (simp add: max_def)
  have t: "AsmMEMORY \<noteq> AsmNONE" by (simp add: AsmMEMORY_def AsmNONE_def)
  have n: "unat (0x300000 :: u64) + unat (0x1000000 :: u64) < 2 ^ 64" by simp
  show ?thesis using asmmapinit_table [OF asms0_rep _ t n a] by (fastforce simp: head_end_def)
qed

declare asm_find.simps [code] asm_room.simps [code]

definition reserved_first :: "(u64 \<times> u64 \<times> u32) list" where
  "reserved_first = [(0xE0000000, 0x10000000, 2), (0x100000, 0xDFF00000, 1)]"

lemma reserved_first_facts:
  "map_option (\<lambda>y. (pmstart (fst y), asmlist (snd y), a_next (asmarray (snd y) 1), a_type (asmarray (snd y) 1))) (boot_map 0x400000 [] reserved_first) =
    Some (0x400000, Some 1, Some 1, 1)"
  "map_option (\<lambda>y. map_option fst (asmalloc 0 0x200000 AsmMEMORY 0 (snd y))) (boot_map 0x400000 [] (rev reserved_first)) = Some (Some 0x400000)"
  by code_simp+

lemma multiboot_mmap_append: "multiboot_mmap (xs @ ys) s = multiboot_mmap xs s \<bind> multiboot_mmap ys"
proof (induction xs s rule: multiboot_mmap.induct)
  case (2 addr len type mmap s)
  then show ?case by (cases "if type \<in> {1, 2, 3, 4} then asmmapinit addr len (uint type) s else Some s") auto
qed simp

text \<open>
  C6. A run of the boot, from \<open>asminit\<close> over the ranges the firmware lists, which need not be sorted: a kernel that ends at
  4 MB, a reserved range below 4 GB and the memory below it. Listed in this order, the memory is the whole of the first
  entry of the map, which \<open>asmalloc\<close> does not unlink when it is used up: afterwards the map is one entry linked to
  itself, and \<open>asmalloc\<close> never returns when it is asked for anything that is not memory. So when the firmware goes on, with
  another range of types 2 to 4, or with memory above that, the machine never gets through \<open>multiboot\<close>. Listed in
  the other order, the same two ranges make a map from which memory can be had.
\<close>

theorem asm_forgets_memory:
  "(\<exists>y. boot_map 0x400000 [] reserved_first = Some y \<and>
      (\<forall>addr sz type align. type \<noteq> AsmMEMORY \<longrightarrow> asmalloc addr sz type align (snd y) = None)) \<and>
   (\<forall>addr sz t more. t \<in> {2, 3, 4} \<or> t = 1 \<and> 0x400000 \<le> addr \<and> addr \<le> addr + sz \<longrightarrow>
      boot_map 0x400000 [] (reserved_first @ (addr, sz, t) # more) = None) \<and>
   (\<exists>y st. boot_map 0x400000 [] (rev reserved_first) = Some y \<and> asmalloc 0 0x200000 AsmMEMORY 0 (snd y) = Some (0x400000, st))"
proof -
  obtain sys st where y: "boot_map 0x400000 [] reserved_first = Some (sys, st)" "pmstart sys = 0x400000" "asmlist st = Some 1"
    "a_next (asmarray st 1) = Some 1" "a_type (asmarray st 1) = 1" using reserved_first_facts(1) by auto
  have stuck: "asmalloc addr sz type align st = None" if "type \<noteq> AsmMEMORY" for addr sz type align
    using asm_room_circle [where i = 1 and m = "asmarray st", OF y(3,4)] y(5) that by (auto simp: asmalloc_def AsmMEMORY_def)
  have ins: "asminsert addr sz type st = None" if "type \<noteq> AsmNONE" for addr sz type
    using that stuck [of AsmNONE] by (simp add: asminsert_def AsmNONE_def AsmMEMORY_def)
  have map: "asmmapinit addr sz (uint t) (sys, st) = None"
    if "t \<in> {2, 3, 4} \<or> t = 1 \<and> 0x400000 \<le> addr \<and> addr \<le> addr + sz" for addr sz and t :: u32
  proof (cases "t = 1")
    case True
    then have "0x400000 \<le> addr" "addr \<le> addr + sz" using that by auto
    then have "\<not> addr < 0x400000" "\<not> addr + sz < 0x400000" "\<not> addr < 1024 * 1024"
      by (simp_all add: word_less_nat_alt word_le_nat_alt)
    then show ?thesis using True y(2) ins [of 1] by (simp add: asmmapinit_def AsmMEMORY_def AsmNONE_def Let_def)
  next
    case False
    then show ?thesis using that ins by (auto simp: asmmapinit_def AsmMEMORY_def AsmNONE_def)
  qed
  have "boot_map 0x400000 [] (reserved_first @ r # more) = multiboot_mmap (r # more) (sys, st)" for r more
  proof -
    have "boot_map 0x400000 [] (reserved_first @ r # more) = boot_map 0x400000 [] reserved_first \<bind> multiboot_mmap (r # more)"
      by (cases "asminit 0x400000 (\<lparr>pmstart = 0, pmend = 0, pmoccupied = 0\<rparr>, asms0)")
        (simp_all add: boot_map_def multiboot_def multiboot_mmap_append del: multiboot_mmap.simps(2))
    then show ?thesis using y(1) by simp
  qed
  then have "boot_map 0x400000 [] (reserved_first @ (addr, sz, t) # more) = None"
    if "t \<in> {2, 3, 4} \<or> t = 1 \<and> 0x400000 \<le> addr \<and> addr \<le> addr + sz" for addr sz t more
    using that map by auto
  then show ?thesis using y(1) stuck reserved_first_facts(2) by auto
qed

theorem asm_forgets_memory_witness:
  "boot_map 0x400000 [] (reserved_first @ [(0x100000000, 0x40000000, 1)]) = None"
  using asm_forgets_memory by simp

text \<open>
  Rounding up to an alignment can leave the entry, and the test that follows wraps: one page of memory, asked for with
  an alignment of 2 MB, is given at an address that was never on the map.
\<close>

lemma asmalloc_align_leaves_map:
  "map_option fst (asmalloc 0 0x1000 AsmMEMORY 0x200000
     (put 0 \<lparr>a_addr = 0x1000, a_size = 0x1000, a_type = AsmMEMORY, a_next = None\<rparr> asms0)) = Some 0x200000"
  by code_simp

end
