(* ===== verification/Cleanname.thy ===== *)
theory Cleanname
  imports Nix_Prelude
begin

text \<open>
  Path names (\<open>libc/port/cleanname.c\<close>), which the kernel cleans before it shows or compares them. The
  code rewrites the name where it is, with one pointer reading and one writing. The memory from \<open>name\<close>
  on is a list of bytes, pointers are offsets in it, and an access behind its end is \<^term>\<open>None\<close>.
\<close>

subsection \<open>The code\<close>

definition rd :: "bytes \<Rightarrow> nat \<Rightarrow> u8 option" where
  "rd m i = (if i < length m then Some (m ! i) else None)"

definition wr :: "nat \<Rightarrow> u8 \<Rightarrow> bytes \<Rightarrow> bytes option" where
  "wr i b m = (if i < length m then Some (m[i := b]) else None)"

abbreviation slash :: u8 where "slash \<equiv> 0x2F"
abbreviation dot :: u8 where "dot \<equiv> 0x2E"
abbreviation hash :: u8 where "hash \<equiv> 0x23"

definition SEP :: "u8 \<Rightarrow> bool" where
  "SEP x \<longleftrightarrow> x = slash \<or> x = 0"

text \<open>\<open>while(--q > dotdot && *q != '/')\<close>\<close>

fun backtrack :: "bytes \<Rightarrow> nat \<Rightarrow> nat \<Rightarrow> nat" where
  "backtrack m dotdot 0 = 0"
| "backtrack m dotdot (Suc q) = (if q > dotdot \<and> m ! q \<noteq> slash then backtrack m dotdot q else q)"

text \<open>\<open>while((*q = *p) != '/' && *q != 0) p++, q++\<close>\<close>

partial_function (option) copy_elem :: "nat \<Rightarrow> nat \<Rightarrow> bytes \<Rightarrow> (nat \<times> nat \<times> bytes) option" where
  "copy_elem p q m = do {
     c \<leftarrow> rd m p;
     m \<leftarrow> wr q c m;
     if SEP c then Some (p, q, m) else copy_elem (p + 1) (q + 1) m
   }"

text \<open>The tests \<open>p[0] == '.' && SEP(p[1])\<close> and \<open>p[0] == '.' && p[1] == '.' && SEP(p[2])\<close>.\<close>

definition is_dot :: "bytes \<Rightarrow> nat \<Rightarrow> bool option" where
  "is_dot m p = do {
     c0 \<leftarrow> rd m p;
     if c0 = dot then map_option SEP (rd m (p + 1)) else Some False
   }"

definition is_dotdot :: "bytes \<Rightarrow> nat \<Rightarrow> bool option" where
  "is_dotdot m p = do {
     c0 \<leftarrow> rd m p;
     if c0 = dot then do {
       c1 \<leftarrow> rd m (p + 1);
       if c1 = dot then map_option SEP (rd m (p + 2)) else Some False
     }
     else Some False
   }"

text \<open>The branch of \<open>..\<close>: the new \<open>q\<close> and \<open>dotdot\<close>, and the memory.\<close>

definition dotdot_elem :: "bool \<Rightarrow> nat \<Rightarrow> nat \<Rightarrow> bytes \<Rightarrow> (nat \<times> nat \<times> bytes) option" where
  "dotdot_elem rooted q dotdot m =
     (if q > dotdot then Some (backtrack m dotdot q, dotdot, m)
      else if \<not> rooted then do {
        (q, m) \<leftarrow> (if q \<noteq> 0 then do { m \<leftarrow> wr q slash m; Some (q + 1, m) } else Some (q, m));
        m \<leftarrow> wr q dot m;
        m \<leftarrow> wr (q + 1) dot m;
        Some (q + 2, q + 2, m)
      }
      else Some (q, dotdot, m))"

partial_function (option) clean_loop :: "bool \<Rightarrow> nat \<Rightarrow> nat \<Rightarrow> nat \<Rightarrow> bool \<Rightarrow> bytes \<Rightarrow> (nat \<times> bool \<times> bytes) option" where
  "clean_loop rooted p q dotdot erasedprefix m = do {
     c \<leftarrow> rd m p;
     if c = 0 then Some (q, erasedprefix, m)
     else if c = slash then clean_loop rooted (p + 1) q dotdot erasedprefix m
     else do {
       d \<leftarrow> is_dot m p;
       dd \<leftarrow> is_dotdot m p;
       if d then clean_loop rooted (p + 1) q dotdot (erasedprefix \<or> p = 0) m
       else if dd then do {
         (q, dotdot, m) \<leftarrow> dotdot_elem rooted q dotdot m;
         clean_loop rooted (p + 2) q dotdot (erasedprefix \<or> q = 0) m
       }
       else do {
         (q, m) \<leftarrow> (if q \<noteq> of_bool rooted then do { m \<leftarrow> wr q slash m; Some (q + 1, m) } else Some (q, m));
         (p, q, m) \<leftarrow> copy_elem p q m;
         clean_loop rooted p q dotdot erasedprefix m
       }
     }
   }"

definition cleanname :: "bytes \<Rightarrow> bytes option" where
  "cleanname name = do {
     c \<leftarrow> rd name 0;
     let rooted = (c = slash);
     (q, erasedprefix, m) \<leftarrow> clean_loop rooted (of_bool rooted) (of_bool rooted) (of_bool rooted) False name;
     (q, m) \<leftarrow> (if q = 0 then do { m \<leftarrow> wr q dot m; Some (q + 1, m) } else Some (q, m));
     m \<leftarrow> wr q 0 m;
     c \<leftarrow> rd m 0;
     if erasedprefix \<and> c = hash then
       let n = length (takeWhile (\<lambda>b. b \<noteq> 0) m) + 1 in
       if n + 2 > length m then None
       else
         let m = take 2 m @ take n m @ drop (n + 2) m in
         Some (m[0 := dot, 1 := slash])
     else Some m
   }"

subsection \<open>What it is to compute\<close>

text \<open>The elements of a path, empty ones included.\<close>

function elems :: "bytes \<Rightarrow> bytes list" where
  "elems s = takeWhile (\<lambda>c. c \<noteq> slash) s #
     (case dropWhile (\<lambda>c. c \<noteq> slash) s of [] \<Rightarrow> [] | _ # r \<Rightarrow> elems r)"
  by pat_completeness auto
termination
proof (relation "measure length")
  fix s :: bytes and x r
  assume "dropWhile (\<lambda>c. c \<noteq> slash) s = x # r"
  then have "length (x # r) \<le> length s" by (metis length_dropWhile_le)
  then show "(r, s) \<in> measure length" by simp
qed simp

declare elems.simps [simp del]

definition dots :: bytes where "dots = [dot, dot]"

text \<open>One element after the elements \<open>st\<close>, the last one first.\<close>

definition step :: "bool \<Rightarrow> bytes \<Rightarrow> bytes list \<Rightarrow> bytes list" where
  "step rooted e st =
     (if e = [] \<or> e = [dot] then st
      else if e = dots then (case st of
          [] \<Rightarrow> if rooted then [] else [dots]
        | x # xs \<Rightarrow> if x = dots then dots # st else xs)
      else e # st)"

fun path :: "bool \<Rightarrow> bytes list \<Rightarrow> bytes" where
  "path rooted [] = (if rooted then [slash] else [])"
| "path rooted (e # st) = path rooted st @ (if st = [] then e else slash # e)"

text \<open>Whether the front of a path that is not rooted is not the front of the result.\<close>

fun erases :: "bytes list \<Rightarrow> bytes list \<Rightarrow> bool" where
  "erases [] st = False"
| "erases (e # es) st = (e = dots \<and> step False e st = [] \<or> erases es (step False e st))"

definition clean :: "bytes \<Rightarrow> bytes" where
  "clean s =
     (let rooted = (take 1 s = [slash]); st = fold (step rooted) (elems s) [];
          r = path rooted st; r = (if r = [] then [dot] else r) in
      if \<not> rooted \<and> (hd (elems s) = [dot] \<or> erases (elems s) []) \<and> take 1 r = [hash] then [dot, slash] @ r else r)"

subsection \<open>Elements\<close>

lemma elems_simps [simp]: "elems [] = [[]]" "elems (slash # r) = [] # elems r"
  by (simp_all add: elems.simps)

lemma elems_elem: "slash \<notin> set e \<Longrightarrow> elems e = [e]" "slash \<notin> set e \<Longrightarrow> elems (e @ slash # r) = e # elems r"
proof -
  assume e: "slash \<notin> set e"
  have "takeWhile (\<lambda>c. c \<noteq> slash) e = e" "dropWhile (\<lambda>c. c \<noteq> slash) e = []" using e by (auto simp: takeWhile_eq_all_conv)
  then show "elems e = [e]" by (subst elems.simps) (simp only: list.case)
  have "takeWhile (\<lambda>c. c \<noteq> slash) (e @ slash # r) = e" "dropWhile (\<lambda>c. c \<noteq> slash) (e @ slash # r) = slash # r"
    using e by (induction e) auto
  then show "elems (e @ slash # r) = e # elems r" by (simp add: elems.simps [of "e @ slash # r"])
qed

lemma step_nil [simp]: "step b [] st = st" "step b [dot] st = st"
  by (simp_all add: step_def)

lemma dots_neq [simp]: "dots \<noteq> []" "dots \<noteq> [dot]" "[] \<noteq> dots" "[dot] \<noteq> dots"
  by (simp_all add: dots_def)

definition at_sep :: "bytes \<Rightarrow> bool" where
  "at_sep r \<longleftrightarrow> r = [] \<or> hd r = slash"

lemma at_sep_cases: "at_sep r \<Longrightarrow> (r = [] \<Longrightarrow> P) \<Longrightarrow> (\<And>r'. r = slash # r' \<Longrightarrow> P) \<Longrightarrow> P"
  by (cases r) (auto simp: at_sep_def)

lemma fold_elems:
  "slash \<notin> set e \<Longrightarrow> at_sep r \<Longrightarrow> fold (step b) (elems (e @ r)) st = fold (step b) (elems r) (step b e st)"
  by (erule at_sep_cases) (simp_all add: elems_elem)

lemma erases_elems:
  "slash \<notin> set e \<Longrightarrow> at_sep r \<Longrightarrow>
   erases (elems (e @ r)) st \<longleftrightarrow> e = dots \<and> step False e st = [] \<or> erases (elems r) (step False e st)"
  by (erule at_sep_cases) (simp_all add: elems_elem)

lemma hd_elems: "slash \<notin> set e \<Longrightarrow> at_sep r \<Longrightarrow> hd (elems (e @ r)) = e"
  by (erule at_sep_cases) (simp_all add: elems_elem)

lemma split_elem:
  obtains e r' where "r = e @ r'" "slash \<notin> set e" "at_sep r'"
proof
  show "r = takeWhile (\<lambda>c. c \<noteq> slash) r @ dropWhile (\<lambda>c. c \<noteq> slash) r" by simp
  show "slash \<notin> set (takeWhile (\<lambda>c. c \<noteq> slash) r)" by (auto dest: set_takeWhileD)
  show "at_sep (dropWhile (\<lambda>c. c \<noteq> slash) r)" using hd_dropWhile [of "\<lambda>c. c \<noteq> slash" r] by (auto simp: at_sep_def)
qed

text \<open>What is on the stack: the elements that are kept, and below them the \<open>..\<close> that nothing was before.\<close>

definition elem :: "bytes \<Rightarrow> bool" where
  "elem e \<longleftrightarrow> e \<noteq> [] \<and> e \<noteq> [dot] \<and> slash \<notin> set e \<and> 0 \<notin> set e"

definition stack :: "bool \<Rightarrow> bytes list \<Rightarrow> nat \<Rightarrow> bool" where
  "stack rooted st k \<longleftrightarrow> (\<exists>xs. st = xs @ replicate k dots \<and> dots \<notin> set xs \<and> (\<forall>e\<in>set xs. elem e)) \<and> (rooted \<longrightarrow> k = 0)"

lemma elem_dots [simp]: "elem dots"
  by (simp add: elem_def dots_def)

lemma stack_elem: "stack b st k \<Longrightarrow> e \<in> set st \<Longrightarrow> elem e"
  by (auto simp: stack_def)

lemma stack_push: "stack b st k \<Longrightarrow> elem e \<Longrightarrow> e \<noteq> dots \<Longrightarrow> stack b (e # st) k"
  unfolding stack_def by (metis Cons_eq_appendI insertE list.set(2))

lemma stack_pop: "stack b (x # st) k \<Longrightarrow> x \<noteq> dots \<Longrightarrow> stack b st k"
  by (auto simp: stack_def Cons_eq_append_conv Cons_replicate_eq)

lemma stack_dots: "stack False st k \<Longrightarrow> st = replicate k dots \<Longrightarrow> stack False (dots # st) (Suc k)"
  by (auto simp: stack_def intro!: exI [of _ "[]"])

lemma stack_top:
  assumes "stack b st k"
  shows "(\<exists>x xs. st = x # xs \<and> x \<noteq> dots) \<or> st = replicate k dots"
proof -
  obtain xs where "st = xs @ replicate k dots" "dots \<notin> set xs" using assms by (auto simp: stack_def)
  then show ?thesis by (cases xs) auto
qed

lemma length_path_mono: "length (path b (drop n st)) \<le> length (path b st)"
proof (induction st arbitrary: n)
  case (Cons e st)
  show ?case
  proof (cases n)
    case (Suc n')
    have "length (path b (drop n' st)) \<le> length (path b (e # st))" using Cons.IH [of n'] by (rule order_trans) simp
    then show ?thesis using Suc by simp
  qed simp
qed simp

lemma path_push: "elem e \<Longrightarrow> length (path b st) < length (path b (e # st))"
  by (auto simp: elem_def)

lemma stack_deeper: "stack b (x # st) k \<Longrightarrow> x \<noteq> dots \<Longrightarrow> length (path b (replicate k dots)) \<le> length (path b st)"
proof -
  assume "stack b (x # st) k" "x \<noteq> dots"
  then obtain xs where "st = xs @ replicate k dots" using stack_pop unfolding stack_def by blast
  then show ?thesis using length_path_mono [of b "length xs" st] by simp
qed

subsection \<open>The loops\<close>

lemma rd_at [simp]: "rd (a @ c # b) (length a) = Some c"
  by (simp add: rd_def)

lemma wr_at [simp]: "wr (length a) x (a @ c # b) = Some (a @ x # b)"
  by (simp add: wr_def)

lemma copy_elem_spec:
  "\<forall>c\<in>set e. \<not> SEP c \<Longrightarrow> SEP c \<Longrightarrow>
   \<exists>g'. length g' = length g \<and> copy_elem (length out + length g) (length out) (out @ g @ e @ c # rest) =
     Some (length out + length g + length e, length out + length e, (out @ e) @ g' @ c # rest)"
proof (induction e arbitrary: out g)
  case Nil
  have r: "rd (out @ g @ c # rest) (length out + length g) = Some c" using rd_at [of "out @ g" c rest] by simp
  show ?case
  proof (cases g)
    case Nil
    then show ?thesis using r \<open>SEP c\<close> by (subst copy_elem.simps) simp
  next
    case (Cons y g1)
    then show ?thesis using r \<open>SEP c\<close> by (intro exI [of _ "c # g1"]) (subst copy_elem.simps, simp)
  qed
next
  case (Cons x e)
  have r: "rd (out @ g @ (x # e) @ c # rest) (length out + length g) = Some x" using rd_at [of "out @ g" x "e @ c # rest"] by simp
  have x: "\<not> SEP x" "\<forall>c\<in>set e. \<not> SEP c" using Cons.prems(1) by auto
  show ?case
  proof (cases g)
    case Nil
    obtain g' where "g' = []" "copy_elem (length (out @ [x])) (length (out @ [x])) ((out @ [x]) @ [] @ e @ c # rest) =
      Some (length (out @ [x]) + length e, length (out @ [x]) + length e, ((out @ [x]) @ e) @ [] @ c # rest)"
      using Cons.IH [OF x(2) Cons.prems(2), of "[]" "out @ [x]"] by auto
    then show ?thesis using r x(1) Nil by (subst copy_elem.simps) simp
  next
    case (Cons y g1)
    obtain g' where g': "length g' = length (g1 @ [x])" "copy_elem (length (out @ [x]) + length (g1 @ [x])) (length (out @ [x])) ((out @ [x]) @ (g1 @ [x]) @ e @ c # rest) =
      Some (length (out @ [x]) + length (g1 @ [x]) + length e, length (out @ [x]) + length e, ((out @ [x]) @ e) @ g' @ c # rest)"
      using Cons.IH [OF x(2) Cons.prems(2), of "g1 @ [x]" "out @ [x]"] by auto
    then show ?thesis using r x(1) Cons by (intro exI [of _ g']) (subst copy_elem.simps, simp)
  qed
qed

lemma backtrack_to:
  "(\<And>i. k < i \<Longrightarrow> i < q \<Longrightarrow> m ! i \<noteq> slash) \<Longrightarrow> (dd < k \<Longrightarrow> m ! k = slash) \<Longrightarrow> dd \<le> k \<Longrightarrow> k < q \<Longrightarrow> backtrack m dd q = k"
proof (induction q)
  case (Suc q)
  then show ?case using Suc.prems(1) [of q] by (cases "q = k") auto
qed simp

text \<open>One element back: where the path without it ends.\<close>

lemma backtrack_elem:
  assumes "elem x" "dd \<le> length (path b st)" "st = [] \<Longrightarrow> dd = length (path b st)"
  shows "backtrack (path b (x # st) @ rest) dd (length (path b (x # st))) = length (path b st)"
proof (rule backtrack_to)
  show "length (path b st) < length (path b (x # st))" by (rule path_push [OF assms(1)])
  show "dd \<le> length (path b st)" by (rule assms(2))
  show "dd < length (path b st) \<Longrightarrow> (path b (x # st) @ rest) ! length (path b st) = slash"
    using assms(3) by (auto simp: nth_append)
  fix i assume i: "length (path b st) < i" "i < length (path b (x # st))"
  have s: "slash \<notin> set x" using assms(1) by (simp add: elem_def)
  show "(path b (x # st) @ rest) ! i \<noteq> slash"
  proof (cases "st = []")
    case True
    then have "(path b (x # st) @ rest) ! i = x ! (i - length (path b st))" "i - length (path b st) < length x"
      using i by (auto simp: nth_append)
    then show ?thesis using s by (metis nth_mem)
  next
    case False
    then have "(path b (x # st) @ rest) ! i = x ! (i - length (path b st) - 1)" "i - length (path b st) - 1 < length x"
      using i by (auto simp: nth_append nth_Cons')
    then show ?thesis using s by (metis nth_mem)
  qed
qed

lemma is_dot_spec:
  assumes "slash \<notin> set e" "0 \<notin> set e" "e \<noteq> []" "SEP c"
  shows "is_dot (a @ e @ c # r) (length a) = Some (e = [dot])"
    and "is_dotdot (a @ e @ c # r) (length a) = Some (e = dots)"
proof -
  obtain x e' where e: "e = x # e'" using assms(3) by (cases e) auto
  have r0: "rd (a @ e @ c # r) (length a) = Some x" by (simp add: rd_def e)
  have r1: "rd (a @ e @ c # r) (length a + 1) = Some (case e' of [] \<Rightarrow> c | y # _ \<Rightarrow> y)"
    by (cases e') (simp_all add: rd_def e nth_append)
  have r2: "rd (a @ e @ c # r) (length a + 2) = Some (case e'' of [] \<Rightarrow> c | z # _ \<Rightarrow> z)" if "e' = y # e''" for y e''
    using that by (cases e'') (simp_all add: rd_def e nth_append)
  have n: "\<not> SEP y" if "y \<in> set e" for y using that assms(1,2) by (auto simp: SEP_def)
  show "is_dot (a @ e @ c # r) (length a) = Some (e = [dot])"
    using r0 r1 n assms(4) e by (cases e') (auto simp: is_dot_def)
  have "c \<noteq> dot" using assms(4) by (auto simp: SEP_def)
  show "is_dotdot (a @ e @ c # r) (length a) = Some (e = dots)"
  proof (cases e')
    case Nil
    then show ?thesis using r0 r1 \<open>c \<noteq> dot\<close> e by (cases "x = dot") (simp_all add: is_dotdot_def dots_def)
  next
    case (Cons y e'')
    show ?thesis
    proof (cases e'')
      case Nil
      then show ?thesis using r0 r1 r2 [OF Cons] Cons assms(4) e by (cases "x = dot"; cases "y = dot") (simp_all add: is_dotdot_def dots_def)
    next
      case z: (Cons z e3)
      then have "\<not> SEP z" using n e Cons by simp
      then show ?thesis using r0 r1 r2 [OF Cons] z Cons e by (cases "x = dot"; cases "y = dot") (simp_all add: is_dotdot_def dots_def)
    qed
  qed
qed

lemma path_root: "\<forall>e\<in>set st. elem e \<Longrightarrow> length (path b st) = of_bool b \<longleftrightarrow> st = []"
proof (cases st)
  case (Cons e st')
  assume "\<forall>e\<in>set st. elem e"
  then have "length (path b st') < length (path b st)" using path_push Cons by simp
  moreover have "of_bool b \<le> length (path b st')" using length_path_mono [of b "length st'" st'] by (cases b) auto
  ultimately have "length (path b st) \<noteq> of_bool b" by linarith
  then show ?thesis using Cons by (simp del: path.simps)
qed simp

lemma wr_append: "length a \<le> i \<Longrightarrow> wr i x (a @ b) = map_option ((@) a) (wr (i - length a) x b)"
  by (cases "i < length a + length b") (auto simp: wr_def list_update_append)

lemma dotdot_spec:
  assumes "stack b st k" "st = [] \<or> g \<noteq> []"
  shows "\<exists>g1 k1. dotdot_elem b (length (path b st)) (length (path b (replicate k dots))) (path b st @ g @ dots @ rest) =
      Some (length (path b (step b dots st)), length (path b (replicate k1 dots)), path b (step b dots st) @ g1 @ rest) \<and>
    stack b (step b dots st) k1 \<and> length (path b (step b dots st)) + length g1 = length (path b st) + length g + 2"
proof -
  consider (pop) x st1 where "st = x # st1" "x \<noteq> dots" | (root) "st = replicate k dots" "b" | (push) "st = replicate k dots" "\<not> b"
    using stack_top [OF assms(1)] by blast
  then show ?thesis
  proof cases
    case pop
    have x: "elem x" using stack_elem [OF assms(1), of x] pop by simp
    have s1: "stack b st1 k" using stack_pop assms(1) pop by blast
    have le: "length (path b (replicate k dots)) \<le> length (path b st1)" using stack_deeper assms(1) pop by blast
    have e: "st1 = [] \<Longrightarrow> length (path b (replicate k dots)) = length (path b st1)" using s1 by (auto simp: stack_def)
    have st: "step b dots st = st1" using pop by (simp add: step_def)
    have "length (path b (replicate k dots)) < length (path b st)" 
      using le_less_trans [OF le path_push [OF x, of b st1]] pop(1) by (simp only:)
    then have "dotdot_elem b (length (path b st)) (length (path b (replicate k dots))) (path b st @ g @ dots @ rest) =
      Some (length (path b st1), length (path b (replicate k dots)), path b st @ g @ dots @ rest)"
      using backtrack_elem [OF x le e, of "g @ dots @ rest"] pop(1) by (simp add: dotdot_elem_def)
    moreover have "path b st @ g @ dots @ rest = path b st1 @ ((if st1 = [] then x else slash # x) @ g @ dots) @ rest" using pop(1) by simp
    ultimately show ?thesis using s1 pop(1) unfolding st
      by (intro exI [of _ "(if st1 = [] then x else slash # x) @ g @ dots"] exI [of _ k]) (simp add: dots_def)
  next
    case root
    then have "k = 0" "st = []" using assms(1) by (auto simp: stack_def)
    then show ?thesis using root assms(1)
      by (intro exI [of _ "g @ dots"] exI [of _ 0]) (simp add: dotdot_elem_def step_def dots_def)
  next
    case push
    have st: "step b dots st = dots # st" using push by (cases k) (auto simp: step_def)
    have sk: "stack b (dots # st) (Suc k)" using stack_dots assms(1) push by auto
    show ?thesis
    proof (cases "st = []")
      case True
      then have "k = 0" using push(1) by simp
      obtain y z g1 where g: "g @ dots = y # z # g1" by (cases g; cases "tl g") (auto simp: dots_def)
      then have m: "path b st @ g @ dots @ rest = y # z # g1 @ rest" using True push(2) by (simp add: append_assoc [symmetric] del: append_assoc)
      have "length g + 2 = length (g @ dots)" by (simp add: dots_def)
      then have l: "length g = length g1" unfolding g by simp
      have "dotdot_elem b 0 0 (y # z # g1 @ rest) = Some (2, 2, dots @ g1 @ rest)"
        using push(2) by (simp add: dotdot_elem_def wr_def dots_def)
      then show ?thesis using True push(2) \<open>k = 0\<close> sk l unfolding st m
        by (intro exI [of _ g1] exI [of _ 1]) (simp add: dots_def)
    next
      case False
      have "\<forall>e\<in>set st. elem e" using stack_elem [OF assms(1)] by blast
      then have q: "length (path b st) \<noteq> 0" using path_root [of st b] False push(2) by simp
      have len: "3 \<le> length (g @ dots)" using assms(2) False by (cases g) (simp_all add: dots_def)
      then obtain x y z g1 where g: "g @ dots = x # y # z # g1" by (metis (no_types) Suc_le_length_iff numeral_3_eq_3)
      then have m: "path b st @ g @ dots @ rest = path b st @ x # y # z # g1 @ rest" by (simp add: append_assoc [symmetric] del: append_assoc)
      have "length g + 2 = length (g @ dots)" by (simp add: dots_def)
      then have l: "length g = Suc (length g1)" unfolding g by simp
      have "dotdot_elem b (length (path b st)) (length (path b (replicate k dots))) (path b st @ x # y # z # g1 @ rest) =
        Some (length (path b st) + 3, length (path b st) + 3, path b st @ slash # dot # dot # g1 @ rest)"
        using push q by (simp add: dotdot_elem_def wr_append wr_def list_update_append)
      then show ?thesis using False push sk l unfolding st m
        by (intro exI [of _ g1] exI [of _ "Suc k"]) (simp add: dots_def)
    qed
  qed
qed

lemma step_elem: "elem e \<Longrightarrow> e \<noteq> dots \<Longrightarrow> step b e st = e # st"
  by (simp add: step_def elem_def)

lemma clean_loop_spec:
  assumes "stack b st k" "0 \<notin> set r" "g \<noteq> [] \<or> st = [] \<or> at_sep r"
  shows "\<exists>er' g' k'. clean_loop b (length (path b st) + length g) (length (path b st)) (length (path b (replicate k dots))) er
        (path b st @ g @ r @ 0 # t) =
      Some (length (path b (fold (step b) (elems r) st)), er', path b (fold (step b) (elems r) st) @ g' @ 0 # t) \<and>
    length (path b (fold (step b) (elems r) st)) + length g' = length (path b st) + length g + length r \<and>
    stack b (fold (step b) (elems r) st) k' \<and>
    (b \<or> (er' \<longleftrightarrow> er \<or> length (path b st) + length g = 0 \<and> hd (elems r) = [dot] \<or> erases (elems r) st))"
  using assms
proof (induction "length r" arbitrary: r st k g er rule: less_induct)
  case less
  note st = less.prems(1)
  let ?p = "length (path b st) + length g" and ?m = "path b st @ g @ r @ 0 # t"
  have rdp: "rd ?m ?p = Some c" if "r @ 0 # t = c # rest" for c rest
    using rd_at [of "path b st @ g" c rest] that by simp
  obtain e r' where r: "r = e @ r'" "slash \<notin> set e" "at_sep r'" by (rule split_elem)
  show ?case
  proof (cases "e = []")
    case True
    then consider "r = []" | r1 where "r = slash # r1" using r(1,3) by (auto elim: at_sep_cases)
    then show ?thesis
    proof cases
      case 1
      then show ?thesis using rdp [of 0 t] st by (subst clean_loop.simps) auto
    next
      case 2
      have "0 \<notin> set r1" using less.prems(2) 2 by simp
      from less.hyps [OF _ st this, of "g @ [slash]" er] show ?thesis
        using rdp [of slash "r1 @ 0 # t"] 2 by (subst clean_loop.simps) simp
    qed
  next
    case False
    obtain c rest where c: "r' @ 0 # t = c # rest" "SEP c" using r(3) by (auto elim!: at_sep_cases simp: SEP_def)
    obtain x e' where e: "e = x # e'" using False by (cases e) auto
    have e0: "0 \<notin> set e" "0 \<notin> set r'" using less.prems(2) r(1) by auto
    have lt: "length r' < length r" using r(1) e by simp
    have m: "?m = path b st @ g @ e @ c # rest" using r(1) c(1) by simp
    have x: "x \<noteq> 0" "x \<noteq> slash" using e e0(1) r(2) by auto
    have rdx: "rd ?m ?p = Some x" using rdp [of x "e' @ r' @ 0 # t"] r(1) e by simp
    have dot: "is_dot ?m ?p = Some (e = [dot])" "is_dotdot ?m ?p = Some (e = dots)"
      using is_dot_spec [OF r(2) e0(1) False c(2), of "path b st @ g" rest] unfolding m by simp_all
    have fe: "fold (step b) (elems r) st = fold (step b) (elems r') (step b e st)" unfolding r(1) by (rule fold_elems [OF r(2,3)])
    have ee: "erases (elems r) st \<longleftrightarrow> e = dots \<and> step False e st = [] \<or> erases (elems r') (step False e st)"
      unfolding r(1) by (rule erases_elems [OF r(2,3)])
    have he: "hd (elems r) = e" unfolding r(1) by (rule hd_elems [OF r(2,3)])
    consider (d) "e = [dot]" | (dd) "e = dots" | (el) "elem e" "e \<noteq> dots" using False r(2) e0(1) by (auto simp: elem_def)
    then show ?thesis
    proof cases
      case d
      from less.hyps [OF lt st e0(2), of "g @ [dot]" "er \<or> ?p = 0"] r(3) show ?thesis
        unfolding fe ee he using rdx x dot d r(1) by (subst clean_loop.simps) (auto simp: dots_def)
    next
      case dd
      have "st = [] \<or> g \<noteq> []" using less.prems(3) r(1) e x by (auto simp: at_sep_def)
      from dotdot_spec [OF st this, of "r' @ 0 # t"] obtain g1 k1 where
        d: "dotdot_elem b (length (path b st)) (length (path b (replicate k dots))) (path b st @ g @ dots @ r' @ 0 # t) =
          Some (length (path b (step b dots st)), length (path b (replicate k1 dots)), path b (step b dots st) @ g1 @ r' @ 0 # t)"
        "stack b (step b dots st) k1" "length (path b (step b dots st)) + length g1 = length (path b st) + length g + 2" by blast
      have z: "length (path False (step False dots st)) = 0 \<longleftrightarrow> step False dots st = []" if "\<not> b"
        using path_root [of "step b dots st" b] stack_elem [OF d(2)] that by auto
      let ?er = "er \<or> length (path b (step b dots st)) = 0"
      obtain er' g' k' where h: "clean_loop b (length (path b (step b dots st)) + length g1) (length (path b (step b dots st)))
          (length (path b (replicate k1 dots))) ?er (path b (step b dots st) @ g1 @ r' @ 0 # t) =
          Some (length (path b (fold (step b) (elems r) st)), er', path b (fold (step b) (elems r) st) @ g' @ 0 # t)"
        "length (path b (fold (step b) (elems r) st)) + length g' = length (path b (step b dots st)) + length g1 + length r'"
        "stack b (fold (step b) (elems r) st) k'"
        "b \<or> (er' \<longleftrightarrow> ?er \<or> length (path b (step b dots st)) + length g1 = 0 \<and> hd (elems r') = [dot] \<or> erases (elems r') (step b dots st))"
        using less.hyps [OF lt d(2) e0(2), of g1 ?er] r(3) unfolding fe dd by blast
      have "clean_loop b ?p (length (path b st)) (length (path b (replicate k dots))) er ?m =
        Some (length (path b (fold (step b) (elems r) st)), er', path b (fold (step b) (elems r) st) @ g' @ 0 # t)"
        using rdx x dot dd d(1,3) h(1) r(1) by (subst clean_loop.simps) (simp add: add.assoc)
      moreover have "length (path b (fold (step b) (elems r) st)) + length g' = length (path b st) + length g + length r"
        using h(2) d(3) r(1) dd by (simp add: dots_def)
      moreover have "b \<or> (er' \<longleftrightarrow> er \<or> length (path b st) + length g = 0 \<and> hd (elems r) = [dot] \<or> erases (elems r) st)"
        using h(4) d(3) z dd unfolding ee he by auto
      ultimately show ?thesis using h(3) by blast
    next
      case el
      have st': "stack b (e # st) k" by (rule stack_push [OF st el])
      have se: "step b e st = e # st" "step False e st = e # st" using step_elem el by auto
      define out where "out = path b st @ (if st = [] then [] else [slash])"
      define g1 where "g1 = (if st = [] then g else tl g)"
      have gs: "st \<noteq> [] \<Longrightarrow> g \<noteq> []" using less.prems(3) r(1) e x by (auto simp: at_sep_def)
      have lg: "length out + length g1 = ?p" using gs by (cases g) (auto simp: out_def g1_def)
      have q: "length (path b st) \<noteq> of_bool b \<longleftrightarrow> st \<noteq> []" using path_root [of st b] stack_elem [OF st] by blast
      have sl: "(if length (path b st) \<noteq> of_bool b then do { m \<leftarrow> wr (length (path b st)) slash ?m; Some (length (path b st) + 1, m) }
          else Some (length (path b st), ?m)) = Some (length out, out @ g1 @ e @ c # rest)"
        unfolding q m using gs by (cases g) (auto simp: out_def g1_def)
      have ns: "\<forall>c\<in>set e. \<not> SEP c" using r(2) e0(1) by (auto simp: SEP_def)
      obtain g' where g': "length g' = length g1" "copy_elem (length out + length g1) (length out) (out @ g1 @ e @ c # rest) =
          Some (length out + length g1 + length e, length out + length e, (out @ e) @ g' @ c # rest)"
        using copy_elem_spec [OF ns c(2)] by blast
      have oe: "out @ e = path b (e # st)" by (simp add: out_def)
      then have ol: "length out + length e = length (path b (e # st))" by (metis length_append)
      obtain er' g2 k' where h: "clean_loop b (length (path b (e # st)) + length g') (length (path b (e # st)))
          (length (path b (replicate k dots))) er (path b (e # st) @ g' @ r' @ 0 # t) =
          Some (length (path b (fold (step b) (elems r) st)), er', path b (fold (step b) (elems r) st) @ g2 @ 0 # t)"
        "length (path b (fold (step b) (elems r) st)) + length g2 = length (path b (e # st)) + length g' + length r'"
        "stack b (fold (step b) (elems r) st) k'"
        "b \<or> (er' \<longleftrightarrow> er \<or> length (path b (e # st)) + length g' = 0 \<and> hd (elems r') = [dot] \<or> erases (elems r') (e # st))"
        using less.hyps [OF lt st' e0(2), of g' er] r(3) unfolding fe se by blast
      have p': "length out + length g1 + length e = length (path b (e # st)) + length g'" using ol g'(1) by simp
      have cp: "copy_elem ?p (length out) (out @ g1 @ e @ c # rest) =
        Some (length (path b (e # st)) + length g', length (path b (e # st)), path b (e # st) @ g' @ r' @ 0 # t)"
        using g'(2) unfolding lg [symmetric] p' ol oe by (simp only: append.assoc c(1))
      have "clean_loop b ?p (length (path b st)) (length (path b (replicate k dots))) er ?m =
        Some (length (path b (fold (step b) (elems r) st)), er', path b (fold (step b) (elems r) st) @ g2 @ 0 # t)"
        using rdx x dot el cp h(1) sl by (subst clean_loop.simps) (simp add: elem_def del: path.simps)
      moreover have "length (path b (fold (step b) (elems r) st)) + length g2 = length (path b st) + length g + length r"
        using h(2) ol lg g'(1) r(1) by simp
      moreover have "b \<or> (er' \<longleftrightarrow> er \<or> length (path b st) + length g = 0 \<and> hd (elems r) = [dot] \<or> erases (elems r) st)"
        using h(4) el path_push [OF el(1), of b st] unfolding ee he se by (auto simp: elem_def)
      ultimately show ?thesis using h(3) by blast
    qed
  qed
qed

subsection \<open>The whole name\<close>

lemma stack_nil [simp]: "stack b [] 0"
  by (simp add: stack_def)

text \<open>After an erased front the rest of the path starts anew, and two bytes are free.\<close>

lemma erases_restart:
  "erases (elems r) st \<Longrightarrow> \<exists>r'. fold (step False) (elems r) st = fold (step False) (elems r') [] \<and> length r' + 2 \<le> length r \<and> set r' \<subseteq> set r"
proof (induction "length r" arbitrary: r st rule: less_induct)
  case less
  obtain e r' where r: "r = e @ r'" "slash \<notin> set e" "at_sep r'" by (rule split_elem)
  note fe = fold_elems [OF r(2,3), of False st]
  have ee: "e = dots \<and> step False e st = [] \<or> erases (elems r') (step False e st)"
    using less.prems unfolding r(1) erases_elems [OF r(2,3)] .
  show ?case
  proof (cases "e = dots \<and> step False e st = []")
    case True
    then show ?thesis using fe r(1) by (intro exI [of _ r']) (auto simp: dots_def)
  next
    case False
    then have er: "erases (elems r') (step False e st)" using ee by blast
    show ?thesis
    proof (cases "e = []")
      case False
      then have "length r' < length r" using r(1) by simp
      from less.hyps [OF this er] obtain q where "fold (step False) (elems r') (step False e st) = fold (step False) (elems q) []"
        "length q + 2 \<le> length r'" "set q \<subseteq> set r'" by blast
      then show ?thesis using fe r(1) by (intro exI [of _ q]) auto
    next
      case True
      then consider "r = []" | r1 where "r = slash # r1" using r(1,3) by (auto elim: at_sep_cases)
      then show ?thesis
      proof cases
        case 2
        have "erases (elems r1) st" using less.prems 2 by simp
        from less.hyps [OF _ this] 2 obtain q where "fold (step False) (elems r1) st = fold (step False) (elems q) []"
          "length q + 2 \<le> length r1" "set q \<subseteq> set r1" by auto
        then show ?thesis using 2 by (intro exI [of _ q]) auto
      qed (use less.prems in simp)
    qed
  qed
qed

lemma dot_restart:
  assumes "hd (elems r) = [dot]"
  shows "r = [dot] \<or> (\<exists>r'. fold (step False) (elems r) [] = fold (step False) (elems r') [] \<and> length r' + 2 \<le> length r \<and> set r' \<subseteq> set r)"
proof -
  obtain e r' where r: "r = e @ r'" "slash \<notin> set e" "at_sep r'" by (rule split_elem)
  have e: "e = [dot]" using assms hd_elems [OF r(2,3)] r(1) by simp
  from r(3) show ?thesis
  proof (rule at_sep_cases)
    fix r1 assume "r' = slash # r1"
    then show ?thesis using fold_elems [OF r(2,3), of False "[]"] r(1) e by (intro disjI2 exI [of _ r1]) auto
  qed (use r(1) e in simp)
qed

lemma clean_length_aux: "0 \<notin> set r \<Longrightarrow> length (path False (fold (step False) (elems r) [])) \<le> length r"
proof -
  assume "0 \<notin> set r"
  then obtain g' :: bytes where "length (path False (fold (step False) (elems r) [])) + length g' = length r"
    using clean_loop_spec [OF stack_nil, of r "[]" False False "[]"] by auto
  then show ?thesis by linarith
qed

lemma clean_stack: "0 \<notin> set r \<Longrightarrow> \<exists>k. stack b (fold (step b) (elems r) []) k"
  using clean_loop_spec [OF stack_nil, of r "[]" b False] by auto

lemma path_no_nul: "stack b st k \<Longrightarrow> 0 \<notin> set (path b st)"
proof (induction st arbitrary: k)
  case (Cons e st)
  have "elem e" using stack_elem [OF Cons.prems] by simp
  moreover have "\<exists>k'. stack b st k'"
  proof (cases "e = dots")
    case True
    then have "e # st = replicate k dots" using stack_top [OF Cons.prems] by auto
    then show ?thesis using Cons.prems by (cases k) (auto simp: stack_def intro!: exI [of _ "[]"])
  qed (use stack_pop [OF Cons.prems] in blast)
  ultimately show ?case using Cons.IH by (auto simp: elem_def)
qed simp

lemma takeWhile_nul: "0 \<notin> set p \<Longrightarrow> takeWhile (\<lambda>b. b \<noteq> 0) (p @ 0 # t) = p" for p :: bytes
  by (induction p) auto

lemma cleanname_rooted:
  assumes "0 \<notin> set r"
  shows "\<exists>g. cleanname (slash # r @ 0 # t) = Some (clean (slash # r) @ 0 # g @ t) \<and> length (clean (slash # r)) + length g = Suc (length r)"
proof -
  define st where "st = fold (step True) (elems r) []"
  obtain er' g where l: "clean_loop True 1 1 1 False (slash # r @ 0 # t) = Some (length (path True st), er', path True st @ g @ 0 # t)"
    "length (path True st) + length g = Suc (length r)"
    using clean_loop_spec [OF stack_nil assms, of "[]" True False t] by (auto simp: st_def)
  obtain r0 where p: "path True st = slash # r0"
  proof -
    have "\<exists>r0. path True st = slash # r0" for st by (induction st) auto
    then show thesis using that by blast
  qed
  have c: "clean (slash # r) = path True st" by (simp add: clean_def st_def Let_def p [unfolded st_def])
  obtain y g' where g: "g @ 0 # t = y # g' @ t" "length g' = length g"
  proof (cases g)
    case (Cons x g1)
    then show thesis using that [of x "g1 @ [0]"] by simp
  qed (use that [of 0 "[]"] in simp)
  have "wr (length (path True st)) 0 (path True st @ g @ 0 # t) = Some (path True st @ 0 # g' @ t)" unfolding g(1) by simp
  then have "cleanname (slash # r @ 0 # t) = Some (path True st @ 0 # g' @ t)"
    using l(1) by (simp add: cleanname_def rd_def p Let_def)
  then show ?thesis using c l(2) g(2) by auto
qed

lemma nul_split:
  "\<exists>g'. g @ 0 # t = y # g' @ t \<and> length g' = length g" if "hd (g @ [0]) = y" for g :: bytes and t y
proof (cases g)
  case (Cons x g1)
  then show ?thesis using that by (intro exI [of _ "g1 @ [0]"]) simp
qed (use that in simp)

lemma cleanname_relative:
  assumes "0 \<notin> set s" "s \<noteq> []" "hd s \<noteq> slash"
  shows "\<exists>g. cleanname (s @ 0 # t) = Some (clean s @ 0 # g @ t) \<and> length (clean s) + length g = length s"
proof -
  define st where "st = fold (step False) (elems s) []"
  define r where "r = path False st"
  define er where "er \<longleftrightarrow> hd (elems s) = [dot] \<or> erases (elems s) []"
  obtain c s' where s: "s = c # s'" "c \<noteq> slash" "c \<noteq> 0" using assms by (cases s) auto
  obtain g where l: "clean_loop False 0 0 0 False (s @ 0 # t) = Some (length r, er, r @ g @ 0 # t)"
    "length r + length g = length s"
    using clean_loop_spec [OF stack_nil assms(1), of "[]" False False t] by (auto simp: st_def r_def er_def)
  have r0: "0 \<notin> set r" using clean_stack [OF assms(1), of False] path_no_nul unfolding r_def st_def by blast
  have cl: "clean s = (if r = [] then [dot] else if er \<and> hd r = hash then [dot, slash] @ r else r)"
  proof -
    have tk: "(take 1 s = [slash]) = False" using s by simp
    show ?thesis
      unfolding clean_def tk Let_def st_def [symmetric] r_def [symmetric] er_def [symmetric] by (cases r) auto
  qed
  have start: "cleanname (s @ 0 # t) = do {
     (q, m) \<leftarrow> (if length r = 0 then do { m \<leftarrow> wr (length r) dot (r @ g @ 0 # t); Some (length r + 1, m) } else Some (length r, r @ g @ 0 # t));
     m \<leftarrow> wr q 0 m;
     c \<leftarrow> rd m 0;
     if er \<and> c = hash then
       let n = length (takeWhile (\<lambda>b. b \<noteq> 0) m) + 1 in
       if n + 2 > length m then None
       else
         let m = take 2 m @ take n m @ drop (n + 2) m in
         Some (m[0 := dot, 1 := slash])
     else Some m
   }"
    using l(1) s by (simp add: cleanname_def rd_def)
  show ?thesis
  proof (cases "r = []")
    case True
    then obtain y g1 where g: "g = y # g1" using l(2) s(1) by (cases g) auto
    obtain z g2 where g2: "g1 @ 0 # t = z # g2 @ t" "length g2 = length g1" using nul_split by blast
    have w: "wr (Suc 0) 0 (dot # g1 @ 0 # t) = Some (dot # 0 # g2 @ t)" unfolding g2(1) by (simp add: wr_def)
    have "wr 0 dot (y # g1 @ 0 # t) = Some (dot # g1 @ 0 # t)" by (simp add: wr_def)
    then have "cleanname (s @ 0 # t) = Some ([dot] @ 0 # g2 @ t)"
      unfolding start using True g w by (simp add: rd_def)
    then show ?thesis using cl True l(2) g g2(2) by auto
  next
    case False
    obtain x r1 where r: "r = x # r1" using False by (cases r) auto
    obtain y g1 where g1: "g @ 0 # t = y # g1 @ t" "length g1 = length g" using nul_split by blast
    have w: "wr (length r) 0 (r @ g @ 0 # t) = Some (r @ 0 # g1 @ t)" unfolding g1(1) by simp
    show ?thesis
    proof (cases "er \<and> x = hash")
      case no: False
      then have "cleanname (s @ 0 # t) = Some (r @ 0 # g1 @ t)"
        unfolding start using w r by (simp add: rd_def)
      then show ?thesis using cl no r l(2) g1(2) by auto
    next
      case yes: True
      have two: "length r + 2 \<le> length s"
      proof -
        have "s \<noteq> [dot]"
        proof
          assume "s = [dot]"
          then have "st = []" using elems_elem(1) [of "[dot]"] by (simp add: st_def)
          then show False using r by (simp add: r_def)
        qed
        then obtain q where q: "st = fold (step False) (elems q) []" "length q + 2 \<le> length s" "set q \<subseteq> set s"
          using yes dot_restart [of s] erases_restart [of s "[]"] unfolding er_def st_def by blast
        have "0 \<notin> set q" using q(3) assms(1) by auto
        then have "length r \<le> length q" using clean_length_aux [of q] by (simp add: r_def q(1))
        then show ?thesis using q(2) by simp
      qed
      then have "2 \<le> length g1" using l(2) g1(2) by simp
      then obtain y1 y2 g2 where g2: "g1 = y1 # y2 # g2" by (cases g1; cases "tl g1") auto
      have n: "length (takeWhile (\<lambda>b. b \<noteq> 0) (r @ 0 # g1 @ t)) = length r" using takeWhile_nul [OF r0] by simp
      have "cleanname (s @ 0 # t) = Some (([dot, slash] @ r) @ 0 # g2 @ t)"
      proof -
        let ?m = "r @ 0 # g1 @ t"
        obtain u v w' where uvw: "?m = u # v # w'" using r g2 by (cases "r1 @ 0 # g1 @ t") auto
        have "take (length r + 1) ?m = r @ [0]" "drop (length r + 1 + 2) ?m = g2 @ t" by (simp_all add: g2)
        moreover have "take 2 ?m = [u, v]" unfolding uvw by simp
        ultimately have "(take 2 ?m @ take (length r + 1) ?m @ drop (length r + 1 + 2) ?m)[0 := dot, 1 := slash] = [dot, slash] @ r @ 0 # g2 @ t" by simp
        moreover have "rd ?m 0 = Some hash" using r yes by (simp add: rd_def)
        moreover have "\<not> length ?m < length r + 1 + 2" by (simp add: g2)
        ultimately show ?thesis unfolding start using w False yes n by (simp only: list.size if_False bind.bind_lunit option.simps length_0_conv Let_def if_True simp_thms prod.case) simp
      qed
      then show ?thesis using cl yes r l(2) g1(2) g2 by auto
    qed
  qed
qed

subsection \<open>What a path means\<close>

text \<open>Where a path leads, as the names from the root down, the last one first: \<open>..\<close> is one up, and the root's \<open>..\<close> the root.\<close>

definition walk :: "bytes \<Rightarrow> bytes list \<Rightarrow> bytes list" where
  "walk e cwd = (if e = [] \<or> e = [dot] then cwd else if e = dots then tl cwd else e # cwd)"

definition resolve :: "bytes list \<Rightarrow> bytes \<Rightarrow> bytes list" where
  "resolve cwd s = fold walk (elems s) (if take 1 s = [slash] then [] else cwd)"

lemma walk_step:
  "\<forall>e\<in>set st. e \<noteq> [] \<and> e \<noteq> [dot] \<Longrightarrow> b \<longrightarrow> cwd = [] \<Longrightarrow>
   fold walk (rev (step b e st)) cwd = walk e (fold walk (rev st) cwd)"
proof -
  assume st: "\<forall>e\<in>set st. e \<noteq> [] \<and> e \<noteq> [dot]" and b: "b \<longrightarrow> cwd = []"
  consider "e = [] \<or> e = [dot]" | "e = dots" | "e \<noteq> []" "e \<noteq> [dot]" "e \<noteq> dots" by blast
  then show ?thesis
  proof cases
    case 1
    then show ?thesis by (simp add: step_def walk_def)
  next
    case 2
    show ?thesis
    proof (cases st)
      case Nil
      then show ?thesis using 2 b by (simp add: step_def walk_def)
    next
      case (Cons x xs)
      then have "x \<noteq> []" "x \<noteq> [dot]" using st by simp_all
      then show ?thesis using 2 Cons by (simp add: step_def walk_def)
    qed
  qed (simp add: step_def walk_def)
qed

lemma step_elems: "\<forall>e\<in>set st. e \<noteq> [] \<and> e \<noteq> [dot] \<Longrightarrow> \<forall>e\<in>set (step b x st). e \<noteq> [] \<and> e \<noteq> [dot]"
  by (cases st) (simp_all add: step_def)

lemma walk_fold:
  "\<forall>e\<in>set st. e \<noteq> [] \<and> e \<noteq> [dot] \<Longrightarrow> b \<longrightarrow> cwd = [] \<Longrightarrow>
   fold walk (rev (fold (step b) es st)) cwd = fold walk es (fold walk (rev st) cwd)"
proof (induction es arbitrary: st)
  case (Cons e es)
  have "fold walk (rev (fold (step b) es (step b e st))) cwd = fold walk es (fold walk (rev (step b e st)) cwd)"
    by (rule Cons.IH [OF step_elems [OF Cons.prems(1)] Cons.prems(2)])
  then show ?case using walk_step [OF Cons.prems] by simp
qed simp

lemma elems_snoc: "slash \<notin> set e \<Longrightarrow> elems (a @ slash # e) = elems a @ [e]"
proof (induction "length a" arbitrary: a rule: less_induct)
  case less
  obtain x r where a: "a = x @ r" "slash \<notin> set x" "at_sep r" by (rule split_elem)
  from a(3) show ?case
  proof (rule at_sep_cases)
    assume "r = []"
    then show ?thesis using a less.prems by (simp add: elems_elem)
  next
    fix r1 assume r: "r = slash # r1"
    then have "elems (r1 @ slash # e) = elems r1 @ [e]" using less a(1) by simp
    then show ?thesis using a r by (simp add: elems_elem)
  qed
qed

lemma elems_path: "\<forall>e\<in>set st. elem e \<Longrightarrow> st \<noteq> [] \<Longrightarrow> elems (path b st) = (if b then [[]] else []) @ rev st"
proof (induction st)
  case (Cons e st)
  have e: "slash \<notin> set e" using Cons.prems(1) by (simp add: elem_def)
  show ?case
  proof (cases "st = []")
    case True
    then show ?thesis using elems_elem(1) [OF e] by simp
  next
    case False
    then show ?thesis using Cons elems_snoc [OF e, of "path b st"] by simp
  qed
qed simp

lemma walk_path: "\<forall>e\<in>set st. elem e \<Longrightarrow> fold walk (elems (path b st)) cwd = fold walk (rev st) cwd"
  by (cases "st = []") (simp_all add: elems_path walk_def)

lemma path_front:
  assumes "\<forall>e\<in>set st. elem e" shows "take 1 (path b st) = [slash] \<longleftrightarrow> b"
  using assms
proof (induction st)
  case (Cons e st)
  show ?case
  proof (cases "st = []")
    case True
    then show ?thesis using Cons.prems by (cases e) (auto simp: elem_def)
  next
    case False
    then have "path b st \<noteq> []" using path_root [of st b] Cons.prems by (cases st) auto
    then show ?thesis using Cons False by (cases "path b st") auto
  qed
qed simp

text \<open>The name that is made, without the cases of an empty path and of \<open>#\<close>.\<close>

lemma hash_front:
  "(if P \<and> Q \<and> take 1 (if r = [] then [dot] else r) = [hash] then [dot, slash] @ (if r = [] then [dot] else r) else if r = [] then [dot] else r) =
   (if r = [] then [dot] else if P \<and> Q \<and> take 1 r = [hash] then [dot, slash] @ r else r)"
  by (cases "r = []") simp_all

lemma clean_cases:
  assumes "0 \<notin> set s"
  defines "b \<equiv> take 1 s = [slash]"
  defines "st \<equiv> fold (step b) (elems s) []"
  obtains k where "stack b st k"
    "clean s = (if path b st = [] then [dot] else
       if \<not> b \<and> (hd (elems s) = [dot] \<or> erases (elems s) []) \<and> take 1 (path b st) = [hash] then [dot, slash] @ path b st else path b st)"
proof -
  obtain k where k: "stack b st k" using clean_stack [OF assms(1), of b] unfolding st_def by blast
  have "clean s = (if path b st = [] then [dot] else
       if \<not> b \<and> (hd (elems s) = [dot] \<or> erases (elems s) []) \<and> take 1 (path b st) = [hash] then [dot, slash] @ path b st else path b st)"
    unfolding clean_def b_def [symmetric] Let_def st_def [symmetric] by (rule hash_front)
  then show thesis using k that by blast
qed

lemma elems_dot_slash: "elems ([dot, slash] @ r) = [dot] # elems r"
  using elems_elem(2) [of "[dot]" r] by simp

lemma resolve_clean:
  assumes "0 \<notin> set s" shows "resolve cwd (clean s) = resolve cwd s"
proof -
  define b st where "b \<longleftrightarrow> take 1 s = [slash]" and "st = fold (step b) (elems s) []"
  obtain k where k: "stack b st k"
    "clean s = (if path b st = [] then [dot] else
       if \<not> b \<and> (hd (elems s) = [dot] \<or> erases (elems s) []) \<and> take 1 (path b st) = [hash] then [dot, slash] @ path b st else path b st)"
    using clean_cases [OF assms] unfolding b_def st_def by blast
  have el: "\<forall>e\<in>set st. elem e" using stack_elem [OF k(1)] by blast
  let ?c = "if b then [] else cwd"
  have "resolve cwd s = fold walk (elems s) ?c" by (simp add: resolve_def b_def)
  also have "\<dots> = fold walk (rev st) ?c" using walk_fold [of "[]" b ?c "elems s"] by (simp add: st_def)
  finally have rs: "resolve cwd s = fold walk (rev st) ?c" .
  have rp: "resolve cwd (path b st) = fold walk (rev st) ?c" using walk_path [OF el] path_front [OF el, of b] by (simp add: resolve_def)
  show ?thesis
  proof (cases "path b st = []")
    case True
    then have "\<not> b" using path_front [OF el, of b] by auto
    then have "st = []" using path_root [OF el, of b] True by simp
    then show ?thesis using k(2) rs \<open>\<not> b\<close> by (simp add: resolve_def elems_elem walk_def)
  next
    case False
    have "\<not> b \<Longrightarrow> resolve cwd ([dot, slash] @ path b st) = resolve cwd (path b st)"
      using path_front [OF el, of b] by (simp only: resolve_def elems_dot_slash) (simp add: walk_def)
    then show ?thesis using k(2) False rs rp by auto
  qed
qed

text \<open>Cleaning twice is cleaning once.\<close>

lemma fold_stack: "stack b st k \<Longrightarrow> fold (step b) (rev st) [] = st"
proof (induction st arbitrary: k)
  case (Cons e st)
  have "elem e" using stack_elem [OF Cons.prems] by simp
  then show ?case
  proof (cases "e = dots")
    case True
    then have r: "e # st = replicate k dots" using stack_top [OF Cons.prems] by auto
    then obtain k' where k: "k = Suc k'" "st = replicate k' dots" by (cases k) auto
    have "\<not> b" using Cons.prems k(1) by (auto simp: stack_def)
    then have "stack b st k'" using k by (auto simp: stack_def intro!: exI [of _ "[]"])
    then show ?thesis using Cons.IH True k \<open>\<not> b\<close> by (cases k') (auto simp: step_def)
  next
    case False
    then show ?thesis using Cons.IH [OF stack_pop [OF Cons.prems]] step_elem [OF \<open>elem e\<close>] by simp
  qed
qed simp

lemma erases_dots: "erases (replicate n dots @ es) (replicate k dots) = erases es (replicate (n + k) dots)"
proof (induction n arbitrary: k)
  case (Suc n)
  have "step False dots (replicate k dots) = replicate (Suc k) dots" by (cases k) (simp_all add: step_def)
  then show ?case using Suc [of "Suc k"] by simp
qed simp

lemma erases_none: "\<forall>e\<in>set es. elem e \<and> e \<noteq> dots \<Longrightarrow> \<not> erases es st"
  by (induction es arbitrary: st) auto

lemma erases_stack: "stack False st k \<Longrightarrow> \<not> erases (rev st) []"
proof -
  assume "stack False st k"
  then obtain xs where x: "st = xs @ replicate k dots" "dots \<notin> set xs" "\<forall>e\<in>set xs. elem e" by (auto simp: stack_def)
  have "\<not> erases (rev xs) (replicate (k + 0) dots)" by (rule erases_none) (use x(2,3) in auto)
  then show ?thesis using erases_dots [of k "rev xs" 0] x(1) by simp
qed

lemma path_not_dot: "\<forall>e\<in>set st. elem e \<Longrightarrow> path b st \<noteq> [dot]"
proof
  assume el: "\<forall>e\<in>set st. elem e" and d: "path b st = [dot]"
  then have "\<not> b" using path_front [OF el, of b] by auto
  then have "st \<noteq> []" using d by auto
  then have "rev st = elems [dot]" using elems_path [OF el, of b] d \<open>\<not> b\<close> by simp
  also have "\<dots> = [[dot]]" by (simp add: elems_elem)
  finally have "[dot] \<in> set (rev st)" by simp
  then have "[dot] \<in> set st" by simp
  then show False using el by (auto simp: elem_def)
qed

lemma clean_clean:
  assumes "0 \<notin> set s" shows "clean (clean s) = clean s"
proof -
  define b st where "b \<longleftrightarrow> take 1 s = [slash]" and "st = fold (step b) (elems s) []"
  obtain k where k: "stack b st k"
    "clean s = (if path b st = [] then [dot] else
       if \<not> b \<and> (hd (elems s) = [dot] \<or> erases (elems s) []) \<and> take 1 (path b st) = [hash] then [dot, slash] @ path b st else path b st)"
    using clean_cases [OF assms] unfolding b_def st_def by blast
  have el: "\<forall>e\<in>set st. elem e" using stack_elem [OF k(1)] by blast
  have d: "clean [dot] = [dot]" by (simp add: clean_def elems_elem)
  show ?thesis
  proof (cases "path b st = []")
    case False
    have f: "fold (step b) (elems (path b st)) [] = st"
    proof (cases "st = []")
      case True
      then have b using False by (cases b) auto
      then show ?thesis using True by simp
    next
      case ne: False
      have "fold (step b) (if b then [[]] else []) [] = []" by (cases b) simp_all
      then show ?thesis using fold_stack [OF k(1)] unfolding elems_path [OF el ne] by (simp only: fold_append comp_apply)
    qed
    have p: "clean (path b st) = path b st"
    proof (cases b)
      case True
      then show ?thesis using True f path_front [OF el, of b] False unfolding clean_def Let_def by simp
    next
      case nb: False
      then have "st \<noteq> []" using False by auto
      then have e: "elems (path b st) = rev st" using elems_path [OF el, of b] nb by simp
      have "hd (rev st) \<in> set st" using \<open>st \<noteq> []\<close> by (metis hd_in_set rev_is_Nil_conv set_rev)
      then have "hd (rev st) \<noteq> [dot]" using el by (auto simp: elem_def)
      moreover have "\<not> erases (rev st) []" using erases_stack k(1) nb by auto
      moreover have "take 1 (path b st) \<noteq> [slash]" using path_front [OF el, of b] nb by simp
      ultimately show ?thesis using nb f e False unfolding clean_def Let_def by simp
    qed
    show ?thesis
    proof (cases "\<not> b \<and> (hd (elems s) = [dot] \<or> erases (elems s) []) \<and> take 1 (path b st) = [hash]")
      case True
      have "clean ([dot, slash] @ path b st) = [dot, slash] @ path b st"
      proof -
        have nb: "b = False" using True by blast
        have h: "take 1 (path False st) = [hash]" using True unfolding nb by blast
        show ?thesis unfolding clean_def Let_def elems_dot_slash using h f False unfolding nb by simp
      qed
      moreover have "clean s = [dot, slash] @ path b st" using k(2) unfolding if_not_P [OF False] if_P [OF True] .
      ultimately show ?thesis by simp
    next
      case no: False
      have "clean s = path b st" using k(2) unfolding if_not_P [OF False] if_not_P [OF no] .
      then show ?thesis using p by simp
    qed
  qed (use k(2) d in simp)
qed

lemma cleanname_spec:
  assumes "0 \<notin> set s"
  shows "(s \<noteq> [] \<longrightarrow> (\<exists>g. cleanname (s @ 0 # t) = Some (clean s @ 0 # g @ t) \<and> length (clean s) + length g = length s)) \<and>
    (s = [] \<longrightarrow> cleanname (s @ 0 # t) = (if t = [] then None else Some (clean s @ 0 # tl t)))"
proof (intro conjI impI)
  assume "s \<noteq> []"
  then show "\<exists>g. cleanname (s @ 0 # t) = Some (clean s @ 0 # g @ t) \<and> length (clean s) + length g = length s"
    using cleanname_relative [OF assms] cleanname_rooted [of "tl s" t] assms by (cases s) auto
next
  assume s: "s = []"
  have c: "clean [] = [dot]" by (simp add: clean_def)
  have "clean_loop False 0 0 0 False (0 # t) = Some (0, False, 0 # t)" by (subst clean_loop.simps) (simp add: rd_def)
  then show "cleanname (s @ 0 # t) = (if t = [] then None else Some (clean s @ 0 # tl t))"
    using s c by (cases t) (simp_all add: cleanname_def rd_def wr_def)
qed

subsection \<open>Properties\<close>

text \<open>
  C32. The rewriting in place is right. For every name but the empty one, whatever
  follows it in memory, \<open>cleanname\<close> returns, stays inside the name, and leaves there the name that the elements give when they
  are put on a stack, a \<open>..\<close> taking the one before it off, with \<open>./\<close> in front of a name that began otherwise and now begins with \<open>#\<close>. The
  result is never longer than the name. An empty name becomes \<open>.\<close>, for which it must have a byte more.
\<close>

theorem cleanname_in_place:
  assumes "0 \<notin> set s"
  shows "(s \<noteq> [] \<longrightarrow> (\<exists>g. cleanname (s @ 0 # t) = Some (clean s @ 0 # g @ t) \<and> length (clean s) + length g = length s)) \<and>
    (s = [] \<longrightarrow> cleanname (s @ 0 # t) = (if t = [] then None else Some (clean s @ 0 # tl t)))"
  by (rule cleanname_spec [OF assms])

theorem cleanname_in_place_witness:
  "\<exists>g. cleanname ([dot, slash, slash, hash, 0x63] @ 0 # []) = Some (clean [dot, slash, slash, hash, 0x63] @ 0 # g)"
  using cleanname_in_place [of "[dot, slash, slash, hash, 0x63]" "[]"] by auto

text \<open>
  C28. The clean name leads where the name led, from any directory, when \<open>..\<close> of the root is the root and no other name is
  an alias, and cleaning it again changes nothing.
\<close>

theorem cleanname_meaning:
  assumes "0 \<notin> set s" "cleanname (s @ 0 # t) = Some m" "r = takeWhile (\<lambda>b. b \<noteq> 0) m"
  shows "resolve cwd r = resolve cwd s \<and> clean r = r \<and> 0 \<notin> set r"
proof -
  obtain m' where "m = clean s @ 0 # m'"
    using cleanname_spec [OF assms(1), of t] assms(2) by (cases "s = []") (auto split: if_splits)
  moreover have "0 \<notin> set (clean s)"
  proof -
    obtain k where "stack (take 1 s = [slash]) (fold (step (take 1 s = [slash])) (elems s) []) k"
      "clean s = (if path (take 1 s = [slash]) (fold (step (take 1 s = [slash])) (elems s) []) = [] then [dot] else
         if \<not> (take 1 s = [slash]) \<and> (hd (elems s) = [dot] \<or> erases (elems s) []) \<and>
           take 1 (path (take 1 s = [slash]) (fold (step (take 1 s = [slash])) (elems s) [])) = [hash]
         then [dot, slash] @ path (take 1 s = [slash]) (fold (step (take 1 s = [slash])) (elems s) [])
         else path (take 1 s = [slash]) (fold (step (take 1 s = [slash])) (elems s) []))"
      by (rule clean_cases [OF assms(1)])
    then show ?thesis using path_no_nul by (auto split: if_splits)
  qed
  ultimately have "r = clean s" using assms(3) takeWhile_nul by blast
  then show ?thesis using resolve_clean [OF assms(1)] clean_clean [OF assms(1)] \<open>0 \<notin> set (clean s)\<close> by simp
qed

theorem cleanname_meaning_witness:
  "\<exists>m. cleanname ([0x61, slash, dot, dot, slash, hash, 0x62] @ 0 # []) = Some m \<and>
    resolve [[0x63]] (takeWhile (\<lambda>b. b \<noteq> 0) m) = resolve [[0x63]] [0x61, slash, dot, dot, slash, hash, 0x62]"
proof -
  let ?s = "[0x61, slash, dot, dot, slash, hash, 0x62]"
  obtain g where m: "cleanname (?s @ 0 # []) = Some (clean ?s @ 0 # g @ [])" using cleanname_relative [of ?s "[]"] by auto
  show ?thesis using cleanname_meaning [OF _ m refl, of "[[0x63]]"] m by auto
qed

end
