(* ===== verification/Iphash.thy ===== *)
theory Iphash
  imports Netbytes
begin

text \<open>
  Which conversation a packet is for: the table of the conversations of a transport protocol, hashed by
  addresses and ports (\<open>ip/ipaux.c\<close>). A conversation is a number, and \<open>cs\<close> says what its \<open>Conv\<close> holds;
  the table has a list of entries for each hash value, the latest first.
\<close>

subsection \<open>The code\<close>

definition Nhash :: u32 where "Nhash = 64"
definition Nipht :: nat where "Nipht = 521"

datatype ipmatch = IPmatchexact | IPmatchany | IPmatchport | IPmatchaddr | IPmatchpa

record conv =
  laddr :: bytes
  raddr :: bytes
  lport :: u16
  rport :: u16

type_synonym convs = "nat \<Rightarrow> conv"
type_synonym ipht = "nat \<Rightarrow> (ipmatch \<times> nat) list"

definition iphash :: "bytes \<Rightarrow> u16 \<Rightarrow> bytes \<Rightarrow> u16 \<Rightarrow> u32" where
  "iphash sa sp da dp =
     (push_bit 24 (ucast (sa ! 15)) XOR push_bit 16 (ucast sp) XOR push_bit 8 (ucast (da ! 15)) XOR ucast dp) mod Nhash"

definition iphtadd :: "convs \<Rightarrow> nat \<Rightarrow> ipht \<Rightarrow> ipht" where
  "iphtadd cs c ht =
     (let hv = unat (iphash (raddr (cs c)) (rport (cs c)) (laddr (cs c)) (lport (cs c)));
          match = (if raddr (cs c) \<noteq> IPnoaddr then IPmatchexact
            else if laddr (cs c) \<noteq> IPnoaddr then (if lport (cs c) = 0 then IPmatchaddr else IPmatchpa)
            else (if lport (cs c) = 0 then IPmatchany else IPmatchport)) in
      ht(hv := (match, c) # ht hv))"

fun unchain :: "nat \<Rightarrow> (ipmatch \<times> nat) list \<Rightarrow> (ipmatch \<times> nat) list" where
  "unchain c [] = []"
| "unchain c (h # l) = (if snd h = c then l else h # unchain c l)"

definition iphtrem :: "convs \<Rightarrow> nat \<Rightarrow> ipht \<Rightarrow> ipht" where
  "iphtrem cs c ht =
     (let hv = unat (iphash (raddr (cs c)) (rport (cs c)) (laddr (cs c)) (lport (cs c))) in
      ht(hv := unchain c (ht hv)))"

text \<open>One of the loops of \<open>iphtlook\<close>: the first entry of a list with the match, whose conversation passes the test.\<close>

fun scan :: "convs \<Rightarrow> ipmatch \<Rightarrow> (conv \<Rightarrow> bool) \<Rightarrow> (ipmatch \<times> nat) list \<Rightarrow> nat option" where
  "scan cs match test [] = None"
| "scan cs match test (h # l) = (if fst h = match \<and> test (cs (snd h)) then Some (snd h) else scan cs match test l)"

definition iphtlook :: "convs \<Rightarrow> ipht \<Rightarrow> bytes \<Rightarrow> u16 \<Rightarrow> bytes \<Rightarrow> u16 \<Rightarrow> nat option" where
  "iphtlook cs ht sa sp da dp =
     (case scan cs IPmatchexact (\<lambda>c. sp = rport c \<and> dp = lport c \<and> sa = raddr c \<and> da = laddr c) (ht (unat (iphash sa sp da dp))) of
        Some c \<Rightarrow> Some c
      | None \<Rightarrow>
      case scan cs IPmatchpa (\<lambda>c. dp = lport c \<and> da = laddr c) (ht (unat (iphash IPnoaddr 0 da dp))) of
        Some c \<Rightarrow> Some c
      | None \<Rightarrow>
      case scan cs IPmatchport (\<lambda>c. dp = lport c) (ht (unat (iphash IPnoaddr 0 IPnoaddr dp))) of
        Some c \<Rightarrow> Some c
      | None \<Rightarrow>
      case scan cs IPmatchaddr (\<lambda>c. da = laddr c) (ht (unat (iphash IPnoaddr 0 da 0))) of
        Some c \<Rightarrow> Some c
      | None \<Rightarrow> scan cs IPmatchany (\<lambda>c. True) (ht (unat (iphash IPnoaddr 0 IPnoaddr 0))))"

subsection \<open>The hash\<close>

text \<open>All but the local port is shifted out of the part that \<open>% Nhash\<close> keeps.\<close>

lemma iphash_port: "unat (iphash sa sp da dp) = unat dp mod 64"
proof -
  have m: "w mod 64 = take_bit 6 w" for w :: u32 by (simp add: take_bit_eq_mod)
  have "iphash sa sp da dp = take_bit 6 (ucast dp)"
    unfolding iphash_def Nhash_def m by (rule bit_word_eqI) (auto simp: bit_simps)
  then show ?thesis by (simp add: unsigned_take_bit_eq) (simp add: take_bit_eq_mod)
qed

lemma iphash_in_table: "unat (iphash sa sp da dp) < Nipht"
  using mod_less_divisor [of 64 "unat dp"] by (simp add: iphash_port Nipht_def)

subsection \<open>The table is the list of the conversations\<close>

definition match_of :: "conv \<Rightarrow> ipmatch" where
  "match_of c = (if raddr c \<noteq> IPnoaddr then IPmatchexact
     else if laddr c \<noteq> IPnoaddr then (if lport c = 0 then IPmatchaddr else IPmatchpa)
     else (if lport c = 0 then IPmatchany else IPmatchport))"

definition holds :: "convs \<Rightarrow> ipht \<Rightarrow> nat list \<Rightarrow> bool" where
  "holds cs ht R \<longleftrightarrow>
     ht = (\<lambda>hv. map (\<lambda>c. (match_of (cs c), c)) (filter (\<lambda>c. unat (lport (cs c)) mod 64 = hv) R))"

lemma holds_empty: "holds cs (\<lambda>_. []) []"
  by (simp add: holds_def)

lemma holds_add: "holds cs ht R \<Longrightarrow> holds cs (iphtadd cs c ht) (c # R)"
  by (rule ext [THEN holds_def [THEN iffD2]]) (auto simp: holds_def iphtadd_def iphash_port match_of_def Let_def)

lemma unchain_map: "unchain c (map (\<lambda>c. (f c, c)) l) = map (\<lambda>c. (f c, c)) (remove1 c l)"
  by (induction l) auto

lemma filter_remove1: "filter P (remove1 c l) = (if P c then remove1 c (filter P l) else filter P l)"
  by (induction l) (auto simp: remove1_idem)

lemma holds_rem: "holds cs ht R \<Longrightarrow> holds cs (iphtrem cs c ht) (remove1 c R)"
  by (auto simp: holds_def iphtrem_def iphash_port Let_def unchain_map filter_remove1 fun_eq_iff)

lemma scan_map:
  "scan cs match test (map (\<lambda>c. (match_of (cs c), c)) l) = find (\<lambda>c. match_of (cs c) = match \<and> test (cs c)) l"
  by (induction l) auto

lemma find_filter: "(\<And>c. P c \<Longrightarrow> Q c) \<Longrightarrow> find P (filter Q l) = find P l"
  by (induction l) auto

lemma scan_bucket:
  assumes "holds cs ht R" "\<And>c. match_of c = match \<Longrightarrow> test c \<Longrightarrow> unat (lport c) mod 64 = unat port mod 64"
  shows "scan cs match test (ht (unat (iphash sa sp da port))) = find (\<lambda>c. match_of (cs c) = match \<and> test (cs c)) R"
proof -
  have h: "ht hv = map (\<lambda>c. (match_of (cs c), c)) (filter (\<lambda>c. unat (lport (cs c)) mod 64 = hv) R)" for hv
    using assms(1) by (simp add: holds_def)
  show ?thesis unfolding iphash_port h scan_map by (rule find_filter) (use assms(2) in blast)
qed

subsection \<open>Precedence\<close>

text \<open>How well a conversation suits a packet: 0 for the connection itself, then as in the comment of \<open>iphtlook\<close>.\<close>

definition rank :: "conv \<Rightarrow> bytes \<Rightarrow> u16 \<Rightarrow> bytes \<Rightarrow> u16 \<Rightarrow> nat option" where
  "rank c sa sp da dp =
     (if raddr c \<noteq> IPnoaddr then
        (if (raddr c, rport c, laddr c, lport c) = (sa, sp, da, dp) then Some 0 else None)
      else if laddr c = da \<and> da \<noteq> IPnoaddr \<and> lport c = dp \<and> dp \<noteq> 0 then Some 1
      else if laddr c = IPnoaddr \<and> lport c = dp \<and> dp \<noteq> 0 then Some 2
      else if laddr c = da \<and> da \<noteq> IPnoaddr \<and> lport c = 0 then Some 3
      else if laddr c = IPnoaddr \<and> lport c = 0 then Some 4
      else None)"

definition best :: "convs \<Rightarrow> nat list \<Rightarrow> bytes \<Rightarrow> u16 \<Rightarrow> bytes \<Rightarrow> u16 \<Rightarrow> nat \<Rightarrow> bool" where
  "best cs R sa sp da dp c \<longleftrightarrow> (\<exists>n. find (\<lambda>c. rank (cs c) sa sp da dp = Some n) R = Some c \<and>
     (\<forall>d\<in>set R. \<forall>k. rank (cs d) sa sp da dp = Some k \<longrightarrow> n \<le> k))"

lemma rank_scan:
  "match_of c = IPmatchexact \<and> (sp = rport c \<and> dp = lport c \<and> sa = raddr c \<and> da = laddr c) \<longleftrightarrow> rank c sa sp da dp = Some 0"
  "match_of c = IPmatchpa \<and> (dp = lport c \<and> da = laddr c) \<longleftrightarrow> rank c sa sp da dp = Some 1"
  "match_of c = IPmatchport \<and> dp = lport c \<longleftrightarrow> rank c sa sp da dp = Some 2"
  "match_of c = IPmatchaddr \<and> da = laddr c \<longleftrightarrow> rank c sa sp da dp = Some 3"
  "match_of c = IPmatchany \<longleftrightarrow> rank c sa sp da dp = Some 4"
  by (auto simp: match_of_def rank_def)

lemma rank_less: "rank c sa sp da dp = Some k \<Longrightarrow> k < 5"
  by (auto simp: rank_def split: if_splits)

text \<open>The five loops are one search by rank.\<close>

definition ranked :: "convs \<Rightarrow> nat list \<Rightarrow> bytes \<Rightarrow> u16 \<Rightarrow> bytes \<Rightarrow> u16 \<Rightarrow> nat \<Rightarrow> nat option" where
  "ranked cs R sa sp da dp n = find (\<lambda>c. rank (cs c) sa sp da dp = Some n) R"

lemma iphtlook_ranked:
  assumes "holds cs ht R"
  shows "iphtlook cs ht sa sp da dp = List.find (\<lambda>_. True) (List.map_filter (ranked cs R sa sp da dp) [0, 1, 2, 3, 4])"
proof -
  note b = scan_bucket [OF assms]
  have "scan cs IPmatchexact (\<lambda>c. sp = rport c \<and> dp = lport c \<and> sa = raddr c \<and> da = laddr c) (ht (unat (iphash sa sp da dp))) = ranked cs R sa sp da dp 0"
    unfolding ranked_def rank_scan(1) [symmetric] by (rule b) simp
  moreover have "scan cs IPmatchpa (\<lambda>c. dp = lport c \<and> da = laddr c) (ht (unat (iphash IPnoaddr 0 da dp))) = ranked cs R sa sp da dp 1"
    unfolding ranked_def rank_scan(2) [symmetric] by (rule b) simp
  moreover have "scan cs IPmatchport (\<lambda>c. dp = lport c) (ht (unat (iphash IPnoaddr 0 IPnoaddr dp))) = ranked cs R sa sp da dp 2"
    unfolding ranked_def rank_scan(3) [symmetric] by (rule b) simp
  moreover have "scan cs IPmatchaddr (\<lambda>c. da = laddr c) (ht (unat (iphash IPnoaddr 0 da 0))) = ranked cs R sa sp da dp 3"
    unfolding ranked_def rank_scan(4) [symmetric] by (rule b) (simp add: match_of_def split: if_splits)
  moreover have "scan cs IPmatchany (\<lambda>c. True) (ht (unat (iphash IPnoaddr 0 IPnoaddr 0))) = ranked cs R sa sp da dp 4"
    unfolding ranked_def rank_scan(5) [symmetric] by (subst b [of IPmatchany]) (auto simp: match_of_def split: if_splits)
  ultimately show ?thesis
    by (simp add: iphtlook_def List.map_filter_def split: option.split)
qed

lemma ranked_Some: "ranked cs R sa sp da dp n = Some c \<Longrightarrow> c \<in> set R \<and> rank (cs c) sa sp da dp = Some n"
  by (auto simp: ranked_def find_Some_iff)

lemma ranked_None: "ranked cs R sa sp da dp n = None \<longleftrightarrow> (\<forall>c\<in>set R. rank (cs c) sa sp da dp \<noteq> Some n)"
  by (auto simp: ranked_def find_None_iff)

lemma best_ranked: "ranked cs R sa sp da dp n = Some c \<Longrightarrow> \<forall>k<n. ranked cs R sa sp da dp k = None \<Longrightarrow> best cs R sa sp da dp c"
  unfolding best_def ranked_None by (metis leI ranked_def)

lemma iphtlook_best:
  assumes "holds cs ht R"
  shows "case iphtlook cs ht sa sp da dp of
      None \<Rightarrow> \<forall>c\<in>set R. rank (cs c) sa sp da dp = None
    | Some c \<Rightarrow> best cs R sa sp da dp c"
proof (cases "\<exists>n. ranked cs R sa sp da dp n \<noteq> None")
  case True
  define n where "n = (LEAST n. ranked cs R sa sp da dp n \<noteq> None)"
  have n: "ranked cs R sa sp da dp n \<noteq> None" unfolding n_def using True by (rule LeastI_ex)
  have l: "k < n \<Longrightarrow> ranked cs R sa sp da dp k = None" for k unfolding n_def using not_less_Least by blast
  obtain c where c: "ranked cs R sa sp da dp n = Some c" using n by blast
  have "n < 5" using ranked_Some [OF c] rank_less by blast
  then have "n \<in> {0, 1, 2, 3, 4}" by auto
  then have "iphtlook cs ht sa sp da dp = Some c"
    unfolding iphtlook_ranked [OF assms] using c l by (auto simp: List.map_filter_def)
  then show ?thesis using best_ranked [OF c] l by simp
next
  case False
  then have "iphtlook cs ht sa sp da dp = None" unfolding iphtlook_ranked [OF assms] by (simp add: List.map_filter_def)
  moreover have "rank (cs c) sa sp da dp = None" if "c \<in> set R" for c
    using False that ranked_None [of cs R] by (cases "rank (cs c) sa sp da dp") auto
  ultimately show ?thesis by simp
qed

subsection \<open>Properties\<close>

datatype ipht_op = Add nat | Rem nat

fun do_op :: "convs \<Rightarrow> ipht_op \<Rightarrow> ipht \<Rightarrow> ipht" where
  "do_op cs (Add c) ht = iphtadd cs c ht"
| "do_op cs (Rem c) ht = iphtrem cs c ht"

fun reg_op :: "ipht_op \<Rightarrow> nat list \<Rightarrow> nat list" where
  "reg_op (Add c) R = c # R"
| "reg_op (Rem c) R = remove1 c R"

lemma holds_ops: "holds cs ht R \<Longrightarrow> holds cs (fold (do_op cs) ops ht) (fold reg_op ops R)"
proof (induction ops arbitrary: ht R)
  case (Cons a ops)
  then show ?case by (cases a) (simp_all add: holds_add holds_rem)
qed simp

text \<open>
  C18. The table demultiplexes by the precedence that is promised. After conversations were added and removed in any
  order, \<open>iphtlook\<close> gives a packet to the latest of those that suit it best of all that are registered then: to the connection,
  else to who announced address and port, else the port, else the address, else anything; and to nobody only when none of
  them suits it. A conversation is found although it hashes with more fields than a lookup has: the
  hash keeps six bits of the local port and nothing else.
\<close>

theorem iphtlook_precedence:
  "(case iphtlook cs (fold (do_op cs) ops (\<lambda>_. [])) sa sp da dp of
      None \<Rightarrow> \<forall>c\<in>set (fold reg_op ops []). rank (cs c) sa sp da dp = None
    | Some c \<Rightarrow> c \<in> set (fold reg_op ops []) \<and> best cs (fold reg_op ops []) sa sp da dp c) \<and>
   unat (iphash sa sp da dp) = unat dp mod 64 \<and> unat (iphash sa sp da dp) < Nipht"
proof -
  have h: "holds cs (fold (do_op cs) ops (\<lambda>_. [])) (fold reg_op ops [])" by (rule holds_ops [OF holds_empty])
  have "best cs R sa sp da dp c \<Longrightarrow> c \<in> set R" for c R by (auto simp: best_def find_Some_iff)
  then show ?thesis using iphtlook_best [OF h, of sa sp da dp] iphash_port iphash_in_table by (simp split: option.splits)
qed

theorem iphtlook_precedence_witness:
  "let cs = (\<lambda>c. if c = 0 then \<lparr>laddr = IPnoaddr, raddr = IPnoaddr, lport = 80, rport = 0\<rparr>
      else \<lparr>laddr = replicate 16 1, raddr = replicate 16 2, lport = 80, rport = 9\<rparr>);
      ht = fold (do_op cs) [Add 0, Add 1, Add 2, Rem 2] (\<lambda>_. []) in
   iphtlook cs ht (replicate 16 2) 9 (replicate 16 1) 80 \<noteq> None"
proof -
  let ?cs = "\<lambda>c. if c = 0 then \<lparr>laddr = IPnoaddr, raddr = IPnoaddr, lport = 80, rport = 0\<rparr>
      else \<lparr>laddr = replicate 16 1, raddr = replicate 16 2, lport = 80, rport = 9\<rparr> :: conv"
  let ?ops = "[Add 0, Add 1, Add 2, Rem 2]"
  have "rank (?cs 0) (replicate 16 2) 9 (replicate 16 1) 80 = Some 2" by (simp add: rank_def)
  moreover have "0 \<in> set (fold reg_op ?ops [])" by simp
  ultimately have "\<not> (\<forall>c\<in>set (fold reg_op ?ops []). rank (?cs c) (replicate 16 2) 9 (replicate 16 1) 80 = None)" by force
  then show ?thesis
    using iphtlook_precedence [where cs = ?cs and ops = ?ops and sa = "replicate 16 2" and sp = 9 and da = "replicate 16 1" and dp = 80] unfolding Let_def by fastforce
qed

end
