(* ===== verification/Physalloc.thy ===== *)
theory Physalloc
  imports Nix_Prelude Asm "HOL-Library.Multiset"
begin

text \<open>
  The buddy allocator of physical memory (\<open>k10/physalloc.c\<close>), one for each affinity domain. A block is
  named by its address divided by the smallest size; 0 is no block. The buddies are an array from which
  the blocks below the start of the memory are left out, and each size has a doubly linked list of its
  free blocks. An access outside an array, a division by zero, a failed assertion and a panic are \<^term>\<open>None\<close>.
\<close>

subsection \<open>The data\<close>

definition BKmin :: nat where "BKmin = 21"
definition BKmax :: nat where "BKmax = 30"
definition Ndoms :: nat where "Ndoms = 16"

datatype btag = Used | Avail

record buddy =
  b_tag :: btag
  b_kval :: nat
  b_next :: u32
  b_prev :: u32
  b_p :: "nat option"

record bal =
  b_base :: u64
  b_size :: u64
  b_nfree :: u64
  b_nblocks :: u64
  b_kmin :: nat
  b_kmax :: nat
  b_bminsz :: u64
  b_memory :: u64
  b_kspan :: nat
  b_blocks :: "buddy list"
  b_avail :: "u32 list"

definition INDEX :: "bal \<Rightarrow> u64 \<Rightarrow> u32" where
  "INDEX b v = ucast (v div b_bminsz b)"

definition BLOCK :: "bal \<Rightarrow> u32 \<Rightarrow> u32" where
  "BLOCK b i = i - INDEX b (b_memory b)"

definition ISPOWEROF2 :: "u64 \<Rightarrow> bool" where
  "ISPOWEROF2 x \<longleftrightarrow> x \<noteq> 0 \<and> x AND (x - 1) = 0"

text \<open>Reading and changing one buddy of the array, and the first of a list.\<close>

definition at :: "bal \<Rightarrow> int \<Rightarrow> buddy option" where
  "at b n = (if 0 \<le> n \<and> n < int (length (b_blocks b)) then Some (b_blocks b ! nat n) else None)"

definition upd :: "int \<Rightarrow> (buddy \<Rightarrow> buddy) \<Rightarrow> bal \<Rightarrow> bal option" where
  "upd n f b = (if 0 \<le> n \<and> n < int (length (b_blocks b)) then Some (b\<lparr>b_blocks := (b_blocks b)[nat n := f (b_blocks b ! nat n)]\<rparr>) else None)"

definition avail :: "bal \<Rightarrow> nat \<Rightarrow> u32 option" where
  "avail b k = (if k < length (b_avail b) then Some (b_avail b ! k) else None)"

definition set_avail :: "nat \<Rightarrow> u32 \<Rightarrow> bal \<Rightarrow> bal option" where
  "set_avail k i b = (if k < length (b_avail b) then Some (b\<lparr>b_avail := (b_avail b)[k := i]\<rparr>) else None)"

text \<open>\<open>(1<<k)/b->bminsz\<close>\<close>

definition units :: "bal \<Rightarrow> nat \<Rightarrow> nat" where
  "units b k = 2 ^ k div unat (b_bminsz b)"

subsection \<open>Liberation\<close>

definition put_on_list :: "u32 \<Rightarrow> u64 \<Rightarrow> bal \<Rightarrow> bal option" where
  "put_on_list i sz b = do {
     let li = uint (BLOCK b i);
     l \<leftarrow> at b li;
     nx \<leftarrow> avail b (b_kval l);
     b \<leftarrow> upd li (\<lambda>l. l\<lparr>b_tag := Avail, b_next := nx, b_prev := 0\<rparr>) b;
     b \<leftarrow> (if nx \<noteq> 0 then upd (uint (BLOCK b nx)) (\<lambda>x. x\<lparr>b_prev := i\<rparr>) b else Some b);
     b \<leftarrow> set_avail (b_kval l) i b;
     Some (b\<lparr>b_nfree := b_nfree b + sz div b_bminsz b\<rparr>)
   }"

definition take_off_list :: "int \<Rightarrow> bal \<Rightarrow> bal option" where
  "take_off_list pi b = do {
     p \<leftarrow> at b pi;
     b \<leftarrow> (if b_prev p \<noteq> 0 then do {
           b \<leftarrow> upd (uint (BLOCK b (b_prev p))) (\<lambda>x. x\<lparr>b_next := b_next p\<rparr>) b;
           upd pi (\<lambda>p. p\<lparr>b_prev := 0\<rparr>) b
         }
         else set_avail (b_kval p) 0 b);
     p \<leftarrow> at b pi;
     b \<leftarrow> (if b_next p \<noteq> 0 then do {
           b \<leftarrow> upd (uint (BLOCK b (b_next p))) (\<lambda>x. x\<lparr>b_prev := b_prev p\<rparr>) b;
           upd pi (\<lambda>p. p\<lparr>b_next := 0\<rparr>) b
         }
         else Some b);
     upd pi (\<lambda>p. p\<lparr>b_tag := Used\<rparr>) b
   }"

definition buddy_of :: "int \<Rightarrow> nat \<Rightarrow> int" where
  "buddy_of li n = (if odd (nat li div n) then li - int n else li + int n)"

partial_function (option) liberate :: "u32 \<Rightarrow> u64 \<Rightarrow> bal \<Rightarrow> bal option" where
  "liberate i sz b = do {
     let li = uint (BLOCK b i);
     b \<leftarrow> upd li (\<lambda>l. l\<lparr>b_p := None\<rparr>) b;
     l \<leftarrow> at b li;
     if 31 \<le> b_kval l \<or> units b (b_kval l) = 0 then None
     else do {
       let pi = buddy_of li (units b (b_kval l));
       if b_kval l = b_kmax b then put_on_list i sz b
       else do {
         p \<leftarrow> at b pi;
         if b_tag p = Used \<or> b_tag p = Avail \<and> b_kval p \<noteq> b_kval l then put_on_list i sz b
         else do {
           b \<leftarrow> take_off_list pi b;
           b \<leftarrow> upd (min pi li) (\<lambda>l. l\<lparr>b_kval := b_kval l + 1\<rparr>) b;
           liberate (word_of_int (min pi li) + INDEX b (b_memory b)) sz b
         }
       }
     }
   }"

definition xphysfree :: "u64 \<Rightarrow> u64 \<Rightarrow> bal \<Rightarrow> bal option" where
  "xphysfree data sz b = (if data = 0 then Some b else liberate (INDEX b data) sz b)"

definition xphystag :: "u64 \<Rightarrow> bal \<Rightarrow> nat option option" where
  "xphystag data b = (if data = 0 then Some None else map_option b_p (at b (uint (BLOCK b (INDEX b data)))))"

subsection \<open>Reservation\<close>

definition lg2table :: "nat list" where
  "lg2table = replicate 2 0 @ replicate 2 1 @ replicate 4 2 @ replicate 8 3 @ replicate 16 4 @ replicate 32 5 @
     replicate 64 6 @ replicate 128 7"

definition lg2floor :: "u64 \<Rightarrow> nat" where
  "lg2floor w =
     (let lo = drop_bit 48 w in
      if lo \<noteq> 0 then
        (let hi = drop_bit 8 lo in if hi \<noteq> 0 then 56 + lg2table ! unat hi else 48 + lg2table ! unat lo)
      else
        let lo = drop_bit 32 w in
        if lo \<noteq> 0 then
          (let hi = drop_bit 8 lo in if hi \<noteq> 0 then 40 + lg2table ! unat hi else 32 + lg2table ! unat lo)
        else
          let lo = drop_bit 16 w in
          if lo \<noteq> 0 then
            (let hi = drop_bit 8 lo in if hi \<noteq> 0 then 24 + lg2table ! unat hi else 16 + lg2table ! unat lo)
          else
            let hi = drop_bit 8 w in
            if hi \<noteq> 0 then 8 + lg2table ! unat hi else lg2table ! unat w)"

text \<open>The first order from \<open>j\<close> on that has a free block.\<close>

fun find_order :: "bal \<Rightarrow> nat \<Rightarrow> nat \<Rightarrow> nat option" where
  "find_order b j 0 = None"
| "find_order b j (Suc n) = (if avail b j \<noteq> Some 0 then Some j else find_order b (j + 1) n)"

fun split_blocks :: "u32 \<Rightarrow> nat \<Rightarrow> nat \<Rightarrow> bal \<Rightarrow> bal option" where
  "split_blocks i k 0 b = Some b"
| "split_blocks i k (Suc j) b =
     (if Suc j > k then do {
        let pn = i + of_nat (units b j);
        nx \<leftarrow> avail b j;
        b \<leftarrow> upd (uint (BLOCK b i) + int (units b j)) (\<lambda>p. p\<lparr>b_tag := Avail, b_kval := j, b_next := nx, b_prev := 0\<rparr>) b;
        b \<leftarrow> (if nx \<noteq> 0 then upd (uint (BLOCK b nx)) (\<lambda>x. x\<lparr>b_prev := pn\<rparr>) b else Some b);
        b \<leftarrow> set_avail j pn b;
        split_blocks i k j b
      }
      else Some b)"

text \<open>The address, 0 when there is no block of that size.\<close>

definition xphysalloc :: "u64 \<Rightarrow> nat option \<Rightarrow> bal \<Rightarrow> (u64 \<times> bal) option" where
  "xphysalloc sz tag b =
     (if b_size b = 0 then None
      else let sz = (if sz < b_bminsz b then b_bminsz b else sz) in
        if \<not> ISPOWEROF2 sz then Some (0, b)
        else let k = lg2floor sz in
          case find_order b k (b_kmax b + 1 - k) of None \<Rightarrow> Some (0, b)
          | Some j \<Rightarrow> do {
              i \<leftarrow> avail b j;
              let li = uint (BLOCK b i);
              l \<leftarrow> at b li;
              b \<leftarrow> set_avail j (b_next l) b;
              b \<leftarrow> upd (uint (b_next l)) (\<lambda>x. x\<lparr>b_prev := 0\<rparr>) b;
              b \<leftarrow> upd li (\<lambda>l. l\<lparr>b_prev := 0, b_next := 0, b_tag := Used, b_kval := k\<rparr>) b;
              b \<leftarrow> split_blocks i k j b;
              let b = b\<lparr>b_nfree := b_nfree b - sz div b_bminsz b\<rparr>;
              let m = b_memory b + b_bminsz b * ucast (BLOCK b i);
              if \<not> (b_base b \<le> m \<and> m < b_base b + b_size b) then None
              else do {
                b \<leftarrow> upd li (\<lambda>l. l\<lparr>b_p := tag\<rparr>) b;
                Some (m, b)
              }
            })"

subsection \<open>The domains\<close>

record pmem =
  balt :: "bal list"
  ndoms :: int

text \<open>The first domain the address lies in.\<close>

fun find_dom :: "u64 \<Rightarrow> nat \<Rightarrow> bal list \<Rightarrow> nat option" where
  "find_dom data i [] = None"
| "find_dom data i (b # bs) = (if b_base b \<le> data \<and> data < b_base b + b_size b then Some i else find_dom data (i + 1) bs)"

definition physfree :: "u64 \<Rightarrow> u64 \<Rightarrow> pmem \<Rightarrow> pmem option" where
  "physfree data sz s = do {
     i \<leftarrow> find_dom data 0 (balt s);
     b \<leftarrow> xphysfree data sz (balt s ! i);
     Some (s\<lparr>balt := (balt s)[i := b]\<rparr>)
   }"

definition phystag :: "u64 \<Rightarrow> pmem \<Rightarrow> nat option option" where
  "phystag data s = (case find_dom data 0 (balt s) of None \<Rightarrow> Some None | Some i \<Rightarrow> xphystag data (balt s ! i))"

text \<open>One attempt in domain \<open>i\<close>.\<close>

definition alloc_in :: "nat \<Rightarrow> u64 \<Rightarrow> nat option \<Rightarrow> pmem \<Rightarrow> (u64 \<times> pmem) option" where
  "alloc_in i sz tag s =
     (if length (balt s) \<le> i then None
      else if b_kmin (balt s ! i) = 0 then Some (0, s)
      else do {
        (m, b) \<leftarrow> xphysalloc sz tag (balt s ! i);
        Some (m, s\<lparr>balt := (balt s)[i := b]\<rparr>)
      })"

fun alloc_any :: "nat \<Rightarrow> nat \<Rightarrow> u64 \<Rightarrow> nat option \<Rightarrow> int \<Rightarrow> pmem \<Rightarrow> (u64 \<times> int \<times> pmem) option" where
  "alloc_any i 0 sz tag color s = Some (0, color, s)"
| "alloc_any i (Suc n) sz tag color s = do {
     (m, s) \<leftarrow> alloc_in i sz tag s;
     if m \<noteq> 0 then Some (m, int i, s) else alloc_any (i + 1) n sz tag color s
   }"

text \<open>The address and the new \<open>*colorp\<close>; a remainder by zero is \<^term>\<open>None\<close>.\<close>

definition physalloc :: "u64 \<Rightarrow> int \<Rightarrow> nat option \<Rightarrow> pmem \<Rightarrow> (u64 \<times> int \<times> pmem) option" where
  "physalloc sz color tag s = do {
     (m, color, s) \<leftarrow>
       (if 0 \<le> color then
          if ndoms s \<le> 0 \<or> length (balt s) \<le> nat (color mod ndoms s) then None
          else do {
            (m, s') \<leftarrow> alloc_in (nat (color mod ndoms s)) sz tag s;
            Some (m, if b_kmin (balt s ! nat (color mod ndoms s)) > 0 then color mod ndoms s else color, s')
          }
        else Some (0, color, s));
     if m = 0 then alloc_any 0 (nat (ndoms s)) sz tag color s else Some (m, color, s)
   }"

subsection \<open>The memory handed over at the start\<close>

definition plop :: "u64 \<Rightarrow> nat \<Rightarrow> bal \<Rightarrow> bal option" where
  "plop a k b = do {
     b \<leftarrow> upd (uint (BLOCK b (INDEX b a))) (\<lambda>l. l\<lparr>b_kval := k\<rparr>) b;
     if 31 \<le> k then None else xphysfree a (2 ^ k) b
   }"

fun chunk_up :: "nat \<Rightarrow> u32 \<Rightarrow> nat \<Rightarrow> u64 \<Rightarrow> u64 \<Rightarrow> bal \<Rightarrow> (u64 \<times> nat \<times> u32 \<times> bal) option" where
  "chunk_up k s 0 a e b = Some (a, k, s, b)"
| "chunk_up k s (Suc n) a e b =
     (if a + ucast s < e then do {
        (a, b) \<leftarrow> (if a AND ucast s \<noteq> 0 then do { b \<leftarrow> plop a k b; Some (a + ucast s, b) } else Some (a, b));
        chunk_up (k + 1) (2 * s) n a e b
      }
      else Some (a, k, s, b))"

partial_function (option) chunk_whole :: "u64 \<Rightarrow> nat \<Rightarrow> u32 \<Rightarrow> u64 \<Rightarrow> bal \<Rightarrow> (u64 \<times> bal) option" where
  "chunk_whole a k s e b =
     (if a + ucast s \<le> e then do { b \<leftarrow> plop a k b; chunk_whole (a + ucast s) k s e b } else Some (a, b))"

fun chunk_down :: "nat \<Rightarrow> u32 \<Rightarrow> u64 \<Rightarrow> u64 \<Rightarrow> bal \<Rightarrow> bal option" where
  "chunk_down 0 s a e b = (if a < e then None else Some b)"
| "chunk_down (Suc k) s a e b =
     (if a < e then do {
        (a, b) \<leftarrow> (if a + ucast (s div 2) \<le> e then do { b \<leftarrow> plop a k b; Some (a + ucast (s div 2), b) } else Some (a, b));
        chunk_down k (s div 2) a e b
      }
      else Some b)"

definition ROUNDDN :: "u64 \<Rightarrow> u64 \<Rightarrow> u64" where
  "ROUNDDN x y = (x div y) * y"

definition iimbchunk :: "u64 \<Rightarrow> u64 \<Rightarrow> bal \<Rightarrow> bal option" where
  "iimbchunk a e b = do {
     let a = ROUNDUP a (b_bminsz b);
     let e = ROUNDDN e (b_bminsz b);
     let b = b\<lparr>b_nblocks := b_nblocks b + (e - a) div b_bminsz b\<rparr>;
     (a, k, s, b) \<leftarrow> chunk_up (b_kmin b) (ucast (b_bminsz b)) (b_kmax b - b_kmin b) a e b;
     (a, b) \<leftarrow> chunk_whole a k s e b;
     chunk_down k s a e b
   }"

text \<open>The affinities of the firmware: type, start, length and domain. The length from an address to the
  end of its range and the domain, 0 and the domain as it was when nothing is known.\<close>

datatype srtype = SRlapic | SRmem | SRlx2apic

fun acpimblocksize :: "(srtype \<times> u64 \<times> u64 \<times> int) list \<Rightarrow> u64 \<Rightarrow> int \<Rightarrow> u64 \<times> int" where
  "acpimblocksize [] addr dm = (0, dm)"
| "acpimblocksize ((t, a, len, d) # sl) addr dm =
     (if t = SRmem \<and> a \<le> addr \<and> addr < a + len then (len - (addr - a), d) else acpimblocksize sl addr dm)"

definition no_buddy :: buddy where
  "no_buddy = \<lparr>b_tag = Used, b_kval = 0, b_next = 0, b_prev = 0, b_p = None\<rparr>"

definition new_bal :: "u64 \<Rightarrow> u64 \<Rightarrow> u64 \<Rightarrow> u64 \<Rightarrow> bal \<Rightarrow> bal" where
  "new_bal start end addr len b =
     (let kspan = lg2floor end + (if ISPOWEROF2 end then 0 else 1) in
      b\<lparr>b_base := addr, b_size := len, b_kmin := BKmin, b_kmax := BKmax, b_bminsz := 2 ^ BKmin, b_memory := start,
        b_kspan := kspan, b_blocks := replicate (2 ^ (kspan + 1 - BKmin)) no_buddy, b_avail := replicate (BKmax + 1) 0\<rparr>)"

text \<open>A domain that grows; a base that decreases and domains that overlap are panics.\<close>

definition grow_bal :: "nat \<Rightarrow> u64 \<Rightarrow> u64 \<Rightarrow> bal list \<Rightarrow> bal option" where
  "grow_bal dm addr len bs =
     (let b = bs ! dm;
          b' = (if b_base b + b_size b < addr + len then b\<lparr>b_size := addr - b_base b + len\<rparr> else b);
          e = b_base b' + b_size b' in
      if addr < b_base b then None
      else if \<exists>i \<in> {0 ..< length bs}. b_kmin (bs ! i) \<noteq> 0 \<and> i \<noteq> dm \<and> b_base (bs ! i) < e \<and> e < b_base (bs ! i) + b_size (bs ! i) then None
      else Some b')"

text \<open>The part of the loop from \<open>addr\<close> on.\<close>

partial_function (option) physinit_from ::
    "u64 \<Rightarrow> (srtype \<times> u64 \<times> u64 \<times> int) list \<Rightarrow> u64 \<Rightarrow> u64 \<Rightarrow> u64 \<Rightarrow> pmem \<Rightarrow> pmem option" where
  "physinit_from addr srat start pend e s =
     (if addr < e then do {
        let (len, dm) = acpimblocksize srat addr 0;
        let len = (if len = 0 \<or> e < addr + len then e - addr else len);
        let dm = (if dm < 0 \<or> int Ndoms \<le> dm then 0 else nat dm);
        let s = s\<lparr>ndoms := max (ndoms s) (int dm + 1)\<rparr>;
        b \<leftarrow> (if b_kmin (balt s ! dm) = 0 then Some (new_bal start pend addr len (balt s ! dm)) else grow_bal dm addr len (balt s));
        if \<not> (b_base b \<le> addr \<and> addr + len \<le> b_base b + b_size b) then None
        else do {
          b \<leftarrow> iimbchunk addr (addr + len) b;
          physinit_from (addr + len) srat start pend e (s\<lparr>balt := (balt s)[dm := b]\<rparr>)
        }
      }
      else Some s)"

text \<open>\<open>start\<close> and \<open>pend\<close> are \<open>sys->pmstart\<close> and \<open>sys->pmend\<close>.\<close>

definition physinit :: "(srtype \<times> u64 \<times> u64 \<times> int) list \<Rightarrow> u64 \<Rightarrow> u64 \<Rightarrow> u64 \<Rightarrow> u64 \<Rightarrow> pmem \<Rightarrow> pmem option" where
  "physinit srat start pend a sz s = physinit_from a srat start pend (a + sz) s"

definition bal0 :: bal where
  "bal0 = \<lparr>b_base = 0, b_size = 0, b_nfree = 0, b_nblocks = 0, b_kmin = 0, b_kmax = 0, b_bminsz = 0, b_memory = 0,
     b_kspan = 0, b_blocks = [], b_avail = []\<rparr>"

definition pmem0 :: pmem where
  "pmem0 = \<lparr>balt = replicate Ndoms bal0, ndoms = 0\<rparr>"

text \<open>Equations that evaluate under no binder, and in binary.\<close>

lemma bind_case: "Option.bind x f = (case x of None \<Rightarrow> None | Some y \<Rightarrow> f y)"
  by (cases x) simp_all

lemmas [code] = liberate.simps [unfolded bind_case] chunk_whole.simps [unfolded bind_case] physinit_from.simps [unfolded bind_case]
lemmas [code] = chunk_up.simps [unfolded bind_case] chunk_down.simps [unfolded bind_case] split_blocks.simps [unfolded bind_case]
lemmas [code] = put_on_list_def [unfolded bind_case] take_off_list_def [unfolded bind_case] plop_def [unfolded bind_case]
lemmas [code] = iimbchunk_def [unfolded bind_case] xphysalloc_def [unfolded bind_case] physfree_def [unfolded bind_case]

lemma units_code [code]: "units b k = nat (2 ^ k div uint (b_bminsz b))"
proof -
  have "int (units b k) = 2 ^ k div uint (b_bminsz b)" by (simp add: units_def zdiv_int)
  then show ?thesis by linarith
qed

subsection \<open>The logarithm\<close>

lemma lg2table_spec: "0 < n \<Longrightarrow> n < 256 \<Longrightarrow> 2 ^ (lg2table ! n) \<le> n \<and> n < 2 ^ (lg2table ! n + 1)"
  by (auto simp: lg2table_def nth_append)

lemma lg2_step:
  assumes "0 < w div 2 ^ s" "w div 2 ^ s < (256 :: nat)"
  shows "2 ^ (s + lg2table ! (w div 2 ^ s)) \<le> w \<and> w < 2 * 2 ^ (s + lg2table ! (w div 2 ^ s))"
proof -
  let ?t = "lg2table ! (w div 2 ^ s)"
  have t: "2 ^ ?t \<le> w div 2 ^ s" "w div 2 ^ s < 2 ^ (?t + 1)" using lg2table_spec [OF assms] by auto
  have "2 ^ ?t * 2 ^ s \<le> (w div 2 ^ s) * 2 ^ s" using t(1) by (rule mult_le_mono1)
  then have "2 ^ (s + ?t) \<le> w" using div_times_less_eq_dividend [of w "2 ^ s"] by (simp only: power_add mult.commute) 
  moreover have "w < 2 ^ (?t + 1) * 2 ^ s" using t(2) by (simp add: div_less_iff_less_mult)
  then have "w < 2 * 2 ^ (s + ?t)" by (simp add: power_add mult.commute mult.left_commute)
  ultimately show ?thesis by simp
qed

lemma lg2floor_spec:
  assumes "w \<noteq> 0"
  shows "2 ^ lg2floor w \<le> unat w \<and> unat w < 2 ^ (lg2floor w + 1)"
proof -
  have lt: "unat w < 2 ^ 64" using unsigned_less [of w] by simp
  have d: "unat (drop_bit n w) = unat w div 2 ^ n" for n by (simp only: unat_drop_bit_eq flip: drop_bit_eq_div)
  have z: "drop_bit n w = 0 \<longleftrightarrow> unat w div 2 ^ n = 0" for n
    unfolding d [symmetric] by (simp add: unsigned_eq_0_iff)
  have c: "unat (drop_bit 8 (drop_bit n w)) = unat w div 2 ^ (n + 8)" for n by (simp add: drop_bit_drop_bit d add.commute)
  have cz: "drop_bit 8 (drop_bit n w) = 0 \<longleftrightarrow> unat w div 2 ^ (n + 8) = 0" for n
    unfolding c [symmetric] by (simp add: unsigned_eq_0_iff)
  have nz: "unat w \<noteq> 0" using assms by (simp add: unsigned_eq_0_iff)
  show ?thesis
    unfolding lg2floor_def Let_def cz z c d
    using lg2_step [of "unat w" 0] lg2_step [of "unat w" 8] lg2_step [of "unat w" 16] lg2_step [of "unat w" 24]
      lg2_step [of "unat w" 32] lg2_step [of "unat w" 40] lg2_step [of "unat w" 48] lg2_step [of "unat w" 56] lt nz
    by (auto split: if_splits simp: div_eq_0_iff div_less_iff_less_mult div_greater_zero_iff)
qed

lemma power_of_2:
  assumes "ISPOWEROF2 w"
  shows "unat w = 2 ^ lg2floor w"
proof (rule ccontr)
  assume ne: "unat w \<noteq> 2 ^ lg2floor w"
  let ?k = "lg2floor w"
  have w: "w \<noteq> 0" "w AND (w - 1) = 0" using assms by (auto simp: ISPOWEROF2_def)
  note s = lg2floor_spec [OF w(1)]
  have gt: "2 ^ ?k < unat w" using s ne by simp
  have m: "unat (w - 1) = unat w - 1" using w(1) by (simp add: unat_minus_one)
  have q: "x div 2 ^ ?k = 1" if "2 ^ ?k \<le> x" "x < 2 ^ (?k + 1)" for x :: nat
    using that by (intro div_nat_eqI) simp_all
  have b: "bit x ?k" if "odd (unat x div 2 ^ ?k)" for x :: u64
    using that by (metis bit_iff_odd bit_unsigned_iff)
  have "bit w ?k" by (rule b) (use q [of "unat w"] s in simp)
  moreover have "bit (w - 1) ?k" by (rule b) (use q [of "unat w - 1"] s gt in \<open>simp add: m\<close>)
  ultimately have "bit (w AND (w - 1)) ?k" by (simp add: bit_and_iff)
  then show False unfolding w(2) by simp
qed

subsection \<open>The free lists\<close>

text \<open>A \<open>next\<close> chain of available blocks of one order, and the units they hold.\<close>

fun chain :: "bal \<Rightarrow> nat \<Rightarrow> u32 \<Rightarrow> u32 list \<Rightarrow> bool" where
  "chain b k i [] = (i = 0)"
| "chain b k i (x # xs) = (i = x \<and> x \<noteq> 0 \<and>
     (case at b (uint (BLOCK b x)) of None \<Rightarrow> False | Some y \<Rightarrow> b_tag y = Avail \<and> b_kval y = k \<and> chain b k (b_next y) xs))"

definition span :: "nat \<Rightarrow> nat \<Rightarrow> u32 \<Rightarrow> nat list" where
  "span kmin k i = [unat i ..< unat i + 2 ^ (k - kmin)]"

fun free_units :: "nat \<Rightarrow> nat \<Rightarrow> u32 list list \<Rightarrow> nat list" where
  "free_units kmin k [] = []"
| "free_units kmin k (l # ls) = concat (map (span kmin k) l) @ free_units kmin (k + 1) ls"

text \<open>Unit \<open>x\<close> is memory of the domain.\<close>

definition in_range :: "bal \<Rightarrow> nat \<Rightarrow> bool" where
  "in_range b x \<longleftrightarrow> unat (b_base b) \<le> x * 2 ^ b_kmin b \<and> (x + 1) * 2 ^ b_kmin b \<le> unat (b_base b) + unat (b_size b)"

definition sound :: "bal \<Rightarrow> bool" where
  "sound b \<longleftrightarrow> 0 < b_kmin b \<and> b_kmin b \<le> b_kmax b \<and> b_kmax b \<le> 30 \<and> b_bminsz b = 2 ^ b_kmin b \<and>
     unat (b_memory b) mod 2 ^ b_kmin b = 0 \<and> b_memory b \<le> b_base b \<and> 0 < b_memory b \<and> 0 < b_size b \<and>
     unat (b_base b) + unat (b_size b) < 2 ^ 64 \<and>
     unat (b_base b) + unat (b_size b) \<le> length (b_blocks b) * 2 ^ b_kmin b \<and> length (b_blocks b) \<le> 2 ^ 32 \<and>
     length (b_avail b) = b_kmax b + 1"

definition links_ok :: "bal \<Rightarrow> u32 list list \<Rightarrow> bool" where
  "links_ok b fl \<longleftrightarrow> sound b \<and> length fl = b_kmax b + 1 \<and> (\<forall>k < b_kmin b. fl ! k = []) \<and>
     (\<forall>k < length fl. chain b k (b_avail b ! k) (fl ! k)) \<and>
     distinct (free_units (b_kmin b) 0 fl) \<and> (\<forall>x \<in> set (free_units (b_kmin b) 0 fl). in_range b x)"

definition bal_ok :: "bal \<Rightarrow> u32 list list \<Rightarrow> bool" where
  "bal_ok b fl \<longleftrightarrow> links_ok b fl \<and> b_nfree b = of_nat (length (free_units (b_kmin b) 0 fl))"

text \<open>The free bytes.\<close>

definition free_mem :: "bal \<Rightarrow> u32 list list \<Rightarrow> nat set" where
  "free_mem b fl = {a. a div 2 ^ b_kmin b \<in> set (free_units (b_kmin b) 0 fl)}"

text \<open>What only the structure of the lists sees.\<close>

definition strip :: "bal \<Rightarrow> bal" where
  "strip b = b\<lparr>b_blocks := map (\<lambda>x. x\<lparr>b_prev := 0, b_p := None\<rparr>) (b_blocks b), b_nfree := 0\<rparr>"

definition hdr :: "bal \<Rightarrow> bal \<times> nat \<times> nat" where
  "hdr b = (b\<lparr>b_blocks := [], b_avail := [], b_nfree := 0\<rparr>, length (b_blocks b), length (b_avail b))"

lemma hdrD:
  assumes "hdr b' = hdr b"
  shows "b_base b' = b_base b" "b_size b' = b_size b" "b_kmin b' = b_kmin b" "b_kmax b' = b_kmax b" "b_bminsz b' = b_bminsz b"
    "b_memory b' = b_memory b" "b_nblocks b' = b_nblocks b" "length (b_blocks b') = length (b_blocks b)"
    "length (b_avail b') = length (b_avail b)" "INDEX b' = INDEX b" "BLOCK b' = BLOCK b" "units b' = units b" "sound b' = sound b"
    "in_range b' = in_range b"
proof -
  show e: "b_base b' = b_base b" "b_size b' = b_size b" "b_kmin b' = b_kmin b" "b_kmax b' = b_kmax b" "b_bminsz b' = b_bminsz b"
    "b_memory b' = b_memory b" "b_nblocks b' = b_nblocks b" "length (b_blocks b') = length (b_blocks b)"
    "length (b_avail b') = length (b_avail b)"
    using assms by (cases b; cases b'; simp add: hdr_def)+
  show i: "INDEX b' = INDEX b" by (rule ext) (simp add: INDEX_def e)
  show "BLOCK b' = BLOCK b" by (rule ext) (simp add: BLOCK_def e i)
  show "units b' = units b" by (rule ext) (simp add: units_def e)
  show "sound b' = sound b" by (simp add: sound_def e)
  show "in_range b' = in_range b" by (rule ext) (simp add: in_range_def e)
qed

lemma strip_hdr: "strip b' = strip b \<Longrightarrow> hdr b' = hdr b"
  by (cases b; cases b'; auto simp: strip_def hdr_def dest: map_eq_imp_length_eq)

lemma strip_avail: "strip b' = strip b \<Longrightarrow> b_avail b' = b_avail b"
  by (cases b; cases b'; simp add: strip_def)

lemma at_strip: "at (strip b) n = map_option (\<lambda>x. x\<lparr>b_prev := 0, b_p := None\<rparr>) (at b n)"
  by (cases b; auto simp: at_def strip_def)

lemma at_strip_eq:
  assumes "strip b' = strip b" "at b n = Some y"
  shows "\<exists>y'. at b' n = Some y' \<and> b_tag y' = b_tag y \<and> b_kval y' = b_kval y \<and> b_next y' = b_next y"
proof -
  have "map_option (\<lambda>x. x\<lparr>b_prev := 0, b_p := None\<rparr>) (at b' n) = Some (y\<lparr>b_prev := 0, b_p := None\<rparr>)"
    using assms at_strip [of b' n] at_strip [of b n] by simp
  then obtain y' where "at b' n = Some y'" "y'\<lparr>b_prev := 0, b_p := None\<rparr> = y\<lparr>b_prev := 0, b_p := None\<rparr>" by auto
  then show ?thesis by (cases y; cases y'; simp)
qed

lemma chain_strip: "chain (strip b) k i xs = chain b k i xs"
proof (induction xs arbitrary: i)
  case (Cons x xs)
  have "BLOCK (strip b) = BLOCK b" by (rule ext) (simp add: BLOCK_def INDEX_def strip_def)
  then show ?case using Cons by (simp add: at_strip split: option.split)
qed simp

lemma links_ok_strip: "strip b' = strip b \<Longrightarrow> links_ok b' fl = links_ok b fl"
proof -
  assume s: "strip b' = strip b"
  have "chain b' k i xs = chain b k i xs" for k i xs by (metis chain_strip s)
  then show ?thesis by (simp add: links_ok_def hdrD [OF strip_hdr [OF s]] strip_avail [OF s])
qed

lemma strip_trans: "strip b2 = strip b1 \<Longrightarrow> strip b1 = strip b \<Longrightarrow> strip b2 = strip b" by simp

text \<open>What a holder of a block knows of it.\<close>

definition core :: "bal \<Rightarrow> int \<Rightarrow> (btag \<times> nat \<times> nat option) option" where
  "core b n = map_option (\<lambda>y. (b_tag y, b_kval y, b_p y)) (at b n)"

lemma upd_prev:
  assumes "0 \<le> n" "n < int (length (b_blocks b))"
  shows "\<exists>b'. upd n (\<lambda>x. x\<lparr>b_prev := v\<rparr>) b = Some b' \<and> strip b' = strip b \<and> b_nfree b' = b_nfree b \<and> core b' = core b"
  using assms by (cases b) (auto simp: upd_def strip_def map_update list_update_same_conv core_def at_def fun_eq_iff nth_list_update)

lemma upd_p:
  assumes "0 \<le> n" "n < int (length (b_blocks b))"
  shows "\<exists>b'. upd n (\<lambda>x. x\<lparr>b_p := v\<rparr>) b = Some b' \<and> strip b' = strip b \<and> b_nfree b' = b_nfree b \<and>
    (\<forall>m. m \<noteq> n \<longrightarrow> core b' m = core b m) \<and> core b' n = map_option (\<lambda>(t, k, p). (t, k, v)) (core b n)"
  using assms by (cases b) (auto simp: upd_def strip_def map_update list_update_same_conv core_def at_def nth_list_update)

lemma upd_any:
  assumes "0 \<le> n" "n < int (length (b_blocks b))"
  shows "\<exists>b'. upd n f b = Some b' \<and> hdr b' = hdr b \<and> b_nfree b' = b_nfree b \<and> b_avail b' = b_avail b \<and>
    (\<forall>m. m \<noteq> n \<longrightarrow> at b' m = at b m) \<and> at b' n = map_option f (at b n)"
  using assms by (cases b) (auto simp: upd_def hdr_def at_def nth_list_update)

lemma chain_upd:
  assumes "chain b k i xs" "nat n \<notin> (\<lambda>x. unat (BLOCK b x)) ` set xs" "upd n f b = Some b'"
  shows "chain b' k i xs"
  using assms(1,2)
proof (induction xs arbitrary: i)
  case (Cons x xs)
  have h: "BLOCK b' = BLOCK b" using assms(3) by (intro ext) (auto simp: BLOCK_def INDEX_def upd_def split: if_splits)
  have "at b' (uint (BLOCK b x)) = at b (uint (BLOCK b x))"
    using assms(3) Cons.prems(2) by (auto simp: at_def upd_def split: if_splits)
  with Cons h show ?case by (auto split: option.splits)
qed simp

lemma chain_avail: "chain (b\<lparr>b_avail := a\<rparr>) k i xs = chain b k i xs"
proof (induction xs arbitrary: i)
  case (Cons x xs)
  have "BLOCK (b\<lparr>b_avail := a\<rparr>) = BLOCK b" by (rule ext) (simp add: BLOCK_def INDEX_def)
  then show ?case using Cons by (simp add: at_def split: option.split)
qed simp

text \<open>The geometry of a sound allocator.\<close>

lemma len64: "LENGTH(64) = 64" by simp

lemma unat_pow: "n < 64 \<Longrightarrow> unat ((2 :: u64) ^ n) = 2 ^ n"
proof -
  assume "n < 64"
  then have "(2 :: nat) ^ n < 2 ^ 64" by (rule power_strict_increasing) simp
  then have "unat (of_nat (2 ^ n) :: u64) = 2 ^ n" by (simp only: unsigned_of_nat len64 take_bit_nat_eq_self_iff of_nat_id)
  then show ?thesis by simp
qed

lemma unat_ucast_up: "unat (ucast (x :: u32) :: u64) = unat x"
  by (simp add: unsigned_ucast_eq take_bit_nat_eq_self_iff unat_u32_bound order.strict_trans [OF unat_u32_bound])

lemma soundD:
  assumes "sound b"
  shows "0 < b_kmin b" "b_kmin b \<le> b_kmax b" "b_kmax b \<le> 30" "unat (b_bminsz b) = 2 ^ b_kmin b"
    "b_memory b \<le> b_base b" "unat (b_base b) + unat (b_size b) < 2 ^ 64" "0 < b_size b"
    "unat (b_base b) + unat (b_size b) \<le> length (b_blocks b) * 2 ^ b_kmin b" "length (b_blocks b) \<le> 2 ^ 32"
    "length (b_avail b) = b_kmax b + 1"
  using assms by (simp_all add: sound_def unat_pow)

lemma units_pow: "sound b \<Longrightarrow> b_kmin b \<le> k \<Longrightarrow> units b k = 2 ^ (k - b_kmin b)"
  by (simp add: units_def soundD power_diff)

lemma index_memory:
  assumes "sound b"
  shows "unat (INDEX b (b_memory b)) * 2 ^ b_kmin b = unat (b_memory b)"
proof -
  note s = soundD [OF assms]
  have "unat (b_memory b) \<le> length (b_blocks b) * 2 ^ b_kmin b" using s(5,8) by (simp add: word_le_nat_alt)
  moreover have "unat (b_memory b) < unat (b_base b) + unat (b_size b)" using s(5,7) by (simp add: word_le_nat_alt word_less_nat_alt)
  ultimately have "unat (b_memory b) div 2 ^ b_kmin b < length (b_blocks b)"
    using s(8) by (simp add: div_less_iff_less_mult)
  then have "unat (INDEX b (b_memory b)) = unat (b_memory b) div 2 ^ b_kmin b"
    using s(4,9) by (simp add: INDEX_def unsigned_ucast_eq unat_div take_bit_nat_eq_self_iff)
  then show ?thesis using assms by (simp add: sound_def) (metis div_mult_mod_eq add_0_right)
qed

lemma in_range_bounds:
  assumes "sound b" "in_range b x"
  shows "unat (INDEX b (b_memory b)) \<le> x" "x < length (b_blocks b)" "x < 2 ^ 32" "x * 2 ^ b_kmin b < 2 ^ 64" "0 < x"
proof -
  note s = soundD [OF assms(1)]
  have m: "unat (b_memory b) \<le> unat (b_base b)" using s(5) by (simp add: word_le_nat_alt)
  have r: "unat (b_base b) \<le> x * 2 ^ b_kmin b" "(x + 1) * 2 ^ b_kmin b \<le> unat (b_base b) + unat (b_size b)"
    using assms(2) by (simp_all add: in_range_def)
  have "unat (INDEX b (b_memory b)) * 2 ^ b_kmin b \<le> x * 2 ^ b_kmin b"
    using index_memory [OF assms(1)] m r(1) by simp
  then show "unat (INDEX b (b_memory b)) \<le> x" by simp
  have "(x + 1) * 2 ^ b_kmin b \<le> length (b_blocks b) * 2 ^ b_kmin b" using r(2) s(8) by simp
  then have "x + 1 \<le> length (b_blocks b)" by (simp only: mult_le_cancel2) simp
  then show l: "x < length (b_blocks b)" by simp
  then show "x < 2 ^ 32" using s(9) by simp
  show "x * 2 ^ b_kmin b < 2 ^ 64" using r(2) s(6) by simp
  have "0 < unat (b_memory b)" using assms(1) by (simp add: sound_def word_less_nat_alt)
  then show "0 < x" using m r(1) by (cases x) auto
qed

lemma unat_BLOCK:
  assumes "sound b" "in_range b (unat i)"
  shows "unat (BLOCK b i) = unat i - unat (INDEX b (b_memory b))"
  using in_range_bounds(1) [OF assms] by (simp add: BLOCK_def unat_sub word_le_nat_alt)

lemma BLOCK_in:
  assumes "sound b" "in_range b (unat i)"
  shows "0 \<le> uint (BLOCK b i)" "uint (BLOCK b i) < int (length (b_blocks b))"
    "at b (uint (BLOCK b i)) = Some (b_blocks b ! unat (BLOCK b i))"
proof -
  show "0 \<le> uint (BLOCK b i)" by simp
  show l: "uint (BLOCK b i) < int (length (b_blocks b))"
    using in_range_bounds(2) [OF assms] unat_BLOCK [OF assms] by (simp add: uint_nat)
  then show "at b (uint (BLOCK b i)) = Some (b_blocks b ! unat (BLOCK b i))" by (simp only: at_def unat_eq_nat_uint) simp
qed

lemma BLOCK_inj: "BLOCK b i = BLOCK b j \<longleftrightarrow> i = j"
  by (simp add: BLOCK_def)

lemma uint_BLOCK_inj: "uint (BLOCK b i) = uint (BLOCK b j) \<longleftrightarrow> i = j"
  using word_eq_iff_unsigned [where 'a = int, of "BLOCK b i" "BLOCK b j"] by (simp add: BLOCK_inj)

text \<open>The address of a block.\<close>

lemma block_address:
  assumes "sound b" "in_range b (unat i)"
  defines "m \<equiv> b_memory b + b_bminsz b * ucast (BLOCK b i)"
  shows "unat m = unat i * 2 ^ b_kmin b" "b_base b \<le> m" "m < b_base b + b_size b" "INDEX b m = i" "m \<noteq> 0"
proof -
  note s = soundD [OF assms(1)] and r = in_range_bounds [OF assms(1,2)] and u = unat_BLOCK [OF assms(1,2)] and i = index_memory [OF assms(1)]
  let ?x = "unat (INDEX b (b_memory b))" and ?K = "2 ^ b_kmin b :: nat"
  have e: "?K * (unat i - ?x) + unat (b_memory b) = unat i * ?K"
    using r(1) i by (simp add: algebra_simps diff_mult_distrib2 flip: i)
  have "unat (b_bminsz b * ucast (BLOCK b i)) = ?K * (unat i - ?x)"
    using e r(4) s(4) u by (subst unat_mult_lem [THEN iffD1]) (simp_all add: unat_ucast_up)
  then show m: "unat m = unat i * ?K"
    unfolding m_def using e r(4) by (subst unat_add_lem [THEN iffD1]) simp_all
  have g: "unat (b_base b) \<le> unat i * ?K" "(unat i + 1) * ?K \<le> unat (b_base b) + unat (b_size b)" using assms(2) by (simp_all add: in_range_def)
  show "b_base b \<le> m" using g(1) m by (simp add: word_le_nat_alt)
  have "unat (b_base b + b_size b) = unat (b_base b) + unat (b_size b)" using s(6) by (subst unat_add_lem [THEN iffD1]) simp_all
  moreover have "0 < ?K" by simp
  ultimately show "m < b_base b + b_size b" unfolding word_less_nat_alt m using g(2) by (simp only: distrib_right)
  have "unat (m div b_bminsz b) = unat i" by (simp add: unat_div m s(4))
  then show "INDEX b m = i"
    by (simp add: INDEX_def word_eq_iff_unsigned [where 'a = nat] unsigned_ucast_eq take_bit_nat_eq_self_iff unat_u32_bound)
  show "m \<noteq> 0" using m r(5) by auto
qed

text \<open>The free units after a change of one list.\<close>

lemma free_units_update:
  "j < length ls \<Longrightarrow> mset (free_units m k (ls[j := xs])) + mset (concat (map (span m (k + j)) (ls ! j)))
     = mset (free_units m k ls) + mset (concat (map (span m (k + j)) xs))"
proof (induction ls arbitrary: j k)
  case (Cons l ls)
  show ?case
  proof (cases j)
    case (Suc n)
    then show ?thesis using Cons.IH [of n "k + 1"] Cons.prems by (simp add: add.assoc)
  qed (simp add: add.commute add.left_commute)
qed simp

lemma free_units_pop:
  "j < length fl \<Longrightarrow> fl ! j = i # rest \<Longrightarrow> mset (free_units m 0 fl) = mset (span m j i @ free_units m 0 (fl[j := rest]))"
  using free_units_update [of j fl m 0 rest] by (simp add: add.commute add.left_commute)

lemma free_units_push:
  "j < length fl \<Longrightarrow> mset (free_units m 0 (fl[j := i # fl ! j])) = mset (span m j i @ free_units m 0 fl)"
  using free_units_update [of j fl m 0 "i # fl ! j"] by (simp add: add.commute add.left_commute)

lemma span_self: "unat i \<in> set (span m k i)"
  by (simp add: span_def)

lemma free_units_mem:
  "j < length ls \<Longrightarrow> i \<in> set (ls ! j) \<Longrightarrow> set (span m (k + j) i) \<subseteq> set (free_units m k ls)"
proof (induction ls arbitrary: j k)
  case (Cons l ls)
  show ?case
  proof (cases j)
    case (Suc n)
    then show ?thesis using Cons.IH [of n "k + 1"] Cons.prems by auto
  qed (use Cons.prems in auto)
qed simp

lemma listed_free: "j < length fl \<Longrightarrow> i \<in> set (fl ! j) \<Longrightarrow> unat i \<in> set (free_units m 0 fl)"
  using free_units_mem [of j fl i m 0] span_self [of i m j] by auto

lemma linksD:
  assumes "links_ok b fl"
  shows "sound b" "length fl = b_kmax b + 1" "\<And>k. k < b_kmin b \<Longrightarrow> fl ! k = []"
    "\<And>k. k \<le> b_kmax b \<Longrightarrow> chain b k (b_avail b ! k) (fl ! k)"
    "distinct (free_units (b_kmin b) 0 fl)" "\<And>x. x \<in> set (free_units (b_kmin b) 0 fl) \<Longrightarrow> in_range b x"
  using assms by (auto simp: links_ok_def)

text \<open>Putting a block on a list.\<close>

lemma push_block:
  assumes l: "links_ok b fl" and j: "b_kmin b \<le> j" "j \<le> b_kmax b"
    and fresh: "\<And>x. x \<in> set (span (b_kmin b) j i) \<Longrightarrow> in_range b x \<and> x \<notin> set (free_units (b_kmin b) 0 fl)"
    and f: "\<And>y. at b (uint (BLOCK b i)) = Some y \<Longrightarrow> b_tag (f y) = Avail \<and> b_kval (f y) = j \<and> b_next (f y) = b_avail b ! j"
  shows "\<exists>b1 b2 b3. upd (uint (BLOCK b i)) f b = Some b1 \<and>
    (if b_avail b ! j \<noteq> 0 then upd (uint (BLOCK b1 (b_avail b ! j))) (\<lambda>x. x\<lparr>b_prev := v\<rparr>) b1 else Some b1) = Some b2 \<and>
    set_avail j i b2 = Some b3 \<and> hdr b1 = hdr b \<and> hdr b2 = hdr b \<and> hdr b3 = hdr b \<and> b_nfree b3 = b_nfree b \<and>
    links_ok b3 (fl[j := i # fl ! j]) \<and> (\<forall>n. n \<noteq> uint (BLOCK b i) \<longrightarrow> core b3 n = core b n) \<and>
    core b3 (uint (BLOCK b i)) = map_option (\<lambda>y. (Avail, j, b_p (f y))) (at b (uint (BLOCK b i)))"
proof -
  note d = linksD [OF l]
  let ?n = "uint (BLOCK b i)" and ?nx = "b_avail b ! j"
  have r: "in_range b (unat i)" using fresh [OF span_self] by simp
  obtain y where y: "at b ?n = Some y" using BLOCK_in [OF d(1) r] by blast
  obtain b1 where b1: "upd ?n f b = Some b1" "hdr b1 = hdr b" "b_nfree b1 = b_nfree b" "b_avail b1 = b_avail b"
    "\<And>m. m \<noteq> ?n \<Longrightarrow> at b1 m = at b m" "at b1 ?n = Some (f y)"
    using upd_any [OF BLOCK_in(1,2) [OF d(1) r], of f] y by auto
  note h1 = hdrD [OF b1(2)]
  have out: "nat ?n \<notin> (\<lambda>x. unat (BLOCK b x)) ` set (fl ! k)" if "k < length fl" for k
    using fresh [OF span_self] listed_free [OF that, of i "b_kmin b"]
    by (auto simp: BLOCK_inj word_eq_iff_unsigned [where 'a = nat, symmetric] simp flip: unat_eq_nat_uint)
  have ch1: "chain b1 k (b_avail b ! k) (fl ! k)" if "k < length fl" for k
    using chain_upd [OF d(4) out b1(1)] that d(2) by simp
  have l1: "links_ok b1 fl"
    using l ch1 unfolding links_ok_def h1 b1(4) by simp
  obtain b2 where b2: "(if ?nx \<noteq> 0 then upd (uint (BLOCK b1 ?nx)) (\<lambda>x. x\<lparr>b_prev := v\<rparr>) b1 else Some b1) = Some b2"
    "strip b2 = strip b1" "b_nfree b2 = b_nfree b1" "core b2 = core b1"
  proof (cases "?nx = 0")
    case False
    then obtain rest where "fl ! j = ?nx # rest" using d(4) [OF j(2)] by (cases "fl ! j") auto
    then have "in_range b (unat ?nx)" using listed_free [of j fl ?nx "b_kmin b"] d(2,6) j(2) by simp
    then have "in_range b1 (unat ?nx)" by (simp add: h1)
    then show ?thesis using upd_prev [OF BLOCK_in(1,2) [OF linksD(1) [OF l1]]] False that by fastforce
  qed (use that in auto)
  have l2: "links_ok b2 fl" using l1 links_ok_strip [OF b2(2)] by simp
  have h2: "hdr b2 = hdr b" using strip_hdr [OF b2(2)] b1(2) by simp
  note h2' = hdrD [OF h2]
  define b3 where "b3 = b2\<lparr>b_avail := (b_avail b2)[j := i]\<rparr>"
  have la: "length (b_avail b2) = b_kmax b + 1" using soundD(10) [OF linksD(1) [OF l2]] by (simp add: h2')
  have sa: "set_avail j i b2 = Some b3" using la j(2) by (simp add: set_avail_def b3_def)
  have h3: "hdr b3 = hdr b" using h2 by (simp add: b3_def hdr_def)
  note h3' = hdrD [OF h3]
  have at3: "at b3 m = at b2 m" for m by (simp add: b3_def at_def)
  obtain y2 where y2: "at b2 ?n = Some y2" "b_tag y2 = Avail" "b_kval y2 = j" "b_next y2 = ?nx"
    using at_strip_eq [OF b2(2) b1(6)] f [OF y] by fastforce
  have c3: "chain b3 k x xs = chain b2 k x xs" for k x xs by (simp add: b3_def chain_avail)
  have a3: "b_avail b3 = (b_avail b2)[j := i]" by (simp add: b3_def)
  have nz: "i \<noteq> 0" using in_range_bounds(5) [OF d(1) r] by auto
  have ch3: "chain b3 k (b_avail b3 ! k) ((fl[j := i # fl ! j]) ! k)" if "k < length fl" for k
  proof (cases "k = j")
    case True
    have "chain b2 j ?nx (fl ! j)" using linksD(4) [OF l2, of j] j(2) h2' strip_avail [OF b2(2)] b1(4) by simp
    then show ?thesis using True that y2 nz la d(2) by (simp add: c3 at3 h3'(11) a3)
  next
    case False
    then show ?thesis using linksD(4) [OF l2, of k] that d(2) h2' by (simp add: c3 a3)
  qed
  let ?fl = "fl[j := i # fl ! j]"
  have ms: "mset (free_units (b_kmin b) 0 ?fl) = mset (span (b_kmin b) j i @ free_units (b_kmin b) 0 fl)"
    using free_units_push j(2) d(2) by simp
  have "distinct (free_units (b_kmin b) 0 ?fl)"
    using mset_eq_imp_distinct_iff [OF ms] d(5) fresh by (auto simp: span_def)
  moreover have "\<forall>x \<in> set (free_units (b_kmin b) 0 ?fl). in_range b x"
    using mset_eq_setD [OF ms] d(6) fresh by auto
  moreover have "\<forall>k < b_kmin b. ?fl ! k = []" using d(3) j by simp
  ultimately have l3: "links_ok b3 ?fl" using ch3 d(1,2) by (simp add: links_ok_def h3')
  have "b_nfree b3 = b_nfree b" using b2(3) b1(3) by (simp add: b3_def)
  moreover have "core b3 = core b2" by (rule ext) (simp add: core_def at3)
  moreover have "core b1 m = core b m" if "m \<noteq> ?n" for m using b1(5) that by (simp add: core_def)
  moreover have "core b1 ?n = map_option (\<lambda>y. (Avail, j, b_p (f y))) (at b ?n)" using b1(6) y f [OF y] by (simp add: core_def)
  ultimately show ?thesis using b1(1,2) b2(1,4) sa h2 h3 l3 by (intro exI [of _ b1] exI [of _ b2] exI [of _ b3]) auto
qed

lemma unat_plus_range:
  assumes "sound b" "in_range b (unat i + n)" and that: "in_range b (unat i)"
  shows "unat (i + of_nat n) = unat i + n" "uint (BLOCK b i) + int n = uint (BLOCK b (i + of_nat n))"
proof -
  have lt: "unat i + n < 2 ^ 32" using in_range_bounds(3) [OF assms(1,2)] .
  then have "unat (of_nat n :: u32) = n" by simp
  then show u: "unat (i + of_nat n) = unat i + n" using lt by (subst unat_add_lem [THEN iffD1]) simp_all
  have r: "in_range b (unat (i + of_nat n))" using assms(2) u by simp
  show "uint (BLOCK b i) + int n = uint (BLOCK b (i + of_nat n))"
    unfolding uint_nat unat_BLOCK [OF assms(1) that] unat_BLOCK [OF assms(1) r] u
    using in_range_bounds(1) [OF assms(1) that] by linarith
qed

text \<open>Splitting a block that has been taken off.\<close>

lemma split_ok:
  assumes "links_ok b fl" "b_kmin b \<le> k" "k \<le> j" "j \<le> b_kmax b"
    and "\<And>x. x \<in> {unat i ..< unat i + 2 ^ (j - b_kmin b)} \<Longrightarrow> in_range b x \<and> x \<notin> set (free_units (b_kmin b) 0 fl)"
  shows "\<exists>b' fl'. split_blocks i k j b = Some b' \<and> links_ok b' fl' \<and> hdr b' = hdr b \<and> b_nfree b' = b_nfree b \<and>
    mset (free_units (b_kmin b) 0 fl') =
      mset ([unat i + 2 ^ (k - b_kmin b) ..< unat i + 2 ^ (j - b_kmin b)] @ free_units (b_kmin b) 0 fl) \<and>
    (\<forall>x. unat x \<notin> {unat i + 2 ^ (k - b_kmin b) ..< unat i + 2 ^ (j - b_kmin b)} \<longrightarrow>
       core b' (uint (BLOCK b x)) = core b (uint (BLOCK b x)))"
  using assms
proof (induction j arbitrary: b fl)
  case (Suc j)
  show ?case
  proof (cases "Suc j = k")
    case False
    note d = linksD [OF Suc.prems(1)]
    let ?m = "b_kmin b" and ?n = "units b j" and ?nx = "b_avail b ! j"
    have kj: "k \<le> j" "?m \<le> j" using False Suc.prems(2,3) by simp_all
    have u: "?n = 2 ^ (j - ?m)" using units_pow [OF d(1) kj(2)] .
    have dbl: "(2 :: nat) ^ (Suc j - ?m) = 2 * 2 ^ (j - ?m)" using kj by (simp add: Suc_diff_le)
    have pos: "(0 :: nat) < 2 ^ (j - ?m)" by simp
    have in1: "in_range b (unat i)" "in_range b (unat i + ?n)"
      using Suc.prems(5) [of "unat i"] Suc.prems(5) [of "unat i + ?n"] unfolding dbl u using pos by simp_all
    let ?pn = "i + of_nat ?n"
    have pn: "unat ?pn = unat i + 2 ^ (j - ?m)" "uint (BLOCK b i) + int ?n = uint (BLOCK b ?pn)"
      using unat_plus_range [OF d(1) in1(2,1)] u by simp_all
    have sp: "span ?m j ?pn = [unat i + 2 ^ (j - ?m) ..< unat i + 2 ^ (Suc j - ?m)]"
      unfolding span_def pn dbl by (simp add: mult_2 add.assoc)
    have fresh: "in_range b x \<and> x \<notin> set (free_units ?m 0 fl)" if "x \<in> set (span ?m j ?pn)" for x
      using that Suc.prems(5) [of x] unfolding sp by simp
    let ?f = "\<lambda>p. p\<lparr>b_tag := Avail, b_kval := j, b_next := ?nx, b_prev := 0\<rparr>"
    obtain b1 b2 b3 where b: "upd (uint (BLOCK b ?pn)) ?f b = Some b1"
      "(if ?nx \<noteq> 0 then upd (uint (BLOCK b1 ?nx)) (\<lambda>x. x\<lparr>b_prev := ?pn\<rparr>) b1 else Some b1) = Some b2"
      "set_avail j ?pn b2 = Some b3" "hdr b1 = hdr b" "hdr b3 = hdr b" "b_nfree b3 = b_nfree b" "links_ok b3 (fl[j := ?pn # fl ! j])"
      "\<And>n. n \<noteq> uint (BLOCK b ?pn) \<Longrightarrow> core b3 n = core b n"
      using push_block [where f = ?f and v = ?pn and i = ?pn, OF Suc.prems(1) kj(2) _ fresh] Suc.prems(4) by auto
    note h3 = hdrD [OF b(5)]
    let ?fl = "fl[j := ?pn # fl ! j]"
    have ms: "mset (free_units ?m 0 ?fl) = mset (span ?m j ?pn @ free_units ?m 0 fl)"
      using free_units_push [of j fl ?m ?pn] Suc.prems(4) d(2) by simp
    have fresh3: "in_range b3 x \<and> x \<notin> set (free_units (b_kmin b3) 0 ?fl)"
      if "x \<in> {unat i ..< unat i + 2 ^ (j - b_kmin b3)}" for x
      using that Suc.prems(5) [of x] mset_eq_setD [OF ms] unfolding h3 sp dbl by simp
    obtain b' fl' where r: "split_blocks i k j b3 = Some b'" "links_ok b' fl'" "hdr b' = hdr b3" "b_nfree b' = b_nfree b3"
      "mset (free_units ?m 0 fl') = mset ([unat i + 2 ^ (k - ?m) ..< unat i + 2 ^ (j - ?m)] @ free_units ?m 0 ?fl)"
      "\<And>x. unat x \<notin> {unat i + 2 ^ (k - ?m) ..< unat i + 2 ^ (j - ?m)} \<Longrightarrow> core b' (uint (BLOCK b x)) = core b3 (uint (BLOCK b x))"
      using Suc.IH [OF b(7) _ kj(1) _ fresh3] Suc.prems(2,4) unfolding h3 by auto
    have av: "avail b j = Some ?nx" using soundD(10) [OF d(1)] Suc.prems(4) by (simp add: avail_def)
    have "split_blocks i k (Suc j) b = Some b'"
      using kj b(1,2,3) r(1) av pn(2) by (simp add: Let_def)
    moreover have "mset (free_units ?m 0 fl') = mset ([unat i + 2 ^ (k - ?m) ..< unat i + 2 ^ (Suc j - ?m)] @ free_units ?m 0 fl)"
    proof -
      have le: "(2 :: nat) ^ (k - ?m) \<le> 2 ^ (j - ?m)" using kj by (simp add: power_increasing)
      have "[unat i + 2 ^ (k - ?m) ..< unat i + 2 ^ (Suc j - ?m)]
        = [unat i + 2 ^ (k - ?m) ..< unat i + 2 ^ (j - ?m)] @ [unat i + 2 ^ (j - ?m) ..< unat i + 2 ^ (Suc j - ?m)]"
        unfolding dbl using le upt_add_eq_append [of "unat i + 2 ^ (k - ?m)" "unat i + 2 ^ (j - ?m)" "2 ^ (j - ?m)"] by (simp add: mult_2 add.assoc)
      then show ?thesis using r(5) ms sp by (simp add: ac_simps)
    qed
    moreover have "core b' (uint (BLOCK b x)) = core b (uint (BLOCK b x))"
      if "unat x \<notin> {unat i + 2 ^ (k - ?m) ..< unat i + 2 ^ (Suc j - ?m)}" for x
    proof -
      have le: "(2 :: nat) ^ (k - ?m) \<le> 2 ^ (j - ?m)" using kj by (simp add: power_increasing)
      have "x \<noteq> ?pn" using that le pos unfolding dbl by (auto simp: pn)
      then have "uint (BLOCK b x) \<noteq> uint (BLOCK b ?pn)" by (simp add: uint_BLOCK_inj)
      then have "core b3 (uint (BLOCK b x)) = core b (uint (BLOCK b x))" by (rule b(8))
      moreover have "core b' (uint (BLOCK b x)) = core b3 (uint (BLOCK b x))" using that unfolding dbl by (intro r(6)) auto
      ultimately show ?thesis by simp
    qed
    ultimately show ?thesis using r(2,3,4) b(5,6) by (intro exI [of _ b'] exI [of _ fl']) auto
  qed (use Suc.prems in \<open>auto simp: Let_def\<close>)
qed auto

text \<open>Taking the first block of a list.\<close>

lemma find_order_None: "find_order b j n = None \<longleftrightarrow> (\<forall>i. j \<le> i \<and> i < j + n \<longrightarrow> avail b i = Some 0)"
proof (induction n arbitrary: j)
  case (Suc n)
  have "(\<forall>i. j \<le> i \<and> i < j + Suc n \<longrightarrow> avail b i = Some 0) \<longleftrightarrow>
    avail b j = Some 0 \<and> (\<forall>i. j + 1 \<le> i \<and> i < (j + 1) + n \<longrightarrow> avail b i = Some 0)"
    by (metis add_Suc_right add_Suc Suc_eq_plus1 Suc_le_eq le_neq_implies_less less_add_Suc1 order.refl order_less_imp_le)
  then show ?case using Suc [of "j + 1"] by simp
qed auto

lemma find_order_Some: "find_order b j n = Some i \<Longrightarrow> j \<le> i \<and> i < j + n \<and> avail b i \<noteq> Some 0"
proof (induction n arbitrary: j)
  case (Suc n)
  show ?case
  proof (cases "avail b j = Some 0")
    case True
    then show ?thesis using Suc.IH [of "j + 1"] Suc.prems by simp
  qed (use Suc.prems in simp)
qed simp

lemma pop_block:
  assumes l: "links_ok b fl" and j: "j \<le> b_kmax b" and i: "b_avail b ! j = i" "i \<noteq> 0" and k: "k \<le> j"
  shows "\<exists>y b1 b2 b3 rest. avail b j = Some i \<and> at b (uint (BLOCK b i)) = Some y \<and> set_avail j (b_next y) b = Some b1 \<and>
    upd (uint (b_next y)) (\<lambda>x. x\<lparr>b_prev := 0\<rparr>) b1 = Some b2 \<and>
    upd (uint (BLOCK b i)) (\<lambda>l. l\<lparr>b_prev := 0, b_next := 0, b_tag := Used, b_kval := k\<rparr>) b2 = Some b3 \<and>
    fl ! j = i # rest \<and> b_kmin b \<le> j \<and> hdr b3 = hdr b \<and> b_nfree b3 = b_nfree b \<and> links_ok b3 (fl[j := rest]) \<and>
    (\<forall>n. n \<noteq> uint (BLOCK b i) \<longrightarrow> core b3 n = core b n) \<and> (\<exists>p. core b3 (uint (BLOCK b i)) = Some (Used, k, p))"
proof -
  note d = linksD [OF l]
  let ?n = "uint (BLOCK b i)" and ?m = "b_kmin b"
  obtain rest where f: "fl ! j = i # rest" using d(4) [OF j] i by (cases "fl ! j") auto
  have jl: "j < length fl" using j d(2) by simp
  have ij: "?m \<le> j" using d(3) [of j] f by (cases "j < ?m") simp_all
  have free: "unat i \<in> set (free_units ?m 0 fl)" using listed_free [OF jl, of i ?m] f by simp
  have r: "in_range b (unat i)" using d(6) [OF free] .
  obtain y where y: "at b ?n = Some y" using BLOCK_in [OF d(1) r] by blast
  have ch: "chain b j (b_next y) rest" using d(4) [OF j] f y by simp
  define b1 where "b1 = b\<lparr>b_avail := (b_avail b)[j := b_next y]\<rparr>"
  have la: "length (b_avail b) = b_kmax b + 1" using soundD(10) [OF d(1)] .
  have s1: "set_avail j (b_next y) b = Some b1" using la j by (simp add: set_avail_def b1_def)
  have h1: "hdr b1 = hdr b" by (simp add: hdr_def b1_def)
  have c1: "chain b1 q x xs = chain b q x xs" for q x xs by (simp add: b1_def chain_avail)
  have nl: "uint (b_next y) < int (length (b_blocks b1))"
  proof (cases rest)
    case Nil
    then have "b_next y = 0" using ch by simp
    then show ?thesis using in_range_bounds(2) [OF d(1) r] by (auto simp: b1_def)
  next
    case (Cons x xs)
    then have "b_next y = x" using ch by simp
    moreover have "unat x \<in> set (free_units ?m 0 fl)" using listed_free [OF jl, of x ?m] f Cons by simp
    then have "unat x < length (b_blocks b)" by (rule in_range_bounds(2) [OF d(1) d(6)])
    then have "uint x < int (length (b_blocks b))" by (simp only: uint_nat of_nat_less_iff)
    ultimately show ?thesis by (simp add: b1_def)
  qed
  obtain b2 where b2: "upd (uint (b_next y)) (\<lambda>x. x\<lparr>b_prev := 0\<rparr>) b1 = Some b2" "strip b2 = strip b1" "b_nfree b2 = b_nfree b1" "core b2 = core b1"
    using upd_prev [OF unsigned_greater_eq nl, of 0] by blast
  have h2: "hdr b2 = hdr b" using strip_hdr [OF b2(2)] h1 by simp
  let ?f = "\<lambda>l. l\<lparr>b_prev := 0, b_next := 0, b_tag := Used, b_kval := k\<rparr>"
  have nl2: "?n < int (length (b_blocks b2))" using BLOCK_in(2) [OF d(1) r] hdrD(8) [OF h2] by simp
  obtain b3 where b3: "upd ?n ?f b2 = Some b3" "hdr b3 = hdr b2" "b_nfree b3 = b_nfree b2" "b_avail b3 = b_avail b2"
    "\<And>m. m \<noteq> ?n \<Longrightarrow> at b3 m = at b2 m" "at b3 ?n = map_option ?f (at b2 ?n)"
    using upd_any [OF _ nl2, of ?f] by auto
  have h3: "hdr b3 = hdr b" using b3(2) h2 by simp
  note h3' = hdrD [OF h3]
  let ?fl = "fl[j := rest]"
  have ms: "mset (free_units ?m 0 fl) = mset (span ?m j i @ free_units ?m 0 ?fl)" using free_units_pop [OF jl f] .
  have dis: "distinct (span ?m j i @ free_units ?m 0 ?fl)" using mset_eq_imp_distinct_iff [OF ms] d(5) by simp
  have sub: "set (free_units ?m 0 ?fl) \<subseteq> set (free_units ?m 0 fl)" using mset_eq_setD [OF ms] by auto
  have nin: "unat i \<notin> set (free_units ?m 0 ?fl)" using dis span_self [of i ?m j] by auto
  have "chain b3 q (b_avail b3 ! q) (?fl ! q)" if q: "q < length fl" for q
  proof -
    have "chain b2 q (b_avail b1 ! q) (?fl ! q) = chain b1 q (b_avail b1 ! q) (?fl ! q)" by (metis chain_strip b2(2))
    also have "chain b1 q (b_avail b1 ! q) (?fl ! q)"
      using q la d(2) j d(4) [of q] ch by (cases "q = j") (simp_all add: c1, simp_all add: b1_def)
    finally have c2: "chain b2 q (b_avail b1 ! q) (?fl ! q)" .
    have B: "BLOCK b2 = BLOCK b" using hdrD(11) [OF h2] .
    have "nat ?n \<notin> (\<lambda>x. unat (BLOCK b2 x)) ` set (?fl ! q)"
      using nin listed_free [of q ?fl i ?m] q
      by (auto simp: B BLOCK_inj word_eq_iff_unsigned [where 'a = nat, symmetric] simp flip: unat_eq_nat_uint)
    then show ?thesis using chain_upd [OF c2 _ b3(1)] b3(4) strip_avail [OF b2(2)] by simp
  qed
  then have "links_ok b3 ?fl"
    using d(1,2,3,6) dis sub ij by (auto simp: links_ok_def h3' nth_list_update)
  moreover have "core b3 n = core b n" if "n \<noteq> ?n" for n
  proof -
    have "core b1 n = core b n" by (simp add: core_def at_def b1_def)
    moreover have "core b3 n = core b2 n" using b3(5) [OF that] by (simp add: core_def)
    ultimately show ?thesis using b2(4) by simp
  qed
  moreover obtain y2 where "at b2 ?n = Some y2" using nl2 by (cases "at b2 ?n") (auto simp: at_def)
  then have "\<exists>p. core b3 ?n = Some (Used, k, p)" using b3(6) by (simp add: core_def)
  moreover have "avail b j = Some i" using la j i by (simp add: avail_def)
  moreover have "b_nfree b3 = b_nfree b" using b3(3) b2(3) by (simp add: b1_def)
  ultimately show ?thesis using y s1 b2(1) b3(1) f ij h3 by blast
qed

lemma div_mem_interval: "0 < K \<Longrightarrow> a div K \<in> {i ..< i + n} \<longleftrightarrow> a \<in> {i * K ..< i * K + n * (K :: nat)}"
  using less_eq_div_iff_mult_less_eq [of K i a] div_less_iff_less_mult [of K a "i + n"] by (simp add: add_mult_distrib)

lemma ISPOWEROF2_pow: "k < 64 \<Longrightarrow> ISPOWEROF2 (2 ^ k)"
proof -
  assume k: "k < 64"
  have "(2 :: u64) ^ k AND (2 ^ k - 1) = 0"
    by (rule bit_eqI) (simp add: bit_and_iff bit_exp_iff bit_mask_iff flip: mask_eq_exp_minus_1)
  moreover have "(2 :: u64) ^ k \<noteq> 0" using unat_pow [OF k] by (metis unsigned_0 power_not_zero zero_neq_numeral)
  ultimately show ?thesis by (simp add: ISPOWEROF2_def)
qed

text \<open>What is asked for, rounded up to the smallest block.\<close>

definition need :: "bal \<Rightarrow> u64 \<Rightarrow> nat" where
  "need b sz = max (2 ^ b_kmin b) (unat sz)"

lemma need_word: "sound b \<Longrightarrow> unat (if sz < b_bminsz b then b_bminsz b else sz) = need b sz"
  using soundD(4) [of b] by (auto simp: need_def word_less_nat_alt)

text \<open>There is a block to take a power of two from.\<close>

definition has_room :: "bal \<Rightarrow> u32 list list \<Rightarrow> u64 \<Rightarrow> bool" where
  "has_room b fl sz \<longleftrightarrow> (\<exists>k \<in> {0 .. b_kmax b}. need b sz = 2 ^ k \<and> (\<exists>j \<in> {k .. b_kmax b}. fl ! j \<noteq> []))"

lemma avail_empty: "links_ok b fl \<Longrightarrow> j \<le> b_kmax b \<Longrightarrow> avail b j = Some 0 \<longleftrightarrow> fl ! j = []"
  using linksD(4) [of b fl j] soundD(10) [OF linksD(1), of b fl] by (cases "fl ! j") (auto simp: avail_def)

lemma no_room:
  assumes ok: "links_ok b fl" and r: "\<not> has_room b fl sz"
  shows "xphysalloc sz tag b = Some (0, b)"
proof -
  note d = linksD [OF ok]
  define s where "s = (if sz < b_bminsz b then b_bminsz b else sz)"
  have u: "unat s = need b sz" unfolding s_def by (rule need_word [OF d(1)])
  have nz: "b_size b \<noteq> 0" using soundD(7) [OF d(1)] by simp
  have "find_order b (lg2floor s) (b_kmax b + 1 - lg2floor s) = None" if p: "ISPOWEROF2 s"
    unfolding find_order_None
  proof (intro allI impI)
    fix i assume i: "lg2floor s \<le> i \<and> i < lg2floor s + (b_kmax b + 1 - lg2floor s)"
    then have "fl ! i = []" using r power_of_2 [OF p] u by (force simp: has_room_def)
    moreover have "i \<le> b_kmax b" using i by linarith
    ultimately show "avail b i = Some 0" using avail_empty [OF ok, of i] by simp
  qed
  then show ?thesis using nz unfolding xphysalloc_def Let_def s_def [symmetric] by simp
qed

lemma xphysalloc_room:
  assumes ok: "bal_ok b fl" and r: "has_room b fl sz"
  shows "\<exists>i b' fl' k. xphysalloc sz tag b = Some (b_memory b + b_bminsz b * ucast (BLOCK b i), b') \<and> bal_ok b' fl' \<and> hdr b' = hdr b \<and>
    need b sz = 2 ^ k \<and> b_kmin b \<le> k \<and> k \<le> b_kmax b \<and> in_range b (unat i) \<and>
    mset (free_units (b_kmin b) 0 fl) = mset (span (b_kmin b) k i @ free_units (b_kmin b) 0 fl') \<and>
    core b' (uint (BLOCK b i)) = Some (Used, k, tag) \<and>
    (\<forall>x. unat x \<notin> set (free_units (b_kmin b) 0 fl) \<longrightarrow> core b' (uint (BLOCK b x)) = core b (uint (BLOCK b x)))"
proof -
  have l: "links_ok b fl" using ok by (simp add: bal_ok_def)
  note d = linksD [OF l]
  note s = soundD [OF d(1)]
  let ?m = "b_kmin b"
  define w where "w = (if sz < b_bminsz b then b_bminsz b else sz)"
  have u: "unat w = need b sz" unfolding w_def by (rule need_word [OF d(1)])
  obtain k j0 where k: "need b sz = 2 ^ k" "k \<le> j0" "j0 \<le> b_kmax b" "fl ! j0 \<noteq> []" using r by (auto simp: has_room_def)
  have k64: "k < 64" using k(2,3) s(3) by simp
  have w: "w = 2 ^ k" using u k(1) unat_pow [OF k64] by (simp add: word_eq_iff_unsigned [where 'a = nat])
  have p: "ISPOWEROF2 w" unfolding w by (rule ISPOWEROF2_pow [OF k64])
  have lg: "lg2floor w = k" using power_of_2 [OF p] u k(1) by simp
  have km: "?m \<le> k" using k(1) by (metis need_def max.cobounded1 one_less_numeral_iff power_le_imp_le_exp semiring_norm(76))
  have "find_order b k (b_kmax b + 1 - k) \<noteq> None"
    unfolding find_order_None using k(2,3,4) avail_empty [OF l k(3)] by (auto intro!: exI [of _ j0])
  then obtain j where j: "find_order b k (b_kmax b + 1 - k) = Some j" by blast
  have jb: "k \<le> j" "j \<le> b_kmax b" "avail b j \<noteq> Some 0" using find_order_Some [OF j] k(2,3) by auto
  have ai: "b_avail b ! j \<noteq> 0" using jb s(10) by (simp add: avail_def)
  obtain i y b1 b2 b3 rest where op: "avail b j = Some i" "at b (uint (BLOCK b i)) = Some y" "set_avail j (b_next y) b = Some b1"
    "upd (uint (b_next y)) (\<lambda>x. x\<lparr>b_prev := 0\<rparr>) b1 = Some b2"
    "upd (uint (BLOCK b i)) (\<lambda>l. l\<lparr>b_prev := 0, b_next := 0, b_tag := Used, b_kval := k\<rparr>) b2 = Some b3"
    "fl ! j = i # rest" "hdr b3 = hdr b" "b_nfree b3 = b_nfree b" "links_ok b3 (fl[j := rest])"
    "\<And>n. n \<noteq> uint (BLOCK b i) \<Longrightarrow> core b3 n = core b n" "\<exists>p. core b3 (uint (BLOCK b i)) = Some (Used, k, p)"
    using pop_block [OF l jb(2) refl ai jb(1)] by blast
  note h3 = hdrD [OF op(7)]
  let ?fl = "fl[j := rest]"
  have jl: "j < length fl" using jb(2) d(2) by simp
  have ms: "mset (free_units ?m 0 fl) = mset (span ?m j i @ free_units ?m 0 ?fl)" using free_units_pop [OF jl op(6)] .
  have dis: "distinct (span ?m j i @ free_units ?m 0 ?fl)" using mset_eq_imp_distinct_iff [OF ms] d(5) by simp
  have fresh: "in_range b3 x \<and> x \<notin> set (free_units (b_kmin b3) 0 ?fl)" if "x \<in> {unat i ..< unat i + 2 ^ (j - b_kmin b3)}" for x
    using that dis mset_eq_setD [OF ms] d(6) [of x] unfolding h3 by (auto simp: span_def)
  obtain b4 fl' where q: "split_blocks i k j b3 = Some b4" "links_ok b4 fl'" "hdr b4 = hdr b3" "b_nfree b4 = b_nfree b3"
    "mset (free_units ?m 0 fl') = mset ([unat i + 2 ^ (k - ?m) ..< unat i + 2 ^ (j - ?m)] @ free_units ?m 0 ?fl)"
    "\<And>x. unat x \<notin> {unat i + 2 ^ (k - ?m) ..< unat i + 2 ^ (j - ?m)} \<Longrightarrow> core b4 (uint (BLOCK b x)) = core b3 (uint (BLOCK b x))"
    using split_ok [where i = i, OF op(9) _ jb(1) _ fresh] km jb(2) unfolding h3 by auto
  have pw: "(2 :: nat) ^ (k - ?m) \<le> 2 ^ (j - ?m)" using jb(1) by (simp add: power_increasing)
  have "[unat i ..< unat i + 2 ^ (j - ?m)] = [unat i ..< unat i + 2 ^ (k - ?m)] @ [unat i + 2 ^ (k - ?m) ..< unat i + 2 ^ (j - ?m)]"
    using upt_add_eq_append [of "unat i" "unat i + 2 ^ (k - ?m)" "2 ^ (j - ?m) - 2 ^ (k - ?m)"] pw by simp
  then have ms': "mset (free_units ?m 0 fl) = mset (span ?m k i @ free_units ?m 0 fl')"
    using ms q(5) by (simp add: span_def)
  have r: "in_range b (unat i)" using d(6) mset_eq_setD [OF ms'] span_self [of i ?m k] by auto
  note ba = block_address [OF d(1) r]
  define b5 where "b5 = b4\<lparr>b_nfree := b_nfree b4 - w div b_bminsz b4\<rparr>"
  have h5: "hdr b5 = hdr b" using q(3) op(7) by (simp add: b5_def hdr_def)
  note h5' = hdrD [OF h5]
  have l5: "links_ok b5 fl'" using q(2) links_ok_strip [of b5 b4 fl'] by (simp add: b5_def strip_def)
  have nl: "uint (BLOCK b i) < int (length (b_blocks b5))" using BLOCK_in(2) [OF d(1) r] h5' by simp
  obtain b6 where b6: "upd (uint (BLOCK b i)) (\<lambda>l. l\<lparr>b_p := tag\<rparr>) b5 = Some b6" "strip b6 = strip b5" "b_nfree b6 = b_nfree b5"
    "\<And>m. m \<noteq> uint (BLOCK b i) \<Longrightarrow> core b6 m = core b5 m" "core b6 (uint (BLOCK b i)) = map_option (\<lambda>(t, k, p). (t, k, tag)) (core b5 (uint (BLOCK b i)))"
    using upd_p [OF _ nl, of tag] by auto
  have l6: "links_ok b6 fl'" using l5 links_ok_strip [OF b6(2)] by simp
  have h6: "hdr b6 = hdr b" using strip_hdr [OF b6(2)] h5 by simp
  have h4: "b_bminsz b4 = b_bminsz b" using hdrD(5) [OF q(3)] h3(5) by simp
  have b5': "b4\<lparr>b_nfree := b_nfree b4 - w div b_bminsz b\<rparr> = b5" by (simp add: b5_def h4)
  have "xphysalloc sz tag b = Some (b_memory b + b_bminsz b * ucast (BLOCK b i), b6)"
    unfolding xphysalloc_def Let_def w_def [symmetric] lg j
    using s(7) p op(1,2,3,4,5) q(1) ba(2,3) b6(1)
    by (simp add: b5' h5' hdrD(1,2,5,6) [OF trans [OF q(3) op(7)]])
  moreover have "b_nfree b6 = of_nat (length (free_units ?m 0 fl'))"
  proof -
    have n: "length (free_units ?m 0 fl) = 2 ^ (k - ?m) + length (free_units ?m 0 fl')"
      using mset_eq_length [OF ms'] by (simp add: span_def)
    have "unat (w div b_bminsz b) = 2 ^ (k - ?m)" using km unat_pow [OF k64] s(4) by (simp add: unat_div w power_diff)
    then have "w div b_bminsz b = of_nat (2 ^ (k - ?m))" by (metis of_nat_unat ucast_id)
    then show ?thesis using ok n b6(3) q(4) op(8) h4 by (simp add: bal_ok_def b5_def)
  qed
  moreover have "core b6 (uint (BLOCK b x)) = core b (uint (BLOCK b x))" if x: "unat x \<notin> set (free_units ?m 0 fl)" for x
  proof -
    have c5: "core b5 = core b4" by (rule ext) (simp add: core_def at_def b5_def)
    have "unat i \<in> set (free_units ?m 0 fl)" using mset_eq_setD [OF ms'] span_self [of i ?m k] by auto
    then have ne: "uint (BLOCK b x) \<noteq> uint (BLOCK b i)" using x uint_BLOCK_inj [of b x i] by auto
    have "unat x \<notin> {unat i + 2 ^ (k - ?m) ..< unat i + 2 ^ (j - ?m)}" using x mset_eq_setD [OF ms] by (auto simp: span_def)
    then show ?thesis using b6(4) [OF ne] q(6) [of x] op(10) [OF ne] c5 by simp
  qed
  moreover have "core b6 (uint (BLOCK b i)) = Some (Used, k, tag)"
  proof -
    have "core b5 (uint (BLOCK b i)) = core b4 (uint (BLOCK b i))" by (simp add: core_def at_def b5_def)
    also have "\<dots> = core b3 (uint (BLOCK b i))" by (rule q(6)) simp
    finally show ?thesis using op(11) b6(5) by auto
  qed
  ultimately show ?thesis using l6 h6 k(1) km k(2,3) r ms' hdrD(3) [OF h6] order_trans [OF jb(1,2)]
    by (intro exI [of _ i] exI [of _ b6] exI [of _ fl'] exI [of _ k]) (simp add: bal_ok_def)
qed

lemma buddy_ne: "0 < n \<Longrightarrow> buddy_of li n \<noteq> li"
  by (simp add: buddy_of_def)

text \<open>Giving back a block whose buddy is not free.\<close>

lemma xphysfree_alone:
  assumes ok: "bal_ok b fl" and k: "b_kmin b \<le> k" "k \<le> b_kmax b" and sz: "unat sz = 2 ^ k" and m: "INDEX b m = i" "m \<noteq> 0"
    and fresh: "\<And>x. x \<in> set (span (b_kmin b) k i) \<Longrightarrow> in_range b x \<and> x \<notin> set (free_units (b_kmin b) 0 fl)"
    and held: "core b (uint (BLOCK b i)) = Some (t, k, p)"
    and alone: "k = b_kmax b \<or> (\<exists>t' k' p'. core b (buddy_of (uint (BLOCK b i)) (units b k)) = Some (t', k', p') \<and> (t' = Used \<or> k' \<noteq> k))"
  shows "\<exists>b'. xphysfree m sz b = Some b' \<and> bal_ok b' (fl[k := i # fl ! k]) \<and> hdr b' = hdr b \<and>
    core b' (uint (BLOCK b i)) = Some (Avail, k, None) \<and> (\<forall>n. n \<noteq> uint (BLOCK b i) \<longrightarrow> core b' n = core b n)"
proof -
  have l: "links_ok b fl" using ok by (simp add: bal_ok_def)
  note d = linksD [OF l]
  note s = soundD [OF d(1)]
  let ?n = "uint (BLOCK b i)" and ?m = "b_kmin b"
  have r: "in_range b (unat i)" using fresh [OF span_self] by simp
  obtain b1 where b1: "upd ?n (\<lambda>l. l\<lparr>b_p := None\<rparr>) b = Some b1" "strip b1 = strip b" "b_nfree b1 = b_nfree b"
    "\<And>n. n \<noteq> ?n \<Longrightarrow> core b1 n = core b n" "core b1 ?n = map_option (\<lambda>(t, k, p). (t, k, None)) (core b ?n)"
    using upd_p [OF BLOCK_in(1,2) [OF d(1) r], of None] by auto
  note h1 = hdrD [OF strip_hdr [OF b1(2)]]
  have c1: "core b1 ?n = Some (t, k, None)" using b1(5) held by simp
  then obtain y where y: "at b1 ?n = Some y" "b_kval y = k" "b_p y = None" by (auto simp: core_def)
  have l1: "links_ok b1 fl" using l links_ok_strip [OF b1(2)] by simp
  have u: "units b k = 2 ^ (k - ?m)" by (rule units_pow [OF d(1) k(1)])
  let ?f = "\<lambda>l. l\<lparr>b_tag := Avail, b_next := b_avail b1 ! k, b_prev := 0\<rparr>"
  obtain b2 b3 b4 where b: "upd (uint (BLOCK b1 i)) ?f b1 = Some b2"
    "(if b_avail b1 ! k \<noteq> 0 then upd (uint (BLOCK b2 (b_avail b1 ! k))) (\<lambda>x. x\<lparr>b_prev := i\<rparr>) b2 else Some b2) = Some b3"
    "set_avail k i b3 = Some b4" "hdr b2 = hdr b1" "hdr b4 = hdr b1" "b_nfree b4 = b_nfree b1" "links_ok b4 (fl[k := i # fl ! k])"
    "\<And>n. n \<noteq> uint (BLOCK b1 i) \<Longrightarrow> core b4 n = core b1 n"
    "core b4 (uint (BLOCK b1 i)) = map_option (\<lambda>y. (Avail, k, b_p (?f y))) (at b1 (uint (BLOCK b1 i)))"
    using push_block [where f = ?f and v = i and i = i and j = k, OF l1] k fresh y unfolding h1 by auto
  define b5 where "b5 = b4\<lparr>b_nfree := b_nfree b4 + sz div b_bminsz b4\<rparr>"
  have av: "avail b1 k = Some (b_avail b1 ! k)" using s(10) k(2) h1 by (simp add: avail_def)
  have put: "put_on_list i sz b1 = Some b5"
    unfolding put_on_list_def Let_def using b(1,2,3) y av by (simp add: h1 b5_def)
  have "liberate i sz b = Some b5"
  proof (cases "k = b_kmax b")
    case True
    then show ?thesis using put b1(1) y k s(3) u by (subst liberate.simps) (simp add: Let_def h1)
  next
    case False
    then obtain t' k' p' where a: "core b (buddy_of ?n (units b k)) = Some (t', k', p')" "t' = Used \<or> k' \<noteq> k" using alone by auto
    have "buddy_of ?n (units b k) \<noteq> ?n" by (rule buddy_ne) (simp add: u)
    then have "core b1 (buddy_of ?n (units b k)) = Some (t', k', p')" using a(1) b1(4) by simp
    then obtain q where q: "at b1 (buddy_of ?n (units b k)) = Some q" "b_tag q = t'" "b_kval q = k'" by (auto simp: core_def)
    show ?thesis using put b1(1) y q a(2) False k s(3) u by (subst liberate.simps) (cases t'; auto simp: Let_def h1)
  qed
  then have x: "xphysfree m sz b = Some b5" using m by (simp add: xphysfree_def)
  have h5: "hdr b5 = hdr b" using b(5) strip_hdr [OF b1(2)] by (simp add: b5_def hdr_def)
  note h5' = hdrD [OF h5]
  let ?fl = "fl[k := i # fl ! k]"
  have "links_ok b5 ?fl" using b(7) links_ok_strip [of b5 b4 ?fl] by (simp add: b5_def strip_def)
  moreover have "b_nfree b5 = of_nat (length (free_units ?m 0 ?fl))"
  proof -
    have "length (free_units ?m 0 ?fl) = 2 ^ (k - ?m) + length (free_units ?m 0 fl)"
      using mset_eq_length [OF free_units_push [of k fl ?m i]] k(2) d(2) by (simp add: span_def)
    moreover have "unat (sz div b_bminsz b) = 2 ^ (k - ?m)" using k sz s(4) by (simp add: unat_div power_diff)
    then have "sz div b_bminsz b = of_nat (2 ^ (k - ?m))" by (metis of_nat_unat ucast_id)
    ultimately show ?thesis using ok b(6) b1(3) hdrD(5) [OF trans [OF b(5) strip_hdr [OF b1(2)]]] by (simp add: bal_ok_def b5_def)
  qed
  moreover have "core b5 = core b4" by (rule ext) (simp add: core_def at_def b5_def)
  ultimately show ?thesis using x h5 h5' b(8,9) b1(4) y h1 by (intro exI [of _ b5]) (simp add: bal_ok_def)
qed

lemma free_mem_span:
  assumes "mset us = mset (span (b_kmin b) k i @ vs)" "b_kmin b \<le> k" "unat m = unat i * 2 ^ b_kmin b"
  shows "{a. a div 2 ^ b_kmin b \<in> set us} = {unat m ..< unat m + 2 ^ k} \<union> {a. a div 2 ^ b_kmin b \<in> set vs}"
proof -
  have "2 ^ (k - b_kmin b) * 2 ^ b_kmin b = (2 :: nat) ^ k" using assms(2) by (simp flip: power_add)
  then have "a div 2 ^ b_kmin b \<in> set (span (b_kmin b) k i) \<longleftrightarrow> a \<in> {unat m ..< unat m + 2 ^ k}" for a
    using div_mem_interval [of "2 ^ b_kmin b" a "unat i" "2 ^ (k - b_kmin b)"] assms(3) by (simp add: span_def)
  then show ?thesis using mset_eq_setD [OF assms(1)] by auto
qed

lemma xphystag_core:
  "data \<noteq> 0 \<Longrightarrow> core b (uint (BLOCK b (INDEX b data))) = Some (t, k, p) \<Longrightarrow> xphystag data b = Some p"
  by (auto simp: xphystag_def core_def)

text \<open>
  C15. Reservation. Let the \<open>next\<close> chains of an allocator hold the blocks of the lists \<open>fl\<close>: they end, no byte is in two
  blocks, and \<open>nfree\<close> counts them. If \<open>size\<close>, or the smallest block if that is larger, is a power of two and there is a
  free block as large, \<open>xphysalloc\<close> returns an aligned range of just so many bytes, all of which were free and none of
  which is free afterwards, however often it had to split; all other bytes stay as they were, the counter is right, the tag
  is that of the caller, and the blocks others hold are not touched. Else it returns 0 and changes nothing. It fails
  no assertion and leaves no array.\<close>

theorem xphysalloc_takes:
  assumes "bal_ok b fl"
  shows "if has_room b fl sz
    then \<exists>m b' fl'. xphysalloc sz tag b = Some (m, b') \<and> bal_ok b' fl' \<and> m \<noteq> 0 \<and> unat m mod 2 ^ b_kmin b = 0 \<and>
      {unat m ..< unat m + need b sz} \<subseteq> free_mem b fl \<and>
      free_mem b' fl' = free_mem b fl - {unat m ..< unat m + need b sz} \<and>
      b_nfree b' = b_nfree b - of_nat (need b sz div 2 ^ b_kmin b) \<and> xphystag m b' = Some tag \<and>
      (\<forall>x. unat x * 2 ^ b_kmin b \<notin> free_mem b fl \<longrightarrow> core b' (uint (BLOCK b x)) = core b (uint (BLOCK b x)))
    else xphysalloc sz tag b = Some (0, b)"
proof (cases "has_room b fl sz")
  case True
  let ?m = "b_kmin b"
  have l: "links_ok b fl" using assms by (simp add: bal_ok_def)
  note d = linksD [OF l]
  obtain i b' fl' k where a: "xphysalloc sz tag b = Some (b_memory b + b_bminsz b * ucast (BLOCK b i), b')" "bal_ok b' fl'" "hdr b' = hdr b"
    "need b sz = 2 ^ k" "?m \<le> k" "k \<le> b_kmax b" "in_range b (unat i)"
    "mset (free_units ?m 0 fl) = mset (span ?m k i @ free_units ?m 0 fl')"
    "core b' (uint (BLOCK b i)) = Some (Used, k, tag)"
    "\<And>x. unat x \<notin> set (free_units ?m 0 fl) \<Longrightarrow> core b' (uint (BLOCK b x)) = core b (uint (BLOCK b x))"
    using xphysalloc_room [OF assms True, of tag] by blast
  note h = hdrD [OF a(3)]
  define m where "m = b_memory b + b_bminsz b * ucast (BLOCK b i)"
  note ba = block_address [OF d(1) a(7), folded m_def]
  have fm: "free_mem b fl = {unat m ..< unat m + 2 ^ k} \<union> free_mem b' fl'"
    unfolding free_mem_def h using free_mem_span [OF a(8,5) ba(1)] .
  have "set (span ?m k i) \<inter> set (free_units ?m 0 fl') = {}"
    using mset_eq_imp_distinct_iff [OF a(8)] d(5) by auto
  moreover have "a div 2 ^ ?m \<in> set (span ?m k i)" if "a \<in> {unat m ..< unat m + 2 ^ k}" for a
    using that div_mem_interval [of "2 ^ ?m" a "unat i" "2 ^ (k - ?m)"] ba(1) a(5) by (simp add: span_def flip: power_add)
  ultimately have dj: "{unat m ..< unat m + 2 ^ k} \<inter> free_mem b' fl' = {}"
    unfolding free_mem_def h by blast
  have n: "b_nfree b' = b_nfree b - of_nat (2 ^ k div 2 ^ ?m)"
    using assms a(2,5) mset_eq_length [OF a(8)] by (simp add: bal_ok_def h span_def power_diff)
  have t: "xphystag m b' = Some tag" using xphystag_core [of m b'] a(9) ba(4,5) by (simp add: h)
  have fr: "core b' (uint (BLOCK b x)) = core b (uint (BLOCK b x))" if "unat x * 2 ^ ?m \<notin> free_mem b fl" for x
    using that a(10) [of x] by (simp add: free_mem_def)
  show ?thesis unfolding if_P [OF True]
    using a(1,2,4) ba(1,5) fm dj n t fr by (intro exI [of _ m] exI [of _ b'] exI [of _ fl']) (auto simp: m_def)
next
  case False
  then show ?thesis using no_room [of b fl sz tag] assms by (simp add: bal_ok_def)
qed

text \<open>
  Liberation. A range of \<open>2^k\<close> bytes of the domain that is not free, with the size the allocator has noted for it, and whose
  buddy is in use or of another size (or there is no larger size), is free after \<open>xphysfree\<close>, which returns; the rest of the
  free bytes stay free, the lists stay sound, the counter is right and the tag is gone. Together with the reservation this
  is all an allocator promises, as long as no buddies meet.\<close>

theorem xphysfree_gives:
  assumes ok: "bal_ok b fl" and k: "b_kmin b \<le> k" "k \<le> b_kmax b" and sz: "unat sz = 2 ^ k" and al: "unat m mod 2 ^ b_kmin b = 0"
    and mem: "b_base b \<le> m" "unat m + 2 ^ k \<le> unat (b_base b) + unat (b_size b)"
    and fresh: "{unat m ..< unat m + 2 ^ k} \<inter> free_mem b fl = {}"
    and held: "core b (uint (BLOCK b (INDEX b m))) = Some (t, k, p)"
    and alone: "k = b_kmax b \<or> (\<exists>t' k' p'. core b (buddy_of (uint (BLOCK b (INDEX b m))) (units b k)) = Some (t', k', p') \<and> (t' = Used \<or> k' \<noteq> k))"
  shows "\<exists>b' fl'. xphysfree m sz b = Some b' \<and> bal_ok b' fl' \<and>
    free_mem b' fl' = {unat m ..< unat m + 2 ^ k} \<union> free_mem b fl \<and>
    b_nfree b' = b_nfree b + of_nat (2 ^ k div 2 ^ b_kmin b) \<and> xphystag m b' = Some None \<and>
    (\<forall>x. x \<noteq> INDEX b m \<longrightarrow> core b' (uint (BLOCK b x)) = core b (uint (BLOCK b x)))"
proof -
  let ?m = "b_kmin b" and ?i = "INDEX b m"
  have l: "links_ok b fl" using ok by (simp add: bal_ok_def)
  note d = linksD [OF l]
  note s = soundD [OF d(1)]
  have K: "2 ^ (k - ?m) * 2 ^ ?m = (2 :: nat) ^ k" using k by (simp flip: power_add)
  have fits: "unat m < length (b_blocks b) * 2 ^ ?m" using mem(2) s(8) zero_less_power [of "2 :: nat" k] by linarith
  then have "unat m < 2 ^ 32 * 2 ^ ?m" using mult_le_mono1 [OF s(9), of "2 ^ ?m"] by linarith
  then have "unat m div 2 ^ ?m < 2 ^ 32" by (simp add: div_less_iff_less_mult)
  then have "unat ?i = unat m div 2 ^ ?m"
    using s(4) by (simp add: INDEX_def unsigned_ucast_eq unat_div take_bit_nat_eq_self_iff)
  then have i: "unat m = unat ?i * 2 ^ ?m" using al by (metis div_mult_mod_eq add_0_right)
  have "0 < unat (b_base b)" using s(5) d(1) by (simp add: sound_def word_le_nat_alt word_less_nat_alt)
  then have nz: "m \<noteq> 0" using mem(1) by (auto simp: word_le_nat_alt)
  have fresh': "in_range b x \<and> x \<notin> set (free_units ?m 0 fl)" if x: "x \<in> set (span ?m k ?i)" for x
  proof -
    have lo: "unat m \<le> x * 2 ^ ?m" using x i by (simp add: span_def)
    have "(x + 1) * 2 ^ ?m \<le> (unat ?i + 2 ^ (k - ?m)) * 2 ^ ?m" using x by (intro mult_le_mono1) (simp add: span_def)
    also have "\<dots> = unat m + 2 ^ k" unfolding add_mult_distrib K i by simp
    finally have hi: "(x + 1) * 2 ^ ?m \<le> unat m + 2 ^ k" .
    have "x * 2 ^ ?m \<in> {unat m ..< unat m + 2 ^ k}" using lo hi by (simp add: add_mult_distrib) (meson less_add_same_cancel2 less_le_trans zero_less_power zero_less_numeral)
    then have "x * 2 ^ ?m \<notin> free_mem b fl" using fresh by blast
    then show ?thesis using lo hi mem by (simp add: in_range_def free_mem_def word_le_nat_alt)
  qed
  obtain b' where b: "xphysfree m sz b = Some b'" "bal_ok b' (fl[k := ?i # fl ! k])" "hdr b' = hdr b"
    "core b' (uint (BLOCK b ?i)) = Some (Avail, k, None)" "\<And>n. n \<noteq> uint (BLOCK b ?i) \<Longrightarrow> core b' n = core b n"
    using xphysfree_alone [OF ok k sz refl nz fresh' held alone] by blast
  note h = hdrD [OF b(3)]
  have ms: "mset (free_units ?m 0 (fl[k := ?i # fl ! k])) = mset (span ?m k ?i @ free_units ?m 0 fl)"
    using free_units_push k(2) d(2) by simp
  have "free_mem b' (fl[k := ?i # fl ! k]) = {unat m ..< unat m + 2 ^ k} \<union> free_mem b fl"
    unfolding free_mem_def h using free_mem_span [OF ms k(1) i] .
  moreover have "b_nfree b' = b_nfree b + of_nat (2 ^ k div 2 ^ ?m)"
    using ok b(2) k(1) mset_eq_length [OF ms] by (simp add: bal_ok_def h span_def power_diff)
  moreover have "xphystag m b' = Some None" using xphystag_core [OF nz, of b'] b(4) by (simp add: h)
  moreover have "core b' (uint (BLOCK b x)) = core b (uint (BLOCK b x))" if "x \<noteq> ?i" for x
    using that b(5) uint_BLOCK_inj [of b x ?i] by simp
  ultimately show ?thesis using b(1,2) by blast
qed

subsection \<open>A machine\<close>

text \<open>20 MB from 4 MB on, of which nothing is known to the firmware.\<close>

definition MB :: u64 where "MB = 2 ^ 20"

definition boot_mem :: "pmem option" where
  "boot_mem = physinit [] (4 * MB) (24 * MB) (4 * MB) (20 * MB) pmem0"

definition boot_bal :: bal where
  "boot_bal = (case boot_mem of None \<Rightarrow> bal0 | Some s \<Rightarrow> balt s ! 0)"

lemma in_range_code [code]:
  "in_range b x \<longleftrightarrow> uint (b_base b) \<le> int x * 2 ^ b_kmin b \<and> (int x + 1) * 2 ^ b_kmin b \<le> uint (b_base b) + uint (b_size b)"
proof -
  have "int (x * 2 ^ b_kmin b) = int x * 2 ^ b_kmin b" "int ((x + 1) * 2 ^ b_kmin b) = (int x + 1) * 2 ^ b_kmin b"
    by (simp_all add: distrib_right)
  then show ?thesis unfolding in_range_def uint_nat by (metis of_nat_add of_nat_le_iff)
qed

lemma sound_code [code]:
  "sound b \<longleftrightarrow> 0 < b_kmin b \<and> b_kmin b \<le> b_kmax b \<and> b_kmax b \<le> 30 \<and> b_bminsz b = 2 ^ b_kmin b \<and>
     uint (b_memory b) mod 2 ^ b_kmin b = 0 \<and> b_memory b \<le> b_base b \<and> 0 < b_memory b \<and> 0 < b_size b \<and>
     uint (b_base b) + uint (b_size b) < 2 ^ 64 \<and>
     uint (b_base b) + uint (b_size b) \<le> int (length (b_blocks b)) * 2 ^ b_kmin b \<and> int (length (b_blocks b)) \<le> 2 ^ 32 \<and>
     length (b_avail b) = b_kmax b + 1"
proof -
  have a: "uint (b_memory b) mod 2 ^ b_kmin b = 0 \<longleftrightarrow> unat (b_memory b) mod 2 ^ b_kmin b = 0"
  proof -
    have "int (unat (b_memory b) mod 2 ^ b_kmin b) = uint (b_memory b) mod 2 ^ b_kmin b" by (simp add: zmod_int)
    then show ?thesis by linarith
  qed
  have c: "int (unat x) = uint x" for x :: u64 by simp
  have "unat (b_base b) + unat (b_size b) \<le> length (b_blocks b) * 2 ^ b_kmin b \<longleftrightarrow>
      int (unat (b_base b) + unat (b_size b)) \<le> int (length (b_blocks b) * 2 ^ b_kmin b)" by (rule of_nat_le_iff [symmetric])
  then have b: "unat (b_base b) + unat (b_size b) \<le> length (b_blocks b) * 2 ^ b_kmin b \<longleftrightarrow>
    uint (b_base b) + uint (b_size b) \<le> int (length (b_blocks b)) * 2 ^ b_kmin b" by simp
  have "unat (b_base b) + unat (b_size b) < 2 ^ 64 \<longleftrightarrow> int (unat (b_base b) + unat (b_size b)) < int (2 ^ 64)" by (rule of_nat_less_iff [symmetric])
  then have e: "unat (b_base b) + unat (b_size b) < 2 ^ 64 \<longleftrightarrow> uint (b_base b) + uint (b_size b) < 2 ^ 64" by simp
  have f: "length (b_blocks b) \<le> 2 ^ 32 \<longleftrightarrow> int (length (b_blocks b)) \<le> 2 ^ 32" by simp
  show ?thesis unfolding sound_def a b e f by blast
qed

definition boot_lists :: "u32 list list" where
  "boot_lists = replicate 22 [] @ [[2], [], [4]] @ replicate 6 []"

lemma boot_ok: "bal_ok boot_bal boot_lists"
  by code_simp

lemma boot_fields: "b_kmin boot_bal = 21" "b_kmax boot_bal = 30"
  by code_simp+

lemma boot_room: "has_room boot_bal boot_lists (2 ^ 21)"
proof -
  have "need boot_bal (2 ^ 21) = 2 ^ 21" by (simp add: need_def boot_fields)
  moreover have "boot_lists ! 22 \<noteq> []" by code_simp
  ultimately show ?thesis unfolding has_room_def boot_fields
    by (intro bexI [of _ "21 :: nat"] conjI bexI [of _ "22 :: nat"]) simp_all
qed

theorem xphysalloc_takes_witness:
  "\<exists>m b' fl'. xphysalloc (2 ^ 21) (Some 7) boot_bal = Some (m, b') \<and> bal_ok b' fl' \<and> xphystag m b' = Some (Some 7) \<and>
     {unat m ..< unat m + 2 ^ 21} \<inter> free_mem b' fl' = {}"
  using xphysalloc_takes [OF boot_ok, of "2 ^ 21" "Some 7"] unfolding if_P [OF boot_room]
  by (simp only: need_def boot_fields) fastforce

text \<open>The second unit, once the first has been taken.\<close>

definition busy_bal :: bal where
  "busy_bal = (case xphysalloc (2 ^ 21) (Some 7) boot_bal of None \<Rightarrow> bal0 | Some (m, b) \<Rightarrow> b)"

definition busy_bal2 :: bal where
  "busy_bal2 = (case xphysalloc (2 ^ 21) (Some 8) busy_bal of None \<Rightarrow> bal0 | Some (m, b) \<Rightarrow> b)"

definition busy_lists2 :: "u32 list list" where
  "busy_lists2 = replicate 24 [] @ [[4]] @ replicate 6 []"

lemma busy2_ok: "bal_ok busy_bal2 busy_lists2"
  by code_simp

lemma busy2_fields: "b_kmin busy_bal2 = 21" "b_kmax busy_bal2 = 30" "b_base busy_bal2 = 4194304" "b_size busy_bal2 = 20971520"
  by code_simp+

lemma busy2_free: "{6291456 ..< 6291456 + 2 ^ 21} \<inter> free_mem busy_bal2 busy_lists2 = {}"
proof -
  have "set (free_units 21 0 busy_lists2) = set [4 ..< 12]" by code_simp
  then have "free_mem busy_bal2 busy_lists2 = {a. a div 2 ^ 21 \<in> {4 ..< 12}}" by (simp only: free_mem_def busy2_fields set_upt)
  then show ?thesis by auto
qed

theorem xphysfree_gives_witness:
  "\<exists>b' fl'. xphysfree 6291456 2097152 busy_bal2 = Some b' \<and> bal_ok b' fl' \<and>
     free_mem b' fl' = {6291456 ..< 8388608} \<union> free_mem busy_bal2 busy_lists2"
proof -
  have h: "core busy_bal2 (uint (BLOCK busy_bal2 (INDEX busy_bal2 6291456))) = Some (Used, 21, Some 8)" by code_simp
  have a: "core busy_bal2 (buddy_of (uint (BLOCK busy_bal2 (INDEX busy_bal2 6291456))) (units busy_bal2 21)) = Some (Used, 21, Some 7)"
    by code_simp
  show ?thesis
    using xphysfree_gives [OF busy2_ok, of 21 2097152 6291456 Used "Some 8"] h a busy2_free
    by (fastforce simp: busy2_fields word_le_nat_alt)
qed

subsection \<open>Pages of 2 MB\<close>

text \<open>What the page allocator does: it asks for single units, and gives back those it holds.\<close>

datatype preq = Get | Give u64

fun prun :: "preq list \<Rightarrow> u64 list \<Rightarrow> pmem \<Rightarrow> (u64 list \<times> pmem) option" where
  "prun [] held s = Some (held, s)"
| "prun (Get # rs) held s =
     (case physalloc (2 * MB) 0 None s of None \<Rightarrow> None
      | Some (m, c, s') \<Rightarrow> prun rs (if m = 0 then held else m # held) s')"
| "prun (Give m # rs) held s =
     (if m \<in> set held then (case physfree m (2 * MB) s of None \<Rightarrow> None | Some s' \<Rightarrow> prun rs (remove1 m held) s') else None)"

lemma case_option_ex: "(case x of None \<Rightarrow> False | Some y \<Rightarrow> P y) \<longleftrightarrow> (\<exists>y. x = Some y \<and> P y)"
  by (cases x) simp_all

text \<open>
  C27. When buddies meet, \<open>xphysfree\<close> loses blocks. It sets \<open>p->prev\<close> to 0 before it stores it in the successor of \<open>p\<close>, and it
  empties the list when \<open>p\<close> is its first block. On a machine with 20 MB, with nothing but requests for 2 MB and the return of
  blocks held, one sequence ends with a page in the hands of two owners; after another, a request fails though only 9 of the
  10 pages are out and the counter says that one is free.\<close>

theorem physfree_forgets:
  "(\<exists>s held s'. boot_mem = Some s \<and>
      prun [Get, Get, Get, Give (6 * MB), Get, Give (8 * MB), Get, Get, Get] [] s = Some (held, s') \<and> \<not> distinct held) \<and>
   (\<exists>s held s' c. boot_mem = Some s \<and>
      prun [Get, Get, Get, Get, Get, Get, Get, Give (8 * MB), Give (10 * MB), Get, Get, Get, Get] [] s = Some (held, s') \<and>
      length held = 9 \<and> b_nfree (balt s' ! 0) = 1 \<and> physalloc (2 * MB) 0 None s' = Some (0, c, s'))"
proof -
  have a: "case boot_mem of None \<Rightarrow> False | Some s \<Rightarrow>
    (case prun [Get, Get, Get, Give (6 * MB), Get, Give (8 * MB), Get, Get, Get] [] s of None \<Rightarrow> False | Some (held, s') \<Rightarrow> \<not> distinct held)"
    by code_simp
  have b: "case boot_mem of None \<Rightarrow> False | Some s \<Rightarrow>
    (case prun [Get, Get, Get, Get, Get, Get, Get, Give (8 * MB), Give (10 * MB), Get, Get, Get, Get] [] s of None \<Rightarrow> False | Some (held, s') \<Rightarrow>
      length held = 9 \<and> b_nfree (balt s' ! 0) = 1 \<and> 
      (case physalloc (2 * MB) 0 None s' of None \<Rightarrow> False | Some (m, c, s'') \<Rightarrow> m = 0 \<and> s'' = s'))"
    by code_simp
  show ?thesis using a b unfolding case_option_ex split_paired_Ex prod.case by meson
qed

end
