(* ===== verification/Runq.thy ===== *)
theory Runq
  imports Qlocks "HOL-Library.Signed_Division"
begin

text \<open>
  The run queues of \<open>port/proc.c\<close>: one queue for each priority, linked through \<open>rnext\<close> in the processes, with a word that
  has a bit for every queue that is not empty; the priority a process gets from the time it has had; and how a
  machine takes a process off a queue, runs it, and lets go of it. What the lock of the queues protects is one step.
  The processes here have no EDF reservation. A panic, a failed assertion and a queue that has no end are \<^term>\<open>None\<close>.
\<close>

unbundle bit_operations_syntax

subsection \<open>The data\<close>

definition Npriq :: nat where "Npriq = 20"
definition Nrq :: nat where "Nrq = Npriq + 2"
definition HZ :: int where "HZ = 100"
definition Scaling :: int where "Scaling = 2"
definition schedgain :: int where "schedgain = 30"

type_synonym mach = nat

record rprocs = procs +
  p_rnext :: "proc \<Rightarrow> proc option"
  p_priority :: "proc \<Rightarrow> u32"
  p_basepri :: "proc \<Rightarrow> u32"
  p_fixedpri :: "proc \<Rightarrow> bool"
  p_cpu :: "proc \<Rightarrow> u32"
  p_lastupdate :: "proc \<Rightarrow> u32"
  p_wired :: "proc \<Rightarrow> mach option"
  p_mp :: "proc \<Rightarrow> mach option"
  p_mach :: "proc \<Rightarrow> mach option"

record schedq =
  sq_head :: "proc option"
  sq_tail :: "proc option"
  sq_n :: int

record sched =
  nrdy :: int
  runq :: "schedq list"
  runvec :: u32

text \<open>What the rest of the system shows: the clock, the number of machines and the load.\<close>

record env =
  e_ticks :: u32
  e_nmach :: int
  e_load :: int

text \<open>Arithmetic of an \<open>int\<close>.\<close>

definition sw :: "int \<Rightarrow> int" where
  "sw x = signed_take_bit 31 x"

subsection \<open>The queues\<close>

definition queueproc :: "nat \<Rightarrow> proc \<Rightarrow> sched \<times> rprocs \<Rightarrow> (sched \<times> rprocs) option" where
  "queueproc pri p = (\<lambda>(sch, s).
     if length (runq sch) \<le> pri then None
     else
       let rq = runq sch ! pri;
           s = s\<lparr>p_priority := (p_priority s)(p := of_nat pri), p_rnext := (p_rnext s)(p := None)\<rparr>;
           (rq, s) = (case sq_tail rq of
               Some t \<Rightarrow> (rq, s\<lparr>p_rnext := (p_rnext s)(t := Some p)\<rparr>)
             | None \<Rightarrow> (rq\<lparr>sq_head := Some p\<rparr>, s));
           rq = rq\<lparr>sq_tail := Some p, sq_n := sq_n rq + 1\<rparr> in
       Some (sch\<lparr>runq := (runq sch)[pri := rq], nrdy := nrdy sch + 1, runvec := runvec sch OR push_bit pri 1\<rparr>, s))"

text \<open>The search for \<open>tp\<close> from \<open>p\<close> on, with the one before.\<close>

partial_function (option) find_prev :: "(proc \<Rightarrow> proc option) \<Rightarrow> proc option \<Rightarrow> proc option \<Rightarrow> proc \<Rightarrow> (proc option \<times> proc option) option" where
  "find_prev nx p l tp = (case p of
      None \<Rightarrow> Some (None, l)
    | Some q \<Rightarrow> if q = tp then Some (Some q, l) else find_prev nx (nx q) (Some q) tp)"

declare find_prev.simps [code]

text \<open>\<open>busy\<close> when another machine has the lock of the queues.\<close>

definition dequeueproc :: "bool \<Rightarrow> nat \<Rightarrow> proc \<Rightarrow> sched \<times> rprocs \<Rightarrow> (proc option \<times> sched \<times> rprocs) option" where
  "dequeueproc busy pri tp = (\<lambda>(sch, s).
     if busy then Some (None, sch, s)
     else if length (runq sch) \<le> pri then None
     else
       let rq = runq sch ! pri in
       case find_prev (p_rnext s) (sq_head rq) None tp of
         None \<Rightarrow> None
       | Some (None, l) \<Rightarrow> Some (None, sch, s)
       | Some (Some p, l) \<Rightarrow>
           if p_mach s p \<noteq> None then Some (None, sch, s)
           else
             let rq = (if p_rnext s p = None then rq\<lparr>sq_tail := l\<rparr> else rq);
                 (rq, s') = (case l of
                     Some l \<Rightarrow> (rq, s\<lparr>p_rnext := (p_rnext s)(l := p_rnext s p)\<rparr>)
                   | None \<Rightarrow> (rq\<lparr>sq_head := p_rnext s p\<rparr>, s));
                 v = (if sq_head rq = None then runvec sch AND NOT (push_bit pri 1) else runvec sch);
                 rq = rq\<lparr>sq_n := sq_n rq - 1\<rparr> in
             Some (Some p, sch\<lparr>runq := (runq sch)[pri := rq], runvec := v, nrdy := nrdy sch - 1\<rparr>, s'))"

definition anyready :: "sched \<Rightarrow> bool" where
  "anyready sch \<longleftrightarrow> runvec sch \<noteq> 0"

definition anyhigher :: "proc \<Rightarrow> sched \<Rightarrow> rprocs \<Rightarrow> bool" where
  "anyhigher up sch s \<longleftrightarrow> runvec sch AND NOT (push_bit (unat (p_priority s up) + 1) 1 - 1) \<noteq> 0"

subsection \<open>The priority of a process\<close>

text \<open>The running average of the time a process had; \<open>up\<close> is who runs on this machine.\<close>

definition updatecpu :: "env \<Rightarrow> proc option \<Rightarrow> proc \<Rightarrow> rprocs \<Rightarrow> rprocs" where
  "updatecpu e up p s =
     (let t = e_ticks e * word_of_int Scaling + word_of_int (Scaling div 2);
          n = sint (t - p_lastupdate s p);
          s = s\<lparr>p_lastupdate := (p_lastupdate s)(p := t)\<rparr> in
      if n = 0 then s
      else
        let D = schedgain * HZ * Scaling;
            n = (if n > D then D else n);
            ocpu = sint (p_cpu s p);
            cpu = (if up \<noteq> Some p then sw (ocpu * sw (D - n)) sdiv D
                   else sw (1000 - sw (sw (1000 - ocpu) * sw (D - n)) sdiv D)) in
        s\<lparr>p_cpu := (p_cpu s)(p := word_of_int cpu)\<rparr>)"

text \<open>\<open>ratio > p->basepri\<close> compares without sign.\<close>

definition reprioritize :: "env \<Rightarrow> proc \<Rightarrow> rprocs \<Rightarrow> int option" where
  "reprioritize e p s =
     (if e_load e = 0 then Some (sint (p_basepri s p))
      else
        let fairshare = sw (e_nmach e * 1000 * 1000) sdiv e_load e;
            n = sint (p_cpu s p);
            n = (if n = 0 then 1 else n);
            ratio = sw (fairshare + n sdiv 2) sdiv n;
            ratio = (if word_of_int ratio > p_basepri s p then sint (p_basepri s p) else ratio) in
        if ratio < 0 then None else Some ratio)"

definition procpriority :: "proc \<Rightarrow> int \<Rightarrow> bool \<Rightarrow> rprocs \<Rightarrow> rprocs" where
  "procpriority p pri fixed s =
     (let pri = (if pri \<ge> int Npriq then int Npriq - 1 else if pri < 0 then 0 else pri) in
      s\<lparr>p_basepri := (p_basepri s)(p := word_of_int pri), p_priority := (p_priority s)(p := word_of_int pri),
        p_fixedpri := (p_fixedpri s)(p := fixed)\<rparr>)"

text \<open>The state a process is given here is that of \<^const>\<open>ready\<close>, by which the locks know it.\<close>

definition schedready :: "env \<Rightarrow> proc option \<Rightarrow> proc \<Rightarrow> sched \<times> rprocs \<Rightarrow> (sched \<times> rprocs) option" where
  "schedready e up p = (\<lambda>(sch, s). do {
     let s = updatecpu e up p s;
     pri \<leftarrow> reprioritize e p s;
     if pri < 0 then None
     else queueproc (nat pri) p (sch, ready p (s\<lparr>p_priority := (p_priority s)(p := word_of_int pri)\<rparr>))
   })"

subsection \<open>Taking a process\<close>

partial_function (option) scan_queue :: "(proc \<Rightarrow> bool) \<Rightarrow> (proc \<Rightarrow> proc option) \<Rightarrow> proc option \<Rightarrow> proc option option" where
  "scan_queue P nx p = (case p of
      None \<Rightarrow> Some None
    | Some q \<Rightarrow> if P q then Some (Some q) else scan_queue P nx (nx q))"

declare scan_queue.simps [code]

fun scan_runq :: "(proc \<Rightarrow> bool) \<Rightarrow> nat \<Rightarrow> sched \<times> rprocs \<Rightarrow> (nat \<times> proc) option option" where
  "scan_runq P 0 z = Some None"
| "scan_runq P (Suc n) z = do {
     r \<leftarrow> scan_queue P (p_rnext (snd z)) (sq_head (runq (fst z) ! n));
     case r of Some p \<Rightarrow> Some (Some (n, p)) | None \<Rightarrow> scan_runq P n z
   }"

text \<open>Whom machine \<open>m\<close> may take in round \<open>i\<close>.\<close>

definition eligible :: "nat \<Rightarrow> mach \<Rightarrow> rprocs \<Rightarrow> proc \<Rightarrow> bool" where
  "eligible i m s p \<longleftrightarrow> p_mp s p = None \<or> p_mp s p = Some m \<or> p_wired s p = None \<and> i > 0"

text \<open>One round of \<open>smprunproc\<close>: nobody, or the process taken.\<close>

definition smp_round :: "nat \<Rightarrow> bool \<Rightarrow> mach \<Rightarrow> sched \<times> rprocs \<Rightarrow> (proc option \<times> sched \<times> rprocs) option" where
  "smp_round i busy m z = do {
     r \<leftarrow> scan_runq (eligible i m (snd z)) Nrq z;
     case r of None \<Rightarrow> Some (None, z)
     | Some (pri, p) \<Rightarrow> do {
         (r, sch, s) \<leftarrow> dequeueproc busy pri p z;
         case r of None \<Rightarrow> Some (None, sch, s)
         | Some p \<Rightarrow> Some (Some p, sch, s\<lparr>p_state := (p_state s)(p := Scheding), p_mp := (p_mp s)(p := Some m)\<rparr>)
       }
   }"

text \<open>The end of \<open>sched\<close>, with the process taken, and the part of \<open>schedinit\<close> for the process that has let go.\<close>

definition sched_in :: "env \<Rightarrow> mach \<Rightarrow> proc \<Rightarrow> rprocs \<Rightarrow> rprocs option" where
  "sched_in e m p s = do {
     let s = updatecpu e None p s;
     pri \<leftarrow> reprioritize e p s;
     let s = s\<lparr>p_priority := (p_priority s)(p := word_of_int pri), p_state := (p_state s)(p := Running), p_mach := (p_mach s)(p := Some m)\<rparr>;
     if p_wired s p = None \<or> p_wired s p = Some m then Some s else None
   }"

definition sched_out1 :: "env \<Rightarrow> proc \<Rightarrow> sched \<times> rprocs \<Rightarrow> (sched \<times> rprocs) option" where
  "sched_out1 e up = (\<lambda>(sch, s). if p_state s up = Running then schedready e (Some up) up (sch, s) else Some (sch, s))"

definition sched_out2 :: "env \<Rightarrow> proc \<Rightarrow> rprocs \<Rightarrow> rprocs" where
  "sched_out2 e up s = updatecpu e (Some up) up (s\<lparr>p_mach := (p_mach s)(up := None)\<rparr>)"

subsection \<open>Rebalancing\<close>

text \<open>The queue of one priority, on machine \<open>m\<close>, whose process is \<open>up\<close>; nobody else has the lock.\<close>

partial_function (option) rebalance_queue :: "env \<Rightarrow> mach \<Rightarrow> proc option \<Rightarrow> nat \<Rightarrow> sched \<times> rprocs \<Rightarrow> (sched \<times> rprocs) option" where
  "rebalance_queue e m up pri z =
     (case sq_head (runq (fst z) ! pri) of
        None \<Rightarrow> Some z
      | Some p \<Rightarrow>
          if p_mp (snd z) p \<noteq> Some m \<or> of_nat pri = p_basepri (snd z) p then Some z
          else do {
            let s = updatecpu e up p (snd z);
            npri \<leftarrow> reprioritize e p s;
            if npri = int pri then Some (fst z, s)
            else do {
              (r, z) \<leftarrow> dequeueproc False pri p (fst z, s);
              z \<leftarrow> (case r of None \<Rightarrow> Some z | Some p \<Rightarrow> queueproc (nat npri) p z);
              rebalance_queue e m up pri z
            }
          })"

fun rebalance_from :: "env \<Rightarrow> mach \<Rightarrow> proc option \<Rightarrow> nat \<Rightarrow> nat \<Rightarrow> sched \<times> rprocs \<Rightarrow> (sched \<times> rprocs) option" where
  "rebalance_from e m up pri 0 z = Some z"
| "rebalance_from e m up pri (Suc n) z = do {
     z \<leftarrow> rebalance_queue e m up pri z;
     rebalance_from e m up (pri + 1) n z
   }"

definition rebalance :: "env \<Rightarrow> mach \<Rightarrow> proc option \<Rightarrow> u32 \<Rightarrow> u32 \<Rightarrow> sched \<times> rprocs \<Rightarrow> (u32 \<times> sched \<times> rprocs) option" where
  "rebalance e m up t balancetime z =
     (if t - balancetime < 100 then Some (balancetime, z)
      else do { z \<leftarrow> rebalance_from e m up 0 Npriq z; Some (t, z) })"

subsection \<open>What the queues hold\<close>

definition in_queues :: "proc list list \<Rightarrow> proc set" where
  "in_queues qs = \<Union> (set ` set qs)"

definition rq_ok :: "sched \<times> rprocs \<Rightarrow> proc list list \<Rightarrow> bool" where
  "rq_ok z qs \<longleftrightarrow> length qs = Nrq \<and> length (runq (fst z)) = Nrq \<and>
     (\<forall>i < Nrq. distinct (qs ! i) \<and> sq_head (runq (fst z) ! i) = first (qs ! i) \<and> sq_tail (runq (fst z) ! i) = first (rev (qs ! i)) \<and>
        sq_n (runq (fst z) ! i) = int (length (qs ! i)) \<and> linked (p_rnext (snd z)) (qs ! i)) \<and>
     (\<forall>i < Nrq. \<forall>j < Nrq. i \<noteq> j \<longrightarrow> set (qs ! i) \<inter> set (qs ! j) = {}) \<and>
     nrdy (fst z) = int (sum_list (map length qs)) \<and>
     (\<forall>n. bit (runvec (fst z)) n \<longleftrightarrow> n < Nrq \<and> qs ! n \<noteq> [])"

lemma rq_okD:
  assumes "rq_ok z qs"
  shows "length qs = Nrq" "length (runq (fst z)) = Nrq"
    "\<And>i. i < Nrq \<Longrightarrow> distinct (qs ! i)" "\<And>i. i < Nrq \<Longrightarrow> sq_head (runq (fst z) ! i) = first (qs ! i)"
    "\<And>i. i < Nrq \<Longrightarrow> sq_tail (runq (fst z) ! i) = first (rev (qs ! i))" "\<And>i. i < Nrq \<Longrightarrow> sq_n (runq (fst z) ! i) = int (length (qs ! i))"
    "\<And>i. i < Nrq \<Longrightarrow> linked (p_rnext (snd z)) (qs ! i)"
    "\<And>i j. i < Nrq \<Longrightarrow> j < Nrq \<Longrightarrow> i \<noteq> j \<Longrightarrow> set (qs ! i) \<inter> set (qs ! j) = {}"
    "nrdy (fst z) = int (sum_list (map length qs))" "\<And>n. bit (runvec (fst z)) n \<longleftrightarrow> n < Nrq \<and> qs ! n \<noteq> []"
  using assms by (auto simp: rq_ok_def)

lemma in_queues_iff: "length qs = Nrq \<Longrightarrow> p \<in> in_queues qs \<longleftrightarrow> (\<exists>i < Nrq. p \<in> set (qs ! i))"
  by (simp add: in_queues_def) (metis in_set_conv_nth)

lemma in_queues_snoc: "length qs = Nrq \<Longrightarrow> i < Nrq \<Longrightarrow> in_queues (qs[i := qs ! i @ [p]]) = insert p (in_queues qs)"
proof (rule set_eqI)
  fix x assume a: "length qs = Nrq" "i < Nrq"
  show "x \<in> in_queues (qs[i := qs ! i @ [p]]) \<longleftrightarrow> x \<in> insert p (in_queues qs)"
    using a in_queues_iff [of "qs[i := qs ! i @ [p]]" x] in_queues_iff [of qs x] by (auto simp: nth_list_update split: if_splits)
qed

lemma sum_length_update: "i < length qs \<Longrightarrow> sum_list (map length (qs[i := l])) + length (qs ! i) = sum_list (map length qs) + length (l :: 'b list)"
proof (induction qs arbitrary: i)
  case (Cons q qs)
  then show ?case by (cases i) auto
qed simp

lemma in_queues_remove:
  assumes z: "rq_ok z qs" and i: "i < Nrq" and p: "p \<in> set (qs ! i)"
  shows "q \<in> in_queues (qs[i := remove1 p (qs ! i)]) \<longleftrightarrow> q \<in> in_queues qs \<and> q \<noteq> p"
proof -
  note Q = rq_okD [OF z]
  have "set (remove1 p (qs ! i)) = set (qs ! i) - {p}" using Q(3) [OF i] by simp
  moreover have "p \<notin> set (qs ! j)" if "j < Nrq" "j \<noteq> i" for j using Q(8) [OF that(1) i that(2)] p by auto
  ultimately show ?thesis using in_queues_iff [OF Q(1), of q] in_queues_iff [of "qs[i := remove1 p (qs ! i)]" q] Q(1) i
    by (auto simp: nth_list_update)
qed

text \<open>Only the links of queued processes matter.\<close>

lemma rq_ok_cong:
  assumes "\<And>p. p \<in> in_queues qs \<Longrightarrow> p_rnext s' p = p_rnext s p"
  shows "rq_ok (sch, s') qs = rq_ok (sch, s) qs"
proof -
  have "linked (p_rnext s') (qs ! i) = linked (p_rnext s) (qs ! i)" if "i < length qs" for i
    using that assms nth_mem by (intro linked_other) (fastforce simp: in_queues_def)
  then show ?thesis unfolding rq_ok_def fst_conv snd_conv by (intro conj_cong refl) auto
qed

text \<open>Changing one queue, with the counters and the bit that belong to it.\<close>

lemma rq_ok_update:
  assumes z: "rq_ok (sch, s) qs" and i: "i < Nrq"
    and q: "distinct l" "sq_head rq = first l" "sq_tail rq = first (rev l)" "sq_n rq = int (length l)" "linked (p_rnext s') l"
    and d: "\<And>j. j < Nrq \<Longrightarrow> j \<noteq> i \<Longrightarrow> set l \<inter> set (qs ! j) = {} \<and> linked (p_rnext s') (qs ! j)"
    and n: "nrdy sch' = nrdy sch + int (length l) - int (length (qs ! i))" "runq sch' = (runq sch)[i := rq]"
    and v: "\<And>n. bit (runvec sch') n \<longleftrightarrow> (if n = i then l \<noteq> [] else bit (runvec sch) n)"
  shows "rq_ok (sch', s') (qs[i := l])"
proof -
  note D = rq_okD [OF z, unfolded fst_conv snd_conv]
  show ?thesis unfolding rq_ok_def fst_conv snd_conv
  proof (intro conjI allI impI)
    show "nrdy sch' = int (sum_list (map length (qs[i := l])))"
      using sum_length_update [of i qs l] D(1,9) i n(1) by simp
    fix n
    show "bit (runvec sch') n \<longleftrightarrow> n < Nrq \<and> qs[i := l] ! n \<noteq> []"
      using v [of n] D(1,10) i by (cases "n = i") auto
  next
    fix j k assume jk: "j < Nrq" "k < Nrq" "j \<noteq> k"
    show "set (qs[i := l] ! j) \<inter> set (qs[i := l] ! k) = {}"
      using d [of k] d [of j] D(8) [OF jk] D(1) i jk by (cases "j = i"; cases "k = i") auto
  qed (use D i q d n(2) in \<open>auto simp: nth_list_update\<close>)
qed

lemma bit_push1: "bit (push_bit i 1 :: u32) n \<longleftrightarrow> n = i \<and> n < 32"
  by (auto simp: bit_exp_iff)

lemma queueproc_ok:
  assumes z: "rq_ok (sch, s) qs" and pri: "pri < Nrq" and p: "p \<notin> in_queues qs"
  shows "\<exists>sch' nx. queueproc pri p (sch, s) = Some (sch', s\<lparr>p_priority := (p_priority s)(p := of_nat pri), p_rnext := nx\<rparr>) \<and>
    rq_ok (sch', s\<lparr>p_priority := (p_priority s)(p := of_nat pri), p_rnext := nx\<rparr>) (qs[pri := qs ! pri @ [p]])"
proof -
  note D = rq_okD [OF z, unfolded fst_conv snd_conv]
  let ?l = "qs ! pri" and ?rq = "runq sch ! pri"
  have pl: "p \<notin> set (qs ! j)" if "j < Nrq" for j using p that in_queues_iff [OF D(1)] by auto
  define nx where "nx = (case sq_tail ?rq of Some t \<Rightarrow> (p_rnext s)(p := None, t := Some p) | None \<Rightarrow> (p_rnext s)(p := None))"
  define rq where "rq = (?rq\<lparr>sq_head := first (?l @ [p]), sq_tail := Some p, sq_n := sq_n ?rq + 1\<rparr>)"
  define sch' where "sch' = sch\<lparr>runq := (runq sch)[pri := rq], nrdy := nrdy sch + 1, runvec := runvec sch OR push_bit pri 1\<rparr>"
  let ?s' = "s\<lparr>p_priority := (p_priority s)(p := of_nat pri), p_rnext := nx\<rparr>"
  have run: "queueproc pri p (sch, s) = Some (sch', ?s')"
  proof (cases ?l rule: rev_cases)
    case Nil
    then have "sq_tail ?rq = None" using D(5) [OF pri] by simp
    then show ?thesis using D(2) pri Nil by (simp add: queueproc_def Let_def nx_def rq_def sch'_def)
  next
    case (snoc rs t)
    then have t: "sq_tail ?rq = Some t" using D(5) [OF pri] by simp
    have "sq_head ?rq = first (?l @ [p])" using D(4) [OF pri] snoc by (cases rs) simp_all
    then have "?rq\<lparr>sq_tail := Some p, sq_n := sq_n ?rq + 1\<rparr> = rq" by (simp add: rq_def)
    then show ?thesis using D(2) pri t by (simp add: queueproc_def Let_def nx_def sch'_def)
  qed
  have old: "nx x = p_rnext s x" if "x \<noteq> p" "x \<notin> set ?l" for x
    using that D(5) [OF pri] by (cases ?l rule: rev_cases) (auto simp: nx_def split: option.split)
  have lk: "linked nx (?l @ [p])"
  proof (cases ?l rule: rev_cases)
    case Nil
    then have "sq_tail ?rq = None" using D(5) [OF pri] by simp
    then show ?thesis using Nil by (simp add: nx_def)
  next
    case (snoc rs t)
    then have "sq_tail ?rq = Some t" "t \<noteq> p" using D(5) [OF pri] pl [OF pri] by auto
    then have "nx = (p_rnext s)(t := Some p, p := None)" by (auto simp: nx_def)
    then show ?thesis using linked_snoc [of "p_rnext s" rs t p] D(3,7) [OF pri] pl [OF pri] snoc by simp
  qed
  have "rq_ok (sch', ?s') (qs[pri := ?l @ [p]])"
  proof (rule rq_ok_update [OF z pri])
    show "set (?l @ [p]) \<inter> set (qs ! j) = {} \<and> linked (p_rnext ?s') (qs ! j)" if j: "j < Nrq" "j \<noteq> pri" for j
    proof -
      have d: "set ?l \<inter> set (qs ! j) = {}" using D(8) [OF pri j(1)] j(2) by simp
      then have "linked nx (qs ! j) = linked (p_rnext s) (qs ! j)"
        using pl [OF j(1)] by (intro linked_other old) auto
      then show ?thesis using d pl [OF j(1)] D(7) [OF j(1)] by simp
    qed
    show "bit (runvec sch') n \<longleftrightarrow> (if n = pri then ?l @ [p] \<noteq> [] else bit (runvec sch) n)" for n
      using pri by (auto simp: sch'_def bit_or_iff bit_exp_iff Nrq_def Npriq_def)
  qed (use D(3,6) [OF pri] pl [OF pri] lk in \<open>simp_all add: rq_def sch'_def\<close>)
  with run show ?thesis by blast
qed

text \<open>Following the links.\<close>

lemma find_prev_spec:
  "linked nx ps \<Longrightarrow> find_prev nx (first ps) l tp =
     Some (if tp \<in> set ps then (Some tp, case takeWhile (\<lambda>x. x \<noteq> tp) ps of [] \<Rightarrow> l | q # qs \<Rightarrow> Some (last (q # qs)))
           else (None, case ps of [] \<Rightarrow> l | _ \<Rightarrow> Some (last ps)))"
proof (induction ps arbitrary: l)
  case Nil
  then show ?case by (subst find_prev.simps) simp
next
  case (Cons q ps)
  show ?case
  proof (cases "q = tp")
    case True
    then show ?thesis by (subst find_prev.simps) simp
  next
    case False
    have "find_prev nx (first (q # ps)) l tp = find_prev nx (first ps) (Some q) tp"
      using Cons.prems False by (subst find_prev.simps) simp
    also have "\<dots> = Some (if tp \<in> set ps then (Some tp, case takeWhile (\<lambda>x. x \<noteq> tp) ps of [] \<Rightarrow> Some q | q # qs \<Rightarrow> Some (last (q # qs)))
           else (None, case ps of [] \<Rightarrow> Some q | _ \<Rightarrow> Some (last ps)))" using Cons.IH Cons.prems by simp
    finally show ?thesis using False by (auto split: list.split)
  qed
qed

lemma linked_split: "linked nx (as @ p # bs) \<Longrightarrow> nx p = first bs \<and> linked nx bs \<and> (as \<noteq> [] \<longrightarrow> nx (last as) = Some p)"
  by (induction as) (auto split: if_splits)

lemma linked_remove:
  "linked nx (cs @ l # p # bs) \<Longrightarrow> distinct (cs @ l # p # bs) \<Longrightarrow> linked (nx(l := nx p)) (cs @ l # bs)"
proof (induction cs)
  case Nil
  then have "linked (nx(l := nx p)) bs" by (subst linked_other [of bs _ nx]) auto
  then show ?case using Nil by (simp only: append_Nil linked.simps fun_upd_same simp_thms)
next
  case (Cons a cs)
  then show ?case by (cases cs) auto
qed

lemma dequeueproc_busy: "dequeueproc True pri tp z = Some (None, z)"
  by (cases z) (simp add: dequeueproc_def)

lemma dequeueproc_not: 
  assumes "rq_ok (sch, s) qs" "pri < Nrq" "tp \<notin> set (qs ! pri) \<or> p_mach s tp \<noteq> None"
  shows "dequeueproc busy pri tp (sch, s) = Some (None, sch, s)"
proof (cases busy)
  case False
  note D = rq_okD [OF assms(1), unfolded fst_conv snd_conv]
  show ?thesis
    using False assms D(2) D(4) [OF assms(2)] find_prev_spec [OF D(7) [OF assms(2)], of None tp]
    by (auto simp: dequeueproc_def Let_def split: option.splits)
qed (simp add: dequeueproc_busy)

lemma bit_clear1: "bit (v AND NOT (push_bit i 1) :: u32) n \<longleftrightarrow> bit v n \<and> n \<noteq> i"
  by (auto simp: bit_and_iff bit_not_iff bit_exp_iff dest: bit_imp_possible_bit)

lemma schedq_swap: "rq\<lparr>sq_tail := t, sq_head := h\<rparr> = rq\<lparr>sq_head := h, sq_tail := t\<rparr>"
  by (cases rq) simp

lemma dequeueproc_ok:
  assumes z: "rq_ok (sch, s) qs" and pri: "pri < Nrq" and p: "p \<in> set (qs ! pri)" and m: "p_mach s p = None"
  shows "\<exists>sch' nx. dequeueproc False pri p (sch, s) = Some (Some p, sch', s\<lparr>p_rnext := nx\<rparr>) \<and>
    rq_ok (sch', s\<lparr>p_rnext := nx\<rparr>) (qs[pri := remove1 p (qs ! pri)])"
proof -
  note D = rq_okD [OF z, unfolded fst_conv snd_conv]
  let ?rq = "runq sch ! pri"
  obtain as bs where ab: "qs ! pri = as @ p # bs" "p \<notin> set as" using split_list_first [OF p] by blast
  have ds: "distinct (as @ p # bs)" and lk: "linked (p_rnext s) (as @ p # bs)" using D(3,7) [OF pri] ab by simp_all
  have pb: "p \<notin> set bs" using ds by simp
  have rm: "remove1 p (qs ! pri) = as @ bs" using ab by (simp add: remove1_append)
  have np: "p_rnext s p = first bs" using linked_split [OF lk] by simp
  have tw: "takeWhile (\<lambda>x. x \<noteq> p) (as @ p # bs) = as" using ab(2) by (induction as) auto
  define l where "l = (if as = [] then None else Some (last as))"
  have fp: "find_prev (p_rnext s) (sq_head ?rq) None p = Some (Some p, l)"
    using find_prev_spec [OF lk, of None p] D(4) [OF pri] ab tw by (simp add: l_def split: list.split)
  define nx where "nx = (if as = [] then p_rnext s else (p_rnext s)(last as := first bs))"
  define rq where "rq = ?rq\<lparr>sq_head := first (as @ bs), sq_tail := first (rev (as @ bs)), sq_n := sq_n ?rq - 1\<rparr>"
  define v where "v = (if first (as @ bs) = None then runvec sch AND NOT (push_bit pri 1) else runvec sch)"
  define sch' where "sch' = sch\<lparr>runq := (runq sch)[pri := rq], runvec := v, nrdy := nrdy sch - 1\<rparr>"
  have hd: "sq_head ?rq = first (as @ p # bs)" and tl: "sq_tail ?rq = first (rev (as @ p # bs))" using D(4,5) [OF pri] ab by simp_all
  have t': "(if p_rnext s p = None then ?rq\<lparr>sq_tail := l\<rparr> else ?rq) = ?rq\<lparr>sq_tail := first (rev (as @ bs))\<rparr>"
    using np tl by (cases bs rule: rev_cases; cases as rule: rev_cases) (auto simp: l_def)
  have "dequeueproc False pri p (sch, s) = Some (Some p, sch', s\<lparr>p_rnext := nx\<rparr>)"
  proof (cases "as = []")
    case True
    then have l: "l = None" and nx: "nx = p_rnext s" by (simp_all add: l_def nx_def)
    have tb: "?rq\<lparr>sq_head := h, sq_tail := first (rev bs), sq_n := n\<rparr> = ?rq\<lparr>sq_head := h, sq_n := n\<rparr>" if "bs \<noteq> []" for h n
      using tl that True by (cases ?rq) simp
    have "s\<lparr>p_rnext := nx\<rparr> = s" by (simp add: nx)
    then show ?thesis
      using pri D(2) m unfolding dequeueproc_def Let_def prod.case fp option.case t' l
      by (simp add: True np sch'_def rq_def v_def schedq_swap tb)
  next
    case False
    then have l: "l = Some (last as)" and nx: "nx = (p_rnext s)(last as := p_rnext s p)" by (simp_all add: l_def nx_def np)
    have f: "first (as @ p # bs) = first (as @ bs)" using False by (cases as) simp_all
    have rl: "first (rev as) = Some (last as)" using False by (cases as rule: rev_cases) simp_all
    have tb: "?rq\<lparr>sq_tail := first (rev bs), sq_n := n\<rparr> = ?rq\<lparr>sq_n := n\<rparr>" if "bs \<noteq> []" for n
      using tl that by (cases ?rq) simp
    have rq': "rq = ?rq\<lparr>sq_tail := first (rev (as @ bs)), sq_n := sq_n ?rq - 1\<rparr>" using hd f by (simp add: rq_def)
    show ?thesis
      using pri D(2) m unfolding dequeueproc_def Let_def prod.case fp option.case t' l
      by (simp add: False nx np sch'_def v_def hd f rq' rl tb)
  qed
  moreover have "rq_ok (sch', s\<lparr>p_rnext := nx\<rparr>) (qs[pri := as @ bs])"
  proof (rule rq_ok_update [OF z pri])
    show "linked (p_rnext (s\<lparr>p_rnext := nx\<rparr>)) (as @ bs)" using lk ds np linked_remove [of "p_rnext s" _ _ p bs] linked_split [OF lk]
      by (cases as rule: rev_cases) (simp_all add: nx_def)
    show "set (as @ bs) \<inter> set (qs ! j) = {} \<and> linked (p_rnext (s\<lparr>p_rnext := nx\<rparr>)) (qs ! j)" if j: "j < Nrq" "j \<noteq> pri" for j
    proof -
      have d: "set (as @ p # bs) \<inter> set (qs ! j) = {}" using D(8) [OF pri j(1)] j(2) ab by simp
      have la: "last as \<notin> set (qs ! j)" if "as \<noteq> []" using d last_in_set [OF that] by auto
      have "linked nx (qs ! j) = linked (p_rnext s) (qs ! j)"
        using la by (intro linked_other) (auto simp: nx_def)
      then show ?thesis using d D(7) [OF j(1)] by auto
    qed
    show "bit (runvec sch') n \<longleftrightarrow> (if n = pri then as @ bs \<noteq> [] else bit (runvec sch) n)" for n
      using D(10) [of pri] pri ab by (auto simp: sch'_def v_def bit_clear1 simp del: push_bit_of_1)
  qed (use ds D(6) [OF pri] ab in \<open>simp_all add: rq_def sch'_def\<close>)
  ultimately show ?thesis unfolding rm by blast
qed

subsection \<open>Priorities stay in bounds\<close>

lemma sdiv_abs_le: "\<bar>a sdiv b\<bar> \<le> \<bar>a :: int\<bar>"
proof -
  have "0 \<le> \<bar>a\<bar> div \<bar>b\<bar>" by (cases "b = 0") (simp_all add: pos_imp_zdiv_nonneg_iff)
  then have "\<bar>a sdiv b\<bar> \<le> \<bar>a\<bar> div \<bar>b\<bar>" by (simp add: signed_divide_int_def abs_mult abs_sgn_eq)
  also have "\<dots> \<le> \<bar>a\<bar>" by (cases "b = 0") (use zdiv_mono2 [of "\<bar>a\<bar>" 1 "\<bar>b\<bar>"] in simp_all)
  finally show ?thesis .
qed

lemma sdiv_nonneg: "0 \<le> a \<Longrightarrow> 0 < b \<Longrightarrow> a sdiv b = a div (b :: int)"
  by (cases "a = 0") (simp_all add: signed_divide_int_def sgn_if)

lemma sw_range: "- (2 ^ 31) \<le> sw x" "sw x < 2 ^ 31"
  using signed_take_bit_int_greater_eq_minus_exp [of 31 x] signed_take_bit_int_less_exp [of 31 x] by (simp_all add: sw_def)

lemma sw_small: "- (2 ^ 31) \<le> x \<Longrightarrow> x < 2 ^ 31 \<Longrightarrow> sw x = x"
  by (simp add: sw_def signed_take_bit_int_eq_self)

lemma sint_small: "uint (w :: u32) < 2 ^ 31 \<Longrightarrow> sint w = uint w"
  by (subst sint_uint, subst signed_take_bit_int_eq_self) (auto intro: order_trans [of _ 0])

lemma reprioritize_bounds:
  assumes b: "uint (p_basepri s p) < 2 ^ 31"
  shows "\<exists>r. reprioritize e p s = Some r \<and> 0 \<le> r \<and> r \<le> uint (p_basepri s p)"
proof -
  define n where "n = (if sint (p_cpu s p) = 0 then 1 else sint (p_cpu s p))"
  define ratio where "ratio = sw (sw (e_nmach e * 1000 * 1000) sdiv e_load e + n sdiv 2) sdiv n"
  have ab: "\<bar>ratio\<bar> \<le> 2 ^ 31"
    using sdiv_abs_le [of "sw (sw (e_nmach e * 1000 * 1000) sdiv e_load e + n sdiv 2)" n]
      sw_range [of "sw (e_nmach e * 1000 * 1000) sdiv e_load e + n sdiv 2"] unfolding ratio_def by linarith
  have r: "0 \<le> ratio \<and> ratio \<le> uint (p_basepri s p)" if "\<not> word_of_int ratio > p_basepri s p"
  proof -
    have u: "uint (word_of_int ratio :: u32) \<le> uint (p_basepri s p)" using that by (simp add: word_le_def not_less)
    have "uint (word_of_int ratio :: u32) = ratio mod 2 ^ 32" by (simp add: unsigned_of_int take_bit_eq_mod)
    moreover have "ratio mod 2 ^ 32 = (if ratio < 0 then ratio + 2 ^ 32 else ratio)"
      using ab mod_add_self2 [of ratio "2 ^ 32"] mod_pos_pos_trivial [of "ratio + 2 ^ 32" "2 ^ 32"] by auto
    ultimately show ?thesis using u b ab by (auto split: if_splits)
  qed
  show ?thesis
  proof (cases "e_load e = 0 \<or> word_of_int ratio > p_basepri s p")
    case True
    then show ?thesis unfolding reprioritize_def Let_def n_def [symmetric] ratio_def [symmetric] by (auto simp: sint_small [OF b])
  next
    case False
    then show ?thesis using r unfolding reprioritize_def Let_def n_def [symmetric] ratio_def [symmetric] by auto
  qed
qed

lemma updatecpu_bounds:
  assumes c: "uint (p_cpu s p) \<le> 1000" and t: "0 \<le> sint (2 * e_ticks e + 1 - p_lastupdate s p)"
  shows "uint (p_cpu (updatecpu e up p s) p) \<le> 1000 \<and>
    (if up = Some p then uint (p_cpu s p) \<le> uint (p_cpu (updatecpu e up p s) p) else uint (p_cpu (updatecpu e up p s) p) \<le> uint (p_cpu s p))"
proof -
  define n where "n = sint (2 * e_ticks e + 1 - p_lastupdate s p)"
  define k where "k = (if n > 6000 then 0 else 6000 - n)"
  have k: "0 \<le> k" "k \<le> 6000" using t by (auto simp: k_def n_def)
  have k': "sw (6000 - (if n > 6000 then 6000 else n)) = k" using k by (subst sw_small) (auto simp: k_def)
  define x where "x = uint (p_cpu s p)"
  have x: "0 \<le> x" "x \<le> 1000" "sint (p_cpu s p) = x" using c by (simp_all add: x_def sint_small)
  have pr: "0 \<le> a * k" "a * k \<le> 1000 * 6000" "sw (a * k) = a * k" "0 \<le> (a * k) sdiv 6000" "(a * k) sdiv 6000 \<le> 1000"
    if a: "0 \<le> a" "a \<le> 1000" for a :: int
  proof -
    show 0: "0 \<le> a * k" using a k by simp
    show 1: "a * k \<le> 1000 * 6000" using a k by (intro mult_mono) auto
    show "sw (a * k) = a * k" using 0 1 by (subst sw_small) auto
    show "0 \<le> (a * k) sdiv 6000" "(a * k) sdiv 6000 \<le> 1000" unfolding sdiv_nonneg [OF 0, of 6000, simplified]
      using 0 1 by linarith+
  qed
  have w: "uint (word_of_int a :: u32) = a" if "0 \<le> a" "a \<le> 1000" for a :: int
    using that by (simp add: unsigned_of_int take_bit_int_eq_self)
  have le: "a * k sdiv 6000 \<le> a" if a: "0 \<le> a" "a \<le> 1000" for a :: int
  proof -
    have "a * k \<le> a * 6000" using a k by (intro mult_left_mono) auto
    then have "a * k div 6000 \<le> a" by linarith
    then show ?thesis using pr(1) [OF a] by (simp add: sdiv_nonneg)
  qed
  have s1: "sw (1000 - x) = 1000 - x" using x by (subst sw_small) auto
  have s2: "sw (1000 - (1000 - x) * k sdiv 6000) = 1000 - (1000 - x) * k sdiv 6000"
    using pr(4,5) [of "1000 - x"] x by (subst sw_small) auto
  have t2: "e_ticks e * word_of_int Scaling + word_of_int (Scaling div 2) = 2 * e_ticks e + 1" by (simp add: Scaling_def)
  have D: "schedgain * HZ * Scaling = 6000" by (simp add: schedgain_def HZ_def Scaling_def)
  have c1: "p_cpu (updatecpu e up p s) p = (if n = 0 then p_cpu s p else if up \<noteq> Some p then word_of_int (x * k sdiv 6000)
      else word_of_int (1000 - (1000 - x) * k sdiv 6000))"
    unfolding updatecpu_def Let_def t2 D n_def [symmetric] k' x(3) pr(3) [OF x(1,2)] s1
    by (simp add: k' x(3) s1 pr(3) [OF x(1,2)] pr(3) [of "1000 - x"] s2 x(1,2))
  have "0 \<le> x * k sdiv 6000" "x * k sdiv 6000 \<le> 1000" "x * k sdiv 6000 \<le> x" using pr(4,5) [OF x(1,2)] le [OF x(1,2)] by simp_all
  moreover have "0 \<le> (1000 - x) * k sdiv 6000" "(1000 - x) * k sdiv 6000 \<le> 1000" "(1000 - x) * k sdiv 6000 \<le> 1000 - x"
    using pr(4,5) [of "1000 - x"] le [of "1000 - x"] x by simp_all
  ultimately show ?thesis unfolding c1 using x(1,2) w [of "x * k sdiv 6000"] w [of "1000 - (1000 - x) * k sdiv 6000"] x_def
    by (auto simp del: of_int_diff)
qed

text \<open>What the operations on one process leave alone.\<close>

lemma updatecpu_simps [simp]:
  "p_rnext (updatecpu e up p s) = p_rnext s" "p_state (updatecpu e up p s) = p_state s" "p_mach (updatecpu e up p s) = p_mach s"
  "p_mp (updatecpu e up p s) = p_mp s" "p_wired (updatecpu e up p s) = p_wired s" "p_basepri (updatecpu e up p s) = p_basepri s"
  "p_priority (updatecpu e up p s) = p_priority s" "p_fixedpri (updatecpu e up p s) = p_fixedpri s"
  by (simp_all add: updatecpu_def Let_def)

lemma ready_fields [simp]:
  "p_rnext (ready p s) = p_rnext s" "p_state (ready p s) = (p_state s)(p := Ready)" "p_mach (ready p s) = p_mach s"
  "p_mp (ready p s) = p_mp s" "p_wired (ready p s) = p_wired s" "p_basepri (ready p s) = p_basepri s"
  "p_priority (ready p s) = p_priority s"
  by (simp_all add: ready_def)

text \<open>A base priority as \<open>procpriority\<close> leaves it.\<close>

definition pri_ok :: "rprocs \<Rightarrow> bool" where
  "pri_ok s \<longleftrightarrow> (\<forall>p. uint (p_basepri s p) < int Npriq)"

lemma reprioritize_lt: "pri_ok s \<Longrightarrow> \<exists>r. reprioritize e p s = Some r \<and> 0 \<le> r \<and> r < int Npriq"
proof -
  assume "pri_ok s"
  then have b: "uint (p_basepri s p) < int Npriq" by (simp add: pri_ok_def)
  then obtain r where "reprioritize e p s = Some r" "0 \<le> r" "r \<le> uint (p_basepri s p)"
    using reprioritize_bounds [of s p e] by (auto simp: Npriq_def)
  then show ?thesis using b by auto
qed

lemma procpriority_ok: "pri_ok s \<Longrightarrow> pri_ok (procpriority p pri fixed s)"
proof -
  assume o: "pri_ok s"
  define q where "q = (if pri \<ge> int Npriq then int Npriq - 1 else if pri < 0 then 0 else pri)"
  have "0 \<le> q" "q < 20" by (auto simp: q_def Npriq_def)
  then have "uint (word_of_int q :: u32) < int Npriq" by (simp add: unsigned_of_int take_bit_int_eq_self Npriq_def)
  moreover have "p_basepri (procpriority p pri fixed s) = (p_basepri s)(p := word_of_int q)"
    by (simp only: procpriority_def Let_def q_def) simp
  ultimately show ?thesis using o by (simp add: pri_ok_def)
qed

text \<open>\<open>ready\<close> puts the process at the end of one queue.\<close>

lemma schedready_ok:
  assumes z: "rq_ok (sch, s) qs" and o: "pri_ok s" and p: "p \<notin> in_queues qs"
  shows "\<exists>pri sch' s'. pri < Npriq \<and> reprioritize e p (updatecpu e up p s) = Some (int pri) \<and>
    schedready e up p (sch, s) = Some (sch', s') \<and> rq_ok (sch', s') (qs[pri := qs ! pri @ [p]]) \<and>
    p_state s' = (p_state s)(p := Ready) \<and> p_mach s' = p_mach s \<and> p_mp s' = p_mp s \<and> p_wired s' = p_wired s \<and> p_basepri s' = p_basepri s \<and>
    p_priority s' p = of_nat pri"
proof -
  let ?s = "updatecpu e up p s"
  have "pri_ok ?s" using o by (simp add: pri_ok_def)
  then obtain r where r: "reprioritize e p ?s = Some r" "0 \<le> r" "r < int Npriq" using reprioritize_lt by blast
  let ?s2 = "ready p (?s\<lparr>p_priority := (p_priority ?s)(p := word_of_int r)\<rparr>)"
  have z2: "rq_ok (sch, ?s2) qs" using z by (subst rq_ok_cong [of qs _ s]) simp_all
  have lt: "nat r < Nrq" using r by (simp add: Nrq_def)
  obtain sch' nx where q: "queueproc (nat r) p (sch, ?s2) = Some (sch', ?s2\<lparr>p_priority := (p_priority ?s2)(p := of_nat (nat r)), p_rnext := nx\<rparr>)"
    "rq_ok (sch', ?s2\<lparr>p_priority := (p_priority ?s2)(p := of_nat (nat r)), p_rnext := nx\<rparr>) (qs[nat r := qs ! nat r @ [p]])"
    using queueproc_ok [OF z2 lt p] by blast
  show ?thesis
    by (intro exI [of _ "nat r"] exI [of _ sch'] exI [of _ "?s2\<lparr>p_priority := (p_priority ?s2)(p := of_nat (nat r)), p_rnext := nx\<rparr>"])
      (use r q in \<open>auto simp: schedready_def Let_def\<close>)
qed

text \<open>The bits answer for the queues.\<close>

lemma word_nonzero: "w \<noteq> 0 \<longleftrightarrow> (\<exists>n. bit (w :: u32) n)"
  using bit_eq_iff [of w 0] by (auto dest: bit_imp_le_length)

lemma anyready_iff: "rq_ok (sch, s) qs \<Longrightarrow> anyready sch \<longleftrightarrow> in_queues qs \<noteq> {}"
proof -
  assume z: "rq_ok (sch, s) qs"
  note D = rq_okD [OF z, unfolded fst_conv snd_conv]
  have "anyready sch \<longleftrightarrow> (\<exists>n. bit (runvec sch) n)" by (simp only: anyready_def word_nonzero)
  also have "\<dots> \<longleftrightarrow> (\<exists>n < Nrq. \<exists>p. p \<in> set (qs ! n))" using D(10) by (simp add: ex_in_conv)
  also have "\<dots> \<longleftrightarrow> in_queues qs \<noteq> {}" using in_queues_iff [OF D(1)] by (simp add: ex_in_conv [symmetric]) blast
  finally show ?thesis .
qed

lemma bit_above: "bit (v AND NOT (mask k) :: u32) n \<longleftrightarrow> bit v n \<and> k \<le> n"
  by (cases "n < 32") (auto simp: bit_and_iff bit_not_iff bit_mask_iff dest: bit_imp_le_length)

lemma anyhigher_iff:
  assumes z: "rq_ok (sch, s) qs" and p: "unat (p_priority s up) < Nrq"
  shows "anyhigher up sch s \<longleftrightarrow> (\<exists>n. unat (p_priority s up) < n \<and> n < Nrq \<and> qs ! n \<noteq> [])"
proof -
  note D = rq_okD [OF z, unfolded fst_conv snd_conv]
  let ?k = "unat (p_priority s up)"
  have "anyhigher up sch s \<longleftrightarrow> (\<exists>n. bit (runvec sch AND NOT (mask (?k + 1))) n)"
    unfolding anyhigher_def word_nonzero mask_eq_exp_minus_1 push_bit_eq_mult by simp
  also have "\<dots> \<longleftrightarrow> (\<exists>n. bit (runvec sch) n \<and> ?k < n)" by (simp add: bit_above Suc_le_eq)
  finally show ?thesis using D(10) by auto
qed

text \<open>Scanning finds the first eligible process of the highest queue that has one.\<close>

lemma scan_queue_spec: "linked nx ps \<Longrightarrow> scan_queue P nx (first ps) = Some (find P ps)"
proof (induction ps)
  case (Cons p ps)
  then show ?case by (subst scan_queue.simps) simp
qed (subst scan_queue.simps, simp)

lemma scan_runq_spec:
  assumes z: "rq_ok z qs" and n: "n \<le> Nrq"
  shows "scan_runq P n z = Some (case find (\<lambda>i. find P (qs ! i) \<noteq> None) (rev [0 ..< n]) of None \<Rightarrow> None | Some i \<Rightarrow> Some (i, the (find P (qs ! i))))"
  using n
proof (induction n)
  case (Suc n)
  note D = rq_okD [OF z]
  have "scan_queue P (p_rnext (snd z)) (sq_head (runq (fst z) ! n)) = Some (find P (qs ! n))"
    using scan_queue_spec [OF D(7)] D(4) Suc.prems by simp
  then show ?case using Suc by (auto split: option.split)
qed simp

subsection \<open>Machines and processes\<close>

text \<open>
  What each machine does with its process: nothing; it has taken it off a queue; it runs it; it is on the stack of the
  scheduler and looks at its state; it has done so and still has to let go of it. \<open>r_new\<close> are the processes that \<open>newproc\<close> made and nobody has made ready;
  \<open>r_moving\<close> is the process that \<open>rebalance\<close>, which machine 0 calls from the clock interrupt, has taken off a queue and will put on another, and
  which.
\<close>

datatype phase = Idle | Took proc | Runs proc | Leaves proc | Gone proc

record rsys =
  r_sch :: sched
  r_ps :: rprocs
  r_phase :: "mach \<Rightarrow> phase"
  r_new :: "proc list"
  r_moving :: "(proc \<times> nat) option"

datatype ract = Take mach bool nat proc | Run mach | Block mach pstate | Exit mach | Leave mach | Out1 mach | Out2 mach
  | Wake "proc option" proc | Create proc | Start "proc option" proc | Wire proc mach | Priority proc int bool
  | Lift "proc option" bool nat proc | Drop

definition asleep :: "pstate \<Rightarrow> bool" where
  "asleep st \<longleftrightarrow> st \<notin> {Dead, Moribund, Ready, Scheding, Running}"

definition newproc :: "env \<Rightarrow> proc \<Rightarrow> rprocs \<Rightarrow> rprocs" where
  "newproc e p s = procpriority p 10 False
     (s\<lparr>p_state := (p_state s)(p := Scheding), p_mach := (p_mach s)(p := None), p_mp := (p_mp s)(p := None), p_wired := (p_wired s)(p := None),
        p_cpu := (p_cpu s)(p := 0), p_lastupdate := (p_lastupdate s)(p := e_ticks e * word_of_int Scaling)\<rparr>)"

text \<open>Wiring to a machine that was asked for.\<close>

definition procwired :: "int \<Rightarrow> proc \<Rightarrow> mach \<Rightarrow> rprocs \<Rightarrow> rprocs" where
  "procwired nmach p bm s =
     (let w = nat (int bm mod nmach) in s\<lparr>p_wired := (p_wired s)(p := Some w), p_mp := (p_mp s)(p := Some w)\<rparr>)"

text \<open>When each can happen. If \<open>strict\<close>, a process is not made anew before its last machine has let go of it.\<close>

fun rguard :: "bool \<Rightarrow> ract \<Rightarrow> rsys \<Rightarrow> bool" where
  "rguard strict (Take m busy pri p) x \<longleftrightarrow> r_phase x m = Idle \<and> pri < Nrq"
| "rguard strict (Run m) x \<longleftrightarrow> (case r_phase x m of Took p \<Rightarrow> True | _ \<Rightarrow> False)"
| "rguard strict (Block m st) x \<longleftrightarrow> (case r_phase x m of Runs p \<Rightarrow> p_state (r_ps x) p = Running \<and> asleep st | _ \<Rightarrow> False)"
| "rguard strict (Exit m) x \<longleftrightarrow> (case r_phase x m of Runs p \<Rightarrow> p_state (r_ps x) p = Running | _ \<Rightarrow> False)"
| "rguard strict (Leave m) x \<longleftrightarrow> (case r_phase x m of Runs p \<Rightarrow> True | _ \<Rightarrow> False)"
| "rguard strict (Out1 m) x \<longleftrightarrow> (case r_phase x m of Leaves p \<Rightarrow> True | _ \<Rightarrow> False)"
| "rguard strict (Out2 m) x \<longleftrightarrow> (case r_phase x m of Gone p \<Rightarrow> True | _ \<Rightarrow> False)"
| "rguard strict (Wake up p) x \<longleftrightarrow> asleep (p_state (r_ps x) p)"
| "rguard strict (Create p) x \<longleftrightarrow> p_state (r_ps x) p = Dead \<and> (strict \<longrightarrow> p_mach (r_ps x) p = None)"
| "rguard strict (Start up p) x \<longleftrightarrow> p \<in> set (r_new x)"
| "rguard strict (Wire p bm) x \<longleftrightarrow> True"
| "rguard strict (Priority p pri fixed) x \<longleftrightarrow> True"
| "rguard strict (Lift up busy pri p) x \<longleftrightarrow> r_moving x = None \<and> pri < Npriq"
| "rguard strict Drop x \<longleftrightarrow> r_moving x \<noteq> None"

definition make_ready :: "env \<Rightarrow> proc option \<Rightarrow> proc \<Rightarrow> rsys \<Rightarrow> rsys option" where
  "make_ready e up p x = map_option (\<lambda>(sch, s). x\<lparr>r_sch := sch, r_ps := s, r_new := removeAll p (r_new x)\<rparr>)
     (schedready e up p (r_sch x, r_ps x))"

definition set_pstate :: "proc \<Rightarrow> pstate \<Rightarrow> rsys \<Rightarrow> rsys" where
  "set_pstate p st x = x\<lparr>r_ps := (r_ps x)\<lparr>p_state := (p_state (r_ps x))(p := st)\<rparr>\<rparr>"

fun rdo :: "env \<Rightarrow> ract \<Rightarrow> rsys \<Rightarrow> rsys option" where
  "rdo e (Take m busy pri p) x =
     (case dequeueproc busy pri p (r_sch x, r_ps x) of
        None \<Rightarrow> None
      | Some (None, z) \<Rightarrow> Some x
      | Some (Some p, sch, s) \<Rightarrow>
          Some (x\<lparr>r_sch := sch, r_ps := s\<lparr>p_state := (p_state s)(p := Scheding), p_mp := (p_mp s)(p := Some m)\<rparr>,
                  r_phase := (r_phase x)(m := Took p)\<rparr>))"
| "rdo e (Run m) x = (case r_phase x m of
     Took p \<Rightarrow> map_option (\<lambda>s. x\<lparr>r_ps := s, r_phase := (r_phase x)(m := Runs p)\<rparr>) (sched_in e m p (r_ps x)) | _ \<Rightarrow> None)"
| "rdo e (Block m st) x = (case r_phase x m of Runs p \<Rightarrow> Some (set_pstate p st x) | _ \<Rightarrow> None)"
| "rdo e (Exit m) x = (case r_phase x m of Runs p \<Rightarrow> Some (set_pstate p Moribund x) | _ \<Rightarrow> None)"
| "rdo e (Leave m) x = (case r_phase x m of Runs p \<Rightarrow> Some (x\<lparr>r_phase := (r_phase x)(m := Leaves p)\<rparr>) | _ \<Rightarrow> None)"
| "rdo e (Out1 m) x = (case r_phase x m of
     Leaves p \<Rightarrow> map_option (\<lambda>y. y\<lparr>r_phase := (r_phase y)(m := Gone p)\<rparr>)
       (if p_state (r_ps x) p = Running then make_ready e (Some p) p x
        else if p_state (r_ps x) p = Moribund then Some (set_pstate p Dead x) else Some x) | _ \<Rightarrow> None)"
| "rdo e (Out2 m) x = (case r_phase x m of
     Gone p \<Rightarrow> Some (x\<lparr>r_ps := sched_out2 e p (r_ps x), r_phase := (r_phase x)(m := Idle)\<rparr>) | _ \<Rightarrow> None)"
| "rdo e (Wake up p) x = make_ready e up p x"
| "rdo e (Create p) x = Some (x\<lparr>r_ps := newproc e p (r_ps x), r_new := p # r_new x\<rparr>)"
| "rdo e (Start up p) x = make_ready e up p x"
| "rdo e (Wire p bm) x = Some (x\<lparr>r_ps := procwired (e_nmach e) p bm (r_ps x)\<rparr>)"
| "rdo e (Priority p pri fixed) x = Some (x\<lparr>r_ps := procpriority p pri fixed (r_ps x)\<rparr>)"
| "rdo e (Lift up busy pri p) x =
     (if p_mp (r_ps x) p \<noteq> Some 0 \<or> of_nat pri = p_basepri (r_ps x) p then Some x
      else
        let s = updatecpu e up p (r_ps x) in
        (case reprioritize e p s of
           None \<Rightarrow> None
         | Some npri \<Rightarrow>
             if npri = int pri then Some (x\<lparr>r_ps := s\<rparr>)
             else map_option (\<lambda>(r, sch, s). x\<lparr>r_sch := sch, r_ps := s, r_moving := map_option (\<lambda>p. (p, nat npri)) r\<rparr>)
               (dequeueproc busy pri p (r_sch x, s))))"
| "rdo e Drop x = (case r_moving x of
     Some (p, npri) \<Rightarrow> map_option (\<lambda>(sch, s). x\<lparr>r_sch := sch, r_ps := s, r_moving := None\<rparr>) (queueproc npri p (r_sch x, r_ps x)) | None \<Rightarrow> None)"

definition rprocs0 :: rprocs where
  "rprocs0 = \<lparr>p_state = \<lambda>_. Dead, p_qnext = \<lambda>_. None, p_qpc = \<lambda>_. 0, p_rnext = \<lambda>_. None, p_priority = \<lambda>_. 0, p_basepri = \<lambda>_. 0,
     p_fixedpri = \<lambda>_. False, p_cpu = \<lambda>_. 0, p_lastupdate = \<lambda>_. 0, p_wired = \<lambda>_. None, p_mp = \<lambda>_. None, p_mach = \<lambda>_. None\<rparr>"

definition rsys0 :: rsys where
  "rsys0 = \<lparr>r_sch = \<lparr>nrdy = 0, runq = replicate Nrq \<lparr>sq_head = None, sq_tail = None, sq_n = 0\<rparr>, runvec = 0\<rparr>,
     r_ps = rprocs0, r_phase = \<lambda>_. Idle, r_new = [], r_moving = None\<rparr>"

inductive rreach :: "bool \<Rightarrow> rsys \<Rightarrow> bool" for strict where
  rinit: "rreach strict rsys0"
| rstep: "rreach strict x \<Longrightarrow> rguard strict a x \<Longrightarrow> rdo e a x = Some y \<Longrightarrow> rreach strict y"

definition moves :: "rsys \<Rightarrow> proc \<Rightarrow> bool" where
  "moves x p \<longleftrightarrow> (case r_moving x of None \<Rightarrow> False | Some (q, _) \<Rightarrow> q = p)"

lemma moves_cong [simp]: "moves (x\<lparr>r_sch := a\<rparr>) = moves x" "moves (x\<lparr>r_ps := b\<rparr>) = moves x" "moves (x\<lparr>r_phase := c\<rparr>) = moves x"
  "moves (x\<lparr>r_new := d\<rparr>) = moves x"
  by (simp_all add: moves_def fun_eq_iff)

lemma moves_upd [simp]: "moves (x\<lparr>r_moving := None\<rparr>) p = False" "moves (x\<lparr>r_moving := Some (q, n)\<rparr>) p = (q = p)"
  by (simp_all add: moves_def)

definition rinv_at :: "rsys \<Rightarrow> proc list list \<Rightarrow> bool" where
  "rinv_at x qs \<longleftrightarrow> (let s = r_ps x; ph = r_phase x in
     rq_ok (r_sch x, s) qs \<and> pri_ok s \<and> (\<forall>p. p \<in> in_queues qs \<longleftrightarrow> p_state s p = Ready \<and> \<not> moves x p) \<and>
     (\<forall>p n. r_moving x = Some (p, n) \<longrightarrow> p_state s p = Ready \<and> n < Nrq) \<and>
     (\<forall>p m. p_mach s p = Some m \<longleftrightarrow> ph m = Runs p \<or> ph m = Leaves p \<or> ph m = Gone p) \<and>
     (\<forall>m p. ph m = Gone p \<longrightarrow> p_state s p \<noteq> Running \<and> p_state s p \<noteq> Moribund) \<and>
     (\<forall>m p. ph m = Took p \<longrightarrow> p_state s p = Scheding \<and> p_mach s p = None \<and> p \<notin> set (r_new x)) \<and>
     (\<forall>m m' p. ph m = Took p \<longrightarrow> ph m' = Took p \<longrightarrow> m = m') \<and>
     (\<forall>p \<in> set (r_new x). p_state s p = Scheding \<and> p_mach s p = None) \<and>
     (\<forall>p. p_state s p = Running \<or> p_state s p = Moribund \<longrightarrow> p_mach s p \<noteq> None) \<and>
     (\<forall>p. p_mach s p \<noteq> None \<longrightarrow> p_state s p \<noteq> Scheding))"

lemma rinv_atD:
  assumes "rinv_at x qs"
  shows "rq_ok (r_sch x, r_ps x) qs" "pri_ok (r_ps x)" "\<And>p. p \<in> in_queues qs \<longleftrightarrow> p_state (r_ps x) p = Ready \<and> \<not> moves x p"
    "\<And>p m. p_mach (r_ps x) p = Some m \<longleftrightarrow> r_phase x m = Runs p \<or> r_phase x m = Leaves p \<or> r_phase x m = Gone p"
    "\<And>m p. r_phase x m = Took p \<Longrightarrow> p_state (r_ps x) p = Scheding \<and> p_mach (r_ps x) p = None \<and> p \<notin> set (r_new x)"
    "\<And>m m' p. r_phase x m = Took p \<Longrightarrow> r_phase x m' = Took p \<Longrightarrow> m = m'"
    "\<And>p. p \<in> set (r_new x) \<Longrightarrow> p_state (r_ps x) p = Scheding \<and> p_mach (r_ps x) p = None"
    "\<And>p. p_state (r_ps x) p = Running \<or> p_state (r_ps x) p = Moribund \<Longrightarrow> p_mach (r_ps x) p \<noteq> None"
    "\<And>p. p_mach (r_ps x) p \<noteq> None \<Longrightarrow> p_state (r_ps x) p \<noteq> Scheding"
    "\<And>m p. r_phase x m = Gone p \<Longrightarrow> p_state (r_ps x) p \<noteq> Running \<and> p_state (r_ps x) p \<noteq> Moribund"
    "\<And>p n. r_moving x = Some (p, n) \<Longrightarrow> p_state (r_ps x) p = Ready \<and> n < Nrq"
  using assms by (auto simp: rinv_at_def Let_def)

lemma rinv_atI:
  assumes "rq_ok (r_sch x, r_ps x) qs" "pri_ok (r_ps x)" "\<And>p. p \<in> in_queues qs \<longleftrightarrow> p_state (r_ps x) p = Ready \<and> \<not> moves x p"
    "\<And>p m. p_mach (r_ps x) p = Some m \<longleftrightarrow> r_phase x m = Runs p \<or> r_phase x m = Leaves p \<or> r_phase x m = Gone p"
    "\<And>m p. r_phase x m = Took p \<Longrightarrow> p_state (r_ps x) p = Scheding \<and> p_mach (r_ps x) p = None \<and> p \<notin> set (r_new x)"
    "\<And>m m' p. r_phase x m = Took p \<Longrightarrow> r_phase x m' = Took p \<Longrightarrow> m = m'"
    "\<And>p. p \<in> set (r_new x) \<Longrightarrow> p_state (r_ps x) p = Scheding \<and> p_mach (r_ps x) p = None"
    "\<And>p. p_state (r_ps x) p = Running \<or> p_state (r_ps x) p = Moribund \<Longrightarrow> p_mach (r_ps x) p \<noteq> None"
    "\<And>p. p_mach (r_ps x) p \<noteq> None \<Longrightarrow> p_state (r_ps x) p \<noteq> Scheding"
    "\<And>m p. r_phase x m = Gone p \<Longrightarrow> p_state (r_ps x) p \<noteq> Running \<and> p_state (r_ps x) p \<noteq> Moribund"
    "\<And>p n. r_moving x = Some (p, n) \<Longrightarrow> p_state (r_ps x) p = Ready \<and> n < Nrq"
  shows "rinv_at x qs"
  using assms by (auto simp: rinv_at_def Let_def)

lemma rinv_init: "rinv_at rsys0 (replicate Nrq [])"
  by (simp add: rinv_at_def Let_def rsys0_def rprocs0_def rq_ok_def pri_ok_def in_queues_def Npriq_def sum_list_replicate moves_def)

text \<open>Making a process ready that is neither ready nor taken.\<close>

lemma make_ready_inv:
  assumes i: "rinv_at x qs" and p: "p_state (r_ps x) p \<noteq> Ready" "\<And>m. r_phase x m \<noteq> Took p"
  shows "\<exists>y qs'. make_ready e up p x = Some y \<and> rinv_at y qs' \<and> r_phase y = r_phase x \<and> p_state (r_ps y) p = Ready"
proof -
  note D = rinv_atD [OF i]
  have np: "p \<notin> in_queues qs" using D(3) p(1) by simp
  obtain pri sch' s' where a: "pri < Npriq" "schedready e up p (r_sch x, r_ps x) = Some (sch', s')" "rq_ok (sch', s') (qs[pri := qs ! pri @ [p]])"
    "p_state s' = (p_state (r_ps x))(p := Ready)" "p_mach s' = p_mach (r_ps x)" "p_basepri s' = p_basepri (r_ps x)"
    using schedready_ok [OF D(1,2) np, of e up] by blast
  let ?y = "x\<lparr>r_sch := sch', r_ps := s', r_new := removeAll p (r_new x)\<rparr>"
  have lt: "pri < Nrq" using a(1) by (simp add: Nrq_def)
  have nm: "\<not> moves x p" using D(11) p(1) by (auto simp: moves_def split: option.splits)
  have k: "q \<in> in_queues (qs[pri := qs ! pri @ [p]]) \<longleftrightarrow> p_state s' q = Ready \<and> \<not> moves x q"
    "r_moving x = Some (q, n) \<Longrightarrow> p_state s' q = Ready \<and> n < Nrq" for q n
    using D(3) [of q] D(11) [of q n] nm in_queues_snoc [OF rq_okD(1) [OF D(1)] lt, of p] a(4) by auto
  have "rinv_at ?y (qs[pri := qs ! pri @ [p]])"
    using a(3,5,6) k D(2,4-10) p unfolding rinv_at_def Let_def by (simp add: pri_ok_def a(4))
  then show ?thesis using a(2,4) by (auto simp: make_ready_def)
qed

text \<open>Changes that no queue sees.\<close>

lemma rinv_frame:
  assumes i: "rinv_at x qs" and s: "p_rnext s' = p_rnext (r_ps x)" "pri_ok s'" "\<And>p. p_state s' p = Ready \<longleftrightarrow> p_state (r_ps x) p = Ready"
    and r: "\<And>p m. p_mach s' p = Some m \<longleftrightarrow> ph m = Runs p \<or> ph m = Leaves p \<or> ph m = Gone p"
      "\<And>m p. ph m = Took p \<Longrightarrow> p_state s' p = Scheding \<and> p_mach s' p = None \<and> p \<notin> set new"
      "\<And>m m' p. ph m = Took p \<Longrightarrow> ph m' = Took p \<Longrightarrow> m = m'"
      "\<And>p. p \<in> set new \<Longrightarrow> p_state s' p = Scheding \<and> p_mach s' p = None"
      "\<And>p. p_state s' p = Running \<or> p_state s' p = Moribund \<Longrightarrow> p_mach s' p \<noteq> None"
      "\<And>p. p_mach s' p \<noteq> None \<Longrightarrow> p_state s' p \<noteq> Scheding"
      "\<And>m p. ph m = Gone p \<Longrightarrow> p_state s' p \<noteq> Running \<and> p_state s' p \<noteq> Moribund"
  shows "rinv_at (x\<lparr>r_ps := s', r_phase := ph, r_new := new\<rparr>) qs"
proof -
  note D = rinv_atD [OF i]
  have "rq_ok (r_sch x, s') qs" using D(1) s(1) by (subst rq_ok_cong [of qs _ "r_ps x"]) simp_all
  then show ?thesis using s r D(3,11) unfolding rinv_at_def Let_def by simp
qed

lemma rec_same: "x\<lparr>r_ps := s, r_phase := r_phase x, r_new := r_new x\<rparr> = x\<lparr>r_ps := s\<rparr>"
  "x\<lparr>r_ps := r_ps x, r_phase := ph, r_new := r_new x\<rparr> = x\<lparr>r_phase := ph\<rparr>"
  "x\<lparr>r_ps := s, r_phase := ph, r_new := r_new x\<rparr> = x\<lparr>r_ps := s, r_phase := ph\<rparr>"
  "x\<lparr>r_ps := s, r_phase := r_phase x, r_new := n\<rparr> = x\<lparr>r_ps := s, r_new := n\<rparr>"
  by (cases x; simp)+

lemma take_inv:
  assumes i: "rinv_at x qs" and g: "r_phase x m = Idle" "pri < Nrq"
  shows "\<exists>y qs'. rdo e (Take m busy pri p) x = Some y \<and> rinv_at y qs'"
proof -
  note D = rinv_atD [OF i]
  show ?thesis
  proof (cases "\<not> busy \<and> p \<in> set (qs ! pri) \<and> p_mach (r_ps x) p = None")
    case False
    then have "dequeueproc busy pri p (r_sch x, r_ps x) = Some (None, r_sch x, r_ps x)"
      using dequeueproc_not [OF D(1) g(2)] dequeueproc_busy by (cases busy) auto
    then show ?thesis using i by auto
  next
    case True
    then obtain sch' nx where d: "dequeueproc False pri p (r_sch x, r_ps x) = Some (Some p, sch', (r_ps x)\<lparr>p_rnext := nx\<rparr>)"
      "rq_ok (sch', (r_ps x)\<lparr>p_rnext := nx\<rparr>) (qs[pri := remove1 p (qs ! pri)])"
      using dequeueproc_ok [OF D(1) g(2)] by blast
    note Q = rq_okD [OF D(1), unfolded fst_conv snd_conv]
    let ?qs = "qs[pri := remove1 p (qs ! pri)]"
    have inq: "p \<in> in_queues qs" using True in_queues_iff [OF Q(1)] g(2) by auto
    then have rdy: "p_state (r_ps x) p = Ready" using D(3) by simp
    have q': "q \<in> in_queues ?qs \<longleftrightarrow> q \<in> in_queues qs \<and> q \<noteq> p" for q
      using in_queues_remove [OF D(1) g(2)] True by simp
    let ?s = "(r_ps x)\<lparr>p_rnext := nx, p_state := (p_state (r_ps x))(p := Scheding), p_mp := (p_mp (r_ps x))(p := Some m)\<rparr>"
    let ?y = "x\<lparr>r_sch := sch', r_ps := ?s, r_phase := (r_phase x)(m := Took p)\<rparr>"
    have "rdo e (Take m busy pri p) x = Some ?y" using d True by simp
    moreover have "rinv_at ?y ?qs"
    proof -
      have a1: "rq_ok (sch', ?s) ?qs" using d(2) by (subst rq_ok_cong [of _ _ "(r_ps x)\<lparr>p_rnext := nx\<rparr>"]) simp_all
      have a2: "p_mach (r_ps x) q = Some k \<longleftrightarrow> ((r_phase x)(m := Took p)) k = Runs q \<or> ((r_phase x)(m := Took p)) k = Leaves q \<or> ((r_phase x)(m := Took p)) k = Gone q" for q k
        using D(4) [of q k] g(1) by auto
      have a3: "r_phase x k \<noteq> Took p" for k using D(5) [of k p] rdy by auto
      have a4: "p \<notin> set (r_new x)" using D(7) [of p] rdy by auto
      show ?thesis
      proof (rule rinv_atI)
        show "pri_ok (r_ps ?y)" using D(2) by (simp add: pri_ok_def)
        show "q \<in> in_queues ?qs \<longleftrightarrow> p_state (r_ps ?y) q = Ready \<and> \<not> moves ?y q" for q using q' [of q] D(3) [of q] by simp
        show "p_state (r_ps ?y) q = Ready \<and> n < Nrq" if "r_moving ?y = Some (q, n)" for q n
          using that D(11) [of q n] D(3) [of p] inq by (auto simp: moves_def)
        show "p_state (r_ps ?y) q = Scheding \<and> p_mach (r_ps ?y) q = None \<and> q \<notin> set (r_new ?y)" if "r_phase ?y k = Took q" for k q
          using that D(5) [of k q] a4 True by (auto split: if_splits)
        show "k = k'" if "r_phase ?y k = Took q" "r_phase ?y k' = Took q" for k k' q
          using that D(6) [of k q k'] a3 by (auto split: if_splits)
        show "p_state (r_ps ?y) q = Scheding \<and> p_mach (r_ps ?y) q = None" if "q \<in> set (r_new ?y)" for q
          using that D(7) [of q] a4 by auto
        show "p_mach (r_ps ?y) q \<noteq> None" if "p_state (r_ps ?y) q = Running \<or> p_state (r_ps ?y) q = Moribund" for q
          using that D(8) [of q] by (auto split: if_splits)
        show "p_state (r_ps ?y) q \<noteq> Scheding" if "p_mach (r_ps ?y) q \<noteq> None" for q
          using that D(9) [of q] True by auto
        show "p_state (r_ps ?y) q \<noteq> Running \<and> p_state (r_ps ?y) q \<noteq> Moribund" if "r_phase ?y k = Gone q" for k q
          using that D(10) [of k q] by (auto split: if_splits)
      qed (use a1 a2 in simp_all)
    qed
    ultimately show ?thesis by blast
  qed
qed

definition wire_ok :: "ract \<Rightarrow> rsys \<Rightarrow> bool" where
  "wire_ok a x \<longleftrightarrow> (case a of
     Run m \<Rightarrow> (case r_phase x m of Took p \<Rightarrow> p_wired (r_ps x) p = None \<or> p_wired (r_ps x) p = Some m | _ \<Rightarrow> True)
   | _ \<Rightarrow> True)"

lemma sched_in_ok:
  assumes "pri_ok s" "p_wired s p = None \<or> p_wired s p = Some m"
  shows "\<exists>s'. sched_in e m p s = Some s' \<and> p_rnext s' = p_rnext s \<and> p_basepri s' = p_basepri s \<and> p_state s' = (p_state s)(p := Running) \<and>
    p_mach s' = (p_mach s)(p := Some m)"
proof -
  have "pri_ok (updatecpu e None p s)" using assms(1) by (simp add: pri_ok_def)
  then obtain r where "reprioritize e p (updatecpu e None p s) = Some r" using reprioritize_lt by blast
  then show ?thesis using assms(2) by (auto simp: sched_in_def Let_def)
qed

lemma run_inv:
  assumes i: "rinv_at x qs" and g: "r_phase x m = Took p" and w: "p_wired (r_ps x) p = None \<or> p_wired (r_ps x) p = Some m"
  shows "\<exists>y. rdo e (Run m) x = Some y \<and> rinv_at y qs"
proof -
  note D = rinv_atD [OF i]
  obtain s' where s: "sched_in e m p (r_ps x) = Some s'" "p_rnext s' = p_rnext (r_ps x)" "p_basepri s' = p_basepri (r_ps x)"
    "p_state s' = (p_state (r_ps x))(p := Running)" "p_mach s' = (p_mach (r_ps x))(p := Some m)"
    using sched_in_ok [OF D(2) w] by blast
  have "rinv_at (x\<lparr>r_ps := s', r_phase := (r_phase x)(m := Runs p), r_new := r_new x\<rparr>) qs"
  proof (rule rinv_frame [OF i s(2)])
    show "pri_ok s'" using D(2) s(3) by (simp add: pri_ok_def)
    show "p_mach s' q = Some k \<longleftrightarrow> ((r_phase x)(m := Runs p)) k = Runs q \<or> ((r_phase x)(m := Runs p)) k = Leaves q \<or> ((r_phase x)(m := Runs p)) k = Gone q" for q k
      using D(4) [of q k] D(5) [OF g] g by (auto simp: s(5))
    show "p_state s' q = Scheding \<and> p_mach s' q = None \<and> q \<notin> set (r_new x)" if "((r_phase x)(m := Runs p)) k = Took q" for k q
    proof -
      have k: "k \<noteq> m" "r_phase x k = Took q" using that by (cases "k = m"; simp)+
      then have "q \<noteq> p" using D(6) g by blast
      then show ?thesis using D(5) [OF k(2)] s by simp
    qed
    show "k = k'" if "((r_phase x)(m := Runs p)) k = Took q" "((r_phase x)(m := Runs p)) k' = Took q" for k k' q
      using that D(6) [of k q k'] by (auto split: if_splits)
    show "p_state s' q = Scheding \<and> p_mach s' q = None" if "q \<in> set (r_new x)" for q
      using that D(7) [of q] D(5) [OF g] by (auto simp: s)
    show "p_mach s' q \<noteq> None" if "p_state s' q = Running \<or> p_state s' q = Moribund" for q
      using that D(8) [of q] by (auto simp: s split: if_splits)
    show "p_state s' q \<noteq> Scheding" if "p_mach s' q \<noteq> None" for q
      using that D(9) [of q] by (auto simp: s split: if_splits)
    show "p_state s' q \<noteq> Running \<and> p_state s' q \<noteq> Moribund" if "((r_phase x)(m := Runs p)) k = Gone q" for k q
    proof -
      have k: "r_phase x k = Gone q" using that by (cases "k = m"; simp)
      then have "q \<noteq> p" using D(4) [of p k] D(5) [OF g] by auto
      then show ?thesis using D(10) [OF k] s by simp
    qed
  qed (use D(5) [OF g] in \<open>simp add: s\<close>)
  then show ?thesis using g s(1) by (simp add: rec_same)
qed

text \<open>A process in the hands of its machine.\<close>

lemma held_not_taken:
  assumes "rinv_at x qs" "r_phase x m = Runs p \<or> r_phase x m = Leaves p \<or> r_phase x m = Gone p"
  shows "p_mach (r_ps x) p = Some m" "r_phase x k \<noteq> Took p" "p \<notin> set (r_new x)" "p_state (r_ps x) p \<noteq> Scheding"
proof -
  note D = rinv_atD [OF assms(1)]
  show m: "p_mach (r_ps x) p = Some m" using D(4) assms(2) by simp
  show "r_phase x k \<noteq> Took p" using D(5) [of k p] m by auto
  show "p \<notin> set (r_new x)" using D(7) [of p] m by auto
  show "p_state (r_ps x) p \<noteq> Scheding" using D(9) [of p] m by simp
qed

lemma set_pstate_inv:
  assumes i: "rinv_at x qs" and g: "r_phase x m = Runs p \<or> r_phase x m = Leaves p" and st: "st \<noteq> Ready" "st \<noteq> Scheding" "p_state (r_ps x) p \<noteq> Ready"
  shows "rinv_at (set_pstate p st x) qs"
proof -
  have g': "r_phase x m = Runs p \<or> r_phase x m = Leaves p \<or> r_phase x m = Gone p" using g by blast
  note D = rinv_atD [OF i] and H = held_not_taken [OF i g']
  have nl: "r_phase x k \<noteq> Gone p" for k using D(4) [of p k] H(1) g by auto
  have "rinv_at (x\<lparr>r_ps := (r_ps x)\<lparr>p_state := (p_state (r_ps x))(p := st)\<rparr>, r_phase := r_phase x, r_new := r_new x\<rparr>) qs"
  proof (rule rinv_frame [OF i])
    show "k = k'" if "r_phase x k = Took q" "r_phase x k' = Took q" for k k' q using that D(6) by blast
    show "p_state ((r_ps x)\<lparr>p_state := (p_state (r_ps x))(p := st)\<rparr>) q = Scheding \<and> p_mach ((r_ps x)\<lparr>p_state := (p_state (r_ps x))(p := st)\<rparr>) q = None \<and> q \<notin> set (r_new x)"
      if "r_phase x k = Took q" for k q
      using D(5) [OF that] H(1) by (cases "q = p") simp_all
    show "p_state ((r_ps x)\<lparr>p_state := (p_state (r_ps x))(p := st)\<rparr>) q = Scheding \<and> p_mach ((r_ps x)\<lparr>p_state := (p_state (r_ps x))(p := st)\<rparr>) q = None"
      if "q \<in> set (r_new x)" for q
      using D(7) [OF that] H(1) by (cases "q = p") simp_all
    show "p_mach ((r_ps x)\<lparr>p_state := (p_state (r_ps x))(p := st)\<rparr>) q \<noteq> None"
      if "p_state ((r_ps x)\<lparr>p_state := (p_state (r_ps x))(p := st)\<rparr>) q = Running \<or> p_state ((r_ps x)\<lparr>p_state := (p_state (r_ps x))(p := st)\<rparr>) q = Moribund" for q
      using that D(8) [of q] H(1) by (cases "q = p") simp_all
    show "p_state ((r_ps x)\<lparr>p_state := (p_state (r_ps x))(p := st)\<rparr>) q \<noteq> Scheding" if "p_mach ((r_ps x)\<lparr>p_state := (p_state (r_ps x))(p := st)\<rparr>) q \<noteq> None" for q
      using that D(9) [of q] st(2) by (cases "q = p") simp_all
    show "p_state ((r_ps x)\<lparr>p_state := (p_state (r_ps x))(p := st)\<rparr>) q \<noteq> Running \<and> p_state ((r_ps x)\<lparr>p_state := (p_state (r_ps x))(p := st)\<rparr>) q \<noteq> Moribund"
      if "r_phase x k = Gone q" for k q
      using that D(10) [OF that] nl by auto
  qed (use D(2,4) st in \<open>simp_all add: pri_ok_def\<close>)
  then show ?thesis by (simp add: set_pstate_def rec_same)
qed

lemma leave_inv:
  assumes i: "rinv_at x qs" and g: "r_phase x m = Runs p"
  shows "rinv_at (x\<lparr>r_phase := (r_phase x)(m := Leaves p)\<rparr>) qs"
proof -
  note D = rinv_atD [OF i] 
  have t: "((r_phase x)(m := Leaves p)) k = Took q \<longleftrightarrow> r_phase x k = Took q" for k q using g by simp
  have h: "((r_phase x)(m := Leaves p)) k = Runs q \<or> ((r_phase x)(m := Leaves p)) k = Leaves q \<or> ((r_phase x)(m := Leaves p)) k = Gone q \<longleftrightarrow>
    r_phase x k = Runs q \<or> r_phase x k = Leaves q \<or> r_phase x k = Gone q" for k q
    using g by auto
  have l: "((r_phase x)(m := Leaves p)) k = Gone q \<longleftrightarrow> r_phase x k = Gone q" for k q using g by simp
  have "rinv_at (x\<lparr>r_ps := r_ps x, r_phase := (r_phase x)(m := Leaves p), r_new := r_new x\<rparr>) qs"
  proof (rule rinv_frame [OF i refl D(2) refl])
    show "p_state (r_ps x) q \<noteq> Running \<and> p_state (r_ps x) q \<noteq> Moribund" if "((r_phase x)(m := Leaves p)) k = Gone q" for k q
      using that D(10) unfolding l by blast
  qed (use D(4-9) in \<open>simp_all only: t h not_False_eq_True\<close>)
  then show ?thesis by (simp add: rec_same)
qed

lemma left_inv:
  assumes i: "rinv_at x qs" and g: "r_phase x m = Leaves p" and st: "p_state (r_ps x) p \<noteq> Running" "p_state (r_ps x) p \<noteq> Moribund"
  shows "rinv_at (x\<lparr>r_phase := (r_phase x)(m := Gone p)\<rparr>) qs"
proof -
  note D = rinv_atD [OF i]
  have t: "((r_phase x)(m := Gone p)) k = Took q \<longleftrightarrow> r_phase x k = Took q" for k q using g by simp
  have h: "((r_phase x)(m := Gone p)) k = Runs q \<or> ((r_phase x)(m := Gone p)) k = Leaves q \<or> ((r_phase x)(m := Gone p)) k = Gone q \<longleftrightarrow>
    r_phase x k = Runs q \<or> r_phase x k = Leaves q \<or> r_phase x k = Gone q" for k q
    using g by auto
  have "rinv_at (x\<lparr>r_ps := r_ps x, r_phase := (r_phase x)(m := Gone p), r_new := r_new x\<rparr>) qs"
  proof (rule rinv_frame [OF i refl D(2) refl])
    show "p_state (r_ps x) q \<noteq> Running \<and> p_state (r_ps x) q \<noteq> Moribund" if "((r_phase x)(m := Gone p)) k = Gone q" for k q
      using that D(10) [of k q] st by (cases "k = m") auto
  qed (use D(4-9) in \<open>simp_all only: t h not_False_eq_True\<close>)
  then show ?thesis by (simp add: rec_same)
qed

lemma out2_inv:
  assumes i: "rinv_at x qs" and g: "r_phase x m = Gone p"
  shows "rinv_at (x\<lparr>r_ps := sched_out2 e p (r_ps x), r_phase := (r_phase x)(m := Idle)\<rparr>) qs"
proof -
  note D = rinv_atD [OF i] and H = held_not_taken [OF i disjI2 [OF disjI2 [OF g]]]
  note st = conjunct1 [OF D(10) [OF g]] conjunct2 [OF D(10) [OF g]]
  let ?s = "sched_out2 e p (r_ps x)"
  have s: "p_rnext ?s = p_rnext (r_ps x)" "p_basepri ?s = p_basepri (r_ps x)" "p_state ?s = p_state (r_ps x)" "p_mach ?s = (p_mach (r_ps x))(p := None)"
    by (simp_all add: sched_out2_def)
  have t: "((r_phase x)(m := Idle)) k = Took q \<longleftrightarrow> r_phase x k = Took q" for k q using g by simp
  have "rinv_at (x\<lparr>r_ps := ?s, r_phase := (r_phase x)(m := Idle), r_new := r_new x\<rparr>) qs"
  proof (rule rinv_frame [OF i s(1)])
    show "p_mach ?s q = Some k \<longleftrightarrow> ((r_phase x)(m := Idle)) k = Runs q \<or> ((r_phase x)(m := Idle)) k = Leaves q \<or> ((r_phase x)(m := Idle)) k = Gone q" for q k
    proof (cases "q = p")
      case True
      have "\<not> (r_phase x k = Runs p \<or> r_phase x k = Leaves p \<or> r_phase x k = Gone p)" if "k \<noteq> m" using D(4) [of p k] H(1) that by simp
      then show ?thesis using True s(4) by auto
    next
      case False
      then show ?thesis using D(4) [of q k] s(4) g by auto
    qed
    show "k = k'" if "((r_phase x)(m := Idle)) k = Took q" "((r_phase x)(m := Idle)) k' = Took q" for k k' q
      using that D(6) unfolding t by blast
    show "p_state ?s q = Scheding \<and> p_mach ?s q = None \<and> q \<notin> set (r_new x)" if "((r_phase x)(m := Idle)) k = Took q" for k q
      using D(5) [of k q] that unfolding t s by auto
    show "p_state ?s q = Scheding \<and> p_mach ?s q = None" if "q \<in> set (r_new x)" for q
      using D(7) [OF that] s by simp
    show "p_mach ?s q \<noteq> None" if "p_state ?s q = Running \<or> p_state ?s q = Moribund" for q
      using that D(8) [of q] st unfolding s by auto
    show "p_state ?s q \<noteq> Scheding" if "p_mach ?s q \<noteq> None" for q
      using that D(9) [of q] unfolding s by (auto split: if_splits)
    show "p_state ?s q \<noteq> Running \<and> p_state ?s q \<noteq> Moribund" if "((r_phase x)(m := Idle)) k = Gone q" for k q
      using that D(10) [of k q] unfolding s by (cases "k = m") auto
  qed (use D(2) s in \<open>simp_all add: pri_ok_def\<close>)
  then show ?thesis by (simp add: rec_same)
qed

lemma newproc_simps:
  "p_rnext (newproc e p s) = p_rnext s" "p_state (newproc e p s) = (p_state s)(p := Scheding)" "p_mach (newproc e p s) = (p_mach s)(p := None)"
  by (simp_all add: newproc_def procpriority_def Let_def)

lemma create_inv:
  assumes i: "rinv_at x qs" and g: "p_state (r_ps x) p = Dead" "p_mach (r_ps x) p = None"
  shows "rinv_at (x\<lparr>r_ps := newproc e p (r_ps x), r_new := p # r_new x\<rparr>) qs"
proof -
  note D = rinv_atD [OF i]
  let ?s = "newproc e p (r_ps x)"
  note s = newproc_simps [of e p "r_ps x"]
  have nt: "r_phase x k \<noteq> Took p" for k using D(5) [of k p] g(1) by auto
  have m: "p_mach ?s = p_mach (r_ps x)" using g(2) s(3) by auto
  have "rinv_at (x\<lparr>r_ps := ?s, r_phase := r_phase x, r_new := p # r_new x\<rparr>) qs"
  proof (rule rinv_frame [OF i s(1)])
    show "pri_ok ?s" unfolding newproc_def by (rule procpriority_ok) (use D(2) in \<open>simp add: pri_ok_def\<close>)
    show "k = k'" if "r_phase x k = Took q" "r_phase x k' = Took q" for k k' q using that D(6) by blast
    show "p_state ?s q = Scheding \<and> p_mach ?s q = None \<and> q \<notin> set (p # r_new x)" if "r_phase x k = Took q" for k q
      using D(5) [OF that] that nt unfolding m s by auto
    show "p_state ?s q = Scheding \<and> p_mach ?s q = None" if "q \<in> set (p # r_new x)" for q
      using that D(7) [of q] g unfolding m s by auto
    show "p_mach ?s q \<noteq> None" if "p_state ?s q = Running \<or> p_state ?s q = Moribund" for q
      using that D(8) [of q] unfolding m s by (auto split: if_splits)
    show "p_state ?s q \<noteq> Scheding" if "p_mach ?s q \<noteq> None" for q
      using that D(9) [of q] g unfolding m s by auto
    show "p_state ?s q \<noteq> Running \<and> p_state ?s q \<noteq> Moribund" if "r_phase x k = Gone q" for k q
      using D(10) [OF that] unfolding s by auto
  qed (use g D(4) m s in simp_all)
  then show ?thesis by (simp add: rec_same)
qed

lemma ps_inv:
  assumes i: "rinv_at x qs" and s: "p_rnext s' = p_rnext (r_ps x)" "p_state s' = p_state (r_ps x)" "p_mach s' = p_mach (r_ps x)" "pri_ok s'"
  shows "rinv_at (x\<lparr>r_ps := s'\<rparr>) qs"
proof -
  note D = rinv_atD [OF i]
  have "rq_ok (r_sch x, s') qs" using D(1) s(1) by (subst rq_ok_cong [of qs _ "r_ps x"]) simp_all
  then show ?thesis using D s unfolding rinv_at_def Let_def by auto
qed

lemma lift_inv:
  assumes i: "rinv_at x qs" and g: "r_moving x = None" "pri < Npriq"
  shows "\<exists>y qs'. rdo e (Lift up busy pri p) x = Some y \<and> rinv_at y qs'"
proof -
  note D = rinv_atD [OF i]
  let ?s = "updatecpu e up p (r_ps x)"
  have o: "pri_ok ?s" using D(2) by (simp add: pri_ok_def)
  obtain r where r: "reprioritize e p ?s = Some r" "0 \<le> r" "r < int Npriq" using reprioritize_lt [OF o] by blast
  have i2: "rinv_at (x\<lparr>r_ps := ?s\<rparr>) qs" by (rule ps_inv [OF i]) (use o in simp_all)
  note D2 = rinv_atD [OF i2]
  have lt: "pri < Nrq" using g(2) by (simp add: Nrq_def)
  show ?thesis
  proof (cases "p_mp (r_ps x) p \<noteq> Some 0 \<or> of_nat pri = p_basepri (r_ps x) p \<or> r = int pri")
    case True
    then have "rdo e (Lift up busy pri p) x = Some x \<or> rdo e (Lift up busy pri p) x = Some (x\<lparr>r_ps := ?s\<rparr>)"
      using r by (auto simp: Let_def)
    then show ?thesis using i i2 by auto
  next
    case go: False
    show ?thesis
    proof (cases "\<not> busy \<and> p \<in> set (qs ! pri) \<and> p_mach ?s p = None")
      case False
      then have "dequeueproc busy pri p (r_sch x, ?s) = Some (None, r_sch x, ?s)"
        using dequeueproc_not [of "r_sch x" ?s qs pri p busy] D2(1) lt dequeueproc_busy by (cases busy) auto
      then have "rdo e (Lift up busy pri p) x = Some (x\<lparr>r_ps := ?s\<rparr>)" using go r g(1) by (simp add: Let_def)
      then show ?thesis using i2 by blast
    next
      case True
      obtain sch' nx where d: "dequeueproc False pri p (r_sch x, ?s) = Some (Some p, sch', ?s\<lparr>p_rnext := nx\<rparr>)"
        "rq_ok (sch', ?s\<lparr>p_rnext := nx\<rparr>) (qs[pri := remove1 p (qs ! pri)])"
        using dequeueproc_ok [of "r_sch x" ?s qs pri p] D2(1) lt True by auto
      let ?y = "x\<lparr>r_sch := sch', r_ps := ?s\<lparr>p_rnext := nx\<rparr>, r_moving := Some (p, nat r)\<rparr>" and ?qs = "qs[pri := remove1 p (qs ! pri)]"
      have inq: "p \<in> in_queues qs" using True in_queues_iff [OF rq_okD(1) [OF D(1)]] lt by auto
      have q': "q \<in> in_queues ?qs \<longleftrightarrow> q \<in> in_queues qs \<and> q \<noteq> p" for q using in_queues_remove [OF D(1) lt] True by simp
      have nm: "\<not> moves x q" for q using g(1) by (simp add: moves_def)
      have "rdo e (Lift up busy pri p) x = Some ?y" using go r d(1) True by (simp add: Let_def)
      moreover have "rinv_at ?y ?qs"
      proof (rule rinv_atI)
        show "q \<in> in_queues ?qs \<longleftrightarrow> p_state (r_ps ?y) q = Ready \<and> \<not> moves ?y q" for q using q' [of q] D(3) [of q] nm by auto
        show "p_state (r_ps ?y) q = Ready \<and> n < Nrq" if "r_moving ?y = Some (q, n)" for q n
          using that D(3) [of p] inq r by (auto simp: Nrq_def)
        show "k = k'" if "r_phase ?y k = Took q" "r_phase ?y k' = Took q" for k k' q using that D(6) by simp
      qed (use d(2) o D(4,5,7-10) in \<open>simp_all add: pri_ok_def\<close>)
      ultimately show ?thesis by blast
    qed
  qed
qed

lemma drop_inv:
  assumes i: "rinv_at x qs" and g: "r_moving x \<noteq> None"
  shows "\<exists>y qs'. rdo e Drop x = Some y \<and> rinv_at y qs'"
proof -
  note D = rinv_atD [OF i]
  obtain p n where m: "r_moving x = Some (p, n)" using g by auto
  note pn = D(11) [OF m]
  have mv: "moves x q \<longleftrightarrow> q = p" for q using m by (auto simp: moves_def)
  have "p \<notin> in_queues qs" using D(3) mv by simp
  then obtain sch' nx where q: "queueproc n p (r_sch x, r_ps x) = Some (sch', (r_ps x)\<lparr>p_priority := (p_priority (r_ps x))(p := of_nat n), p_rnext := nx\<rparr>)"
    "rq_ok (sch', (r_ps x)\<lparr>p_priority := (p_priority (r_ps x))(p := of_nat n), p_rnext := nx\<rparr>) (qs[n := qs ! n @ [p]])"
    using queueproc_ok [OF D(1) conjunct2 [OF pn]] by blast
  let ?y = "x\<lparr>r_sch := sch', r_ps := (r_ps x)\<lparr>p_priority := (p_priority (r_ps x))(p := of_nat n), p_rnext := nx\<rparr>, r_moving := None\<rparr>"
  have s: "in_queues (qs[n := qs ! n @ [p]]) = insert p (in_queues qs)" using in_queues_snoc [OF rq_okD(1) [OF D(1)]] pn by simp
  have "rinv_at ?y (qs[n := qs ! n @ [p]])"
  proof (rule rinv_atI)
    show "q \<in> in_queues (qs[n := qs ! n @ [p]]) \<longleftrightarrow> p_state (r_ps ?y) q = Ready \<and> \<not> moves ?y q" for q
      using D(3) [of q] mv pn unfolding s by auto
    show "k = k'" if "r_phase ?y k = Took q" "r_phase ?y k' = Took q" for k k' q using that D(6) by simp
  qed (use q(2) D(2,4,5,7-10) in \<open>simp_all add: pri_ok_def\<close>)
  then show ?thesis using m q(1) by auto
qed

lemma rdo_inv:
  assumes i: "rinv_at x qs" and g: "rguard True a x" and w: "wire_ok a x"
  shows "\<exists>y qs'. rdo e a x = Some y \<and> rinv_at y qs'"
proof (cases a)
  case (Take m busy pri p)
  then show ?thesis using take_inv [OF i] g by simp
next
  case (Run m)
  then obtain p where "r_phase x m = Took p" using g by (auto split: phase.splits)
  then show ?thesis using run_inv [OF i, of m p e] w Run by (auto simp: wire_ok_def)
next
  case (Block m st)
  then obtain p where "r_phase x m = Runs p" "p_state (r_ps x) p = Running" "asleep st" using g by (auto split: phase.splits)
  then show ?thesis using Block set_pstate_inv [OF i, of m p st] by (auto simp: asleep_def)
next
  case (Exit m)
  then obtain p where "r_phase x m = Runs p" "p_state (r_ps x) p = Running" using g by (auto split: phase.splits)
  then show ?thesis using Exit set_pstate_inv [OF i, of m p Moribund] by auto
next
  case (Leave m)
  then obtain p where "r_phase x m = Runs p" using g by (auto split: phase.splits)
  then show ?thesis using Leave leave_inv [OF i] by auto
next
  case (Out1 m)
  then obtain p where p: "r_phase x m = Leaves p" using g by (auto split: phase.splits)
  note H = held_not_taken [OF i disjI2 [OF disjI1 [OF p]]]
  have "\<exists>y qs'. (if p_state (r_ps x) p = Running then make_ready e (Some p) p x
      else if p_state (r_ps x) p = Moribund then Some (set_pstate p Dead x) else Some x) = Some y \<and> rinv_at y qs' \<and>
      r_phase y = r_phase x \<and> p_state (r_ps y) p \<notin> {Running, Moribund}"
  proof (cases "p_state (r_ps x) p = Running")
    case True
    then obtain y qs' where "make_ready e (Some p) p x = Some y" "rinv_at y qs'" "r_phase y = r_phase x" "p_state (r_ps y) p = Ready"
      using make_ready_inv [OF i, of p e "Some p"] H(2) by auto
    then show ?thesis using True by auto
  next
    case False
    then show ?thesis using i p set_pstate_inv [OF i, of m p Dead] by (auto simp: set_pstate_def)
  qed
  then obtain y qs' where y: "(if p_state (r_ps x) p = Running then make_ready e (Some p) p x
      else if p_state (r_ps x) p = Moribund then Some (set_pstate p Dead x) else Some x) = Some y" "rinv_at y qs'"
      "r_phase y = r_phase x" "p_state (r_ps y) p \<notin> {Running, Moribund}" by blast
  have "rinv_at (y\<lparr>r_phase := (r_phase y)(m := Gone p)\<rparr>) qs'" by (rule left_inv [OF y(2)]) (use y(3,4) p in auto)
  then show ?thesis using Out1 p y(1) by auto
next
  case (Out2 m)
  then obtain p where p: "r_phase x m = Gone p" using g by (auto split: phase.splits)
  then show ?thesis using Out2 out2_inv [OF i p] by auto
next
  case (Wake up p)
  then have "p_state (r_ps x) p \<noteq> Ready" "p_state (r_ps x) p \<noteq> Scheding" using g by (auto simp: asleep_def)
  then show ?thesis using Wake make_ready_inv [OF i, of p e up] rinv_atD(5) [OF i] by fastforce
next
  case (Create p)
  then show ?thesis using create_inv [OF i] g by auto
next
  case (Start up p)
  then have n: "p \<in> set (r_new x)" using g by simp
  have "r_phase x m \<noteq> Took p" for m using n rinv_atD(5) [OF i, of m p] by auto
  moreover have "p_state (r_ps x) p \<noteq> Ready" using rinv_atD(7) [OF i n] by simp
  ultimately show ?thesis using Start make_ready_inv [OF i, of p e up] by auto
next
  case (Wire p bm)
  then show ?thesis using ps_inv [OF i, of "procwired (e_nmach e) p bm (r_ps x)"] rinv_atD(2) [OF i] by (auto simp: procwired_def Let_def pri_ok_def)
next
  case (Priority p pri fixed)
  have "p_rnext (procpriority p pri fixed s) = p_rnext s" "p_state (procpriority p pri fixed s) = p_state s" "p_mach (procpriority p pri fixed s) = p_mach s" for s
    by (simp_all add: procpriority_def Let_def)
  then have "rinv_at (x\<lparr>r_ps := procpriority p pri fixed (r_ps x)\<rparr>) qs"
    using ps_inv [OF i _ _ _ procpriority_ok [OF rinv_atD(2) [OF i]]] by blast
  then show ?thesis using Priority by auto
next
  case (Lift up busy pri p)
  then show ?thesis using lift_inv [OF i] g by simp
next
  case Drop
  then show ?thesis using drop_inv [OF i] g by simp
qed

lemma not_wire_ok: "\<not> wire_ok a x \<Longrightarrow> rdo e a x = None"
  by (auto simp: wire_ok_def sched_in_def Let_def split: ract.splits phase.splits Option.bind_splits)

lemma rreach_inv: "rreach True x \<Longrightarrow> \<exists>qs. rinv_at x qs"
proof (induction rule: rreach.induct)
  case rinit
  then show ?case using rinv_init by blast
next
  case (rstep x a e y)
  then obtain qs where i: "rinv_at x qs" by blast
  have "wire_ok a x" using rstep.hyps(3) not_wire_ok [of a x e] by auto
  then show ?case using rdo_inv [OF i rstep.hyps(2), of e] rstep.hyps(3) by auto
qed

subsection \<open>The scheduler\<close>

definition holds :: "rsys \<Rightarrow> mach \<Rightarrow> proc \<Rightarrow> bool" where
  "holds x m p \<longleftrightarrow> r_phase x m \<in> {Took p, Runs p, Leaves p, Gone p}"

lemma held_once: "rinv_at x qs \<Longrightarrow> holds x m p \<Longrightarrow> holds x m' p \<Longrightarrow> m = m'"
proof -
  assume i: "rinv_at x qs" and h: "holds x m p" "holds x m' p"
  note D = rinv_atD [OF i]
  show "m = m'"
  proof (cases "r_phase x m = Took p")
    case True
    then have "r_phase x m' = Took p" using h(2) D(4) [of p m'] D(5) [OF True] by (auto simp: holds_def)
    then show ?thesis using D(6) [OF True] by simp
  next
    case False
    then have m: "p_mach (r_ps x) p = Some m" using h(1) D(4) by (auto simp: holds_def)
    then have "r_phase x m' \<noteq> Took p" using D(5) [of m' p] by auto
    then have "p_mach (r_ps x) p = Some m'" using h(2) D(4) by (auto simp: holds_def)
    then show ?thesis using m by simp
  qed
qed

text \<open>Running a list of actions.\<close>

fun rrun :: "bool \<Rightarrow> env \<Rightarrow> ract list \<Rightarrow> rsys \<Rightarrow> rsys option" where
  "rrun strict e [] x = Some x"
| "rrun strict e (a # as) x = (if rguard strict a x then (case rdo e a x of None \<Rightarrow> None | Some y \<Rightarrow> rrun strict e as y) else None)"

lemma rrun_reach: "rrun strict e as x = Some y \<Longrightarrow> rreach strict x \<Longrightarrow> rreach strict y"
proof (induction as arbitrary: x)
  case (Cons a as)
  then show ?case by (auto split: if_splits option.splits intro: rreach.rstep)
qed simp

lemma rrun_ex:
  assumes "case rrun strict e as rsys0 of None \<Rightarrow> False | Some x \<Rightarrow> P x"
  shows "\<exists>x. rreach strict x \<and> P x"
  using assms by (cases "rrun strict e as rsys0") (auto intro: rrun_reach [OF _ rreach.rinit])

text \<open>
  C26. The run queues under the interleavings of all machines in which no process structure is made anew before the machine
  that ran the exited process has let go of it (the order of events that C24 shows the code to allow, and that breaks
  all of this). In every state reached, every ready process is in exactly one of the queues, once, except the one that \<open>rebalance\<close> is moving,
  and nothing else is; the links, heads, tails, counters and the bits of \<open>runvec\<close> agree with the queues, so that \<open>anyready\<close> answers
  rightly; no process is in the hands of two machines, from the moment one has taken it until it has let go of it, though
  it may be put back on a queue before; and a step fails, by a panic or a queue without end, just when a
  machine comes to run a process that was wired to another after it was taken (the other order of events of C24).\<close>

theorem runq_machines:
  assumes "rreach True x"
  shows "(\<exists>qs. rq_ok (r_sch x, r_ps x) qs \<and> (\<forall>p. p \<in> in_queues qs \<longleftrightarrow> p_state (r_ps x) p = Ready \<and> \<not> moves x p)) \<and>
    (anyready (r_sch x) \<longleftrightarrow> (\<exists>p. p_state (r_ps x) p = Ready \<and> \<not> moves x p)) \<and>
    (\<forall>p m m'. holds x m p \<and> holds x m' p \<longrightarrow> m = m') \<and>
    (\<forall>e a. rguard True a x \<longrightarrow> (rdo e a x = None \<longleftrightarrow> \<not> wire_ok a x))"
proof -
  obtain qs where i: "rinv_at x qs" using rreach_inv [OF assms] by blast
  note D = rinv_atD [OF i]
  have a: "anyready (r_sch x) \<longleftrightarrow> (\<exists>p. p_state (r_ps x) p = Ready \<and> \<not> moves x p)"
    using anyready_iff [OF D(1)] D(3) by auto
  have "rdo e a x = None \<longleftrightarrow> \<not> wire_ok a x" if "rguard True a x" for e a
    using rdo_inv [OF i that, of e] not_wire_ok [of a x e] by (cases "wire_ok a x") auto
  then show ?thesis using a D(1,3) held_once [OF i] by (intro conjI) (blast, blast, blast, blast)
qed

definition env0 :: env where
  "env0 = \<lparr>e_ticks = 0, e_nmach = 4, e_load = 0\<rparr>"

definition run_two :: "ract list" where
  "run_two = [Create 1, Start None 1, Create 2, Start None 2, Take 1 False 10 1, Run 1, Take 2 False 10 2, Run 2, Leave 2, Out1 2]"

theorem runq_machines_witness:
  "\<exists>x. rreach True x \<and> r_phase x 1 = Runs 1 \<and> r_phase x 2 = Gone 2 \<and> anyready (r_sch x) \<and> (\<forall>m. holds x m 2 \<longrightarrow> m = 2)"
proof -
  have "case rrun True env0 run_two rsys0 of None \<Rightarrow> False | Some x \<Rightarrow> r_phase x 1 = Runs 1 \<and> r_phase x 2 = Gone 2 \<and> p_state (r_ps x) 2 = Ready \<and> \<not> moves x 2"
    by code_simp
  from rrun_ex [OF this] obtain x where x: "rreach True x" "r_phase x 1 = Runs 1" "r_phase x 2 = Gone 2" "p_state (r_ps x) 2 = Ready \<and> \<not> moves x 2" by blast
  have "holds x 2 2" using x(3) by (simp add: holds_def)
  then have "\<forall>m. holds x m 2 \<longrightarrow> m = 2" using runq_machines [OF x(1)] by blast
  moreover have "anyready (r_sch x)" using runq_machines [OF x(1)] x(4) by blast
  ultimately show ?thesis using x by blast
qed

text \<open>
  C24. Two orders of events the code does not exclude. \<open>schedinit\<close> gives a process that exits back to the allocator before it
  clears \<open>up->mach\<close>: if the structure is made a new process, and run by another machine before the first goes on, the
  first clears \<open>mach\<close> of a running process, and the next machine takes it off the queue while the last is still on its
  stack. And a process that another one wires, through its control file, between the moment a machine took it and the moment
  it runs, fails the assertion in \<open>sched\<close>.\<close>

theorem sched_races:
  "(\<exists>x. rreach False x \<and> r_phase x 1 = Runs 5 \<and> r_phase x 3 = Gone 5) \<and>
   (\<exists>x e. rreach True x \<and> rguard True (Run 2) x \<and> rdo e (Run 2) x = None)"
proof
  have "case rrun False env0 [Create 5, Start None 5, Take 1 False 10 5, Run 1, Exit 1, Leave 1, Out1 1,
      Create 5, Start (Some 7) 5, Take 3 False 10 5, Run 3, Out2 1, Leave 3, Out1 3, Take 1 False 10 5, Run 1] rsys0 of None \<Rightarrow> False
    | Some x \<Rightarrow> r_phase x 1 = Runs 5 \<and> r_phase x 3 = Gone 5" by code_simp
  then show "\<exists>x. rreach False x \<and> r_phase x 1 = Runs 5 \<and> r_phase x 3 = Gone 5" by (rule rrun_ex)
  have "case rrun True env0 [Create 5, Start None 5, Take 2 False 10 5, Wire 5 1] rsys0 of None \<Rightarrow> False
    | Some x \<Rightarrow> rguard True (Run 2) x \<and> (case rdo env0 (Run 2) x of None \<Rightarrow> True | Some y \<Rightarrow> False)" by code_simp
  from rrun_ex [OF this] show "\<exists>x e. rreach True x \<and> rguard True (Run 2) x \<and> rdo e (Run 2) x = None" by (auto split: option.splits)
qed

lemma smp_round_spec:
  assumes z: "rq_ok (sch, s) qs"
  shows "(\<forall>p \<in> in_queues qs. \<not> eligible i m s p) \<and> smp_round i busy m (sch, s) = Some (None, sch, s) \<or>
    (\<exists>pri p. pri < Nrq \<and> find (eligible i m s) (qs ! pri) = Some p \<and> eligible i m s p \<and> p \<in> set (qs ! pri) \<and>
      (\<forall>j q. pri < j \<and> j < Nrq \<and> q \<in> set (qs ! j) \<longrightarrow> \<not> eligible i m s q) \<and>
      (if busy \<or> p_mach s p \<noteq> None then smp_round i busy m (sch, s) = Some (None, sch, s)
       else \<exists>sch' s'. smp_round i busy m (sch, s) = Some (Some p, sch', s') \<and> rq_ok (sch', s') (qs[pri := remove1 p (qs ! pri)]) \<and>
         p_state s' = (p_state s)(p := Scheding) \<and> p_mp s' = (p_mp s)(p := Some m)))"
proof -
  note D = rq_okD [OF z, unfolded fst_conv snd_conv]
  let ?P = "eligible i m s"
  note S = scan_runq_spec [OF z order_refl, of ?P]
  show ?thesis
  proof (cases "find (\<lambda>i. find ?P (qs ! i) \<noteq> None) (rev [0 ..< Nrq])")
    case None
    then have "\<not> ?P p" if "p \<in> in_queues qs" for p
      using that in_queues_iff [OF D(1)] by (auto simp: find_None_iff)
    moreover have "smp_round i busy m (sch, s) = Some (None, sch, s)" using S None by (simp add: smp_round_def)
    ultimately show ?thesis by blast
  next
    case (Some pri)
    then obtain k where "k < length (rev [0 ..< Nrq])" "find ?P (qs ! (rev [0 ..< Nrq] ! k)) \<noteq> None" "pri = rev [0 ..< Nrq] ! k"
      "\<forall>l < k. \<not> find ?P (qs ! (rev [0 ..< Nrq] ! l)) \<noteq> None"
      using find_Some_iff [THEN iffD1, OF Some] by blast
    then have k: "k < Nrq" "rev [0 ..< Nrq] ! k = pri" "find ?P (qs ! pri) \<noteq> None"
      "\<And>l. l < k \<Longrightarrow> find ?P (qs ! (rev [0 ..< Nrq] ! l)) = None" by simp_all
    have pk: "pri = Nrq - 1 - k" "pri < Nrq" using k(1,2) by (auto simp: rev_nth)
    obtain p where p: "find ?P (qs ! pri) = Some p" using k(3) by auto
    then have pe: "?P p" "p \<in> set (qs ! pri)" by (auto simp: find_Some_iff)
    have hi: "\<not> ?P q" if "pri < j" "j < Nrq" "q \<in> set (qs ! j)" for j q
    proof -
      have "Nrq - 1 - j < k" "rev [0 ..< Nrq] ! (Nrq - 1 - j) = j" using that pk k(1) by (auto simp: rev_nth)
      then have "find ?P (qs ! j) = None" using k(4) [of "Nrq - 1 - j"] by simp
      then show ?thesis using that(3) by (auto simp: find_None_iff)
    qed
    have sc: "scan_runq ?P Nrq (sch, s) = Some (Some (pri, p))" using S Some p by simp
    show ?thesis
    proof (cases "busy \<or> p_mach s p \<noteq> None")
      case True
      then have "dequeueproc busy pri p (sch, s) = Some (None, sch, s)"
        using dequeueproc_not [OF z pk(2), of p busy] dequeueproc_busy by (cases busy) auto
      then have "smp_round i busy m (sch, s) = Some (None, sch, s)" using sc by (simp add: smp_round_def)
      then show ?thesis using True p pe hi pk(2) by (intro disjI2 exI [of _ pri] exI [of _ p]) auto
    next
      case False
      then obtain sch' nx where d: "dequeueproc busy pri p (sch, s) = Some (Some p, sch', s\<lparr>p_rnext := nx\<rparr>)"
        "rq_ok (sch', s\<lparr>p_rnext := nx\<rparr>) (qs[pri := remove1 p (qs ! pri)])"
        using dequeueproc_ok [OF z pk(2) pe(2)] by auto
      let ?s = "s\<lparr>p_rnext := nx, p_state := (p_state s)(p := Scheding), p_mp := (p_mp s)(p := Some m)\<rparr>"
      have "smp_round i busy m (sch, s) = Some (Some p, sch', ?s)" using sc d(1) by (simp add: smp_round_def)
      moreover have "rq_ok (sch', ?s) (qs[pri := remove1 p (qs ! pri)])"
        using d(2) by (subst rq_ok_cong [of _ _ "s\<lparr>p_rnext := nx\<rparr>"]) simp_all
      ultimately show ?thesis using False p pe hi pk(2)
        by (intro disjI2 exI [of _ pri] exI [of _ p]) auto
    qed
  qed
qed

text \<open>
  C14. One round of \<open>smprunproc\<close> on machine \<open>m\<close> ends. If no queued process is eligible it takes nobody. Else it picks, of the
  highest priority with an eligible process, the one that waited longest, and takes it off its queue, unless another
  machine has the lock or the process is still on the stack of a machine; then nothing changes. From the second round
  on, whoever is not wired is eligible, so that no machine stays idle for affinity.\<close>

theorem smp_round_best:
  assumes z: "rq_ok (sch, s) qs"
  shows "((\<forall>p \<in> in_queues qs. \<not> eligible i m s p) \<and> smp_round i busy m (sch, s) = Some (None, sch, s) \<or>
    (\<exists>pri p. pri < Nrq \<and> find (eligible i m s) (qs ! pri) = Some p \<and> eligible i m s p \<and> p \<in> set (qs ! pri) \<and>
      (\<forall>j q. pri < j \<and> j < Nrq \<and> q \<in> set (qs ! j) \<longrightarrow> \<not> eligible i m s q) \<and>
      (if busy \<or> p_mach s p \<noteq> None then smp_round i busy m (sch, s) = Some (None, sch, s)
       else \<exists>sch' s'. smp_round i busy m (sch, s) = Some (Some p, sch', s') \<and> rq_ok (sch', s') (qs[pri := remove1 p (qs ! pri)]) \<and>
         p_state s' = (p_state s)(p := Scheding) \<and> p_mp s' = (p_mp s)(p := Some m)))) \<and>
    (0 < i \<and> p_wired s p = None \<longrightarrow> eligible i m s p)"
  using smp_round_spec [OF z, of i m busy] by (simp add: eligible_def)

lemma rq0_ok: "rq_ok (r_sch rsys0, r_ps rsys0) (replicate Nrq [])"
  using rinv_atD(1) [OF rinv_init] .

theorem smp_round_best_witness:
  "\<exists>sch s qs sch' s'. rq_ok (sch, s) qs \<and> qs ! 10 = [1, 2] \<and> smp_round 1 False 3 (sch, s) = Some (Some 1, sch', s') \<and>
     rq_ok (sch', s') (qs[10 := [2]])"
proof -
  let ?s = "(r_ps rsys0)\<lparr>p_mp := (\<lambda>_. Some 0)\<rparr>"
  have z0: "rq_ok (r_sch rsys0, ?s) (replicate Nrq [])" using rq0_ok by (subst rq_ok_cong [of _ _ "r_ps rsys0"]) simp_all
  have e: "in_queues (replicate Nrq []) = {}" by (auto simp: in_queues_def)
  have l: "10 < Nrq" by (simp add: Nrq_def Npriq_def)
  obtain sch1 nx1 where q1: "rq_ok (sch1, ?s\<lparr>p_priority := (p_priority ?s)(1 := of_nat 10), p_rnext := nx1\<rparr>) ((replicate Nrq [])[10 := [1]])"
    using queueproc_ok [OF z0 l, of 1] e l by auto
  let ?s1 = "?s\<lparr>p_priority := (p_priority ?s)(1 := of_nat 10), p_rnext := nx1\<rparr>" and ?q1 = "(replicate Nrq [])[10 := [1]]"
  have e1: "(2 :: nat) \<notin> in_queues ?q1" using in_queues_iff [of ?q1 2] l by (auto simp: nth_list_update split: if_splits)
  obtain sch2 nx2 where q2: "rq_ok (sch2, ?s1\<lparr>p_priority := (p_priority ?s1)(2 := of_nat 10), p_rnext := nx2\<rparr>) (?q1[10 := [1, 2]])"
    using queueproc_ok [OF q1 l e1] l by auto
  let ?s2 = "?s1\<lparr>p_priority := (p_priority ?s1)(2 := of_nat 10), p_rnext := nx2\<rparr>" and ?q2 = "?q1[10 := [1, 2]]"
  have el: "eligible 1 3 ?s2 p" for p by (simp add: eligible_def rsys0_def rprocs0_def)
  have mc: "p_mach ?s2 p = None" for p by (simp add: rsys0_def rprocs0_def)
  have only: "pri = 10" if "find (eligible 1 3 ?s2) (?q2 ! pri) = Some p" "pri < Nrq" for pri p
    by (rule ccontr) (use that in simp)
  have inq: "1 \<in> in_queues ?q2" using in_queues_iff [of ?q2 1] l by auto
  then obtain p sch' s' where r: "find (eligible 1 3 ?s2) (?q2 ! 10) = Some p" "smp_round 1 False 3 (sch2, ?s2) = Some (Some p, sch', s')"
    "rq_ok (sch', s') (?q2[10 := remove1 p (?q2 ! 10)])"
  proof -
    from smp_round_best [OF q2, of 1 3 False, THEN conjunct1] obtain pri p where a: "pri < Nrq" "find (eligible 1 3 ?s2) (?q2 ! pri) = Some p"
      "\<exists>sch' s'. smp_round 1 False 3 (sch2, ?s2) = Some (Some p, sch', s') \<and> rq_ok (sch', s') (?q2[pri := remove1 p (?q2 ! pri)])"
      using inq el mc by (elim disjE exE conjE) (blast, metis (no_types, lifting))
    then show thesis using only [OF a(2,1)] that by blast
  qed
  have "p = 1" using r(1) el l by simp
  then show ?thesis using q2 r l by (intro exI [of _ sch2] exI [of _ ?s2] exI [of _ ?q2] exI [of _ sch'] exI [of _ s']) simp
qed

text \<open>
  C34. The average \<open>cpu\<close> stays between 0 and 1000, does not fall while the process runs and does not rise while it does not, and
  the priority \<open>reprioritize\<close> computes is between 0 and the base priority, for any load and number of machines,
  so that it never panics, if the time since the last update is less than \<open>2^30\<close> ticks. A process that slept for
  \<open>2^30\<close> ticks, 124 days, leaves the bounds.\<close>

theorem priorities_bounded:
  assumes "uint (p_cpu s p) \<le> 1000" "0 \<le> sint (2 * e_ticks e + 1 - p_lastupdate s p)" "uint (p_basepri s p) < 2 ^ 31"
  shows "uint (p_cpu (updatecpu e up p s) p) \<le> 1000 \<and>
    (if up = Some p then uint (p_cpu s p) \<le> uint (p_cpu (updatecpu e up p s) p) else uint (p_cpu (updatecpu e up p s) p) \<le> uint (p_cpu s p)) \<and>
    (\<exists>r. reprioritize e p (updatecpu e up p s) = Some r \<and> 0 \<le> r \<and> r \<le> uint (p_basepri s p)) \<and>
    p_cpu (updatecpu \<lparr>e_ticks = 2 ^ 30, e_nmach = 4, e_load = 0\<rparr> None 1 (rprocs0\<lparr>p_cpu := \<lambda>_. 1\<rparr>)) 1 > 1000"
proof -
  have "p_cpu (updatecpu \<lparr>e_ticks = 2 ^ 30, e_nmach = 4, e_load = 0\<rparr> None 1 (rprocs0\<lparr>p_cpu := \<lambda>_. 1\<rparr>)) 1 > 1000" by code_simp
  moreover have "\<exists>r. reprioritize e p (updatecpu e up p s) = Some r \<and> 0 \<le> r \<and> r \<le> uint (p_basepri s p)"
    using reprioritize_bounds [of "updatecpu e up p s" p e] assms(3) by simp
  ultimately show ?thesis using updatecpu_bounds [OF assms(1,2), of up] by blast
qed

theorem priorities_bounded_witness:
  "\<exists>r. reprioritize \<lparr>e_ticks = 100, e_nmach = 4, e_load = 3000\<rparr> 1
        (updatecpu \<lparr>e_ticks = 100, e_nmach = 4, e_load = 3000\<rparr> (Some 1) 1 (rprocs0\<lparr>p_basepri := \<lambda>_. 10\<rparr>)) = Some r \<and> 0 \<le> r \<and> r \<le> 10"
proof -
  have "0 \<le> sint (2 * e_ticks \<lparr>e_ticks = 100, e_nmach = 4, e_load = 3000\<rparr> + 1 - p_lastupdate (rprocs0\<lparr>p_basepri := \<lambda>_. 10\<rparr>) 1)" by code_simp
  from priorities_bounded [OF _ this, of "Some 1"] show ?thesis by (simp add: rprocs0_def)
qed

text \<open>Rebalancing ends when no queued process is still on the stack of a machine, and only moves processes.\<close>

lemma rebalance_queue_ends:
  assumes "rq_ok z qs" "pri_ok (snd z)" "pri < Npriq" "\<And>p. p \<in> in_queues qs \<Longrightarrow> p_mach (snd z) p = None"
  shows "\<exists>z' qs'. rebalance_queue e m up pri z = Some z' \<and> rq_ok z' qs' \<and> in_queues qs' = in_queues qs \<and> pri_ok (snd z') \<and>
    p_mach (snd z') = p_mach (snd z) \<and> p_state (snd z') = p_state (snd z)"
  using assms
proof (induction "length (qs ! pri)" arbitrary: z qs rule: less_induct)
  case less
  obtain sch s where z: "z = (sch, s)" by (cases z)
  note D = rq_okD [OF less.prems(1), unfolded z fst_conv snd_conv]
  have lt: "pri < Nrq" using less.prems(3) by (simp add: Nrq_def)
  show ?case
  proof (cases "qs ! pri")
    case Nil
    then have "rebalance_queue e m up pri z = Some z" using D(4) [OF lt] z by (subst rebalance_queue.simps) simp
    then show ?thesis using less.prems by auto
  next
    case (Cons p ps)
    then have hd: "sq_head (runq sch ! pri) = Some p" using D(4) [OF lt] by simp
    let ?s = "updatecpu e up p s"
    have o: "pri_ok ?s" using less.prems(2) z by (simp add: pri_ok_def)
    obtain r where r: "reprioritize e p ?s = Some r" "0 \<le> r" "r < int Npriq" using reprioritize_lt [OF o] by blast
    have z1: "rq_ok (sch, ?s) qs" using less.prems(1) z by (subst rq_ok_cong [of qs _ s]) simp_all
    show ?thesis
    proof (cases "p_mp s p \<noteq> Some m \<or> of_nat pri = p_basepri s p \<or> r = int pri")
      case True
      then have "rebalance_queue e m up pri z = Some z \<or> rebalance_queue e m up pri z = Some (sch, ?s)"
        using hd r z by (subst (1 2) rebalance_queue.simps) (auto simp: Let_def)
      then show ?thesis using less.prems z1 o z by auto
    next
      case False
      have inp: "p \<in> set (qs ! pri)" "p \<in> in_queues qs" using Cons in_queues_iff [OF D(1)] lt by auto
      have "p_mach ?s p = None" using less.prems(4) [OF inp(2)] z by simp
      then obtain sch1 nx1 where d: "dequeueproc False pri p (sch, ?s) = Some (Some p, sch1, ?s\<lparr>p_rnext := nx1\<rparr>)"
        "rq_ok (sch1, ?s\<lparr>p_rnext := nx1\<rparr>) (qs[pri := remove1 p (qs ! pri)])"
        using dequeueproc_ok [OF z1 lt inp(1)] by blast
      let ?s1 = "?s\<lparr>p_rnext := nx1\<rparr>" and ?q1 = "qs[pri := remove1 p (qs ! pri)]"
      have q1: "q \<in> in_queues ?q1 \<longleftrightarrow> q \<in> in_queues qs \<and> q \<noteq> p" for q using in_queues_remove [OF z1 lt inp(1)] .
      have rl: "nat r < Nrq" "nat r \<noteq> pri" using r False by (auto simp: Nrq_def)
      obtain sch2 nx2 where q: "queueproc (nat r) p (sch1, ?s1) = Some (sch2, ?s1\<lparr>p_priority := (p_priority ?s1)(p := of_nat (nat r)), p_rnext := nx2\<rparr>)"
        "rq_ok (sch2, ?s1\<lparr>p_priority := (p_priority ?s1)(p := of_nat (nat r)), p_rnext := nx2\<rparr>) (?q1[nat r := ?q1 ! nat r @ [p]])"
        using queueproc_ok [OF d(2) rl(1)] q1 by blast
      let ?s2 = "?s1\<lparr>p_priority := (p_priority ?s1)(p := of_nat (nat r)), p_rnext := nx2\<rparr>" and ?q2 = "?q1[nat r := ?q1 ! nat r @ [p]]"
      have q2: "in_queues ?q2 = in_queues qs"
        using in_queues_snoc [of ?q1 "nat r" p] q1 D(1) rl(1) inp(2) by auto
      have "length (?q2 ! pri) < length (qs ! pri)" using rl(2) Cons lt D(1) by simp
      moreover have "pri_ok (snd (sch2, ?s2))" using o by (simp add: pri_ok_def)
      moreover have "p_mach (snd (sch2, ?s2)) x = None" if "x \<in> in_queues ?q2" for x using less.prems(4) [of x] that z unfolding q2 by simp
      ultimately obtain z' qs' where h: "rebalance_queue e m up pri (sch2, ?s2) = Some z'" "rq_ok z' qs'" "in_queues qs' = in_queues ?q2"
        "pri_ok (snd z')" "p_mach (snd z') = p_mach (snd (sch2, ?s2))" "p_state (snd z') = p_state (snd (sch2, ?s2))"
        using less.hyps [of ?q2 "(sch2, ?s2)"] q(2) less.prems(3) by blast
      have "rebalance_queue e m up pri z = rebalance_queue e m up pri (sch2, ?s2)"
        using hd r d(1) q(1) False z by (subst rebalance_queue.simps) (simp add: Let_def)
      then show ?thesis using h q2 z by auto
    qed
  qed
qed

lemma rebalance_from_ends:
  assumes "rq_ok z qs" "pri_ok (snd z)" "pri + n \<le> Npriq" "\<And>p. p \<in> in_queues qs \<Longrightarrow> p_mach (snd z) p = None"
  shows "\<exists>z' qs'. rebalance_from e m up pri n z = Some z' \<and> rq_ok z' qs' \<and> in_queues qs' = in_queues qs \<and>
    p_mach (snd z') = p_mach (snd z) \<and> p_state (snd z') = p_state (snd z)"
  using assms
proof (induction n arbitrary: z qs pri)
  case (Suc n)
  obtain z' qs' where a: "rebalance_queue e m up pri z = Some z'" "rq_ok z' qs'" "in_queues qs' = in_queues qs" "pri_ok (snd z')"
    "p_mach (snd z') = p_mach (snd z)" "p_state (snd z') = p_state (snd z)"
    using rebalance_queue_ends [OF Suc.prems(1,2) _ Suc.prems(4), of pri e m up] Suc.prems(3) by auto
  obtain y rs where "rebalance_from e m up (pri + 1) n z' = Some y" "rq_ok y rs" "in_queues rs = in_queues qs'"
    "p_mach (snd y) = p_mach (snd z')" "p_state (snd y) = p_state (snd z')"
    using Suc.IH [OF a(2,4), of "pri + 1"] Suc.prems(3,4) a(3,5) by auto
  then show ?case using a by auto
qed auto

theorem rebalance_ends:
  assumes "rq_ok z qs" "pri_ok (snd z)" "\<And>p. p \<in> in_queues qs \<Longrightarrow> p_mach (snd z) p = None"
  shows "\<exists>bt z' qs'. rebalance e m up t balancetime z = Some (bt, z') \<and> rq_ok z' qs' \<and> in_queues qs' = in_queues qs \<and>
    p_state (snd z') = p_state (snd z)"
proof (cases "t - balancetime < 100")
  case True
  then have "rebalance e m up t balancetime z = Some (balancetime, z)" by (simp add: rebalance_def)
  then show ?thesis using assms(1) by auto
next
  case False
  then show ?thesis using rebalance_from_ends [OF assms(1,2) _ assms(3), of 0 Npriq e m up] by (auto simp: rebalance_def)
qed

end
