(* ===== verification/Rendez.thy ===== *)
theory Rendez
  imports Qlocks
begin

text \<open>
  Sleeping and waking (\<open>sleep\<close>, \<open>wakeup\<close> and \<open>postnote\<close> in \<open>port/proc.c\<close>). A process sleeps on a Rendez until a condition holds;
  whoever makes it hold calls \<open>wakeup\<close>; a note ends the sleep too. The two locks, of the Rendez and of the process, are
  taken in one order by \<open>sleep\<close> and \<open>wakeup\<close> and in the other by \<open>postnote\<close>, which only tries the second and starts over.
  Every access to what is shared is a step of its own, and the steps of all threads interleave. A thread is a
  process or an interrupt. The states are those of \<open>Qlocks\<close>. Memory is sequentially consistent, and a Rendez has one sleeper
  at a time, which \<open>sleep\<close> itself demands. The text of notes, and the ends of \<open>semdown\<close> and \<open>rendezvous\<close> by a note, are left out.
\<close>

subsection \<open>The state\<close>

type_synonym thr = nat
type_synonym rend = nat

text \<open>
  Where a thread is: outside; in \<open>sleep\<close>, before the lock of the Rendez, before its own lock, before it stores itself in
  \<open>r->p\<close>, tests the condition, tests \<open>notepending\<close>, commits itself, unlocks its lock, unlocks the Rendez and is gone; asleep; on the
  path that never minds; on the way out. In \<open>wakeup\<close>, before the lock of the Rendez, before it reads \<open>r->p\<close>, before
  the lock of that process, before it wakes it, and before the two unlocks. In \<open>postnote\<close>, before the lock
  of the process, before it reads \<open>p->r\<close>, tries the lock of the Rendez, wakes the process, and unlocks.
\<close>

datatype zpc = Out
  | Sl1 rend | Sl2 rend | Sl3 rend | Sl4 rend | Sl5 rend | Sl6 rend | Sl7 rend | Sl8 rend | Asleep rend | Cn1 rend | Cn2 rend | Ret
  | Wk1 rend | Wk2 rend | Wk3 rend thr | Wk4 rend thr | Wk5 rend thr | Wk6 rend
  | Nt1 thr | Nt2 thr | Nt3 thr rend | Nt4 thr rend | Nt5 thr rend | Nt6 thr

record rstate =
  rlk :: "rend \<Rightarrow> thr option"
  rp :: "rend \<Rightarrow> thr option"
  plk :: "thr \<Rightarrow> thr option"
  pr :: "thr \<Rightarrow> rend option"
  pst :: "thr \<Rightarrow> pstate"
  noted :: "thr \<Rightarrow> bool"
  happened :: "rend \<Rightarrow> bool"
  pc :: "thr \<Rightarrow> zpc"
  user :: "rend \<Rightarrow> thr option"

text \<open>\<open>happened r\<close> is the condition \<open>f(arg)\<close>, and \<open>user r\<close> who is in \<open>sleep\<close> on \<open>r\<close>: the code demands one at a time.\<close>

definition goto :: "thr \<Rightarrow> zpc \<Rightarrow> rstate \<Rightarrow> rstate" where
  "goto t l x = x\<lparr>pc := (pc x)(t := l)\<rparr>"

definition lock_r :: "rend \<Rightarrow> thr \<Rightarrow> rstate \<Rightarrow> rstate" where
  "lock_r r t x = x\<lparr>rlk := (rlk x)(r := Some t)\<rparr>"

definition unlock_r :: "rend \<Rightarrow> rstate \<Rightarrow> rstate" where
  "unlock_r r x = x\<lparr>rlk := (rlk x)(r := None)\<rparr>"

definition lock_p :: "thr \<Rightarrow> thr \<Rightarrow> rstate \<Rightarrow> rstate" where
  "lock_p p t x = x\<lparr>plk := (plk x)(p := Some t)\<rparr>"

definition unlock_p :: "thr \<Rightarrow> rstate \<Rightarrow> rstate" where
  "unlock_p p x = x\<lparr>plk := (plk x)(p := None)\<rparr>"

text \<open>Both wakers: the process and the Rendez forget each other, and the process is ready.\<close>

definition wake :: "rend \<Rightarrow> thr \<Rightarrow> rstate \<Rightarrow> rstate" where
  "wake r p x = x\<lparr>rp := (rp x)(r := None), pr := (pr x)(p := None), pst := (pst x)(p := Ready)\<rparr>"

subsection \<open>The steps\<close>

text \<open>Waiting for a lock, and for the scheduler.\<close>

definition can_step :: "thr \<Rightarrow> rstate \<Rightarrow> bool" where
  "can_step t x \<longleftrightarrow> (case pc x t of
     Out \<Rightarrow> False
   | Sl1 r \<Rightarrow> rlk x r = None
   | Sl2 r \<Rightarrow> plk x t = None
   | Asleep r \<Rightarrow> pst x t = Ready
   | Wk1 r \<Rightarrow> rlk x r = None
   | Wk3 r p \<Rightarrow> plk x p = None
   | Nt1 p \<Rightarrow> plk x p = None
   | _ \<Rightarrow> True)"

text \<open>The next step of \<open>t\<close>; the panics of \<open>wakeup\<close> and \<open>postnote\<close> are \<^term>\<open>None\<close>.\<close>

definition step_sleep :: "thr \<Rightarrow> rstate \<Rightarrow> rstate" where
  "step_sleep t x = (case pc x t of
     Sl1 r \<Rightarrow> goto t (Sl2 r) (lock_r r t x)
   | Sl2 r \<Rightarrow> goto t (Sl3 r) (lock_p t t x)
   | Sl3 r \<Rightarrow> goto t (Sl4 r) (x\<lparr>rp := (rp x)(r := Some t)\<rparr>)
   | Sl4 r \<Rightarrow> goto t (if happened x r then Cn1 r else Sl5 r) x
   | Sl5 r \<Rightarrow> goto t (if noted x t then Cn1 r else Sl6 r) x
   | Sl6 r \<Rightarrow> goto t (Sl7 r) (x\<lparr>pst := (pst x)(t := Wakeme), pr := (pr x)(t := Some r)\<rparr>)
   | Sl7 r \<Rightarrow> goto t (Sl8 r) (unlock_p t x)
   | Sl8 r \<Rightarrow> goto t (Asleep r) (unlock_r r x)
   | Asleep r \<Rightarrow> goto t Ret (x\<lparr>pst := (pst x)(t := Running), user := (user x)(r := None)\<rparr>)
   | Cn1 r \<Rightarrow> goto t (Cn2 r) (unlock_p t (x\<lparr>rp := (rp x)(r := None)\<rparr>))
   | Cn2 r \<Rightarrow> goto t Ret (unlock_r r (x\<lparr>user := (user x)(r := None)\<rparr>))
   | Ret \<Rightarrow> goto t Out (x\<lparr>noted := (noted x)(t := False)\<rparr>)
   | _ \<Rightarrow> x)"

definition step_wakeup :: "thr \<Rightarrow> rstate \<Rightarrow> rstate option" where
  "step_wakeup t x = (case pc x t of
     Wk1 r \<Rightarrow> Some (goto t (Wk2 r) (lock_r r t x))
   | Wk2 r \<Rightarrow> Some (goto t (case rp x r of None \<Rightarrow> Wk6 r | Some p \<Rightarrow> Wk3 r p) x)
   | Wk3 r p \<Rightarrow> Some (goto t (Wk4 r p) (lock_p p t x))
   | Wk4 r p \<Rightarrow> if pst x p \<noteq> Wakeme \<or> pr x p \<noteq> Some r then None else Some (goto t (Wk5 r p) (wake r p x))
   | Wk5 r p \<Rightarrow> Some (goto t (Wk6 r) (unlock_p p x))
   | Wk6 r \<Rightarrow> Some (goto t Out (unlock_r r x))
   | _ \<Rightarrow> Some x)"

definition step_postnote :: "thr \<Rightarrow> rstate \<Rightarrow> rstate option" where
  "step_postnote t x = (case pc x t of
     Nt1 p \<Rightarrow> Some (goto t (Nt2 p) (lock_p p t x))
   | Nt2 p \<Rightarrow> Some (goto t (case pr x p of None \<Rightarrow> Nt6 p | Some r \<Rightarrow> Nt3 p r) x)
   | Nt3 p r \<Rightarrow> Some (if rlk x r = None then goto t (Nt4 p r) (lock_r r t x) else goto t (Nt1 p) (unlock_p p x))
   | Nt4 p r \<Rightarrow> if pst x p \<noteq> Wakeme \<or> rp x r \<noteq> Some p then None else Some (goto t (Nt5 p r) (wake r p x))
   | Nt5 p r \<Rightarrow> Some (goto t (Nt6 p) (unlock_r r x))
   | Nt6 p \<Rightarrow> Some (goto t Out (unlock_p p x))
   | _ \<Rightarrow> Some x)"

definition in_wakeup :: "zpc \<Rightarrow> bool" where
  "in_wakeup l \<longleftrightarrow> (case l of Wk1 _ \<Rightarrow> True | Wk2 _ \<Rightarrow> True | Wk3 _ _ \<Rightarrow> True | Wk4 _ _ \<Rightarrow> True | Wk5 _ _ \<Rightarrow> True | Wk6 _ \<Rightarrow> True | _ \<Rightarrow> False)"

definition in_postnote :: "zpc \<Rightarrow> bool" where
  "in_postnote l \<longleftrightarrow> (case l of Nt1 _ \<Rightarrow> True | Nt2 _ \<Rightarrow> True | Nt3 _ _ \<Rightarrow> True | Nt4 _ _ \<Rightarrow> True | Nt5 _ _ \<Rightarrow> True | Nt6 _ \<Rightarrow> True | _ \<Rightarrow> False)"

definition thr_step :: "thr \<Rightarrow> rstate \<Rightarrow> rstate option" where
  "thr_step t x = (if in_wakeup (pc x t) then step_wakeup t x else if in_postnote (pc x t) then step_postnote t x else Some (step_sleep t x))"

text \<open>A thread enters a function, or the condition is no longer true.\<close>

datatype zact = Step thr | Sleep thr rend | Wakeup thr rend | Postnote thr thr | Undo rend

fun zguard :: "zact \<Rightarrow> rstate \<Rightarrow> bool" where
  "zguard (Step t) x \<longleftrightarrow> can_step t x"
| "zguard (Sleep t r) x \<longleftrightarrow> pc x t = Out \<and> user x r = None"
| "zguard (Wakeup t r) x \<longleftrightarrow> pc x t = Out"
| "zguard (Postnote t p) x \<longleftrightarrow> pc x t = Out"
| "zguard (Undo r) x \<longleftrightarrow> True"

fun zdo :: "zact \<Rightarrow> rstate \<Rightarrow> rstate option" where
  "zdo (Step t) x = thr_step t x"
| "zdo (Sleep t r) x = Some (goto t (Sl1 r) (x\<lparr>user := (user x)(r := Some t)\<rparr>))"
| "zdo (Wakeup t r) x = Some (goto t (Wk1 r) (x\<lparr>happened := (happened x)(r := True)\<rparr>))"
| "zdo (Postnote t p) x = Some (goto t (Nt1 p) (x\<lparr>noted := (noted x)(p := True)\<rparr>))"
| "zdo (Undo r) x = Some (x\<lparr>happened := (happened x)(r := False)\<rparr>)"

definition rstate0 :: rstate where
  "rstate0 = \<lparr>rlk = \<lambda>_. None, rp = \<lambda>_. None, plk = \<lambda>_. None, pr = \<lambda>_. None, pst = \<lambda>_. Running, noted = \<lambda>_. False,
     happened = \<lambda>_. False, pc = \<lambda>_. Out, user = \<lambda>_. None\<rparr>"

inductive zreach :: "rstate \<Rightarrow> bool" where
  zinit: "zreach rstate0"
| zstep: "zreach x \<Longrightarrow> zguard a x \<Longrightarrow> zdo a x = Some y \<Longrightarrow> zreach y"

subsection \<open>The invariant\<close>

fun holds_r :: "zpc \<Rightarrow> rend option" where
  "holds_r (Sl2 r) = Some r" | "holds_r (Sl3 r) = Some r" | "holds_r (Sl4 r) = Some r" | "holds_r (Sl5 r) = Some r"
| "holds_r (Sl6 r) = Some r" | "holds_r (Sl7 r) = Some r" | "holds_r (Sl8 r) = Some r" | "holds_r (Cn1 r) = Some r" | "holds_r (Cn2 r) = Some r"
| "holds_r (Wk2 r) = Some r" | "holds_r (Wk3 r p) = Some r" | "holds_r (Wk4 r p) = Some r" | "holds_r (Wk5 r p) = Some r" | "holds_r (Wk6 r) = Some r"
| "holds_r (Nt4 p r) = Some r" | "holds_r (Nt5 p r) = Some r"
| "holds_r _ = None"

fun holds_p :: "thr \<Rightarrow> zpc \<Rightarrow> thr option" where
  "holds_p t (Sl3 r) = Some t" | "holds_p t (Sl4 r) = Some t" | "holds_p t (Sl5 r) = Some t" | "holds_p t (Sl6 r) = Some t"
| "holds_p t (Sl7 r) = Some t" | "holds_p t (Cn1 r) = Some t"
| "holds_p t (Wk4 r p) = Some p" | "holds_p t (Wk5 r p) = Some p"
| "holds_p t (Nt2 p) = Some p" | "holds_p t (Nt3 p r) = Some p" | "holds_p t (Nt4 p r) = Some p" | "holds_p t (Nt5 p r) = Some p" | "holds_p t (Nt6 p) = Some p"
| "holds_p t _ = None"

fun sleeps_on :: "zpc \<Rightarrow> rend option" where
  "sleeps_on (Sl1 r) = Some r" | "sleeps_on (Sl2 r) = Some r" | "sleeps_on (Sl3 r) = Some r" | "sleeps_on (Sl4 r) = Some r" | "sleeps_on (Sl5 r) = Some r"
| "sleeps_on (Sl6 r) = Some r" | "sleeps_on (Sl7 r) = Some r" | "sleeps_on (Sl8 r) = Some r" | "sleeps_on (Asleep r) = Some r"
| "sleeps_on (Cn1 r) = Some r" | "sleeps_on (Cn2 r) = Some r" | "sleeps_on _ = None"

text \<open>In \<open>r->p\<close>, but not committed; committed.\<close>

fun announced :: "zpc \<Rightarrow> rend option" where
  "announced (Sl4 r) = Some r" | "announced (Sl5 r) = Some r" | "announced (Sl6 r) = Some r" | "announced (Cn1 r) = Some r"
| "announced _ = None"

fun committed :: "zpc \<Rightarrow> rend option" where
  "committed (Sl7 r) = Some r" | "committed (Sl8 r) = Some r" | "committed _ = None"

fun waking :: "rend \<Rightarrow> zpc \<Rightarrow> bool" where
  "waking r (Wk1 s) = (s = r)" | "waking r (Wk2 s) = (s = r)" | "waking r (Wk3 s p) = (s = r)" | "waking r (Wk4 s p) = (s = r)"
| "waking r _ = False"

fun noting :: "thr \<Rightarrow> zpc \<Rightarrow> bool" where
  "noting t (Nt1 p) = (p = t)" | "noting t (Nt2 p) = (p = t)" | "noting t (Nt3 p r) = (p = t)" | "noting t (Nt4 p r) = (p = t)"
| "noting t _ = False"

text \<open>Past the test of the condition, past the test of the note.\<close>

definition past_cond :: "rend \<Rightarrow> thr \<Rightarrow> rstate \<Rightarrow> bool" where
  "past_cond r t x \<longleftrightarrow> pr x t = Some r \<or> pc x t = Sl5 r \<or> pc x t = Sl6 r"

definition past_note :: "thr \<Rightarrow> rstate \<Rightarrow> bool" where
  "past_note t x \<longleftrightarrow> pr x t \<noteq> None \<or> (\<exists>r. pc x t = Sl6 r)"

definition zinv :: "rstate \<Rightarrow> bool" where
  "zinv x \<longleftrightarrow>
     (\<forall>r t. rlk x r = Some t \<longleftrightarrow> holds_r (pc x t) = Some r) \<and>
     (\<forall>p t. plk x p = Some t \<longleftrightarrow> holds_p t (pc x t) = Some p) \<and>
     (\<forall>r t. user x r = Some t \<longleftrightarrow> sleeps_on (pc x t) = Some r) \<and>
     (\<forall>r t. rp x r = Some t \<longleftrightarrow> announced (pc x t) = Some r \<or> pr x t = Some r) \<and>
     (\<forall>t. pst x t = Wakeme \<longleftrightarrow> pr x t \<noteq> None) \<and>
     (\<forall>t r. pr x t = Some r \<longrightarrow> committed (pc x t) = Some r \<or> pc x t = Asleep r) \<and>
     (\<forall>t r. committed (pc x t) = Some r \<longrightarrow> pr x t = Some r) \<and>
     (\<forall>t r. pc x t = Asleep r \<longrightarrow> pr x t = Some r \<or> pst x t = Ready) \<and>
     (\<forall>w r p. pc x w = Wk3 r p \<or> pc x w = Wk4 r p \<longrightarrow> pr x p = Some r) \<and>
     (\<forall>w r p. pc x w = Nt3 p r \<or> pc x w = Nt4 p r \<longrightarrow> pr x p = Some r) \<and>
     (\<forall>r t. happened x r \<and> past_cond r t x \<longrightarrow> (\<exists>w. waking r (pc x w))) \<and>
     (\<forall>t. noted x t \<and> past_note t x \<longrightarrow> (\<exists>w. noting t (pc x w)))"

lemma zinvD:
  assumes "zinv x"
  shows "\<And>r t. rlk x r = Some t \<longleftrightarrow> holds_r (pc x t) = Some r"
    "\<And>p t. plk x p = Some t \<longleftrightarrow> holds_p t (pc x t) = Some p"
    "\<And>r t. user x r = Some t \<longleftrightarrow> sleeps_on (pc x t) = Some r"
    "\<And>r t. rp x r = Some t \<longleftrightarrow> announced (pc x t) = Some r \<or> pr x t = Some r"
    "\<And>t. pst x t = Wakeme \<longleftrightarrow> pr x t \<noteq> None"
    "\<And>t r. pr x t = Some r \<Longrightarrow> committed (pc x t) = Some r \<or> pc x t = Asleep r"
    "\<And>t r. committed (pc x t) = Some r \<Longrightarrow> pr x t = Some r"
    "\<And>t r. pc x t = Asleep r \<Longrightarrow> pr x t = Some r \<or> pst x t = Ready"
    "\<And>w r p. pc x w = Wk3 r p \<or> pc x w = Wk4 r p \<Longrightarrow> pr x p = Some r"
    "\<And>w r p. pc x w = Nt3 p r \<or> pc x w = Nt4 p r \<Longrightarrow> pr x p = Some r"
    "\<And>r t. happened x r \<Longrightarrow> past_cond r t x \<Longrightarrow> \<exists>w. waking r (pc x w)"
    "\<And>t. noted x t \<Longrightarrow> past_note t x \<Longrightarrow> \<exists>w. noting t (pc x w)"
  subgoal for r t using assms unfolding zinv_def by meson
  subgoal for p t using assms unfolding zinv_def by meson
  subgoal for r t using assms unfolding zinv_def by meson
  subgoal for r t using assms unfolding zinv_def by meson
  subgoal for t using assms unfolding zinv_def by meson
  subgoal for t r using assms unfolding zinv_def by meson
  subgoal for t r using assms unfolding zinv_def by meson
  subgoal for t r using assms unfolding zinv_def by meson
  subgoal for w r p using assms unfolding zinv_def by meson
  subgoal for w r p using assms unfolding zinv_def by meson
  subgoal for r t using assms unfolding zinv_def by meson
  subgoal for t using assms unfolding zinv_def by meson
  done

lemma zinvI:
  assumes "\<And>r t. rlk x r = Some t \<longleftrightarrow> holds_r (pc x t) = Some r"
    "\<And>p t. plk x p = Some t \<longleftrightarrow> holds_p t (pc x t) = Some p"
    "\<And>r t. user x r = Some t \<longleftrightarrow> sleeps_on (pc x t) = Some r"
    "\<And>r t. rp x r = Some t \<longleftrightarrow> announced (pc x t) = Some r \<or> pr x t = Some r"
    "\<And>t. pst x t = Wakeme \<longleftrightarrow> pr x t \<noteq> None"
    "\<And>t r. pr x t = Some r \<Longrightarrow> committed (pc x t) = Some r \<or> pc x t = Asleep r"
    "\<And>t r. committed (pc x t) = Some r \<Longrightarrow> pr x t = Some r"
    "\<And>t r. pc x t = Asleep r \<Longrightarrow> pr x t = Some r \<or> pst x t = Ready"
    "\<And>w r p. pc x w = Wk3 r p \<or> pc x w = Wk4 r p \<Longrightarrow> pr x p = Some r"
    "\<And>w r p. pc x w = Nt3 p r \<or> pc x w = Nt4 p r \<Longrightarrow> pr x p = Some r"
    "\<And>r t. happened x r \<Longrightarrow> past_cond r t x \<Longrightarrow> \<exists>w. waking r (pc x w)"
    "\<And>t. noted x t \<Longrightarrow> past_note t x \<Longrightarrow> \<exists>w. noting t (pc x w)"
  shows "zinv x"
  unfolding zinv_def
  by (intro conjI allI impI; (rule assms(1-5) | ((elim conjE)?, (rule assms(6-12); assumption))))

lemma zinv_init: "zinv rstate0"
  by (simp add: zinv_def rstate0_def past_cond_def past_note_def)

text \<open>A step of \<open>t\<close> that wakes nobody and commits nobody, from what it changes.\<close>

lemma zinv_local:
  assumes i: "zinv x" and y: "pc y = (pc x)(t := l)" "pr y = pr x" "pst y = pst x" "happened y = happened x"
    and n: "\<And>s. noted y s \<Longrightarrow> noted x s"
    and lk: "\<And>r s. rlk y r = Some s \<longleftrightarrow> (if s = t then holds_r l = Some r else rlk x r = Some s)"
      "\<And>p s. plk y p = Some s \<longleftrightarrow> (if s = t then holds_p t l = Some p else plk x p = Some s)"
      "\<And>r s. user y r = Some s \<longleftrightarrow> (if s = t then sleeps_on l = Some r else user x r = Some s)"
      "\<And>r s. rp y r = Some s \<longleftrightarrow> (if s = t then announced l = Some r \<or> pr x t = Some r else rp x r = Some s)"
    and st: "\<And>r. pr x t = Some r \<Longrightarrow> committed l = Some r \<or> l = Asleep r" "\<And>r. committed l = Some r \<Longrightarrow> pr x t = Some r"
      "\<And>r. l = Asleep r \<Longrightarrow> pr x t = Some r \<or> pst x t = Ready"
      "\<And>r p. l = Wk3 r p \<or> l = Wk4 r p \<Longrightarrow> pr x p = Some r" "\<And>r p. l = Nt3 p r \<or> l = Nt4 p r \<Longrightarrow> pr x p = Some r"
    and h: "\<And>r. l = Sl5 r \<or> l = Sl6 r \<Longrightarrow> happened x r \<Longrightarrow> \<exists>w. w \<noteq> t \<and> waking r (pc x w)"
      "\<And>r s. waking r (pc x t) \<Longrightarrow> \<not> waking r l \<Longrightarrow> s \<noteq> t \<Longrightarrow> \<not> past_cond r s x"
    and nt: "\<And>r. l = Sl6 r \<Longrightarrow> noted x t \<Longrightarrow> \<exists>w. w \<noteq> t \<and> noting t (pc x w)"
      "\<And>s. noting s (pc x t) \<Longrightarrow> \<not> noting s l \<Longrightarrow> s \<noteq> t \<Longrightarrow> \<not> past_note s x"
  shows "zinv y"
proof -
  note D = zinvD [OF i]
  have out: "pr x t = None" if "waking r (pc x t) \<or> noting u (pc x t)" for r u
    using D(6) [of t] that by (cases "pc x t"; cases "pr x t") auto
  have wk: "\<exists>w. waking r (pc y w)" if a: "happened y r" "past_cond r s y" for r s
  proof (cases "s = t \<and> (l = Sl5 r \<or> l = Sl6 r)")
    case True
    then obtain w where "w \<noteq> t" "waking r (pc x w)" using h(1) [of r] a(1) y(4) by auto
    then show ?thesis using y(1) by (intro exI [of _ w]) simp
  next
    case False
    then have p: "past_cond r s x" using a(2) y by (auto simp: past_cond_def split: if_splits)
    then obtain w where w: "waking r (pc x w)" using D(11) a(1) y(4) by auto
    show ?thesis
    proof (cases "w = t \<and> \<not> waking r l")
      case True
      then have "s = t" using h(2) [of r s] w p by auto
      then have "pr x t = Some r \<or> pc x t = Sl5 r \<or> pc x t = Sl6 r" using p by (simp add: past_cond_def)
      then show ?thesis using w True out [of r] by auto
    next
      case False
      then show ?thesis using w y(1) by (intro exI [of _ w]) auto
    qed
  qed
  have no: "\<exists>w. noting s (pc y w)" if a: "noted y s" "past_note s y" for s
  proof (cases "s = t \<and> (\<exists>r. l = Sl6 r)")
    case True
    then obtain w where "w \<noteq> t" "noting t (pc x w)" using nt(1) n a(1) by auto
    then show ?thesis using y(1) True by (intro exI [of _ w]) simp
  next
    case False
    then have p: "past_note s x" using a(2) y by (auto simp: past_note_def split: if_splits)
    then obtain w where w: "noting s (pc x w)" using D(12) n a(1) by blast
    show ?thesis
    proof (cases "w = t \<and> \<not> noting s l")
      case True
      then have "s = t" using nt(2) [of s] w p by auto
      then have "pr x t \<noteq> None \<or> (\<exists>r. pc x t = Sl6 r)" using p by (simp add: past_note_def)
      then show ?thesis using w True out [of _ s] by auto
    next
      case False
      then show ?thesis using w y(1) by (intro exI [of _ w]) auto
    qed
  qed
  show ?thesis
  proof (rule zinvI)
    show "rlk y r = Some s \<longleftrightarrow> holds_r (pc y s) = Some r" for r s using lk(1) [of r s] D(1) [of r s] y(1) by auto
    show "plk y p = Some s \<longleftrightarrow> holds_p s (pc y s) = Some p" for p s using lk(2) [of p s] D(2) [of p s] y(1) by auto
    show "user y r = Some s \<longleftrightarrow> sleeps_on (pc y s) = Some r" for r s using lk(3) [of r s] D(3) [of r s] y(1) by auto
    show "rp y r = Some s \<longleftrightarrow> announced (pc y s) = Some r \<or> pr y s = Some r" for r s using lk(4) [of r s] D(4) [of r s] y(1,2) by auto
    show "pst y s = Wakeme \<longleftrightarrow> pr y s \<noteq> None" for s using D(5) [of s] y(2,3) by simp
    show "committed (pc y s) = Some r \<or> pc y s = Asleep r" if "pr y s = Some r" for s r
      using st(1) [of r] D(6) [of s r] that y(1,2) by auto
    show "pr y s = Some r" if "committed (pc y s) = Some r" for s r
      using st(2) [of r] D(7) [of s r] that y(1,2) by (cases "s = t") auto
    show "pr y s = Some r \<or> pst y s = Ready" if "pc y s = Asleep r" for s r
      using st(3) [of r] D(8) [of s r] that y(1-3) by (cases "s = t") auto
    show "pr y p = Some r" if "pc y w = Wk3 r p \<or> pc y w = Wk4 r p" for w r p
      using st(4) [of r p] D(9) [of w r p] that y(1,2) by (cases "w = t") auto
    show "pr y p = Some r" if "pc y w = Nt3 p r \<or> pc y w = Nt4 p r" for w r p
      using st(5) [of p r] D(10) [of w p r] that y(1,2) by (cases "w = t") auto
  qed (use wk no in blast)+
qed

lemma announced_holds: "announced l = Some r \<Longrightarrow> holds_r l = Some r"
  by (cases l) auto

lemma announced_sleeps: "announced l = Some r \<Longrightarrow> sleeps_on l = Some r"
  by (cases l) auto

lemma committed_sleeps: "committed l = Some r \<Longrightarrow> sleeps_on l = Some r"
  by (cases l) auto

text \<open>Whoever holds the lock of a Rendez, or of a process.\<close>

lemma alone_r:
  assumes "zinv x" "holds_r (pc x t) = Some r" "s \<noteq> t"
  shows "holds_r (pc x s) \<noteq> Some r" "announced (pc x s) \<noteq> Some r" "rlk x r = Some t"
proof -
  show l: "rlk x r = Some t" using zinvD(1) [OF assms(1), of r t] assms(2) by simp
  show h: "holds_r (pc x s) \<noteq> Some r" using zinvD(1) [OF assms(1), of r s] assms(3) l by auto
  show "announced (pc x s) \<noteq> Some r" using h announced_holds by blast
qed

lemma alone_p:
  assumes "zinv x" "holds_p t (pc x t) = Some p" "s \<noteq> t"
  shows "holds_p s (pc x s) \<noteq> Some p" "plk x p = Some t"
  using zinvD(2) [OF assms(1), of p t] zinvD(2) [OF assms(1), of p s] assms(2,3) by auto

text \<open>Without the lock of the Rendez held by another, only a sleeper that is committed has passed the test.\<close>

lemma past_cond_alone:
  assumes "zinv x" "holds_r (pc x t) = Some r" "s \<noteq> t" "past_cond r s x"
  shows "pr x s = Some r" "rp x r = Some s"
proof -
  show p: "pr x s = Some r" using alone_r(1) [OF assms(1-3)] assms(4) by (auto simp: past_cond_def)
  show "rp x r = Some s" using zinvD(4) [OF assms(1), of r s] p by simp
qed

lemma past_note_alone:
  assumes "zinv x" "holds_p t (pc x t) = Some p" "p \<noteq> t" "past_note p x"
  shows "pr x p \<noteq> None"
  using alone_p(1) [OF assms(1-3)] assms(4) by (auto simp: past_note_def)

lemma rp_user:
  assumes "zinv x" "rp x r = Some s"
  shows "user x r = Some s"
proof -
  note D = zinvD [OF assms(1)]
  have "sleeps_on (pc x s) = Some r" using D(4) [of r s] D(6) [of s r] assms(2) committed_sleeps announced_sleeps by fastforce
  then show ?thesis using D(3) by simp
qed

lemmas zset = goto_def lock_r_def unlock_r_def lock_p_def unlock_p_def

definition moves :: "zpc \<Rightarrow> bool" where
  "moves l \<longleftrightarrow> (case l of Sl6 _ \<Rightarrow> False | Asleep _ \<Rightarrow> False | Wk4 _ _ \<Rightarrow> False | Nt4 _ _ \<Rightarrow> False | _ \<Rightarrow> True)"

lemma step_local:
  assumes i: "zinv x" and g: "can_step t x" and s: "thr_step t x = Some y" and m: "moves (pc x t)"
  shows "zinv y"
proof -
  note D = zinvD [OF i]
  note T = D(1) [of _ t] D(2) [of _ t] D(3) [of _ t] D(4) [of _ t] D(5) [of t]
  have L: "\<And>r s. rlk x r = Some s \<Longrightarrow> holds_r (pc x t) = Some r \<Longrightarrow> s = t"
    "\<And>p s. plk x p = Some s \<Longrightarrow> holds_p t (pc x t) = Some p \<Longrightarrow> s = t"
    "\<And>r s. user x r = Some s \<Longrightarrow> sleeps_on (pc x t) = Some r \<Longrightarrow> s = t"
    "\<And>r s. rp x r = Some s \<Longrightarrow> announced (pc x t) = Some r \<Longrightarrow> s = t"
    using D(1) [of _ t] D(2) [of _ t] D(3) [of _ t] D(4) [of _ t] by force+
  have n: "pr x t = None" if "committed (pc x t) = None" "\<And>r. pc x t \<noteq> Asleep r"
    using D(6) [of t] that by (cases "pr x t") auto
  note S = thr_step_def in_wakeup_def in_postnote_def step_sleep_def step_wakeup_def step_postnote_def can_step_def
  show ?thesis
  proof (cases "pc x t")
    case (Sl1 r)
    show ?thesis by (rule zinv_local [OF i, of y t "Sl2 r"]) (use T n g s Sl1 in \<open>auto simp: S zset split: if_splits\<close>)
  next
    case (Sl2 r)
    show ?thesis by (rule zinv_local [OF i, of y t "Sl3 r"]) (use T n g s Sl2 in \<open>auto simp: S zset split: if_splits\<close>)
  next
    case (Sl3 r)
    have a: "\<And>s. rp x r = Some s \<Longrightarrow> s = t" using rp_user [OF i, of r] D(3) [of r t] Sl3 by auto
    show ?thesis by (rule zinv_local [OF i, of y t "Sl4 r"]) (use T n g s Sl3 a in \<open>auto simp: S zset split: if_splits\<close>)
  next
    case (Sl4 r)
    show ?thesis by (rule zinv_local [OF i, of y t "if happened x r then Cn1 r else Sl5 r"]) (use T n g s Sl4 in \<open>auto simp: S zset split: if_splits\<close>)
  next
    case (Sl5 r)
    have a: "\<exists>w. w \<noteq> t \<and> waking r (pc x w)" if h: "happened x r"
    proof -
      obtain w where w: "waking r (pc x w)" using D(11) [of r t] h Sl5 by (auto simp: past_cond_def)
      then have "w \<noteq> t" using Sl5 by auto
      then show ?thesis using w by blast
    qed
    show ?thesis by (rule zinv_local [OF i, of y t "if noted x t then Cn1 r else Sl6 r"]) (use T n g s Sl5 a in \<open>auto simp: S zset split: if_splits\<close>)
  next
    case (Sl7 r)
    show ?thesis by (rule zinv_local [OF i, of y t "Sl8 r"]) (use T n g s Sl7 L(2) [of t] D(7) [of t r] in \<open>auto simp: S zset split: if_splits\<close>)
  next
    case (Sl8 r)
    show ?thesis by (rule zinv_local [OF i, of y t "Asleep r"]) (use T n g s Sl8 L(1) [of r] D(7) [of t r] in \<open>auto simp: S zset split: if_splits\<close>)
  next
    case (Cn1 r)
    show ?thesis by (rule zinv_local [OF i, of y t "Cn2 r"]) (use T n g s Cn1 L(2) [of t] L(4) [of r] in \<open>auto simp: S zset split: if_splits\<close>)
  next
    case (Cn2 r)
    show ?thesis by (rule zinv_local [OF i, of y t Ret]) (use T n g s Cn2 L(1) [of r] L(3) [of r] in \<open>auto simp: S zset split: if_splits\<close>)
  next
    case Ret
    show ?thesis by (rule zinv_local [OF i, of y t Out]) (use T n g s Ret in \<open>auto simp: S zset split: if_splits\<close>)
  next
    case (Wk1 r)
    show ?thesis by (rule zinv_local [OF i, of y t "Wk2 r"]) (use T n g s Wk1 in \<open>auto simp: S zset split: if_splits\<close>)
  next
    case (Wk3 r p)
    show ?thesis by (rule zinv_local [OF i, of y t "Wk4 r p"]) (use T n g s Wk3 D(9) [of t r p] in \<open>auto simp: S zset split: if_splits\<close>)
  next
    case (Wk5 r p)
    show ?thesis by (rule zinv_local [OF i, of y t "Wk6 r"]) (use T n g s Wk5 L(2) [of p] in \<open>auto simp: S zset split: if_splits\<close>)
  next
    case (Wk6 r)
    show ?thesis by (rule zinv_local [OF i, of y t Out]) (use T n g s Wk6 L(1) [of r] in \<open>auto simp: S zset split: if_splits\<close>)
  next
    case (Nt1 p)
    show ?thesis by (rule zinv_local [OF i, of y t "Nt2 p"]) (use T n g s Nt1 in \<open>auto simp: S zset split: if_splits\<close>)
  next
    case (Nt5 p r)
    show ?thesis by (rule zinv_local [OF i, of y t "Nt6 p"]) (use T n g s Nt5 L(1) [of r] in \<open>auto simp: S zset split: if_splits\<close>)
  next
    case (Nt6 p)
    show ?thesis by (rule zinv_local [OF i, of y t Out]) (use T n g s Nt6 L(2) [of p] in \<open>auto simp: S zset split: if_splits\<close>)
  next
    case (Nt3 p r)
    show ?thesis by (rule zinv_local [OF i, of y t "if rlk x r = None then Nt4 p r else Nt1 p"]) (use T n g s Nt3 L(2) [of p] D(10) [of t p r] in \<open>auto simp: S zset split: if_splits\<close>)
  next
    case (Nt2 p)
    have a: "\<not> past_note p x" if "pr x p = None" "p \<noteq> t" using past_note_alone [OF i _ that(2)] Nt2 that(1) by auto
    show ?thesis
      by (rule zinv_local [OF i, of y t "case pr x p of None \<Rightarrow> Nt6 p | Some r \<Rightarrow> Nt3 p r"])
        (use T n g s Nt2 a in \<open>auto simp: S zset split: if_splits option.splits\<close>)
  next
    case (Wk2 r)
    have a: "\<not> past_cond r s x" if "rp x r = None" "s \<noteq> t" for s using past_cond_alone(2) [OF i _ that(2)] Wk2 that(1) by auto
    have b: "pr x p = Some r" if "rp x r = Some p" for p
      using D(4) [of r p] that alone_r(2) [OF i, of t r p] Wk2 by (cases "p = t") auto
    show ?thesis
      by (rule zinv_local [OF i, of y t "case rp x r of None \<Rightarrow> Wk6 r | Some p \<Rightarrow> Wk3 r p"])
        (use T n g s Wk2 a b in \<open>auto simp: S zset split: if_splits option.splits\<close>)
  qed (use m g in \<open>auto simp: moves_def can_step_def\<close>)
qed

text \<open>The two wakers, with both locks.\<close>

lemma zinv_wake:
  assumes i: "zinv x" and l: "pc x t = Wk4 r p \<and> l = Wk5 r p \<or> pc x t = Nt4 p r \<and> l = Nt5 p r"
  shows "pst x p = Wakeme" "pr x p = Some r" "rp x r = Some p" "p \<noteq> t" "zinv (goto t l (wake r p x))"
proof -
  note D = zinvD [OF i]
  let ?y = "goto t l (wake r p x)"
  show p: "pr x p = Some r" using D(9) [of t r p] D(10) [of t p r] l by auto
  show st: "pst x p = Wakeme" using D(5) [of p] p by simp
  show rp: "rp x r = Some p" using D(4) [of r p] p by simp
  show pt: "p \<noteq> t" using D(6) [of p r] p l by auto
  have hr: "holds_r (pc x t) = Some r" and hp: "holds_p t (pc x t) = Some p" using l by auto
  have pcy: "pc ?y = (pc x)(t := l)" by (simp add: goto_def wake_def)
  have only: "s = p" if "pr x s = Some r" for s using D(4) [of r s] that rp by simp
  have cr: "\<not> past_cond r s ?y" for s
    using only [of s] alone_r(1) [OF i hr, of s] l by (cases "s = t") (auto simp: past_cond_def goto_def wake_def split: if_splits)
  have np: "\<not> past_note p ?y"
    using alone_p(1) [OF i hp pt] pt by (auto simp: past_note_def goto_def wake_def split: if_splits)
  show "zinv ?y"
  proof (rule zinvI)
    show "rlk ?y r' = Some s \<longleftrightarrow> holds_r (pc ?y s) = Some r'" for r' s
      using D(1) [of r' s] l by (auto simp: goto_def wake_def)
    show "plk ?y p' = Some s \<longleftrightarrow> holds_p s (pc ?y s) = Some p'" for p' s
      using D(2) [of p' s] l by (auto simp: goto_def wake_def)
    show "user ?y r' = Some s \<longleftrightarrow> sleeps_on (pc ?y s) = Some r'" for r' s
      using D(3) [of r' s] l by (auto simp: goto_def wake_def)
    show "rp ?y r' = Some s \<longleftrightarrow> announced (pc ?y s) = Some r' \<or> pr ?y s = Some r'" for r' s
    proof (cases "r' = r")
      case True
      have "announced (pc ?y s) \<noteq> Some r" using alone_r(2) [OF i hr, of s] l by (cases "s = t") (auto simp: pcy)
      moreover have "pr ?y s \<noteq> Some r" using only [of s] by (auto simp: goto_def wake_def)
      ultimately show ?thesis using True by (simp add: goto_def wake_def)
    next
      case False
      have "announced (pc ?y s) = Some r' \<longleftrightarrow> announced (pc x s) = Some r'" using l by (auto simp: pcy)
      moreover have "pr ?y s = Some r' \<longleftrightarrow> pr x s = Some r'" using p False by (simp add: goto_def wake_def)
      ultimately show ?thesis using D(4) [of r' s] False by (simp add: goto_def wake_def)
    qed
    show "pst ?y s = Wakeme \<longleftrightarrow> pr ?y s \<noteq> None" for s
      using D(5) [of s] by (simp add: goto_def wake_def)
    show "committed (pc ?y s) = Some r' \<or> pc ?y s = Asleep r'" if "pr ?y s = Some r'" for s r'
      using D(6) [of s r'] that l by (auto simp: goto_def wake_def split: if_splits)
    show "pr ?y s = Some r'" if c: "committed (pc ?y s) = Some r'" for s r'
    proof -
      have st: "s \<noteq> t" using c l by (auto simp: pcy)
      then have c': "committed (pc x s) = Some r'" using c by (simp add: pcy)
      then have h: "holds_r (pc x s) = Some r'" by (cases "pc x s") auto
      have "s \<noteq> p" using D(7) [OF c'] p h alone_r(1) [OF i hr st] by auto
      then show ?thesis using D(7) [OF c'] by (simp add: goto_def wake_def)
    qed
    show "pr ?y s = Some r' \<or> pst ?y s = Ready" if "pc ?y s = Asleep r'" for s r'
      using D(8) [of s r'] that l by (auto simp: goto_def wake_def split: if_splits)
    show "pr ?y p' = Some r'" if w: "pc ?y w = Wk3 r' p' \<or> pc ?y w = Wk4 r' p'" for w r' p'
    proof -
      have wt: "w \<noteq> t" using w l by (auto simp: pcy)
      then have "pr x p' = Some r'" "holds_r (pc x w) = Some r'" using D(9) [of w r' p'] w by (auto simp: pcy)
      then show ?thesis using alone_r(1) [OF i hr wt] p by (auto simp: goto_def wake_def)
    qed
    show "pr ?y p' = Some r'" if w: "pc ?y w = Nt3 p' r' \<or> pc ?y w = Nt4 p' r'" for w r' p'
    proof -
      have wt: "w \<noteq> t" using w l by (auto simp: pcy)
      then have "pr x p' = Some r'" "holds_p w (pc x w) = Some p'" using D(10) [of w p' r'] w by (auto simp: pcy)
      then show ?thesis using alone_p(1) [OF i hp wt] by (auto simp: goto_def wake_def)
    qed
    show "\<exists>w. waking r' (pc ?y w)" if h: "happened ?y r'" and c: "past_cond r' s ?y" for r' s
    proof -
      have "happened x r'" "past_cond r' s x" using h c l by (auto simp: past_cond_def goto_def wake_def split: if_splits)
      then obtain w where w: "waking r' (pc x w)" using D(11) by blast
      then have "w \<noteq> t" using cr [of s] c l by auto
      then show ?thesis using w by (intro exI [of _ w]) (simp add: pcy)
    qed
    show "\<exists>w. noting s (pc ?y w)" if h: "noted ?y s" and c: "past_note s ?y" for s
    proof -
      have "noted x s" "past_note s x" using h c l by (auto simp: past_note_def goto_def wake_def split: if_splits)
      then obtain w where w: "noting s (pc x w)" using D(12) by blast
      then have "w \<noteq> t" using np c l by auto
      then show ?thesis using w by (intro exI [of _ w]) (simp add: pcy)
    qed
  qed
qed

text \<open>Committing itself, and running again.\<close>

lemma zinv_commit:
  assumes i: "zinv x" and l: "pc x t = Sl6 r"
  shows "zinv (goto t (Sl7 r) (x\<lparr>pst := (pst x)(t := Wakeme), pr := (pr x)(t := Some r)\<rparr>))" (is "zinv ?y")
proof -
  note D = zinvD [OF i]
  have n: "pr x t = None" using D(6) [of t] l by (cases "pr x t") auto
  have w: "\<exists>w. w \<noteq> t \<and> waking r (pc x w)" if h: "happened x r"
  proof -
    obtain w where w: "waking r (pc x w)" using D(11) [of r t] h l by (auto simp: past_cond_def)
    then show ?thesis using l by (intro exI [of _ w]) auto
  qed
  have v: "\<exists>w. w \<noteq> t \<and> noting t (pc x w)" if h: "noted x t"
  proof -
    obtain w where w: "noting t (pc x w)" using D(12) [of t] h l by (auto simp: past_note_def)
    then show ?thesis using l by (intro exI [of _ w]) auto
  qed
  show ?thesis
  proof (rule zinvI)
    show "rlk ?y r' = Some s \<longleftrightarrow> holds_r (pc ?y s) = Some r'" for r' s using D(1) [of r' s] l by (auto simp: goto_def)
    show "plk ?y p' = Some s \<longleftrightarrow> holds_p s (pc ?y s) = Some p'" for p' s using D(2) [of p' s] l by (auto simp: goto_def)
    show "user ?y r' = Some s \<longleftrightarrow> sleeps_on (pc ?y s) = Some r'" for r' s using D(3) [of r' s] l by (auto simp: goto_def)
    show "rp ?y r' = Some s \<longleftrightarrow> announced (pc ?y s) = Some r' \<or> pr ?y s = Some r'" for r' s
      using D(4) [of r' s] n l by (auto simp: goto_def)
    show "pst ?y s = Wakeme \<longleftrightarrow> pr ?y s \<noteq> None" for s using D(5) [of s] by (simp add: goto_def)
    show "committed (pc ?y s) = Some r' \<or> pc ?y s = Asleep r'" if "pr ?y s = Some r'" for s r'
      using D(6) [of s r'] that l by (auto simp: goto_def split: if_splits)
    show "pr ?y s = Some r'" if "committed (pc ?y s) = Some r'" for s r'
      using D(7) [of s r'] that l by (auto simp: goto_def split: if_splits)
    show "pr ?y s = Some r' \<or> pst ?y s = Ready" if "pc ?y s = Asleep r'" for s r'
      using D(8) [of s r'] that l by (auto simp: goto_def split: if_splits)
    show "pr ?y p' = Some r'" if "pc ?y w = Wk3 r' p' \<or> pc ?y w = Wk4 r' p'" for w r' p'
      using D(9) [of w r' p'] that n l by (auto simp: goto_def split: if_splits)
    show "pr ?y p' = Some r'" if "pc ?y w = Nt3 p' r' \<or> pc ?y w = Nt4 p' r'" for w r' p'
      using D(10) [of w p' r'] that n l by (auto simp: goto_def split: if_splits)
    show "\<exists>w. waking r' (pc ?y w)" if h: "happened ?y r'" and c: "past_cond r' s ?y" for r' s
    proof -
      have "happened x r'" "past_cond r' s x" using h c l by (auto simp: past_cond_def goto_def split: if_splits)
      then obtain w where w: "waking r' (pc x w)" using D(11) by blast
      then show ?thesis using l by (intro exI [of _ w]) (auto simp: goto_def)
    qed
    show "\<exists>w. noting s (pc ?y w)" if h: "noted ?y s" and c: "past_note s ?y" for s
    proof -
      have "noted x s" "past_note s x" using h c l by (auto simp: past_note_def goto_def split: if_splits)
      then obtain w where w: "noting s (pc x w)" using D(12) by blast
      then show ?thesis using l by (intro exI [of _ w]) (auto simp: goto_def)
    qed
  qed
qed

lemma zinv_resume:
  assumes i: "zinv x" and l: "pc x t = Asleep r" "pst x t = Ready"
  shows "zinv (goto t Ret (x\<lparr>pst := (pst x)(t := Running), user := (user x)(r := None)\<rparr>))" (is "zinv ?y")
proof -
  note D = zinvD [OF i]
  have n: "pr x t = None" using D(5) [of t] l(2) by simp
  have u: "user x r = Some t" using D(3) [of r t] l by simp
  show ?thesis
  proof (rule zinvI)
    show "rlk ?y r' = Some s \<longleftrightarrow> holds_r (pc ?y s) = Some r'" for r' s using D(1) [of r' s] l by (auto simp: goto_def)
    show "plk ?y p' = Some s \<longleftrightarrow> holds_p s (pc ?y s) = Some p'" for p' s using D(2) [of p' s] l by (auto simp: goto_def)
    show "user ?y r' = Some s \<longleftrightarrow> sleeps_on (pc ?y s) = Some r'" for r' s using D(3) [of r' s] l u by (auto simp: goto_def)
    show "rp ?y r' = Some s \<longleftrightarrow> announced (pc ?y s) = Some r' \<or> pr ?y s = Some r'" for r' s
      using D(4) [of r' s] n l by (auto simp: goto_def)
    show "pst ?y s = Wakeme \<longleftrightarrow> pr ?y s \<noteq> None" for s using D(5) [of s] n by (simp add: goto_def)
    show "committed (pc ?y s) = Some r' \<or> pc ?y s = Asleep r'" if "pr ?y s = Some r'" for s r'
      using D(6) [of s r'] that n by (auto simp: goto_def split: if_splits)
    show "pr ?y s = Some r'" if "committed (pc ?y s) = Some r'" for s r'
      using D(7) [of s r'] that l by (auto simp: goto_def split: if_splits)
    show "pr ?y s = Some r' \<or> pst ?y s = Ready" if "pc ?y s = Asleep r'" for s r'
      using D(8) [of s r'] that l by (auto simp: goto_def split: if_splits)
    show "pr ?y p' = Some r'" if "pc ?y w = Wk3 r' p' \<or> pc ?y w = Wk4 r' p'" for w r' p'
      using D(9) [of w r' p'] that by (auto simp: goto_def split: if_splits)
    show "pr ?y p' = Some r'" if "pc ?y w = Nt3 p' r' \<or> pc ?y w = Nt4 p' r'" for w r' p'
      using D(10) [of w p' r'] that by (auto simp: goto_def split: if_splits)
    show "\<exists>w. waking r' (pc ?y w)" if h: "happened ?y r'" and c: "past_cond r' s ?y" for r' s
    proof -
      have "happened x r'" "past_cond r' s x" using h c l by (auto simp: past_cond_def goto_def split: if_splits)
      then obtain w where w: "waking r' (pc x w)" using D(11) by blast
      then show ?thesis using l by (intro exI [of _ w]) (auto simp: goto_def)
    qed
    show "\<exists>w. noting s (pc ?y w)" if h: "noted ?y s" and c: "past_note s ?y" for s
    proof -
      have "noted x s" "past_note s x" using h c l by (auto simp: past_note_def goto_def split: if_splits)
      then obtain w where w: "noting s (pc x w)" using D(12) by blast
      then show ?thesis using l by (intro exI [of _ w]) (auto simp: goto_def)
    qed
  qed
qed

text \<open>What is shared besides: the condition and the notes.\<close>

lemma zinv_happened:
  assumes i: "zinv x" and h: "\<And>r. h r \<Longrightarrow> happened x r \<or> (\<exists>w. waking r (pc x w))"
  shows "zinv (x\<lparr>happened := h\<rparr>)"
proof -
  note D = zinvD [OF i]
  have "\<forall>r t. h r \<and> past_cond r t x \<longrightarrow> (\<exists>w. waking r (pc x w))" using h D(11) by blast
  then show ?thesis using i by (simp add: zinv_def past_cond_def past_note_def)
qed

lemma zinv_noted:
  assumes i: "zinv x" and h: "\<And>t. n t \<Longrightarrow> noted x t \<or> (\<exists>w. noting t (pc x w))"
  shows "zinv (x\<lparr>noted := n\<rparr>)"
proof -
  note D = zinvD [OF i]
  have "\<forall>t. n t \<and> past_note t x \<longrightarrow> (\<exists>w. noting t (pc x w))" using h D(12) by blast
  then show ?thesis using i by (simp add: zinv_def past_cond_def past_note_def)
qed

lemma zinv_enter:
  assumes i: "zinv x" and o: "pc x t = Out" and l: "l = Wk1 r \<or> l = Nt1 p \<or> l = Sl1 r \<and> user x r = None"
  shows "zinv (goto t l (x\<lparr>user := (if l = Sl1 r then (user x)(r := Some t) else user x)\<rparr>))"
proof -
  note D = zinvD [OF i]
  note T = D(1) [of _ t] D(2) [of _ t] D(3) [of _ t] D(4) [of _ t] D(5) [of t]
  have n: "pr x t = None" using D(6) [of t] o by (cases "pr x t") auto
  show ?thesis
    by (rule zinv_local [OF i, of _ t l]) (use T n o l in \<open>auto simp: zset split: if_splits\<close>)
qed

subsection \<open>Reachable states\<close>

lemma step_inv:
  assumes i: "zinv x" and g: "can_step t x" and s: "thr_step t x = Some y"
  shows "zinv y"
proof (cases "moves (pc x t)")
  case True then show ?thesis using step_local [OF i g s] by blast
next
  case False
  note S = thr_step_def in_wakeup_def in_postnote_def step_sleep_def step_wakeup_def step_postnote_def can_step_def
  show ?thesis
  proof (cases "pc x t")
    case (Sl6 r) then show ?thesis using zinv_commit [OF i, of t r] s by (simp add: S)
  next
    case (Asleep r) then show ?thesis using zinv_resume [OF i, of t r] s g by (simp add: S)
  next
    case (Wk4 r p) then show ?thesis using zinv_wake [OF i, of t r p "Wk5 r p"] s by (simp add: S)
  next
    case (Nt4 p r) then show ?thesis using zinv_wake [OF i, of t r p "Nt5 p r"] s by (simp add: S)
  qed (use False in \<open>auto simp: moves_def\<close>)
qed

lemma act_inv:
  assumes i: "zinv x" and g: "zguard a x" and s: "zdo a x = Some y"
  shows "zinv y"
proof (cases a)
  case (Step t) then show ?thesis using step_inv [OF i] g s by simp
next
  case (Sleep t r) then show ?thesis using zinv_enter [OF i, of t "Sl1 r" r] g s by (auto simp: goto_def)
next
  case (Wakeup t r)
  have "zinv (goto t (Wk1 r) x)" using zinv_enter [OF i, of t "Wk1 r" r] g Wakeup by (simp add: goto_def)
  then have "zinv ((goto t (Wk1 r) x)\<lparr>happened := (happened x)(r := True)\<rparr>)"
    by (rule zinv_happened) (auto simp: goto_def split: if_splits intro: exI [of _ t])
  moreover have "y = (goto t (Wk1 r) x)\<lparr>happened := (happened x)(r := True)\<rparr>" using s Wakeup by (auto simp: goto_def)
  ultimately show ?thesis by simp
next
  case (Postnote t p)
  have "zinv (goto t (Nt1 p) x)" using zinv_enter [OF i, of t "Nt1 p" _ p] g Postnote by (simp add: goto_def)
  then have "zinv ((goto t (Nt1 p) x)\<lparr>noted := (noted x)(p := True)\<rparr>)"
    by (rule zinv_noted) (auto simp: goto_def split: if_splits intro: exI [of _ t])
  moreover have "y = (goto t (Nt1 p) x)\<lparr>noted := (noted x)(p := True)\<rparr>" using s Postnote by (auto simp: goto_def)
  ultimately show ?thesis by simp
next
  case (Undo r) then show ?thesis using zinv_happened [OF i, of "(happened x)(r := False)"] s by (auto split: if_splits)
qed

lemma zreach_inv: "zreach x \<Longrightarrow> zinv x"
  by (induction rule: zreach.induct) (simp_all add: zinv_init act_inv)

text \<open>No panic, and whom a step makes ready.\<close>

lemma step_safe:
  assumes i: "zinv x"
  shows "\<exists>y. thr_step t x = Some y \<and> (\<forall>p. pst y p = Ready \<longrightarrow> pst x p = Ready \<or> pst x p = Wakeme \<and> p \<noteq> t \<and> pr y p = None)"
proof -
  note S = thr_step_def in_wakeup_def in_postnote_def step_sleep_def step_wakeup_def step_postnote_def
  show ?thesis
  proof (cases "pc x t")
    case (Wk4 r p) then show ?thesis using zinv_wake(1-4) [OF i, of t r p "Wk5 r p"] by (simp add: S goto_def wake_def)
  next
    case (Nt4 p r) then show ?thesis using zinv_wake(1-4) [OF i, of t r p "Nt5 p r"] by (simp add: S goto_def wake_def)
  qed (auto simp: S zset)
qed

fun zrun :: "zact list \<Rightarrow> rstate \<Rightarrow> rstate option" where
  "zrun [] x = Some x"
| "zrun (a # as) x = (if zguard a x then (case zdo a x of None \<Rightarrow> None | Some y \<Rightarrow> zrun as y) else None)"

lemma zrun_reach: "zreach x \<Longrightarrow> zrun as x = Some y \<Longrightarrow> zreach y"
proof (induction as arbitrary: x)
  case (Cons a as) then show ?case by (auto split: if_splits option.splits intro: zstep)
qed simp

text \<open>For whom a thread waits.\<close>

definition waits_for :: "thr \<Rightarrow> rstate \<Rightarrow> thr option" where
  "waits_for t x = (case pc x t of
     Sl1 r \<Rightarrow> rlk x r | Sl2 r \<Rightarrow> plk x t | Wk1 r \<Rightarrow> rlk x r | Wk3 r p \<Rightarrow> plk x p | Nt1 p \<Rightarrow> plk x p | _ \<Rightarrow> None)"

lemma holder_p_steps:
  assumes "zinv x" "plk x p = Some s"
  shows "can_step s x"
proof -
  have "holds_p s (pc x s) = Some p" using zinvD(2) [OF assms(1)] assms(2) by blast
  then show ?thesis by (cases "pc x s") (auto simp: can_step_def)
qed

lemma holder_r_steps:
  assumes "zinv x" "rlk x r = Some s"
  shows "can_step s x \<or> (\<exists>u. waits_for s x = Some u \<and> can_step u x)"
proof -
  have h: "holds_r (pc x s) = Some r" using zinvD(1) [OF assms(1)] assms(2) by blast
  then show ?thesis
    using holder_p_steps [OF assms(1)] by (cases "pc x s") (auto simp: can_step_def waits_for_def)
qed

text \<open>Nothing else wakes a process, nothing fails, whatever the next act.\<close>

lemma act_safe:
  assumes i: "zinv x" and g: "zguard a x"
  shows "\<exists>y. zdo a x = Some y \<and> (\<forall>p. pst y p = Ready \<longrightarrow> pst x p = Ready \<or> pst x p = Wakeme \<and> pr y p = None)"
proof (cases a)
  case (Step t) then show ?thesis using step_safe [OF i, of t] by auto
qed (simp_all add: goto_def)

lemma waits_end:
  assumes i: "zinv x" and o: "pc x t \<noteq> Out" "\<And>r. pc x t \<noteq> Asleep r"
  shows "can_step t x \<or> (\<exists>s. waits_for t x = Some s \<and> (can_step s x \<or> (\<exists>u. waits_for s x = Some u \<and> can_step u x)))"
proof (cases "can_step t x")
  case False
  then have "\<exists>s. waits_for t x = Some s \<and> ((\<exists>r. rlk x r = Some s) \<or> (\<exists>p. plk x p = Some s))"
    using o by (cases "pc x t") (auto simp: can_step_def waits_for_def)
  then show ?thesis using holder_p_steps [OF i] holder_r_steps [OF i] by blast
qed simp

lemma asleep_on:
  assumes i: "zinv x" and a: "pc x t = Asleep r" "pst x t \<noteq> Ready"
  shows "pr x t = Some r" "pst x t = Wakeme" "rp x r = Some t" "past_cond r t x" "past_note t x"
proof -
  show p: "pr x t = Some r" using zinvD(8) [OF i, of t r] a by simp
  show "pst x t = Wakeme" using zinvD(5) [OF i, of t] p by simp
  show "rp x r = Some t" using zinvD(4) [OF i, of r t] p by simp
  show "past_cond r t x" "past_note t x" using p by (simp_all add: past_cond_def past_note_def)
qed

lemma waker_delivers:
  assumes i: "zinv x" and a: "pc x t = Asleep r" "pst x t \<noteq> Ready" and s: "thr_step w x = Some y"
  shows "waking r (pc x w) \<Longrightarrow> \<not> waking r (pc y w) \<Longrightarrow> pst y t = Ready"
    and "noting t (pc x w) \<Longrightarrow> \<not> noting t (pc y w) \<Longrightarrow> pst y t = Ready"
proof -
  note A = asleep_on [OF i a]
  have only: "pc x w = Wk4 r p \<longrightarrow> p = t" for p using zinvD(4) [OF i, of r p] zinvD(9) [OF i, of w r p] A(3) by auto
  note S = thr_step_def in_wakeup_def in_postnote_def step_wakeup_def step_postnote_def zset wake_def
  show "pst y t = Ready" if "waking r (pc x w)" "\<not> waking r (pc y w)"
    using that s A(1,3) only by (cases "pc x w") (auto simp: S split: if_splits option.splits)
  show "pst y t = Ready" if "noting t (pc x w)" "\<not> noting t (pc y w)"
    using that s A(1) by (cases "pc x w") (auto simp: S split: if_splits option.splits)
qed

subsection \<open>The properties\<close>

text \<open>
  C25. No wakeup and no note is lost, in any state any interleaving of sleeps, wakeups, notes and interrupts can reach. A process asleep on a Rendez that
  nobody has made ready is in state \<open>Wakeme\<close> and the Rendez names it; if its condition holds, a call of \<open>wakeup\<close> on that Rendez is
  on its way to it, if a note is pending, a call of \<open>postnote\<close> is; and neither call gets past its wakeup without having
  made the process ready, the retries of \<open>postnote\<close> included.\<close>

theorem nothing_lost:
  assumes "zreach x" and a: "pc x t = Asleep r" "pst x t \<noteq> Ready"
  shows "pst x t = Wakeme \<and> rp x r = Some t \<and>
    (happened x r \<longrightarrow> (\<exists>w. waking r (pc x w))) \<and> (noted x t \<longrightarrow> (\<exists>w. noting t (pc x w))) \<and>
    (\<forall>w y. thr_step w x = Some y \<longrightarrow>
       (waking r (pc x w) \<and> \<not> waking r (pc y w) \<longrightarrow> pst y t = Ready) \<and> (noting t (pc x w) \<and> \<not> noting t (pc y w) \<longrightarrow> pst y t = Ready))"
proof -
  have i: "zinv x" using assms(1) by (rule zreach_inv)
  note A = asleep_on [OF i a]
  have "\<exists>w. waking r (pc x w)" if "happened x r" using zinvD(11) [OF i that A(4)] .
  moreover have "\<exists>w. noting t (pc x w)" if "noted x t" using zinvD(12) [OF i that A(5)] .
  moreover have "(waking r (pc x w) \<and> \<not> waking r (pc y w) \<longrightarrow> pst y t = Ready) \<and> (noting t (pc x w) \<and> \<not> noting t (pc y w) \<longrightarrow> pst y t = Ready)"
    if s: "thr_step w x = Some y" for w y
    using waker_delivers(1) [OF i a s] waker_delivers(2) [OF i a s] by simp
  ultimately show ?thesis using A(2,3) by simp
qed

text \<open>Process 1 sleeps, and a wakeup by 2 and a note by 3 race for it.\<close>

definition race :: "rstate option" where
  "race = zrun (Sleep 1 0 # replicate 8 (Step 1) @ [Wakeup 2 0, Postnote 3 1, Step 2, Step 3, Step 3]) rstate0"

lemma race_at:
  "case race of None \<Rightarrow> False | Some x \<Rightarrow> pc x 1 = Asleep 0 \<and> pst x 1 = Wakeme \<and> pc x 2 = Wk2 0 \<and> pc x 3 = Nt3 1 0 \<and> happened x 0 \<and> noted x 1"
  unfolding race_def by code_simp

theorem nothing_lost_witness:
  "\<exists>x. race = Some x \<and> rp x 0 = Some 1 \<and> (\<exists>w. waking 0 (pc x w)) \<and> (\<exists>w. noting 1 (pc x w))"
proof -
  obtain x where x: "race = Some x" "pc x 1 = Asleep 0" "pst x 1 = Wakeme" "happened x 0" "noted x 1"
    using race_at by (auto split: option.splits)
  have "zreach x" by (rule zrun_reach [OF zinit x(1) [unfolded race_def]])
  note L = nothing_lost [OF this x(2), unfolded x(3)]
  have "rp x 0 = Some 1" "\<exists>w. waking 0 (pc x w)" "\<exists>w. noting 1 (pc x w)" using L x(4,5) by simp_all
  then show ?thesis using x(1) by blast
qed

text \<open>
  C17. Neither panic can happen and nothing is stuck, in any reachable state. Whatever a thread does next succeeds, and makes a process
  ready only from the state \<open>Wakeme\<close>, which it leaves, so that it is made ready once; and a thread that is in one of the
  functions and is not asleep can go on, or waits for the holder of a lock who can, or whose lock's holder can: the opposite orders
  in which \<open>wakeup\<close> and \<open>postnote\<close> take their two locks never close a circle.\<close>

theorem never_stuck:
  assumes "zreach x"
  shows "(zguard a x \<longrightarrow> (\<exists>y. zdo a x = Some y \<and> (\<forall>p. pst y p = Ready \<longrightarrow> pst x p = Ready \<or> pst x p = Wakeme \<and> pr y p = None))) \<and>
    (pc x t \<noteq> Out \<and> (\<forall>r. pc x t \<noteq> Asleep r) \<longrightarrow>
       can_step t x \<or> (\<exists>s. waits_for t x = Some s \<and> (can_step s x \<or> (\<exists>u. waits_for s x = Some u \<and> can_step u x))))"
  using act_safe [OF zreach_inv [OF assms]] waits_end [OF zreach_inv [OF assms]] by blast

text \<open>In the race each has one of the two locks; the note gives up, and the wakeup goes on.\<close>

definition race2 :: "rstate option" where
  "race2 = (case race of None \<Rightarrow> None | Some x \<Rightarrow> zrun [Step 2] x)"

lemma race2_at: "case race2 of None \<Rightarrow> False | Some x \<Rightarrow> pc x 2 = Wk3 0 1 \<and> plk x 1 = Some 3 \<and> pc x 3 = Nt3 1 0"
  unfolding race2_def race_def by code_simp

theorem never_stuck_witness:
  "\<exists>x. race2 = Some x \<and> pc x 2 = Wk3 0 1 \<and> (can_step 2 x \<or> (\<exists>s. waits_for 2 x = Some s \<and> (can_step s x \<or> (\<exists>u. waits_for s x = Some u \<and> can_step u x))))"
proof -
  obtain x where x: "race2 = Some x" "pc x 2 = Wk3 0 1" using race2_at by (auto split: option.splits)
  obtain z where z: "race = Some z" "zrun [Step 2] z = Some x" using x(1) by (auto simp: race2_def split: option.splits)
  have "zreach z" by (rule zrun_reach [OF zinit z(1) [unfolded race_def]])
  then have "zreach x" using z(2) by (rule zrun_reach)
  then have "can_step 2 x \<or> (\<exists>s. waits_for 2 x = Some s \<and> (can_step s x \<or> (\<exists>u. waits_for s x = Some u \<and> can_step u x)))"
    using never_stuck [of x "Step 2" 2] x(2) by simp
  then show ?thesis using x by blast
qed

end
