(* ===== verification/Avl.thy ===== *)
theory Avl
  imports Nix_Prelude
begin

text \<open>
  The balanced trees of \<open>libavl/avl.c\<close>. The nodes are in a memory of their own, with parent pointers and balances; the rest of a node
  is the caller's, and only his comparison \<open>cmp\<close> looks at it: it is a parameter. A function that takes the place
  \<open>Avl **tp\<close> of a pointer gets the pointer here and returns what it stores there. A nil that is followed, a failed assertion and
  \<open>abort\<close> are \<^term>\<open>None\<close>. Balances stay in \<open>-2..2\<close>.
\<close>

subsection \<open>Nodes\<close>

text \<open>\<open>n[0]\<close> and \<open>n[1]\<close> are \<open>av_n False\<close> and \<open>av_n True\<close>.\<close>

record anode =
  av_p :: "nat option"
  av_n :: "bool \<Rightarrow> nat option"
  av_bal :: int

type_synonym aheap = "nat \<Rightarrow> anode"
type_synonym acmp = "nat \<Rightarrow> nat \<Rightarrow> int"

definition set_p :: "nat option \<Rightarrow> nat option \<Rightarrow> aheap \<Rightarrow> aheap" where
  "set_p x p h = (case x of None \<Rightarrow> h | Some a \<Rightarrow> h(a := (h a)\<lparr>av_p := p\<rparr>))"

definition set_n :: "nat \<Rightarrow> bool \<Rightarrow> nat option \<Rightarrow> aheap \<Rightarrow> aheap" where
  "set_n a i q h = h(a := (h a)\<lparr>av_n := (av_n (h a))(i := q)\<rparr>)"

definition set_bal :: "nat \<Rightarrow> int \<Rightarrow> aheap \<Rightarrow> aheap" where
  "set_bal a b h = h(a := (h a)\<lparr>av_bal := b\<rparr>)"

subsection \<open>Rotations\<close>

definition singleleft :: "nat option \<Rightarrow> nat option \<Rightarrow> aheap \<Rightarrow> (nat option \<times> aheap) option" where
  "singleleft tp p h = do {
     a \<leftarrow> tp;
     c \<leftarrow> av_n (h a) True;
     let r2 = av_bal (h c);
     let l = (if r2 > 0 then r2 else 0) + 1 - av_bal (h a);
     let h = set_n a True (av_n (h c) False) h;
     let h = set_p (av_n (h a) True) (Some a) h;
     let h = set_n c False (Some a) h;
     let h = set_p (av_n (h c) False) (Some c) h;
     let h = set_p (Some c) p h;
     let h = set_bal a (- l) h;
     Some (Some c, set_bal c (r2 - ((if l > 0 then l else 0) + 1)) h)
   }"

definition singleright :: "nat option \<Rightarrow> nat option \<Rightarrow> aheap \<Rightarrow> (nat option \<times> aheap) option" where
  "singleright tp p h = do {
     a \<leftarrow> tp;
     c \<leftarrow> av_n (h a) False;
     let l2 = - av_bal (h c);
     let r = av_bal (h a) + ((if l2 > 0 then l2 else 0) + 1);
     let h = set_n a False (av_n (h c) True) h;
     let h = set_p (av_n (h a) False) (Some a) h;
     let h = set_n c True (Some a) h;
     let h = set_p (av_n (h c) True) (Some c) h;
     let h = set_p (Some c) p h;
     let h = set_bal a r h;
     Some (Some c, set_bal c ((if r > 0 then r else 0) + 1 - l2) h)
   }"

definition doublerightleft :: "nat option \<Rightarrow> nat option \<Rightarrow> aheap \<Rightarrow> (nat option \<times> aheap) option" where
  "doublerightleft tp p h = do {
     a \<leftarrow> tp;
     (q, h) \<leftarrow> singleright (av_n (h a) True) tp h;
     singleleft tp p (set_n a True q h)
   }"

definition doubleleftright :: "nat option \<Rightarrow> nat option \<Rightarrow> aheap \<Rightarrow> (nat option \<times> aheap) option" where
  "doubleleftright tp p h = do {
     a \<leftarrow> tp;
     (q, h) \<leftarrow> singleleft (av_n (h a) False) tp h;
     singleright tp p (set_n a False q h)
   }"

definition balance :: "nat option \<Rightarrow> nat option \<Rightarrow> aheap \<Rightarrow> (nat option \<times> aheap) option" where
  "balance tp p h = do {
     a \<leftarrow> tp;
     if av_bal (h a) = -2 then do {
       l \<leftarrow> av_n (h a) False;
       if av_bal (h l) \<le> 0 then singleright tp p h
       else if av_bal (h l) = 1 then doubleleftright tp p h
       else None
     } else if av_bal (h a) = 2 then do {
       r \<leftarrow> av_n (h a) True;
       if av_bal (h r) \<ge> 0 then singleleft tp p h
       else if av_bal (h r) = -1 then doublerightleft tp p h
       else None
     } else Some (tp, h)
   }"

definition canoncmp :: "int \<Rightarrow> int" where
  "canoncmp c = (if c < 0 then -1 else if c > 0 then 1 else 0)"

subsection \<open>Insertion\<close>

text \<open>The results: the growth, the pointer at \<open>tp\<close>, the memory, and \<open>*rfree\<close>.\<close>

partial_function (option) insertavl1 :: "acmp \<Rightarrow> nat option \<Rightarrow> nat option \<Rightarrow> nat \<Rightarrow> aheap \<Rightarrow> (int \<times> nat option \<times> aheap \<times> nat option) option" where
  "insertavl1 cmp tp p r h = (case tp of
     None \<Rightarrow> Some (1, Some r, h(r := \<lparr>av_p = p, av_n = \<lambda>_. None, av_bal = 0\<rparr>), None)
   | Some a \<Rightarrow>
       let ob = av_bal (h a); i = canoncmp (cmp r a) in
       if i \<noteq> 0 then
         Option.bind (insertavl1 cmp (av_n (h a) (i > 0)) (Some a) r h) (\<lambda>(d, q, h, rfree).
              let h = set_n a (i > 0) q h; h = set_bal a (av_bal (h a) + i * d) h in
              (case balance (Some a) p h of
                 Some (Some b, h) \<Rightarrow> Some (if ob = 0 \<and> av_bal (h b) \<noteq> 0 then 1 else 0, Some b, h, rfree)
               | _ \<Rightarrow> None))
       else
         let h = h(r := h a);
             h = set_p (av_n (h r) False) (Some r) h;
             h = set_p (av_n (h r) True) (Some r) h in
         Some (0, Some r, h, Some a))"

subsection \<open>Deletion\<close>

text \<open>The first node below \<open>tp\<close> is taken out; the results are the change of height, the pointer at \<open>tp\<close>, the memory, and that node.\<close>

partial_function (option) successor :: "nat option \<Rightarrow> nat option \<Rightarrow> aheap \<Rightarrow> (int \<times> nat option \<times> aheap \<times> nat) option" where
  "successor tp p h = (case tp of
     None \<Rightarrow> None
   | Some a \<Rightarrow>
      (case av_n (h a) False of
         None \<Rightarrow> let q = av_n (h a) True in Some (-1, q, set_p q p h, a)
       | Some l \<Rightarrow>
           let ob = av_bal (h a) in
           Option.bind (successor (Some l) (Some a) h) (\<lambda>(d, q, h, r).
                let h = set_n a False q h; h = set_bal a (av_bal (h a) - d) h in
                (case balance (Some a) p h of
                   Some (Some b, h) \<Rightarrow> Some (if ob \<noteq> 0 \<and> av_bal (h b) = 0 then -1 else 0, Some b, h, r)
                 | _ \<Rightarrow> None))))"

text \<open>\<open>predel\<close> sees the memory before the node is taken out and changes the \<open>arg\<close>.\<close>

partial_function (option) deleteavl1 ::
    "acmp \<Rightarrow> (nat \<Rightarrow> aheap \<Rightarrow> 'w \<Rightarrow> 'w option) option \<Rightarrow> nat option \<Rightarrow> nat option \<Rightarrow> nat \<Rightarrow> aheap \<Rightarrow> 'w
     \<Rightarrow> (int \<times> nat option \<times> aheap \<times> nat option \<times> 'w) option" where
  "deleteavl1 cmp predel tp p rx h w = (case tp of
     None \<Rightarrow> Some (0, None, h, None, w)
   | Some a \<Rightarrow>
       let ob = av_bal (h a); i = canoncmp (cmp rx a) in
       if i \<noteq> 0 then
         Option.bind (deleteavl1 cmp predel (av_n (h a) (i > 0)) (Some a) rx h w) (\<lambda>(d, q, h, del, w).
              let h = set_n a (i > 0) q h; h = set_bal a (av_bal (h a) + i * d) h in
              (case balance (Some a) p h of
                 Some (Some b, h) \<Rightarrow> Some (if ob \<noteq> 0 \<and> av_bal (h b) = 0 then -1 else 0, Some b, h, del, w)
               | _ \<Rightarrow> None))
       else
         (case (case predel of None \<Rightarrow> Some w | Some f \<Rightarrow> f a h w) of
            None \<Rightarrow> None
          | Some w \<Rightarrow>
              if av_n (h a) False = None then
                let q = av_n (h a) True in Some (-1, q, set_p q p h, Some a, w)
              else if av_n (h a) True = None then
                let q = av_n (h a) False in Some (-1, q, set_p q p h, Some a, w)
              else
                (case successor (av_n (h a) True) (Some a) h of
                   None \<Rightarrow> None
                 | Some (d, q, h, r) \<Rightarrow>
                     let h = set_n a True q h;
                         h = set_bal a (av_bal (h a) + d) h;
                         h = set_bal r (av_bal (h a)) h;
                         h = set_n r False (av_n (h a) False) h;
                         h = set_n r True (av_n (h a) True) h;
                         h = set_p (Some r) p h;
                         h = set_p (av_n (h r) False) (Some r) h;
                         h = set_p (av_n (h r) True) (Some r) h in
                     (case balance (Some r) p h of
                        Some (Some b, h) \<Rightarrow> Some (if ob \<noteq> 0 \<and> av_bal (h b) = 0 then -1 else 0, Some b, h, Some a, w)
                      | _ \<Rightarrow> None))))"

subsection \<open>What the memory holds\<close>

datatype atree = Tip | Nd atree nat int atree

fun nodes :: "atree \<Rightarrow> nat list" where
  "nodes Tip = []"
| "nodes (Nd l a b r) = nodes l @ a # nodes r"

fun is_tree :: "aheap \<Rightarrow> nat option \<Rightarrow> nat option \<Rightarrow> atree \<Rightarrow> bool" where
  "is_tree h q p Tip \<longleftrightarrow> q = None"
| "is_tree h q p (Nd l a b r) \<longleftrightarrow> q = Some a \<and> av_p (h a) = p \<and> av_bal (h a) = b \<and>
     is_tree h (av_n (h a) False) (Some a) l \<and> is_tree h (av_n (h a) True) (Some a) r"

fun height :: "atree \<Rightarrow> int" where
  "height Tip = 0"
| "height (Nd l a b r) = 1 + max (height l) (height r)"

fun avl :: "atree \<Rightarrow> bool" where
  "avl Tip \<longleftrightarrow> True"
| "avl (Nd l a b r) \<longleftrightarrow> avl l \<and> avl r \<and> b = height r - height l \<and> \<bar>b\<bar> \<le> 1"

fun tbal :: "atree \<Rightarrow> int" where
  "tbal Tip = 0"
| "tbal (Nd l a b r) = b"

lemma height_ge0: "0 \<le> height t"
  by (induction t) auto

lemma is_tree_frame: "(\<And>x. x \<in> set (nodes t) \<Longrightarrow> h' x = h x) \<Longrightarrow> is_tree h' q p t \<longleftrightarrow> is_tree h q p t"
  by (induction t arbitrary: q p) auto

lemma is_tree_root: "is_tree h q p t \<Longrightarrow> q = (case t of Tip \<Rightarrow> None | Nd l a b r \<Rightarrow> Some a)"
  by (cases t) auto

text \<open>A tree below another parent.\<close>

lemma is_tree_set_p:
  assumes "is_tree h q p t" "distinct (nodes t)"
  shows "is_tree (set_p q p' h) q p' t" "\<And>x. x \<notin> set (nodes t) \<Longrightarrow> set_p q p' h x = h x"
proof -
  show "is_tree (set_p q p' h) q p' t"
  proof (cases t)
    case (Nd l a b r)
    have "is_tree (set_p q p' h) u v l = is_tree h u v l" "is_tree (set_p q p' h) u v r = is_tree h u v r" for u v
      using assms Nd by (auto intro!: is_tree_frame simp: set_p_def)
    then show ?thesis using assms Nd by (simp add: set_p_def)
  qed (use assms in simp)
  show "x \<notin> set (nodes t) \<Longrightarrow> set_p q p' h x = h x" for x
    using assms by (cases t) (auto simp: set_p_def)
qed

lemma obind_case: "Option.bind x f = (case x of None \<Rightarrow> None | Some y \<Rightarrow> f y)"
  by (cases x) simp_all

lemmas sets = set_p_def set_n_def set_bal_def

text \<open>The rotations as the memory shows them.\<close>

lemma singleleft_mem:
  assumes "q = Some a" "av_n (h a) True = Some c" "a \<noteq> c" "av_n (h c) False = m" "m \<noteq> Some a" "m \<noteq> Some c"
    and "l = (if av_bal (h c) > 0 then av_bal (h c) else 0) + 1 - av_bal (h a)"
  shows "\<exists>h'. singleleft q p h = Some (Some c, h') \<and>
    av_p (h' c) = p \<and> av_n (h' c) False = Some a \<and> av_n (h' c) True = av_n (h c) True \<and> av_bal (h' c) = av_bal (h c) - ((if l > 0 then l else 0) + 1) \<and>
    av_p (h' a) = Some c \<and> av_n (h' a) False = av_n (h a) False \<and> av_n (h' a) True = m \<and> av_bal (h' a) = - l \<and>
    (\<forall>x. x \<noteq> a \<and> x \<noteq> c \<longrightarrow> h' x = set_p m (Some a) h x)"
  using assms by (cases m) (auto simp: singleleft_def sets Let_def)

lemma singleright_mem:
  assumes "q = Some a" "av_n (h a) False = Some c" "a \<noteq> c" "av_n (h c) True = m" "m \<noteq> Some a" "m \<noteq> Some c"
    and "r = av_bal (h a) + ((if - av_bal (h c) > 0 then - av_bal (h c) else 0) + 1)"
  shows "\<exists>h'. singleright q p h = Some (Some c, h') \<and>
    av_p (h' c) = p \<and> av_n (h' c) True = Some a \<and> av_n (h' c) False = av_n (h c) False \<and> av_bal (h' c) = (if r > 0 then r else 0) + 1 + av_bal (h c) \<and>
    av_p (h' a) = Some c \<and> av_n (h' a) True = av_n (h a) True \<and> av_n (h' a) False = m \<and> av_bal (h' a) = r \<and>
    (\<forall>x. x \<noteq> a \<and> x \<noteq> c \<longrightarrow> h' x = set_p m (Some a) h x)"
  using assms by (cases m) (auto simp: singleright_def sets Let_def)

text \<open>The tree at \<open>q\<close> is now \<open>t\<close>, and only nodes of \<open>A\<close> have changed.\<close>

definition became :: "aheap \<Rightarrow> nat set \<Rightarrow> aheap \<Rightarrow> nat option \<Rightarrow> nat option \<Rightarrow> atree \<Rightarrow> bool" where
  "became h A h' q p t \<longleftrightarrow> is_tree h' q p t \<and> (\<forall>x. x \<notin> A \<longrightarrow> h' x = h x)"

lemma singleleft_tree:
  assumes t: "is_tree h q p (Nd lt a ba (Nd m c bc rt))" and d: "distinct (nodes (Nd lt a ba (Nd m c bc rt)))"
    and l: "l = (if bc > 0 then bc else 0) + 1 - ba"
  shows "\<exists>h'. singleleft q p h = Some (Some c, h') \<and>
    became h (set (nodes (Nd lt a ba (Nd m c bc rt)))) h' (Some c) p (Nd (Nd lt a (- l) m) c (bc - ((if l > 0 then l else 0) + 1)) rt)"
proof -
  let ?m = "av_n (h c) False"
  have k: "is_tree h ?m (Some c) m" "distinct (nodes m)" using t d by auto
  have m: "?m \<noteq> Some a" "?m \<noteq> Some c" using is_tree_root [OF k(1)] d by (cases m; auto)+
  obtain h' where h': "singleleft q p h = Some (Some c, h')"
    "av_p (h' c) = p" "av_n (h' c) False = Some a" "av_n (h' c) True = av_n (h c) True" "av_bal (h' c) = bc - ((if l > 0 then l else 0) + 1)"
    "av_p (h' a) = Some c" "av_n (h' a) False = av_n (h a) False" "av_n (h' a) True = ?m" "av_bal (h' a) = - l"
    "\<forall>x. x \<noteq> a \<and> x \<noteq> c \<longrightarrow> h' x = set_p ?m (Some a) h x"
    using singleleft_mem [where q = q and a = a and c = c and m = ?m and h = h and p = p and l = l] m t d l by auto
  note S = is_tree_set_p [OF k, where p' = "Some a"]
  have "is_tree h' ?m (Some a) m" using S(1) by (rule is_tree_frame [THEN iffD2, rotated]) (use h'(10) d in auto)
  moreover have same: "h' x = h x" if "x \<noteq> a" "x \<noteq> c" "x \<notin> set (nodes m)" for x using h'(10) S(2) [OF that(3)] that by simp
  moreover have "is_tree h' u v lt = is_tree h u v lt" "is_tree h' u v rt = is_tree h u v rt" for u v
    by (rule is_tree_frame; use d in \<open>auto intro!: same\<close>)+
  ultimately show ?thesis
    using h' t d by (auto simp: became_def)
qed

lemma singleright_tree:
  assumes t: "is_tree h q p (Nd (Nd lt c bc m) a ba rt)" and d: "distinct (nodes (Nd (Nd lt c bc m) a ba rt))"
    and l: "r = ba + ((if - bc > 0 then - bc else 0) + 1)"
  shows "\<exists>h'. singleright q p h = Some (Some c, h') \<and>
    became h (set (nodes (Nd (Nd lt c bc m) a ba rt))) h' (Some c) p (Nd lt c ((if r > 0 then r else 0) + 1 + bc) (Nd m a r rt))"
proof -
  let ?m = "av_n (h c) True"
  have k: "is_tree h ?m (Some c) m" "distinct (nodes m)" using t d by auto
  have m: "?m \<noteq> Some a" "?m \<noteq> Some c" using is_tree_root [OF k(1)] d by (cases m; auto)+
  obtain h' where h': "singleright q p h = Some (Some c, h')"
    "av_p (h' c) = p" "av_n (h' c) True = Some a" "av_n (h' c) False = av_n (h c) False" "av_bal (h' c) = (if r > 0 then r else 0) + 1 + bc"
    "av_p (h' a) = Some c" "av_n (h' a) True = av_n (h a) True" "av_n (h' a) False = ?m" "av_bal (h' a) = r"
    "\<forall>x. x \<noteq> a \<and> x \<noteq> c \<longrightarrow> h' x = set_p ?m (Some a) h x"
    using singleright_mem [where q = q and a = a and c = c and m = ?m and h = h and p = p and r = r] m t d l by auto
  note S = is_tree_set_p [OF k, where p' = "Some a"]
  have "is_tree h' ?m (Some a) m" using S(1) by (rule is_tree_frame [THEN iffD2, rotated]) (use h'(10) d in auto)
  moreover have same: "h' x = h x" if "x \<noteq> a" "x \<noteq> c" "x \<notin> set (nodes m)" for x using h'(10) S(2) [OF that(3)] that by simp
  moreover have "is_tree h' u v lt = is_tree h u v lt" "is_tree h' u v rt = is_tree h u v rt" for u v
    by (rule is_tree_frame; use d in \<open>auto intro!: same\<close>)+
  ultimately show ?thesis
    using h' t d by (auto simp: became_def)
qed

lemma becameD: "became h A h' q p t \<Longrightarrow> is_tree h' q p t" "became h A h' q p t \<Longrightarrow> x \<notin> A \<Longrightarrow> h' x = h x"
  by (simp_all add: became_def)

text \<open>A subtree is replaced below \<open>a\<close>, and the balance of \<open>a\<close> is set.\<close>

lemma graft:
  assumes t: "is_tree h q p (Nd l a b r)" and k: "became h A h' q' (Some a) k"
  shows "a \<notin> A \<Longrightarrow> A \<inter> set (nodes r) = {} \<Longrightarrow> a \<notin> set (nodes k) \<Longrightarrow> a \<notin> set (nodes r) \<Longrightarrow>
      became h (insert a A) (set_n a False q' h') q p (Nd k a b r)"
    and "a \<notin> A \<Longrightarrow> A \<inter> set (nodes l) = {} \<Longrightarrow> a \<notin> set (nodes k) \<Longrightarrow> a \<notin> set (nodes l) \<Longrightarrow>
      became h (insert a A) (set_n a True q' h') q p (Nd l a b k)"
proof -
  have o: "is_tree (set_n a i u h') v w s = is_tree h' v w s" if "a \<notin> set (nodes s)" for i u v w s
    by (rule is_tree_frame) (use that in \<open>auto simp: set_n_def\<close>)
  have f: "is_tree h' v w s = is_tree h v w s" if "A \<inter> set (nodes s) = {}" for v w s
    by (rule is_tree_frame) (use becameD(2) [OF k] that in blast)
  show "became h (insert a A) (set_n a False q' h') q p (Nd k a b r)"
    if "a \<notin> A" "A \<inter> set (nodes r) = {}" "a \<notin> set (nodes k)" "a \<notin> set (nodes r)"
    using t becameD(1) [OF k] becameD(2) [OF k, of a] becameD(2) [OF k] that o f [OF that(2)] unfolding became_def
    by (simp add: set_n_def)
  show "became h (insert a A) (set_n a True q' h') q p (Nd l a b k)"
    if "a \<notin> A" "A \<inter> set (nodes l) = {}" "a \<notin> set (nodes k)" "a \<notin> set (nodes l)"
    using t becameD(1) [OF k] becameD(2) [OF k, of a] becameD(2) [OF k] that o f [OF that(2)] unfolding became_def
    by (simp add: set_n_def)
qed

lemma set_bal_tree:
  assumes "became h A h' q p (Nd l a b r)" "a \<in> A" "a \<notin> set (nodes l)" "a \<notin> set (nodes r)"
  shows "became h A (set_bal a b' h') q p (Nd l a b' r)"
proof -
  have "is_tree (set_bal a b' h') v w s = is_tree h' v w s" if "a \<notin> set (nodes s)" for v w s
    by (rule is_tree_frame) (use that in \<open>auto simp: set_bal_def\<close>)
  then show ?thesis using assms by (auto simp: became_def set_bal_def)
qed

lemma became_trans:
  "became h A h' q p t \<Longrightarrow> became h' B h'' q' p' t' \<Longrightarrow> A \<subseteq> C \<Longrightarrow> B \<subseteq> C \<Longrightarrow> became h C h'' q' p' t'"
  unfolding became_def by (metis subsetD)

lemma doubleleftright_tree:
  assumes t: "is_tree h q p (Nd (Nd ll c 1 (Nd ml d mb mr)) a (- 2) r)" and d: "distinct (nodes (Nd (Nd ll c 1 (Nd ml d mb mr)) a (- 2) r))"
    and mb: "\<bar>mb\<bar> \<le> 1"
  shows "\<exists>h'. doubleleftright q p h = Some (Some d, h') \<and> became h (set (nodes (Nd (Nd ll c 1 (Nd ml d mb mr)) a (- 2) r))) h' (Some d) p
    (Nd (Nd ll c (if mb = 1 then -1 else 0) ml) d 0 (Nd mr a (if mb = -1 then 1 else 0) r))"
proof -
  let ?l = "Nd ll c 1 (Nd ml d mb mr)" let ?x = "if mb = 1 then -1 else 0 :: int" let ?y = "if mb = 1 then -1 else mb - 1"
  have q: "q = Some a" using t by simp
  have tl: "is_tree h (av_n (h a) False) q ?l" "distinct (nodes ?l)" using t d by auto
  have m: "mb = -1 \<or> mb = 0 \<or> mb = 1" using mb by linarith
  obtain h1 where h1: "singleleft (av_n (h a) False) q h = Some (Some d, h1)" "became h (set (nodes ?l)) h1 (Some d) q (Nd (Nd ll c ?x ml) d ?y mr)"
    using singleleft_tree [OF tl refl] m by (elim disjE) auto
  have g: "became h (insert a (set (nodes ?l))) (set_n a False (Some d) h1) q p (Nd (Nd (Nd ll c ?x ml) d ?y mr) a (- 2) r)"
    by (rule graft(1) [OF t]) (use h1(2) d q in auto)
  have dd: "distinct (nodes (Nd (Nd (Nd ll c ?x ml) d ?y mr) a (- 2) r))" using d by auto
  obtain h2 where h2: "singleright q p (set_n a False (Some d) h1) = Some (Some d, h2)"
    "became (set_n a False (Some d) h1) (set (nodes (Nd (Nd (Nd ll c ?x ml) d ?y mr) a (- 2) r))) h2 (Some d) p
       (Nd (Nd ll c ?x ml) d 0 (Nd mr a (if mb = -1 then 1 else 0) r))"
    using singleright_tree [OF becameD(1) [OF g] dd refl] m by (elim disjE) auto
  have "doubleleftright q p h = Some (Some d, h2)" using h1(1) h2(1) q by (simp add: doubleleftright_def)
  moreover have "became h (set (nodes (Nd ?l a (- 2) r))) h2 (Some d) p (Nd (Nd ll c ?x ml) d 0 (Nd mr a (if mb = -1 then 1 else 0) r))"
    by (rule became_trans [OF g h2(2)]) auto
  ultimately show ?thesis by blast
qed

lemma doublerightleft_tree:
  assumes t: "is_tree h q p (Nd l a 2 (Nd (Nd ml d mb mr) c (- 1) rr))" and d: "distinct (nodes (Nd l a 2 (Nd (Nd ml d mb mr) c (- 1) rr)))"
    and mb: "\<bar>mb\<bar> \<le> 1"
  shows "\<exists>h'. doublerightleft q p h = Some (Some d, h') \<and> became h (set (nodes (Nd l a 2 (Nd (Nd ml d mb mr) c (- 1) rr)))) h' (Some d) p
    (Nd (Nd l a (if mb = 1 then -1 else 0) ml) d 0 (Nd mr c (if mb = -1 then 1 else 0) rr))"
proof -
  let ?r = "Nd (Nd ml d mb mr) c (- 1) rr" let ?x = "if mb = -1 then 1 else 0 :: int" let ?y = "if mb = -1 then 1 else mb + 1"
  have q: "q = Some a" using t by simp
  have tl: "is_tree h (av_n (h a) True) q ?r" "distinct (nodes ?r)" using t d by auto
  have m: "mb = -1 \<or> mb = 0 \<or> mb = 1" using mb by linarith
  obtain h1 where h1: "singleright (av_n (h a) True) q h = Some (Some d, h1)" "became h (set (nodes ?r)) h1 (Some d) q (Nd ml d ?y (Nd mr c ?x rr))"
    using singleright_tree [OF tl refl] m by (elim disjE) auto
  have g: "became h (insert a (set (nodes ?r))) (set_n a True (Some d) h1) q p (Nd l a 2 (Nd ml d ?y (Nd mr c ?x rr)))"
    by (rule graft(2) [OF t]) (use h1(2) d q in auto)
  have dd: "distinct (nodes (Nd l a 2 (Nd ml d ?y (Nd mr c ?x rr))))" using d by auto
  obtain h2 where h2: "singleleft q p (set_n a True (Some d) h1) = Some (Some d, h2)"
    "became (set_n a True (Some d) h1) (set (nodes (Nd l a 2 (Nd ml d ?y (Nd mr c ?x rr))))) h2 (Some d) p
       (Nd (Nd l a (if mb = 1 then -1 else 0) ml) d 0 (Nd mr c ?x rr))"
    using singleleft_tree [OF becameD(1) [OF g] dd refl] m by (elim disjE) auto
  have "doublerightleft q p h = Some (Some d, h2)" using h1(1) h2(1) q by (simp add: doublerightleft_def)
  moreover have "became h (set (nodes (Nd l a 2 ?r))) h2 (Some d) p (Nd (Nd l a (if mb = 1 then -1 else 0) ml) d 0 (Nd mr c ?x rr))"
    by (rule became_trans [OF g h2(2)]) auto
  ultimately show ?thesis by blast
qed

lemma set_nodes_Nd: "set (nodes (Nd l a b r)) = insert a (set (nodes l) \<union> set (nodes r))"
  by auto

lemma avl_tbal: "avl t \<Longrightarrow> \<bar>tbal t\<bar> \<le> 1"
  by (cases t) auto

text \<open>\<open>balance\<close> of a tree whose subtrees are balanced: the balance and the height of the result.\<close>

definition heavy :: "atree \<Rightarrow> int" where
  "heavy t = (case t of Tip \<Rightarrow> 0 | Nd l a b r \<Rightarrow> tbal (if b > 0 then r else l))"

definition balanced :: "atree \<Rightarrow> atree \<Rightarrow> bool" where
  "balanced t t' \<longleftrightarrow> avl t' \<and> nodes t' = nodes t \<and>
     tbal t' = (if \<bar>tbal t\<bar> \<le> 1 then tbal t else if heavy t = 0 then - sgn (tbal t) else 0) \<and>
     height t' = (if \<bar>tbal t\<bar> \<le> 1 \<or> heavy t = 0 then height t else height t - 1)"

lemma balance_tree:
  assumes t: "is_tree h q p (Nd l a b r)" and d: "distinct (nodes (Nd l a b r))"
    and v: "avl l" "avl r" "b = height r - height l" "\<bar>b\<bar> \<le> 2"
  shows "\<exists>h' c t'. balance q p h = Some (Some c, h') \<and> became h (set (nodes (Nd l a b r))) h' (Some c) p t' \<and> balanced (Nd l a b r) t'"
proof -
  have qa: "q = Some a" "av_bal (h a) = b" using t by simp_all
  consider "\<bar>b\<bar> \<le> 1" | "b = -2" | "b = 2" using v(4) by linarith
  then show ?thesis
  proof cases
    case 1
    then have "balance q p h = Some (Some a, h)" using qa by (simp add: balance_def) (use 1 in auto)
    moreover have "became h (set (nodes (Nd l a b r))) h (Some a) p (Nd l a b r)" using t by (simp add: became_def)
    moreover have "balanced (Nd l a b r) (Nd l a b r)" using 1 v by (simp add: balanced_def)
    ultimately show ?thesis by blast
  next
    case 2
    then obtain ll c lb m where l: "l = Nd ll c lb m" using v(3) height_ge0 [of r] by (cases l) auto
    have lb: "lb = -1 \<or> lb = 0 \<or> lb = 1" "lb = height m - height ll" using v(1) l by auto
    have c: "av_n (h a) False = Some c" "av_bal (h c) = lb" using t l by simp_all
    show ?thesis
    proof (cases "lb = 1")
      case False
      then have r: "balance q p h = singleright q p h" using qa c lb 2 by (auto simp: balance_def)
      from singleright_tree [OF t [unfolded l] d [unfolded l] refl] obtain h' where h': "singleright q p h = Some (Some c, h')"
        "became h (set (nodes (Nd l a b r))) h' (Some c) p (Nd ll c (if lb = 0 then 1 else 0) (Nd m a (if lb = 0 then -1 else 0) r))"
        using 2 lb(1) False l by (elim disjE) auto
      moreover have "balanced (Nd l a b r) (Nd ll c (if lb = 0 then 1 else 0) (Nd m a (if lb = 0 then -1 else 0) r))"
        using v lb False 2 l by (auto simp: balanced_def heavy_def)
      ultimately show ?thesis using r by auto
    next
      case True
      then obtain ml d mb mr where m: "m = Nd ml d mb mr" using lb(2) height_ge0 [of ll] by (cases m) auto
      have r: "balance q p h = doubleleftright q p h" using qa c True 2 by (auto simp: balance_def)
      have mb: "mb = -1 \<or> mb = 0 \<or> mb = 1" "mb = height mr - height ml" using v(1) l m by auto
      let ?t = "Nd (Nd ll c (if mb = 1 then -1 else 0) ml) d 0 (Nd mr a (if mb = -1 then 1 else 0) r)"
      have "\<exists>h'. doubleleftright q p h = Some (Some d, h') \<and> became h (set (nodes (Nd l a b r))) h' (Some d) p ?t"
        using doubleleftright_tree [of h q p ll c ml d mb mr a r] t d mb l m True 2 by auto
      moreover have "balanced (Nd l a b r) ?t" using v mb l m True 2 by (auto simp: balanced_def heavy_def)
      ultimately show ?thesis using r by auto
    qed
  next
    case 3
    then obtain m c rb rr where r: "r = Nd m c rb rr" using v(3) height_ge0 [of l] by (cases r) auto
    have rb: "rb = -1 \<or> rb = 0 \<or> rb = 1" "rb = height rr - height m" using v(2) r by auto
    have c: "av_n (h a) True = Some c" "av_bal (h c) = rb" using t r by simp_all
    show ?thesis
    proof (cases "rb = -1")
      case False
      then have e: "balance q p h = singleleft q p h" using qa c rb 3 by (auto simp: balance_def)
      from singleleft_tree [OF t [unfolded r] d [unfolded r] refl] obtain h' where h': "singleleft q p h = Some (Some c, h')"
        "became h (set (nodes (Nd l a b r))) h' (Some c) p (Nd (Nd l a (if rb = 0 then 1 else 0) m) c (if rb = 0 then -1 else 0) rr)"
        using 3 rb(1) False r by (elim disjE) auto
      moreover have "balanced (Nd l a b r) (Nd (Nd l a (if rb = 0 then 1 else 0) m) c (if rb = 0 then -1 else 0) rr)"
        using v rb False 3 r by (auto simp: balanced_def heavy_def)
      ultimately show ?thesis using e by auto
    next
      case True
      then obtain ml d mb mr where m: "m = Nd ml d mb mr" using rb(2) height_ge0 [of rr] by (cases m) auto
      have e: "balance q p h = doublerightleft q p h" using qa c True 3 by (auto simp: balance_def)
      have mb: "mb = -1 \<or> mb = 0 \<or> mb = 1" "mb = height mr - height ml" using v(2) r m by auto
      let ?t = "Nd (Nd l a (if mb = 1 then -1 else 0) ml) d 0 (Nd mr c (if mb = -1 then 1 else 0) rr)"
      have "\<exists>h'. doublerightleft q p h = Some (Some d, h') \<and> became h (set (nodes (Nd l a b r))) h' (Some d) p ?t"
        using doublerightleft_tree [of h q p l a ml d mb mr c rr] t d mb r m True 3 by auto
      moreover have "balanced (Nd l a b r) ?t" using v mb r m True 3 by (auto simp: balanced_def heavy_def)
      ultimately show ?thesis using e by auto
    qed
  qed
qed

text \<open>A subtree has become \<open>k\<close>, and the node above it is set and balanced.\<close>

lemma rebalance_left:
  assumes t: "is_tree h q p (Nd l a ob r)" and k: "became h A h1 ql (Some a) k"
    and A: "a \<notin> A" "A \<inter> set (nodes r) = {}" "insert a (A \<union> set (nodes k) \<union> set (nodes r)) \<subseteq> C" and d: "distinct (nodes (Nd k a b r))"
    and v: "avl k" "avl r" "b = height r - height k" "\<bar>b\<bar> \<le> 2"
  shows "\<exists>c h2 t'. balance (Some a) p (set_bal a b (set_n a False ql h1)) = Some (Some c, h2) \<and>
    became h C h2 (Some c) p t' \<and> balanced (Nd k a b r) t' \<and> av_bal (h2 c) = tbal t'"
proof -
  have q: "q = Some a" using t by simp
  have "became h (insert a A) (set_n a False ql h1) q p (Nd k a ob r)" by (rule graft(1) [OF t k]) (use A d in auto)
  then have g: "became h (insert a A) (set_bal a b (set_n a False ql h1)) q p (Nd k a b r)" by (rule set_bal_tree) (use d in auto)
  from balance_tree [OF becameD(1) [OF g] d v] obtain h2 c t' where
    r: "balance q p (set_bal a b (set_n a False ql h1)) = Some (Some c, h2)"
      "became (set_bal a b (set_n a False ql h1)) (set (nodes (Nd k a b r))) h2 (Some c) p t'" "balanced (Nd k a b r) t'" by blast
  have "became h C h2 (Some c) p t'" by (rule became_trans [OF g r(2)]) (use A in auto)
  moreover have "av_bal (h2 c) = tbal t'" using becameD(1) [OF r(2)] by (cases t') auto
  ultimately show ?thesis using r q by auto
qed

lemma rebalance_right:
  assumes t: "is_tree h q p (Nd l a ob r)" and k: "became h A h1 qr (Some a) k"
    and A: "a \<notin> A" "A \<inter> set (nodes l) = {}" "insert a (A \<union> set (nodes k) \<union> set (nodes l)) \<subseteq> C" and d: "distinct (nodes (Nd l a b k))"
    and v: "avl l" "avl k" "b = height k - height l" "\<bar>b\<bar> \<le> 2"
  shows "\<exists>c h2 t'. balance (Some a) p (set_bal a b (set_n a True qr h1)) = Some (Some c, h2) \<and>
    became h C h2 (Some c) p t' \<and> balanced (Nd l a b k) t' \<and> av_bal (h2 c) = tbal t'"
proof -
  have q: "q = Some a" using t by simp
  have "became h (insert a A) (set_n a True qr h1) q p (Nd l a ob k)" by (rule graft(2) [OF t k]) (use A d in auto)
  then have g: "became h (insert a A) (set_bal a b (set_n a True qr h1)) q p (Nd l a b k)" by (rule set_bal_tree) (use d in auto)
  from balance_tree [OF becameD(1) [OF g] d v] obtain h2 c t' where
    r: "balance q p (set_bal a b (set_n a True qr h1)) = Some (Some c, h2)"
      "became (set_bal a b (set_n a True qr h1)) (set (nodes (Nd l a b k))) h2 (Some c) p t'" "balanced (Nd l a b k) t'" by blast
  have "became h C h2 (Some c) p t'" by (rule became_trans [OF g r(2)]) (use A in auto)
  moreover have "av_bal (h2 c) = tbal t'" using becameD(1) [OF r(2)] by (cases t') auto
  ultimately show ?thesis using r q by auto
qed

text \<open>The documented contract of the comparison, and what insertion does to the nodes in order.\<close>

definition orders :: "acmp \<Rightarrow> (nat \<Rightarrow> 'k::linorder) \<Rightarrow> bool" where
  "orders cmp key \<longleftrightarrow> (\<forall>a b. (cmp a b < 0 \<longleftrightarrow> key a < key b) \<and> (cmp a b > 0 \<longleftrightarrow> key b < key a))"

definition ascending :: "(nat \<Rightarrow> 'k::linorder) \<Rightarrow> nat list \<Rightarrow> bool" where
  "ascending key xs \<longleftrightarrow> sorted_wrt (\<lambda>x y. key x < key y) xs"

definition put_node :: "(nat \<Rightarrow> 'k::linorder) \<Rightarrow> nat \<Rightarrow> nat list \<Rightarrow> nat list" where
  "put_node key r xs = takeWhile (\<lambda>x. key x < key r) xs @ r # dropWhile (\<lambda>x. key x \<le> key r) xs"

definition same_key :: "(nat \<Rightarrow> 'k::linorder) \<Rightarrow> nat \<Rightarrow> nat list \<Rightarrow> nat option" where
  "same_key key r xs = find (\<lambda>x. key x = key r) xs"

lemma canon:
  assumes "orders cmp key"
  shows "canoncmp (cmp a b) = (if key a < key b then -1 else if key b < key a then 1 else 0)"
  using assms by (auto simp: orders_def canoncmp_def)

lemma ascending_app: "ascending key (xs @ a # ys) \<longleftrightarrow> ascending key xs \<and> ascending key ys \<and> (\<forall>x \<in> set xs. key x < key a) \<and> (\<forall>y \<in> set ys. key a < key y)"
  by (auto simp: ascending_def sorted_wrt_append dest: less_trans)

lemma ascending_distinct: "ascending key xs \<Longrightarrow> distinct xs"
  by (induction xs) (auto simp: ascending_def)

lemma while_at:
  "\<not> P a \<Longrightarrow> takeWhile P (xs @ a # ys) = takeWhile P xs" "\<not> P a \<Longrightarrow> dropWhile P (xs @ a # ys) = dropWhile P xs @ a # ys"
  by (induction xs) auto

lemma while_past:
  assumes "\<forall>x \<in> set xs. P x"
  shows "takeWhile P (xs @ ys) = xs @ takeWhile P ys" "dropWhile P (xs @ ys) = dropWhile P ys"
  using assms by (induction xs) auto

lemma put_node_left: "key r < key a \<Longrightarrow> put_node key r (xs @ a # ys) = put_node key r xs @ a # ys"
  by (simp add: put_node_def while_at)

lemma put_node_past:
  assumes "ascending key (xs @ a # ys)" "key a \<le> key r"
  shows "put_node key r (xs @ a # ys) = xs @ put_node key r (a # ys)"
proof -
  have "\<forall>x \<in> set xs. key x < key r" using assms less_le_trans by (fastforce simp: ascending_app)
  then have "\<forall>x \<in> set xs. key x < key r" "\<forall>x \<in> set xs. key x \<le> key r" by auto
  then show ?thesis by (simp add: put_node_def while_past)
qed

lemma put_node_right:
  assumes "key a < key r" "ascending key (xs @ a # ys)"
  shows "put_node key r (xs @ a # ys) = xs @ a # put_node key r ys"
  using put_node_past [OF assms(2) less_imp_le [OF assms(1)]] assms(1) by (simp add: put_node_def)

lemma put_node_same:
  assumes "key a = key r" "ascending key (xs @ a # ys)"
  shows "put_node key r (xs @ a # ys) = xs @ r # ys"
proof -
  have "dropWhile (\<lambda>x. key x \<le> key r) ys = ys" using assms by (cases ys) (auto simp: ascending_app)
  then show ?thesis using put_node_past [OF assms(2)] assms(1) by (simp add: put_node_def)
qed

lemma same_key_split:
  assumes "ascending key (xs @ a # ys)"
  shows "same_key key r (xs @ a # ys) = (if key r < key a then same_key key r xs else if key a < key r then same_key key r ys else Some a)"
proof -
  have n: "find P zs = None" if "\<forall>z \<in> set zs. \<not> P z" for P and zs :: "nat list" using that by (simp add: find_None_iff)
  have f: "find P (us @ vs) = (case find P us of None \<Rightarrow> find P vs | Some u \<Rightarrow> Some u)" for P and us vs :: "nat list"
    by (induction us) auto
  have a: "\<And>x. x \<in> set xs \<Longrightarrow> key x < key a" "\<And>y. y \<in> set ys \<Longrightarrow> key a < key y" using assms by (auto simp: ascending_app)
  show ?thesis
  proof (cases "key r < key a")
    case True
    then have "find (\<lambda>x. key x = key r) ys = None" using a(2) by (intro n) fastforce
    then show ?thesis using True by (auto simp: same_key_def f split: option.splits)
  next
    case False
    then have "find (\<lambda>x. key x = key r) xs = None" using a(1) by (intro n) fastforce
    then show ?thesis using False by (auto simp: same_key_def f)
  qed
qed

lemma set_put_node: "set (put_node key r xs) \<subseteq> insert r (set xs)" "r \<in> set (put_node key r xs)"
  by (auto simp: put_node_def dest: set_takeWhileD set_dropWhileD)

lemma ascending_put:
  assumes "ascending key xs"
  shows "ascending key (put_node key r xs)"
  using assms
proof (induction xs)
  case (Cons x xs)
  consider "key r < key x" | "key r = key x" | "key x < key r" by fastforce
  then show ?case
  proof cases
    case 1 then show ?thesis using Cons.prems put_node_left [of key r x "[]" xs] by (auto simp: ascending_def put_node_def)
  next
    case 2 then show ?thesis using Cons.prems put_node_same [of key x r "[]" xs] by (auto simp: ascending_def)
  next
    case 3 then show ?thesis using Cons put_node_right [of key x r "[]" xs] set_put_node(1) [of key r xs] by (auto simp: ascending_def)
  qed
qed (simp add: put_node_def ascending_def)

text \<open>The change of height that the callers report, for a subtree that grew and for one that shrank by \<open>d\<close>.\<close>

lemma grown:
  assumes t: "balanced (Nd l' a (b + (height r' - height r) - (height l' - height l)) r') t'" and b: "b = height r - height l" "\<bar>b\<bar> \<le> 1"
    and d: "height l' - height l = d \<and> height r' = height r \<or> height r' - height r = d \<and> height l' = height l" "d = 0 \<or> d = 1"
    and hv: "d = 1 \<Longrightarrow> b = -1 \<Longrightarrow> height r' = height r \<Longrightarrow> tbal l' \<noteq> 0" "d = 1 \<Longrightarrow> b = 1 \<Longrightarrow> height l' = height l \<Longrightarrow> tbal r' \<noteq> 0"
  shows "(if b = 0 \<and> tbal t' \<noteq> 0 then 1 else 0) = height t' - height (Nd l a b r)" "b = 0 \<and> tbal t' \<noteq> 0 \<or> height t' = height (Nd l a b r)"
proof -
  let ?g = "(if b = 0 \<and> tbal t' \<noteq> 0 then 1 else 0) = height t' - height (Nd l a b r) \<and> (b = 0 \<and> tbal t' \<noteq> 0 \<or> height t' = height (Nd l a b r))"
  let ?u = "Nd l' a (b + (height r' - height r) - (height l' - height l)) r'"
  have T: "tbal t' = (if \<bar>tbal ?u\<bar> \<le> 1 then tbal ?u else if heavy ?u = 0 then - sgn (tbal ?u) else 0)"
    "height t' = (if \<bar>tbal ?u\<bar> \<le> 1 \<or> heavy ?u = 0 then height ?u else height ?u - 1)" using t by (simp_all add: balanced_def)
  have bb: "b = -1 \<or> b = 0 \<or> b = 1" using b(2) by linarith
  have ?g
    using d(1)
  proof
    assume D: "height l' - height l = d \<and> height r' = height r"
    then have e: "height l' = height l + d" "height r' = height r" "height r = height l + b" using b by auto
    show ?g using bb d(2) hv(1) T unfolding e by (elim disjE) (simp_all add: e heavy_def)
  next
    assume D: "height r' - height r = d \<and> height l' = height l"
    then have e: "height r' = height r + d" "height l' = height l" "height r = height l + b" using b by auto
    show ?g using bb d(2) hv(2) T unfolding e by (elim disjE) (simp_all add: e heavy_def)
  qed
  then show "(if b = 0 \<and> tbal t' \<noteq> 0 then 1 else 0) = height t' - height (Nd l a b r)" "b = 0 \<and> tbal t' \<noteq> 0 \<or> height t' = height (Nd l a b r)"
    by blast+
qed

lemma shrunk:
  assumes t: "balanced (Nd l' a (b + (height r' - height r) - (height l' - height l)) r') t'" and b: "b = height r - height l" "\<bar>b\<bar> \<le> 1"
    and d: "height l' - height l = d \<and> height r' = height r \<or> height r' - height r = d \<and> height l' = height l" "d = 0 \<or> d = -1"
  shows "(if b \<noteq> 0 \<and> tbal t' = 0 then -1 else 0) = height t' - height (Nd l a b r)"
proof -
  let ?g = "(if b \<noteq> 0 \<and> tbal t' = 0 then -1 else 0) = height t' - height (Nd l a b r)"
  let ?u = "Nd l' a (b + (height r' - height r) - (height l' - height l)) r'"
  have T: "tbal t' = (if \<bar>tbal ?u\<bar> \<le> 1 then tbal ?u else if heavy ?u = 0 then - sgn (tbal ?u) else 0)"
    "height t' = (if \<bar>tbal ?u\<bar> \<le> 1 \<or> heavy ?u = 0 then height ?u else height ?u - 1)" using t by (simp_all add: balanced_def)
  have bb: "b = -1 \<or> b = 0 \<or> b = 1" using b(2) by linarith
  show ?g
    using d(1)
  proof
    assume D: "height l' - height l = d \<and> height r' = height r"
    then have e: "height l' = height l + d" "height r' = height r" "height r = height l + b" using b by auto
    show ?g using bb d(2) T unfolding e by (elim disjE) (simp_all add: e heavy_def)
  next
    assume D: "height r' - height r = d \<and> height l' = height l"
    then have e: "height r' = height r + d" "height l' = height l" "height r = height l + b" using b by auto
    show ?g using bb d(2) T unfolding e by (elim disjE) (simp_all add: e heavy_def)
  qed
qed

text \<open>A node takes the place of another, with its children.\<close>

lemma replace_node:
  assumes l: "is_tree h ql (Some a) l" and r: "is_tree h qr (Some a) r" and d: "distinct (nodes l @ c # nodes r)"
    and n: "av_n (h c) False = ql" "av_n (h c) True = qr" "av_p (h c) = p" "av_bal (h c) = b"
  shows "became h (insert c (set (nodes l) \<union> set (nodes r))) (set_p qr (Some c) (set_p ql (Some c) h)) (Some c) p (Nd l c b r)"
proof -
  let ?h1 = "set_p ql (Some c) h" let ?h2 = "set_p qr (Some c) ?h1"
  have dl: "distinct (nodes l)" "distinct (nodes r)" using d by auto
  note L = is_tree_set_p [OF l dl(1), where p' = "Some c"]
  have r1: "is_tree ?h1 qr (Some a) r" using r by (rule is_tree_frame [THEN iffD2, rotated]) (use L(2) d in auto)
  note R = is_tree_set_p [OF r1 dl(2), where p' = "Some c"]
  have "is_tree ?h2 ql (Some c) l" using L(1) by (rule is_tree_frame [THEN iffD2, rotated]) (use R(2) d in auto)
  moreover have "?h2 c = h c" using L(2) [of c] R(2) [of c] d by auto
  ultimately show ?thesis using R(1) L(2) R(2) n by (simp add: became_def)
qed

lemma insertavl1_tree:
  assumes o: "orders cmp key"
  shows "is_tree h q p t \<Longrightarrow> avl t \<Longrightarrow> ascending key (nodes t) \<Longrightarrow> r \<notin> set (nodes t) \<Longrightarrow>
    \<exists>d c h' t'. insertavl1 cmp q p r h = Some (d, Some c, h', same_key key r (nodes t)) \<and>
      became h (insert r (set (nodes t))) h' (Some c) p t' \<and> avl t' \<and> nodes t' = put_node key r (nodes t) \<and>
      d = height t' - height t \<and> (d = 0 \<or> d = 1 \<and> (t = Tip \<or> tbal t' \<noteq> 0))"
proof (induction t arbitrary: h q p)
  case Tip
  then show ?case
    by (subst insertavl1.simps) (auto simp: same_key_def put_node_def became_def intro!: exI [of _ "Nd Tip r 0 Tip"])
next
  case (Nd l a b rt)
  note t = Nd.prems(1)
  have v: "avl l" "avl rt" "b = height rt - height l" "\<bar>b\<bar> \<le> 1" using Nd.prems(2) by auto
  have s: "ascending key (nodes l)" "ascending key (nodes rt)" using Nd.prems(3) by (simp_all add: ascending_app)
  have dd: "distinct (nodes (Nd l a b rt))" using Nd.prems(3) ascending_distinct by blast
  have q: "q = Some a" "av_bal (h a) = b" and tl: "is_tree h (av_n (h a) False) (Some a) l" "is_tree h (av_n (h a) True) (Some a) rt"
    using t by simp_all
  have fr: "r \<noteq> a" "r \<notin> set (nodes l)" "r \<notin> set (nodes rt)" using Nd.prems(4) by auto
  note sk = same_key_split [OF Nd.prems(3) [simplified], of r]
  consider (lt) "key r < key a" | (gt) "key a < key r" | (eq) "key a = key r" by fastforce
  then show ?case
  proof cases
    case lt
    obtain d c h1 k where k: "insertavl1 cmp (av_n (h a) False) (Some a) r h = Some (d, Some c, h1, same_key key r (nodes l))"
      "became h (insert r (set (nodes l))) h1 (Some c) (Some a) k" "avl k" "nodes k = put_node key r (nodes l)" "d = height k - height l"
      "d = 0 \<or> d = 1 \<and> (l = Tip \<or> tbal k \<noteq> 0)" using Nd.IH(1) [OF tl(1) v(1) s(1) fr(2)] by blast
    have ns: "nodes (Nd k a b rt) = put_node key r (nodes (Nd l a b rt))" using lt k(4) by (simp add: put_node_left)
    have d: "distinct (nodes (Nd k a (b - d) rt))" using ascending_distinct [OF ascending_put [OF Nd.prems(3)], of r] ns by simp
    have sub: "set (nodes k) \<subseteq> insert r (set (nodes l))" using k(4) set_put_node(1) [of key r] by simp
    obtain c2 h2 t' where b: "balance (Some a) p (set_bal a (b - d) (set_n a False (Some c) h1)) = Some (Some c2, h2)"
      "became h (insert r (set (nodes (Nd l a b rt)))) h2 (Some c2) p t'" "balanced (Nd k a (b - d) rt) t'" "av_bal (h2 c2) = tbal t'"
      using rebalance_left [OF t k(2) _ _ _ d k(3) v(2), of "insert r (set (nodes (Nd l a b rt)))"] dd fr sub k(5,6) v(3,4) by fastforce
    have "av_bal (set_n a False (Some c) h1 a) = b" using becameD(2) [OF k(2), of a] fr dd q(2) by (simp add: set_n_def)
    then have run: "insertavl1 cmp q p r h =
        Some (if b = 0 \<and> tbal t' \<noteq> 0 then 1 else 0, Some c2, h2, same_key key r (nodes (Nd l a b rt)))"
      using q lt k(1) b(1,4) sk by (subst insertavl1.simps) (simp add: canon [OF o] Let_def)
    have n: "nodes t' = put_node key r (nodes (Nd l a b rt))" "avl t'" using b(3) ns by (simp_all add: balanced_def)
    have g: "balanced (Nd k a (b + (height rt - height rt) - (height k - height l)) rt) t'" using b(3) k(5) by simp
    have hv: "tbal k \<noteq> 0" if "d = 1" "b = -1" using k(6) v(3) that height_ge0 [of rt] by auto
    have dd2: "d = 0 \<or> d = 1" using k(6) by blast
    have H: "(if b = 0 \<and> tbal t' \<noteq> 0 then 1 else 0) = height t' - height (Nd l a b rt)"
      by (rule grown(1) [OF g v(3,4), of d]) (use k(5) dd2 hv in auto)
    let ?g = "if b = 0 \<and> tbal t' \<noteq> 0 then 1 else 0 :: int"
    have "?g = 0 \<or> ?g = 1 \<and> (Nd l a b rt = Tip \<or> tbal t' \<noteq> 0)" by simp
    then show ?thesis using run b(2) n H(1) by (intro exI [of _ ?g] exI [of _ c2] exI [of _ h2] exI [of _ t'] conjI) assumption+
  next
    case gt
    obtain d c h1 k where k: "insertavl1 cmp (av_n (h a) True) (Some a) r h = Some (d, Some c, h1, same_key key r (nodes rt))"
      "became h (insert r (set (nodes rt))) h1 (Some c) (Some a) k" "avl k" "nodes k = put_node key r (nodes rt)" "d = height k - height rt"
      "d = 0 \<or> d = 1 \<and> (rt = Tip \<or> tbal k \<noteq> 0)" using Nd.IH(2) [OF tl(2) v(2) s(2) fr(3)] by blast
    have ns: "nodes (Nd l a b k) = put_node key r (nodes (Nd l a b rt))" using gt k(4) Nd.prems(3) by (simp add: put_node_right)
    have d: "distinct (nodes (Nd l a (b + d) k))" using ascending_distinct [OF ascending_put [OF Nd.prems(3)], of r] ns by simp
    have sub: "set (nodes k) \<subseteq> insert r (set (nodes rt))" using k(4) set_put_node(1) [of key r] by simp
    obtain c2 h2 t' where b: "balance (Some a) p (set_bal a (b + d) (set_n a True (Some c) h1)) = Some (Some c2, h2)"
      "became h (insert r (set (nodes (Nd l a b rt)))) h2 (Some c2) p t'" "balanced (Nd l a (b + d) k) t'" "av_bal (h2 c2) = tbal t'"
      using rebalance_right [OF t k(2) _ _ _ d v(1) k(3), of "insert r (set (nodes (Nd l a b rt)))"] dd fr sub k(5,6) v(3,4) by fastforce
    have "av_bal (set_n a True (Some c) h1 a) = b" using becameD(2) [OF k(2), of a] fr dd q(2) by (simp add: set_n_def)
    then have run: "insertavl1 cmp q p r h =
        Some (if b = 0 \<and> tbal t' \<noteq> 0 then 1 else 0, Some c2, h2, same_key key r (nodes (Nd l a b rt)))"
      using q gt k(1) b(1,4) sk less_not_sym [OF gt] by (subst insertavl1.simps) (simp add: canon [OF o] Let_def)
    have n: "nodes t' = put_node key r (nodes (Nd l a b rt))" "avl t'" using b(3) ns by (simp_all add: balanced_def)
    have g: "balanced (Nd l a (b + (height k - height rt) - (height l - height l)) k) t'" using b(3) k(5) by simp
    have hv: "tbal k \<noteq> 0" if "d = 1" "b = 1" using k(6) v(3) that height_ge0 [of l] by auto
    have dd2: "d = 0 \<or> d = 1" using k(6) by blast
    have H: "(if b = 0 \<and> tbal t' \<noteq> 0 then 1 else 0) = height t' - height (Nd l a b rt)"
      by (rule grown(1) [OF g v(3,4), of d]) (use k(5) dd2 hv in auto)
    let ?g = "if b = 0 \<and> tbal t' \<noteq> 0 then 1 else 0 :: int"
    have "?g = 0 \<or> ?g = 1 \<and> (Nd l a b rt = Tip \<or> tbal t' \<noteq> 0)" by simp
    then show ?thesis using run b(2) n H(1) by (intro exI [of _ ?g] exI [of _ c2] exI [of _ h2] exI [of _ t'] conjI) assumption+
  next
    case eq
    have e: "av_n ((h(r := h a)) r) False = av_n (h a) False" "av_n ((h(r := h a)) r) True = av_n (h a) True"
      "av_p ((h(r := h a)) r) = p" "av_bal ((h(r := h a)) r) = b" using t by simp_all
    have fresh: "is_tree (h(r := h a)) u v s = is_tree h u v s" if "r \<notin> set (nodes s)" for u v s
      by (rule is_tree_frame) (use that in auto)
    have tr: "is_tree (h(r := h a)) (av_n (h a) False) (Some a) l" "is_tree (h(r := h a)) (av_n (h a) True) (Some a) rt"
      using tl fr fresh by simp_all
    let ?h = "set_p (av_n (h a) True) (Some r) (set_p (av_n (h a) False) (Some r) (h(r := h a)))"
    have "distinct (nodes l @ r # nodes rt)" using dd fr by auto
    then have b: "became (h(r := h a)) (insert r (set (nodes l) \<union> set (nodes rt))) ?h (Some r) p (Nd l r b rt)"
      by (rule replace_node [OF tr _ e])
    then have b2: "became h (insert r (set (nodes (Nd l a b rt)))) ?h (Some r) p (Nd l r b rt)" by (auto simp: became_def)
    have ce: "canoncmp (cmp r a) = 0" using eq by (simp add: canon [OF o])
    have hr: "av_n (set_p (av_n (h a) False) (Some r) (h(r := h a)) r) True = av_n (h a) True"
      by (simp add: set_p_def split: option.split)
    have run: "insertavl1 cmp q p r h = Some (0, Some r, ?h, same_key key r (nodes (Nd l a b rt)))"
      using q ce hr sk eq by (subst insertavl1.simps) (simp add: Let_def)
    have n: "nodes (Nd l r b rt) = put_node key r (nodes (Nd l a b rt))" using put_node_same [OF eq, of "nodes l" "nodes rt"] Nd.prems(3) by simp
    have "avl (Nd l r b rt)" "(0::int) = height (Nd l r b rt) - height (Nd l a b rt)" using Nd.prems(2) by auto
    then show ?thesis using run b2 n by blast
  qed
qed

text \<open>The first node of a tree is taken out.\<close>

lemma successor_tree:
  "is_tree h q p t \<Longrightarrow> t \<noteq> Tip \<Longrightarrow> avl t \<Longrightarrow> distinct (nodes t) \<Longrightarrow>
    \<exists>d q' h' r t'. successor q p h = Some (d, q', h', r) \<and> became h (set (nodes t)) h' q' p t' \<and> avl t' \<and> nodes t = r # nodes t' \<and>
      d = height t' - height t \<and> (d = 0 \<or> d = -1)"
proof (induction t arbitrary: h q p)
  case (Nd l a b rt)
  note t = Nd.prems(1)
  have v: "avl l" "avl rt" "b = height rt - height l" "\<bar>b\<bar> \<le> 1" using Nd.prems(3) by auto
  have q: "q = Some a" "av_bal (h a) = b" and tl: "is_tree h (av_n (h a) False) (Some a) l" "is_tree h (av_n (h a) True) (Some a) rt"
    using t by simp_all
  show ?case
  proof (cases l)
    case Tip
    then have ql: "av_n (h a) False = None" using tl(1) by simp
    have "distinct (nodes rt)" using Nd.prems(4) by simp
    note R = is_tree_set_p [OF tl(2) this, where p' = p]
    have "successor q p h = Some (-1, av_n (h a) True, set_p (av_n (h a) True) p h, a)"
      using q ql by (subst successor.simps) (simp add: Let_def)
    moreover have "became h (set (nodes (Nd l a b rt))) (set_p (av_n (h a) True) p h) (av_n (h a) True) p rt"
      using R by (simp add: became_def)
    moreover have "(-1::int) = height rt - height (Nd l a b rt)" using Tip height_ge0 [of rt] by simp
    ultimately show ?thesis using Tip v(2) by fastforce
  next
    case (Nd ll x lb lr)
    then have ql: "av_n (h a) False = Some x" and ne: "l \<noteq> Tip" using tl(1) by simp_all
    have dl: "distinct (nodes l)" using Nd.prems(4) by simp
    obtain d q1 h1 r k where k: "successor (av_n (h a) False) (Some a) h = Some (d, q1, h1, r)" "became h (set (nodes l)) h1 q1 (Some a) k"
      "avl k" "nodes l = r # nodes k" "d = height k - height l" "d = 0 \<or> d = -1" using Nd.IH(1) [OF tl(1) ne v(1) dl] by blast
    have d: "distinct (nodes (Nd k a (b - d) rt))" using Nd.prems(4) k(4) by auto
    obtain c2 h2 t' where b: "balance (Some a) p (set_bal a (b - d) (set_n a False q1 h1)) = Some (Some c2, h2)"
      "became h (set (nodes (Nd l a b rt))) h2 (Some c2) p t'" "balanced (Nd k a (b - d) rt) t'" "av_bal (h2 c2) = tbal t'"
      using rebalance_left [OF t k(2) _ _ _ d k(3) v(2), of "set (nodes (Nd l a b rt))"] Nd.prems(4) k(4-6) v(3,4) by fastforce
    have "av_bal (set_n a False q1 h1 a) = b" using becameD(2) [OF k(2), of a] Nd.prems(4) q(2) by (simp add: set_n_def)
    then have run: "successor q p h = Some (if b \<noteq> 0 \<and> tbal t' = 0 then -1 else 0, Some c2, h2, r)"
      using q ql k(1) b(1,4) by (subst successor.simps) (simp add: Let_def)
    have g: "balanced (Nd k a (b + (height rt - height rt) - (height k - height l)) rt) t'" using b(3) k(5) by simp
    have H: "(if b \<noteq> 0 \<and> tbal t' = 0 then -1 else 0) = height t' - height (Nd l a b rt)"
      by (rule shrunk [OF g v(3,4), of d]) (use k(5,6) in auto)
    have n: "nodes (Nd l a b rt) = r # nodes t'" "avl t'" using b(3) k(4) by (simp_all add: balanced_def)
    let ?g = "if b \<noteq> 0 \<and> tbal t' = 0 then -1 else 0 :: int"
    have "?g = 0 \<or> ?g = -1" by simp
    then show ?thesis using run b(2) n H
      by (intro exI [of _ ?g] exI [of _ "Some c2"] exI [of _ h2] exI [of _ r] exI [of _ t'] conjI) assumption+
  qed
qed simp

definition cut_node :: "(nat \<Rightarrow> 'k::linorder) \<Rightarrow> nat \<Rightarrow> nat list \<Rightarrow> nat list" where
  "cut_node key r xs = filter (\<lambda>x. key x \<noteq> key r) xs"

lemma cut_node_split:
  assumes "ascending key (xs @ a # ys)"
  shows "cut_node key r (xs @ a # ys) =
    (if key r < key a then cut_node key r xs @ a # ys else if key a < key r then xs @ a # cut_node key r ys else xs @ ys)"
proof -
  have a: "\<And>x. x \<in> set xs \<Longrightarrow> key x < key a" "\<And>y. y \<in> set ys \<Longrightarrow> key a < key y" using assms by (auto simp: ascending_app)
  have "filter (\<lambda>x. key x \<noteq> key r) ys = ys" if "key r \<le> key a" using a(2) that by (intro filter_True) fastforce
  moreover have "filter (\<lambda>x. key x \<noteq> key r) xs = xs" if "key a \<le> key r" using a(1) that by (intro filter_True) fastforce
  ultimately show ?thesis by (auto simp: cut_node_def)
qed

lemma set_cut_node: "set (cut_node key r xs) \<subseteq> set xs" "distinct xs \<Longrightarrow> distinct (cut_node key r xs)"
  by (auto simp: cut_node_def)

lemma av_n_set_p [simp]: "av_n (set_p x p h y) = av_n (h y)"
  by (simp add: set_p_def split: option.split)

text \<open>The node is replaced by the first one on its right.\<close>

lemma replaced_by_successor:
  assumes t: "is_tree h q p (Nd l a b rt)" and d: "distinct (nodes (Nd l a b rt))" and k: "became h (set (nodes rt)) h1 q1 (Some a) k"
    and n: "nodes rt = r # nodes k"
    and h3: "h3 = set_p (Some r) p (set_n r True q1 (set_n r False (av_n (h a) False) (set_bal r b' (set_bal a b' (set_n a True q1 h1)))))"
  shows "became h (set (nodes (Nd l a b rt))) (set_p q1 (Some r) (set_p (av_n (h a) False) (Some r) h3)) (Some r) p (Nd l r b' k)"
    and "av_n (h3 r) False = av_n (h a) False" "av_n (h3 r) True = q1"
proof -
  have tl: "is_tree h (av_n (h a) False) (Some a) l" using t by simp
  have o: "h3 x = h1 x" if "x \<noteq> a" "x \<noteq> r" for x using that by (simp add: h3 sets)
  have hl: "h3 x = h x" if x: "x \<in> set (nodes l)" for x
  proof -
    have "x \<noteq> a" "x \<noteq> r" "x \<notin> set (nodes rt)" using x d n by auto
    then show ?thesis using o becameD(2) [OF k] by simp
  qed
  have hk: "h3 x = h1 x" if x: "x \<in> set (nodes k)" for x
  proof -
    have "x \<noteq> a" "x \<noteq> r" using x d n by auto
    then show ?thesis by (rule o)
  qed
  have "is_tree h3 (av_n (h a) False) (Some a) l" using tl by (rule is_tree_frame [THEN iffD2, rotated]) (rule hl)
  moreover have "is_tree h3 q1 (Some a) k" using becameD(1) [OF k] by (rule is_tree_frame [THEN iffD2, rotated]) (rule hk)
  moreover have dd: "distinct (nodes l @ r # nodes k)" using d n by auto
  moreover show e: "av_n (h3 r) False = av_n (h a) False" "av_n (h3 r) True = q1" by (simp_all add: h3 set_n_def)
  moreover have "av_p (h3 r) = p" "av_bal (h3 r) = b'" by (simp_all add: h3 sets)
  ultimately have b: "became h3 (insert r (set (nodes l) \<union> set (nodes k))) (set_p q1 (Some r) (set_p (av_n (h a) False) (Some r) h3)) (Some r) p (Nd l r b' k)"
    by (rule replace_node)
  have "h3 x = h x" if "x \<notin> set (nodes (Nd l a b rt))" for x using o [of x] becameD(2) [OF k, of x] that n by auto
  then show "became h (set (nodes (Nd l a b rt))) (set_p q1 (Some r) (set_p (av_n (h a) False) (Some r) h3)) (Some r) p (Nd l r b' k)"
    using b n by (auto simp: became_def)
qed


lemma deleteavl1_tree:
  assumes o: "orders cmp key"
  shows "is_tree h q p t \<Longrightarrow> avl t \<Longrightarrow> ascending key (nodes t) \<Longrightarrow>
    (case same_key key r (nodes t) of None \<Rightarrow> Some w | Some a \<Rightarrow> (case predel of None \<Rightarrow> Some w | Some f \<Rightarrow> f a h w)) = Some w' \<Longrightarrow>
    \<exists>d q' h' t'. deleteavl1 cmp predel q p r h w = Some (d, q', h', same_key key r (nodes t), w') \<and>
      became h (set (nodes t)) h' q' p t' \<and> avl t' \<and> nodes t' = cut_node key r (nodes t) \<and> d = height t' - height t \<and> (d = 0 \<or> d = -1)"
proof (induction t arbitrary: q p)
  case Tip
  then show ?case by (subst deleteavl1.simps) (auto simp: same_key_def cut_node_def became_def intro!: exI [of _ Tip])
next
  case (Nd l a b rt)
  note t = Nd.prems(1)
  have v: "avl l" "avl rt" "b = height rt - height l" "\<bar>b\<bar> \<le> 1" using Nd.prems(2) by auto
  have s: "ascending key (nodes l)" "ascending key (nodes rt)" using Nd.prems(3) by (simp_all add: ascending_app)
  have dd: "distinct (nodes (Nd l a b rt))" using Nd.prems(3) ascending_distinct by blast
  have q: "q = Some a" "av_bal (h a) = b" and tl: "is_tree h (av_n (h a) False) (Some a) l" "is_tree h (av_n (h a) True) (Some a) rt"
    using t by simp_all
  have sk: "same_key key r (nodes (Nd l a b rt)) = (if key r < key a then same_key key r (nodes l) else if key a < key r then same_key key r (nodes rt) else Some a)"
    using same_key_split [OF Nd.prems(3) [simplified], of r] by simp
  have ck: "cut_node key r (nodes (Nd l a b rt)) =
    (if key r < key a then cut_node key r (nodes l) @ a # nodes rt else if key a < key r then nodes l @ a # cut_node key r (nodes rt) else nodes l @ nodes rt)"
    using cut_node_split [OF Nd.prems(3) [simplified], of r] by simp
  note pd = Nd.prems(4) [unfolded sk]
  consider (lt) "key r < key a" | (gt) "key a < key r" | (eq) "key a = key r" by fastforce
  then show ?case
  proof cases
    case lt
    obtain d q1 h1 k where k: "deleteavl1 cmp predel (av_n (h a) False) (Some a) r h w = Some (d, q1, h1, same_key key r (nodes l), w')"
      "became h (set (nodes l)) h1 q1 (Some a) k" "avl k" "nodes k = cut_node key r (nodes l)" "d = height k - height l" "d = 0 \<or> d = -1"
      using Nd.IH(1) [OF tl(1) v(1) s(1)] pd lt by auto
    have sub: "set (nodes k) \<subseteq> set (nodes l)" "distinct (nodes k)" using k(4) set_cut_node [where key = key and r = r] dd by simp_all
    have d: "distinct (nodes (Nd k a (b - d) rt))" using dd sub by auto
    obtain c2 h2 t' where b: "balance (Some a) p (set_bal a (b - d) (set_n a False q1 h1)) = Some (Some c2, h2)"
      "became h (set (nodes (Nd l a b rt))) h2 (Some c2) p t'" "balanced (Nd k a (b - d) rt) t'" "av_bal (h2 c2) = tbal t'"
      using rebalance_left [OF t k(2) _ _ _ d k(3) v(2), of "set (nodes (Nd l a b rt))"] dd sub k(5,6) v(3,4) by fastforce
    have "av_bal (set_n a False q1 h1 a) = b" using becameD(2) [OF k(2), of a] dd q(2) by (simp add: set_n_def)
    then have run: "deleteavl1 cmp predel q p r h w =
        Some (if b \<noteq> 0 \<and> tbal t' = 0 then -1 else 0, Some c2, h2, same_key key r (nodes (Nd l a b rt)), w')"
      using q lt k(1) b(1,4) sk by (subst deleteavl1.simps) (simp add: canon [OF o] Let_def)
    have n: "nodes t' = cut_node key r (nodes (Nd l a b rt))" "avl t'" using b(3) k(4) lt ck by (simp_all add: balanced_def)
    have g: "balanced (Nd k a (b + (height rt - height rt) - (height k - height l)) rt) t'" using b(3) k(5) by simp
    have H: "(if b \<noteq> 0 \<and> tbal t' = 0 then -1 else 0) = height t' - height (Nd l a b rt)"
      by (rule shrunk [OF g v(3,4), of d]) (use k(5,6) in auto)
    let ?g = "if b \<noteq> 0 \<and> tbal t' = 0 then -1 else 0 :: int"
    have "?g = 0 \<or> ?g = -1" by simp
    then show ?thesis using run b(2) n H
      by (intro exI [of _ ?g] exI [of _ "Some c2"] exI [of _ h2] exI [of _ t'] conjI) assumption+
  next
    case gt
    obtain d q1 h1 k where k: "deleteavl1 cmp predel (av_n (h a) True) (Some a) r h w = Some (d, q1, h1, same_key key r (nodes rt), w')"
      "became h (set (nodes rt)) h1 q1 (Some a) k" "avl k" "nodes k = cut_node key r (nodes rt)" "d = height k - height rt" "d = 0 \<or> d = -1"
      using Nd.IH(2) [OF tl(2) v(2) s(2)] pd gt less_not_sym [OF gt] by auto
    have sub: "set (nodes k) \<subseteq> set (nodes rt)" "distinct (nodes k)" using k(4) set_cut_node [where key = key and r = r] dd by simp_all
    have d: "distinct (nodes (Nd l a (b + d) k))" using dd sub by auto
    obtain c2 h2 t' where b: "balance (Some a) p (set_bal a (b + d) (set_n a True q1 h1)) = Some (Some c2, h2)"
      "became h (set (nodes (Nd l a b rt))) h2 (Some c2) p t'" "balanced (Nd l a (b + d) k) t'" "av_bal (h2 c2) = tbal t'"
      using rebalance_right [OF t k(2) _ _ _ d v(1) k(3), of "set (nodes (Nd l a b rt))"] dd sub k(5,6) v(3,4) by fastforce
    have "av_bal (set_n a True q1 h1 a) = b" using becameD(2) [OF k(2), of a] dd q(2) by (simp add: set_n_def)
    then have run: "deleteavl1 cmp predel q p r h w =
        Some (if b \<noteq> 0 \<and> tbal t' = 0 then -1 else 0, Some c2, h2, same_key key r (nodes (Nd l a b rt)), w')"
      using q gt less_not_sym [OF gt] k(1) b(1,4) sk by (subst deleteavl1.simps) (simp add: canon [OF o] Let_def)
    have n: "nodes t' = cut_node key r (nodes (Nd l a b rt))" "avl t'" using b(3) k(4) gt less_not_sym [OF gt] ck by (simp_all add: balanced_def)
    have g: "balanced (Nd l a (b + (height k - height rt) - (height l - height l)) k) t'" using b(3) k(5) by simp
    have H: "(if b \<noteq> 0 \<and> tbal t' = 0 then -1 else 0) = height t' - height (Nd l a b rt)"
      by (rule shrunk [OF g v(3,4), of d]) (use k(5,6) in auto)
    let ?g = "if b \<noteq> 0 \<and> tbal t' = 0 then -1 else 0 :: int"
    have "?g = 0 \<or> ?g = -1" by simp
    then show ?thesis using run b(2) n H
      by (intro exI [of _ ?g] exI [of _ "Some c2"] exI [of _ h2] exI [of _ t'] conjI) assumption+
  next
    case eq
    have ce: "canoncmp (cmp r a) = 0" using eq by (simp add: canon [OF o])
    have w: "(case predel of None \<Rightarrow> Some w | Some f \<Rightarrow> f a h w) = Some w'" using pd eq by simp
    have sk': "same_key key r (nodes (Nd l a b rt)) = Some a" using sk eq by simp
    have ck': "cut_node key r (nodes (Nd l a b rt)) = nodes l @ nodes rt" using ck eq by simp
    have nl: "av_n (h a) False = None \<longleftrightarrow> l = Tip" "av_n (h a) True = None \<longleftrightarrow> rt = Tip"
      using is_tree_root [OF tl(1)] is_tree_root [OF tl(2)] by (auto split: atree.splits)
    have ds: "distinct (nodes l)" "distinct (nodes rt)" using dd by simp_all
    consider (r) "l = Tip" | (l) "l \<noteq> Tip" "rt = Tip" | (both) "l \<noteq> Tip" "rt \<noteq> Tip" by blast
    then show ?thesis
    proof cases
      case r
      note R = is_tree_set_p [OF tl(2) ds(2), where p' = p]
      have "deleteavl1 cmp predel q p r h w = Some (-1, av_n (h a) True, set_p (av_n (h a) True) p h, same_key key r (nodes (Nd l a b rt)), w')"
        unfolding sk' using q ce w nl r by (subst deleteavl1.simps) (simp add: Let_def)
      moreover have "became h (set (nodes (Nd l a b rt))) (set_p (av_n (h a) True) p h) (av_n (h a) True) p rt"
        using R by (simp add: became_def)
      moreover have "(-1::int) = height rt - height (Nd l a b rt)" using r height_ge0 [of rt] by simp
      moreover have "nodes rt = cut_node key r (nodes (Nd l a b rt))" using ck' r by simp
      moreover have "(-1::int) = 0 \<or> (-1::int) = -1" by simp
      ultimately show ?thesis using v(2)
        by (intro exI [of _ "-1"] exI [of _ "av_n (h a) True"] exI [of _ "set_p (av_n (h a) True) p h"] exI [of _ rt] conjI) assumption+
    next
      case l
      note L = is_tree_set_p [OF tl(1) ds(1), where p' = p]
      have "deleteavl1 cmp predel q p r h w = Some (-1, av_n (h a) False, set_p (av_n (h a) False) p h, same_key key r (nodes (Nd l a b rt)), w')"
        unfolding sk' using q ce w nl l by (subst deleteavl1.simps) (simp add: Let_def)
      moreover have "became h (set (nodes (Nd l a b rt))) (set_p (av_n (h a) False) p h) (av_n (h a) False) p l"
        using L by (simp add: became_def)
      moreover have "(-1::int) = height l - height (Nd l a b rt)" using l height_ge0 [of l] by simp
      moreover have "nodes l = cut_node key r (nodes (Nd l a b rt))" using ck' l by simp
      moreover have "(-1::int) = 0 \<or> (-1::int) = -1" by simp
      ultimately show ?thesis using v(1)
        by (intro exI [of _ "-1"] exI [of _ "av_n (h a) False"] exI [of _ "set_p (av_n (h a) False) p h"] exI [of _ l] conjI) assumption+
    next
      case both
      obtain d q1 h1 x k where k: "successor (av_n (h a) True) (Some a) h = Some (d, q1, h1, x)" "became h (set (nodes rt)) h1 q1 (Some a) k"
        "avl k" "nodes rt = x # nodes k" "d = height k - height rt" "d = 0 \<or> d = -1" using successor_tree [OF tl(2) both(2) v(2) ds(2)] by blast
      let ?h3 = "set_p (Some x) p (set_n x True q1 (set_n x False (av_n (h a) False) (set_bal x (b + d) (set_bal a (b + d) (set_n a True q1 h1)))))"
      let ?h4 = "set_p q1 (Some x) (set_p (av_n (h a) False) (Some x) ?h3)"
      note R = replaced_by_successor [OF t dd k(2,4) refl, of "b + d"]
      have d2: "distinct (nodes (Nd l x (b + d) k))" using dd k(4) by auto
      have bd: "b + d = height k - height l" "\<bar>b + d\<bar> \<le> 2" using v(3,4) k(5,6) by auto
      from balance_tree [OF becameD(1) [OF R(1)] d2 v(1) k(3) bd] obtain h5 c2 t' where
        bl: "balance (Some x) p ?h4 = Some (Some c2, h5)" "became ?h4 (set (nodes (Nd l x (b + d) k))) h5 (Some c2) p t'"
          "balanced (Nd l x (b + d) k) t'" by blast
      have bb: "became h (set (nodes (Nd l a b rt))) h5 (Some c2) p t'" by (rule became_trans [OF R(1) bl(2)]) (use k(4) in auto)
      have tb: "av_bal (h5 c2) = tbal t'" using becameD(1) [OF bl(2)] by (cases t') auto
      have xa: "x \<noteq> a" using dd k(4) by auto
      have h1a: "h1 a = h a" using becameD(2) [OF k(2), of a] dd by simp
      have run: "deleteavl1 cmp predel q p r h w = Some (if b \<noteq> 0 \<and> tbal t' = 0 then -1 else 0, Some c2, h5, same_key key r (nodes (Nd l a b rt)), w')"
      proof -
        have e: "set_n x True (av_n (set_n x False (av_n (set_bal x (av_bal (set_bal a (b + d) (set_n a True q1 h1) a)) (set_bal a (b + d) (set_n a True q1 h1)) a) False)
            (set_bal x (av_bal (set_bal a (b + d) (set_n a True q1 h1) a)) (set_bal a (b + d) (set_n a True q1 h1))) a) True)
            (set_n x False (av_n (set_bal x (av_bal (set_bal a (b + d) (set_n a True q1 h1) a)) (set_bal a (b + d) (set_n a True q1 h1)) a) False)
            (set_bal x (av_bal (set_bal a (b + d) (set_n a True q1 h1) a)) (set_bal a (b + d) (set_n a True q1 h1)))) =
          set_n x True q1 (set_n x False (av_n (h a) False) (set_bal x (b + d) (set_bal a (b + d) (set_n a True q1 h1))))"
          using xa h1a by (simp add: set_n_def set_bal_def)
        have "av_bal (set_n a True q1 h1 a) = b" using h1a q(2) by (simp add: set_n_def)
        moreover obtain u where u: "av_n (h a) False = Some u" using nl both by auto
        moreover obtain z where z: "av_n (h a) True = Some z" using nl both by auto
        ultimately show ?thesis using q ce w k(1) bl(1) tb R(2,3) sk' by (subst deleteavl1.simps) (simp add: Let_def e [unfolded u])
      qed
      have n: "nodes t' = cut_node key r (nodes (Nd l a b rt))" "avl t'" using bl(3) k(4) ck' by (simp_all add: balanced_def)
      have g: "balanced (Nd l x (b + (height k - height rt) - (height l - height l)) k) t'" using bl(3) k(5) by simp
      have H: "(if b \<noteq> 0 \<and> tbal t' = 0 then -1 else 0) = height t' - height (Nd l x b rt)"
        by (rule shrunk [OF g v(3,4), of d]) (use k(5,6) in auto)
      let ?g = "if b \<noteq> 0 \<and> tbal t' = 0 then -1 else 0 :: int"
      have "?g = 0 \<or> ?g = -1" by simp
      moreover have "?g = height t' - height (Nd l a b rt)" using H by simp
      ultimately show ?thesis using run bb n
        by (intro exI [of _ ?g] exI [of _ "Some c2"] exI [of _ h5] exI [of _ t'] conjI) assumption+
    qed
  qed
qed

subsection \<open>Neighbours and search\<close>

partial_function (option) descend :: "bool \<Rightarrow> nat \<Rightarrow> aheap \<Rightarrow> nat option" where
  "descend i a h = (case av_n (h a) i of None \<Rightarrow> Some a | Some b \<Rightarrow> descend i b h)"

partial_function (option) climb :: "bool \<Rightarrow> nat \<Rightarrow> aheap \<Rightarrow> nat option option" where
  "climb i a h = (case av_p (h a) of None \<Rightarrow> Some None
     | Some p \<Rightarrow> if av_n (h p) i = Some a then climb i p h else Some (Some p))"

definition findpredecessor :: "nat option \<Rightarrow> aheap \<Rightarrow> nat option option" where
  "findpredecessor a h = (case a of None \<Rightarrow> Some None
     | Some a \<Rightarrow> (case av_n (h a) False of Some l \<Rightarrow> map_option Some (descend True l h) | None \<Rightarrow> climb False a h))"

definition findsuccessor :: "nat option \<Rightarrow> aheap \<Rightarrow> nat option option" where
  "findsuccessor a h = (case a of None \<Rightarrow> Some None
     | Some a \<Rightarrow> (case av_n (h a) True of Some r \<Rightarrow> map_option Some (descend False r h) | None \<Rightarrow> climb True a h))"

text \<open>The loop of \<open>_lookupavl\<close>, which asserts the parent pointers: the node, or where the search fell off, and the last comparison.\<close>

partial_function (option) lookup_loop :: "acmp \<Rightarrow> nat \<Rightarrow> nat option \<Rightarrow> nat \<Rightarrow> aheap \<Rightarrow> (nat + nat \<times> int) option" where
  "lookup_loop cmp t p r h =
     (if av_p (h t) \<noteq> p then None
      else let i = canoncmp (cmp r t) in
        if i = 0 then Some (Inl t)
        else case av_n (h t) (i > 0) of None \<Rightarrow> Some (Inr (t, i)) | Some u \<Rightarrow> lookup_loop cmp u (Some t) r h)"

definition lookupavl1 :: "acmp \<Rightarrow> nat option \<Rightarrow> nat \<Rightarrow> int \<Rightarrow> aheap \<Rightarrow> nat option option" where
  "lookupavl1 cmp t r neighbor h = (case t of None \<Rightarrow> Some None
     | Some t \<Rightarrow> (case lookup_loop cmp t None r h of
         None \<Rightarrow> None
       | Some (Inl t) \<Rightarrow> Some (Some t)
       | Some (Inr (p, i)) \<Rightarrow>
           if neighbor = 0 then Some None
           else if neighbor < 0 then if i > 0 then Some (Some p) else findpredecessor (Some p) h
           else if i < 0 then Some (Some p) else findsuccessor (Some p) h))"

text \<open>The nodes in order, or in reverse order, and the next after one.\<close>

fun dnodes :: "bool \<Rightarrow> atree \<Rightarrow> nat list" where
  "dnodes i Tip = []"
| "dnodes i (Nd l a b r) = dnodes i (if i then l else r) @ a # dnodes i (if i then r else l)"

definition after :: "nat \<Rightarrow> nat list \<Rightarrow> nat list" where
  "after a xs = tl (dropWhile (\<lambda>x. x \<noteq> a) xs)"

definition first_of :: "nat list \<Rightarrow> nat option \<Rightarrow> nat option" where
  "first_of xs d = (case xs of [] \<Rightarrow> d | x # _ \<Rightarrow> Some x)"

lemma dnodes_nodes: "dnodes True t = nodes t" "dnodes False t = rev (nodes t)"
  by (induction t) auto

lemma set_dnodes [simp]: "set (dnodes i t) = set (nodes t)"
  by (cases i) (simp_all add: dnodes_nodes)

lemma after_at: "a \<notin> set us \<Longrightarrow> after a (us @ a # vs) = vs"
  by (induction us) (auto simp: after_def)

lemma after_in: "a \<in> set us \<Longrightarrow> after a (us @ vs) = after a us @ vs"
  by (induction us) (auto simp: after_def)

lemma after_past: "a \<notin> set us \<Longrightarrow> after a (us @ vs) = after a vs"
  by (induction us) (auto simp: after_def)

lemma first_of_app [simp]: "first_of (xs @ ys) d = first_of xs (first_of ys d)" "first_of [] d = d" "first_of (x # xs) d = Some x"
  by (cases xs; simp add: first_of_def)+

text \<open>The child on side \<open>i\<close>.\<close>

lemma is_tree_kid:
  assumes "is_tree h q p (Nd l a b r)"
  shows "is_tree h (av_n (h a) i) (Some a) (if i then r else l)"
  using assms by (cases i) auto

lemma descend_tree:
  "is_tree h (Some y) p t \<Longrightarrow> \<exists>z us. descend (\<not> i) y h = Some z \<and> dnodes i t = z # us"
proof (induction t arbitrary: y p)
  case (Nd l a b r)
  let ?k = "if i then l else r"
  have y: "y = a" using Nd.prems by simp
  note K = is_tree_kid [OF Nd.prems, of "\<not> i"]
  show ?case
  proof (cases "av_n (h a) (\<not> i)")
    case None
    then have "?k = Tip" using is_tree_root [OF K] by (auto split: atree.splits if_splits)
    then show ?thesis using None y by (subst descend.simps) auto
  next
    case (Some x)
    then have "is_tree h (Some x) (Some a) ?k" using K by (auto split: if_splits)
    then obtain z us where "descend (\<not> i) x h = Some z" "dnodes i ?k = z # us" using Nd.IH by (cases i) fastforce+
    then show ?thesis using Some y by (subst descend.simps) auto
  qed
qed simp

definition neighbour :: "bool \<Rightarrow> nat \<Rightarrow> aheap \<Rightarrow> nat option option" where
  "neighbour i a h = (case av_n (h a) i of Some r \<Rightarrow> map_option Some (descend (\<not> i) r h) | None \<Rightarrow> climb i a h)"

lemma find_neighbour: "findsuccessor (Some a) h = neighbour True a h" "findpredecessor (Some a) h = neighbour False a h"
  by (simp_all add: findsuccessor_def findpredecessor_def neighbour_def split: option.split)

lemma neighbour_tree:
  "is_tree h (Some x) p t \<Longrightarrow> distinct (nodes t) \<Longrightarrow> a \<in> set (nodes t) \<Longrightarrow> climb i x h = Some res \<Longrightarrow>
    neighbour i a h = Some (first_of (after a (dnodes i t)) res)"
proof (induction t arbitrary: x p res)
  case (Nd l c b r)
  let ?n = "if i then l else r" let ?f = "if i then r else l"
  have x: "x = c" using Nd.prems(1) by simp
  note F = is_tree_kid [OF Nd.prems(1), of i] and N = is_tree_kid [OF Nd.prems(1), of "\<not> i"]
  have N': "is_tree h (av_n (h c) (\<not> i)) (Some c) ?n" using N by (cases i) auto
  have ds: "distinct (nodes ?n)" "distinct (nodes ?f)" "c \<notin> set (nodes ?n)" "c \<notin> set (nodes ?f)" "set (nodes ?n) \<inter> set (nodes ?f) = {}"
    using Nd.prems(2) by auto
  have IH: "neighbour i a h = Some (first_of (after a (dnodes i s)) res')"
    if "s = ?n \<or> s = ?f" "is_tree h (Some y) (Some c) s" "a \<in> set (nodes s)" "climb i y h = Some res'" for s y res'
    using that Nd.IH ds by (cases i) auto
  consider (here) "a = c" | (near) "a \<in> set (nodes ?n)" "a \<noteq> c" "a \<notin> set (nodes ?f)" | (far) "a \<in> set (nodes ?f)" "a \<noteq> c" "a \<notin> set (nodes ?n)"
    using Nd.prems(3) ds by (cases i) auto
  then show ?case
  proof cases
    case here
    show ?thesis
    proof (cases "av_n (h c) i")
      case None
      then have "?f = Tip" using is_tree_root [OF F] by (auto split: atree.splits)
      then show ?thesis using here None x Nd.prems(4) ds by (auto simp: neighbour_def after_at)
    next
      case (Some y)
      then obtain z us where "descend (\<not> i) y h = Some z" "dnodes i ?f = z # us" using descend_tree [of h y "Some c" ?f i] F by auto
      then show ?thesis using here Some ds by (auto simp: neighbour_def after_at)
    qed
  next
    case near
    then obtain y where y: "av_n (h c) (\<not> i) = Some y" using N' by (cases ?n) auto
    have yn: "y \<in> set (nodes ?n)" using is_tree_root [OF N'] y by (auto split: atree.splits)
    have "av_n (h c) i \<noteq> Some y" using is_tree_root [OF F] yn ds(5) by (auto split: atree.splits)
    moreover have "av_p (h y) = Some c" using N' y by (cases ?n) auto
    ultimately have "climb i y h = Some (Some c)" by (subst climb.simps) simp
    then have "neighbour i a h = Some (first_of (after a (dnodes i ?n)) (Some c))" using IH [of ?n y] N' y near(1) by auto
    then show ?thesis using near by (simp add: after_in)
  next
    case far
    then obtain y where y: "av_n (h c) i = Some y" using F by (cases ?f) auto
    have "av_p (h y) = Some c" using F y by (cases ?f) auto
    then have "climb i y h = climb i c h" using y by (subst climb.simps) simp
    then have "neighbour i a h = Some (first_of (after a (dnodes i ?f)) res)" using IH [of ?f y res] F y far(1) Nd.prems(4) x by auto
    then show ?thesis using far after_past [of a "dnodes i ?n @ [c]" "dnodes i ?f"] by simp
  qed
qed simp

lemma find_in_tree:
  assumes "is_tree h q None t" "distinct (nodes t)" "a \<in> set (nodes t)"
  shows "findsuccessor (Some a) h = Some (first_of (after a (nodes t)) None)"
    "findpredecessor (Some a) h = Some (first_of (after a (rev (nodes t))) None)"
proof -
  obtain x where x: "q = Some x" "av_p (h x) = None" using assms(1,3) by (cases t) auto
  have "climb i x h = Some None" for i using x(2) by (subst climb.simps) simp
  then show "findsuccessor (Some a) h = Some (first_of (after a (nodes t)) None)"
    "findpredecessor (Some a) h = Some (first_of (after a (rev (nodes t))) None)"
    using neighbour_tree [OF assms(1) [unfolded x(1)] assms(2,3)] by (simp_all add: find_neighbour dnodes_nodes)
qed

lemma lookup_loop_tree:
  assumes o: "orders cmp key"
  shows "is_tree h (Some x) p t \<Longrightarrow> ascending key (nodes t) \<Longrightarrow>
    (case same_key key r (nodes t) of
       Some a \<Rightarrow> lookup_loop cmp x p r h = Some (Inl a)
     | None \<Rightarrow> \<exists>y i us vs. lookup_loop cmp x p r h = Some (Inr (y, i)) \<and> nodes t = us @ y # vs \<and>
         (i = -1 \<and> key r < key y \<and> (\<forall>u \<in> set us. key u < key r) \<or> i = 1 \<and> key y < key r \<and> (\<forall>v \<in> set vs. key r < key v)))"
proof (induction t arbitrary: x p)
  case (Nd l a b rt)
  have x: "x = a" "av_p (h a) = p" and tl: "is_tree h (av_n (h a) False) (Some a) l" "is_tree h (av_n (h a) True) (Some a) rt"
    using Nd.prems(1) by simp_all
  have s: "ascending key (nodes l)" "ascending key (nodes rt)" "\<forall>x \<in> set (nodes l). key x < key a" "\<forall>x \<in> set (nodes rt). key a < key x"
    using Nd.prems(2) by (simp_all add: ascending_app)
  note sk = same_key_split [OF Nd.prems(2) [simplified], of r]
  note c = canon [OF o, of r a]
  consider (lt) "key r < key a" | (gt) "key a < key r" | (eq) "key a = key r" by fastforce
  then show ?case
  proof cases
    case eq
    then show ?thesis using sk c x by (subst lookup_loop.simps) simp
  next
    case lt
    show ?thesis
    proof (cases "av_n (h a) False")
      case None
      then have l: "l = Tip" using is_tree_root [OF tl(1)] by (auto split: atree.splits)
      have "lookup_loop cmp x p r h = Some (Inr (a, -1))" using x c lt None by (subst lookup_loop.simps) simp
      moreover have "same_key key r (nodes (Nd l a b rt)) = None" using sk lt l by (simp add: same_key_def)
      ultimately show ?thesis using l lt
        by (simp only: option.case) (intro exI [of _ a] exI [of _ "-1"] exI [of _ "[]"] exI [of _ "nodes rt"], simp)
    next
      case (Some y)
      have run: "lookup_loop cmp x p r h = lookup_loop cmp y (Some a) r h" using x c lt Some by (subst lookup_loop.simps) simp
      note IH = Nd.IH(1) [OF tl(1) [unfolded Some] s(1)]
      show ?thesis
      proof (cases "same_key key r (nodes l)")
        case None
        then obtain z i us vs where z: "lookup_loop cmp y (Some a) r h = Some (Inr (z, i))" "nodes l = us @ z # vs"
          "i = -1 \<and> key r < key z \<and> (\<forall>u \<in> set us. key u < key r) \<or> i = 1 \<and> key z < key r \<and> (\<forall>v \<in> set vs. key r < key v)"
          using IH by auto
        have "nodes (Nd l a b rt) = us @ z # (vs @ a # nodes rt)" "\<forall>v \<in> set (a # nodes rt). key r < key v"
          using z(2) lt s(4) less_trans [OF lt] by auto
        moreover from this z(3) have "i = -1 \<and> key r < key z \<and> (\<forall>u \<in> set us. key u < key r) \<or>
            i = 1 \<and> key z < key r \<and> (\<forall>v \<in> set (vs @ a # nodes rt). key r < key v)" by auto
        moreover have "same_key key r (nodes (Nd l a b rt)) = None" using sk lt None by simp
        ultimately show ?thesis using run z(1) by (simp only: option.case) blast
      next
        case (Some w) then show ?thesis using IH run sk lt by simp
      qed
    qed
  next
    case gt
    note ng = less_not_sym [OF gt]
    show ?thesis
    proof (cases "av_n (h a) True")
      case None
      then have l: "rt = Tip" using is_tree_root [OF tl(2)] by (auto split: atree.splits)
      have "lookup_loop cmp x p r h = Some (Inr (a, 1))" using x c gt ng None by (subst lookup_loop.simps) simp
      moreover have "same_key key r (nodes (Nd l a b rt)) = None" using sk gt ng l by (simp add: same_key_def)
      ultimately show ?thesis using l gt
        by (simp only: option.case) (intro exI [of _ a] exI [of _ 1] exI [of _ "nodes l"] exI [of _ "[]"], simp)
    next
      case (Some y)
      have run: "lookup_loop cmp x p r h = lookup_loop cmp y (Some a) r h" using x c gt ng Some by (subst lookup_loop.simps) simp
      note IH = Nd.IH(2) [OF tl(2) [unfolded Some] s(2)]
      show ?thesis
      proof (cases "same_key key r (nodes rt)")
        case None
        then obtain z i us vs where z: "lookup_loop cmp y (Some a) r h = Some (Inr (z, i))" "nodes rt = us @ z # vs"
          "i = -1 \<and> key r < key z \<and> (\<forall>u \<in> set us. key u < key r) \<or> i = 1 \<and> key z < key r \<and> (\<forall>v \<in> set vs. key r < key v)"
          using IH by auto
        have "nodes (Nd l a b rt) = (nodes l @ a # us) @ z # vs" "\<forall>u \<in> set (nodes l @ [a]). key u < key r"
          using z(2) gt s(3) less_trans [OF _ gt] by auto
        moreover from this z(3) have "i = -1 \<and> key r < key z \<and> (\<forall>u \<in> set (nodes l @ a # us). key u < key r) \<or>
            i = 1 \<and> key z < key r \<and> (\<forall>v \<in> set vs. key r < key v)" by auto
        moreover have "same_key key r (nodes (Nd l a b rt)) = None" using sk gt ng None by simp
        ultimately show ?thesis using run z(1) by (simp only: option.case) blast
      next
        case (Some w) then show ?thesis using IH run sk gt ng by simp
      qed
    qed
  qed
qed simp

lemma find_skip: "\<forall>w \<in> set ws. \<not> P w \<Longrightarrow> find P (ws @ zs) = find P zs"
  by (induction ws) auto

lemma find_hd: "\<forall>w \<in> set ws. P w \<Longrightarrow> find P ws = first_of ws None"
  by (cases ws) (auto simp: first_of_def)

lemma lookupavl1_tree:
  assumes o: "orders cmp key" and t: "is_tree h q None t" and s: "ascending key (nodes t)"
  shows "lookupavl1 cmp q r nb h = Some (case same_key key r (nodes t) of Some a \<Rightarrow> Some a
    | None \<Rightarrow> if nb = 0 then None else if nb < 0 then find (\<lambda>x. key x < key r) (rev (nodes t)) else find (\<lambda>x. key r < key x) (nodes t))"
proof (cases q)
  case None
  then have "t = Tip" using is_tree_root [OF t] by (auto split: atree.splits)
  then show ?thesis using None by (simp add: lookupavl1_def same_key_def)
next
  case (Some x)
  note L = lookup_loop_tree [OF o t [unfolded Some] s, of r]
  have d: "distinct (nodes t)" using ascending_distinct [OF s] .
  show ?thesis
  proof (cases "same_key key r (nodes t)")
    case None
    then obtain y i us vs where y: "lookup_loop cmp x None r h = Some (Inr (y, i))" "nodes t = us @ y # vs"
      "i = -1 \<and> key r < key y \<and> (\<forall>u \<in> set us. key u < key r) \<or> i = 1 \<and> key y < key r \<and> (\<forall>v \<in> set vs. key r < key v)" using L by auto
    have a: "\<And>u. u \<in> set us \<Longrightarrow> key u < key y" "\<And>v. v \<in> set vs \<Longrightarrow> key y < key v" using s y(2) by (simp_all add: ascending_app)
    have dy: "y \<notin> set us" "y \<notin> set vs" "y \<in> set (nodes t)" using d y(2) by auto
    have su: "findsuccessor (Some y) h = Some (first_of vs None)" using find_in_tree(1) [OF t d dy(3)] y(2) dy by (simp add: after_at)
    have pr: "findpredecessor (Some y) h = Some (first_of (rev us) None)" using find_in_tree(2) [OF t d dy(3)] y(2) dy by (simp add: after_at)
    have n: "nodes t = (us @ [y]) @ vs" "rev (nodes t) = (rev vs @ [y]) @ rev us" "rev (nodes t) = rev vs @ y # rev us" using y(2) by simp_all
    from y(3) show ?thesis
    proof
      assume i: "i = -1 \<and> key r < key y \<and> (\<forall>u \<in> set us. key u < key r)"
      have v: "\<forall>v \<in> set (rev vs @ [y]). \<not> key v < key r" using i a(2) less_not_sym less_trans by fastforce
      have u: "\<forall>u \<in> set us. \<not> key r < key u" "\<forall>u \<in> set (rev us). key u < key r" using i less_not_sym by auto
      have "find (\<lambda>x. key r < key x) (nodes t) = Some y" unfolding y(2) find_skip [OF u(1)] using i by simp
      moreover have "find (\<lambda>x. key x < key r) (rev (nodes t)) = first_of (rev us) None" unfolding n(2) find_skip [OF v] using find_hd [OF u(2)] .
      ultimately show ?thesis using None Some y(1) i pr by (simp add: lookupavl1_def)
    next
      assume i: "i = 1 \<and> key y < key r \<and> (\<forall>v \<in> set vs. key r < key v)"
      have u: "\<forall>u \<in> set (us @ [y]). \<not> key r < key u" using i a(1) less_not_sym less_trans by fastforce
      have v: "\<forall>v \<in> set (rev vs). \<not> key v < key r" "\<forall>v \<in> set vs. key r < key v" using i less_not_sym by auto
      have "find (\<lambda>x. key x < key r) (rev (nodes t)) = Some y" unfolding n(3) find_skip [OF v(1)] using i by simp
      moreover have "find (\<lambda>x. key r < key x) (nodes t) = first_of vs None" unfolding n(1) find_skip [OF u] using find_hd [OF v(2)] .
      ultimately show ?thesis using None Some y(1) i su by (simp add: lookupavl1_def)
    qed
  next
    case (Some a) then show ?thesis using L \<open>q = Some x\<close> by (simp add: lookupavl1_def)
  qed
qed

subsection \<open>Trees and walks\<close>

text \<open>A tree with its walks: \<open>t->walks\<close> as the list of walks, the walks themselves in a memory of their own.\<close>

record walkrec =
  started :: bool
  moved :: bool
  w_node :: "nat option"

record avltree =
  t_root :: "nat option"
  t_walks :: "nat list"
  t_wk :: "nat \<Rightarrow> walkrec"

definition mkavltree :: "(nat \<Rightarrow> walkrec) \<Rightarrow> avltree" where
  "mkavltree wk = \<lparr>t_root = None, t_walks = [], t_wk = wk\<rparr>"

definition insertavl :: "acmp \<Rightarrow> nat \<Rightarrow> aheap \<Rightarrow> avltree \<Rightarrow> (nat option \<times> aheap \<times> avltree) option" where
  "insertavl cmp new h t = do {
     (d, q, h, old) \<leftarrow> insertavl1 cmp (t_root t) None new h;
     Some (old, h, t\<lparr>t_root := q\<rparr>)
   }"

definition searchavl :: "acmp \<Rightarrow> nat \<Rightarrow> int \<Rightarrow> aheap \<Rightarrow> avltree \<Rightarrow> nat option option" where
  "searchavl cmp key neighbor h t = lookupavl1 cmp (t_root t) key neighbor h"

definition lookupavl :: "acmp \<Rightarrow> nat \<Rightarrow> aheap \<Rightarrow> avltree \<Rightarrow> nat option option" where
  "lookupavl cmp key h t = lookupavl1 cmp (t_root t) key 0 h"

text \<open>The walks on \<open>a\<close> move to its predecessor, or to the start.\<close>

definition walk_back :: "nat \<Rightarrow> nat option \<Rightarrow> walkrec \<Rightarrow> walkrec" where
  "walk_back a p w = (if w_node w = Some a then \<lparr>started = started w \<and> p \<noteq> None, moved = True, w_node = p\<rparr> else w)"

definition walkdel :: "nat \<Rightarrow> aheap \<Rightarrow> avltree \<Rightarrow> avltree option" where
  "walkdel a h t = do {
     p \<leftarrow> findpredecessor (Some a) h;
     Some (t\<lparr>t_wk := fold (\<lambda>i wk. wk(i := walk_back a p (wk i))) (t_walks t) (t_wk t)\<rparr>)
   }"

definition deleteavl :: "acmp \<Rightarrow> nat \<Rightarrow> aheap \<Rightarrow> avltree \<Rightarrow> (nat option \<times> aheap \<times> avltree) option" where
  "deleteavl cmp key h t = do {
     (d, q, h, old, t) \<leftarrow> deleteavl1 cmp (Some walkdel) (t_root t) None key h t;
     Some (old, h, t\<lparr>t_root := q\<rparr>)
   }"

text \<open>\<open>w\<close> is what \<open>malloc\<close> returned.\<close>

definition avlwalk :: "nat option \<Rightarrow> avltree \<Rightarrow> avltree" where
  "avlwalk w t = (case w of None \<Rightarrow> t
     | Some w \<Rightarrow> t\<lparr>t_wk := (t_wk t)(w := \<lparr>started = False, moved = False, w_node = None\<rparr>), t_walks := w # t_walks t\<rparr>)"

definition endwalk :: "nat \<Rightarrow> avltree \<Rightarrow> avltree" where
  "endwalk w t = t\<lparr>t_walks := remove1 w (t_walks t)\<rparr>"

definition set_walk :: "nat \<Rightarrow> walkrec \<Rightarrow> avltree \<Rightarrow> avltree" where
  "set_walk i w t = t\<lparr>t_wk := (t_wk t)(i := w)\<rparr>"

definition outermost :: "bool \<Rightarrow> nat option \<Rightarrow> aheap \<Rightarrow> nat option option" where
  "outermost i a h = (case a of None \<Rightarrow> Some None | Some a \<Rightarrow> map_option Some (descend i a h))"

definition avlnext :: "nat \<Rightarrow> aheap \<Rightarrow> avltree \<Rightarrow> (nat option \<times> avltree) option" where
  "avlnext i h t = (let w = t_wk t i in
     if \<not> started w then do {
       a \<leftarrow> outermost False (t_root t) h;
       Some (a, set_walk i (w\<lparr>w_node := a, started := True\<rparr>) t)
     } else do {
       a \<leftarrow> findsuccessor (w_node w) h;
       if a = w_node w then None else Some (a, set_walk i (w\<lparr>w_node := a\<rparr>) t)
     })"

definition avlprev :: "nat \<Rightarrow> aheap \<Rightarrow> avltree \<Rightarrow> (nat option \<times> avltree) option" where
  "avlprev i h t = (let w = t_wk t i in
     if \<not> started w then do {
       a \<leftarrow> outermost True (t_root t) h;
       Some (a, set_walk i (w\<lparr>w_node := a, started := True\<rparr>) t)
     } else if moved w then Some (w_node w, set_walk i (w\<lparr>moved := False\<rparr>) t)
     else do {
       a \<leftarrow> findpredecessor (w_node w) h;
       if a = w_node w then None else Some (a, set_walk i (w\<lparr>w_node := a\<rparr>) t)
     })"

text \<open>What a tree holds in order, and what a walk has before it.\<close>

definition tree_is :: "(nat \<Rightarrow> 'k::linorder) \<Rightarrow> aheap \<Rightarrow> avltree \<Rightarrow> nat list \<Rightarrow> bool" where
  "tree_is key h t xs \<longleftrightarrow> (\<exists>tr. is_tree h (t_root t) None tr \<and> avl tr \<and> nodes tr = xs) \<and> ascending key xs"

definition walk_ok :: "walkrec \<Rightarrow> nat list \<Rightarrow> bool" where
  "walk_ok w xs \<longleftrightarrow> (case w_node w of None \<Rightarrow> True | Some a \<Rightarrow> started w \<and> a \<in> set xs)"

definition walk_rest :: "walkrec \<Rightarrow> nat list \<Rightarrow> nat list" where
  "walk_rest w xs = (if \<not> started w then xs else case w_node w of None \<Rightarrow> [] | Some a \<Rightarrow> after a xs)"

lemma tree_isE:
  assumes "tree_is key h t xs"
  obtains tr where "is_tree h (t_root t) None tr" "avl tr" "nodes tr = xs" "ascending key (nodes tr)" "distinct (nodes tr)"
  using assms ascending_distinct by (auto simp: tree_is_def)

lemma mkavltree_is: "tree_is key h (mkavltree wk) []"
  by (auto simp: tree_is_def mkavltree_def ascending_def intro!: exI [of _ Tip])

lemma insertavl_ok:
  assumes o: "orders cmp key" and t: "tree_is key h t xs" and r: "r \<notin> set xs"
  shows "\<exists>h' q. insertavl cmp r h t = Some (same_key key r xs, h', t\<lparr>t_root := q\<rparr>) \<and> tree_is key h' (t\<lparr>t_root := q\<rparr>) (put_node key r xs) \<and>
    (\<forall>x. x \<notin> insert r (set xs) \<longrightarrow> h' x = h x)"
proof -
  obtain tr where tr: "is_tree h (t_root t) None tr" "avl tr" "nodes tr = xs" "ascending key (nodes tr)" using t by (rule tree_isE)
  have "r \<notin> set (nodes tr)" using r tr(3) by simp
  from insertavl1_tree [OF o tr(1,2,4) this] obtain d c h' tr' where
    "insertavl1 cmp (t_root t) None r h = Some (d, Some c, h', same_key key r xs)" "became h (insert r (set xs)) h' (Some c) None tr'"
    "avl tr'" "nodes tr' = put_node key r xs" unfolding tr(3) by blast
  then show ?thesis using ascending_put [OF tr(4), of r] tr(3)
    by (intro exI [of _ h'] exI [of _ "Some c"]) (auto simp: insertavl_def tree_is_def became_def)
qed

lemma ascending_cut: "ascending key xs \<Longrightarrow> ascending key (cut_node key r xs)"
  by (simp add: ascending_def cut_node_def sorted_wrt_filter)

lemma walk_back_fold:
  "fold (\<lambda>i wk. wk(i := walk_back a p (wk i))) is wk i = (if i \<in> set is then walk_back a p (wk i) else wk i)" if "p \<noteq> Some a"
proof (induction "is" arbitrary: wk)
  case (Cons j js)
  have "walk_back a p (walk_back a p w) = walk_back a p w" for w using that by (auto simp: walk_back_def)
  then show ?case using Cons by auto
qed simp

lemma after_filter: "P c \<Longrightarrow> after c (filter P xs) = filter P (after c xs)"
  by (induction xs) (auto simp: after_def)

lemma set_after: "set (after a xs) \<subseteq> set xs"
  by (induction xs) (auto simp: after_def)

lemma same_key_Some: "same_key key r xs = Some a \<Longrightarrow> a \<in> set xs \<and> key a = key r"
  by (auto simp: same_key_def find_Some_iff)

lemma same_key_None: "same_key key r xs = None \<Longrightarrow> cut_node key r xs = xs"
  by (simp add: same_key_def find_None_iff cut_node_def filter_True)

lemma walk_back_rest:
  assumes s: "ascending key xs" and a: "same_key key r xs = Some a" and w: "walk_ok w xs"
  shows "walk_ok (walk_back a (first_of (after a (rev xs)) None) w) (cut_node key r xs) \<and>
    walk_rest (walk_back a (first_of (after a (rev xs)) None) w) (cut_node key r xs) = cut_node key r (walk_rest w xs)"
proof -
  have ak: "a \<in> set xs" "key a = key r" using same_key_Some [OF a] by auto
  obtain us vs where x: "xs = us @ a # vs" using split_list [OF ak(1)] by blast
  have d: "a \<notin> set us" "a \<notin> set vs" using ascending_distinct [OF s] x by auto
  have c: "cut_node key r xs = us @ vs" using cut_node_split [OF s [unfolded x], of r] x ak(2) by simp
  have p: "after a (rev xs) = rev us" using x d by (simp add: after_at)
  show ?thesis
  proof (cases "w_node w")
    case None
    then show ?thesis by (simp add: walk_back_def walk_ok_def walk_rest_def cut_node_def)
  next
    case (Some b)
    then have b: "b \<in> set xs" "started w" using w by (simp_all add: walk_ok_def)
    show ?thesis
    proof (cases "b = a")
      case False
      then have kb: "key b \<noteq> key r" using s b(1) ak by (auto simp: x ascending_app)
      then have "after b (cut_node key r xs) = cut_node key r (after b xs)" unfolding cut_node_def by (intro after_filter) simp
      then show ?thesis using Some False b kb by (simp add: walk_back_def walk_ok_def walk_rest_def) (simp add: cut_node_def)
    next
      case True
      have ab: "after a xs = vs" using x d by (simp add: after_at)
      have cv: "cut_node key r vs = vs" using s ak(2) unfolding cut_node_def by (intro filter_True) (auto simp: x ascending_app)
      show ?thesis
      proof (cases us rule: rev_cases)
        case Nil
        then show ?thesis using Some True b p c ab cv by (simp add: walk_back_def walk_ok_def walk_rest_def)
      next
        case (snoc us' e)
        have "e \<notin> set us'" using ascending_distinct [OF s] x snoc by auto
        then show ?thesis using Some True b p c ab cv snoc by (simp add: walk_back_def walk_ok_def walk_rest_def after_at)
      qed
    qed
  qed
qed

lemma deleteavl_ok:
  assumes o: "orders cmp key" and t: "tree_is key h t xs"
  shows "\<exists>h' t'. deleteavl cmp r h t = Some (same_key key r xs, h', t') \<and> tree_is key h' t' (cut_node key r xs) \<and>
    (\<forall>x. x \<notin> set xs \<longrightarrow> h' x = h x) \<and> t_walks t' = t_walks t \<and>
    (\<forall>i \<in> set (t_walks t). walk_ok (t_wk t i) xs \<longrightarrow>
      walk_ok (t_wk t' i) (cut_node key r xs) \<and> walk_rest (t_wk t' i) (cut_node key r xs) = cut_node key r (walk_rest (t_wk t i) xs)) \<and>
    (\<forall>i \<in> set (t_walks t). \<forall>a. same_key key r xs = Some a \<longrightarrow> t_wk t' i = walk_back a (first_of (after a (rev xs)) None) (t_wk t i))"
proof -
  obtain tr where tr: "is_tree h (t_root t) None tr" "avl tr" "nodes tr = xs" "ascending key (nodes tr)" "distinct (nodes tr)" using t by (rule tree_isE)
  obtain u where u: "(case same_key key r xs of None \<Rightarrow> Some t | Some a \<Rightarrow> walkdel a h t) = Some u" "t_walks u = t_walks t"
    "\<forall>i \<in> set (t_walks t). walk_ok (t_wk t i) xs \<longrightarrow>
      walk_ok (t_wk u i) (cut_node key r xs) \<and> walk_rest (t_wk u i) (cut_node key r xs) = cut_node key r (walk_rest (t_wk t i) xs)"
    "\<forall>i \<in> set (t_walks t). \<forall>a. same_key key r xs = Some a \<longrightarrow> t_wk u i = walk_back a (first_of (after a (rev xs)) None) (t_wk t i)"
  proof (cases "same_key key r xs")
    case None
    have "cut_node key r (walk_rest w xs) = walk_rest w xs" if "w = w" for w
    proof -
      have "set (walk_rest w xs) \<subseteq> set xs" by (auto simp: walk_rest_def split: option.splits if_splits dest: set_after [THEN subsetD])
      then show ?thesis using None unfolding cut_node_def by (intro filter_True) (auto simp: same_key_def find_None_iff)
    qed
    then show thesis using None same_key_None [OF None] by (intro that [of t]) simp_all
  next
    case (Some a)
    have a: "a \<in> set (nodes tr)" using same_key_Some [OF Some] tr(3) by simp
    let ?p = "first_of (after a (rev xs)) None"
    have "?p \<noteq> Some a"
    proof -
      obtain us vs where x: "rev xs = us @ a # vs" using split_list [of a "rev xs"] a tr(3) by auto
      have "distinct (us @ a # vs)" using tr(3,5) x by (metis distinct_rev)
      then show ?thesis unfolding x by (cases vs) (auto simp: after_at)
    qed
    note wb = walk_back_fold [OF this]
    have "walkdel a h t = Some (t\<lparr>t_wk := fold (\<lambda>i wk. wk(i := walk_back a ?p (wk i))) (t_walks t) (t_wk t)\<rparr>)"
      using find_in_tree(2) [OF tr(1,5) a] tr(3) by (simp add: walkdel_def)
    then show thesis using Some walk_back_rest [OF tr(4) [unfolded tr(3)] Some]
      by (intro that [of "t\<lparr>t_wk := fold (\<lambda>i wk. wk(i := walk_back a ?p (wk i))) (t_walks t) (t_wk t)\<rparr>"]) (simp_all add: wb)
  qed
  have pd: "(case same_key key r (nodes tr) of None \<Rightarrow> Some t | Some a \<Rightarrow> (case Some walkdel of None \<Rightarrow> Some t | Some f \<Rightarrow> f a h t)) = Some u"
    using u(1) by (simp only: option.case tr(3))
  from deleteavl1_tree [OF o tr(1,2,4) pd] obtain d q h' tr' where
    "deleteavl1 cmp (Some walkdel) (t_root t) None r h t = Some (d, q, h', same_key key r xs, u)" "became h (set xs) h' q None tr'"
    "avl tr'" "nodes tr' = cut_node key r xs" unfolding tr(3) by blast
  then show ?thesis using ascending_cut [OF tr(4), of r] tr(3) u(2-4)
    by (intro exI [of _ h'] exI [of _ "u\<lparr>t_root := q\<rparr>"]) (auto simp: deleteavl_def tree_is_def became_def)
qed

lemma outermost_first:
  assumes "is_tree h q None t"
  shows "outermost False q h = Some (first_of (nodes t) None)"
proof (cases q)
  case None
  then have "t = Tip" using is_tree_root [OF assms] by (auto split: atree.splits)
  then show ?thesis using None by (simp add: outermost_def)
next
  case (Some x)
  then obtain z us where "descend False x h = Some z" "dnodes True t = z # us" using descend_tree [of h x None t True] assms by auto
  then show ?thesis using Some by (simp add: outermost_def dnodes_nodes)
qed

lemma avlnext_ok:
  assumes t: "tree_is key h t xs" and w: "walk_ok (t_wk t i) xs" and e: "\<not> started (t_wk t i) \<or> w_node (t_wk t i) \<noteq> None"
  shows "\<exists>t'. avlnext i h t = Some (first_of (walk_rest (t_wk t i) xs) None, t') \<and>
    t' = set_walk i (t_wk t' i) t \<and> started (t_wk t' i) \<and> w_node (t_wk t' i) = first_of (walk_rest (t_wk t i) xs) None \<and>
    walk_ok (t_wk t' i) xs \<and> walk_rest (t_wk t' i) xs = tl (walk_rest (t_wk t i) xs)"
proof -
  obtain tr where tr: "is_tree h (t_root t) None tr" "nodes tr = xs" "distinct (nodes tr)" using t by (rule tree_isE)
  let ?w = "t_wk t i"
  show ?thesis
  proof (cases "started ?w")
    case False
    then have "avlnext i h t = Some (first_of xs None, set_walk i (?w\<lparr>w_node := first_of xs None, started := True\<rparr>) t)"
      using outermost_first [OF tr(1)] tr(2) by (simp add: avlnext_def)
    then show ?thesis using False by (cases xs) (auto simp: set_walk_def walk_ok_def walk_rest_def first_of_def after_def)
  next
    case True
    then obtain a where a: "w_node ?w = Some a" "a \<in> set xs" using e w by (auto simp: walk_ok_def split: option.splits)
    obtain us vs where x: "xs = us @ a # vs" using split_list [OF a(2)] by blast
    have d: "a \<notin> set us" "a \<notin> set vs" "distinct (us @ a # vs)" using tr(2,3) x by auto
    have f: "after a xs = vs" using x d by (simp add: after_at)
    have "findsuccessor (w_node ?w) h = Some (first_of vs None)" using find_in_tree(1) [OF tr(1,3)] a tr(2) f by simp
    moreover have "first_of vs None \<noteq> Some a" using d by (cases vs) auto
    ultimately have "avlnext i h t = Some (first_of vs None, set_walk i (?w\<lparr>w_node := first_of vs None\<rparr>) t)"
      using True a by (simp add: avlnext_def)
    moreover have "after b xs = ws" if "vs = b # ws" for b ws
    proof -
      have "b \<notin> set (us @ [a])" using d(3) that by auto
      then show ?thesis using after_at [of b "us @ [a]" ws] x that by simp
    qed
    ultimately show ?thesis using True a f x by (cases vs) (auto simp: set_walk_def walk_ok_def walk_rest_def)
  qed
qed

fun walk_n :: "nat \<Rightarrow> nat \<Rightarrow> aheap \<Rightarrow> avltree \<Rightarrow> (nat option list \<times> avltree) option" where
  "walk_n 0 i h t = Some ([], t)"
| "walk_n (Suc n) i h t = (case avlnext i h t of None \<Rightarrow> None
     | Some (a, t) \<Rightarrow> (case walk_n n i h t of None \<Rightarrow> None | Some (as, t) \<Rightarrow> Some (a # as, t)))"

lemma walk_n_ok:
  "tree_is key h t xs \<Longrightarrow> walk_ok (t_wk t i) xs \<Longrightarrow> \<not> started (t_wk t i) \<or> w_node (t_wk t i) \<noteq> None \<Longrightarrow> walk_rest (t_wk t i) xs = ys \<Longrightarrow>
    \<exists>t'. walk_n (length ys + 1) i h t = Some (map Some ys @ [None], t') \<and> avlnext i h t' = None \<and> t' = set_walk i (t_wk t' i) t"
proof (induction ys arbitrary: t)
  case Nil
  from avlnext_ok [OF Nil.prems(1-3)] Nil.prems(4) obtain t' where t': "avlnext i h t = Some (None, t')" "t' = set_walk i (t_wk t' i) t"
    "started (t_wk t' i)" "w_node (t_wk t' i) = None" by auto
  then show ?case by (auto simp: avlnext_def findsuccessor_def)
next
  case (Cons y ys)
  from avlnext_ok [OF Cons.prems(1-3)] Cons.prems(4) obtain t' where t': "avlnext i h t = Some (Some y, t')" "t' = set_walk i (t_wk t' i) t"
    "started (t_wk t' i)" "w_node (t_wk t' i) = Some y" "walk_ok (t_wk t' i) xs" "walk_rest (t_wk t' i) xs = ys" by auto
  have "t_root t' = t_root t" by (subst t'(2)) (simp add: set_walk_def)
  then have "tree_is key h t' xs" using Cons.prems(1) by (simp add: tree_is_def)
  from Cons.IH [OF this t'(5) _ t'(6)] t'(4) obtain t'' where
    t'': "walk_n (length ys + 1) i h t' = Some (map Some ys @ [None], t'')" "avlnext i h t'' = None" "t'' = set_walk i (t_wk t'' i) t'" by auto
  have "t'' = set_walk i (t_wk t'' i) t" by (subst t''(3), subst t'(2)) (simp add: set_walk_def)
  moreover have "walk_n (length (y # ys) + 1) i h t = Some (map Some (y # ys) @ [None], t'')" using t'(1) t''(1) by simp
  ultimately show ?case using t''(2) by blast
qed

text \<open>Insertion and a walk that is not on the node replaced.\<close>

lemma put_node_rest:
  assumes s: "ascending key xs" and c: "c \<in> set xs" "key c \<noteq> key r" and r: "r \<notin> set xs"
  shows "after c (put_node key r xs) = (if key c < key r then put_node key r (after c xs) else after c xs)"
proof -
  obtain us vs where x: "xs = us @ c # vs" using split_list [OF c(1)] by blast
  have d: "c \<notin> set us" "c \<noteq> r" using ascending_distinct [OF s] x c r by auto
  show ?thesis
  proof (cases "key c < key r")
    case True
    then show ?thesis using put_node_right [OF True s [unfolded x]] d x by (simp add: after_at)
  next
    case False
    then have "key r < key c" using c(2) by simp
    moreover have "c \<notin> set (put_node key r us)" using d set_put_node(1) [of key r us] by auto
    ultimately show ?thesis using False put_node_left [of key r c us vs] d x by (simp add: after_at)
  qed
qed

text \<open>The depth is logarithmic.\<close>

lemma height_log: "avl t \<Longrightarrow> 2 ^ nat (height t div 2) \<le> length (nodes t) + 1"
proof (induction t)
  case (Nd l a b r)
  let ?m = "height (Nd l a b r) - 2"
  have H: "height (Nd l a b r) - 2 \<le> height l" "height (Nd l a b r) - 2 \<le> height r" using Nd.prems by auto
  have "(2::nat) ^ nat (height (Nd l a b r) div 2) \<le> 2 * 2 ^ nat (?m div 2)"
  proof (cases "?m < 0")
    case True
    then have "height (Nd l a b r) div 2 \<le> 0" by linarith
    then show ?thesis by simp
  next
    case False
    then have "nat (height (Nd l a b r) div 2) = Suc (nat (?m div 2))" by linarith
    then show ?thesis by simp
  qed
  moreover have "(2::nat) ^ nat (?m div 2) \<le> 2 ^ nat (height l div 2)" "(2::nat) ^ nat (?m div 2) \<le> 2 ^ nat (height r div 2)"
    using H by (intro power_increasing nat_mono zdiv_mono1; simp)+
  moreover have "2 ^ nat (height l div 2) \<le> length (nodes l) + 1" "2 ^ nat (height r div 2) \<le> length (nodes r) + 1" using Nd by auto
  ultimately have "2 ^ nat (height (Nd l a b r) div 2) \<le> (length (nodes l) + 1) + (length (nodes r) + 1)" by linarith
  then show ?case by simp
qed simp

subsection \<open>The properties\<close>

text \<open>
  C33. \<open>insertavl\<close> always returns, with no nil followed and no assertion failed. From a balanced tree in order, with sound parent pointers and
  balances, it makes another that holds the new node at its place, instead of the node of the same key if there is one, which it hands
  back; it touches no other memory. A walk goes on as before, past the new node if that is ahead of it; but a walk
  whose node is the one handed back to be freed is left on it.\<close>

theorem avl_insert:
  assumes "orders cmp key" and t: "tree_is key h t xs" and r: "r \<notin> set xs"
  shows "\<exists>h' t'. insertavl cmp r h t = Some (same_key key r xs, h', t') \<and> tree_is key h' t' (put_node key r xs) \<and>
    (\<forall>x. x \<notin> insert r (set xs) \<longrightarrow> h' x = h x) \<and> t_walks t' = t_walks t \<and> t_wk t' = t_wk t \<and>
    (\<forall>w c. w_node w = Some c \<and> walk_ok w xs \<longrightarrow>
       (if same_key key r xs = Some c then c \<notin> set (put_node key r xs)
        else walk_ok w (put_node key r xs) \<and> walk_rest w (put_node key r xs) = (if key c < key r then put_node key r (walk_rest w xs) else walk_rest w xs)))"
proof -
  have s: "ascending key xs" using t by (simp add: tree_is_def)
  have w: "if same_key key r xs = Some c then c \<notin> set (put_node key r xs)
      else walk_ok w (put_node key r xs) \<and> walk_rest w (put_node key r xs) = (if key c < key r then put_node key r (walk_rest w xs) else walk_rest w xs)"
    if w: "w_node w = Some c" "walk_ok w xs" for w c
  proof -
    have c: "c \<in> set xs" "started w" using w by (simp_all add: walk_ok_def)
    then obtain us vs where x: "xs = us @ c # vs" using split_list [of c xs] by blast
    have d: "c \<notin> set us" "c \<notin> set vs" "c \<noteq> r" using ascending_distinct [OF s] x r by auto
    consider "key c = key r" | "key c \<noteq> key r" "c \<in> set (put_node key r xs)"
      using put_node_left [of key r c us vs] put_node_right [OF _ s [unfolded x], of r] x by fastforce
    then show ?thesis
    proof cases
      case 1
      then have "same_key key r xs = Some c" using same_key_split [OF s [unfolded x], of r] x by simp
      then show ?thesis using put_node_same [OF 1 s [unfolded x]] d x by simp
    next
      case 2
      then have "same_key key r xs \<noteq> Some c" using same_key_Some [of key r xs c] by auto
      then show ?thesis using 2 put_node_rest [OF s c(1) 2(1) r] w(1) c(2) by (simp add: walk_ok_def walk_rest_def)
    qed
  qed
  from insertavl_ok [OF assms] obtain h' q where I: "insertavl cmp r h t = Some (same_key key r xs, h', t\<lparr>t_root := q\<rparr>)"
    "tree_is key h' (t\<lparr>t_root := q\<rparr>) (put_node key r xs)" "\<forall>x. x \<notin> insert r (set xs) \<longrightarrow> h' x = h x" by blast
  have "\<forall>w c. w_node w = Some c \<and> walk_ok w xs \<longrightarrow> (if same_key key r xs = Some c then c \<notin> set (put_node key r xs)
      else walk_ok w (put_node key r xs) \<and> walk_rest w (put_node key r xs) = (if key c < key r then put_node key r (walk_rest w xs) else walk_rest w xs))"
    using w by blast
  then show ?thesis using I by (intro exI [of _ h'] exI [of _ "t\<lparr>t_root := q\<rparr>"] conjI) (assumption | simp)+
qed

text \<open>Seven nodes with keys 0 to 6, inserted in an order that takes all four rotations.\<close>

definition icmp :: acmp where
  "icmp a b = int a - int b"

definition empty_heap :: aheap where
  "empty_heap = (\<lambda>_. \<lparr>av_p = None, av_n = \<lambda>_. None, av_bal = 0\<rparr>)"

definition idle :: "nat \<Rightarrow> walkrec" where
  "idle = (\<lambda>_. \<lparr>started = False, moved = False, w_node = None\<rparr>)"

fun insert_all :: "acmp \<Rightarrow> nat list \<Rightarrow> aheap \<Rightarrow> avltree \<Rightarrow> (aheap \<times> avltree) option" where
  "insert_all cmp [] h t = Some (h, t)"
| "insert_all cmp (r # rs) h t = (case insertavl cmp r h t of None \<Rightarrow> None | Some (old, h, t) \<Rightarrow> insert_all cmp rs h t)"

lemma icmp_orders: "orders icmp (\<lambda>n. n)"
  by (simp add: orders_def icmp_def)

lemma insert_all_ok:
  assumes o: "orders cmp key"
  shows "tree_is key h t xs \<Longrightarrow> distinct rs \<Longrightarrow> set rs \<inter> set xs = {} \<Longrightarrow>
    \<exists>h' q. insert_all cmp rs h t = Some (h', t\<lparr>t_root := q\<rparr>) \<and> tree_is key h' (t\<lparr>t_root := q\<rparr>) (fold (put_node key) rs xs)"
proof (induction rs arbitrary: h t xs)
  case Nil
  have "t = t\<lparr>t_root := t_root t\<rparr>" by simp
  then show ?case using Nil by (metis fold_simps(1) insert_all.simps(1))
next
  case (Cons r rs)
  from insertavl_ok [OF o Cons.prems(1)] Cons.prems(3) obtain h1 q where
    I: "insertavl cmp r h t = Some (same_key key r xs, h1, t\<lparr>t_root := q\<rparr>)" "tree_is key h1 (t\<lparr>t_root := q\<rparr>) (put_node key r xs)" by fastforce
  have "set rs \<inter> set (put_node key r xs) = {}" using Cons.prems(2,3) set_put_node(1) [of key r xs] by auto
  from Cons.IH [OF I(2) _ this] Cons.prems(2) I(1) show ?case by auto
qed

lemma seven_ok:
  "\<exists>h q. insert_all icmp [1, 3, 2, 6, 5, 0, 4] empty_heap (mkavltree idle) = Some (h, (mkavltree idle)\<lparr>t_root := q\<rparr>) \<and>
    tree_is (\<lambda>n. n) h ((mkavltree idle)\<lparr>t_root := q\<rparr>) [0, 1, 2, 3, 4, 5, 6]"
  using insert_all_ok [OF icmp_orders mkavltree_is, of "[1, 3, 2, 6, 5, 0, 4]" empty_heap idle] by (simp add: put_node_def)

theorem avl_insert_witness:
  "\<exists>h t h' t'. tree_is (\<lambda>n. n) h t [0, 1, 2, 3, 4, 5, 6] \<and> insertavl icmp 7 h t = Some (None, h', t') \<and> tree_is (\<lambda>n. n) h' t' [0, 1, 2, 3, 4, 5, 6, 7]"
proof -
  obtain h t where s: "tree_is (\<lambda>n. n) h t [0, 1, 2, 3, 4, 5, 6]" using seven_ok by blast
  from avl_insert [OF icmp_orders s, of 7] obtain h' t' where
    "insertavl icmp 7 h t = Some (same_key (\<lambda>n. n) 7 [0, 1, 2, 3, 4, 5, 6], h', t')" "tree_is (\<lambda>n. n) h' t' (put_node (\<lambda>n. n) 7 [0, 1, 2, 3, 4, 5, 6])" by auto
  then show ?thesis using s by (intro exI [of _ h] exI [of _ t] exI [of _ h'] exI [of _ t']) (simp add: same_key_def put_node_def)
qed

text \<open>
  C11. \<open>deleteavl\<close> always returns, with no nil followed and no assertion failed, and makes of a balanced tree one without the node of that
  key, which it hands back if there is one; it touches no other memory. Each walk of the tree then has before it just what it
  had, without that node, also when it was on it.\<close>

theorem avl_delete:
  assumes "orders cmp key" and "tree_is key h t xs"
  shows "\<exists>h' t'. deleteavl cmp r h t = Some (same_key key r xs, h', t') \<and> tree_is key h' t' (cut_node key r xs) \<and>
    (\<forall>x. x \<notin> set xs \<longrightarrow> h' x = h x) \<and> t_walks t' = t_walks t \<and>
    (\<forall>i \<in> set (t_walks t). walk_ok (t_wk t i) xs \<longrightarrow>
      walk_ok (t_wk t' i) (cut_node key r xs) \<and> walk_rest (t_wk t' i) (cut_node key r xs) = cut_node key r (walk_rest (t_wk t i) xs))"
  using deleteavl_ok [OF assms, of r] by (elim exE conjE) (intro exI conjI, assumption+)

theorem avl_delete_witness:
  "\<exists>h t h' t'. tree_is (\<lambda>n. n) h t [0, 1, 2, 3, 4, 5, 6] \<and> deleteavl icmp 3 h t = Some (Some 3, h', t') \<and> tree_is (\<lambda>n. n) h' t' [0, 1, 2, 4, 5, 6]"
proof -
  obtain h t where s: "tree_is (\<lambda>n. n) h t [0, 1, 2, 3, 4, 5, 6]" using seven_ok by blast
  from avl_delete [OF icmp_orders s, of 3] obtain h' t' where
    "deleteavl icmp 3 h t = Some (same_key (\<lambda>n. n) 3 [0, 1, 2, 3, 4, 5, 6], h', t')" "tree_is (\<lambda>n. n) h' t' (cut_node (\<lambda>n. n) 3 [0, 1, 2, 3, 4, 5, 6])" by auto
  then show ?thesis using s by (intro exI [of _ h] exI [of _ t] exI [of _ h'] exI [of _ t']) (simp add: same_key_def cut_node_def)
qed

text \<open>
  C39. \<open>searchavl\<close> of a balanced tree finds the node of the key, or else the neighbour asked for: the first node of a greater key,
  the last of a smaller one, nil if there is none; \<open>lookupavl\<close> finds the node or nil. Neither takes more than about
  \<open>2 log\<^sub>2 (n + 1)\<close> steps, for the tree is no deeper. \<open>avlnext\<close> gives what a walk has before it, node by node in order, then nil; another call aborts.\<close>

theorem avl_search:
  assumes o: "orders cmp key" and t: "tree_is key h t xs"
  shows "searchavl cmp r nb h t = Some (case same_key key r xs of Some a \<Rightarrow> Some a
      | None \<Rightarrow> if nb = 0 then None else if nb < 0 then find (\<lambda>x. key x < key r) (rev xs) else find (\<lambda>x. key r < key x) xs) \<and>
    lookupavl cmp r h t = Some (same_key key r xs) \<and>
    (\<exists>tr. is_tree h (t_root t) None tr \<and> nodes tr = xs \<and> 2 ^ nat (height tr div 2) \<le> length xs + 1) \<and>
    (walk_ok (t_wk t i) xs \<and> (started (t_wk t i) \<longrightarrow> w_node (t_wk t i) \<noteq> None) \<longrightarrow>
      (\<exists>t'. walk_n (length (walk_rest (t_wk t i) xs) + 1) i h t = Some (map Some (walk_rest (t_wk t i) xs) @ [None], t') \<and> avlnext i h t' = None))"
proof -
  obtain tr where tr: "is_tree h (t_root t) None tr" "avl tr" "nodes tr = xs" "ascending key (nodes tr)" using t by (rule tree_isE)
  have l: "lookupavl1 cmp (t_root t) r k h = Some (case same_key key r xs of Some a \<Rightarrow> Some a
      | None \<Rightarrow> if k = 0 then None else if k < 0 then find (\<lambda>x. key x < key r) (rev xs) else find (\<lambda>x. key r < key x) xs)" for k
    using lookupavl1_tree [OF o tr(1,4), of r k] unfolding tr(3) .
  have d: "2 ^ nat (height tr div 2) \<le> length xs + 1" using height_log [OF tr(2)] tr(3) by simp
  have w: "\<exists>t'. walk_n (length (walk_rest (t_wk t i) xs) + 1) i h t = Some (map Some (walk_rest (t_wk t i) xs) @ [None], t') \<and> avlnext i h t' = None"
    if "walk_ok (t_wk t i) xs" "started (t_wk t i) \<longrightarrow> w_node (t_wk t i) \<noteq> None"
    using walk_n_ok [OF t that(1) _ refl] that(2) by blast
  show ?thesis
    using l [of nb] l [of 0] tr(1,3) d w unfolding searchavl_def lookupavl_def by (auto split: option.splits)
qed

theorem avl_search_witness:
  "\<exists>h t t'. tree_is (\<lambda>n. n) h t [0, 1, 2, 3, 4, 5, 6] \<and> lookupavl icmp 9 h t = Some None \<and> searchavl icmp 9 (-1) h t = Some (Some 6) \<and>
    walk_n 8 0 h t = Some (map Some [0, 1, 2, 3, 4, 5, 6] @ [None], t') \<and> avlnext 0 h t' = None"
proof -
  obtain h q where s: "tree_is (\<lambda>n. n) h ((mkavltree idle)\<lparr>t_root := q\<rparr>) [0, 1, 2, 3, 4, 5, 6]" using seven_ok by blast
  let ?t = "(mkavltree idle)\<lparr>t_root := q\<rparr>"
  have w: "t_wk (mkavltree idle) 0 = \<lparr>started = False, moved = False, w_node = None\<rparr>" by (simp add: mkavltree_def idle_def)
  note S = avl_search [OF icmp_orders s, of 9 "-1" 0]
  have "searchavl icmp 9 (-1) h ?t = Some (Some 6)" "lookupavl icmp 9 h ?t = Some None" using S by (simp_all add: same_key_def)
  moreover obtain t' where "walk_n 8 0 h ?t = Some (map Some [0, 1, 2, 3, 4, 5, 6] @ [None], t')" "avlnext 0 h t' = None"
  proof -
    let ?L = "[0, 1, 2, 3, 4, 5, 6] :: nat list"
    have p: "walk_ok (t_wk ?t 0) ?L \<and> (started (t_wk ?t 0) \<longrightarrow> w_node (t_wk ?t 0) \<noteq> None)" by (simp add: w walk_ok_def)
    have rest: "walk_rest (t_wk ?t 0) ?L = ?L" by (simp add: w walk_rest_def)
    have len: "length ?L + 1 = 8" by simp
    show thesis using S [THEN conjunct2, THEN conjunct2, THEN conjunct2, THEN mp, OF p, unfolded rest len] that by blast
  qed
  ultimately show ?thesis using s by blast
qed

text \<open>
  Walks that surprise. After the deletion of its node a walk that goes forward stays marked as moved back, and \<open>avlprev\<close> then gives the
  node again that \<open>avlnext\<close> gave; and a walk backwards whose node was the first starts again at the end of the tree when that is deleted.\<close>

lemma avlprev_repeats:
  assumes "started (t_wk t i)" "moved (t_wk t i)" and n: "avlnext i h t = Some (a, t')"
  shows "\<exists>t''. avlprev i h t' = Some (a, t'')"
proof -
  have "t' = set_walk i ((t_wk t i)\<lparr>w_node := a\<rparr>) t" using n assms(1) by (auto simp: avlnext_def Let_def split: bind_splits if_splits)
  then show ?thesis using assms(1,2) by (simp add: avlprev_def set_walk_def)
qed

lemma outermost_last:
  assumes "is_tree h q None t" "nodes t \<noteq> []"
  shows "outermost True q h = Some (Some (last (nodes t)))"
proof -
  obtain x where q: "q = Some x" using assms by (cases t) auto
  then obtain z us where "descend True x h = Some z" "rev (nodes t) = z # us" using descend_tree [of h x None t False] assms(1) by (auto simp: dnodes_nodes)
  then show ?thesis using q by (simp add: outermost_def)
qed

lemma avlprev_starts_again:
  assumes o: "orders cmp key" and t: "tree_is key h t (a # xs)" "xs \<noteq> []"
    and w: "i \<in> set (t_walks t)" "started (t_wk t i)" "w_node (t_wk t i) = Some a"
  shows "\<exists>h' t' t''. deleteavl cmp a h t = Some (Some a, h', t') \<and> avlprev i h' t' = Some (Some (last xs), t'')"
proof -
  have s: "ascending key (a # xs)" using t(1) by (simp add: tree_is_def)
  have c: "cut_node key a (a # xs) = xs" using cut_node_split [of key "[]" a xs a] s by simp
  have sk: "same_key key a (a # xs) = Some a" by (simp add: same_key_def)
  have af: "after a (rev xs @ [a]) = []" using ascending_distinct [OF s] by (simp add: after_at)
  from deleteavl_ok [OF o t(1), of a] obtain h' t' where d: "deleteavl cmp a h t = Some (Some a, h', t')" "tree_is key h' t' xs"
    "t_wk t' i = walk_back a None (t_wk t i)" unfolding c sk using w(1) af by auto
  obtain tr where tr: "is_tree h' (t_root t') None tr" "nodes tr = xs" using d(2) by (rule tree_isE)
  have "avlprev i h' t' = Some (Some (last xs), set_walk i ((t_wk t' i)\<lparr>w_node := Some (last xs), started := True\<rparr>) t')"
    using outermost_last [OF tr(1)] tr(2) t(2) d(3) w by (simp add: avlprev_def walk_back_def)
  then show ?thesis using d(1) by blast
qed

end
