(* ===== verification/Spec2Isabelle.thy ===== *)
theory Spec2Isabelle
  imports Nix_Prelude Wire Fcall Stat Block Qio Qstream Qsys Netbytes Iproute Ipforest Qlocks Sems Cksum Clock Timers Utf Asm Cleanname Iphash Physalloc Runq Rendez Avl
begin

text \<open>
  A verification library for the NIX kernel (\<open>sys/src/nix\<close>) and the parts of the Plan 9 libraries it
  rests on. The kernel is a set of machine independent parts (\<open>port\<close>), an IP stack (\<open>ip\<close>) and the
  code of the amd64 machine (\<open>k10\<close>). Its parts talk 9P to file servers, move data through queues
  of blocks, find their way through the routing table, wait for each other with queueing locks, and
  wait for time with timers. The library models these, from the C of the kernel, at the level of
  functions, with the interleaving of processes where the code has locks for it.

  \<^bold>\<open>How C is read.\<close> A function that can run into undefined behaviour, a failed assertion or a panic
  returns an option, and \<^term>\<open>None\<close> is that; the error returns of the code are ordinary values. So
  every theorem that a call is \<^term>\<open>Some\<close> of something says also that it is safe. A fixed width
  integer whose wrapping matters is a word (\<open>ulong\<close> and \<open>uint\<close> have 32 bits, \<open>uvlong\<close> and pointers
  64, and the compiler promotes unsigned char and short to unsigned int); lengths and counts the
  code keeps in an \<open>int\<close> and that the properties bound are integers. A loop is a recursion that ends
  by construction, or, where that is in question, a partial function, for which it is proved that
  it returns. What one lock protects is one step of an inductive transition relation; invariants
  hold in all states that can be reached.

  \<^bold>\<open>The theories.\<close>

  \<^item> \<open>Nix_Prelude\<close>: machine types, memory as lists of bytes, C strings, facts about lists and words.

  \<^item> \<open>Wire\<close>, \<open>Fcall\<close>, \<open>Stat\<close>: the 9P messages (\<open>libc/9sys/convS2M.c\<close>, \<open>convM2S.c\<close>, \<open>fcall.h\<close>) and
  directory entries (\<open>convD2M.c\<close>, \<open>convM2D.c\<close>). A locale \<open>fixed_codec\<close> states what an encoder of fixed
  length and its decoder owe each other, and is interpreted on each pair. Proved are the round
  trips of both conversions, that the decoders stay inside any buffer, the image on the wire, and
  where the size computation goes wrong.

  \<^item> \<open>Block\<close>: blocks and chains of blocks (\<open>port/allocb.c\<close>, first half of \<open>port/qio.c\<close>): what each
  operation does to the data of a chain, the accounting of memory taken in interrupts. The locale
  \<open>byte_sink\<close> is the contract of the loops that fill a block.

  \<^item> \<open>Qio\<close>, \<open>Qstream\<close>, \<open>Qsys\<close>: the IO queues (\<open>port/qio.c\<close>): the operations as the critical sections they
  consist of; that \<open>qwrite\<close> and \<open>qread\<close> are a FIFO of bytes; and the system of a reader, a writer and
  others, with the counters, which everything but \<open>pullupqueue\<close> keeps, the conditions under which no wakeup is lost, and two ways in which one is
  when they do not hold.

  \<^item> \<open>Netbytes\<close>: network byte order and version 4 addresses inside version 6 ones (\<open>libip/bo.c\<close>,
  \<open>libip/ipaux.c\<close>).

  \<^item> \<open>Iproute\<close>, \<open>Ipforest\<close>: the routing table (\<open>ip/iproute.c\<close>). One tree of ranges is refined to a map
  from ranges to routes; the forest of trees, over which a route is spread by a hash of its
  addresses, to a map from prefixes. The locale \<open>forest\<close> is what the two address families share and
  \<open>flusher\<close> what the flush loops need; both are interpreted on the two families. Proved are adding,
  deleting, the longest match of lookups with their cache, walking and flushing.

  \<^item> \<open>Qlocks\<close>: QLock and RWlock (\<open>port/qlock.c\<close>), the queue of waiting processes with its links. The
  locale \<open>wait_queue\<close> is the contract of the queue. Mutual exclusion, exact counters, and that a lock
  which falls free is handed to the process that waited longest.

  \<^item> \<open>Sems\<close>: the optimistic semaphores (\<open>port/syssem.c\<close>). At most as many processes as there are tickets
  have one in the runs without three kinds of step (a kill, a non-blocking down that loses a race, a process never woken before that finds a
  ticket came), which are a parameter of the step
  relation; with any of them there is a run in which two processes have the only ticket. A wakeup can be
  lost in plain use.

  \<^item> \<open>Cksum\<close>: the Internet checksum (\<open>ip/ptclbsum.c\<close>, \<open>ptclcsum\<close> of \<open>ip/ipaux.c\<close>) against RFC 1071, over
  the chains of \<open>Block\<close>.

  \<^item> \<open>Clock\<close>, \<open>Timers\<close>: the time of day (\<open>port/tod.c\<close>, \<open>port/mul64fract.c\<close>) and the timers
  (\<open>port/portclock.c\<close>). The locale \<open>tick_conv\<close> is what the timers use of the clock and is
  interpreted on it. The accuracy of the conversions; that the lists of all machines stay in order
  and each machine is set to go off in time; that the interrupt ends and fires what is due.

  \<^item> \<open>Utf\<close>: UTF-8 (\<open>libc/port/rune.c\<close>, \<open>utflen.c\<close>, \<open>utfnlen.c\<close>, \<open>utfecpy.c\<close>, \<open>utfrune.c\<close>): the encoding is a bijection onto what
  the decoder accepts, the string functions agree with the runes, and no copy cuts a rune in two.

  \<^item> \<open>Asm\<close>: the map of the physical address space from which the machine boots (\<open>k10/asm.c\<close>), with its linked
  entries, refined to a partial function from addresses to types: giving back, taking, and announcing ranges. And
  the one case in which an entry is on the map and free at once: what \<open>asmmapinit\<close> does then, and a boot
  (\<open>k10/main.c\<close>, \<open>k10/multiboot.c\<close>) that gets there and never ends.

  \<^item> \<open>Cleanname\<close>: \<open>cleanname\<close> (\<open>libc/port/cleanname.c\<close>), which the kernel applies to path names. The rewriting in place is
  the composition of the elements on a stack, keeps what the name means, and is idempotent.

  \<^item> \<open>Iphash\<close>: the table that finds the conversation a packet is for (\<open>ip/ipaux.c\<close>), refined to the list of the registered
  conversations and a search by the documented precedence.

  \<^item> \<open>Physalloc\<close>: the buddy allocators of physical memory (\<open>k10/physalloc.c\<close>) with their array of buddies, the linked free
  lists and the handing over at boot. Reservation, and liberation of a block whose buddy is in use, refined to the set of free
  bytes; and two runs with pages of one size in which joining buddies loses a page and gives one to two owners.

  \<^item> \<open>Runq\<close>: the run queues and the dispatching of processes to machines (\<open>port/proc.c\<close>). The pointer structure is refined to
  a list for each priority; machines and processes are a transition system with the steps between the locks. Who is ready
  is on one queue, nobody is on two machines, the best process is taken, also while \<open>rebalance\<close> moves processes; all this in the runs
  in which no process structure is reused before its machine let go of it. And two orders of events that the code allows: that one, which breaks it, and
  one that ends in a panic.

  \<^item> \<open>Rendez\<close>: \<open>sleep\<close>, \<open>wakeup\<close> and \<open>postnote\<close> (\<open>port/proc.c\<close>) as a transition system in which every access to what they share is
  a step. The lock of a Rendez and that of a process are taken in two orders; no wakeup and no note is lost, no
  panic happens and no circle of waiting closes.

  \<^item> \<open>Avl\<close>: the balanced trees of \<open>libavl\<close> with their parent pointers, rotations, neighbours and walks, on an explicit memory of nodes.
  Insertion, deletion and search are refined to sorted lists, walks to what they still have before them.

  \<^bold>\<open>Bounds and fuel.\<close> No definition takes fuel. The bounds in the theorems are those of the code: a
  message has at most 16 names and fits \<open>2^32\<close> bytes, a checksum is over less than 64 KB, as an IP
  packet is, a clock is slower than \<open>2^32\<close> Hz.

  \<^bold>\<open>Not modelled.\<close> Statistics, traces, debugging prints and \<open>memset\<close> poisoning in the modelled files; the
  text of the route file; EDF reservations, the dispatcher of core 0 for larger machines and the context switch; and the parts of the kernel and
  of the repository that no theory names. Device drivers, the processor and its interrupt
  controllers answer as hardware does, which the code does not state. The compilers, the several
  hundred commands, the graphics, cryptography and file server programs and the vendored software
  are separate programs.

  \<^bold>\<open>Plan.\<close> Next: tubes, the rings of messages on the semaphores (\<open>port/syssem.c\<close>); the reassembly of fragments
  (\<open>ip/ip.c\<close>); TCP sequence arithmetic and reassembly (\<open>ip/tcp.c\<close>); the allocator of physical segments
  (\<open>port/syszio.c\<close>), where \<open>zmapalloc\<close> follows nil when nothing fits and \<open>zmapfree\<close> looks at the first entry only; alarms and EDF
  admission over \<open>Timers\<close>; the mount driver over \<open>Fcall\<close>; the text of the route file over
  \<open>Ipforest\<close>.
\<close>

end
